(* ===== verification/Prelude.thy ===== *)
theory Prelude
  imports Main "HOL-Library.Word"
begin

text \<open>
  Shared vocabulary of the development: the C integer types as machine words, the ways in which a
  kernel routine can fail to return, and the generic list, arithmetic and bit lemmas the component
  theories have in common.

  \<^item> \<open>fault\<close> names the ways in which a C routine of the kernel does not return a
    value: \<open>Hang\<close> is the source's \<open>printf(...); while (1);\<close> and \<open>Wild\<close>
    stands for an access that the C abstract machine does not define (an index outside an array, a
    null pointer).
  \<^item> \<open>'a result\<close> is the sum of the two, chained by \<open>and_then\<close>.
  \<^item> \<open>heap_simps\<close> collects the rewrite rules for pointer-linked lists, and
    \<open>machine_defs\<close> the small register-level operations.
\<close>

unbundle bit_operations_syntax

type_synonym u8 = "8 word"
type_synonym u16 = "16 word"
type_synonym u32 = "32 word"
type_synonym u64 = "64 word"

named_theorems heap_simps \<open>rewrite rules for lists linked through the heap\<close>
named_theorems machine_defs \<open>definitions of the register-level operations\<close>

subsection \<open>Results\<close>

datatype fault = Hang | Wild

type_synonym 'a result = "fault + 'a"

definition and_then :: "'a result \<Rightarrow> ('a \<Rightarrow> 'b result) \<Rightarrow> 'b result" where
  "and_then r k = (case r of Inl f \<Rightarrow> Inl f | Inr x \<Rightarrow> k x)"

lemma and_then_simps [simp]:
  "and_then (Inl f) k = Inl f"
  "and_then (Inr x) k = k x"
  by (simp_all add: and_then_def)

lemma and_then_eq_Inr:
  "and_then r k = Inr y \<longleftrightarrow> (\<exists>x. r = Inr x \<and> k x = Inr y)"
  by (cases r) auto

lemma and_then_eq_Inl:
  "and_then r k = Inl f \<longleftrightarrow> r = Inl f \<or> (\<exists>x. r = Inr x \<and> k x = Inl f)"
  by (cases r) auto

subsection \<open>Lists\<close>

lemma distinct_hd_notin_tl: "distinct xs \<Longrightarrow> xs \<noteq> [] \<Longrightarrow> hd xs \<notin> set (tl xs)"
  by (cases xs) auto

lemma remove1_hd: "xs \<noteq> [] \<Longrightarrow> remove1 (hd xs) xs = tl xs"
  by (cases xs) auto

lemma remove1_split:
  assumes "x \<notin> set xs"
  shows "remove1 x (xs @ x # ys) = xs @ ys"
  using assms by (simp add: remove1_append)

lemma inj_map_remove1:
  assumes "inj f"
  shows "map f (remove1 x xs) = remove1 (f x) (map f xs)"
  using assms by (induction xs) (auto dest: injD)

lemma set_remove1_distinct:
  "distinct xs \<Longrightarrow> set (remove1 x xs) = set xs - {x}"
  by simp

subsection \<open>Numbers\<close>

lemma unat_u64_bound: "unat (w :: u64) < 2 ^ 64"
  using unsigned_less [of w] by simp

lemma unat_of_nat_u64: "n < 2 ^ 64 \<Longrightarrow> unat (of_nat n :: u64) = n"
  by (simp add: unat_of_nat take_bit_nat_eq_self)

text \<open>Clearing the low bits rounds down to a multiple of the power of two.\<close>

lemma clear_low_word: "NOT (mask n) AND (x :: u64) = push_bit n (drop_bit n x)"
  by (rule bit_word_eqI) (auto simp: bit_and_iff bit_not_iff bit_mask_iff bit_push_bit_iff bit_drop_bit_eq)

lemma unat_clear_low: "unat (NOT (mask n) AND (x :: u64)) = unat x div 2 ^ n * 2 ^ n"
proof -
  have "unat x div 2 ^ n * 2 ^ n \<le> unat x" by simp
  then have "unat x div 2 ^ n * 2 ^ n < 2 ^ 64" using unat_u64_bound [of x] by linarith
  then have "take_bit 64 (unat x div 2 ^ n * 2 ^ n) = unat x div 2 ^ n * 2 ^ n"
    by (rule take_bit_nat_eq_self)
  moreover have "unat (NOT (mask n) AND x) = take_bit 64 (push_bit n (unat (drop_bit n x)))"
    by (simp only: clear_low_word unsigned_push_bit_eq) simp
  moreover have "push_bit n (unat (drop_bit n x)) = unat x div 2 ^ n * 2 ^ n"
    unfolding unat_drop_bit_eq by (simp add: drop_bit_eq_div push_bit_eq_mult)
  ultimately show ?thesis by simp
qed

lemma dvd_pow2_le:
  fixes i :: nat
  assumes "j \<le> k" and "2 ^ k dvd i"
  shows "2 ^ j dvd i"
  using assms by (meson dvd_trans le_imp_power_dvd)

lemma aligned_less_gap:
  fixes a b n :: nat
  assumes "n dvd a" and "n dvd b" and "a < b"
  shows "a + n \<le> b"
proof -
  obtain x y where x: "a = n * x" and y: "b = n * y"
    using assms(1,2) by (auto elim!: dvdE)
  with assms(3) have "x < y"
    by (metis mult_le_mono2 not_le)
  then have "n * Suc x \<le> n * y"
    by (intro mult_le_mono2) simp
  then show ?thesis using x y by simp
qed

text \<open>
  Flipping bit \<open>k\<close> of a number aligned to \<open>2 ^ k\<close> moves to the other half of
  the enclosing block of size \<open>2 ^ Suc k\<close>.
\<close>

lemma bit_aligned_iff_nat:
  fixes i :: nat
  assumes "2 ^ k dvd i"
  shows "bit i k \<longleftrightarrow> \<not> 2 ^ Suc k dvd i"
proof -
  obtain q where q: "i = 2 ^ k * q" using assms by (elim dvdE)
  have "bit i k \<longleftrightarrow> odd q"
    by (simp add: q bit_iff_odd)
  moreover have "2 ^ Suc k dvd i \<longleftrightarrow> even q"
    by (simp add: q)
  ultimately show ?thesis by simp
qed

lemma xor_pow2_nat:
  fixes i :: nat
  shows "i XOR 2 ^ k = (if bit i k then i - 2 ^ k else i + 2 ^ k)"
proof (cases "bit i k")
  case True
  have split: "i = (i - 2 ^ k) + 2 ^ k"
  proof -
    have "2 ^ k \<le> i"
    proof (rule ccontr)
      assume "\<not> 2 ^ k \<le> i"
      then have "i div 2 ^ k = 0" by simp
      then show False using True by (simp add: bit_iff_odd)
    qed
    then show ?thesis by simp
  qed
  have "i XOR 2 ^ k = unset_bit k i"
    by (rule bit_eqI) (use True in \<open>auto simp: bit_xor_iff bit_exp_iff bit_unset_bit_iff\<close>)
  moreover have "unset_bit k i = i - 2 ^ k"
  proof -
    have "unset_bit k i + 2 ^ k = i"
    proof -
      have "(unset_bit k i) OR 2 ^ k = i"
        by (rule bit_eqI) (use True in \<open>auto simp: bit_or_iff bit_exp_iff bit_unset_bit_iff\<close>)
      moreover have "(unset_bit k i) OR 2 ^ k = unset_bit k i + 2 ^ k"
        by (rule disjunctive_add [symmetric]) (auto simp: bit_exp_iff bit_unset_bit_iff)
      ultimately show ?thesis by simp
    qed
    then show ?thesis by simp
  qed
  ultimately show ?thesis using True by simp
next
  case False
  have "i XOR 2 ^ k = i OR 2 ^ k"
    by (rule bit_eqI) (use False in \<open>auto simp: bit_xor_iff bit_or_iff bit_exp_iff\<close>)
  also have "\<dots> = i + 2 ^ k"
    by (rule disjunctive_add [symmetric]) (use False in \<open>auto simp: bit_exp_iff\<close>)
  finally show ?thesis using False by simp
qed

lemma xor_pow2_aligned:
  fixes i :: nat
  assumes "2 ^ k dvd i"
  shows "i XOR 2 ^ k = (if 2 ^ Suc k dvd i then i + 2 ^ k else i - 2 ^ k)"
  using xor_pow2_nat [of i k] bit_aligned_iff_nat [OF assms] by simp

end
