(* ===== verification/Tiling.thy ===== *)
theory Tiling
  imports Prelude
begin

text \<open>
  The arithmetic of buddy blocks, independent of how the allocator stores them. A block is a pair of
  a first page (an offset from the beginning of its zone) and an order; it holds \<open>2 ^ order\<close>
  pages. \<open>tiles b n B\<close> says that the blocks \<open>B\<close> are aligned (relative to page
  number 0, the zone beginning at page \<open>b\<close>), pairwise disjoint and together exactly the
  \<open>n\<close> pages of the zone. Splitting, merging and fusing blocks are instances of one
  replacement lemma.
\<close>

type_synonym block = "nat \<times> nat"

definition pages_of :: "block \<Rightarrow> nat set" where
  "pages_of x = {fst x ..< fst x + 2 ^ snd x}"

definition aligned :: "nat \<Rightarrow> block \<Rightarrow> bool" where
  "aligned b x \<longleftrightarrow> 2 ^ snd x dvd b + fst x"

definition tiles :: "nat \<Rightarrow> nat \<Rightarrow> block set \<Rightarrow> bool" where
  "tiles b n B \<longleftrightarrow>
     (\<forall>x\<in>B. aligned b x) \<and>
     (\<forall>x\<in>B. \<forall>y\<in>B. x \<noteq> y \<longrightarrow> pages_of x \<inter> pages_of y = {}) \<and>
     \<Union> (pages_of ` B) = {..<n}"

lemma in_pages_of [simp]: "i \<in> pages_of (p, k) \<longleftrightarrow> p \<le> i \<and> i < p + 2 ^ k"
  by (simp add: pages_of_def)

lemma fst_in_pages_of [simp]: "fst x \<in> pages_of x"
  by (simp add: pages_of_def)

lemma tiles_aligned: "tiles b n B \<Longrightarrow> (p, k) \<in> B \<Longrightarrow> 2 ^ k dvd b + p"
  by (auto simp: tiles_def aligned_def)

lemma tiles_disjoint: "tiles b n B \<Longrightarrow> x \<in> B \<Longrightarrow> y \<in> B \<Longrightarrow> x \<noteq> y \<Longrightarrow> pages_of x \<inter> pages_of y = {}"
  unfolding tiles_def by blast

lemma tiles_unique:
  "tiles b n B \<Longrightarrow> x \<in> B \<Longrightarrow> y \<in> B \<Longrightarrow> i \<in> pages_of x \<Longrightarrow> i \<in> pages_of y \<Longrightarrow> x = y"
  using tiles_disjoint by blast

lemma tiles_cover: "tiles b n B \<Longrightarrow> \<Union> (pages_of ` B) = {..<n}"
  by (simp add: tiles_def)

lemma tiles_bound: "tiles b n B \<Longrightarrow> (p, k) \<in> B \<Longrightarrow> p + 2 ^ k \<le> n"
proof -
  assume t: "tiles b n B" and x: "(p, k) \<in> B"
  have "(1 :: nat) \<le> 2 ^ k" by simp
  then have "p + 2 ^ k - 1 \<in> pages_of (p, k)" unfolding in_pages_of by linarith
  then have "p + 2 ^ k - 1 \<in> {..<n}" using tiles_cover [OF t] x by blast
  then show ?thesis by simp
qed

lemma tiles_head_less: "tiles b n B \<Longrightarrow> (p, k) \<in> B \<Longrightarrow> p < n"
  using tiles_bound [of b n B p k] less_le_trans [of p "p + 2 ^ k" n] by simp

lemma tiles_obtain:
  assumes "tiles b n B" and "i < n"
  obtains p k where "(p, k) \<in> B" and "p \<le> i" and "i < p + 2 ^ k"
proof -
  have "i \<in> \<Union> (pages_of ` B)" using assms tiles_cover by blast
  then show ?thesis using that by auto
qed

text \<open>One block per head.\<close>

lemma tiles_order_unique: "tiles b n B \<Longrightarrow> (p, j) \<in> B \<Longrightarrow> (p, k) \<in> B \<Longrightarrow> j = k"
  using tiles_unique [of b n B "(p, j)" "(p, k)" p] by simp

text \<open>Replacing some blocks by others that hold the same pages.\<close>

lemma tiles_replace:
  assumes t: "tiles b n B" and C: "C \<subseteq> B" and al: "\<forall>x\<in>D. aligned b x"
    and dj: "\<forall>x\<in>D. \<forall>y\<in>D. x \<noteq> y \<longrightarrow> pages_of x \<inter> pages_of y = {}"
    and same: "\<Union> (pages_of ` D) = \<Union> (pages_of ` C)"
  shows "tiles b n (B - C \<union> D)"
proof -
  have cross: "pages_of x \<inter> pages_of y = {}" if "x \<in> B - C" "y \<in> D" for x y
  proof -
    have "pages_of x \<inter> pages_of c = {}" if "c \<in> C" for c
      using tiles_disjoint [OF t] \<open>x \<in> B - C\<close> C that by blast
    moreover have "pages_of y \<subseteq> \<Union> (pages_of ` C)" using same \<open>y \<in> D\<close> by blast
    ultimately show ?thesis by blast
  qed
  have "B = (B - C) \<union> C" using C by blast
  then have "\<Union> (pages_of ` (B - C \<union> D)) = \<Union> (pages_of ` B)"
    using same by (metis UN_Un)
  moreover have "\<forall>x\<in>B - C \<union> D. aligned b x" using t al by (auto simp: tiles_def)
  moreover have "pages_of x \<inter> pages_of y = {}"
    if "x \<in> B - C \<union> D" "y \<in> B - C \<union> D" "x \<noteq> y" for x y
  proof -
    consider "x \<in> B - C" "y \<in> B - C" | "x \<in> D" "y \<in> D" | "x \<in> B - C" "y \<in> D" | "x \<in> D" "y \<in> B - C"
      using \<open>x \<in> B - C \<union> D\<close> \<open>y \<in> B - C \<union> D\<close> by blast
    then show ?thesis
    proof cases
      case 1
      then show ?thesis using tiles_disjoint [OF t] that(3) by blast
    next
      case 2
      then show ?thesis using dj that(3) by blast
    next
      case 3
      then show ?thesis by (rule cross)
    next
      case 4
      then show ?thesis using cross [of y x] by blast
    qed
  qed
  ultimately show ?thesis using t unfolding tiles_def by simp
qed

text \<open>The two halves of a block.\<close>

lemma pages_of_halves: "pages_of (p, Suc k) = pages_of (p, k) \<union> pages_of (p + 2 ^ k, k)"
  by (auto simp: pages_of_def)

lemma halves_disjoint: "pages_of (p, k) \<inter> pages_of (p + 2 ^ k, k) = {}"
  by (auto simp: pages_of_def)

lemma tiles_split:
  assumes "tiles b n B" and "(p, Suc k) \<in> B"
  shows "tiles b n (B - {(p, Suc k)} \<union> {(p, k), (p + 2 ^ k, k)})"
proof (rule tiles_replace [OF assms(1)])
  have al: "2 ^ Suc k dvd b + p" using assms by (rule tiles_aligned)
  then have "2 ^ k dvd b + p" by (rule dvd_pow2_le [OF le_SucI [OF order_refl]])
  then show "\<forall>x\<in>{(p, k), (p + 2 ^ k, k)}. aligned b x"
    by (simp add: aligned_def add.assoc [symmetric])
  show "\<forall>x\<in>{(p, k), (p + 2 ^ k, k)}. \<forall>y\<in>{(p, k), (p + 2 ^ k, k)}.
      x \<noteq> y \<longrightarrow> pages_of x \<inter> pages_of y = {}"
    using halves_disjoint [of p k] by auto
  show "\<Union> (pages_of ` {(p, k), (p + 2 ^ k, k)}) = \<Union> (pages_of ` {(p, Suc k)})"
    by (simp add: pages_of_halves)
qed (use assms in auto)

lemma tiles_merge:
  assumes "tiles b n B" and "(p, k) \<in> B" and "(p + 2 ^ k, k) \<in> B" and "2 ^ Suc k dvd b + p"
  shows "tiles b n (B - {(p, k), (p + 2 ^ k, k)} \<union> {(p, Suc k)})"
proof (rule tiles_replace [OF assms(1)])
  show "\<forall>x\<in>{(p, Suc k)}. aligned b x" using assms(4) by (simp add: aligned_def)
  show "\<Union> (pages_of ` {(p, Suc k)}) = \<Union> (pages_of ` {(p, k), (p + 2 ^ k, k)})"
    by (simp add: pages_of_halves)
qed (use assms in auto)

text \<open>A run of single pages becomes one block.\<close>

lemma tiles_fuse:
  assumes "tiles b n B" and "\<forall>i\<in>pages_of (p, k). (i, 0) \<in> B" and "2 ^ k dvd b + p"
  shows "tiles b n (B - (\<lambda>i. (i, 0)) ` pages_of (p, k) \<union> {(p, k)})"
proof (rule tiles_replace [OF assms(1)])
  show "\<forall>x\<in>{(p, k)}. aligned b x" using assms(3) by (simp add: aligned_def)
  show "\<Union> (pages_of ` {(p, k)}) = \<Union> (pages_of ` ((\<lambda>i. (i, 0)) ` pages_of (p, k)))"
    by (auto simp: pages_of_def)
qed (use assms in auto)

text \<open>
  The buddy of a block of the tiling is itself one block, or it is cut into smaller ones; it is
  never inside a larger one. So if its head page heads a block of the tiling at all, that
  block has order at most \<open>k\<close>.
\<close>

lemma buddy_head:
  assumes t: "tiles b n B" and x: "(p, k) \<in> B" and q: "q < n"
    and buddy: "(b + p) XOR 2 ^ k = b + q"
  obtains j where "(q, j) \<in> B" and "j \<le> k"
proof -
  have al: "2 ^ k dvd b + p" using t x by (rule tiles_aligned)
  have bq: "b + q = (if 2 ^ Suc k dvd b + p then b + p + 2 ^ k else b + p - 2 ^ k)"
    using xor_pow2_aligned [OF al] buddy by simp
  have ge: "2 ^ k \<le> b + p" if "\<not> 2 ^ Suc k dvd b + p"
    using that al by (metis dvd_0_right dvd_imp_le neq0_conv)
  have alq: "2 ^ k dvd b + q" using bq al ge by (auto simp: dvd_diff_nat)
  obtain r j where r: "(r, j) \<in> B" "r \<le> q" "q < r + 2 ^ j" using tiles_obtain [OF t q] .
  have alr: "2 ^ j dvd b + r" using t r(1) by (rule tiles_aligned)
  have "j \<le> k"
  proof (rule ccontr)
    assume "\<not> j \<le> k"
    then have jk: "Suc k \<le> j" by simp
    have alr': "2 ^ Suc k dvd b + r" using dvd_pow2_le [OF jk alr] .
    have end': "2 ^ Suc k dvd b + r + 2 ^ j"
      using alr' le_imp_power_dvd [OF jk, of "2 :: nat"] by (rule dvd_add)
    have "r \<le> p \<and> p < r + 2 ^ j"
    proof (cases "2 ^ Suc k dvd b + p")
      case True
      then have q_eq: "q = p + 2 ^ k" using bq by simp
      have "r \<le> p"
      proof (rule ccontr)
        assume "\<not> r \<le> p"
        then have "b + p + 2 ^ Suc k \<le> b + r" using aligned_less_gap [OF True alr'] by simp
        moreover have "(2 :: nat) ^ k < 2 ^ Suc k" by simp
        ultimately show False using r(2) q_eq by linarith
      qed
      then show ?thesis using r q_eq by simp
    next
      case False
      then have p_eq: "p = q + 2 ^ k" using bq ge by simp
      have alq': "2 ^ Suc k dvd b + q"
      proof -
        obtain m where m: "b + p = 2 ^ k * m" using al by (elim dvdE)
        then have "odd m" using False by (auto elim!: evenE simp: mult.assoc)
        then obtain l where "m = 2 * l + 1" by (elim oddE)
        then have "b + q = 2 ^ Suc k * l" using m p_eq by (simp add: algebra_simps)
        then show ?thesis by simp
      qed
      have "b + q < b + r + 2 ^ j" using r(3) by simp
      then have "b + q + 2 ^ Suc k \<le> b + r + 2 ^ j"
        using aligned_less_gap [OF alq' end'] by simp
      moreover have "(2 :: nat) ^ k < 2 ^ Suc k" by simp
      ultimately show ?thesis using r p_eq by linarith
    qed
    then have "(p, k) = (r, j)" using tiles_unique [OF t x r(1), of p] by simp
    then show False using jk by simp
  qed
  moreover have "r = q"
  proof (rule ccontr)
    assume "r \<noteq> q"
    then have "b + r < b + q" using r(2) by simp
    then have "b + r + 2 ^ j \<le> b + q"
      by (rule aligned_less_gap [OF alr dvd_pow2_le [OF \<open>j \<le> k\<close> alq]])
    then show False using r(3) by simp
  qed
  ultimately show thesis using r(1) that by blast
qed

text \<open>Merging the two halves: the left one stays and is aligned to the next order.\<close>

lemma buddy_min:
  fixes b p q k :: nat
  assumes al: "2 ^ k dvd b + p" and buddy: "(b + p) XOR 2 ^ k = b + q"
  defines "m \<equiv> (if b + q < b + p then q else p)"
  shows "2 ^ Suc k dvd b + m" and "{(p, k), (q, k)} = {(m, k), (m + 2 ^ k, k)}" and "p \<noteq> q"
proof -
  have pos: "(0 :: nat) < 2 ^ k" by simp
  have "2 ^ Suc k dvd b + m \<and> {(p, k), (q, k)} = {(m, k), (m + 2 ^ k, k)} \<and> p \<noteq> q"
  proof (cases "2 ^ Suc k dvd b + p")
    case True
    then have "b + q = b + p + 2 ^ k" using xor_pow2_aligned [OF al] buddy by simp
    then show ?thesis using True pos by (auto simp: m_def)
  next
    case False
    then have ge: "2 ^ k \<le> b + p" using al by (metis dvd_0_right dvd_imp_le neq0_conv)
    then have e: "b + p = b + q + 2 ^ k"
      using xor_pow2_aligned [OF al] buddy False by simp
    obtain l where l: "b + p = 2 ^ k * l" using al by (elim dvdE)
    then have "odd l" using False by (auto elim!: evenE simp: mult.assoc)
    then obtain i where "l = 2 * i + 1" by (elim oddE)
    then have "b + q = 2 ^ Suc k * i" using l e by (simp add: algebra_simps)
    then have "2 ^ Suc k dvd b + q" by simp
    then show ?thesis using e pos by (auto simp: m_def)
  qed
  then show "2 ^ Suc k dvd b + m" and "{(p, k), (q, k)} = {(m, k), (m + 2 ^ k, k)}" and "p \<noteq> q"
    by blast+
qed

end
