(* ===== verification/CList.thy ===== *)
theory CList
  imports Prelude
begin

text \<open>
  The intrusive circular doubly linked lists of \<open>inc/list.h\<close> and \<open>src/list.c\<close>.

  A \<open>struct list_head\<close> is a node of an arbitrary type \<open>'n\<close> (the client's name for
  the address of the field), and the two pointers of all nodes form a heap \<open>'n links\<close>. Every
  operation is the source's sequence of pointer writes. \<open>dlist h l xs\<close> says that the
  circular list with head \<open>l\<close> holds exactly the nodes \<open>xs\<close>, and
  \<open>dlists\<close> extends this to a family of pairwise disjoint lists in the same heap.
  The locale \<open>list_store\<close> is the interface the clients (free lists, ready queue, wait
  queues) rely on.
\<close>

record 'n links =
  nxt :: "'n \<Rightarrow> 'n"
  prv :: "'n \<Rightarrow> 'n"

subsection \<open>The operations\<close>

definition list_init :: "'n \<Rightarrow> 'n links \<Rightarrow> 'n links" where
  "list_init l h =
     (let h1 = h\<lparr>prv := (prv h)(l := l)\<rparr>
      in h1\<lparr>nxt := (nxt h1)(l := l)\<rparr>)"

definition list_insert :: "'n \<Rightarrow> 'n \<Rightarrow> 'n \<Rightarrow> 'n links \<Rightarrow> 'n links" where
  "list_insert node prev next h =
     (let h1 = h\<lparr>prv := (prv h)(node := prev)\<rparr>;
          h2 = h1\<lparr>nxt := (nxt h1)(node := next)\<rparr>;
          h3 = h2\<lparr>nxt := (nxt h2)(prev := node)\<rparr>
      in h3\<lparr>prv := (prv h3)(next := node)\<rparr>)"

definition list_add_tail :: "'n \<Rightarrow> 'n \<Rightarrow> 'n links \<Rightarrow> 'n links" where
  "list_add_tail node l h = list_insert node (prv h l) l h"

definition list_add :: "'n \<Rightarrow> 'n \<Rightarrow> 'n links \<Rightarrow> 'n links" where
  "list_add node l h = list_insert node l (nxt h l) h"

definition list_add_after :: "'n \<Rightarrow> 'n \<Rightarrow> 'n links \<Rightarrow> 'n links" where
  "list_add_after node ptr h = list_add node ptr h"

definition list_add_before :: "'n \<Rightarrow> 'n \<Rightarrow> 'n links \<Rightarrow> 'n links" where
  "list_add_before node ptr h = list_add_tail node ptr h"

definition list_del :: "'n \<Rightarrow> 'n links \<Rightarrow> 'n links" where
  "list_del node h =
     (let prev = prv h node; next = nxt h node;
          h1 = h\<lparr>nxt := (nxt h)(prev := next)\<rparr>
      in h1\<lparr>prv := (prv h1)(next := prev)\<rparr>)"

definition do_list_splice :: "'n \<Rightarrow> 'n \<Rightarrow> 'n \<Rightarrow> 'n links \<Rightarrow> 'n links" where
  "do_list_splice first final prev h =
     (let next = nxt h prev;
          h1 = h\<lparr>prv := (prv h)(first := prev)\<rparr>;
          h2 = h1\<lparr>nxt := (nxt h1)(final := next)\<rparr>;
          h3 = h2\<lparr>nxt := (nxt h2)(prev := first)\<rparr>
      in h3\<lparr>prv := (prv h3)(next := final)\<rparr>)"

definition list_empty :: "'n \<Rightarrow> 'n links \<Rightarrow> bool" where
  "list_empty l h \<longleftrightarrow> nxt h l = l"

definition list_splice :: "'n \<Rightarrow> 'n \<Rightarrow> 'n links \<Rightarrow> 'n links" where
  "list_splice src dst h =
     (if list_empty src h then h
      else let first = nxt h src; final = prv h src
           in do_list_splice first final dst (list_init src h))"

definition list_splice_tail :: "'n \<Rightarrow> 'n \<Rightarrow> 'n links \<Rightarrow> 'n links" where
  "list_splice_tail src dst h =
     (if list_empty src h then h
      else let first = nxt h src; final = prv h src; h1 = list_init src h
           in do_list_splice first final (prv h1 dst) h1)"

text \<open>
  The clients' loop \<open>for (ptr = head->next; ptr != head; ptr = ptr->next)\<close>, as the list of
  nodes it visits; \<open>None\<close> when it never comes back to the head.
\<close>

partial_function (option) list_walk :: "'n links \<Rightarrow> 'n \<Rightarrow> 'n \<Rightarrow> 'n list option" where
  "list_walk h head ptr =
     (if ptr = head then Some []
      else Option.bind (list_walk h head (nxt h ptr)) (\<lambda>xs. Some (ptr # xs)))"

subsection \<open>Paths and lists in the heap\<close>

text \<open>\<open>lpath h a xs b\<close>: following the links from \<open>a\<close> visits \<open>xs\<close> and arrives at \<open>b\<close>, and back.\<close>

fun lpath :: "'n links \<Rightarrow> 'n \<Rightarrow> 'n list \<Rightarrow> 'n \<Rightarrow> bool" where
  "lpath h a [] b \<longleftrightarrow> nxt h a = b \<and> prv h b = a"
| "lpath h a (x # xs) b \<longleftrightarrow> nxt h a = x \<and> prv h x = a \<and> lpath h x xs b"

definition dlist :: "'n links \<Rightarrow> 'n \<Rightarrow> 'n list \<Rightarrow> bool" where
  "dlist h l xs \<longleftrightarrow> distinct (l # xs) \<and> lpath h l xs l"

lemma lpath_append [heap_simps]:
  "lpath h a (xs @ y # ys) b \<longleftrightarrow> lpath h a xs y \<and> lpath h y ys b"
  by (induction xs arbitrary: a) auto

lemma lpath_first: "lpath h a xs b \<Longrightarrow> nxt h a = hd (xs @ [b])"
  by (cases xs) auto

lemma lpath_last: "lpath h a xs b \<Longrightarrow> prv h b = last (a # xs)"
  by (induction xs arbitrary: a) auto

text \<open>A path only depends on the forward links of its sources and the backward links of its targets.\<close>

lemma lpath_cong:
  assumes "\<And>x. x \<in> set (a # xs) \<Longrightarrow> nxt h' x = nxt h x"
    and "\<And>x. x \<in> set (xs @ [b]) \<Longrightarrow> prv h' x = prv h x"
  shows "lpath h' a xs b \<longleftrightarrow> lpath h a xs b"
  using assms by (induction xs arbitrary: a) auto

lemma dlist_cong:
  assumes "\<And>x. x \<in> set (l # xs) \<Longrightarrow> nxt h' x = nxt h x \<and> prv h' x = prv h x"
  shows "dlist h' l xs \<longleftrightarrow> dlist h l xs"
  unfolding dlist_def by (rule conj_cong [OF refl], rule lpath_cong) (use assms in auto)

lemma dlist_distinct: "dlist h l xs \<Longrightarrow> distinct (l # xs)"
  by (simp add: dlist_def)

lemma dlist_next: "dlist h l xs \<Longrightarrow> nxt h l = hd (xs @ [l])"
  by (simp add: dlist_def lpath_first)

lemma dlist_prev: "dlist h l xs \<Longrightarrow> prv h l = last (l # xs)"
  unfolding dlist_def by (blast dest: lpath_last)

lemma list_empty_iff: "dlist h l xs \<Longrightarrow> list_empty l h \<longleftrightarrow> xs = []"
  by (cases xs) (auto simp: list_empty_def dlist_def)

lemma dlist_unique:
  "dlist h l xs \<Longrightarrow> dlist h l ys \<Longrightarrow> xs = ys"
proof -
  have *: "xs = ys"
    if "lpath h a xs l" "lpath h a ys l" "l \<notin> set xs" "l \<notin> set ys" for a
    using that
  proof (induction xs arbitrary: a ys)
    case Nil
    then show ?case by (cases ys) auto
  next
    case (Cons x xs)
    then obtain y zs where "ys = y # zs" by (cases ys) auto
    with Cons show ?case by auto
  qed
  assume "dlist h l xs" "dlist h l ys"
  then show ?thesis by (auto simp: dlist_def intro: *)
qed

text \<open>A loop over a well-formed list stops and visits its nodes in order.\<close>

lemma list_walk_path:
  "lpath h a xs l \<Longrightarrow> l \<notin> set xs \<Longrightarrow> list_walk h l (nxt h a) = Some xs"
proof (induction xs arbitrary: a)
  case Nil
  then show ?case by (simp add: list_walk.simps)
next
  case (Cons x xs)
  from Cons.prems have "nxt h a = x" "lpath h x xs l" "x \<noteq> l" "l \<notin> set xs" by auto
  with Cons.IH [of x] show ?case by (simp add: list_walk.simps [of h l x])
qed

lemma list_walk_dlist: "dlist h l xs \<Longrightarrow> list_walk h l (nxt h l) = Some xs"
  by (simp add: dlist_def list_walk_path)

subsection \<open>Every operation implements the list operation it stands for\<close>

lemma dlist_init: "dlist (list_init l h) l []"
  by (simp add: dlist_def list_init_def)

lemma list_insert_next:
  "nxt (list_insert n p x h) = (nxt h)(n := x, p := n)"
  by (simp add: list_insert_def Let_def)

lemma list_insert_prev:
  "prv (list_insert n p x h) = (prv h)(n := p, x := n)"
  by (simp add: list_insert_def Let_def)

lemma list_del_next: "nxt (list_del n h) = (nxt h)(prv h n := nxt h n)"
  by (simp add: list_del_def Let_def)

lemma list_del_prev: "prv (list_del n h) = (prv h)(nxt h n := prv h n)"
  by (simp add: list_del_def Let_def)

lemmas link_writes [heap_simps] =
  list_insert_next list_insert_prev list_del_next list_del_prev

text \<open>Inserting a fresh node between two neighbours of a path.\<close>

lemma lpath_insert:
  assumes path: "lpath h a (xs @ ys) b"
    and dist: "distinct (xs @ ys)" "a \<notin> set (xs @ ys)" "b \<notin> set (xs @ ys)"
    and fresh: "n \<noteq> a" "n \<noteq> b" "n \<notin> set (xs @ ys)"
    and p: "p = last (a # xs)" and x: "x = hd (ys @ [b])"
  shows "lpath (list_insert n p x h) a (xs @ n # ys) b"
proof -
  let ?h = "list_insert n p x h"
  have split: "lpath h a xs x \<and> lpath h p ys b"
    if "lpath h a (xs @ ys) b"
  proof (cases ys)
    case Nil
    with that p x show ?thesis by (cases xs rule: rev_cases) (auto simp: lpath_append)
  next
    case (Cons y zs)
    with that p x show ?thesis
      by (cases xs rule: rev_cases) (auto simp: lpath_append)
  qed
  then have px: "lpath h a xs x" "lpath h p ys b" using path by auto
  have pnotin: "p \<notin> set ys" "p \<noteq> n" using dist fresh p by (cases xs rule: rev_cases; auto)+
  have xnotin: "x \<notin> set xs" "x \<noteq> n" using dist fresh x by (cases ys; auto)+
  have "lpath ?h a xs n"
  proof (cases xs rule: rev_cases)
    case Nil
    then show ?thesis using p xnotin by (simp add: link_writes)
  next
    case (snoc us u)
    then have u: "u = p" using p by simp
    have "lpath h a us u" using px(1) snoc by (simp add: lpath_append)
    moreover have "lpath ?h a us u = lpath h a us u"
      by (rule lpath_cong) (use snoc dist fresh u xnotin in \<open>auto simp: link_writes\<close>)
    ultimately show ?thesis using snoc u xnotin by (auto simp: lpath_append link_writes)
  qed
  moreover have "lpath ?h n ys b"
  proof (cases ys)
    case Nil
    then show ?thesis using x pnotin by (simp add: link_writes)
  next
    case (Cons v vs)
    then have v: "v = x" using x by simp
    have "lpath h v vs b" using px(2) Cons by simp
    moreover have "lpath ?h v vs b = lpath h v vs b"
      by (rule lpath_cong) (use Cons dist fresh v pnotin in \<open>auto simp: link_writes\<close>)
    ultimately show ?thesis using Cons v pnotin by (auto simp: link_writes)
  qed
  ultimately show ?thesis by (simp add: lpath_append)
qed


lemma dlist_add_tail:
  assumes "dlist h l xs" and "n \<noteq> l" and "n \<notin> set xs"
  shows "dlist (list_add_tail n l h) l (xs @ [n])"
proof -
  have "lpath (list_insert n (prv h l) l h) l (xs @ n # []) l"
    by (rule lpath_insert) (use assms dlist_prev [OF assms(1)] in \<open>auto simp: dlist_def\<close>)
  then show ?thesis using assms by (auto simp: dlist_def list_add_tail_def)
qed

lemma dlist_add:
  assumes "dlist h l xs" and "n \<noteq> l" and "n \<notin> set xs"
  shows "dlist (list_add n l h) l (n # xs)"
proof -
  have "lpath (list_insert n l (nxt h l) h) l ([] @ n # xs) l"
    by (rule lpath_insert) (use assms dlist_next [OF assms(1)] in \<open>auto simp: dlist_def\<close>)
  then show ?thesis using assms by (auto simp: dlist_def list_add_def)
qed

text \<open>Insertion before a node that is in the list (\<open>list_add_before\<close>).\<close>

lemma dlist_add_before:
  assumes "dlist h l (xs @ p # ys)" and "n \<noteq> l" and "n \<notin> set (xs @ p # ys)"
  shows "dlist (list_add_before n p h) l (xs @ n # p # ys)"
proof -
  have "lpath h l xs p" using assms(1) by (simp add: dlist_def lpath_append)
  then have "prv h p = last (l # xs)" by (rule lpath_last)
  then have "lpath (list_insert n (prv h p) p h) l (xs @ n # (p # ys)) l"
    using assms by (intro lpath_insert) (auto simp: dlist_def)
  then show ?thesis
    using assms by (auto simp: dlist_def list_add_before_def list_add_tail_def)
qed

lemma dlist_del_split:
  assumes "dlist h l (xs @ n # ys)"
  shows "dlist (list_del n h) l (xs @ ys)"
proof -
  let ?h = "list_del n h"
  have d: "distinct (l # xs @ n # ys)" and p: "lpath h l xs n" "lpath h n ys l"
    using assms by (auto simp: dlist_def lpath_append)
  have pn: "prv h n = last (l # xs)" using p(1) by (rule lpath_last)
  have nn: "nxt h n = hd (ys @ [l])" using p(2) by (rule lpath_first)
  have "lpath ?h l (xs @ ys) l"
  proof (cases ys)
    case Nil
    have "lpath ?h l xs l"
    proof (cases xs rule: rev_cases)
      case Nil
      then show ?thesis using \<open>ys = []\<close> pn nn by (simp add: link_writes)
    next
      case (snoc us u)
      have "lpath ?h l us u = lpath h l us u"
        by (rule lpath_cong) (use snoc d pn nn \<open>ys = []\<close> in \<open>auto simp: link_writes\<close>)
      then show ?thesis using snoc p(1) pn nn \<open>ys = []\<close> by (simp add: lpath_append link_writes)
    qed
    then show ?thesis using Nil by simp
  next
    case (Cons v vs)
    have tail: "lpath ?h v vs l"
    proof -
      have "lpath ?h v vs l = lpath h v vs l"
        by (rule lpath_cong) (use Cons d pn nn in \<open>cases xs rule: rev_cases; auto simp: link_writes\<close>)+
      then show ?thesis using p(2) Cons by simp
    qed
    have "lpath ?h l xs v"
    proof (cases xs rule: rev_cases)
      case Nil
      then show ?thesis using Cons pn nn by (simp add: link_writes)
    next
      case (snoc us u)
      have "lpath ?h l us u = lpath h l us u"
        by (rule lpath_cong) (use snoc d pn nn Cons in \<open>auto simp: link_writes\<close>)
      then show ?thesis using snoc p(1) pn nn Cons by (simp add: lpath_append link_writes)
    qed
    with tail Cons show ?thesis by (simp add: lpath_append)
  qed
  with d show ?thesis by (auto simp: dlist_def)
qed

lemma dlist_del:
  assumes "dlist h l xs" and "n \<in> set xs"
  shows "dlist (list_del n h) l (remove1 n xs)"
proof -
  obtain us vs where xs: "xs = us @ n # vs" and "n \<notin> set us"
    using split_list_first [OF assms(2)] by blast
  then have "remove1 n xs = us @ vs" by (simp add: remove1_split)
  then show ?thesis using assms(1) xs dlist_del_split by metis
qed


text \<open>Splicing moves the whole source list in front of (or behind) the destination list.\<close>

lemma do_list_splice_next:
  "nxt (do_list_splice f z p h) = (nxt h)(z := nxt h p, p := f)"
  by (simp add: do_list_splice_def Let_def)

lemma do_list_splice_prev:
  "prv (do_list_splice f z p h) = (prv h)(f := p, nxt h p := z)"
  by (simp add: do_list_splice_def Let_def)

lemma list_init_next: "nxt (list_init l h) = (nxt h)(l := l)"
  by (simp add: list_init_def Let_def)

lemma list_init_prev: "prv (list_init l h) = (prv h)(l := l)"
  by (simp add: list_init_def Let_def)

lemmas splice_writes [heap_simps] =
  do_list_splice_next do_list_splice_prev list_init_next list_init_prev

lemma lpath_cut:
  assumes "lpath h a (us @ vs) b"
  shows "lpath h a us (hd (vs @ [b]))" and "lpath h (last (a # us)) vs b"
proof -
  show "lpath h a us (hd (vs @ [b]))"
    using assms by (cases vs) (auto simp: lpath_append)
  show "lpath h (last (a # us)) vs b"
    using assms by (cases us rule: rev_cases) (auto simp: lpath_append)
qed

lemma lpath_paste:
  assumes "lpath h a us (hd (vs @ [b]))" and "lpath h (last (a # us)) vs b"
  shows "lpath h a (us @ vs) b"
proof (cases vs)
  case Nil
  then show ?thesis using assms by simp
next
  case (Cons v ws)
  then show ?thesis using assms by (simp add: lpath_append)
qed

lemma lpath_splice:
  assumes path: "lpath h a (us @ vs) b" and ne: "xs \<noteq> []"
    and seg: "lpath h0 s xs t"
    and same: "\<And>n. n \<in> set xs \<Longrightarrow> nxt h n = nxt h0 n \<and> prv h n = prv h0 n"
    and dist: "distinct (us @ xs @ vs)" "a \<notin> set (us @ xs @ vs)" "b \<notin> set (us @ xs @ vs)"
    and p: "p = last (a # us)"
  shows "lpath (do_list_splice (hd xs) (last xs) p h) a (us @ xs @ vs) b"
proof -
  let ?h = "do_list_splice (hd xs) (last xs) p h"
  note cut = lpath_cut [OF path, folded p]
  have np: "nxt h p = hd (vs @ [b])" using cut(2) by (rule lpath_first)
  have hdxs: "hd xs \<in> set xs" and lastxs: "last xs \<in> set xs" using ne by auto
  have pin: "p \<in> set (a # us)" by (simp only: p last_in_set list.distinct not_False_eq_True)
  have xin: "hd (vs @ [b]) \<in> set (vs @ [b])" by (cases vs) auto
  have pnotin: "p \<notin> set xs" "p \<notin> set vs" using pin dist by auto
  have xnotin: "hd (vs @ [b]) \<notin> set xs" "hd (vs @ [b]) \<notin> set us" using xin dist by auto
  have left: "lpath ?h a us (hd xs)"
  proof (cases us rule: rev_cases)
    case Nil
    then show ?thesis using p xnotin hdxs pnotin lastxs np
      by (auto simp: splice_writes)
  next
    case (snoc ws w)
    have "lpath ?h a ws w = lpath h a ws w"
      by (rule lpath_cong)
        (use np snoc dist p pin hdxs lastxs xnotin in \<open>auto simp: splice_writes\<close>)
    then show ?thesis using np snoc cut(1) p xnotin hdxs pnotin lastxs
      by (auto simp: lpath_append splice_writes)
  qed
  obtain x ws where xs: "xs = x # ws" using ne by (cases xs) auto
  have mid: "lpath ?h x ws (hd (vs @ [b]))"
  proof (cases ws rule: rev_cases)
    case Nil
    then show ?thesis using np xs pnotin by (auto simp: splice_writes)
  next
    case (snoc zs z)
    have "lpath ?h x zs z = lpath h0 x zs z"
      by (rule lpath_cong)
        (use np snoc dist xs pnotin xnotin same in \<open>auto simp: splice_writes\<close>)
    then show ?thesis using np snoc seg xs pnotin
      by (auto simp: lpath_append splice_writes)
  qed
  have right: "lpath ?h (last xs) vs b"
  proof (cases vs)
    case Nil
    then show ?thesis using np pnotin lastxs by (auto simp: splice_writes)
  next
    case (Cons v zs)
    have "lpath ?h v zs b = lpath h v zs b"
      by (rule lpath_cong)
        (use np Cons dist pnotin hdxs lastxs in \<open>auto simp: splice_writes\<close>)
    then show ?thesis using np Cons cut(2) pnotin lastxs
      by (auto simp: splice_writes)
  qed
  have "lpath ?h a us x" using left xs by simp
  moreover have "lpath ?h x (ws @ vs) b"
    using mid right xs by (intro lpath_paste) auto
  ultimately show ?thesis using xs by (simp add: lpath_append)
qed

lemma dlist_splice_at:
  assumes src: "dlist h s xs" and dst: "dlist h d (us @ vs)" and ne: "xs \<noteq> []"
    and disj: "set (s # xs) \<inter> set (d # us @ vs) = {}"
    and p: "p = last (d # us)"
  defines "h' \<equiv> do_list_splice (nxt h s) (prv h s) p (list_init s h)"
  shows "dlist h' s []" and "dlist h' d (us @ xs @ vs)"
proof -
  let ?h = "list_init s h"
  have ends: "nxt h s = hd xs" "prv h s = last xs"
    using ne dlist_next [OF src] dlist_prev [OF src] by auto
  have dist: "distinct (s # xs)" "distinct (d # us @ vs)" using src dst by (auto simp: dlist_def)
  have dst': "lpath ?h d (us @ vs) d"
  proof -
    have "dlist ?h d (us @ vs) = dlist h d (us @ vs)"
      by (rule dlist_cong) (use disj in \<open>auto simp: splice_writes\<close>)
    then show ?thesis using dst by (simp add: dlist_def)
  qed
  have "p \<in> set (d # us)" by (simp only: p last_in_set list.distinct not_False_eq_True)
  then have pin: "p \<in> set (d # us @ vs)" by auto
  have "nxt ?h p = hd (vs @ [d])"
    using lpath_cut(2) [OF dst'] p by (auto dest: lpath_first)
  moreover have "hd (vs @ [d]) \<in> set (d # us @ vs)" by (cases vs) auto
  ultimately show "dlist h' s []"
    using disj dist pin hd_in_set [OF ne] last_in_set [OF ne] unfolding h'_def ends
    by (auto simp: dlist_def splice_writes)
  have seg: "lpath h s xs s" using src by (simp add: dlist_def)
  have "lpath h' d (us @ xs @ vs) d"
    unfolding h'_def ends
    by (rule lpath_splice [OF _ ne seg])
      (use dst' disj dist p in \<open>auto simp: splice_writes\<close>)
  then show "dlist h' d (us @ xs @ vs)" using disj dist by (auto simp: dlist_def)
qed

lemma dlist_splice:
  assumes src: "dlist h s xs" and dst: "dlist h d ys"
    and disj: "set (s # xs) \<inter> set (d # ys) = {}"
  shows "dlist (list_splice s d h) s [] \<and> dlist (list_splice s d h) d (xs @ ys)"
proof (cases "xs = []")
  case True
  then show ?thesis using src dst by (simp add: list_splice_def list_empty_iff)
next
  case False
  then show ?thesis
    using dlist_splice_at [of h s xs d "[]" ys d] assms list_empty_iff [OF src]
    by (simp add: list_splice_def)
qed

lemma dlist_splice_tail:
  assumes src: "dlist h s xs" and dst: "dlist h d ys"
    and disj: "set (s # xs) \<inter> set (d # ys) = {}"
  shows "dlist (list_splice_tail s d h) s [] \<and> dlist (list_splice_tail s d h) d (ys @ xs)"
proof (cases "xs = []")
  case True
  then show ?thesis using src dst by (simp add: list_splice_tail_def list_empty_iff)
next
  case False
  have "prv (list_init s h) d = last (d # ys)"
    using disj dlist_prev [OF dst] by (auto simp: splice_writes)
  then show ?thesis
    using dlist_splice_at [of h s xs d ys "[]" "last (d # ys)"] False assms list_empty_iff [OF src]
    by (simp add: list_splice_tail_def Let_def)
qed

subsection \<open>Families of disjoint lists in one heap\<close>

text \<open>
  \<open>dlists hdrr I h L\<close>: for every key \<open>k\<close> in \<open>I\<close> the list with head
  \<open>hdr k\<close> holds the nodes \<open>L k\<close>, and no node is in two lists. A node that is
  \<open>unlinked\<close> is in none of them and is no head.
\<close>

definition dlists :: "('k \<Rightarrow> 'n) \<Rightarrow> 'k set \<Rightarrow> 'n links \<Rightarrow> ('k \<Rightarrow> 'n list) \<Rightarrow> bool" where
  "dlists hdr I h L \<longleftrightarrow>
     (\<forall>k\<in>I. dlist h (hdr k) (L k)) \<and>
     (\<forall>j\<in>I. \<forall>k\<in>I. j \<noteq> k \<longrightarrow> set (hdr j # L j) \<inter> set (hdr k # L k) = {})"

definition unlinked :: "('k \<Rightarrow> 'n) \<Rightarrow> 'k set \<Rightarrow> ('k \<Rightarrow> 'n list) \<Rightarrow> 'n \<Rightarrow> bool" where
  "unlinked hdr I L n \<longleftrightarrow> (\<forall>k\<in>I. n \<notin> set (hdr k # L k))"

lemma dlists_dlist: "dlists hdr I h L \<Longrightarrow> k \<in> I \<Longrightarrow> dlist h (hdr k) (L k)"
  by (simp add: dlists_def)

lemma dlists_disjoint:
  "dlists hdr I h L \<Longrightarrow> j \<in> I \<Longrightarrow> k \<in> I \<Longrightarrow> j \<noteq> k \<Longrightarrow>
   set (hdr j # L j) \<inter> set (hdr k # L k) = {}"
  unfolding dlists_def by blast

lemma unlinked_notin: "unlinked hdr I L n \<Longrightarrow> k \<in> I \<Longrightarrow> n \<notin> set (L k)"
  by (auto simp: unlinked_def)

text \<open>Replacing one list by another over the nodes of the old one and one unlinked node.\<close>

lemma dlists_update:
  assumes fam: "dlists hdr I h L" and k: "k \<in> I"
    and new: "dlist h' (hdr k) ys"
    and nodes: "set ys \<subseteq> insert n (set (L k))"
    and fresh: "unlinked hdr I L n \<or> n \<in> set (L k)"
    and frame: "\<And>x. x \<notin> insert n (set (hdr k # L k)) \<Longrightarrow> nxt h' x = nxt h x \<and> prv h' x = prv h x"
  shows "dlists hdr I h' (L(k := ys))"
  unfolding dlists_def
proof (intro conjI ballI impI)
  fix j assume j: "j \<in> I"
  show "dlist h' (hdr j) ((L(k := ys)) j)"
  proof (cases "j = k")
    case True
    then show ?thesis using new by simp
  next
    case False
    have "dlist h' (hdr j) (L j) = dlist h (hdr j) (L j)"
    proof (rule dlist_cong, rule frame)
      fix x assume "x \<in> set (hdr j # L j)"
      then show "x \<notin> insert n (set (hdr k # L k))"
        using fresh dlists_disjoint [OF fam j k False] j by (auto simp: unlinked_def)
    qed
    then show ?thesis using False fam j by (simp add: dlists_dlist)
  qed
next
  fix i j assume ij: "i \<in> I" "j \<in> I" "i \<noteq> j"
  have old: "set (hdr i # L i) \<inter> set (hdr j # L j) = {}" using fam ij by (rule dlists_disjoint)
  have ki: "i \<noteq> k \<Longrightarrow> set (hdr i # L i) \<inter> set (hdr k # L k) = {}"
    and kj: "j \<noteq> k \<Longrightarrow> set (hdr j # L j) \<inter> set (hdr k # L k) = {}"
    by (rule dlists_disjoint [OF fam]; use ij k in blast)+
  show "set (hdr i # (L(k := ys)) i) \<inter> set (hdr j # (L(k := ys)) j) = {}"
    using old ki kj nodes fresh ij by (auto simp: unlinked_def fun_upd_def)
qed

lemma dlists_add:
  assumes "dlists hdr I h L" and "k \<in> I" and "unlinked hdr I L n"
  shows "dlists hdr I (list_add n (hdr k) h) (L(k := n # L k))"
proof (rule dlists_update [where n = n, OF assms(1,2)])
  have d: "dlist h (hdr k) (L k)" using assms(1,2) by (rule dlists_dlist)
  show "dlist (list_add n (hdr k) h) (hdr k) (n # L k)"
    using d assms(2,3) by (auto simp: unlinked_def intro: dlist_add)
  have "nxt h (hdr k) \<in> set (hdr k # L k)" using dlist_next [OF d] by (cases "L k") auto
  then show "\<And>x. x \<notin> insert n (set (hdr k # L k)) \<Longrightarrow>
      nxt (list_add n (hdr k) h) x = nxt h x \<and> prv (list_add n (hdr k) h) x = prv h x"
    by (auto simp: list_add_def link_writes)
qed (use assms in auto)

lemma dlists_add_tail:
  assumes "dlists hdr I h L" and "k \<in> I" and "unlinked hdr I L n"
  shows "dlists hdr I (list_add_tail n (hdr k) h) (L(k := L k @ [n]))"
proof (rule dlists_update [where n = n, OF assms(1,2)])
  have d: "dlist h (hdr k) (L k)" using assms(1,2) by (rule dlists_dlist)
  show "dlist (list_add_tail n (hdr k) h) (hdr k) (L k @ [n])"
    using d assms(2,3) by (auto simp: unlinked_def intro: dlist_add_tail)
  have "prv h (hdr k) = last (hdr k # L k)" using dlist_prev [OF d] .
  then have "prv h (hdr k) \<in> set (hdr k # L k)"
    by (simp only: last_in_set list.distinct not_False_eq_True)
  then show "\<And>x. x \<notin> insert n (set (hdr k # L k)) \<Longrightarrow>
      nxt (list_add_tail n (hdr k) h) x = nxt h x \<and> prv (list_add_tail n (hdr k) h) x = prv h x"
    by (auto simp: list_add_tail_def link_writes)
qed (use assms in auto)

lemma dlist_neighbours:
  assumes "dlist h l xs" and "n \<in> set xs"
  shows "nxt h n \<in> set (l # xs)" and "prv h n \<in> set (l # xs)"
proof -
  obtain us vs where xs: "xs = us @ n # vs" using split_list [OF assms(2)] by blast
  then have p: "lpath h l us n" "lpath h n vs l"
    using assms(1) by (auto simp: dlist_def lpath_append)
  have "nxt h n = hd (vs @ [l])" using p(2) by (rule lpath_first)
  then show "nxt h n \<in> set (l # xs)" using xs by (cases vs) auto
  have "prv h n = last (l # us)" using p(1) by (rule lpath_last)
  then have "prv h n \<in> set (l # us)"
    by (simp only: last_in_set list.distinct not_False_eq_True)
  then show "prv h n \<in> set (l # xs)" using xs by auto
qed

lemma dlists_del:
  assumes "dlists hdr I h L" and "k \<in> I" and "n \<in> set (L k)"
  shows "dlists hdr I (list_del n h) (L(k := remove1 n (L k)))"
proof (rule dlists_update [where n = n, OF assms(1,2)])
  have d: "dlist h (hdr k) (L k)" using assms(1,2) by (rule dlists_dlist)
  show "dlist (list_del n h) (hdr k) (remove1 n (L k))" using d assms(3) by (rule dlist_del)
  show "set (remove1 n (L k)) \<subseteq> insert n (set (L k))" using set_remove1_subset by fastforce
  show "\<And>x. x \<notin> insert n (set (hdr k # L k)) \<Longrightarrow>
      nxt (list_del n h) x = nxt h x \<and> prv (list_del n h) x = prv h x"
    using dlist_neighbours [OF d assms(3)] by (auto simp: link_writes)
qed (use assms in auto)

lemma dlists_first:
  assumes "dlists hdr I h L" and "k \<in> I" and "L k \<noteq> []"
  shows "nxt h (hdr k) = hd (L k)"
  using dlist_next [OF dlists_dlist [OF assms(1,2)]] assms(3) by simp

lemma dlists_empty:
  "dlists hdr I h L \<Longrightarrow> k \<in> I \<Longrightarrow> list_empty (hdr k) h \<longleftrightarrow> L k = []"
  by (rule list_empty_iff) (rule dlists_dlist)

lemma dlists_distinct: "dlists hdr I h L \<Longrightarrow> k \<in> I \<Longrightarrow> distinct (L k)"
  using dlists_dlist [of hdr I h L k] by (simp add: dlist_def)

lemma unlinked_del:
  assumes "dlists hdr I h L" and "k \<in> I" and "n \<in> set (L k)"
  shows "unlinked hdr I (L(k := remove1 n (L k))) n"
  unfolding unlinked_def
proof
  fix j assume j: "j \<in> I"
  have "distinct (hdr k # L k)" using assms(1,2) by (blast dest: dlists_dlist dlist_distinct)
  moreover have "j \<noteq> k \<Longrightarrow> set (hdr j # L j) \<inter> set (hdr k # L k) = {}"
    by (rule dlists_disjoint [OF assms(1) j assms(2)])
  ultimately show "n \<notin> set (hdr j # (L(k := remove1 n (L k))) j)"
    using assms(3) by (cases "j = k") auto
qed

text \<open>Initialising the heads of a finite family one after the other.\<close>

lemma dlists_init:
  assumes "dlists hdr I h L" and "\<And>j. j \<in> I \<Longrightarrow> hdr k \<notin> set (hdr j # L j)"
  shows "dlists hdr (insert k I) (list_init (hdr k) h) (L(k := []))"
proof -
  have notin: "k \<notin> I" using assms(2) by auto
  have heads: "hdr j \<noteq> hdr k" if "j \<in> I" for j using assms(2) [OF that] by auto
  have same: "dlist (list_init (hdr k) h) (hdr j) (L j)" if "j \<in> I" for j
  proof -
    have "dlist (list_init (hdr k) h) (hdr j) (L j) = dlist h (hdr j) (L j)"
      by (rule dlist_cong) (use assms(2) [OF that] in \<open>auto simp: splice_writes\<close>)
    then show ?thesis using assms(1) that by (simp add: dlists_dlist)
  qed
  then show ?thesis
    using assms notin heads dlist_init [of "hdr k" h]
    unfolding dlists_def by (auto simp: fun_upd_def)
qed

text \<open>Splicing one list of a family into another.\<close>

lemma list_splice_frame:
  assumes src: "dlist h s xs" and dst: "dlist h d ys" and disj: "set (s # xs) \<inter> set (d # ys) = {}"
    and x: "x \<notin> set (s # xs)" "x \<notin> set (d # ys)"
  shows "nxt (list_splice s d h) x = nxt h x \<and> prv (list_splice s d h) x = prv h x"
proof (cases "xs = []")
  case True
  then show ?thesis using src by (simp add: list_splice_def list_empty_iff)
next
  case False
  have ends: "nxt h s = hd xs" "prv h s = last xs"
    using dlist_next [OF src] dlist_prev [OF src] False by simp_all
  have "nxt h d = hd (ys @ [d])" by (rule dlist_next [OF dst])
  then have nd: "nxt h d \<in> set (d # ys)" by (cases ys) auto
  have "hd xs \<in> set xs" "last xs \<in> set xs" using False by simp_all
  then have "x \<noteq> hd xs" "x \<noteq> last xs" "x \<noteq> nxt h d" "x \<noteq> s" "x \<noteq> d" using x nd by auto
  moreover have "s \<noteq> d" using disj by auto
  ultimately show ?thesis
    using list_empty_iff [OF src] False
    by (simp add: list_splice_def ends splice_writes)
qed

lemma dlists_splice:
  assumes fam: "dlists hdr I h L" and j: "j \<in> I" and k: "k \<in> I" and ne: "j \<noteq> k"
  shows "dlists hdr I (list_splice (hdr j) (hdr k) h) (L(j := [], k := L j @ L k))"
proof -
  let ?h = "list_splice (hdr j) (hdr k) h" and ?L = "L(j := [], k := L j @ L k)"
  note disj = dlists_disjoint [OF fam]
  note sp = dlist_splice [OF dlists_dlist [OF fam j] dlists_dlist [OF fam k] disj [OF j k ne]]
  have lists: "dlist ?h (hdr i) (?L i)" if i: "i \<in> I" for i
  proof (cases "i = j \<or> i = k")
    case True
    then show ?thesis using sp ne by auto
  next
    case False
    have "dlist ?h (hdr i) (L i) = dlist h (hdr i) (L i)"
    proof (rule dlist_cong, rule list_splice_frame [OF dlists_dlist [OF fam j] dlists_dlist [OF fam k] disj [OF j k ne]])
      fix x assume "x \<in> set (hdr i # L i)"
      then show "x \<notin> set (hdr j # L j)" "x \<notin> set (hdr k # L k)"
        using disj [OF i j] disj [OF i k] False by blast+
    qed
    then show ?thesis using False dlists_dlist [OF fam i] by simp
  qed
  have "set (hdr i # ?L i) \<inter> set (hdr m # ?L m) = {}" if im: "i \<in> I" "m \<in> I" "i \<noteq> m" for i m
    using dlist_distinct [OF dlists_dlist [OF fam j]] disj [OF im] disj [OF im(1) j] disj [OF im(2) j] disj [OF im(1) k] disj [OF im(2) k] im(3) ne
    by (cases "i = k"; cases "m = k"; cases "i = j"; cases "m = j") auto
  then show ?thesis using lists unfolding dlists_def by blast
qed


subsection \<open>The interface the clients rely on\<close>

text \<open>
  \<open>lists h L\<close> relates the heap to the contents of every list; \<open>loose L n\<close> says that
  node \<open>n\<close> may be linked. \<open>push\<close> is \<open>list_add\<close>, \<open>enqueue\<close> is
  \<open>list_add_tail\<close>, \<open>unlink\<close> is \<open>list_del\<close>, \<open>first\<close> reads
  \<open>head->next\<close>.
\<close>

locale list_store =
  fixes lists :: "'h \<Rightarrow> ('k \<Rightarrow> 'n list) \<Rightarrow> bool"
    and keys :: "'k set"
    and loose :: "('k \<Rightarrow> 'n list) \<Rightarrow> 'n \<Rightarrow> bool"
    and push :: "'n \<Rightarrow> 'k \<Rightarrow> 'h \<Rightarrow> 'h"
    and enqueue :: "'n \<Rightarrow> 'k \<Rightarrow> 'h \<Rightarrow> 'h"
    and unlink :: "'n \<Rightarrow> 'h \<Rightarrow> 'h"
    and first :: "'k \<Rightarrow> 'h \<Rightarrow> 'n"
    and is_empty :: "'k \<Rightarrow> 'h \<Rightarrow> bool"
  assumes lists_push: "lists h L \<Longrightarrow> k \<in> keys \<Longrightarrow> loose L n \<Longrightarrow> lists (push n k h) (L(k := n # L k))"
    and lists_enqueue:
      "lists h L \<Longrightarrow> k \<in> keys \<Longrightarrow> loose L n \<Longrightarrow> lists (enqueue n k h) (L(k := L k @ [n]))"
    and lists_unlink:
      "lists h L \<Longrightarrow> k \<in> keys \<Longrightarrow> n \<in> set (L k) \<Longrightarrow> lists (unlink n h) (L(k := remove1 n (L k)))"
    and loose_unlink:
      "lists h L \<Longrightarrow> k \<in> keys \<Longrightarrow> n \<in> set (L k) \<Longrightarrow> loose (L(k := remove1 n (L k))) n"
    and loose_notin: "loose L n \<Longrightarrow> k \<in> keys \<Longrightarrow> n \<notin> set (L k)"
    and lists_first: "lists h L \<Longrightarrow> k \<in> keys \<Longrightarrow> L k \<noteq> [] \<Longrightarrow> first k h = hd (L k)"
    and lists_empty: "lists h L \<Longrightarrow> k \<in> keys \<Longrightarrow> is_empty k h \<longleftrightarrow> L k = []"
    and lists_distinct: "lists h L \<Longrightarrow> k \<in> keys \<Longrightarrow> distinct (L k)"
begin

text \<open>Taking the first node of a list and unlinking it pops the list.\<close>

lemma pop:
  assumes "lists h L" and "k \<in> keys" and "L k = x # xs"
  shows "first k h = x" and "lists (unlink x h) (L(k := xs))" and "loose (L(k := xs)) x"
  using lists_first [OF assms(1,2)] lists_unlink [OF assms(1,2), of x]
    loose_unlink [OF assms(1,2), of x] assms(3) by simp_all

text \<open>Unlinking a node and pushing it onto another list moves it.\<close>

lemma move:
  assumes "lists h L" and "j \<in> keys" and "k \<in> keys" and "n \<in> set (L j)"
  defines "L' \<equiv> L(j := remove1 n (L j))"
  shows "lists (push n k (unlink n h)) (L'(k := n # L' k))"
  unfolding L'_def
  by (rule lists_push [OF lists_unlink [OF assms(1,2,4)] assms(3) loose_unlink [OF assms(1,2,4)]])

text \<open>First in, first out: what is enqueued behind \<open>xs\<close> comes out after all of \<open>xs\<close>.\<close>

lemma enqueue_first:
  assumes "lists h L" and "k \<in> keys" and "loose L n"
  shows "first k (enqueue n k h) = hd (L k @ [n])"
  using lists_first [OF lists_enqueue [OF assms] assms(2)] by simp

end

interpretation dl: list_store "dlists hdr I" I "unlinked hdr I"
    "\<lambda>n k. list_add n (hdr k)" "\<lambda>n k. list_add_tail n (hdr k)" list_del
    "\<lambda>k h. nxt h (hdr k)" "\<lambda>k. list_empty (hdr k)" for hdr :: "'k \<Rightarrow> 'n" and I
  by unfold_locales
    (rule dlists_add dlists_add_tail dlists_del unlinked_del unlinked_notin dlists_first
      dlists_empty dlists_distinct; assumption)+

subsection \<open>What the clients of a single list rely on\<close>

text \<open>
  \<open>list_splice\<close> moves all nodes of one list, in order, to the front of another, and
  \<open>list_splice_tail\<close> to its end; the list they came from is left empty and well-formed.
\<close>

theorem list_splice_moves:
  assumes "dlist h s xs" and "dlist h d ys" and "set (s # xs) \<inter> set (d # ys) = {}"
  shows "dlist (list_splice s d h) s [] \<and> dlist (list_splice s d h) d (xs @ ys) \<and>
    dlist (list_splice_tail s d h) s [] \<and> dlist (list_splice_tail s d h) d (ys @ xs)"
  using dlist_splice [OF assms] dlist_splice_tail [OF assms] by blast

theorem list_splice_moves_witness:
  "let h = list_add_tail (1 :: nat) 0 (list_init 0 (list_add_tail 3 2 (list_init 2 \<lparr>nxt = id, prv = id\<rparr>)))
   in dlist (list_splice 0 2 h) 2 [1, 3] \<and> dlist (list_splice_tail 0 2 h) 2 [3, 1]"
proof -
  let ?h = "list_add_tail (1 :: nat) 0 (list_init 0 (list_add_tail 3 2 (list_init 2 \<lparr>nxt = id, prv = id\<rparr>)))"
  have "dlist ?h 0 [1]" and "dlist ?h 2 [3]"
    by (simp_all add: dlist_def list_add_tail_def list_insert_def list_init_def Let_def)
  from list_splice_moves [OF this] show ?thesis by (simp add: Let_def)
qed

end
