(* ===== verification/Cpu.thy ===== *)
theory Cpu
  imports Prelude
begin

text \<open>
  The processor state the kernel's synchronisation rests on, and the spinlocks built on it:
  the interrupt flag of \<open>RFLAGS\<close> (\<open>inc/ints.h\<close>), the preemption counter of
  \<open>src/threads.c\<close> and \<open>src/lock.c\<close>. On the single processor this kernel runs on a
  spinlock has no word of its own: taking it raises the preemption counter, and the
  \<open>_int_save\<close> variant also masks interrupts.
\<close>

record cpu =
  rflags :: u64
  preempt_count :: int

type_synonym spinlock = unit

subsection \<open>Interrupt masking\<close>

definition RFLAGS_IF :: u64 where
  "RFLAGS_IF = push_bit 9 1"

definition local_int_disable :: "'a cpu_scheme \<Rightarrow> 'a cpu_scheme" where
  "local_int_disable s = s\<lparr>rflags := rflags s AND NOT RFLAGS_IF\<rparr>"

definition local_int_enable :: "'a cpu_scheme \<Rightarrow> 'a cpu_scheme" where
  "local_int_enable s = s\<lparr>rflags := rflags s OR RFLAGS_IF\<rparr>"

text \<open>The C function returns \<open>rflags & RFLAGS_IF\<close>, used as a truth value.\<close>

definition local_int_state :: "'a cpu_scheme \<Rightarrow> u64" where
  "local_int_state s = rflags s AND RFLAGS_IF"

definition local_int_save :: "'a cpu_scheme \<Rightarrow> u64 \<times> 'a cpu_scheme" where
  "local_int_save s = (let enabled = local_int_state s in (enabled, local_int_disable s))"

definition local_int_restore :: "u64 \<Rightarrow> 'a cpu_scheme \<Rightarrow> 'a cpu_scheme" where
  "local_int_restore enabled s = (if enabled \<noteq> 0 then local_int_enable s else s)"

definition ints_on :: "'a cpu_scheme \<Rightarrow> bool" where
  "ints_on s \<longleftrightarrow> local_int_state s \<noteq> 0"

subsection \<open>Preemption\<close>

definition preempt_disable :: "'a cpu_scheme \<Rightarrow> 'a cpu_scheme" where
  "preempt_disable s =
     (let (enabled, s1) = local_int_save s;
          s2 = s1\<lparr>preempt_count := preempt_count s1 + 1\<rparr>
      in local_int_restore enabled s2)"

definition preempt_enable :: "'a cpu_scheme \<Rightarrow> 'a cpu_scheme" where
  "preempt_enable s =
     (let (enabled, s1) = local_int_save s;
          s2 = s1\<lparr>preempt_count := preempt_count s1 - 1\<rparr>
      in local_int_restore enabled s2)"

subsection \<open>Spinlocks\<close>

definition spin_setup :: "spinlock \<Rightarrow> 'a cpu_scheme \<Rightarrow> 'a cpu_scheme" where
  "spin_setup lock s = s"

definition spin_lock :: "spinlock \<Rightarrow> 'a cpu_scheme \<Rightarrow> 'a cpu_scheme" where
  "spin_lock lock s = preempt_disable s"

definition spin_unlock :: "spinlock \<Rightarrow> 'a cpu_scheme \<Rightarrow> 'a cpu_scheme" where
  "spin_unlock lock s = preempt_enable s"

definition spin_lock_int_save :: "spinlock \<Rightarrow> 'a cpu_scheme \<Rightarrow> u64 \<times> 'a cpu_scheme" where
  "spin_lock_int_save lock s =
     (let (enabled, s1) = local_int_save s in (enabled, spin_lock lock s1))"

definition spin_unlock_int_restore :: "spinlock \<Rightarrow> u64 \<Rightarrow> 'a cpu_scheme \<Rightarrow> 'a cpu_scheme" where
  "spin_unlock_int_restore lock enable s = local_int_restore enable (spin_unlock lock s)"

lemmas [machine_defs] = local_int_disable_def local_int_enable_def local_int_state_def
  local_int_save_def local_int_restore_def preempt_disable_def preempt_enable_def
  spin_setup_def spin_lock_def spin_unlock_def spin_lock_int_save_def spin_unlock_int_restore_def

subsection \<open>What the operations do to the two registers\<close>

text \<open>Masking and unmasking only touch bit 9.\<close>

lemma bit_RFLAGS_IF: "bit RFLAGS_IF n \<longleftrightarrow> n = 9"
  by (auto simp only: RFLAGS_IF_def bit_push_bit_iff bit_1_iff possible_bit_word) auto

lemma if_bit: "(w :: u64) AND RFLAGS_IF = (if bit w 9 then RFLAGS_IF else 0)"
  by (rule bit_eqI) (auto simp: bit_RFLAGS_IF bit_and_iff)

lemma RFLAGS_IF_neq_0 [simp]: "RFLAGS_IF \<noteq> 0"
  by (simp add: RFLAGS_IF_def)

lemma ints_on_iff: "ints_on s \<longleftrightarrow> bit (rflags s) 9"
  by (simp add: ints_on_def local_int_state_def if_bit)

lemma or_if_idem: "bit w 9 \<Longrightarrow> (w :: u64) OR RFLAGS_IF = w"
  by (rule bit_eqI) (auto simp: bit_RFLAGS_IF bit_or_iff)

lemma and_not_if_idem: "\<not> bit w 9 \<Longrightarrow> (w :: u64) AND NOT RFLAGS_IF = w"
  by (rule bit_eqI) (auto simp: bit_RFLAGS_IF bit_and_iff bit_not_iff)

lemma mask_unmask: "bit w 9 \<Longrightarrow> ((w :: u64) AND NOT RFLAGS_IF) OR RFLAGS_IF = w"
  by (rule bit_eqI)
    (auto simp: bit_RFLAGS_IF bit_and_iff bit_or_iff bit_not_iff)

lemma bit9_disable [simp]: "\<not> bit ((w :: u64) AND NOT RFLAGS_IF) 9"
  by (simp add: bit_RFLAGS_IF bit_and_iff bit_not_iff)

lemma bit9_enable [simp]: "bit ((w :: u64) OR RFLAGS_IF) 9"
  by (simp add: bit_RFLAGS_IF bit_or_iff)

lemma preempt_disable_eq: "preempt_disable s = s\<lparr>preempt_count := preempt_count s + 1\<rparr>"
  by (cases "bit (rflags s) 9")
    (simp_all add: preempt_disable_def local_int_save_def local_int_restore_def local_int_state_def
      local_int_disable_def local_int_enable_def if_bit mask_unmask and_not_if_idem)

lemma preempt_enable_eq: "preempt_enable s = s\<lparr>preempt_count := preempt_count s - 1\<rparr>"
  by (cases "bit (rflags s) 9")
    (simp_all add: preempt_enable_def local_int_save_def local_int_restore_def local_int_state_def
      local_int_disable_def local_int_enable_def if_bit mask_unmask and_not_if_idem)

lemma spin_lock_int_save_eq:
  "spin_lock_int_save l s =
     (rflags s AND RFLAGS_IF,
      s\<lparr>rflags := rflags s AND NOT RFLAGS_IF, preempt_count := preempt_count s + 1\<rparr>)"
  by (simp add: spin_lock_int_save_def local_int_save_def local_int_state_def
      local_int_disable_def spin_lock_def preempt_disable_eq)

lemma spin_unlock_int_restore_eq:
  "spin_unlock_int_restore l e s =
     s\<lparr>rflags := (if e \<noteq> 0 then rflags s OR RFLAGS_IF else rflags s),
       preempt_count := preempt_count s - 1\<rparr>"
  by (simp add: spin_unlock_int_restore_def spin_unlock_def preempt_enable_eq
      local_int_restore_def local_int_enable_def)

text \<open>
  A critical section: whatever the body does to the rest of the state, leaving the section gives
  back the interrupt flag and the preemption counter it was entered with.
\<close>

lemma section_restores:
  assumes "spin_lock_int_save l s = (e, s1)"
    and "rflags s2 = rflags s1" and "preempt_count s2 = preempt_count s1"
  shows "rflags (spin_unlock_int_restore l e s2) = rflags s"
    and "preempt_count (spin_unlock_int_restore l e s2) = preempt_count s"
  using assms
  by (auto split: if_splits simp: spin_lock_int_save_eq spin_unlock_int_restore_eq if_bit mask_unmask
      and_not_if_idem)

subsection \<open>The interface of a lock\<close>

text \<open>
  What code that brackets a critical section relies on: inside, the section is entered
  (\<open>held\<close>), and a balanced pair of calls leaves the state as it was. \<open>condition.c\<close>
  declares this interface itself, as \<open>struct generic_lock\<close>.
\<close>

locale balanced_lock =
  fixes lock :: "'s \<Rightarrow> 's" and unlock :: "'s \<Rightarrow> 's" and held :: "'s \<Rightarrow> int"
  assumes unlock_lock: "unlock (lock s) = s"
    and held_lock: "held (lock s) = held s + 1"
    and held_unlock: "held (unlock s) = held s - 1"
begin

text \<open>Nesting \<open>n\<close> levels deep and leaving them again is the identity.\<close>

lemma nested: "(unlock ^^ n) ((lock ^^ n) s) = s"
  by (induction n arbitrary: s) (simp_all add: unlock_lock funpow_swap1)

lemma held_nested: "held ((lock ^^ n) s) = held s + int n"
  by (induction n) (simp_all add: held_lock)

end

interpretation spin: balanced_lock "spin_lock l" "spin_unlock l" preempt_count for l
  by unfold_locales (simp_all add: spin_lock_def spin_unlock_def preempt_disable_eq preempt_enable_eq)

subsection \<open>Critical sections\<close>

text \<open>
  A section entered with \<open>spin_lock_int_save\<close> runs with interrupts masked and preemption
  off; whatever it does to the rest of the state, \<open>spin_unlock_int_restore\<close> gives back the interrupt
  flag and the preemption counter the section was entered with.
\<close>

theorem critical_section_restores:
  assumes "spin_lock_int_save l s = (enabled, s1)"
    and "rflags s2 = rflags s1" and "preempt_count s2 = preempt_count s1"
  shows "\<not> ints_on s1 \<and> preempt_count s1 = preempt_count s + 1 \<and>
    rflags (spin_unlock_int_restore l enabled s2) = rflags s \<and>
    preempt_count (spin_unlock_int_restore l enabled s2) = preempt_count s"
  using section_restores [OF assms] assms(1)
  by (auto simp: spin_lock_int_save_eq ints_on_iff)

theorem critical_section_restores_witness:
  "let s = \<lparr>rflags = 0x202, preempt_count = 0\<rparr>; (enabled, s1) = spin_lock_int_save () s
   in \<not> ints_on s1 \<and> spin_unlock_int_restore () enabled s1 = s"
proof -
  let ?s = "\<lparr>rflags = 0x202, preempt_count = 0\<rparr> :: cpu"
  obtain e s1 where r: "spin_lock_int_save () ?s = (e, s1)"
    by (cases "spin_lock_int_save () ?s")
  from critical_section_restores [OF r refl refl] r show ?thesis by (simp add: Let_def)
qed

end
