(* ===== verification/Memory.thy ===== *)
theory Memory
  imports Cpu
begin

text \<open>
  Raw memory: the byte store the kernel sees through its direct mapping of physical memory
  (\<open>inc/memory.h\<close>), little-endian access to it, and the memory and string routines of
  \<open>src/string.c\<close>. A pointer is a 64-bit virtual address; \<open>mem a\<close> is the byte at
  address \<open>a\<close>. Loops that stop at a zero byte need not stop, so the string routines return
  an option, \<open>None\<close> standing for a loop that does not end.
\<close>

type_synonym mem = "u64 \<Rightarrow> u8"
type_synonym s32 = "32 word"

subsection \<open>Addresses\<close>

definition VIRTUAL_BASE :: u64 where "VIRTUAL_BASE = 0xffffffff80000000"
definition HIGHER_BASE :: u64 where "HIGHER_BASE = 0xffff800000000000"
definition USERSPACE_END :: u64 where "USERSPACE_END = 0x0000800000000000"
definition PAGE_BITS :: nat where "PAGE_BITS = 12"
definition PAGE_SIZE :: u64 where "PAGE_SIZE = 4096"
definition PAGE_MASK :: u64 where "PAGE_MASK = PAGE_SIZE - 1"

definition va :: "u64 \<Rightarrow> u64" where "va phys = phys + HIGHER_BASE"
definition pa :: "u64 \<Rightarrow> u64" where "pa virt = virt - HIGHER_BASE"

lemma pa_va [simp]: "pa (va p) = p" by (simp add: pa_def va_def)
lemma va_pa [simp]: "va (pa p) = p" by (simp add: pa_def va_def)
lemma va_inj [simp]: "va p = va q \<longleftrightarrow> p = q" by (simp add: va_def)

subsection \<open>Little-endian fields\<close>

fun load_le :: "mem \<Rightarrow> u64 \<Rightarrow> nat \<Rightarrow> nat" where
  "load_le m a 0 = 0"
| "load_le m a (Suc n) = unat (m a) + 256 * load_le m (a + 1) n"

fun store_le :: "mem \<Rightarrow> u64 \<Rightarrow> nat \<Rightarrow> nat \<Rightarrow> mem" where
  "store_le m a 0 v = m"
| "store_le m a (Suc n) v = store_le (m(a := of_nat v)) (a + 1) n (v div 256)"

definition load_u16 :: "mem \<Rightarrow> u64 \<Rightarrow> u16" where "load_u16 m a = of_nat (load_le m a 2)"
definition load_u32 :: "mem \<Rightarrow> u64 \<Rightarrow> u32" where "load_u32 m a = of_nat (load_le m a 4)"
definition load_u64 :: "mem \<Rightarrow> u64 \<Rightarrow> u64" where "load_u64 m a = of_nat (load_le m a 8)"
definition store_u64 :: "mem \<Rightarrow> u64 \<Rightarrow> u64 \<Rightarrow> mem" where
  "store_u64 m a v = store_le m a 8 (unat v)"

text \<open>The \<open>n\<close> addresses from \<open>a\<close> on.\<close>

definition span :: "u64 \<Rightarrow> nat \<Rightarrow> u64 set" where
  "span a n = (\<lambda>i. a + of_nat i) ` {..<n}"

lemma span_0 [simp]: "span a 0 = {}"
  by (simp add: span_def)

lemma span_Suc: "span a (Suc n) = insert a (span (a + 1) n)"
proof -
  have "{..<Suc n} = insert 0 (Suc ` {..<n})" by (auto simp: image_iff lessThan_def) (metis Suc_pred less_Suc_eq_0_disj not_gr_zero)
  then show ?thesis by (auto simp: span_def image_iff add.assoc)
qed

lemma span_iff: "x \<in> span a n \<longleftrightarrow> (\<exists>i<n. x = a + of_nat i)"
  by (auto simp: span_def)

lemma span_iff_unat:
  assumes "n \<le> 2 ^ 64"
  shows "x \<in> span a n \<longleftrightarrow> unat (x - a) < n"
proof
  assume "x \<in> span a n"
  then obtain i where i: "i < n" "x - a = of_nat i" by (auto simp: span_iff)
  then have "unat (x - a) = i" using assms by (simp add: unat_of_nat)
  then show "unat (x - a) < n" using i by simp
next
  assume "unat (x - a) < n"
  then show "x \<in> span a n" by (auto simp: span_iff intro!: exI [of _ "unat (x - a)"])
qed

lemma notin_span_Suc:
  assumes "n < 2 ^ 64"
  shows "a \<notin> span (a + 1) n"
proof
  assume "a \<in> span (a + 1) n"
  then have "unat (a - (a + 1)) < n" using assms by (simp add: span_iff_unat)
  moreover have "unat (a - (a + 1)) = 2 ^ 64 - 1" by (simp add: unsigned_minus_1_eq_mask mask_eq_exp_minus_1)
  ultimately show False using assms by simp
qed

lemma load_le_cong:
  "(\<And>x. x \<in> span a n \<Longrightarrow> m x = m' x) \<Longrightarrow> load_le m a n = load_le m' a n"
  by (induction n arbitrary: a) (auto simp: span_Suc)

lemma store_le_other: "x \<notin> span a n \<Longrightarrow> store_le m a n v x = m x"
  by (induction n arbitrary: a m v) (auto simp: span_Suc)

lemma load_store_le:
  "n < 2 ^ 64 \<Longrightarrow> load_le (store_le m a n v) a n = v mod 256 ^ n"
proof (induction n arbitrary: a m v)
  case 0
  then show ?case by simp
next
  case (Suc n)
  have "store_le (m(a := of_nat v)) (a + 1) n (v div 256) a = of_nat v"
    using notin_span_Suc [of n a] Suc.prems by (simp add: store_le_other)
  moreover have "load_le (store_le (m(a := of_nat v)) (a + 1) n (v div 256)) (a + 1) n
      = (v div 256) mod 256 ^ n"
    using Suc by simp
  ultimately show ?case
    by (simp add: unat_of_nat mod_mult2_eq take_bit_eq_mod)
qed

lemma load_store_u64: "load_u64 (store_u64 m a v) a = v"
proof -
  have "load_le (store_le m a 8 (unat v)) a 8 = unat v mod 256 ^ 8" by (rule load_store_le) simp
  also have "\<dots> = unat v" using unat_u64_bound [of v] by simp
  finally show ?thesis by (simp add: load_u64_def store_u64_def)
qed

lemma load_store_u64_other:
  assumes "span a 8 \<inter> span b 8 = {}"
  shows "load_u64 (store_u64 m a v) b = load_u64 m b"
proof -
  have "load_le (store_u64 m a v) b 8 = load_le m b 8"
    unfolding store_u64_def
    by (rule load_le_cong, rule store_le_other) (use assms in blast)
  then show ?thesis by (simp add: load_u64_def)
qed

subsection \<open>Memory routines\<close>

primrec memcpy_loop :: "mem \<Rightarrow> u64 \<Rightarrow> u64 \<Rightarrow> nat \<Rightarrow> mem" where
  "memcpy_loop m dst src 0 = m"
| "memcpy_loop m dst src (Suc n) = memcpy_loop (m(dst := m src)) (dst + 1) (src + 1) n"

definition memcpy :: "mem \<Rightarrow> u64 \<Rightarrow> u64 \<Rightarrow> u64 \<Rightarrow> mem" where
  "memcpy m dst src sz = memcpy_loop m dst src (unat sz)"

primrec memset_loop :: "mem \<Rightarrow> u64 \<Rightarrow> u8 \<Rightarrow> nat \<Rightarrow> mem" where
  "memset_loop m dst fill 0 = m"
| "memset_loop m dst fill (Suc n) = memset_loop (m(dst := fill)) (dst + 1) fill n"

definition memset :: "mem \<Rightarrow> u64 \<Rightarrow> s32 \<Rightarrow> u64 \<Rightarrow> mem" where
  "memset m dst fill sz = memset_loop m dst (ucast fill) (unat sz)"

text \<open>The backward loop \<open>while (size--) to[size] = from[size]\<close> of \<open>memmove\<close>.\<close>

primrec memmove_back :: "mem \<Rightarrow> u64 \<Rightarrow> u64 \<Rightarrow> nat \<Rightarrow> mem" where
  "memmove_back m dst src 0 = m"
| "memmove_back m dst src (Suc n) =
     memmove_back (m(dst + of_nat n := m (src + of_nat n))) dst src n"

definition memmove :: "mem \<Rightarrow> u64 \<Rightarrow> u64 \<Rightarrow> u64 \<Rightarrow> mem" where
  "memmove m dst src sz =
     (if dst < src then memcpy m dst src sz
      else if dst \<noteq> src then memmove_back m dst src (unat sz)
      else m)"

text \<open>\<open>char\<close> is signed on this target, so bytes compare as signed numbers.\<close>

primrec memcmp_loop :: "mem \<Rightarrow> u64 \<Rightarrow> u64 \<Rightarrow> nat \<Rightarrow> int" where
  "memcmp_loop m l r 0 = 0"
| "memcmp_loop m l r (Suc n) =
     (if m l \<noteq> m r then (if sint (m l) < sint (m r) then -1 else 1)
      else memcmp_loop m (l + 1) (r + 1) n)"

definition memcmp :: "mem \<Rightarrow> u64 \<Rightarrow> u64 \<Rightarrow> u64 \<Rightarrow> int" where
  "memcmp m l r sz = memcmp_loop m l r (unat sz)"

subsection \<open>String routines\<close>

partial_function (option) strlen_loop :: "mem \<Rightarrow> u64 \<Rightarrow> u64 \<Rightarrow> u64 option" where
  "strlen_loop m begin str =
     (if m str \<noteq> 0 then strlen_loop m begin (str + 1) else Some (str + 1 - begin - 1))"

definition strlen :: "mem \<Rightarrow> u64 \<Rightarrow> u64 option" where
  "strlen m str = strlen_loop m str str"

partial_function (option) strcmp :: "mem \<Rightarrow> u64 \<Rightarrow> u64 \<Rightarrow> int option" where
  "strcmp m l r =
     (if m l = m r \<and> m l \<noteq> 0 then strcmp m (l + 1) (r + 1)
      else if m l \<noteq> m r then Some (if sint (m l) < sint (m r) then -1 else 1)
      else Some 0)"

partial_function (option) strcpy_loop :: "mem \<Rightarrow> u64 \<Rightarrow> u64 \<Rightarrow> mem option" where
  "strcpy_loop m ptr src =
     (let c = m src; m' = m(ptr := c)
      in if c \<noteq> 0 then strcpy_loop m' (ptr + 1) (src + 1) else Some m')"

definition strcpy :: "mem \<Rightarrow> u64 \<Rightarrow> u64 \<Rightarrow> (u64 \<times> mem) option" where
  "strcpy m dst src = Option.bind (strcpy_loop m dst src) (\<lambda>m'. Some (dst, m'))"

partial_function (option) strchr :: "mem \<Rightarrow> u64 \<Rightarrow> s32 \<Rightarrow> u64 option" where
  "strchr m str c =
     (if m str \<noteq> 0 \<and> scast (m str) \<noteq> c then strchr m (str + 1) c
      else Some (if m str \<noteq> 0 then str else 0))"


subsection \<open>What the memory routines compute\<close>

text \<open>A copy into a region that starts below its source, or does not meet it, is exact.\<close>

lemma memcpy_loop_other: "x \<notin> span dst n \<Longrightarrow> memcpy_loop m dst src n x = m x"
  by (induction n arbitrary: m dst src) (auto simp: span_Suc)

lemma memset_loop_eq:
  "n < 2 ^ 64 \<Longrightarrow> memset_loop m dst c n x = (if x \<in> span dst n then c else m x)"
  by (induction n arbitrary: m dst) (auto simp: span_Suc)

lemma memset_eq: "memset m dst c sz x = (if x \<in> span dst (unat sz) then ucast c else m x)"
  by (simp add: memset_def memset_loop_eq unat_u64_bound [simplified])

lemma memcpy_loop_copies:
  assumes "n < 2 ^ 64" and "\<And>i j. i < n \<Longrightarrow> j < i \<Longrightarrow> dst + of_nat j \<noteq> src + of_nat i"
    and "i < n"
  shows "memcpy_loop m dst src n (dst + of_nat i) = m (src + of_nat i)"
  using assms
proof (induction n arbitrary: m dst src i)
  case 0
  then show ?case by simp
next
  case (Suc n)
  show ?case
  proof (cases i)
    case 0
    have "dst \<notin> span (dst + 1) n" using Suc.prems by (intro notin_span_Suc) simp
    then show ?thesis using 0 by (simp add: memcpy_loop_other)
  next
    case (Suc k)
    let ?m = "m(dst := m src)"
    have "memcpy_loop ?m (dst + 1) (src + 1) n (dst + 1 + of_nat k) = ?m (src + 1 + of_nat k)"
    proof (rule Suc.IH)
      fix i j assume "i < n" "j < i"
      then show "dst + 1 + of_nat j \<noteq> src + 1 + of_nat i"
        using Suc.prems(2) [of "Suc i" "Suc j"] by (simp add: ac_simps)
    qed (use Suc.prems Suc in auto)
    moreover have "dst \<noteq> src + of_nat (Suc k)"
      using Suc.prems(2) [of "Suc k" 0] Suc.prems(3) Suc by simp
    ultimately show ?thesis using Suc by (simp add: ac_simps)
  qed
qed

lemma memmove_back_other: "x \<notin> span dst n \<Longrightarrow> memmove_back m dst src n x = m x"
proof (induction n arbitrary: m)
  case 0
  then show ?case by simp
next
  case (Suc n)
  then have "x \<notin> span dst n" and "x \<noteq> dst + of_nat n" by (auto simp: span_iff)
  with Suc.IH show ?case by simp
qed

lemma memmove_back_copies:
  assumes "n < 2 ^ 64" and "\<And>i j. i < j \<Longrightarrow> j < n \<Longrightarrow> dst + of_nat j \<noteq> src + of_nat i"
    and "i < n"
  shows "memmove_back m dst src n (dst + of_nat i) = m (src + of_nat i)"
  using assms
proof (induction n arbitrary: m i)
  case 0
  then show ?case by simp
next
  case (Suc n)
  show ?case
  proof (cases "i = n")
    case True
    have "dst + of_nat n \<notin> span dst n"
      using Suc.prems(1) by (simp add: span_iff_unat unat_of_nat)
    then show ?thesis using True by (simp add: memmove_back_other)
  next
    case False
    then have "i < n" using Suc.prems(3) by simp
    then have "dst + of_nat n \<noteq> src + of_nat i" using Suc.prems(2) by blast
    then have "src + of_nat i \<noteq> dst + of_nat n" by (rule not_sym)
    then show ?thesis using Suc.IH [OF _ _ \<open>i < n\<close>] Suc.prems(1,2) by simp
  qed
qed

text \<open>
  Two regions that do not wrap around the address space never meet "the wrong way round": going
  up is safe when the destination is below the source, going down when it is above.
\<close>

lemma up_safe:
  fixes dst src :: u64
  assumes "dst < src" and "unat src + n \<le> 2 ^ 64" and "i < n" and "j < i"
  shows "dst + of_nat j \<noteq> src + of_nat i"
proof -
  have "unat dst < unat src" using assms(1) by (simp add: word_less_nat_alt)
  then have "unat (dst + of_nat j) = unat dst + j" "unat (src + of_nat i) = unat src + i"
    using assms(2-4) by (auto simp: unat_word_ariths unat_of_nat)
  then show ?thesis using \<open>unat dst < unat src\<close> assms(4) by (metis add_less_mono less_irrefl)
qed

text \<open>\<open>memmove\<close> copies the source region as it was before, overlapping or not.\<close>

lemma memmove_eq:
  assumes "unat src + unat sz \<le> 2 ^ 64" and "unat dst + unat sz \<le> 2 ^ 64"
  shows "memmove m dst src sz x =
    (if x \<in> span dst (unat sz) then m (src + (x - dst)) else m x)"
proof -
  have n: "unat sz < 2 ^ 64" by (rule unat_u64_bound)
  consider "dst < src" | "src < dst" | "dst = src" by fastforce
  then show ?thesis
  proof cases
    case 1
    have "memcpy_loop m dst src (unat sz) (dst + of_nat i) = m (src + of_nat i)"
      if "i < unat sz" for i
      by (rule memcpy_loop_copies [OF n _ that]) (use 1 assms in \<open>auto dest: up_safe\<close>)
    then show ?thesis
      using 1 by (auto simp: memmove_def memcpy_def memcpy_loop_other span_iff)
  next
    case 2
    have "memmove_back m dst src (unat sz) (dst + of_nat i) = m (src + of_nat i)"
      if "i < unat sz" for i
    proof (rule memmove_back_copies [OF n _ that])
      fix i j assume "i < j" "j < unat sz"
      then show "dst + of_nat j \<noteq> src + of_nat i"
        using up_safe [OF 2 assms(2), of j i] by metis
    qed
    then show ?thesis
      using 2 by (auto simp: memmove_def memmove_back_other span_iff)
  next
    case 3
    then show ?thesis by (simp add: memmove_def)
  qed
qed

lemma memcpy_eq:
  assumes "span dst (unat sz) \<inter> span src (unat sz) = {}"
  shows "memcpy m dst src sz x =
    (if x \<in> span dst (unat sz) then m (src + (x - dst)) else m x)"
proof -
  have n: "unat sz < 2 ^ 64" by (rule unat_u64_bound)
  have "memcpy_loop m dst src (unat sz) (dst + of_nat i) = m (src + of_nat i)"
    if "i < unat sz" for i
  proof (rule memcpy_loop_copies [OF n _ that])
    fix i j assume "i < unat sz" "j < i"
    then have "src + of_nat i \<in> span src (unat sz)" "dst + of_nat j \<in> span dst (unat sz)"
      unfolding span_iff by (auto intro: less_trans)
    then show "dst + of_nat j \<noteq> src + of_nat i" using assms by force
  qed
  then show ?thesis by (auto simp: memcpy_def memcpy_loop_other span_iff)
qed

lemma memcmp_loop_0_iff:
  "memcmp_loop m l r n = 0 \<longleftrightarrow> (\<forall>i<n. m (l + of_nat i) = m (r + of_nat i))"
proof (induction n arbitrary: l r)
  case 0
  then show ?case by simp
next
  case (Suc n)
  have "(\<forall>i<Suc n. m (l + of_nat i) = m (r + of_nat i)) \<longleftrightarrow>
        m l = m r \<and> (\<forall>i<n. m (l + 1 + of_nat i) = m (r + 1 + of_nat i))"
    by (auto simp: All_less_Suc2 ac_simps)
  then show ?case using Suc by auto
qed

subsection \<open>Zero-terminated strings\<close>

text \<open>\<open>cstr m p s\<close>: the bytes \<open>s\<close>, none of them zero, stand at \<open>p\<close>, followed by a zero byte.\<close>

fun cstr :: "mem \<Rightarrow> u64 \<Rightarrow> u8 list \<Rightarrow> bool" where
  "cstr m p [] \<longleftrightarrow> m p = 0"
| "cstr m p (c # cs) \<longleftrightarrow> c \<noteq> 0 \<and> m p = c \<and> cstr m (p + 1) cs"

lemma cstr_unique: "cstr m p s \<Longrightarrow> cstr m p t \<Longrightarrow> s = t"
proof (induction s arbitrary: p t)
  case Nil
  then show ?case by (cases t) auto
next
  case (Cons c s)
  then show ?case by (cases t) auto
qed

lemma cstr_cong:
  "(\<And>x. x \<in> span p (Suc (length s)) \<Longrightarrow> m x = m' x) \<Longrightarrow> cstr m p s \<longleftrightarrow> cstr m' p s"
proof (induction s arbitrary: p)
  case Nil
  then show ?case by (simp add: span_Suc)
next
  case (Cons c s)
  have "cstr m (p + 1) s \<longleftrightarrow> cstr m' (p + 1) s"
    by (rule Cons.IH) (use Cons.prems in \<open>auto simp: span_Suc\<close>)
  then show ?case using Cons.prems by (auto simp: span_Suc)
qed

lemma strlen_loop_cstr:
  "cstr m p s \<Longrightarrow> strlen_loop m b p = Some (p + of_nat (length s) - b)"
  by (induction s arbitrary: p) (simp_all add: strlen_loop.simps ac_simps)

lemma strlen_cstr: "cstr m p s \<Longrightarrow> strlen m p = Some (of_nat (length s))"
  by (simp add: strlen_def strlen_loop_cstr)

text \<open>\<open>strcmp\<close> always stops on two strings, with the sign of the first difference.\<close>

fun str_order :: "u8 list \<Rightarrow> u8 list \<Rightarrow> int" where
  "str_order (c # cs) (d # ds) =
     (if c = d then str_order cs ds else if sint c < sint d then -1 else 1)"
| "str_order (c # cs) [] = (if sint c < 0 then -1 else 1)"
| "str_order [] (d # ds) = (if 0 < sint d then -1 else 1)"
| "str_order [] [] = 0"

lemma strcmp_cstr:
  "cstr m l s \<Longrightarrow> cstr m r t \<Longrightarrow> strcmp m l r = Some (str_order s t)"
  by (induction s t arbitrary: l r rule: str_order.induct) (auto simp: strcmp.simps)

lemma str_order_0_iff: "str_order s t = 0 \<longleftrightarrow> s = t"
  by (induction s t rule: str_order.induct) auto

lemma strcpy_loop_cstr:
  assumes "cstr m src s" and "length s < 2 ^ 64 - 1"
    and "span dst (Suc (length s)) \<inter> span src (Suc (length s)) = {}"
  shows "\<exists>m'. strcpy_loop m dst src = Some m' \<and> cstr m' dst s \<and>
    (\<forall>x. x \<notin> span dst (Suc (length s)) \<longrightarrow> m' x = m x)"
  using assms
proof (induction s arbitrary: m dst src)
  case Nil
  then show ?case by (simp add: strcpy_loop.simps span_Suc)
next
  case (Cons c s)
  let ?m = "m(dst := c)"
  have away: "dst \<notin> span (src + 1) (Suc (length s))"
    using Cons.prems(3) by (auto simp: span_Suc)
  have "cstr ?m (src + 1) s \<longleftrightarrow> cstr m (src + 1) s"
    by (rule cstr_cong) (use away in auto)
  then have c: "cstr ?m (src + 1) s" using Cons.prems(1) by simp
  obtain m' where m': "strcpy_loop ?m (dst + 1) (src + 1) = Some m'" "cstr m' (dst + 1) s"
      and frame: "\<And>x. x \<notin> span (dst + 1) (Suc (length s)) \<Longrightarrow> m' x = ?m x"
  proof -
    have "span (dst + 1) (Suc (length s)) \<inter> span (src + 1) (Suc (length s)) = {}"
      using Cons.prems(3) span_Suc [of dst "Suc (length s)"] span_Suc [of src "Suc (length s)"]
      by auto
    moreover have "length s < 2 ^ 64 - 1" using Cons.prems(2) by simp
    ultimately show thesis using Cons.IH [OF c] that by blast
  qed
  have "dst \<notin> span (dst + 1) (Suc (length s))"
    using Cons.prems(2) by (intro notin_span_Suc) simp
  then have "m' dst = c" by (simp add: frame)
  moreover have "m' x = m x" if "x \<notin> span dst (Suc (length (c # s)))" for x
    using that by (auto simp: span_Suc [of dst] frame)
  ultimately show ?case using Cons.prems(1) m' by (auto simp: strcpy_loop.simps [of m dst src])
qed

lemma strchr_cstr:
  assumes "cstr m p s" and "i < length s" and "scast (s ! i) = c"
    and "\<And>j. j < i \<Longrightarrow> scast (s ! j) \<noteq> c"
  shows "strchr m p c = Some (p + of_nat i)"
  using assms
proof (induction s arbitrary: p i)
  case Nil
  then show ?case by simp
next
  case (Cons d s)
  show ?case
  proof (cases i)
    case 0
    then show ?thesis using Cons.prems by (auto simp: strchr.simps)
  next
    case (Suc k)
    have "strchr m (p + 1) c = Some (p + 1 + of_nat k)"
      by (rule Cons.IH) (use Cons.prems Suc Cons.prems(4) [of "Suc _"] in auto)
    then show ?thesis using Cons.prems(1) Cons.prems(4) [of 0] Suc
      by (simp add: strchr.simps [of m p] ac_simps)
  qed
qed

lemma strchr_cstr_none:
  "cstr m p s \<Longrightarrow> c \<notin> scast ` set s \<Longrightarrow> strchr m p c = Some 0"
  by (induction s arbitrary: p) (auto simp: strchr.simps)


subsection \<open>Literals\<close>

text \<open>
  The kernel compares memory with string literals, whose bytes are known and whose address is not:
  \<open>memcmp_lit\<close> and \<open>strcmp_lit\<close> are \<open>memcmp\<close> and
  \<open>strcmp\<close> with the literal as second argument.
\<close>

definition bytes_of :: "string \<Rightarrow> u8 list" where
  "bytes_of s = map of_char s"

primrec memcmp_lit :: "mem \<Rightarrow> u64 \<Rightarrow> u8 list \<Rightarrow> int" where
  "memcmp_lit m l [] = 0"
| "memcmp_lit m l (c # cs) =
     (if m l \<noteq> c then (if sint (m l) < sint c then -1 else 1) else memcmp_lit m (l + 1) cs)"

primrec strcmp_lit :: "mem \<Rightarrow> u64 \<Rightarrow> u8 list \<Rightarrow> int" where
  "strcmp_lit m l [] = (if m l \<noteq> 0 then (if sint (m l) < 0 then -1 else 1) else 0)"
| "strcmp_lit m l (c # cs) =
     (if m l \<noteq> c then (if sint (m l) < sint c then -1 else 1) else strcmp_lit m (l + 1) cs)"

lemma memcmp_lit_eq:
  "(\<And>i. i < length cs \<Longrightarrow> m (r + of_nat i) = cs ! i) \<Longrightarrow>
   memcmp_loop m l r (length cs) = memcmp_lit m l cs"
proof (induction cs arbitrary: l r)
  case Nil
  then show ?case by simp
next
  case (Cons c cs)
  have "memcmp_loop m (l + 1) (r + 1) (length cs) = memcmp_lit m (l + 1) cs"
  proof (rule Cons.IH)
    fix i assume "i < length cs"
    then show "m (r + 1 + of_nat i) = cs ! i" using Cons.prems [of "Suc i"] by (simp add: ac_simps)
  qed
  then show ?case using Cons.prems [of 0] by simp
qed

lemma strcmp_lit_eq: "0 \<notin> set cs \<Longrightarrow> cstr m r cs \<Longrightarrow> strcmp m l r = Some (strcmp_lit m l cs)"
  by (induction cs arbitrary: l r) (auto simp: strcmp.simps)

subsection \<open>The machine\<close>

record machine = cpu +
  memory :: mem

subsection \<open>What the kernel relies on\<close>

text \<open>
  \<open>memmove\<close> copies exactly, also when source and destination overlap in either direction,
  and writes nothing outside the destination, as long as neither area wraps around the
  address space.
\<close>

theorem memmove_exact:
  assumes "unat src + unat sz \<le> 2 ^ 64" and "unat dst + unat sz \<le> 2 ^ 64"
  shows "memmove m dst src sz x =
    (if x \<in> span dst (unat sz) then m (src + (x - dst)) else m x)"
  by (rule memmove_eq [OF assms])

theorem memmove_exact_witness:
  "map (memmove (\<lambda>a. ucast a) 12 10 4) [12, 13, 14, 15, 16] = [10, 11, 12, 13, 16]"
  using memmove_exact [of 10 4 12 "\<lambda>a. ucast a"] by (simp add: span_iff_unat unsigned_ucast_eq)

text \<open>
  \<open>strcpy\<close> of a zero-terminated string that does not overlap the destination ends, returns the
  destination, leaves there the same string with its terminator, and writes no other byte.
\<close>

theorem strcpy_exact:
  assumes "cstr m src s" and "length s < 2 ^ 64 - 1"
    and "span dst (Suc (length s)) \<inter> span src (Suc (length s)) = {}"
  shows "\<exists>m'. strcpy m dst src = Some (dst, m') \<and> cstr m' dst s \<and>
    (\<forall>x. x \<notin> span dst (Suc (length s)) \<longrightarrow> m' x = m x)"
  using strcpy_loop_cstr [OF assms] by (auto simp: strcpy_def)

theorem strcpy_exact_witness:
  "\<exists>m'. strcpy ((\<lambda>a. 0)(5 := 104, 6 := 105)) 20 5 = Some (20, m') \<and> cstr m' 20 [104, 105]"
proof -
  let ?m = "(\<lambda>a. 0)(5 := 104, 6 := 105) :: mem"
  have c: "cstr ?m 5 [104, 105]" by simp
  have len: "length [104, 105 :: u8] < 2 ^ 64 - 1" by simp
  have "span 20 (Suc (Suc (Suc 0))) = {20, 21, 22}" "span 5 (Suc (Suc (Suc 0))) = {5, 6, 7}"
    by (simp_all add: span_Suc)
  then have "span 20 (Suc (length [104, 105 :: u8])) \<inter> span 5 (Suc (length [104, 105 :: u8])) = {}"
    by simp
  from strcpy_exact [OF c len this] show ?thesis by blast
qed

end
