(* ===== verification/Misc.thy ===== *)
theory Misc
  imports Memory
begin

text \<open>
  What the boot loader hands over (\<open>src/misc.c\<close>, \<open>inc/multiboot.h\<close>): the
  position of the physical memory map and of the initial RAM disk. The multiboot structures are read
  field by field from memory at their packed offsets.
\<close>

record boot = machine +
  mmap_begin :: u64
  mmap_end :: u64
  initrd_begin :: u64
  initrd_end :: u64

subsection \<open>Multiboot structures\<close>

record multiboot_info =
  mb_flags :: u32
  mods_count :: u32
  mods_addr :: u32
  mmap_length :: u32
  mmap_addr :: u32

definition read_multiboot_info :: "mem \<Rightarrow> u64 \<Rightarrow> multiboot_info" where
  "read_multiboot_info m p =
     \<lparr>mb_flags = load_u32 m p, mods_count = load_u32 m (p + 20), mods_addr = load_u32 m (p + 24),
      mmap_length = load_u32 m (p + 44), mmap_addr = load_u32 m (p + 48)\<rparr>"

record multiboot_mmap_entry =
  me_size :: u32
  me_addr :: u64
  me_len :: u64
  me_type :: u32

definition read_mmap_entry :: "mem \<Rightarrow> u64 \<Rightarrow> multiboot_mmap_entry" where
  "read_mmap_entry m p =
     \<lparr>me_size = load_u32 m p, me_addr = load_u64 m (p + 4), me_len = load_u64 m (p + 12),
      me_type = load_u32 m (p + 20)\<rparr>"

definition mmap_entry_bytes :: u64 where "mmap_entry_bytes = 24"
definition MULTIBOOT_MEMORY_AVAILABLE :: u32 where "MULTIBOOT_MEMORY_AVAILABLE = 1"
definition MULTIBOOT_INFO_MODS :: u32 where "MULTIBOOT_INFO_MODS = 8"
definition MULTIBOOT_INFO_MEM_MAP :: u32 where "MULTIBOOT_INFO_MEM_MAP = 0x40"

record multiboot_mod_list =
  mod_start :: u32
  mod_end :: u32

definition read_mod_list :: "mem \<Rightarrow> u64 \<Rightarrow> multiboot_mod_list" where
  "read_mod_list m p = \<lparr>mod_start = load_u32 m p, mod_end = load_u32 m (p + 4)\<rparr>"

subsection \<open>Finding the memory map and the RAM disk\<close>

definition mmap_find :: "multiboot_info \<Rightarrow> 'a boot_scheme \<Rightarrow> 'a boot_scheme result" where
  "mmap_find info s =
     (if mb_flags info AND MULTIBOOT_INFO_MEM_MAP = 0 then Inl Hang
      else let b = ucast (mmap_addr info)
           in Inr (s\<lparr>mmap_begin := b, mmap_end := b + ucast (mmap_length info)\<rparr>))"

definition cpio_sign :: "u8 list" where
  "cpio_sign = bytes_of ''070701''"

text \<open>The loop over the modules; \<open>n\<close> modules are left and the next one stands at \<open>p\<close>.\<close>

primrec initrd_scan :: "nat \<Rightarrow> u64 \<Rightarrow> 'a boot_scheme \<Rightarrow> 'a boot_scheme result" where
  "initrd_scan 0 p s = Inl Hang"
| "initrd_scan (Suc n) p s =
     (let m = read_mod_list (memory s) p
      in if unat (mod_end m - mod_start m) < length cpio_sign then initrd_scan n (p + 16) s
         else if memcmp_lit (memory s) (va (ucast (mod_start m))) cpio_sign \<noteq> 0
              then initrd_scan n (p + 16) s
         else Inr (s\<lparr>initrd_begin := ucast (mod_start m), initrd_end := ucast (mod_end m)\<rparr>))"

definition initrd_find :: "multiboot_info \<Rightarrow> 'a boot_scheme \<Rightarrow> 'a boot_scheme result" where
  "initrd_find info s =
     (if mb_flags info AND MULTIBOOT_INFO_MODS = 0 then Inl Hang
      else initrd_scan (unat (mods_count info)) (va (ucast (mods_addr info))) s)"

definition misc_setup :: "u64 \<Rightarrow> 'a boot_scheme \<Rightarrow> 'a boot_scheme result" where
  "misc_setup info_addr s =
     (let info = read_multiboot_info (memory s) info_addr
      in and_then (mmap_find info s) (initrd_find info))"

subsection \<open>What is found\<close>

text \<open>
  A module whose size is at least six bytes and which starts with the CPIO signature is a candidate;
  the scan stops at the first one.
\<close>

definition is_initrd :: "mem \<Rightarrow> u64 \<Rightarrow> bool" where
  "is_initrd m p \<longleftrightarrow>
     length cpio_sign \<le> unat (mod_end (read_mod_list m p) - mod_start (read_mod_list m p)) \<and>
     memcmp_lit m (va (ucast (mod_start (read_mod_list m p)))) cpio_sign = 0"

lemma initrd_scan_Suc:
  "initrd_scan (Suc n) p s =
     (if is_initrd (memory s) p
      then Inr (s\<lparr>initrd_begin := ucast (mod_start (read_mod_list (memory s) p)),
                   initrd_end := ucast (mod_end (read_mod_list (memory s) p))\<rparr>)
      else initrd_scan n (p + 16) s)"
  by (auto simp: is_initrd_def Let_def)

declare initrd_scan.simps(2) [simp del]

lemma initrd_scan_first:
  assumes "i < n" and "is_initrd (memory s) (p + 16 * of_nat i)"
    and "\<And>j. j < i \<Longrightarrow> \<not> is_initrd (memory s) (p + 16 * of_nat j)"
  shows "initrd_scan n p s =
    Inr (s\<lparr>initrd_begin := ucast (mod_start (read_mod_list (memory s) (p + 16 * of_nat i))),
           initrd_end := ucast (mod_end (read_mod_list (memory s) (p + 16 * of_nat i)))\<rparr>)"
  using assms
proof (induction n arbitrary: p i)
  case 0
  then show ?case by simp
next
  case (Suc n)
  show ?case
  proof (cases i)
    case 0
    then show ?thesis using Suc.prems by (simp add: initrd_scan_Suc)
  next
    case (Suc k)
    have "\<not> is_initrd (memory s) p" using Suc.prems(3) [of 0] Suc by simp
    moreover have "initrd_scan n (p + 16) s =
      Inr (s\<lparr>initrd_begin := ucast (mod_start (read_mod_list (memory s) (p + 16 + 16 * of_nat k))),
             initrd_end := ucast (mod_end (read_mod_list (memory s) (p + 16 + 16 * of_nat k)))\<rparr>)"
    proof (rule Suc.IH)
      fix j assume "j < k"
      then show "\<not> is_initrd (memory s) (p + 16 + 16 * of_nat j)"
        using Suc.prems(3) [of "Suc j"] Suc by (simp add: algebra_simps)
    qed (use Suc.prems Suc in \<open>simp_all add: algebra_simps\<close>)
    ultimately show ?thesis using Suc by (simp add: initrd_scan_Suc algebra_simps)
  qed
qed

lemma initrd_scan_none:
  "(\<And>j. j < n \<Longrightarrow> \<not> is_initrd (memory s) (p + 16 * of_nat j)) \<Longrightarrow> initrd_scan n p s = Inl Hang"
proof (induction n arbitrary: p)
  case 0
  then show ?case by simp
next
  case (Suc n)
  have "\<not> is_initrd (memory s) p" using Suc.prems [of 0] by simp
  moreover have "initrd_scan n (p + 16) s = Inl Hang"
  proof (rule Suc.IH)
    fix j assume "j < n"
    then show "\<not> is_initrd (memory s) (p + 16 + 16 * of_nat j)"
      using Suc.prems [of "Suc j"] by (simp add: algebra_simps)
  qed
  ultimately show ?case by (simp add: initrd_scan_Suc)
qed

lemma mmap_find_frame:
  "mmap_find info s = Inr s' \<Longrightarrow> memory s' = memory s \<and> initrd_begin s' = initrd_begin s"
  by (auto simp: mmap_find_def Let_def split: if_splits)

subsection \<open>Finding the RAM disk\<close>

text \<open>
  \<open>initrd_find\<close> takes the first module of the boot loader's list that is long enough and starts
  with the CPIO signature, and nothing else changes; if there is no such module it never returns.
\<close>

theorem initrd_find_first:
  fixes s :: "'a boot_scheme"
  assumes "mb_flags info AND MULTIBOOT_INFO_MODS \<noteq> 0"
  defines "cand \<equiv> \<lambda>i. i < unat (mods_count info) \<and>
      is_initrd (memory s) (va (ucast (mods_addr info)) + 16 * of_nat i)"
  shows "initrd_find info s =
    (if \<exists>i. cand i
     then let m = read_mod_list (memory s) (va (ucast (mods_addr info)) + 16 * of_nat (LEAST i. cand i))
          in Inr (s\<lparr>initrd_begin := ucast (mod_start m), initrd_end := ucast (mod_end m)\<rparr>)
     else Inl Hang)"
proof (cases "\<exists>i. cand i")
  case True
  define l where "l = (LEAST i. cand i)"
  have l: "cand l" unfolding l_def by (rule LeastI_ex [OF True])
  have "\<not> cand j" if "j < l" for j using that unfolding l_def by (rule not_less_Least)
  then have "\<not> is_initrd (memory s) (va (ucast (mods_addr info)) + 16 * of_nat j)" if "j < l" for j
    using that l by (auto simp: cand_def)
  from initrd_scan_first [OF _ _ this] l
  show ?thesis
    using True assms(1) unfolding l_def [symmetric]
    by (simp add: initrd_find_def Let_def cand_def)
next
  case False
  then have "initrd_scan (unat (mods_count info)) (va (ucast (mods_addr info))) s = Inl Hang"
    by (intro initrd_scan_none) (auto simp: cand_def)
  then show ?thesis using assms(1) False by (simp add: initrd_find_def)
qed

theorem initrd_find_first_witness:
  "initrd_find \<lparr>mb_flags = 8, mods_count = 0, mods_addr = 0, mmap_length = 0, mmap_addr = 0\<rparr>
     \<lparr>rflags = 0, preempt_count = 0, memory = (\<lambda>a. 0), mmap_begin = 0, mmap_end = 0,
      initrd_begin = 0, initrd_end = 0\<rparr> = Inl Hang"
  by (subst initrd_find_first) (simp_all add: MULTIBOOT_INFO_MODS_def)

end
