(* ===== verification/Balloc.thy ===== *)
theory Balloc
  imports Misc
begin

text \<open>
  The bootstrap allocator (\<open>src/balloc.c\<close>): sorted arrays of address ranges, from which the
  kernel takes memory before the buddy allocator exists. \<open>struct balloc_ranges\<close> (an array
  and its used size) is the list of its used entries; \<open>memmove\<close> inside the array is
  \<open>take\<close> and \<open>drop\<close>.

  The theorems read a range list as the set of addresses it covers: \<open>balloc_add_range\<close> is
  set union, \<open>balloc_remove_range\<close> is set difference, both keep the list sorted and free of
  touching ranges, and what \<open>balloc_alloc\<close> returns was free, is aligned, and is free no more.
\<close>

record balloc_range =
  rbegin :: u64
  rend :: u64

type_synonym balloc_ranges = "balloc_range list"

record balloc = boot +
  free_ranges :: balloc_ranges
  all_ranges :: balloc_ranges

lemma balloc_self [simp]:
  "s\<lparr>free_ranges := free_ranges s\<rparr> = s"
  "s\<lparr>all_ranges := a, free_ranges := free_ranges s\<rparr> = s\<lparr>all_ranges := a\<rparr>"
  by (cases s; simp)+

definition BALLOC_MAX_RANGE_SIZE :: nat where
  "BALLOC_MAX_RANGE_SIZE = 256"

subsection \<open>Adding and removing a range\<close>

text \<open>The two scanning loops of \<open>balloc_add_range\<close> and \<open>balloc_remove_range\<close>.\<close>

function scan_from :: "balloc_ranges \<Rightarrow> u64 \<Rightarrow> nat \<Rightarrow> nat" where
  "scan_from rs begin i =
     (if i < length rs \<and> begin > rend (rs ! i) then scan_from rs begin (Suc i) else i)"
  by pat_completeness auto
termination
  by (relation "measure (\<lambda>(rs, begin, i). length rs - i)") auto

function scan_to :: "balloc_ranges \<Rightarrow> u64 \<Rightarrow> nat \<Rightarrow> nat" where
  "scan_to rs end i =
     (if i < length rs \<and> end \<ge> rbegin (rs ! i) then scan_to rs end (Suc i) else i)"
  by pat_completeness auto
termination
  by (relation "measure (\<lambda>(rs, end, i). length rs - i)") auto

declare scan_from.simps [simp del] scan_to.simps [simp del]

definition balloc_add_range :: "balloc_ranges \<Rightarrow> u64 \<Rightarrow> u64 \<Rightarrow> balloc_ranges result" where
  "balloc_add_range rs begin end =
     (let from = scan_from rs begin 0;
          to = scan_to rs end from
      in if length rs + 1 - (to - from) > BALLOC_MAX_RANGE_SIZE then Inl Hang
         else let begin' = (if from \<noteq> to \<and> begin > rbegin (rs ! from) then rbegin (rs ! from)
                            else begin);
                  end' = (if from \<noteq> to \<and> end < rend (rs ! (to - 1)) then rend (rs ! (to - 1))
                          else end)
              in Inr (take from rs @ [\<lparr>rbegin = begin', rend = end'\<rparr>] @ drop to rs))"

definition balloc_remove_range :: "balloc_ranges \<Rightarrow> u64 \<Rightarrow> u64 \<Rightarrow> balloc_ranges result" where
  "balloc_remove_range rs begin end =
     (let from = scan_from rs begin 0;
          to = scan_to rs end from
      in if from = to then Inr rs
         else let before = rbegin (rs ! from);
                  after = rend (rs ! (to - 1));
                  rs1 = take from rs @ drop to rs
              in and_then (if before < begin then balloc_add_range rs1 before begin else Inr rs1)
                   (\<lambda>rs2. if after > end then balloc_add_range rs2 end after else Inr rs2))"

subsection \<open>Allocation\<close>

definition balloc_align_down :: "u64 \<Rightarrow> u64 \<Rightarrow> u64" where
  "balloc_align_down x align = x - x mod align"

definition balloc_align_up :: "u64 \<Rightarrow> u64 \<Rightarrow> u64" where
  "balloc_align_up x align = balloc_align_down (x + align - 1) align"

fun balloc_find_range :: "balloc_ranges \<Rightarrow> u64 \<Rightarrow> u64 \<Rightarrow> u64 \<Rightarrow> u64 \<Rightarrow> u64" where
  "balloc_find_range [] from to sz align = to"
| "balloc_find_range (r # rs) from to sz align =
     (if rbegin r \<ge> to then to
      else if rend r \<le> from then balloc_find_range rs from to sz align
      else let addr = balloc_align_up (rbegin r) align
           in if addr + sz \<le> rend r then addr
              else balloc_find_range rs from to sz align)"

definition do_balloc_alloc ::
    "u64 \<Rightarrow> u64 \<Rightarrow> u64 \<Rightarrow> u64 \<Rightarrow> 'a balloc_scheme \<Rightarrow> (u64 \<times> 'a balloc_scheme) result" where
  "do_balloc_alloc from to sz align s =
     (let addr = balloc_find_range (free_ranges s) from to sz align
      in if addr = to then Inr (0, s)
         else and_then (balloc_remove_range (free_ranges s) addr (addr + sz))
                (\<lambda>rs. Inr (addr, s\<lparr>free_ranges := rs\<rparr>)))"

definition UINTPTR_MAX :: u64 where
  "UINTPTR_MAX = - 1"

definition balloc_alloc :: "u64 \<Rightarrow> u64 \<Rightarrow> 'a balloc_scheme \<Rightarrow> (u64 \<times> 'a balloc_scheme) result" where
  "balloc_alloc sz align s = do_balloc_alloc 0 UINTPTR_MAX sz align s"

subsection \<open>Setup from the boot loader's memory map\<close>

text \<open>
  The two passes over the memory map. The pointer advances by the entry's own size, so the loop ends
  only if no entry makes the pointer wrap around.
\<close>

partial_function (option) setup_add ::
    "u64 \<Rightarrow> 'a balloc_scheme \<Rightarrow> 'a balloc_scheme result option" where
  "setup_add ptr s =
     (if ptr + mmap_entry_bytes \<le> mmap_end s then
        let e = read_mmap_entry (memory s) (va ptr);
            from = me_addr e; to = from + me_len e
        in case and_then (balloc_add_range (all_ranges s) from to)
                  (\<lambda>a. if me_type e = MULTIBOOT_MEMORY_AVAILABLE
                        then and_then (balloc_add_range (free_ranges s) from to)
                               (\<lambda>f. Inr (s\<lparr>all_ranges := a, free_ranges := f\<rparr>))
                        else Inr (s\<lparr>all_ranges := a\<rparr>)) of
             Inl f \<Rightarrow> Some (Inl f)
           | Inr s' \<Rightarrow> setup_add (ptr + (ucast (me_size e) + 4)) s'
      else Some (Inr s))"

partial_function (option) setup_remove ::
    "u64 \<Rightarrow> 'a balloc_scheme \<Rightarrow> 'a balloc_scheme result option" where
  "setup_remove ptr s =
     (if ptr + mmap_entry_bytes \<le> mmap_end s then
        let e = read_mmap_entry (memory s) (va ptr);
            from = me_addr e; to = from + me_len e
        in case (if me_type e \<noteq> MULTIBOOT_MEMORY_AVAILABLE
                 then and_then (balloc_remove_range (free_ranges s) from to)
                        (\<lambda>f. Inr (s\<lparr>free_ranges := f\<rparr>))
                 else Inr s) of
             Inl f \<Rightarrow> Some (Inl f)
           | Inr s' \<Rightarrow> setup_remove (ptr + (ucast (me_size e) + 4)) s'
      else Some (Inr s))"

text \<open>Removing one range from the free list, as \<open>balloc_setup\<close> does for the fixed areas.\<close>

definition free_remove :: "u64 \<Rightarrow> u64 \<Rightarrow> 'a balloc_scheme \<Rightarrow> 'a balloc_scheme result" where
  "free_remove b e s =
     and_then (balloc_remove_range (free_ranges s) b e) (\<lambda>f. Inr (s\<lparr>free_ranges := f\<rparr>))"

text \<open>The kernel's own extent (\<open>text_phys_begin\<close>, \<open>bss_phys_end\<close>) comes from the linker script.\<close>

definition balloc_setup ::
    "u64 \<Rightarrow> u64 \<Rightarrow> 'a balloc_scheme \<Rightarrow> 'a balloc_scheme result option" where
  "balloc_setup kernel_begin kernel_end s =
     Option.bind (setup_add (mmap_begin s) s) (\<lambda>r1. case r1 of Inl f \<Rightarrow> Some (Inl f) | Inr s1 \<Rightarrow>
     Option.bind (setup_remove (mmap_begin s1) s1) (\<lambda>r2. Some
       (and_then r2 (\<lambda>s2.
        and_then (free_remove kernel_begin kernel_end s2) (\<lambda>s3.
        and_then (free_remove (initrd_begin s3) (initrd_end s3) s3) (\<lambda>s4.
        and_then (balloc_add_range (all_ranges s4) 0 (1024 * 1024)) (\<lambda>a.
        free_remove 0 (1024 * 1024) (s4\<lparr>all_ranges := a\<rparr>))))))))"

subsection \<open>Reading the map back\<close>

definition balloc_n_ranges :: "'a balloc_scheme \<Rightarrow> nat" where
  "balloc_n_ranges s = length (all_ranges s)"

definition balloc_get_range :: "nat \<Rightarrow> 'a balloc_scheme \<Rightarrow> balloc_range" where
  "balloc_get_range i s = all_ranges s ! i"

definition balloc_free_ranges :: "'a balloc_scheme \<Rightarrow> nat" where
  "balloc_free_ranges s = length (free_ranges s)"

definition balloc_get_free_range :: "nat \<Rightarrow> 'a balloc_scheme \<Rightarrow> balloc_range" where
  "balloc_get_free_range i s = free_ranges s ! i"

definition balloc_phys_mem :: "'a balloc_scheme \<Rightarrow> u64" where
  "balloc_phys_mem s = rend (all_ranges s ! (length (all_ranges s) - 1))"

subsection \<open>Range lists as sets of addresses\<close>

definition covers :: "balloc_ranges \<Rightarrow> u64 set" where
  "covers rs = (\<Union>r\<in>set rs. {rbegin r..<rend r})"

text \<open>Sorted, and between two neighbours there is at least one address that belongs to neither.\<close>

definition ranges_ok :: "balloc_ranges \<Rightarrow> bool" where
  "ranges_ok rs \<longleftrightarrow> sorted_wrt (\<lambda>a b. rend a < rbegin b) rs \<and> (\<forall>r\<in>set rs. rbegin r \<le> rend r)"

lemma covers_simps [simp]:
  "covers [] = {}"
  "covers (r # rs) = {rbegin r..<rend r} \<union> covers rs"
  "covers (rs @ qs) = covers rs \<union> covers qs"
  by (auto simp: covers_def)

lemma ranges_ok_append:
  "ranges_ok (xs @ ys) \<longleftrightarrow>
     ranges_ok xs \<and> ranges_ok ys \<and> (\<forall>x\<in>set xs. \<forall>y\<in>set ys. rend x < rbegin y)"
  by (auto simp: ranges_ok_def sorted_wrt_append)

lemma ranges_ok_Cons:
  "ranges_ok (x # ys) \<longleftrightarrow>
     rbegin x \<le> rend x \<and> ranges_ok ys \<and> (\<forall>y\<in>set ys. rend x < rbegin y)"
  by (auto simp: ranges_ok_def)

lemma ranges_ok_Nil [simp]: "ranges_ok []"
  by (simp add: ranges_ok_def)

text \<open>The loops cut the list in three: ranges before, ranges that meet \<open>[begin, end]\<close>, ranges after.\<close>

lemma scan_from_props:
  assumes "i \<le> length rs"
  shows "i \<le> scan_from rs b i" and "scan_from rs b i \<le> length rs"
    and "\<And>j. i \<le> j \<Longrightarrow> j < scan_from rs b i \<Longrightarrow> rend (rs ! j) < b"
    and "scan_from rs b i < length rs \<Longrightarrow> b \<le> rend (rs ! scan_from rs b i)"
proof -
  have "i \<le> scan_from rs b i \<and> scan_from rs b i \<le> length rs \<and>
    (\<forall>j. i \<le> j \<longrightarrow> j < scan_from rs b i \<longrightarrow> rend (rs ! j) < b) \<and>
    (scan_from rs b i < length rs \<longrightarrow> b \<le> rend (rs ! scan_from rs b i))"
    using assms
  proof (induction rs b i rule: scan_from.induct)
    case (1 rs b i)
    show ?case
    proof (cases "i < length rs \<and> b > rend (rs ! i)")
      case True
      have "scan_from rs b i = scan_from rs b (Suc i)"
        using True by (simp add: scan_from.simps [of rs b i])
      moreover have "rend (rs ! j) < b" if "i \<le> j" "j < scan_from rs b (Suc i)" for j
        using True 1(1) [OF True] that by (cases "j = i") auto
      ultimately show ?thesis using 1(1) [OF True] True by auto
    next
      case False
      then have "scan_from rs b i = i" by (subst scan_from.simps) (rule if_not_P)
      then show ?thesis using False 1(2) by auto
    qed
  qed
  then show "i \<le> scan_from rs b i" and "scan_from rs b i \<le> length rs"
    and "\<And>j. i \<le> j \<Longrightarrow> j < scan_from rs b i \<Longrightarrow> rend (rs ! j) < b"
    and "scan_from rs b i < length rs \<Longrightarrow> b \<le> rend (rs ! scan_from rs b i)"
    by auto
qed

lemma scan_to_props:
  assumes "i \<le> length rs"
  shows "i \<le> scan_to rs e i" and "scan_to rs e i \<le> length rs"
    and "\<And>j. i \<le> j \<Longrightarrow> j < scan_to rs e i \<Longrightarrow> rbegin (rs ! j) \<le> e"
    and "scan_to rs e i < length rs \<Longrightarrow> e < rbegin (rs ! scan_to rs e i)"
proof -
  have "i \<le> scan_to rs e i \<and> scan_to rs e i \<le> length rs \<and>
    (\<forall>j. i \<le> j \<longrightarrow> j < scan_to rs e i \<longrightarrow> rbegin (rs ! j) \<le> e) \<and>
    (scan_to rs e i < length rs \<longrightarrow> e < rbegin (rs ! scan_to rs e i))"
    using assms
  proof (induction rs e i rule: scan_to.induct)
    case (1 rs e i)
    show ?case
    proof (cases "i < length rs \<and> e \<ge> rbegin (rs ! i)")
      case True
      have "scan_to rs e i = scan_to rs e (Suc i)"
        using True by (simp add: scan_to.simps [of rs e i])
      moreover have "rbegin (rs ! j) \<le> e" if "i \<le> j" "j < scan_to rs e (Suc i)" for j
        using True 1(1) [OF True] that by (cases "j = i") auto
      ultimately show ?thesis using 1(1) [OF True] True by auto
    next
      case False
      then have "scan_to rs e i = i" by (subst scan_to.simps) (rule if_not_P)
      then show ?thesis using False 1(2) by auto
    qed
  qed
  then show "i \<le> scan_to rs e i" and "scan_to rs e i \<le> length rs"
    and "\<And>j. i \<le> j \<Longrightarrow> j < scan_to rs e i \<Longrightarrow> rbegin (rs ! j) \<le> e"
    and "scan_to rs e i < length rs \<Longrightarrow> e < rbegin (rs ! scan_to rs e i)"
    by auto
qed


text \<open>The cut itself, with what it says about the three parts.\<close>

lemma scan_cut:
  assumes ok: "ranges_ok rs" and be: "b \<le> e"
  defines "i \<equiv> scan_from rs b 0"
  defines "j \<equiv> scan_to rs e i"
  obtains xs ms ys where "rs = xs @ ms @ ys" and "i = length xs" and "j = length (xs @ ms)"
    and "\<And>r. r \<in> set xs \<Longrightarrow> rend r < b"
    and "\<And>r. r \<in> set ms \<Longrightarrow> b \<le> rend r \<and> rbegin r \<le> e"
    and "\<And>r. r \<in> set ys \<Longrightarrow> e < rbegin r"
proof
  note f = scan_from_props [where i = 0 and rs = rs and b = b, folded i_def]
  have i: "i \<le> length rs" using f(2) by simp
  note t = scan_to_props [OF i, where e = e, folded j_def]
  have mono: "rend (rs ! k) < rbegin (rs ! l)" if "k < l" "l < length rs" for k l
    using ok that by (auto simp: ranges_ok_def sorted_wrt_iff_nth_less)
  have le: "rbegin (rs ! k) \<le> rend (rs ! k)" if "k < length rs" for k
    using ok that by (auto simp: ranges_ok_def)
  show "rs = take i rs @ take (j - i) (drop i rs) @ drop j rs"
    using t(1) by (metis append_take_drop_id drop_drop le_add_diff_inverse2)
  show "i = length (take i rs)" using i by simp
  show "j = length (take i rs @ take (j - i) (drop i rs))" using i t(1,2) by simp
  show "rend r < b" if r: "r \<in> set (take i rs)" for r
    using r f(3) i by (auto simp: in_set_conv_nth)
  show "e < rbegin r" if r: "r \<in> set (drop j rs)" for r
  proof -
    obtain k where k: "r = rs ! (j + k)" "j + k < length rs"
      using r t(2) by (auto simp: in_set_conv_nth)
    have "e < rbegin (rs ! j)" using t(4) k(2) by simp
    moreover have "rbegin (rs ! j) \<le> rbegin (rs ! (j + k))"
    proof (cases k)
      case 0
      then show ?thesis by simp
    next
      case (Suc l)
      then show ?thesis using mono [of j "j + k"] le [of j] k(2) by fastforce
    qed
    ultimately show ?thesis using k(1) by fastforce
  qed
  show "b \<le> rend r \<and> rbegin r \<le> e" if r: "r \<in> set (take (j - i) (drop i rs))" for r
  proof -
    obtain k where k: "r = rs ! (i + k)" "k < j - i"
      using r t(2) by (auto simp: in_set_conv_nth)
    then have kl: "i + k < length rs" using t(2) by simp
    have "b \<le> rend (rs ! i)" using f(4) kl by simp
    moreover have "rend (rs ! i) \<le> rend (rs ! (i + k))"
    proof (cases k)
      case 0
      then show ?thesis by simp
    next
      case (Suc l)
      then show ?thesis using mono [of i "i + k"] le [of "i + k"] kl by fastforce
    qed
    moreover have "rbegin (rs ! (i + k)) \<le> e" using t(3) [of "i + k"] k(2) by simp
    ultimately show ?thesis using k(1) by fastforce
  qed
qed


lemma ranges_ok_bounds:
  assumes "ranges_ok ms" and "r \<in> set ms"
  shows "rbegin (hd ms) \<le> rbegin r" and "rend r \<le> rend (last ms)"
proof -
  have "rbegin (hd ms) \<le> rbegin r \<and> rend r \<le> rend (last ms)"
    using assms
  proof (induction ms arbitrary: r)
    case Nil
    then show ?case by simp
  next
    case (Cons m ms)
    have m: "rbegin m \<le> rend m" and ok: "ranges_ok ms" and lt: "\<And>y. y \<in> set ms \<Longrightarrow> rend m < rbegin y"
      using Cons.prems(1) by (auto simp: ranges_ok_Cons)
    show ?case
    proof (cases "ms = []")
      case True
      then show ?thesis using Cons.prems(2) by simp
    next
      case False
      have h: "rend m < rbegin (hd ms)" using lt False by simp
      have "rbegin (last ms) \<le> rend (last ms)"
        using ok False by (simp add: ranges_ok_def)
      moreover have "rend m < rbegin (last ms)" using lt False by simp
      ultimately have ml: "rend m \<le> rend (last ms)" by simp
      show ?thesis
      proof (cases "r = m")
        case True
        then show ?thesis using ml False by simp
      next
        case False
        then have "r \<in> set ms" using Cons.prems(2) by simp
        then show ?thesis using Cons.IH [OF ok, of r] h m \<open>ms \<noteq> []\<close>
          by (auto intro: order_trans less_imp_le)
      qed
    qed
  qed
  then show "rbegin (hd ms) \<le> rbegin r" and "rend r \<le> rend (last ms)" by auto
qed

text \<open>The ranges that meet \<open>[b, e]\<close>, seen from the outside.\<close>

lemma middle_covers:
  assumes ok: "ranges_ok ms" and ne: "ms \<noteq> []"
    and mid: "\<And>r. r \<in> set ms \<Longrightarrow> b \<le> rend r \<and> rbegin r \<le> e"
  shows "covers ms \<union> {b..<e} = {min b (rbegin (hd ms))..<max e (rend (last ms))}"
    and "covers ms - {b..<e} = {rbegin (hd ms)..<b} \<union> {e..<rend (last ms)}"
proof -
  have h: "hd ms \<in> set ms" and l: "last ms \<in> set ms" using ne by auto
  have in_hd: "x \<in> covers ms" if "rbegin (hd ms) \<le> x" "x < b" for x
  proof -
    have "x < rend (hd ms)" using that(2) mid [OF h] by (blast intro: order_less_le_trans)
    then show ?thesis using that(1) h unfolding covers_def by fastforce
  qed
  have in_last: "x \<in> covers ms" if "e \<le> x" "x < rend (last ms)" for x
  proof -
    have "rbegin (last ms) \<le> x" using that(1) mid [OF l] by (blast intro: order_trans)
    then show ?thesis using that(2) l unfolding covers_def by fastforce
  qed
  have bounds: "rbegin (hd ms) \<le> x" "x < rend (last ms)" if x: "x \<in> covers ms" for x
  proof -
    obtain r where r: "r \<in> set ms" "rbegin r \<le> x" "x < rend r" using x by (auto simp: covers_def)
    note rb = ranges_ok_bounds [OF ok r(1)]
    show "rbegin (hd ms) \<le> x" using rb(1) r(2) by (rule order_trans)
    show "x < rend (last ms)" using r(3) rb(2) by (rule order_less_le_trans)
  qed
  show "covers ms \<union> {b..<e} = {min b (rbegin (hd ms))..<max e (rend (last ms))}"
  proof (intro set_eqI iffI)
    fix x assume "x \<in> covers ms \<union> {b..<e}"
    then show "x \<in> {min b (rbegin (hd ms))..<max e (rend (last ms))}"
    proof
      assume x: "x \<in> covers ms"
      show ?thesis using bounds [OF x] by (simp add: min_le_iff_disj less_max_iff_disj)
    next
      assume "x \<in> {b..<e}"
      then show ?thesis by (simp add: min_le_iff_disj less_max_iff_disj)
    qed
  next
    fix x assume x: "x \<in> {min b (rbegin (hd ms))..<max e (rend (last ms))}"
    consider "x < b" | "e \<le> x" | "b \<le> x" "x < e" by fastforce
    then show "x \<in> covers ms \<union> {b..<e}"
    proof cases
      case 1
      then have "rbegin (hd ms) \<le> x" using x by (auto simp: min_le_iff_disj not_le [symmetric])
      then show ?thesis using in_hd 1 by blast
    next
      case 2
      then have "x < rend (last ms)" using x by (auto simp: less_max_iff_disj not_less [symmetric])
      then show ?thesis using in_last 2 by blast
    next
      case 3
      then show ?thesis by simp
    qed
  qed
  show "covers ms - {b..<e} = {rbegin (hd ms)..<b} \<union> {e..<rend (last ms)}"
  proof (intro set_eqI iffI)
    fix x assume x: "x \<in> covers ms - {b..<e}"
    then have c: "x \<in> covers ms" and "x < b \<or> e \<le> x" by auto
    then show "x \<in> {rbegin (hd ms)..<b} \<union> {e..<rend (last ms)}"
      using bounds [OF c] by simp
  next
    fix x assume x: "x \<in> {rbegin (hd ms)..<b} \<union> {e..<rend (last ms)}"
    then have "x \<in> covers ms" using in_hd in_last by (metis Un_iff atLeastLessThan_iff)
    moreover have "x < b \<or> e \<le> x" using x by auto
    ultimately show "x \<in> covers ms - {b..<e}" by auto
  qed
qed

text \<open>The cut that a range \<open>[b, e)\<close> makes in a list, as a predicate.\<close>

definition range_cut ::
    "balloc_ranges \<Rightarrow> u64 \<Rightarrow> u64 \<Rightarrow> balloc_ranges \<Rightarrow> balloc_ranges \<Rightarrow> balloc_ranges \<Rightarrow> bool" where
  "range_cut rs b e xs ms ys \<longleftrightarrow>
     rs = xs @ ms @ ys \<and> scan_from rs b 0 = length xs \<and>
     scan_to rs e (length xs) = length xs + length ms \<and>
     (\<forall>r\<in>set xs. rend r < b) \<and> (\<forall>r\<in>set ms. b \<le> rend r \<and> rbegin r \<le> e) \<and>
     (\<forall>r\<in>set ys. e < rbegin r)"

lemma range_cut_exists:
  assumes "ranges_ok rs" and "b \<le> e"
  obtains xs ms ys where "range_cut rs b e xs ms ys"
  by (rule scan_cut [OF assms], rule that) (auto simp: range_cut_def)

lemma range_cut_nth:
  assumes "range_cut rs b e xs ms ys"
  shows "ms \<noteq> [] \<Longrightarrow> rs ! length xs = hd ms"
    and "ms \<noteq> [] \<Longrightarrow> rs ! (length xs + length ms - 1) = last ms"
    and "take (length xs) rs = xs" and "drop (length xs + length ms) rs = ys"
proof -
  have rs: "rs = xs @ ms @ ys" using assms by (simp add: range_cut_def)
  show "ms \<noteq> [] \<Longrightarrow> rs ! length xs = hd ms"
    by (simp add: rs nth_append hd_conv_nth)
  show "ms \<noteq> [] \<Longrightarrow> rs ! (length xs + length ms - 1) = last ms"
    by (cases ms rule: rev_cases) (simp_all add: rs nth_append)
  show "take (length xs) rs = xs" and "drop (length xs + length ms) rs = ys"
    by (simp_all add: rs)
qed

lemma balloc_add_range_eq:
  assumes "range_cut rs b e xs ms ys"
  shows "balloc_add_range rs b e =
    (if length rs + 1 - length ms > BALLOC_MAX_RANGE_SIZE then Inl Hang
     else Inr (xs @ [\<lparr>rbegin = (if ms = [] then b else min b (rbegin (hd ms))),
                      rend = (if ms = [] then e else max e (rend (last ms)))\<rparr>] @ ys))"
proof -
  note n = range_cut_nth [OF assms]
  have idx: "scan_from rs b 0 = length xs" "scan_to rs e (length xs) = length xs + length ms"
    using assms by (auto simp: range_cut_def)
  show ?thesis
  proof (cases "ms = []")
    case True
    then show ?thesis using n(3,4) idx by (simp add: balloc_add_range_def)
  next
    case False
    have "(if b > rbegin (hd ms) then rbegin (hd ms) else b) = min b (rbegin (hd ms))"
      "(if e < rend (last ms) then rend (last ms) else e) = max e (rend (last ms))"
      by (auto simp: min_def max_def)
    then show ?thesis using False n idx by (simp add: balloc_add_range_def Let_def)
  qed
qed

lemma balloc_remove_range_eq:
  assumes "range_cut rs b e xs ms ys"
  shows "balloc_remove_range rs b e =
    (if ms = [] then Inr rs
     else and_then (if rbegin (hd ms) < b then balloc_add_range (xs @ ys) (rbegin (hd ms)) b
                    else Inr (xs @ ys))
            (\<lambda>rs2. if rend (last ms) > e then balloc_add_range rs2 e (rend (last ms))
                    else Inr rs2))"
proof -
  note n = range_cut_nth [OF assms]
  have idx: "scan_from rs b 0 = length xs" "scan_to rs e (length xs) = length xs + length ms"
    using assms by (auto simp: range_cut_def)
  show ?thesis using n idx by (simp add: balloc_remove_range_def)
qed

lemma range_cut_parts:
  assumes "range_cut rs b e xs ms ys" and "ranges_ok rs"
  shows "rs = xs @ ms @ ys" and "ranges_ok xs" and "ranges_ok ms" and "ranges_ok ys"
    and "ranges_ok (xs @ ys)"
  using assms by (auto simp: range_cut_def ranges_ok_append)

lemma balloc_add_range_spec:
  assumes ok: "ranges_ok rs" and be: "b \<le> e" and add: "balloc_add_range rs b e = Inr rs'"
  shows "ranges_ok rs'" and "covers rs' = covers rs \<union> {b..<e}" and "length rs' \<le> length rs + 1"
proof -
  obtain xs ms ys where cut: "range_cut rs b e xs ms ys" by (rule range_cut_exists [OF ok be])
  note parts = range_cut_parts [OF cut ok]
  have cross: "rend x < rbegin y"
    if "x \<in> set xs \<and> y \<in> set ms \<or> x \<in> set ms \<and> y \<in> set ys \<or> x \<in> set xs \<and> y \<in> set ys" for x y
    using that ok unfolding parts(1) ranges_ok_append by auto
  have side: "\<And>x. x \<in> set xs \<Longrightarrow> rend x < b" "\<And>y. y \<in> set ys \<Longrightarrow> e < rbegin y"
    and mid: "\<And>r. r \<in> set ms \<Longrightarrow> b \<le> rend r \<and> rbegin r \<le> e"
    using cut by (auto simp: range_cut_def)
  define new where "new = \<lparr>rbegin = (if ms = [] then b else min b (rbegin (hd ms))),
               rend = (if ms = [] then e else max e (rend (last ms)))\<rparr>"
  have rs': "rs' = xs @ new # ys"
    using add by (simp add: balloc_add_range_eq [OF cut] new_def split: if_splits)
  have nb: "rbegin new \<le> b" "e \<le> rend new" by (simp_all add: new_def)
  then have new_ok: "rbegin new \<le> rend new" using be by (meson order_trans)
  have left: "rend x < rbegin new" if "x \<in> set xs" for x
    using side(1) [OF that] cross [of x "hd ms"] that by (simp add: new_def)
  have right: "rend new < rbegin y" if "y \<in> set ys" for y
    using side(2) [OF that] cross [of "last ms" y] that by (simp add: new_def)
  have "\<forall>x\<in>set xs. \<forall>y\<in>set (new # ys). rend x < rbegin y"
    using left cross by auto
  then show "ranges_ok rs'"
    unfolding rs' ranges_ok_append ranges_ok_Cons using parts(2,4) new_ok right by blast
  have "covers ms \<union> {b..<e} = {rbegin new..<rend new}"
  proof (cases "ms = []")
    case True
    then show ?thesis by (simp add: new_def)
  next
    case False
    show ?thesis using middle_covers(1) [OF parts(3) False mid] False by (simp add: new_def)
  qed
  then show "covers rs' = covers rs \<union> {b..<e}"
    unfolding rs' parts(1) covers_simps by blast
  show "length rs' \<le> length rs + 1" by (simp add: rs' parts(1))
qed

lemma balloc_add_range_returns:
  assumes "ranges_ok rs" and "b \<le> e" and "length rs < BALLOC_MAX_RANGE_SIZE"
  shows "\<exists>rs'. balloc_add_range rs b e = Inr rs'"
proof -
  obtain xs ms ys where "range_cut rs b e xs ms ys" by (rule range_cut_exists [OF assms(1,2)])
  from balloc_add_range_eq [OF this] show ?thesis using assms(3) by simp
qed

lemma covers_outside:
  assumes "\<And>r. r \<in> set xs \<Longrightarrow> rend r < b" and "\<And>r. r \<in> set ys \<Longrightarrow> e < rbegin r"
  shows "covers (xs @ ys) \<inter> {b..<e} = {}"
proof -
  have "x \<notin> {b..<e}" if x: "x \<in> covers xs" for x
  proof -
    obtain r where r: "r \<in> set xs" "x < rend r" using x by (auto simp: covers_def)
    have "x < b" using r(2) assms(1) [OF r(1)] by (rule less_trans)
    then show ?thesis by auto
  qed
  moreover have "x \<notin> {b..<e}" if x: "x \<in> covers ys" for x
  proof -
    obtain r where r: "r \<in> set ys" "rbegin r \<le> x" using x by (auto simp: covers_def)
    have "e < x" using assms(2) [OF r(1)] r(2) by (rule order_less_le_trans)
    then show ?thesis by auto
  qed
  ultimately show ?thesis unfolding covers_simps by blast
qed

lemma balloc_remove_range_spec:
  assumes ok: "ranges_ok rs" and be: "b \<le> e" and rm: "balloc_remove_range rs b e = Inr rs'"
  shows "ranges_ok rs'" and "covers rs' = covers rs - {b..<e}"
proof -
  obtain xs ms ys where cut: "range_cut rs b e xs ms ys" by (rule range_cut_exists [OF ok be])
  note parts = range_cut_parts [OF cut ok]
  have mid: "\<And>r. r \<in> set ms \<Longrightarrow> b \<le> rend r \<and> rbegin r \<le> e"
    using cut by (auto simp: range_cut_def)
  have outside: "covers (xs @ ys) \<inter> {b..<e} = {}"
    by (rule covers_outside) (use cut in \<open>auto simp: range_cut_def\<close>)
  have "ranges_ok rs' \<and> covers rs' = covers rs - {b..<e}"
  proof (cases "ms = []")
    case True
    then have "rs' = rs" using rm by (simp add: balloc_remove_range_eq [OF cut])
    moreover have "covers rs = covers (xs @ ys)" using parts(1) True by simp
    ultimately show ?thesis using ok outside by blast
  next
    case False
    let ?b = "rbegin (hd ms)" and ?e = "rend (last ms)"
    obtain rs2 where rs2: "(if ?b < b then balloc_add_range (xs @ ys) ?b b else Inr (xs @ ys)) = Inr rs2"
      and rs': "(if ?e > e then balloc_add_range rs2 e ?e else Inr rs2) = Inr rs'"
      using rm False by (auto simp: balloc_remove_range_eq [OF cut] and_then_eq_Inr)
    have 2: "ranges_ok rs2 \<and> covers rs2 = covers (xs @ ys) \<union> {?b..<b}"
    proof (cases "?b < b")
      case True
      then have "balloc_add_range (xs @ ys) ?b b = Inr rs2" using rs2 by simp
      from balloc_add_range_spec(1,2) [OF parts(5) less_imp_le [OF True] this] show ?thesis by blast
    next
      case False
      then show ?thesis using rs2 parts(5) by simp
    qed
    have 3: "ranges_ok rs' \<and> covers rs' = covers rs2 \<union> {e..<?e}"
    proof (cases "?e > e")
      case True
      then have "balloc_add_range rs2 e ?e = Inr rs'" using rs' by simp
      from balloc_add_range_spec(1,2) [OF _ less_imp_le [OF True] this] 2 show ?thesis by blast
    next
      case False
      then show ?thesis using rs' 2 by simp
    qed
    have "covers rs - {b..<e} = covers (xs @ ys) \<union> (covers ms - {b..<e})"
      using outside unfolding parts(1) covers_simps by blast
    also have "covers ms - {b..<e} = {?b..<b} \<union> {e..<?e}"
      by (rule middle_covers(2) [OF parts(3) False mid])
    finally show ?thesis using 2 3 by (simp add: Un_assoc)
  qed
  then show "ranges_ok rs'" and "covers rs' = covers rs - {b..<e}" by auto
qed

text \<open>Removing a range can split one range in two, so it needs at most one free slot.\<close>

lemma balloc_remove_range_returns:
  assumes ok: "ranges_ok rs" and be: "b \<le> e" and room: "length rs < BALLOC_MAX_RANGE_SIZE"
  shows "\<exists>rs'. balloc_remove_range rs b e = Inr rs'"
proof -
  obtain xs ms ys where cut: "range_cut rs b e xs ms ys" by (rule range_cut_exists [OF ok be])
  note parts = range_cut_parts [OF cut ok]
  show ?thesis
  proof (cases "ms = []")
    case True
    then show ?thesis by (simp add: balloc_remove_range_eq [OF cut])
  next
    case False
    have len: "length (xs @ ys) < length rs" using False parts(1) by (cases ms) auto
    let ?b = "rbegin (hd ms)" and ?e = "rend (last ms)"
    obtain rs2 where rs2: "(if ?b < b then balloc_add_range (xs @ ys) ?b b else Inr (xs @ ys)) = Inr rs2"
      and ok2: "ranges_ok rs2" and len2: "length rs2 \<le> length rs"
    proof (cases "?b < b")
      case True
      have "length (xs @ ys) < BALLOC_MAX_RANGE_SIZE" using len room by simp
      from balloc_add_range_returns [OF parts(5) less_imp_le [OF True] this]
      obtain r where r: "balloc_add_range (xs @ ys) ?b b = Inr r" by blast
      from balloc_add_range_spec [OF parts(5) less_imp_le [OF True] r] len True r that
      show ?thesis by simp
    next
      case False
      then show ?thesis using that parts(5) len by simp
    qed
    have "length rs2 < BALLOC_MAX_RANGE_SIZE" using len2 room by simp
    then have "\<exists>r. (if ?e > e then balloc_add_range rs2 e ?e else Inr rs2) = Inr r"
      using balloc_add_range_returns [OF ok2 less_imp_le] by simp
    then show ?thesis using False rs2 by (simp add: balloc_remove_range_eq [OF cut])
  qed
qed


subsection \<open>Allocation takes free, aligned memory\<close>

lemma balloc_align_down_props:
  assumes "0 < align"
  shows "unat (balloc_align_down x align) = unat x - unat x mod unat align"
    and "balloc_align_down x align mod align = 0"
    and "balloc_align_down x align \<le> x"
proof -
  have le: "x mod align \<le> x" by (simp add: word_le_nat_alt unat_mod)
  show u: "unat (balloc_align_down x align) = unat x - unat x mod unat align"
    using le by (simp add: balloc_align_down_def unat_sub unat_mod)
  show "balloc_align_down x align \<le> x" by (simp add: word_le_nat_alt u)
  show "balloc_align_down x align mod align = 0"
    by (simp add: word_unat_eq_iff unat_mod u minus_mod_eq_mult_div)
qed

lemma balloc_align_up_props:
  assumes "0 < align" and "unat x + unat align \<le> 2 ^ 64"
  shows "balloc_align_up x align mod align = 0"
    and "x \<le> balloc_align_up x align"
    and "unat (balloc_align_up x align) < unat x + unat align"
proof -
  have a: "0 < unat align" using assms(1) by (simp add: word_less_nat_alt)
  have eq: "x + align - 1 = x + (align - 1)" by simp
  have u1: "unat (align - 1) = unat align - 1" using a by (simp add: unat_minus_one unat_gt_0)
  have u: "unat (x + align - 1) = unat x + unat align - 1"
    unfolding eq using assms(2) a u1 by (subst unat_add_lem [THEN iffD1]) auto
  note d = balloc_align_down_props [OF assms(1), of "x + align - 1"]
  show "balloc_align_up x align mod align = 0" using d(2) by (simp add: balloc_align_up_def)
  define m where "m = (unat x + unat align - 1) mod unat align"
  have m: "m < unat align" using a by (simp add: m_def)
  have d': "unat (balloc_align_up x align) = unat x + unat align - 1 - m"
    using d(1) by (simp add: balloc_align_up_def u m_def)
  show "x \<le> balloc_align_up x align" using d' m by (simp add: word_le_nat_alt)
  show "unat (balloc_align_up x align) < unat x + unat align" using d' a by simp
qed

lemma balloc_find_range_props:
  "balloc_find_range rs from to sz align = addr \<Longrightarrow> addr \<noteq> to \<Longrightarrow>
   \<exists>r\<in>set rs. rbegin r < to \<and> from < rend r \<and> addr = balloc_align_up (rbegin r) align \<and>
     addr + sz \<le> rend r"
  by (induction rs "from" to sz align rule: balloc_find_range.induct)
    (auto simp: Let_def not_le split: if_splits)

lemma do_balloc_alloc_spec:
  assumes ok: "ranges_ok (free_ranges s)" and align: "0 < align"
    and fits: "\<And>r. r \<in> set (free_ranges s) \<Longrightarrow> unat (rend r) + unat align + unat sz < 2 ^ 64"
    and alloc: "do_balloc_alloc from to sz align s = Inr (addr, s')" and found: "addr \<noteq> 0"
  shows "addr mod align = 0"
    and "{addr..<addr + sz} \<subseteq> covers (free_ranges s)"
    and "addr \<le> addr + sz"
    and "covers (free_ranges s') = covers (free_ranges s) - {addr..<addr + sz}"
    and "ranges_ok (free_ranges s')"
    and "s' = s\<lparr>free_ranges := free_ranges s'\<rparr>"
proof -
  obtain rs where eq: "addr = balloc_find_range (free_ranges s) from to sz align" "addr \<noteq> to"
    and rm: "balloc_remove_range (free_ranges s) addr (addr + sz) = Inr rs"
    and s': "s' = s\<lparr>free_ranges := rs\<rparr>"
    using alloc found by (auto simp: do_balloc_alloc_def Let_def and_then_eq_Inr split: if_splits)
  obtain r where r: "r \<in> set (free_ranges s)" "addr = balloc_align_up (rbegin r) align"
      "addr + sz \<le> rend r"
    using balloc_find_range_props [OF eq(1) [symmetric] eq(2)] by blast
  have ord: "rbegin r \<le> rend r" using ok r(1) by (auto simp: ranges_ok_def)
  have small: "unat (rbegin r) + unat align + unat sz < 2 ^ 64"
    using fits [OF r(1)] ord by (simp add: word_le_nat_alt)
  note up = balloc_align_up_props [OF align, of "rbegin r", folded r(2)]
  have up': "addr mod align = 0" "rbegin r \<le> addr" "unat addr < unat (rbegin r) + unat align"
    using up small by auto
  show "addr mod align = 0" by (rule up'(1))
  have "unat (addr + sz) = unat addr + unat sz"
    using up'(3) small by (subst unat_add_lem [THEN iffD1]) auto
  then show le: "addr \<le> addr + sz" by (simp add: word_le_nat_alt)
  have "{addr..<addr + sz} \<subseteq> {rbegin r..<rend r}"
    using up'(2) r(3) by auto
  then show "{addr..<addr + sz} \<subseteq> covers (free_ranges s)"
    using r(1) unfolding covers_def by blast
  show "covers (free_ranges s') = covers (free_ranges s) - {addr..<addr + sz}"
    using balloc_remove_range_spec(2) [OF ok le rm] by (simp add: s')
  show "ranges_ok (free_ranges s')"
    using balloc_remove_range_spec(1) [OF ok le rm] by (simp add: s')
  show "s' = s\<lparr>free_ranges := free_ranges s'\<rparr>" by (simp add: s')
qed

subsection \<open>What setup leaves free\<close>

text \<open>The entries of the memory map, in the order the two loops visit them.\<close>

partial_function (option) mmap_entries :: "mem \<Rightarrow> u64 \<Rightarrow> u64 \<Rightarrow> multiboot_mmap_entry list option" where
  "mmap_entries m end ptr =
     (if ptr + mmap_entry_bytes \<le> end then
        let e = read_mmap_entry m (va ptr)
        in Option.bind (mmap_entries m end (ptr + (ucast (me_size e) + 4))) (\<lambda>es. Some (e # es))
      else Some [])"

definition entry_span :: "multiboot_mmap_entry \<Rightarrow> u64 set" where
  "entry_span e = {me_addr e..<me_addr e + me_len e}"

definition entry_ok :: "multiboot_mmap_entry \<Rightarrow> bool" where
  "entry_ok e \<longleftrightarrow> me_addr e \<le> me_addr e + me_len e"

definition available :: "multiboot_mmap_entry \<Rightarrow> bool" where
  "available e \<longleftrightarrow> me_type e = MULTIBOOT_MEMORY_AVAILABLE"

lemma mmap_entries_Cons:
  assumes "mmap_entries m end ptr = Some (e # es)"
  shows "ptr + mmap_entry_bytes \<le> end" and "e = read_mmap_entry m (va ptr)"
    and "mmap_entries m end (ptr + (ucast (me_size e) + 4)) = Some es"
  using assms by (subst (asm) mmap_entries.simps, auto simp: Let_def bind_eq_Some_conv split: if_splits)+

lemma mmap_entries_Nil:
  assumes "mmap_entries m end ptr = Some []"
  shows "\<not> ptr + mmap_entry_bytes \<le> end"
  using assms by (subst (asm) mmap_entries.simps) (auto simp: Let_def bind_eq_Some_conv split: if_splits)

lemma setup_add_spec:
  assumes "mmap_entries (memory s) (mmap_end s) ptr = Some es" and "\<forall>e\<in>set es. entry_ok e"
    and "ranges_ok (all_ranges s)" and "ranges_ok (free_ranges s)"
    and "setup_add ptr s = Some (Inr s')"
  shows "ranges_ok (all_ranges s') \<and> ranges_ok (free_ranges s') \<and>
    covers (all_ranges s') = covers (all_ranges s) \<union> (\<Union>e\<in>set es. entry_span e) \<and>
    covers (free_ranges s') = covers (free_ranges s) \<union> (\<Union>e\<in>set (filter available es). entry_span e) \<and>
    s' = s\<lparr>all_ranges := all_ranges s', free_ranges := free_ranges s'\<rparr>"
  using assms
proof (induction es arbitrary: ptr s)
  case Nil
  have "s' = s"
    using mmap_entries_Nil [OF Nil.prems(1)] Nil.prems(5) by (simp add: setup_add.simps [of ptr s])
  then show ?case using Nil.prems(3,4) by simp
next
  case (Cons e es)
  note ent = mmap_entries_Cons [OF Cons.prems(1)]
  let ?to = "me_addr e + me_len e" and ?next = "ptr + (ucast (me_size e) + 4)"
  have le: "me_addr e \<le> ?to" using Cons.prems(2) by (simp add: entry_ok_def)
  obtain s1 where s1: "setup_add ?next s1 = Some (Inr s')"
    and step: "and_then (balloc_add_range (all_ranges s) (me_addr e) ?to)
       (\<lambda>a. if available e then and_then (balloc_add_range (free_ranges s) (me_addr e) ?to)
                               (\<lambda>f. Inr (s\<lparr>all_ranges := a, free_ranges := f\<rparr>))
             else Inr (s\<lparr>all_ranges := a\<rparr>)) = Inr s1"
    using Cons.prems(5) ent(1)
    by (subst (asm) setup_add.simps)
      (auto simp: Let_def ent(2) [symmetric] available_def split: sum.splits)
  obtain a where a: "balloc_add_range (all_ranges s) (me_addr e) ?to = Inr a"
    using step by (auto simp: and_then_eq_Inr)
  note sa = balloc_add_range_spec(1,2) [OF Cons.prems(3) le a]
  obtain f where s1_eq: "s1 = s\<lparr>all_ranges := a, free_ranges := f\<rparr>" and okf: "ranges_ok f"
    and covf: "covers f = covers (free_ranges s) \<union> (if available e then entry_span e else {})"
  proof (cases "available e")
    case True
    then obtain f where f: "balloc_add_range (free_ranges s) (me_addr e) ?to = Inr f"
      and "s1 = s\<lparr>all_ranges := a, free_ranges := f\<rparr>"
      using step a by (auto simp: and_then_eq_Inr)
    then show ?thesis
      using that balloc_add_range_spec(1,2) [OF Cons.prems(4) le f] True
      by (simp add: entry_span_def)
  next
    case False
    then have "s1 = s\<lparr>all_ranges := a, free_ranges := free_ranges s\<rparr>"
      using step a by (cases s) (auto simp del: balloc_self)
    then show ?thesis by (rule that) (use Cons.prems(4) False in simp_all)
  qed
  have "ranges_ok (all_ranges s') \<and> ranges_ok (free_ranges s') \<and>
    covers (all_ranges s') = covers (all_ranges s1) \<union> (\<Union>e\<in>set es. entry_span e) \<and>
    covers (free_ranges s') = covers (free_ranges s1) \<union> (\<Union>e\<in>set (filter available es). entry_span e) \<and>
    s' = s1\<lparr>all_ranges := all_ranges s', free_ranges := free_ranges s'\<rparr>"
    by (rule Cons.IH [OF _ _ _ _ s1]) (use ent(3) Cons.prems(2) sa(1) okf in \<open>simp_all add: s1_eq\<close>)
  then show ?case
    using sa(2) covf by (auto simp: s1_eq entry_span_def)
qed

lemma setup_remove_spec:
  assumes "mmap_entries (memory s) (mmap_end s) ptr = Some es" and "\<forall>e\<in>set es. entry_ok e"
    and "ranges_ok (free_ranges s)"
    and "setup_remove ptr s = Some (Inr s')"
  shows "ranges_ok (free_ranges s') \<and>
    covers (free_ranges s') =
      covers (free_ranges s) - (\<Union>e\<in>set (filter (Not \<circ> available) es). entry_span e) \<and>
    s' = s\<lparr>free_ranges := free_ranges s'\<rparr>"
  using assms
proof (induction es arbitrary: ptr s)
  case Nil
  have "s' = s"
    using mmap_entries_Nil [OF Nil.prems(1)] Nil.prems(4) by (simp add: setup_remove.simps [of ptr s])
  then show ?case using Nil.prems(3) by simp
next
  case (Cons e es)
  note ent = mmap_entries_Cons [OF Cons.prems(1)]
  let ?to = "me_addr e + me_len e" and ?next = "ptr + (ucast (me_size e) + 4)"
  have le: "me_addr e \<le> ?to" using Cons.prems(2) by (simp add: entry_ok_def)
  obtain s1 where s1: "setup_remove ?next s1 = Some (Inr s')"
    and step: "(if \<not> available e then and_then (balloc_remove_range (free_ranges s) (me_addr e) ?to)
                               (\<lambda>f. Inr (s\<lparr>free_ranges := f\<rparr>))
             else Inr s) = Inr s1"
    using Cons.prems(4) ent(1)
    by (subst (asm) setup_remove.simps)
      (auto simp: Let_def ent(2) [symmetric] available_def split: sum.splits if_splits)
  obtain f where s1_eq: "s1 = s\<lparr>free_ranges := f\<rparr>" and okf: "ranges_ok f"
    and covf: "covers f = covers (free_ranges s) - (if available e then {} else entry_span e)"
  proof (cases "available e")
    case False
    then obtain f where f: "balloc_remove_range (free_ranges s) (me_addr e) ?to = Inr f"
      and "s1 = s\<lparr>free_ranges := f\<rparr>"
      using step by (auto simp: and_then_eq_Inr)
    then show ?thesis
      using that balloc_remove_range_spec(1,2) [OF Cons.prems(3) le f] False
      by (simp add: entry_span_def)
  next
    case True
    then have "s1 = s\<lparr>free_ranges := free_ranges s\<rparr>" using step by simp
    then show ?thesis by (rule that) (use Cons.prems(3) True in simp_all)
  qed
  have "ranges_ok (free_ranges s') \<and>
    covers (free_ranges s') =
      covers (free_ranges s1) - (\<Union>e\<in>set (filter (Not \<circ> available) es). entry_span e) \<and>
    s' = s1\<lparr>free_ranges := free_ranges s'\<rparr>"
    by (rule Cons.IH [OF _ _ _ s1]) (use ent(3) Cons.prems(2) okf in \<open>simp_all add: s1_eq\<close>)
  then show ?case
    using covf by (auto simp: s1_eq)
qed

lemma free_remove_spec:
  assumes "ranges_ok (free_ranges s)" and "b \<le> e" and "free_remove b e s = Inr s'"
  shows "ranges_ok (free_ranges s')" and "covers (free_ranges s') = covers (free_ranges s) - {b..<e}"
    and "s' = s\<lparr>free_ranges := free_ranges s'\<rparr>"
  using assms balloc_remove_range_spec [OF assms(1,2)]
  by (auto simp: free_remove_def and_then_eq_Inr)

text \<open>
  After setup exactly the addresses the map calls available are free, less what the map also
  calls unavailable, the kernel, the RAM disk and the first megabyte; and \<open>all\<close> covers every
  entry of the map and the first megabyte.
\<close>

lemma balloc_setup_spec:
  assumes zero: "all_ranges s = []" "free_ranges s = []"
    and entries: "mmap_entries (memory s) (mmap_end s) (mmap_begin s) = Some es"
      "\<forall>e\<in>set es. entry_ok e"
    and ord: "kb \<le> ke" "initrd_begin s \<le> initrd_end s"
    and run: "balloc_setup kb ke s = Some (Inr s')"
  shows "covers (free_ranges s') =
      (\<Union>e\<in>set (filter available es). entry_span e) -
      (\<Union>e\<in>set (filter (Not \<circ> available) es). entry_span e) -
      {kb..<ke} - {initrd_begin s..<initrd_end s} - {0..<0x100000}"
    and "covers (all_ranges s') = (\<Union>e\<in>set es. entry_span e) \<union> {0..<0x100000}"
    and "ranges_ok (free_ranges s')" and "ranges_ok (all_ranges s')"
proof -
  obtain s1 s2 s3 s4 a where
      1: "setup_add (mmap_begin s) s = Some (Inr s1)"
    and 2: "setup_remove (mmap_begin s1) s1 = Some (Inr s2)"
    and 3: "free_remove kb ke s2 = Inr s3"
    and 4: "free_remove (initrd_begin s3) (initrd_end s3) s3 = Inr s4"
    and 5: "balloc_add_range (all_ranges s4) 0 (1024 * 1024) = Inr a"
    and 6: "free_remove 0 (1024 * 1024) (s4\<lparr>all_ranges := a\<rparr>) = Inr s'"
  proof -
    obtain r1 where r1: "setup_add (mmap_begin s) s = Some r1"
      using run by (cases "setup_add (mmap_begin s) s") (auto simp: balloc_setup_def)
    then obtain s1 where "r1 = Inr s1"
      using run by (cases r1) (auto simp: balloc_setup_def)
    then show thesis using run r1 that
      by (auto simp: balloc_setup_def bind_eq_Some_conv and_then_eq_Inr)
  qed
  have p1: "ranges_ok (all_ranges s1)" "ranges_ok (free_ranges s1)"
    "covers (all_ranges s1) = (\<Union>e\<in>set es. entry_span e)"
    "covers (free_ranges s1) = (\<Union>e\<in>set (filter available es). entry_span e)"
    "s1 = s\<lparr>all_ranges := all_ranges s1, free_ranges := free_ranges s1\<rparr>"
    using setup_add_spec [OF entries _ _ 1] zero by auto
  have f1: "memory s1 = memory s" "mmap_end s1 = mmap_end s" "mmap_begin s1 = mmap_begin s"
    "initrd_begin s1 = initrd_begin s" "initrd_end s1 = initrd_end s"
    by (subst p1(5), simp)+
  have p2: "ranges_ok (free_ranges s2)"
    "covers (free_ranges s2) = covers (free_ranges s1) -
       (\<Union>e\<in>set (filter (Not \<circ> available) es). entry_span e)"
    "s2 = s1\<lparr>free_ranges := free_ranges s2\<rparr>"
    using setup_remove_spec [OF _ entries(2) p1(2) 2] entries(1) f1 by auto
  note p3 = free_remove_spec [OF p2(1) ord(1) 3]
  have f3: "initrd_begin s3 = initrd_begin s" "initrd_end s3 = initrd_end s"
    "all_ranges s3 = all_ranges s1"
    by (subst p3(3), subst p2(3), simp add: f1)+
  have "initrd_begin s3 \<le> initrd_end s3" using ord(2) f3 by simp
  note p4 = free_remove_spec [OF p3(1) this 4]
  have f4: "all_ranges s4 = all_ranges s1" by (subst p4(3), simp add: f3)
  have "ranges_ok (all_ranges s4)" using p1(1) f4 by simp
  note p5 = balloc_add_range_spec [OF this _ 5]
  note p6 = free_remove_spec [OF _ _ 6]
  show "covers (free_ranges s') =
      (\<Union>e\<in>set (filter available es). entry_span e) -
      (\<Union>e\<in>set (filter (Not \<circ> available) es). entry_span e) -
      {kb..<ke} - {initrd_begin s..<initrd_end s} - {0..<0x100000}"
    using p6(2) p4(1,2) p3(2) p2(2) p1(4) f3 by simp
  have "all_ranges s' = a" by (subst p6(3)) (use p4(1) in simp_all)
  then show "covers (all_ranges s') = (\<Union>e\<in>set es. entry_span e) \<union> {0..<0x100000}"
    and "ranges_ok (all_ranges s')"
    using p5(1,2) f4 p1(3) by simp_all
  show "ranges_ok (free_ranges s')" using p6(1) p4(1) by simp
qed

subsection \<open>What the boot code relies on\<close>

text \<open>
  C28. Adding a range to a well-formed list that is not full always succeeds; the result is
  well-formed again and covers the addresses of the list and of the range, no others.
\<close>

theorem balloc_add_range_union:
  assumes "ranges_ok rs" and "b \<le> e" and "length rs < BALLOC_MAX_RANGE_SIZE"
  shows "\<exists>rs'. balloc_add_range rs b e = Inr rs' \<and> ranges_ok rs' \<and> covers rs' = covers rs \<union> {b..<e}"
  using balloc_add_range_returns [OF assms] balloc_add_range_spec [OF assms(1,2)] by blast

theorem balloc_add_range_union_witness:
  "\<exists>rs'. balloc_add_range [\<lparr>rbegin = 0, rend = 10\<rparr>, \<lparr>rbegin = 20, rend = 30\<rparr>] 5 20 = Inr rs' \<and>
     covers rs' = {0..<10} \<union> {20..<30} \<union> {5..<20}"
  using balloc_add_range_union [of "[\<lparr>rbegin = 0, rend = 10\<rparr>, \<lparr>rbegin = 20, rend = 30\<rparr>]" 5 20]
  by (auto simp: ranges_ok_def BALLOC_MAX_RANGE_SIZE_def)

text \<open>
  C29. Removing a range from a well-formed list that is not full always succeeds; the result is
  well-formed and covers exactly the addresses of the list that are not in the range, even when the
  range cuts a stored one in two.
\<close>

theorem balloc_remove_range_diff:
  assumes "ranges_ok rs" and "b \<le> e" and "length rs < BALLOC_MAX_RANGE_SIZE"
  shows "\<exists>rs'. balloc_remove_range rs b e = Inr rs' \<and> ranges_ok rs' \<and> covers rs' = covers rs - {b..<e}"
  using balloc_remove_range_returns [OF assms] balloc_remove_range_spec [OF assms(1,2)] by blast

theorem balloc_remove_range_diff_witness:
  "\<exists>rs'. balloc_remove_range [\<lparr>rbegin = 0, rend = 30\<rparr>] 10 20 = Inr rs' \<and>
     covers rs' = {0..<30} - {10..<20}"
  using balloc_remove_range_diff [of "[\<lparr>rbegin = 0, rend = 30\<rparr>]" 10 20]
  by (auto simp: ranges_ok_def BALLOC_MAX_RANGE_SIZE_def)

text \<open>
  C30. The boot allocator. An address other than 0 that \<open>balloc_alloc\<close> returns is a multiple of the
  alignment, the whole area it stands for was free, and afterwards exactly that area is no longer
  free; nothing but the list of free ranges changes. (The ranges must leave room for rounding below
  the end of the address space.)
\<close>

theorem balloc_alloc_sound:
  assumes "ranges_ok (free_ranges s)" and "0 < align"
    and "\<forall>r\<in>set (free_ranges s). unat (rend r) + unat align + unat sz < 2 ^ 64"
    and "balloc_alloc sz align s = Inr (addr, s')" and "addr \<noteq> 0"
  shows "addr mod align = 0 \<and> {addr..<addr + sz} \<subseteq> covers (free_ranges s) \<and> addr \<le> addr + sz \<and>
    covers (free_ranges s') = covers (free_ranges s) - {addr..<addr + sz} \<and>
    ranges_ok (free_ranges s') \<and> s' = s\<lparr>free_ranges := free_ranges s'\<rparr>"
  using do_balloc_alloc_spec [OF assms(1,2) _ assms(4) [unfolded balloc_alloc_def] assms(5)] assms(3)
  by blast

definition balloc_sample :: balloc where
  "balloc_sample = \<lparr>rflags = 0, preempt_count = 0, memory = (\<lambda>a. 0), mmap_begin = 0, mmap_end = 0,
     initrd_begin = 0, initrd_end = 0, free_ranges = [\<lparr>rbegin = 5, rend = 100\<rparr>], all_ranges = []\<rparr>"

theorem balloc_alloc_sound_witness:
  "\<exists>s'. balloc_alloc 20 8 balloc_sample = Inr (8, s') \<and> covers (free_ranges s') = {5..<100} - {8..<28}"
proof -
  have rm: "balloc_remove_range [\<lparr>rbegin = 5, rend = 100\<rparr>] 8 28 =
      Inr [\<lparr>rbegin = 5, rend = 8\<rparr>, \<lparr>rbegin = 28, rend = 100\<rparr>]" by code_simp
  have top: "\<not> UINTPTR_MAX \<le> 5" "UINTPTR_MAX \<noteq> 8" by code_simp+
  have run: "balloc_alloc 20 8 balloc_sample = Inr (8, balloc_sample\<lparr>free_ranges :=
      [\<lparr>rbegin = 5, rend = 8\<rparr>, \<lparr>rbegin = 28, rend = 100\<rparr>]\<rparr>)"
    using top by (simp add: balloc_alloc_def do_balloc_alloc_def balloc_sample_def
        balloc_align_up_def balloc_align_down_def Let_def rm)
  from balloc_alloc_sound [OF _ _ _ run] show ?thesis
    using run by (simp add: balloc_sample_def ranges_ok_def)
qed

end
