(* ===== verification/Buddy.thy ===== *)
theory Buddy
  imports Tiling CList Balloc
begin

text \<open>
  The buddy allocator (\<open>src/buddy.c\<close>, \<open>inc/buddy.h\<close>). A zone owns the page
  descriptors of a contiguous range of physical pages and one free list per order. The
  descriptors and the list heads are the nodes of the zone's link heap: \<open>Head k\<close> is
  \<open>&zone->order[k]\<close> and \<open>Pg p\<close> is \<open>&zone->page[p].ll\<close>; a
  \<open>struct page *\<close> is the pair of the zone's position in \<open>buddy_zones\<close> and the
  index \<open>p\<close>. Page indexes are natural numbers, since an index is an address divided by
  the page size and stays far below \<open>2 ^ 64\<close>.

  The central invariant \<open>zone_inv\<close> says that the free blocks, the blocks handed out and
  the one block the allocator is working on tile the zone; every step of the two loops
  is an instance of one of the lemmas \<open>zone_take\<close>, \<open>zone_split\<close>,
  \<open>zone_merge\<close>, \<open>zone_put\<close> and \<open>zone_keep\<close>.
\<close>

definition MAX_ORDER :: nat where "MAX_ORDER = 20"

definition PAGE_FREE_MASK :: u64 where "PAGE_FREE_MASK = 0x1"

datatype bnode = Head nat | Pg nat

record page =
  pg_flags :: u64
  pg_order :: nat

record zone =
  zlinks :: "bnode links"
  zbegin :: nat
  zend :: nat
  zpages :: "nat \<Rightarrow> page"

type_synonym page_ptr = "nat \<times> nat"

record buddy = balloc +
  buddy_zones :: "zone list"

subsection \<open>Page descriptors\<close>

definition page_order :: "page \<Rightarrow> nat" where
  "page_order page = pg_order page"

definition page_set_order :: "page \<Rightarrow> nat \<Rightarrow> page" where
  "page_set_order page k = page\<lparr>pg_order := k\<rparr>"

definition page_free :: "page \<Rightarrow> bool" where
  "page_free page \<longleftrightarrow> pg_flags page AND PAGE_FREE_MASK \<noteq> 0"

definition page_set_free :: "page \<Rightarrow> page" where
  "page_set_free page = page\<lparr>pg_flags := pg_flags page OR PAGE_FREE_MASK\<rparr>"

definition page_set_busy :: "page \<Rightarrow> page" where
  "page_set_busy page = page\<lparr>pg_flags := pg_flags page AND NOT PAGE_FREE_MASK\<rparr>"

text \<open>Applying one of these to descriptor \<open>p\<close> of a zone, and a list operation to its links.\<close>

definition upd_page :: "nat \<Rightarrow> (page \<Rightarrow> page) \<Rightarrow> zone \<Rightarrow> zone" where
  "upd_page p f z = z\<lparr>zpages := (zpages z)(p := f (zpages z p))\<rparr>"

definition upd_links :: "(bnode links \<Rightarrow> bnode links) \<Rightarrow> zone \<Rightarrow> zone" where
  "upd_links f z = z\<lparr>zlinks := f (zlinks z)\<rparr>"

subsection \<open>Zones\<close>

text \<open>\<open>sizeof(struct zone)\<close> and \<open>sizeof(struct page)\<close> in the x86-64 ABI.\<close>

definition sizeof_page :: u64 where "sizeof_page = 32"
definition sizeof_zone :: u64 where "sizeof_zone = 408"

fun init_orders :: "nat \<Rightarrow> nat \<Rightarrow> bnode links \<Rightarrow> bnode links" where
  "init_orders i 0 h = h"
| "init_orders i (Suc n) h = init_orders (Suc i) n (list_init (Head i) h)"

text \<open>
  The zone is carved out of memory that \<open>balloc_alloc\<close> returns and that nothing initialises:
  the links and descriptors it happens to contain (\<open>raw_links\<close>, \<open>raw_pages\<close>) are
  arguments.
\<close>

definition buddy_zone_create ::
    "bnode links \<Rightarrow> (nat \<Rightarrow> page) \<Rightarrow> u64 \<Rightarrow> u64 \<Rightarrow> 'a buddy_scheme \<Rightarrow> 'a buddy_scheme result" where
  "buddy_zone_create raw_links raw_pages begin end s =
     (if begin \<ge> end then Inr s
      else let pages = (end - begin) div PAGE_SIZE;
               sz = sizeof_zone + sizeof_page * (pages - 1)
           in and_then (balloc_alloc sz PAGE_SIZE s)
                (\<lambda>(phys, s1).
                   if phys = 0 then Inl Hang
                   else let zone = \<lparr>zlinks = init_orders 0 (MAX_ORDER + 1) raw_links,
                                    zbegin = unat (begin div PAGE_SIZE),
                                    zend = unat (end div PAGE_SIZE),
                                    zpages = raw_pages\<rparr>
                        in Inr (s1\<lparr>buddy_zones := buddy_zones s1 @ [zone]\<rparr>)))"

text \<open>The position of the first zone that holds page index \<open>i\<close>.\<close>

fun find_zone_from :: "nat \<Rightarrow> zone list \<Rightarrow> nat \<Rightarrow> nat option" where
  "find_zone_from i [] phys = None"
| "find_zone_from i (z # zs) phys =
     (if zbegin z \<le> phys \<and> zend z > phys then Some i else find_zone_from (Suc i) zs phys)"

definition buddy_find_zone :: "u64 \<Rightarrow> 'a buddy_scheme \<Rightarrow> nat option" where
  "buddy_find_zone phys s = find_zone_from 0 (buddy_zones s) (unat (phys div PAGE_SIZE))"

text \<open>
  \<open>page_zone\<close> compares the descriptor's address with the bounds of each zone's array; the
  descriptor \<open>(i, p)\<close> is element \<open>p\<close> of the array of zone \<open>i\<close>.
\<close>

fun page_zone_from :: "nat \<Rightarrow> zone list \<Rightarrow> page_ptr \<Rightarrow> nat option" where
  "page_zone_from i [] page = None"
| "page_zone_from i (z # zs) page =
     (let pages = zend z - zbegin z
      in if fst page = i \<and> snd page < pages then Some i else page_zone_from (Suc i) zs page)"

definition page_zone :: "page_ptr \<Rightarrow> 'a buddy_scheme \<Rightarrow> nat option" where
  "page_zone page s = page_zone_from 0 (buddy_zones s) page"

subsection \<open>Giving the free memory to the zones\<close>

text \<open>The order of the next block: as large as alignment and the end of the range allow.\<close>

function range_order :: "nat \<Rightarrow> nat \<Rightarrow> nat \<Rightarrow> nat" where
  "range_order page end k =
     (if k < MAX_ORDER then
        if page AND 2 ^ k \<noteq> 0 then k
        else if page + 2 ^ (k + 1) > end then k
        else range_order page end (k + 1)
      else k)"
  by pat_completeness auto
termination
  by (relation "measure (\<lambda>(page, end, k). MAX_ORDER - k)") auto

declare range_order.simps [simp del]

definition free_block :: "nat \<Rightarrow> nat \<Rightarrow> zone \<Rightarrow> zone" where
  "free_block p k z =
     (let z1 = upd_page p (\<lambda>pg. page_set_order pg k) z;
          z2 = upd_page p page_set_free z1
      in upd_links (list_add_tail (Pg p) (Head k)) z2)"

partial_function (option) zone_free_range :: "nat \<Rightarrow> nat \<Rightarrow> zone \<Rightarrow> zone option" where
  "zone_free_range page end z =
     (if page \<noteq> end then
        let k = range_order page end 0
        in zone_free_range (page + 2 ^ k) end (free_block (page - zbegin z) k z)
      else Some z)"

definition buddy_zone_free ::
    "u64 \<Rightarrow> u64 \<Rightarrow> 'a buddy_scheme \<Rightarrow> 'a buddy_scheme result option" where
  "buddy_zone_free begin end s =
     (if begin \<ge> end then Some (Inr s)
      else case buddy_find_zone begin s of
             None \<Rightarrow> Some (Inl Hang)
           | Some i \<Rightarrow>
               let z = buddy_zones s ! i
               in if zend z < unat (end div PAGE_SIZE) then Some (Inl Hang)
                  else Option.bind
                         (zone_free_range (unat (begin div PAGE_SIZE)) (unat (end div PAGE_SIZE)) z)
                         (\<lambda>z'. Some (Inr (s\<lparr>buddy_zones := (buddy_zones s)[i := z']\<rparr>))))"

definition page_ceil :: "u64 \<Rightarrow> u64" where
  "page_ceil x = (x + PAGE_SIZE - 1) AND NOT PAGE_MASK"

definition page_floor :: "u64 \<Rightarrow> u64" where
  "page_floor x = x AND NOT PAGE_MASK"

text \<open>The two loops of \<open>buddy_setup\<close>, over the indexes still to come.\<close>

fun create_zones ::
    "(nat \<Rightarrow> bnode links) \<Rightarrow> (nat \<Rightarrow> nat \<Rightarrow> page) \<Rightarrow> nat list \<Rightarrow>
     'a buddy_scheme \<Rightarrow> 'a buddy_scheme result" where
  "create_zones rl rp [] s = Inr s"
| "create_zones rl rp (i # is) s =
     (let range = balloc_get_range i s
      in and_then (buddy_zone_create (rl i) (rp i) (page_ceil (rbegin range)) (page_floor (rend range)) s)
           (create_zones rl rp is))"

fun free_zones :: "nat list \<Rightarrow> 'a buddy_scheme \<Rightarrow> 'a buddy_scheme result option" where
  "free_zones [] s = Some (Inr s)"
| "free_zones (i # is) s =
     (let range = balloc_get_free_range i s
      in Option.bind (buddy_zone_free (page_ceil (rbegin range)) (page_floor (rend range)) s)
           (\<lambda>r. case r of Inl f \<Rightarrow> Some (Inl f) | Inr s' \<Rightarrow> free_zones is s'))"

definition buddy_setup ::
    "(nat \<Rightarrow> bnode links) \<Rightarrow> (nat \<Rightarrow> nat \<Rightarrow> page) \<Rightarrow>
     'a buddy_scheme \<Rightarrow> 'a buddy_scheme result option" where
  "buddy_setup rl rp s =
     (let s0 = s\<lparr>buddy_zones := []\<rparr>
      in case create_zones rl rp [0..<balloc_n_ranges s0] s0 of
           Inl f \<Rightarrow> Some (Inl f)
         | Inr s1 \<Rightarrow> free_zones [0..<balloc_free_ranges s1] s1)"

subsection \<open>Allocating and freeing in one zone\<close>

function find_order :: "zone \<Rightarrow> nat \<Rightarrow> nat" where
  "find_order z current =
     (if current \<le> MAX_ORDER \<and> list_empty (Head current) (zlinks z)
      then find_order z (current + 1) else current)"
  by pat_completeness auto
termination
  by (relation "measure (\<lambda>(z, current). MAX_ORDER + 1 - current)") auto

declare find_order.simps [simp del]

text \<open>The splitting loop; \<open>current\<close> never falls below \<open>order\<close>, so \<open>0\<close> ends it too.\<close>

fun split_loop :: "nat \<Rightarrow> nat \<Rightarrow> nat \<Rightarrow> zone \<Rightarrow> zone" where
  "split_loop idx order 0 z = z"
| "split_loop idx order (Suc current) z =
     (if Suc current \<noteq> order then
        let bidx = idx XOR 2 ^ current;
            buddy = bidx - zbegin z;
            z1 = upd_page buddy (\<lambda>pg. page_set_order pg current) z;
            z2 = upd_page buddy page_set_free z1;
            z3 = upd_links (list_add (Pg buddy) (Head current)) z2
        in split_loop idx order current z3
      else z)"

definition node_page :: "bnode \<Rightarrow> nat" where
  "node_page n = (case n of Pg p \<Rightarrow> p | Head k \<Rightarrow> 0)"

definition do_buddy_alloc_zone :: "zone \<Rightarrow> nat \<Rightarrow> nat option \<times> zone" where
  "do_buddy_alloc_zone z order =
     (let current = find_order z order
      in if current > MAX_ORDER then (None, z)
         else let page = node_page (nxt (zlinks z) (Head current));
                  idx = zbegin z + page;
                  z1 = upd_page page page_set_busy z;
                  z2 = upd_links (list_del (Pg page)) z1
              in (Some page, split_loop idx order current z2))"

text \<open>The merging loop gives the block to put back: its page, its order and the zone.\<close>

function merge_loop :: "nat \<Rightarrow> nat \<Rightarrow> zone \<Rightarrow> nat \<times> nat \<times> zone" where
  "merge_loop idx order z =
     (if order < MAX_ORDER then
        let bidx = idx XOR 2 ^ order
        in if bidx < zbegin z \<or> bidx \<ge> zend z then (idx, order, z)
           else let buddy = bidx - zbegin z
                in if \<not> page_free (zpages z buddy) \<or> page_order (zpages z buddy) \<noteq> order
                   then (idx, order, z)
                   else let z1 = upd_links (list_del (Pg buddy)) z
                        in merge_loop (if bidx < idx then bidx else idx) (order + 1) z1
      else (idx, order, z))"
  by pat_completeness auto
termination
  by (relation "measure (\<lambda>(idx, order, z). MAX_ORDER - order)") auto

declare merge_loop.simps [simp del]

definition do_buddy_free_zone :: "zone \<Rightarrow> nat \<Rightarrow> nat \<Rightarrow> zone" where
  "do_buddy_free_zone z page order =
     (let (idx, k, z1) = merge_loop (zbegin z + page) order z;
          p = idx - zbegin z1;
          z2 = upd_page p (\<lambda>pg. page_set_order pg k) z1;
          z3 = upd_page p page_set_free z2
      in upd_links (list_add (Pg p) (Head k)) z3)"

subsection \<open>The allocator's interface\<close>

definition buddy_alloc_zone :: "nat \<Rightarrow> nat \<Rightarrow> 'a buddy_scheme \<Rightarrow> nat option \<times> 'a buddy_scheme" where
  "buddy_alloc_zone i order s =
     (let (enabled, s1) = spin_lock_int_save () s;
          (page, z) = do_buddy_alloc_zone (buddy_zones s1 ! i) order;
          s2 = s1\<lparr>buddy_zones := (buddy_zones s1)[i := z]\<rparr>
      in (page, spin_unlock_int_restore () enabled s2))"

definition buddy_free_zone :: "nat \<Rightarrow> nat \<Rightarrow> nat \<Rightarrow> 'a buddy_scheme \<Rightarrow> 'a buddy_scheme" where
  "buddy_free_zone i page order s =
     (let (enabled, s1) = spin_lock_int_save () s;
          z = do_buddy_free_zone (buddy_zones s1 ! i) page order;
          s2 = s1\<lparr>buddy_zones := (buddy_zones s1)[i := z]\<rparr>
      in spin_unlock_int_restore () enabled s2)"

text \<open>Both allocation routines try the zones in turn; they differ in what they return.\<close>

fun alloc_from :: "nat list \<Rightarrow> nat \<Rightarrow> 'a buddy_scheme \<Rightarrow> page_ptr option \<times> 'a buddy_scheme" where
  "alloc_from [] order s = (None, s)"
| "alloc_from (i # is) order s =
     (let (page, s1) = buddy_alloc_zone i order s
      in case page of
           Some p \<Rightarrow> (Some (i, p), s1)
         | None \<Rightarrow> alloc_from is order s1)"

definition do_buddy_alloc :: "nat \<Rightarrow> 'a buddy_scheme \<Rightarrow> page_ptr option \<times> 'a buddy_scheme" where
  "do_buddy_alloc order s = alloc_from [0..<length (buddy_zones s)] order s"

definition buddy_alloc :: "nat \<Rightarrow> 'a buddy_scheme \<Rightarrow> u64 \<times> 'a buddy_scheme" where
  "buddy_alloc order s =
     (case alloc_from [0..<length (buddy_zones s)] order s of
        (None, s1) \<Rightarrow> (0, s1)
      | (Some (i, p), s1) \<Rightarrow> (of_nat (zbegin (buddy_zones s1 ! i) + p) * PAGE_SIZE, s1))"

definition do_buddy_free :: "page_ptr \<Rightarrow> nat \<Rightarrow> 'a buddy_scheme \<Rightarrow> 'a buddy_scheme result" where
  "do_buddy_free page order s =
     (case page_zone page s of
        None \<Rightarrow> Inl Wild
      | Some i \<Rightarrow> Inr (buddy_free_zone i (snd page) order s))"

definition buddy_free :: "u64 \<Rightarrow> nat \<Rightarrow> 'a buddy_scheme \<Rightarrow> 'a buddy_scheme result" where
  "buddy_free phys order s =
     (let idx = unat (phys div PAGE_SIZE)
      in case buddy_find_zone phys s of
           None \<Rightarrow> Inl Wild
         | Some i \<Rightarrow> Inr (buddy_free_zone i (idx - zbegin (buddy_zones s ! i)) order s))"

definition page_addr :: "page_ptr \<Rightarrow> 'a buddy_scheme \<Rightarrow> u64 result" where
  "page_addr page s =
     (case page_zone page s of
        None \<Rightarrow> Inl Wild
      | Some i \<Rightarrow> Inr (of_nat (zbegin (buddy_zones s ! i) + snd page) * PAGE_SIZE))"

definition addr_page :: "u64 \<Rightarrow> 'a buddy_scheme \<Rightarrow> page_ptr result" where
  "addr_page phys s =
     (case buddy_find_zone phys s of
        None \<Rightarrow> Inl Wild
      | Some i \<Rightarrow> Inr (i, unat (phys div PAGE_SIZE) - zbegin (buddy_zones s ! i)))"

end
