(* ===== verification/Buddy_Zone.thy ===== *)
theory Buddy_Zone
  imports Buddy
begin

text \<open>
  The zone invariant of the buddy allocator and its preservation by the allocation and free
  routines of one zone. \<open>A\<close> is the ghost set of blocks that are not the allocator's (handed
  out or never given to it), \<open>H\<close> the block it is working on, \<open>L k\<close> the offsets on
  the free list of order \<open>k\<close>.
\<close>

subsection \<open>Descriptors\<close>

lemma page_free_set [simp]: "page_free (page_set_free pg)"
proof -
  have "bit ((pg_flags pg OR PAGE_FREE_MASK) AND PAGE_FREE_MASK) 0"
    by (simp add: bit_and_iff bit_or_iff PAGE_FREE_MASK_def)
  then have "(pg_flags pg OR PAGE_FREE_MASK) AND PAGE_FREE_MASK \<noteq> 0"
    by (metis bit_0_eq bot_apply bot_bool_def)
  then show ?thesis by (simp add: page_free_def page_set_free_def)
qed

lemma page_free_busy [simp]: "\<not> page_free (page_set_busy pg)"
  by (simp add: page_free_def page_set_busy_def and.assoc)

lemma page_free_order [simp]: "page_free (page_set_order pg k) = page_free pg"
  by (simp add: page_free_def page_set_order_def)

lemma page_order_simps [simp]:
  "page_order (page_set_order pg k) = k"
  "page_order (page_set_free pg) = page_order pg"
  "page_order (page_set_busy pg) = page_order pg"
  by (simp_all add: page_order_def page_set_order_def page_set_free_def page_set_busy_def)

lemma upd_simps [simp]:
  "zlinks (upd_page p f z) = zlinks z" "zbegin (upd_page p f z) = zbegin z"
  "zend (upd_page p f z) = zend z" "zpages (upd_page p f z) = (zpages z)(p := f (zpages z p))"
  "zlinks (upd_links g z) = g (zlinks z)" "zbegin (upd_links g z) = zbegin z"
  "zend (upd_links g z) = zend z" "zpages (upd_links g z) = zpages z"
  by (simp_all add: upd_page_def upd_links_def)

subsection \<open>The invariant\<close>

abbreviation orders :: "nat set" where "orders \<equiv> {..MAX_ORDER}"

definition zlists :: "zone \<Rightarrow> (nat \<Rightarrow> nat list) \<Rightarrow> bool" where
  "zlists z L \<longleftrightarrow> dlists Head orders (zlinks z) (map Pg \<circ> L)"

definition free_blocks :: "(nat \<Rightarrow> nat list) \<Rightarrow> block set" where
  "free_blocks L = {(p, k). k \<le> MAX_ORDER \<and> p \<in> set (L k)}"

definition zsize :: "zone \<Rightarrow> nat" where
  "zsize z = zend z - zbegin z"

definition zone_inv :: "zone \<Rightarrow> (nat \<Rightarrow> nat list) \<Rightarrow> block set \<Rightarrow> block set \<Rightarrow> bool" where
  "zone_inv z L A H \<longleftrightarrow>
     zlists z L \<and>
     zbegin z \<le> zend z \<and>
     tiles (zbegin z) (zsize z) (free_blocks L \<union> A \<union> H) \<and>
     free_blocks L \<inter> A = {} \<and> free_blocks L \<inter> H = {} \<and> A \<inter> H = {} \<and>
     (\<forall>p k. (p, k) \<in> A \<union> H \<longrightarrow> k \<le> MAX_ORDER) \<and>
     (\<forall>p k. (p, k) \<in> free_blocks L \<longrightarrow> page_free (zpages z p) \<and> page_order (zpages z p) = k) \<and>
     (\<forall>p k. (p, k) \<in> A \<longrightarrow> \<not> page_free (zpages z p))"

lemma free_blocks_upd:
  "free_blocks (L(k := xs)) =
     {x \<in> free_blocks L. snd x \<noteq> k} \<union> (if k \<le> MAX_ORDER then (\<lambda>p. (p, k)) ` set xs else {})"
  by (auto simp: free_blocks_def)

lemma free_blocks_mem: "(p, k) \<in> free_blocks L \<longleftrightarrow> k \<le> MAX_ORDER \<and> p \<in> set (L k)"
  by (simp add: free_blocks_def)

lemma free_blocks_push:
  "k \<le> MAX_ORDER \<Longrightarrow> free_blocks (L(k := p # L k)) = insert (p, k) (free_blocks L)"
  by (auto simp: free_blocks_def)

lemma free_blocks_snoc:
  "k \<le> MAX_ORDER \<Longrightarrow> free_blocks (L(k := L k @ [p])) = insert (p, k) (free_blocks L)"
  by (auto simp: free_blocks_def)

lemma free_blocks_remove:
  assumes "distinct (L k)" and "k \<le> MAX_ORDER"
  shows "free_blocks (L(k := remove1 p (L k))) = free_blocks L - {(p, k)}"
  using assms by (auto simp: free_blocks_def)

lemma inj_Pg: "inj Pg"
  by (rule injI) simp

lemma zlists_distinct: "zlists z L \<Longrightarrow> k \<le> MAX_ORDER \<Longrightarrow> distinct (L k)"
  using dl.lists_distinct [of Head orders "zlinks z" "map Pg \<circ> L" k]
  by (simp add: zlists_def distinct_map)

lemma zlists_empty: "zlists z L \<Longrightarrow> k \<le> MAX_ORDER \<Longrightarrow> list_empty (Head k) (zlinks z) \<longleftrightarrow> L k = []"
  using dl.lists_empty [of Head orders "zlinks z" "map Pg \<circ> L" k]
  by (simp add: zlists_def)

lemma zlists_first:
  "zlists z L \<Longrightarrow> k \<le> MAX_ORDER \<Longrightarrow> L k \<noteq> [] \<Longrightarrow> nxt (zlinks z) (Head k) = Pg (hd (L k))"
  using dl.lists_first [of Head orders "zlinks z" "map Pg \<circ> L" k]
  by (simp add: zlists_def hd_map)

lemma zlists_push:
  assumes "zlists z L" and "k \<le> MAX_ORDER" and "\<And>j. j \<le> MAX_ORDER \<Longrightarrow> p \<notin> set (L j)"
  shows "zlists (upd_links (list_add (Pg p) (Head k)) z) (L(k := p # L k))"
  using dl.lists_push [of Head orders "zlinks z" "map Pg \<circ> L" k "Pg p"] assms
  by (auto simp: zlists_def unlinked_def fun_upd_comp)

lemma zlists_enqueue:
  assumes "zlists z L" and "k \<le> MAX_ORDER" and "\<And>j. j \<le> MAX_ORDER \<Longrightarrow> p \<notin> set (L j)"
  shows "zlists (upd_links (list_add_tail (Pg p) (Head k)) z) (L(k := L k @ [p]))"
  using dl.lists_enqueue [of Head orders "zlinks z" "map Pg \<circ> L" k "Pg p"] assms
  by (auto simp: zlists_def unlinked_def fun_upd_comp)

lemma zlists_unlink:
  assumes "zlists z L" and "k \<le> MAX_ORDER" and "p \<in> set (L k)"
  shows "zlists (upd_links (list_del (Pg p)) z) (L(k := remove1 p (L k)))"
  using dl.lists_unlink [of Head orders "zlinks z" "map Pg \<circ> L" k "Pg p"] assms
  by (simp add: zlists_def fun_upd_comp inj_map_remove1 [OF inj_Pg])

lemma zlists_upd_page [simp]: "zlists (upd_page p f z) L = zlists z L"
  by (simp add: zlists_def)

subsection \<open>Consequences of the invariant\<close>

lemma zone_inv_tiles:
  "zone_inv z L A H \<Longrightarrow> tiles (zbegin z) (zsize z) (free_blocks L \<union> A \<union> H)"
  by (simp add: zone_inv_def)

lemma zone_inv_lists: "zone_inv z L A H \<Longrightarrow> zlists z L"
  by (simp add: zone_inv_def)

text \<open>Every page is in exactly one of the three parts.\<close>

lemma zone_inv_free_pages:
  assumes inv: "zone_inv z L A H"
  shows "\<Union> (pages_of ` free_blocks L) = {..<zsize z} - \<Union> (pages_of ` (A \<union> H))"
proof -
  let ?F = "free_blocks L"
  note t = zone_inv_tiles [OF inv]
  have "?F \<inter> (A \<union> H) = {}" using inv by (auto simp: zone_inv_def)
  then have "\<Union> (pages_of ` ?F) \<inter> \<Union> (pages_of ` (A \<union> H)) = {}"
    using tiles_disjoint [OF t] by blast
  moreover have "\<Union> (pages_of ` ?F) \<union> \<Union> (pages_of ` (A \<union> H)) = {..<zsize z}"
    using tiles_cover [OF t] by auto
  ultimately show ?thesis by blast
qed

text \<open>A block of the tiling has one order, so the head of a block that is not free is on no list.\<close>

lemma zone_inv_not_listed:
  assumes "zone_inv z L A H" and "(p, k) \<in> A \<union> H" and "j \<le> MAX_ORDER"
  shows "p \<notin> set (L j)"
proof
  assume p: "p \<in> set (L j)"
  have "(p, j) \<in> free_blocks L" using p assms(3) by (simp add: free_blocks_mem)
  moreover have "k = j"
    using tiles_order_unique [OF zone_inv_tiles [OF assms(1)], of p k j] assms(2) calculation
    by blast
  ultimately show False using assms(1,2) by (auto simp: zone_inv_def)
qed

subsection \<open>The steps\<close>

text \<open>The block the allocator holds takes the first block off a list.\<close>

lemma zone_take:
  assumes inv: "zone_inv z L A {}" and k: "k \<le> MAX_ORDER" and p: "p \<in> set (L k)"
  shows "zone_inv (upd_links (list_del (Pg p)) z) (L(k := remove1 p (L k))) A {(p, k)}"
proof -
  have z: "zlists z L" using inv by (rule zone_inv_lists)
  have F: "free_blocks (L(k := remove1 p (L k))) = free_blocks L - {(p, k)}"
    by (rule free_blocks_remove) (use zlists_distinct [OF z k] k in simp_all)
  have in_F: "(p, k) \<in> free_blocks L" using k p by (simp add: free_blocks_mem)
  then have "free_blocks L - {(p, k)} \<union> A \<union> {(p, k)} = free_blocks L \<union> A \<union> {}" by blast
  then show ?thesis
    using inv zlists_unlink [OF z k p] in_F k
    unfolding zone_inv_def F by (auto simp: zsize_def)
qed

text \<open>Descriptors that no block of the two recorded sets starts at may change at will.\<close>

lemma zone_inv_upd_page:
  assumes inv: "zone_inv z L A H" and p: "\<And>k. (p, k) \<notin> free_blocks L \<union> A"
  shows "zone_inv (upd_page p f z) L A H"
proof -
  show ?thesis using inv p unfolding zone_inv_def zsize_def by auto
qed

lemma zone_hole_order: "zone_inv z L A {(p, k)} \<Longrightarrow> k \<le> MAX_ORDER"
  unfolding zone_inv_def by blast

lemma zone_hole_head:
  assumes inv: "zone_inv z L A {(p, k)}"
  shows "(p, j) \<notin> free_blocks L \<union> A"
proof
  assume x: "(p, j) \<in> free_blocks L \<union> A"
  then have "j = k"
    using tiles_order_unique [OF zone_inv_tiles [OF inv], of p j k] by blast
  then show False using x inv by (auto simp: zone_inv_def)
qed

text \<open>Putting the held block on its free list, at either end.\<close>

lemma zone_put:
  assumes inv: "zone_inv z L A {(p, k)}"
    and set: "page_free (zpages z p)" "page_order (zpages z p) = k"
  shows "zone_inv (upd_links (list_add (Pg p) (Head k)) z) (L(k := p # L k)) A {}"
    and "zone_inv (upd_links (list_add_tail (Pg p) (Head k)) z) (L(k := L k @ [p])) A {}"
proof -
  have k: "k \<le> MAX_ORDER" using inv by (simp add: zone_inv_def)
  have fresh: "\<And>j. j \<le> MAX_ORDER \<Longrightarrow> p \<notin> set (L j)"
    using zone_inv_not_listed [OF inv] by blast
  have z: "zlists z L" using inv by (rule zone_inv_lists)
  have eq: "insert (p, k) (free_blocks L) \<union> A \<union> {} = free_blocks L \<union> A \<union> {(p, k)}" by blast
  show "zone_inv (upd_links (list_add (Pg p) (Head k)) z) (L(k := p # L k)) A {}"
    using inv zlists_push [OF z k fresh] set
    unfolding zone_inv_def free_blocks_push [OF k] eq by (auto simp: zsize_def)
  show "zone_inv (upd_links (list_add_tail (Pg p) (Head k)) z) (L(k := L k @ [p])) A {}"
    using inv zlists_enqueue [OF z k fresh] set
    unfolding zone_inv_def free_blocks_snoc [OF k] eq by (auto simp: zsize_def)
qed

text \<open>Handing the held block out, and taking a handed-out block back.\<close>

lemma zone_keep:
  assumes "zone_inv z L A {x}" and "\<not> page_free (zpages z (fst x))"
  shows "zone_inv z L (insert x A) {}"
  using assms unfolding zone_inv_def by auto

lemma zone_unkeep:
  assumes "zone_inv z L A {}" and "x \<in> A"
  shows "zone_inv z L (A - {x}) {x}"
proof -
  have "free_blocks L \<union> (A - {x}) \<union> {x} = free_blocks L \<union> A \<union> {}" using assms(2) by blast
  then show ?thesis using assms unfolding zone_inv_def by auto
qed

text \<open>Handed-out single pages fuse into a larger block that the allocator then holds.\<close>

lemma zone_fuse:
  assumes inv: "zone_inv z L A {}" and k: "k \<le> MAX_ORDER"
    and pages: "(\<lambda>i. (i, 0)) ` pages_of (p, k) \<subseteq> A" and al: "2 ^ k dvd zbegin z + p"
  shows "zone_inv z L (A - (\<lambda>i. (i, 0)) ` pages_of (p, k)) {(p, k)}"
proof -
  let ?C = "(\<lambda>i. (i, 0 :: nat)) ` pages_of (p, k)"
  let ?F = "free_blocks L"
  note t = zone_inv_tiles [OF inv]
  have t': "tiles (zbegin z) (zsize z) ((?F \<union> A \<union> {}) - ?C \<union> {(p, k)})"
    by (rule tiles_fuse [OF t _ al]) (use pages in blast)
  have FA: "?F \<inter> A = {}" using inv by (simp add: zone_inv_def)
  then have eq: "(?F \<union> A \<union> {}) - ?C \<union> {(p, k)} = ?F \<union> (A - ?C) \<union> {(p, k)}"
    using pages by blast
  have in_C: "(p, 0) \<in> ?C" by (simp add: image_iff)
  have "(p, k) \<notin> ?F \<union> (A - ?C)"
  proof
    assume x: "(p, k) \<in> ?F \<union> (A - ?C)"
    have p0: "(p, 0) \<in> A" using pages in_C by blast
    have "k = 0"
      using tiles_order_unique [OF t, of p k 0] x p0 by blast
    then have "(p, 0) \<in> ?F" using x in_C by blast
    then show False using p0 FA by blast
  qed
  then show ?thesis
    using inv t' k unfolding zone_inv_def eq by auto
qed

text \<open>One round of the splitting loop.\<close>

lemma zone_split:
  assumes inv: "zone_inv z L A {(p, Suc k)}"
  defines "q \<equiv> p + 2 ^ k"
  defines "z' \<equiv> upd_links (list_add (Pg q) (Head k))
     (upd_page q page_set_free (upd_page q (\<lambda>pg. page_set_order pg k) z))"
  shows "zone_inv z' (L(k := q # L k)) A {(p, k)}" and "(zbegin z + p) XOR 2 ^ k = zbegin z + q"
proof -
  let ?F = "free_blocks L"
  note t = zone_inv_tiles [OF inv]
  have k: "Suc k \<le> MAX_ORDER" using inv by (simp add: zone_inv_def)
  have al: "2 ^ Suc k dvd zbegin z + p" using tiles_aligned [OF t] by blast
  then have "2 ^ k dvd zbegin z + p" by (rule dvd_pow2_le [OF le_SucI [OF order_refl]])
  then show xor: "(zbegin z + p) XOR 2 ^ k = zbegin z + q"
    using al xor_pow2_aligned [of k "zbegin z + p"] by (simp add: q_def)
  have F: "?F \<inter> A = {}" "(p, Suc k) \<notin> ?F \<union> A" using inv by (auto simp: zone_inv_def)
  have t': "tiles (zbegin z) (zsize z) (?F \<union> A \<union> {(p, k), (q, k)})"
  proof -
    have "?F \<union> A \<union> {(p, k), (q, k)} =
      (?F \<union> A \<union> {(p, Suc k)}) - {(p, Suc k)} \<union> {(p, k), (p + 2 ^ k, k)}"
      using F(2) by (auto simp: q_def)
    then show ?thesis using tiles_split [OF t, of p k] by simp
  qed
  have inside: "p \<in> pages_of (p, Suc k)" "q \<in> pages_of (p, Suc k)" by (simp_all add: q_def)
  have off: "(r, j) \<notin> ?F \<union> A" if "r \<in> pages_of (p, Suc k)" for r j
  proof
    assume x: "(r, j) \<in> ?F \<union> A"
    then have "(r, j) = (p, Suc k)"
      using tiles_unique [OF t, of "(r, j)" "(p, Suc k)" r] that by simp
    then show False using x F by simp
  qed
  note np = off [OF inside(1)] and nq = off [OF inside(2)]
  have pq: "p \<noteq> q" by (simp add: q_def)
  let ?z = "upd_page q page_set_free (upd_page q (\<lambda>pg. page_set_order pg k) z)"
  have "zone_inv z L A {(p, k), (q, k)}"
    using inv t' np nq k unfolding zone_inv_def by (auto simp: insert_commute)
  then have "zone_inv ?z L A {(p, k), (q, k)}"
    using zone_inv_upd_page nq by metis
  moreover have "zlists z' (L(k := q # L k))"
    unfolding z'_def
    by (rule zlists_push)
      (use zone_inv_lists [OF inv] nq k in \<open>simp_all add: free_blocks_mem\<close>)
  moreover have "insert (q, k) ?F \<union> A \<union> {(p, k)} = ?F \<union> A \<union> {(p, k), (q, k)}" by blast
  moreover have "free_blocks (L(k := q # L k)) = insert (q, k) ?F"
    using k by (simp add: free_blocks_push)
  ultimately show "zone_inv z' (L(k := q # L k)) A {(p, k)}"
    using nq np k pq unfolding zone_inv_def z'_def by (auto simp: zsize_def)
qed

text \<open>One round of the merging loop: a free buddy joins the held block.\<close>

lemma zone_buddy_free:
  assumes inv: "zone_inv z L A {(p, k)}" and q: "q < zsize z"
    and buddy: "(zbegin z + p) XOR 2 ^ k = zbegin z + q"
    and free: "page_free (zpages z q)" "page_order (zpages z q) = k"
  shows "q \<in> set (L k)"
proof -
  note t = zone_inv_tiles [OF inv]
  have "2 ^ k dvd zbegin z + p" using tiles_aligned [OF t] by blast
  then have pq: "p \<noteq> q" using buddy_min(3) buddy by blast
  obtain j where j: "(q, j) \<in> free_blocks L \<union> A \<union> {(p, k)}" "j \<le> k"
    using buddy_head [OF t _ q buddy] by blast
  then have "(q, j) \<in> free_blocks L \<union> A" using pq by auto
  then have "(q, j) \<in> free_blocks L" using free(1) inv by (auto simp: zone_inv_def)
  moreover from this have "j = k" using free(2) inv by (auto simp: zone_inv_def)
  ultimately show ?thesis by (simp add: free_blocks_mem)
qed

lemma zone_inv_shrink:
  assumes inv: "zone_inv z L A H" and F: "free_blocks L' = free_blocks L - X"
    and lists: "zlists (upd_links g z) L'"
    and t: "tiles (zbegin z) (zsize z) (free_blocks L - X \<union> A \<union> {x})"
    and x: "x \<notin> free_blocks L \<union> A" "snd x \<le> MAX_ORDER"
  shows "zone_inv (upd_links g z) L' A {x}"
  using lists t x inv unfolding zone_inv_def F upd_simps zsize_def by (auto simp del: upd_simps)

lemma zone_merge:
  assumes inv: "zone_inv z L A {(p, k)}" and k: "k < MAX_ORDER" and q: "q \<in> set (L k)"
    and buddy: "(zbegin z + p) XOR 2 ^ k = zbegin z + q"
  defines "m \<equiv> (if zbegin z + q < zbegin z + p then q else p)"
  shows "zone_inv (upd_links (list_del (Pg q)) z) (L(k := remove1 q (L k))) A {(m, Suc k)}"
proof -
  let ?F = "free_blocks L" and ?L = "L(k := remove1 q (L k))"
  note t = zone_inv_tiles [OF inv]
  have z: "zlists z L" using inv by (rule zone_inv_lists)
  have in_F: "(q, k) \<in> ?F" using q k by (simp add: free_blocks_mem)
  have F: "free_blocks ?L = ?F - {(q, k)}"
    by (rule free_blocks_remove) (use zlists_distinct [OF z, of k] k in simp_all)
  have "2 ^ k dvd zbegin z + p" using tiles_aligned [OF t] by blast
  note mn = buddy_min [OF this buddy, folded m_def]
  have disj: "?F \<inter> A = {}" "(p, k) \<notin> ?F" "(p, k) \<notin> A"
    using inv by (auto simp: zone_inv_def)
  have heads: "(m, j) \<in> {(p, k), (q, k)}" if "(m, j) \<in> ?F \<union> A" for j
  proof -
    have "(m, k) \<in> ?F \<union> A \<union> {(p, k)}" using mn(2) in_F by blast
    then have "j = k" using tiles_order_unique [OF t] that by blast
    then show ?thesis using mn(2) by blast
  qed
  have t': "tiles (zbegin z) (zsize z) (?F - {(q, k)} \<union> A \<union> {(m, Suc k)})"
  proof -
    have "?F - {(q, k)} \<union> A \<union> {(m, Suc k)} =
      (?F \<union> A \<union> {(p, k)}) - {(m, k), (m + 2 ^ k, k)} \<union> {(m, Suc k)}"
      unfolding mn(2) [symmetric] using disj in_F by auto
    moreover have "(m, k) \<in> ?F \<union> A \<union> {(p, k)}" "(m + 2 ^ k, k) \<in> ?F \<union> A \<union> {(p, k)}"
      using mn(2) in_F by blast+
    ultimately show ?thesis using tiles_merge [OF t _ _ mn(1)] by simp
  qed
  have new: "(m, Suc k) \<notin> ?F \<union> A" using heads [of "Suc k"] by auto
  have lists: "zlists (upd_links (list_del (Pg q)) z) ?L"
    by (rule zlists_unlink [OF z _ q]) (use k in simp)
  have "snd (m, Suc k) \<le> MAX_ORDER" using k by simp
  then show ?thesis by (rule zone_inv_shrink [OF inv F lists t' new])
qed

subsection \<open>Allocating\<close>

text \<open>No two free buddies of the same order: the allocator always unites them.\<close>

definition coalesced :: "zone \<Rightarrow> (nat \<Rightarrow> nat list) \<Rightarrow> bool" where
  "coalesced z L \<longleftrightarrow>
     (\<forall>p k q. (p, k) \<in> free_blocks L \<longrightarrow> k < MAX_ORDER \<longrightarrow>
        (zbegin z + p) XOR 2 ^ k = zbegin z + q \<longrightarrow> (q, k) \<notin> free_blocks L)"

lemma xor_flip:
  fixes a :: nat
  assumes "a XOR c = b"
  shows "b XOR c = a"
  unfolding assms [symmetric] by (simp only: xor.assoc xor_self_eq xor.right_neutral)

lemma coalesced_remove:
  assumes co: "coalesced z L" and sub: "free_blocks L' \<subseteq> free_blocks L" and b: "zbegin z' = zbegin z"
  shows "coalesced z' L'"
  unfolding coalesced_def b
proof (intro allI impI notI)
  fix p k q
  assume "(p, k) \<in> free_blocks L'" and k: "k < MAX_ORDER"
    and x: "zbegin z + p XOR 2 ^ k = zbegin z + q" and "(q, k) \<in> free_blocks L'"
  then have "(p, k) \<in> free_blocks L" "(q, k) \<in> free_blocks L" using sub by auto
  then show False using co k x unfolding coalesced_def by simp
qed

text \<open>A block whose buddy is not free may join the free blocks.\<close>

lemma coalesced_insert:
  assumes co: "coalesced z L" and F: "free_blocks L' = insert (q, k) (free_blocks L)"
    and b: "zbegin z' = zbegin z"
    and nb': "\<And>p. k < MAX_ORDER \<Longrightarrow> (zbegin z + q) XOR 2 ^ k = zbegin z + p \<Longrightarrow> (p, k) \<notin> free_blocks L'"
  shows "coalesced z' L'"
  unfolding coalesced_def b
proof (intro allI impI notI)
  fix r j t
  assume r: "(r, j) \<in> free_blocks L'" and j: "j < MAX_ORDER"
    and x: "(zbegin z + r) XOR 2 ^ j = zbegin z + t" and t: "(t, j) \<in> free_blocks L'"
  consider "(r, j) = (q, k)" | "(t, j) = (q, k)" | "(r, j) \<in> free_blocks L" "(t, j) \<in> free_blocks L"
    using r t F by blast
  then show False
  proof cases
    case 1
    then show False using nb' [of t] j x t by auto
  next
    case 2
    then show False using nb' [of r] j xor_flip [OF x] r by auto
  next
    case 3
    then show False using co j x unfolding coalesced_def by blast
  qed
qed

lemma find_order_props:
  assumes "k \<le> MAX_ORDER + 1"
  shows "k \<le> find_order z k" and "find_order z k \<le> MAX_ORDER + 1"
    and "\<And>j. k \<le> j \<Longrightarrow> j < find_order z k \<Longrightarrow> list_empty (Head j) (zlinks z)"
    and "find_order z k \<le> MAX_ORDER \<Longrightarrow> \<not> list_empty (Head (find_order z k)) (zlinks z)"
proof -
  have "k \<le> find_order z k \<and> find_order z k \<le> MAX_ORDER + 1 \<and>
    (\<forall>j. k \<le> j \<longrightarrow> j < find_order z k \<longrightarrow> list_empty (Head j) (zlinks z)) \<and>
    (find_order z k \<le> MAX_ORDER \<longrightarrow> \<not> list_empty (Head (find_order z k)) (zlinks z))"
    using assms
  proof (induction z k rule: find_order.induct)
    case (1 z k)
    show ?case
    proof (cases "k \<le> MAX_ORDER \<and> list_empty (Head k) (zlinks z)")
      case True
      have "find_order z k = find_order z (k + 1)"
        using True by (simp add: find_order.simps [of z k])
      moreover have "list_empty (Head j) (zlinks z)" if "k \<le> j" "j < find_order z (k + 1)" for j
        using True 1(1) [OF True] that by (cases "j = k") auto
      ultimately show ?thesis using 1(1) [OF True] True by auto
    next
      case False
      then have "find_order z k = k" by (subst find_order.simps) (rule if_not_P)
      then show ?thesis using False 1(2) by auto
    qed
  qed
  then show "k \<le> find_order z k" and "find_order z k \<le> MAX_ORDER + 1"
    and "\<And>j. k \<le> j \<Longrightarrow> j < find_order z k \<Longrightarrow> list_empty (Head j) (zlinks z)"
    and "find_order z k \<le> MAX_ORDER \<Longrightarrow> \<not> list_empty (Head (find_order z k)) (zlinks z)"
    by auto
qed

lemma find_order_beyond: "order > MAX_ORDER \<Longrightarrow> find_order z order = order"
  by (subst find_order.simps) simp

lemma split_loop_inv:
  assumes "zone_inv z L A {(p, c)}" and "order \<le> c" and "\<not> page_free (zpages z p)"
    and "coalesced z L" and "b = zbegin z"
  shows "\<exists>L'. zone_inv (split_loop (b + p) order c z) L' A {(p, order)} \<and>
    \<not> page_free (zpages (split_loop (b + p) order c z) p) \<and>
    coalesced (split_loop (b + p) order c z) L' \<and>
    zbegin (split_loop (b + p) order c z) = zbegin z \<and> zend (split_loop (b + p) order c z) = zend z"
  using assms
proof (induction c arbitrary: z L)
  case 0
  then show ?case by auto
next
  case (Suc c)
  show ?case
  proof (cases "Suc c = order")
    case True
    then show ?thesis using Suc.prems by auto
  next
    case False
    let ?q = "p + 2 ^ c"
    define z' where "z' = upd_links (list_add (Pg ?q) (Head c))
      (upd_page ?q page_set_free (upd_page ?q (\<lambda>pg. page_set_order pg c) z))"
    let ?L = "L(c := ?q # L c)"
    note inv = zone_split [OF Suc.prems(1), folded z'_def]
    have step: "split_loop (b + p) order (Suc c) z = split_loop (b + p) order c z'"
      using False inv(2) Suc.prems(5) by (simp add: z'_def Let_def)
    have c: "c < MAX_ORDER" using zone_hole_order [OF Suc.prems(1)] by simp
    have F: "free_blocks ?L = insert (?q, c) (free_blocks L)" using c by (simp add: free_blocks_push)
    have same: "zbegin z' = zbegin z" "zend z' = zend z" by (simp_all add: z'_def)
    have co: "coalesced z' ?L"
    proof (rule coalesced_insert [OF Suc.prems(4) F])
      show "zbegin z' = zbegin z" by (simp add: z'_def)
      show "(r, c) \<notin> free_blocks ?L" if x: "(zbegin z + ?q) XOR 2 ^ c = zbegin z + r" for r
      proof -
        have "r = p" using xor_flip [OF inv(2)] x by simp
        then show ?thesis using zone_hole_head [OF inv(1)] by blast
      qed
    qed
    have busy: "\<not> page_free (zpages z' p)" using Suc.prems(3) by (simp add: z'_def)
    have "order \<le> c" "b = zbegin z'" using False Suc.prems(2,5) same by simp_all
    then show ?thesis
      using Suc.IH [OF inv(1) _ busy co] unfolding step same by blast
  qed
qed

text \<open>
  What allocation in a zone promises. It succeeds exactly when some free block has at least
  the requested order, and the block it hands out joins the blocks in use.
\<close>

lemma do_buddy_alloc_zone_Some:
  assumes inv: "zone_inv z L A {}" "coalesced z L"
    and run: "do_buddy_alloc_zone z order = (Some p, z')"
  obtains L' where "zone_inv z' L' (insert (p, order) A) {}" and "coalesced z' L'"
    and "(p, order) \<notin> A" and "order \<le> MAX_ORDER"
    and "zbegin z' = zbegin z" and "zend z' = zend z"
proof -
  let ?c = "find_order z order"
  have c: "?c \<le> MAX_ORDER"
    using run by (auto simp: do_buddy_alloc_zone_def Let_def split: if_splits)
  have o: "order \<le> MAX_ORDER" using c find_order_beyond [of order z] by linarith
  note fo = find_order_props [where k = order and z = z]
  have ne: "L ?c \<noteq> []" using fo(4) o c zlists_empty [OF zone_inv_lists [OF inv(1)] c] by simp
  then have first: "nxt (zlinks z) (Head ?c) = Pg (hd (L ?c))"
    by (rule zlists_first [OF zone_inv_lists [OF inv(1)] c])
  let ?z1 = "upd_page p page_set_busy z"
  let ?z2 = "upd_links (list_del (Pg p)) ?z1"
  have p: "p = hd (L ?c)" and z': "z' = split_loop (zbegin z + p) order ?c ?z2"
    using run c first by (auto simp: do_buddy_alloc_zone_def Let_def node_page_def)
  have pin: "p \<in> set (L ?c)" using ne p by simp
  let ?L = "L(?c := remove1 p (L ?c))"
  have take: "zone_inv (upd_links (list_del (Pg p)) z) ?L A {(p, ?c)}"
    using zone_take [OF inv(1) c pin] .
  have "zone_inv (upd_page p page_set_busy (upd_links (list_del (Pg p)) z)) ?L A {(p, ?c)}"
    by (rule zone_inv_upd_page [OF take]) (use zone_hole_head [OF take] in blast)
  moreover have "upd_page p page_set_busy (upd_links (list_del (Pg p)) z) = ?z2"
    by (simp add: upd_page_def upd_links_def)
  ultimately have hole: "zone_inv ?z2 ?L A {(p, ?c)}" by simp
  have "free_blocks ?L \<subseteq> free_blocks L"
    using set_remove1_subset [of p "L ?c"] by (auto simp: free_blocks_mem split: if_splits)
  then have co: "coalesced ?z2 ?L" by (rule coalesced_remove [OF inv(2)]) simp
  obtain L' where L': "zone_inv z' L' A {(p, order)}" "\<not> page_free (zpages z' p)" "coalesced z' L'"
      "zbegin z' = zbegin z" "zend z' = zend z"
    using split_loop_inv [OF hole _ _ co, of order "zbegin z"] fo(1) o
    by (auto simp: z')
  have "zone_inv z' L' (insert (p, order) A) {}"
    using zone_keep [OF L'(1)] L'(2) by simp
  moreover have "(p, order) \<notin> A" using L'(1) by (simp add: zone_inv_def)
  ultimately show thesis using that L' o by blast
qed

lemma do_buddy_alloc_zone_None:
  assumes inv: "zone_inv z L A {}" and run: "do_buddy_alloc_zone z order = (None, z')"
  shows "z' = z" and "(p, k) \<in> free_blocks L \<Longrightarrow> k < order"
proof -
  have c: "find_order z order > MAX_ORDER"
    using run by (auto simp: do_buddy_alloc_zone_def Let_def split: if_splits)
  then show "z' = z" using run by (simp add: do_buddy_alloc_zone_def)
  assume x: "(p, k) \<in> free_blocks L"
  show "k < order"
  proof (rule ccontr)
    assume "\<not> k < order"
    moreover have k: "k \<le> MAX_ORDER" "L k \<noteq> []" using x by (auto simp: free_blocks_mem)
    ultimately have "list_empty (Head k) (zlinks z)"
      using find_order_props(3) [where k = order and z = z and j = k] c by simp
    then show False using zlists_empty [OF zone_inv_lists [OF inv] k(1)] k(2) by simp
  qed
qed

subsection \<open>Freeing\<close>

lemma merge_loop_inv:
  assumes "zone_inv z L A {(p, k)}" and "coalesced z L" and "idx = zbegin z + p"
  shows "\<exists>z' L' m j. merge_loop idx k z = (zbegin z + m, j, z') \<and>
    zone_inv z' L' A {(m, j)} \<and> coalesced z' L' \<and> zbegin z' = zbegin z \<and> zend z' = zend z \<and>
    (\<forall>q. j < MAX_ORDER \<longrightarrow> (zbegin z + m) XOR 2 ^ j = zbegin z + q \<longrightarrow> (q, j) \<notin> free_blocks L')"
  using assms
proof (induction idx k z arbitrary: L p rule: merge_loop.induct)
  case (1 idx k z)
  let ?bidx = "idx XOR 2 ^ k"
  let ?q = "?bidx - zbegin z"
  let ?stop = "\<not> k < MAX_ORDER \<or> ?bidx < zbegin z \<or> ?bidx \<ge> zend z \<or>
    \<not> page_free (zpages z ?q) \<or> page_order (zpages z ?q) \<noteq> k"
  note inv = "1.prems"(1)
  show ?case
  proof (cases ?stop)
    case True
    then have run: "merge_loop idx k z = (idx, k, z)"
      by (subst merge_loop.simps) (auto simp: Let_def)
    have "(q, k) \<notin> free_blocks L"
      if "k < MAX_ORDER" "(zbegin z + p) XOR 2 ^ k = zbegin z + q" for q
    proof
      assume q: "(q, k) \<in> free_blocks L"
      have "q < zsize z" using tiles_head_less [OF zone_inv_tiles [OF inv]] q by blast
      moreover have "page_free (zpages z q)" "page_order (zpages z q) = k"
        using inv q by (auto simp: zone_inv_def)
      ultimately show False using True that "1.prems"(3) by (auto simp: zsize_def)
    qed
    then show ?thesis using run "1.prems" by auto
  next
    case False
    then have k: "k < MAX_ORDER" and b: "zbegin z \<le> ?bidx" "?bidx < zend z"
      and free: "page_free (zpages z ?q)" "page_order (zpages z ?q) = k" by auto
    have buddy: "(zbegin z + p) XOR 2 ^ k = zbegin z + ?q" using b(1) "1.prems"(3) by simp
    have q: "?q \<in> set (L k)"
      by (rule zone_buddy_free [OF inv _ buddy free]) (use b in \<open>simp add: zsize_def\<close>)
    let ?z1 = "upd_links (list_del (Pg ?q)) z" and ?L1 = "L(k := remove1 ?q (L k))"
    let ?m = "if zbegin z + ?q < zbegin z + p then ?q else p"
    have run: "merge_loop idx k z = merge_loop (if ?bidx < idx then ?bidx else idx) (k + 1) ?z1"
      using False by (subst merge_loop.simps) (simp add: Let_def)
    have inv1: "zone_inv ?z1 ?L1 A {(?m, k + 1)}"
      using zone_merge [OF inv k q buddy] by simp
    have "free_blocks ?L1 \<subseteq> free_blocks L"
      using set_remove1_subset [of ?q "L k"] by (auto simp: free_blocks_mem split: if_splits)
    then have co: "coalesced ?z1 ?L1" by (rule coalesced_remove [OF "1.prems"(2)]) simp
    have idx': "(if ?bidx < idx then ?bidx else idx) = zbegin ?z1 + ?m"
      using b(1) "1.prems"(3) by auto
    show ?thesis
      using "1.IH" [OF k refl _ refl _ refl inv1 co idx'] False
      unfolding run by simp
  qed
qed

lemma do_buddy_free_zone_inv:
  assumes inv: "zone_inv z L A {}" "coalesced z L" and x: "(p, k) \<in> A"
  defines "z' \<equiv> do_buddy_free_zone z p k"
  obtains L' where "zone_inv z' L' (A - {(p, k)}) {}" and "coalesced z' L'"
    and "zbegin z' = zbegin z" and "zend z' = zend z"
proof -
  obtain z1 L1 m j where run: "merge_loop (zbegin z + p) k z = (zbegin z + m, j, z1)"
    and i1: "zone_inv z1 L1 (A - {(p, k)}) {(m, j)}" and c1: "coalesced z1 L1"
    and same: "zbegin z1 = zbegin z" "zend z1 = zend z"
    and nb: "\<And>q. j < MAX_ORDER \<Longrightarrow> (zbegin z + m) XOR 2 ^ j = zbegin z + q \<Longrightarrow> (q, j) \<notin> free_blocks L1"
    using merge_loop_inv [OF zone_unkeep [OF inv(1) x] inv(2) refl] by blast
  let ?z2 = "upd_page m page_set_free (upd_page m (\<lambda>pg. page_set_order pg j) z1)"
  have z': "z' = upd_links (list_add (Pg m) (Head j)) ?z2"
    by (simp add: z'_def do_buddy_free_zone_def run same)
  have i2: "zone_inv ?z2 L1 (A - {(p, k)}) {(m, j)}"
    using zone_inv_upd_page zone_hole_head [OF i1] i1 by metis
  have i3: "zone_inv z' (L1(j := m # L1 j)) (A - {(p, k)}) {}"
    unfolding z' by (rule zone_put(1) [OF i2]) simp_all
  have j: "j \<le> MAX_ORDER" using i1 by (simp add: zone_inv_def)
  have "2 ^ j dvd zbegin z1 + m" using tiles_aligned [OF zone_inv_tiles [OF i1]] by blast
  then have "q \<noteq> m" if "(zbegin z1 + m) XOR 2 ^ j = zbegin z1 + q" for q
    using buddy_min(3) that by blast
  then have "coalesced z' (L1(j := m # L1 j))"
    using coalesced_insert [OF c1 free_blocks_push [OF j]] nb j same
    by (auto simp: z' free_blocks_push [OF j])
  then show thesis using that i3 same by (simp add: z')
qed

end
