(* ===== verification/Buddy_Alloc.thy ===== *)
theory Buddy_Alloc
  imports Buddy_Zone
begin

text \<open>
  The buddy allocator as its clients see it: \<open>buddy_inv s U\<close> says that the allocator of
  state \<open>s\<close> has handed out (or never owned) exactly the blocks \<open>U\<close>, given by their first
  frame number and order. The interface \<open>page_allocator\<close> states the contract of
  \<open>buddy_alloc\<close> and \<open>buddy_free\<close>; the theory proves that the code keeps it and adds
  the completeness of allocation: it fails only if there is no aligned run of free pages.
\<close>

subsection \<open>Free runs\<close>

text \<open>In a coalesced zone an aligned run of free pages lies inside one free block.\<close>

lemma free_run_in_block:
  assumes inv: "zone_inv z L A {}" and co: "coalesced z L"
    and "k \<le> MAX_ORDER" and "2 ^ k dvd zbegin z + r"
    and "pages_of (r, k) \<subseteq> \<Union> (pages_of ` free_blocks L)"
  shows "\<exists>p j. (p, j) \<in> free_blocks L \<and> k \<le> j \<and> r \<in> pages_of (p, j)"
  using assms(3-5)
proof (induction k arbitrary: r)
  case 0
  have "r \<in> pages_of (r, 0)" by simp
  then have "r \<in> \<Union> (pages_of ` free_blocks L)" using "0.prems"(3) by blast
  then obtain x where "x \<in> free_blocks L" "r \<in> pages_of x" by blast
  then show ?case by (cases x) blast
next
  case (Suc k)
  note t = zone_inv_tiles [OF inv, simplified]
  let ?s = "r + 2 ^ k"
  have al: "2 ^ k dvd zbegin z + r"
    using Suc.prems(2) by (rule dvd_pow2_le [OF le_SucI [OF order_refl]])
  then have al': "2 ^ k dvd zbegin z + ?s" by (simp add: add.assoc [symmetric])
  have halves: "pages_of (r, k) \<subseteq> \<Union> (pages_of ` free_blocks L)"
    "pages_of (?s, k) \<subseteq> \<Union> (pages_of ` free_blocks L)"
    using Suc.prems(3) pages_of_halves [of r k] by auto
  obtain p j where pj: "(p, j) \<in> free_blocks L" "k \<le> j" "r \<in> pages_of (p, j)"
    using Suc.IH [OF _ al halves(1)] Suc.prems(1) by auto
  obtain q i where qi: "(q, i) \<in> free_blocks L" "k \<le> i" "?s \<in> pages_of (q, i)"
    using Suc.IH [OF _ al' halves(2)] Suc.prems(1) by auto
  have at_head: "x = y" if x: "(x, k) \<in> free_blocks L" and y: "y \<in> pages_of (x, k)"
    and ay: "2 ^ k dvd zbegin z + y" for x y
  proof (rule ccontr)
    have ax: "2 ^ k dvd zbegin z + x" using tiles_aligned [OF t] x by blast
    assume "x \<noteq> y"
    then have "zbegin z + x < zbegin z + y" using y by simp
    then show False using aligned_less_gap [OF ax ay] y by simp
  qed
  show ?case
  proof (cases "Suc k \<le> j \<or> Suc k \<le> i")
    case True
    then show ?thesis
    proof
      assume "Suc k \<le> j"
      then show ?thesis using pj by blast
    next
      assume i: "Suc k \<le> i"
      have aq: "2 ^ Suc k dvd zbegin z + q"
        using dvd_pow2_le [OF i] tiles_aligned [OF t] qi(1) by blast
      have "q \<le> r"
      proof (rule ccontr)
        assume "\<not> q \<le> r"
        then have "zbegin z + r + 2 ^ Suc k \<le> zbegin z + q"
          using aligned_less_gap [OF Suc.prems(2) aq] by simp
        then have "zbegin z + r + 2 ^ k + 2 ^ k \<le> zbegin z + q" by simp
        moreover have "q \<le> r + 2 ^ k" using qi(3) by simp
        moreover have "(0 :: nat) < 2 ^ k" by simp
        ultimately show False by linarith
      qed
      then have "r \<in> pages_of (q, i)" using qi(3) by simp
      then show ?thesis using qi(1) i by blast
    qed
  next
    case False
    then have ji: "j = k" "i = k" using pj(2) qi(2) by auto
    have "p = r" "q = ?s" using at_head pj(1,3) qi(1,3) al al' unfolding ji by blast+
    moreover have "(zbegin z + r) XOR 2 ^ k = zbegin z + ?s"
      using xor_pow2_aligned [OF al] Suc.prems(2) by simp
    ultimately have False
      using co pj(1) qi(1) Suc.prems(1) unfolding coalesced_def ji by auto
    then show ?thesis ..
  qed
qed

subsection \<open>Giving a range to its zone\<close>

lemma range_order_props:
  assumes "2 ^ k dvd page" and "page + 2 ^ k \<le> end" and "k \<le> MAX_ORDER"
  defines "m \<equiv> range_order page end k"
  shows "2 ^ m dvd page" and "page + 2 ^ m \<le> end" and "m \<le> MAX_ORDER"
    and "m = MAX_ORDER \<or> \<not> 2 ^ Suc m dvd page \<or> page + 2 ^ Suc m > end"
proof -
  have "2 ^ m dvd page \<and> page + 2 ^ m \<le> end \<and> m \<le> MAX_ORDER \<and>
    (m = MAX_ORDER \<or> \<not> 2 ^ Suc m dvd page \<or> page + 2 ^ Suc m > end)"
    using assms(1-3) unfolding m_def
  proof (induction page "end" k rule: range_order.induct)
    case (1 page "end" k)
    have bit: "page AND 2 ^ k \<noteq> 0 \<longleftrightarrow> \<not> 2 ^ Suc k dvd page"
    proof -
      have "page AND 2 ^ k \<noteq> 0 \<longleftrightarrow> bit page k"
        by (simp add: and_exp_eq_0_iff_not_bit)
      then show ?thesis using bit_aligned_iff_nat [OF "1.prems"(1)] by simp
    qed
    show ?case
    proof (cases "k < MAX_ORDER \<and> 2 ^ Suc k dvd page \<and> page + 2 ^ Suc k \<le> end")
      case True
      then have "range_order page end k = range_order page end (k + 1)"
        using bit by (subst range_order.simps) simp
      then show ?thesis using "1.IH" True bit by simp
    next
      case False
      then have "range_order page end k = k"
        using bit by (subst range_order.simps) auto
      then show ?thesis using False "1.prems" by auto
    qed
  qed
  then show "2 ^ m dvd page" and "page + 2 ^ m \<le> end" and "m \<le> MAX_ORDER"
    and "m = MAX_ORDER \<or> \<not> 2 ^ Suc m dvd page \<or> page + 2 ^ Suc m > end"
    by auto
qed

text \<open>
  During the loop the free blocks are those from before, which end strictly below \<open>start\<close>,
  and those of the loop, each as large as alignment and the end of the range allow.
\<close>

definition greedy :: "nat \<Rightarrow> nat \<Rightarrow> nat \<Rightarrow> nat \<Rightarrow> (nat \<Rightarrow> nat list) \<Rightarrow> bool" where
  "greedy b start page end L \<longleftrightarrow>
     (\<forall>r j. (r, j) \<in> free_blocks L \<longrightarrow>
        b + r + 2 ^ j < start \<or>
        (b + r + 2 ^ j \<le> page \<and>
         (j = MAX_ORDER \<or> \<not> 2 ^ Suc j dvd b + r \<or> b + r + 2 ^ Suc j > end)))"

lemma zone_free_range_inv:
  assumes "zone_inv z L A {}" and "coalesced z L" and "start \<le> page" and "page \<le> end"
    and "greedy (zbegin z) start page end L"
    and "zbegin z \<le> page" and "\<forall>i. page \<le> zbegin z + i \<and> zbegin z + i < end \<longrightarrow> (i, 0) \<in> A"
  shows "\<exists>z' L'. zone_free_range page end z = Some z' \<and>
    zone_inv z' L' (A - {(i, 0) | i. page \<le> zbegin z + i \<and> zbegin z + i < end}) {} \<and>
    coalesced z' L' \<and> zbegin z' = zbegin z \<and> zend z' = zend z \<and>
    greedy (zbegin z) start end end L'"
  using assms
proof (induction "end - page" arbitrary: z L A page rule: less_induct)
  case less
  show ?case
  proof (cases "page = end")
    case True
    then have "zone_free_range page end z = Some z" by (simp add: zone_free_range.simps)
    moreover have "A - {(i, 0) | i. page \<le> zbegin z + i \<and> zbegin z + i < end} = A"
      using True by auto
    ultimately show ?thesis using less.prems True by auto
  next
    case False
    then have lt: "page < end" using less.prems(4) by simp
    let ?b = "zbegin z" and ?k = "range_order page end 0"
    let ?p = "page - ?b"
    have bp: "?b + ?p = page" using less.prems(6) by simp
    have ro: "2 ^ ?k dvd page" "page + 2 ^ ?k \<le> end" "?k \<le> MAX_ORDER"
      "?k = MAX_ORDER \<or> \<not> 2 ^ Suc ?k dvd page \<or> page + 2 ^ Suc ?k > end"
      using range_order_props [of 0 page "end"] lt by simp_all
    let ?C = "(\<lambda>i. (i, 0 :: nat)) ` pages_of (?p, ?k)"
    have C: "?C \<subseteq> A"
    proof
      fix x assume "x \<in> ?C"
      then obtain i where x: "x = (i, 0)" and i: "?p \<le> i" "i < ?p + 2 ^ ?k" by auto
      have "page \<le> ?b + i" "?b + i < end" using i bp ro(2) by linarith+
      then show "x \<in> A" using less.prems(7) x by blast
    qed
    have hole: "zone_inv z L (A - ?C) {(?p, ?k)}"
      by (rule zone_fuse [OF less.prems(1) ro(3) C]) (use ro(1) bp in simp)
    let ?z1 = "upd_page ?p page_set_free (upd_page ?p (\<lambda>pg. page_set_order pg ?k) z)"
    have hole1: "zone_inv ?z1 L (A - ?C) {(?p, ?k)}"
      using zone_inv_upd_page zone_hole_head [OF hole] hole by metis
    let ?z2 = "free_block ?p ?k z" and ?L2 = "L(?k := L ?k @ [?p])"
    have z2: "?z2 = upd_links (list_add_tail (Pg ?p) (Head ?k)) ?z1"
      by (simp add: free_block_def)
    have inv2: "zone_inv ?z2 ?L2 (A - ?C) {}"
      unfolding z2 by (rule zone_put(2) [OF hole1]) simp_all
    have same: "zbegin ?z2 = ?b" "zend ?z2 = zend z" by (simp_all add: z2)
    have F: "free_blocks ?L2 = insert (?p, ?k) (free_blocks L)" using ro(3) by (rule free_blocks_snoc)
    have co: "coalesced ?z2 ?L2"
    proof (rule coalesced_insert [OF less.prems(2) F])
      show "zbegin ?z2 = zbegin z" by (rule same)
      fix q assume k: "?k < MAX_ORDER" and x: "(?b + ?p) XOR 2 ^ ?k = ?b + q"
      have qp: "?p \<noteq> q" using buddy_min(3) [OF _ x] ro(1) bp by simp
      show "(q, ?k) \<notin> free_blocks ?L2"
      proof
        assume "(q, ?k) \<in> free_blocks ?L2"
        then have q: "(q, ?k) \<in> free_blocks L" using F qp by auto
        have qend: "?b + q + 2 ^ ?k \<le> page"
          using less.prems(3,5) q unfolding greedy_def by fastforce
        have q_eq: "?b + q + 2 ^ ?k = page" and q_al: "2 ^ Suc ?k dvd ?b + q"
        proof -
          have pos: "(0 :: nat) < 2 ^ ?k" by simp
          then have lt: "?b + q < ?b + ?p" using qend bp by linarith
          then have m: "(if ?b + q < ?b + ?p then q else ?p) = q" by (rule if_P)
          have "2 ^ ?k dvd ?b + ?p" using ro(1) bp by simp
          note mn = buddy_min [OF this x, unfolded m]
          show "2 ^ Suc ?k dvd ?b + q" by (rule mn(1))
          have "?p = q + 2 ^ ?k" using mn(2) qp by auto
          then show "?b + q + 2 ^ ?k = page" using bp by simp
        qed
        have "?b + q + 2 ^ Suc ?k \<le> end" using q_eq ro(2) by simp
        then show False
          using less.prems(3,5) q k q_al q_eq unfolding greedy_def by fastforce
      qed
    qed
    have gr: "greedy (zbegin ?z2) start (page + 2 ^ ?k) end ?L2"
      unfolding same greedy_def
    proof (intro allI impI)
      fix r j assume "(r, j) \<in> free_blocks ?L2"
      then consider "(r, j) = (?p, ?k)" | "(r, j) \<in> free_blocks L" using F by blast
      then show "?b + r + 2 ^ j < start \<or> ?b + r + 2 ^ j \<le> page + 2 ^ ?k \<and>
          (j = MAX_ORDER \<or> \<not> 2 ^ Suc j dvd ?b + r \<or> end < ?b + r + 2 ^ Suc j)"
      proof cases
        case 1
        then show ?thesis using ro(4) bp by auto
      next
        case 2
        then show ?thesis using less.prems(5) unfolding greedy_def by fastforce
      qed
    qed
    have rest: "\<forall>i. page + 2 ^ ?k \<le> zbegin ?z2 + i \<and> zbegin ?z2 + i < end \<longrightarrow> (i, 0) \<in> A - ?C"
      using less.prems(7) bp unfolding same by auto
    have pos: "(0 :: nat) < 2 ^ ?k" by simp
    have "end - (page + 2 ^ ?k) < end - page" using lt pos by linarith
    moreover have "start \<le> page + 2 ^ ?k" "zbegin ?z2 \<le> page + 2 ^ ?k"
      using less.prems(3,6) same by simp_all
    ultimately obtain z' L' where run: "zone_free_range (page + 2 ^ ?k) end ?z2 = Some z'"
      and inv': "zone_inv z' L'
        (A - ?C - {(i, 0) | i. page + 2 ^ ?k \<le> zbegin ?z2 + i \<and> zbegin ?z2 + i < end}) {}"
      and rest': "coalesced z' L'" "zbegin z' = zbegin ?z2" "zend z' = zend ?z2"
        "greedy (zbegin ?z2) start end end L'"
      using less.hyps [OF _ inv2 co _ ro(2) gr _ rest] by blast
    have "zone_free_range page end z = Some z'"
      using False run by (subst zone_free_range.simps) (simp add: Let_def)
    moreover have "A - ?C - {(i, 0) | i. page + 2 ^ ?k \<le> zbegin ?z2 + i \<and> zbegin ?z2 + i < end} =
      A - {(i, 0) | i. page \<le> ?b + i \<and> ?b + i < end}"
    proof -
      have "?C \<union> {(i, 0) | i. page + 2 ^ ?k \<le> ?b + i \<and> ?b + i < end} =
        {(i, 0) | i. page \<le> ?b + i \<and> ?b + i < end}"
        using bp ro(2) by auto
      then show ?thesis unfolding same by blast
    qed
    ultimately show ?thesis using inv' rest' same by auto
  qed
qed

end
