(* ===== verification/Buddy_System.thy ===== *)
theory Buddy_System
  imports Buddy_Alloc
begin

text \<open>
  The buddy allocator over all zones of a state. \<open>buddy_inv s U\<close>: the blocks \<open>U\<close>,
  given by first frame number and order, are exactly those the allocator does not own. The locale
  \<open>page_allocator\<close> is the contract the rest of the kernel relies on; its
  interpretation shows that \<open>buddy_alloc\<close> and \<open>buddy_free\<close> keep it.
\<close>

subsection \<open>The invariant of the whole allocator\<close>

definition zone_used :: "zone \<Rightarrow> block set \<Rightarrow> block set" where
  "zone_used z U = {(p, k). (zbegin z + p, k) \<in> U \<and> p < zsize z}"

definition zones_inv :: "zone list \<Rightarrow> block set \<Rightarrow> bool" where
  "zones_inv zs U \<longleftrightarrow>
     (\<forall>z\<in>set zs. (\<exists>L. zone_inv z L (zone_used z U) {} \<and> coalesced z L) \<and> zend z \<le> 2 ^ 52) \<and>
     (\<forall>f k. (f, k) \<in> U \<longrightarrow> (\<exists>z\<in>set zs. zbegin z \<le> f \<and> f < zend z)) \<and>
     sorted_wrt (\<lambda>a b. zend a \<le> zbegin b) zs"

definition buddy_inv :: "'a buddy_scheme \<Rightarrow> block set \<Rightarrow> bool" where
  "buddy_inv s U \<longleftrightarrow> zones_inv (buddy_zones s) U"

text \<open>The frames that a state manages at all.\<close>

definition frames :: "zone list \<Rightarrow> nat set" where
  "frames zs = (\<Union>z\<in>set zs. {zbegin z..<zend z})"

lemma zones_invD:
  assumes "zones_inv zs U" and "i < length zs"
  obtains L where "zone_inv (zs ! i) L (zone_used (zs ! i) U) {}" and "coalesced (zs ! i) L"
    and "zbegin (zs ! i) \<le> zend (zs ! i)" and "zend (zs ! i) \<le> 2 ^ 52"
  using assms nth_mem [OF assms(2)] unfolding zones_inv_def zone_inv_def by blast

lemma zones_separate:
  assumes "sorted_wrt (\<lambda>a b. zend a \<le> zbegin b) zs" and "i < length zs" and "j < length zs"
    and "zbegin (zs ! i) \<le> f" "f < zend (zs ! i)" and "zbegin (zs ! j) \<le> f" "f < zend (zs ! j)"
  shows "i = j"
proof (rule ccontr)
  assume "i \<noteq> j"
  then consider "i < j" | "j < i" by linarith
  then show False
  proof cases
    case 1
    then have "zend (zs ! i) \<le> zbegin (zs ! j)" using assms(1,3) by (simp add: sorted_wrt_iff_nth_less)
    then show False using assms by simp
  next
    case 2
    then have "zend (zs ! j) \<le> zbegin (zs ! i)" using assms(1,2) by (simp add: sorted_wrt_iff_nth_less)
    then show False using assms by simp
  qed
qed

lemma sorted_wrt_update:
  assumes "sorted_wrt (\<lambda>a b. zend a \<le> zbegin b) zs" and "i < length zs"
    and "zbegin z' = zbegin (zs ! i)" and "zend z' = zend (zs ! i)"
  shows "sorted_wrt (\<lambda>a b. zend a \<le> zbegin b) (zs[i := z'])"
  using assms by (auto simp: sorted_wrt_iff_nth_less nth_list_update)

text \<open>Replacing one zone, with the blocks of the others untouched.\<close>

lemma zones_inv_update:
  assumes inv: "zones_inv zs U" and i: "i < length zs"
    and z': "zone_inv z' L' (zone_used z' U') {}" "coalesced z' L'"
    and same: "zbegin z' = zbegin (zs ! i)" "zend z' = zend (zs ! i)"
    and new: "\<And>f k. (f, k) \<in> U' \<Longrightarrow> (f, k) \<in> U \<or> (zbegin z' \<le> f \<and> f < zend z')"
    and old: "\<And>f k. (f, k) \<in> U \<Longrightarrow> (f, k) \<in> U' \<or> (zbegin z' \<le> f \<and> f < zend z')"
  shows "zones_inv (zs[i := z']) U'"
proof -
  have sorted: "sorted_wrt (\<lambda>a b. zend a \<le> zbegin b) zs" using inv by (simp add: zones_inv_def)
  have one: "(\<exists>L. zone_inv (zs[i := z'] ! j) L (zone_used (zs[i := z'] ! j) U') {} \<and>
      coalesced (zs[i := z'] ! j) L) \<and> zend (zs[i := z'] ! j) \<le> 2 ^ 52"
    if j: "j < length zs" for j
  proof (cases "j = i")
    case True
    have "zend (zs ! i) \<le> 2 ^ 52" using inv i by (simp add: zones_inv_def)
    then show ?thesis using True i z' same by auto
  next
    case False
    have eq: "zone_used (zs ! j) U' = zone_used (zs ! j) U"
    proof -
      have "(zbegin (zs ! j) + p, k) \<in> U' \<longleftrightarrow> (zbegin (zs ! j) + p, k) \<in> U"
        if p: "p < zsize (zs ! j)" for p k
      proof -
        have "\<not> (zbegin z' \<le> zbegin (zs ! j) + p \<and> zbegin (zs ! j) + p < zend z')"
          using zones_separate [OF sorted i j] False p unfolding same zsize_def by force
        then show ?thesis using new old by blast
      qed
      then show ?thesis by (auto simp: zone_used_def)
    qed
    then show ?thesis using False inv j unfolding zones_inv_def by (simp add: eq)
  qed
  have mem: "\<exists>w\<in>set (zs[i := z']). zbegin w \<le> f \<and> f < zend w" if "(f, k) \<in> U'" for f k
  proof -
    from new [OF that] show ?thesis
    proof
      assume "(f, k) \<in> U"
      then obtain j where j: "j < length zs" "zbegin (zs ! j) \<le> f" "f < zend (zs ! j)"
        using inv unfolding zones_inv_def by (metis in_set_conv_nth)
      then have "zbegin (zs[i := z'] ! j) \<le> f \<and> f < zend (zs[i := z'] ! j)"
        using same by (cases "j = i") auto
      then show ?thesis using j(1) by (metis length_list_update nth_mem)
    next
      assume "zbegin z' \<le> f \<and> f < zend z'"
      then show ?thesis using i by (meson set_update_memI)
    qed
  qed
  show ?thesis
    unfolding zones_inv_def
  proof (intro conjI ballI)
    show "sorted_wrt (\<lambda>a b. zend a \<le> zbegin b) (zs[i := z'])"
      by (rule sorted_wrt_update [OF sorted i same])
    show "\<forall>f k. (f, k) \<in> U' \<longrightarrow> (\<exists>z\<in>set (zs[i := z']). zbegin z \<le> f \<and> f < zend z)"
      using mem by blast
    fix z assume "z \<in> set (zs[i := z'])"
    then obtain j where "j < length zs" "z = zs[i := z'] ! j"
      by (metis in_set_conv_nth length_list_update)
    then show "\<exists>L. zone_inv z L (zone_used z U') {} \<and> coalesced z L" and "zend z \<le> 2 ^ 52"
      using one by blast+
  qed
qed

subsection \<open>Finding the zone of a frame\<close>

lemma find_zone_from_Some:
  "find_zone_from i zs f = Some j \<Longrightarrow>
     i \<le> j \<and> j < i + length zs \<and> zbegin (zs ! (j - i)) \<le> f \<and> f < zend (zs ! (j - i))"
proof (induction i zs f rule: find_zone_from.induct)
  case (2 i z zs f)
  show ?case
  proof (cases "zbegin z \<le> f \<and> f < zend z")
    case True
    then show ?thesis using 2(2) by auto
  next
    case False
    then have "find_zone_from (Suc i) zs f = Some j" using 2(2) by auto
    then have *: "Suc i \<le> j \<and> j < Suc i + length zs \<and> zbegin (zs ! (j - Suc i)) \<le> f \<and>
        f < zend (zs ! (j - Suc i))"
      using 2(1) False by simp
    then have "j - i = Suc (j - Suc i)" by linarith
    then show ?thesis using * by simp
  qed
qed simp

lemma find_zone_from_None:
  "find_zone_from i zs f = None \<longleftrightarrow> (\<forall>z\<in>set zs. \<not> (zbegin z \<le> f \<and> f < zend z))"
  by (induction i zs f rule: find_zone_from.induct) auto

lemma find_zone_from_iff:
  assumes "sorted_wrt (\<lambda>a b. zend a \<le> zbegin b) zs" and "i < length zs"
    and "zbegin (zs ! i) \<le> f" and "f < zend (zs ! i)"
  shows "find_zone_from 0 zs f = Some i"
proof (cases "find_zone_from 0 zs f")
  case None
  then show ?thesis using assms nth_mem [OF assms(2)] by (auto simp: find_zone_from_None)
next
  case (Some j)
  then have "j < length zs" "zbegin (zs ! j) \<le> f" "f < zend (zs ! j)"
    using find_zone_from_Some [OF Some] by simp_all
  then have "j = i" using zones_separate [OF assms(1) _ assms(2)] assms(3,4) by blast
  then show ?thesis using Some by simp
qed

lemma page_zone_from_own:
  "page_zone_from i zs (j, p) =
     (if i \<le> j \<and> j < i + length zs \<and> p < zsize (zs ! (j - i)) then Some j else None)"
proof (induction zs arbitrary: i)
  case (Cons z zs)
  show ?case
  proof (cases "j = i")
    case True
    then show ?thesis using Cons by (auto simp: zsize_def Let_def)
  next
    case False
    then show ?thesis using Cons [of "Suc i"] by (auto simp: Let_def nth_Cons')
  qed
qed simp

subsection \<open>Allocation\<close>

text \<open>Inside and outside the spinlock: only the zone changes.\<close>

lemma flag_restored:
  "r AND RFLAGS_IF \<noteq> 0 \<Longrightarrow> (r AND NOT RFLAGS_IF) OR RFLAGS_IF = r"
  "r AND RFLAGS_IF = 0 \<Longrightarrow> r AND NOT RFLAGS_IF = r"
  by (cases "bit r 9"; simp add: if_bit mask_unmask and_not_if_idem)+

lemma buddy_alloc_zone_eq:
  "buddy_alloc_zone i order s =
     (let (page, z) = do_buddy_alloc_zone (buddy_zones s ! i) order
      in (page, s\<lparr>buddy_zones := (buddy_zones s)[i := z]\<rparr>))"
  by (cases s) (simp add: buddy_alloc_zone_def spin_lock_int_save_eq spin_unlock_int_restore_eq
      Let_def flag_restored split: prod.split)

lemma buddy_free_zone_eq:
  "buddy_free_zone i page order s =
     s\<lparr>buddy_zones := (buddy_zones s)[i := do_buddy_free_zone (buddy_zones s ! i) page order]\<rparr>"
  by (cases s) (simp add: buddy_free_zone_def spin_lock_int_save_eq spin_unlock_int_restore_eq
      Let_def flag_restored)

lemma do_buddy_alloc_zone_None_same: "do_buddy_alloc_zone z order = (None, z') \<Longrightarrow> z' = z"
  by (auto simp: do_buddy_alloc_zone_def Let_def split: if_splits)

lemma alloc_from_cases:
  assumes "alloc_from is order s = (r, s')"
  shows "case r of
       None \<Rightarrow> s' = s \<and> (\<forall>i\<in>set is. do_buddy_alloc_zone (buddy_zones s ! i) order =
                                    (None, buddy_zones s ! i))
     | Some (i, p) \<Rightarrow> i \<in> set is \<and>
         (\<exists>z'. do_buddy_alloc_zone (buddy_zones s ! i) order = (Some p, z') \<and>
               s' = s\<lparr>buddy_zones := (buddy_zones s)[i := z']\<rparr>)"
  using assms
proof (induction "is" order s rule: alloc_from.induct)
  case (1 order s)
  then show ?case by auto
next
  case (2 i "is" order s)
  obtain page z where run: "do_buddy_alloc_zone (buddy_zones s ! i) order = (page, z)"
    by (cases "do_buddy_alloc_zone (buddy_zones s ! i) order")
  let ?s1 = "s\<lparr>buddy_zones := (buddy_zones s)[i := z]\<rparr>"
  have z: "buddy_alloc_zone i order s = (page, ?s1)" by (simp add: buddy_alloc_zone_eq run)
  show ?case
  proof (cases page)
    case (Some p)
    then show ?thesis using 2(2) z run by auto
  next
    case None
    then have "z = buddy_zones s ! i" using run do_buddy_alloc_zone_None_same by blast
    then have "?s1 = s" by simp
    then have rest: "alloc_from is order s = (r, s')" using 2(2) z None by simp
    have "buddy_alloc_zone i order s = (None, s)" using z None \<open>?s1 = s\<close> by simp
    then show ?thesis
      using 2(1) [OF _ refl None] rest z None run \<open>z = buddy_zones s ! i\<close> \<open>?s1 = s\<close>
      by (auto split: option.splits)
  qed
qed

text \<open>A block that the allocator owns and could hand out for a request of order \<open>k\<close>.\<close>

definition free_run :: "'a buddy_scheme \<Rightarrow> block set \<Rightarrow> nat \<Rightarrow> nat \<Rightarrow> bool" where
  "free_run s U k f \<longleftrightarrow>
     2 ^ k dvd f \<and> (\<exists>z\<in>set (buddy_zones s). zbegin z \<le> f \<and> f + 2 ^ k \<le> zend z) \<and>
     pages_of (f, k) \<inter> \<Union> (pages_of ` U) = {}"

lemma zone_used_insert:
  "p < zsize z \<Longrightarrow> zone_used z (insert (zbegin z + p, k) U) = insert (p, k) (zone_used z U)"
  by (auto simp: zone_used_def)

lemma zone_used_pages:
  assumes "zone_inv z L (zone_used z U) {}" and "(f, j) \<in> U" and "zbegin z \<le> f" and "f < zend z"
  shows "f + 2 ^ j \<le> zend z" and "2 ^ j dvd f"
proof -
  have "(f - zbegin z, j) \<in> zone_used z U"
    using assms by (auto simp: zone_used_def zsize_def)
  then have "f - zbegin z + 2 ^ j \<le> zsize z" and "2 ^ j dvd zbegin z + (f - zbegin z)"
    using tiles_bound [OF zone_inv_tiles [OF assms(1)]]
      tiles_aligned [OF zone_inv_tiles [OF assms(1)]] by blast+
  then show "f + 2 ^ j \<le> zend z" and "2 ^ j dvd f" using assms by (auto simp: zsize_def)
qed

text \<open>Blocks in use are disjoint, inside a zone and across zones.\<close>

lemma buddy_inv_disjoint:
  assumes inv: "buddy_inv s U" and x: "(f, j) \<in> U" and y: "(g, k) \<in> U" and ne: "(f, j) \<noteq> (g, k)"
  shows "pages_of (f, j) \<inter> pages_of (g, k) = {}"
proof (rule ccontr)
  assume "pages_of (f, j) \<inter> pages_of (g, k) \<noteq> {}"
  then obtain e where e: "f \<le> e" "e < f + 2 ^ j" "g \<le> e" "e < g + 2 ^ k" by auto
  let ?zs = "buddy_zones s"
  have zi: "zones_inv ?zs U" using inv by (simp add: buddy_inv_def)
  then have sorted: "sorted_wrt (\<lambda>a b. zend a \<le> zbegin b) ?zs" by (simp add: zones_inv_def)
  obtain a where a: "a < length ?zs" "zbegin (?zs ! a) \<le> f" "f < zend (?zs ! a)"
    using zi x unfolding zones_inv_def by (metis in_set_conv_nth)
  obtain b where b: "b < length ?zs" "zbegin (?zs ! b) \<le> g" "g < zend (?zs ! b)"
    using zi y unfolding zones_inv_def by (metis in_set_conv_nth)
  obtain La where La: "zone_inv (?zs ! a) La (zone_used (?zs ! a) U) {}" using zones_invD [OF zi a(1)] .
  obtain Lb where Lb: "zone_inv (?zs ! b) Lb (zone_used (?zs ! b) U) {}" using zones_invD [OF zi b(1)] .
  have "e < zend (?zs ! a)" "e < zend (?zs ! b)"
    using zone_used_pages(1) [OF La x a(2,3)] zone_used_pages(1) [OF Lb y b(2,3)] e by linarith+
  moreover have "zbegin (?zs ! a) \<le> e" "zbegin (?zs ! b) \<le> e" using a b e by linarith+
  ultimately have ab: "a = b" using zones_separate [OF sorted a(1) b(1)] by blast
  let ?B = "zbegin (?zs ! a)"
  have "(f - ?B, j) \<in> zone_used (?zs ! a) U" "(g - ?B, k) \<in> zone_used (?zs ! a) U"
    using x y a b unfolding ab zone_used_def zsize_def by auto
  moreover have "(f - ?B, j) \<noteq> (g - ?B, k)" using ne a(2) b(2) ab by auto
  ultimately have "pages_of (f - ?B, j) \<inter> pages_of (g - ?B, k) = {}"
    using tiles_disjoint [OF zone_inv_tiles [OF La]] by blast
  moreover have "e - ?B \<in> pages_of (f - ?B, j)" "e - ?B \<in> pages_of (g - ?B, k)"
    using e a(2) b(2) unfolding ab by auto
  ultimately show False by blast
qed

lemma do_buddy_alloc_Some:
  assumes inv: "buddy_inv s U" and run: "do_buddy_alloc order s = (Some (i, p), s')"
  defines "f \<equiv> zbegin (buddy_zones s ! i) + p"
  shows "buddy_inv s' (insert (f, order) U)" and "(f, order) \<notin> U"
    and "i < length (buddy_zones s)" and "p < zsize (buddy_zones s ! i)" and "f < 2 ^ 52"
    and "order \<le> MAX_ORDER" and "2 ^ order dvd f"
    and "\<exists>z'. zbegin z' = zbegin (buddy_zones s ! i) \<and> zend z' = zend (buddy_zones s ! i) \<and>
              s' = s\<lparr>buddy_zones := (buddy_zones s)[i := z']\<rparr>"
proof -
  let ?zs = "buddy_zones s"
  have zi: "zones_inv ?zs U" using inv by (simp add: buddy_inv_def)
  obtain z' where i: "i < length ?zs" and zrun: "do_buddy_alloc_zone (?zs ! i) order = (Some p, z')"
    and s': "s' = s\<lparr>buddy_zones := ?zs[i := z']\<rparr>"
    using alloc_from_cases [OF run [unfolded do_buddy_alloc_def]] by auto
  obtain L where L: "zone_inv (?zs ! i) L (zone_used (?zs ! i) U) {}" "coalesced (?zs ! i) L"
    and z52: "zend (?zs ! i) \<le> 2 ^ 52" and le: "zbegin (?zs ! i) \<le> zend (?zs ! i)"
    using zones_invD [OF zi i] .
  obtain L' where L': "zone_inv z' L' (insert (p, order) (zone_used (?zs ! i) U)) {}" "coalesced z' L'"
    and new: "(p, order) \<notin> zone_used (?zs ! i) U" and o: "order \<le> MAX_ORDER"
    and same: "zbegin z' = zbegin (?zs ! i)" "zend z' = zend (?zs ! i)"
    using do_buddy_alloc_zone_Some [OF L zrun] .
  have used: "zone_used z' U = zone_used (?zs ! i) U" for U
    using same by (simp add: zone_used_def zsize_def)
  have t: "(p, order) \<in> free_blocks L' \<union> insert (p, order) (zone_used (?zs ! i) U) \<union> {}" by blast
  have p: "p < zsize (?zs ! i)"
    using tiles_head_less [OF zone_inv_tiles [OF L'(1)] t] same by (simp add: zsize_def)
  have f: "f < zend (?zs ! i)" using p by (simp add: f_def zsize_def)
  have al: "2 ^ order dvd f"
    using tiles_aligned [OF zone_inv_tiles [OF L'(1)] t] same by (simp add: f_def)
  have "zone_inv z' L' (zone_used z' (insert (f, order) U)) {}"
    using L'(1) p unfolding used f_def by (simp add: zone_used_insert)
  then have "zones_inv (?zs[i := z']) (insert (f, order) U)"
    by (rule zones_inv_update [OF zi i _ L'(2) same]) (use f same in \<open>auto simp: f_def\<close>)
  then show "buddy_inv s' (insert (f, order) U)" by (simp add: buddy_inv_def s')
  show "(f, order) \<notin> U" using new p by (simp add: zone_used_def f_def)
  show "i < length ?zs" by (rule i)
  show "p < zsize (?zs ! i)" by (rule p)
  show "order \<le> MAX_ORDER" by (rule o)
  show "2 ^ order dvd f" by (rule al)
  show "f < 2 ^ 52" using f z52 by simp
  show "\<exists>z'. zbegin z' = zbegin (?zs ! i) \<and> zend z' = zend (?zs ! i) \<and>
      s' = s\<lparr>buddy_zones := ?zs[i := z']\<rparr>"
    using same s' by blast
qed

text \<open>Allocation fails only if no aligned run of that many free pages exists.\<close>

lemma do_buddy_alloc_None:
  assumes inv: "buddy_inv s U" and run: "do_buddy_alloc order s = (None, s')"
  shows "s' = s" and "order \<le> MAX_ORDER \<Longrightarrow> \<not> free_run s U order f"
proof -
  let ?zs = "buddy_zones s"
  have zi: "zones_inv ?zs U" using inv by (simp add: buddy_inv_def)
  note none = alloc_from_cases [OF run [unfolded do_buddy_alloc_def], simplified]
  show "s' = s" using none by blast
  assume o: "order \<le> MAX_ORDER"
  show "\<not> free_run s U order f"
  proof
    assume fr: "free_run s U order f"
    then obtain i where i: "i < length ?zs" "zbegin (?zs ! i) \<le> f" "f + 2 ^ order \<le> zend (?zs ! i)"
      unfolding free_run_def by (metis in_set_conv_nth)
    let ?z = "?zs ! i"
    obtain L where L: "zone_inv ?z L (zone_used ?z U) {}" "coalesced ?z L"
      using zones_invD [OF zi i(1)] .
    have al: "2 ^ order dvd zbegin ?z + (f - zbegin ?z)" using fr i(2) by (simp add: free_run_def)
    have "pages_of (f - zbegin ?z, order) \<subseteq> {..<zsize ?z} - \<Union> (pages_of ` zone_used ?z U)"
    proof
      fix e assume "e \<in> pages_of (f - zbegin ?z, order)"
      then have e: "f - zbegin ?z \<le> e" "e < f - zbegin ?z + 2 ^ order" by simp_all
      have "e \<notin> pages_of (q, j)" if "(q, j) \<in> zone_used ?z U" for q j
      proof
        assume "e \<in> pages_of (q, j)"
        then have "zbegin ?z + e \<in> pages_of (zbegin ?z + q, j)" by simp
        moreover have "zbegin ?z + e \<in> pages_of (f, order)"
          unfolding in_pages_of using e i(2) by linarith
        moreover have "(zbegin ?z + q, j) \<in> U" using that by (simp add: zone_used_def)
        ultimately show False using fr unfolding free_run_def by blast
      qed
      then show "e \<in> {..<zsize ?z} - \<Union> (pages_of ` zone_used ?z U)"
        using e i by (auto simp: zsize_def)
    qed
    then have "pages_of (f - zbegin ?z, order) \<subseteq> \<Union> (pages_of ` free_blocks L)"
      using zone_inv_free_pages [OF L(1)] by simp
    then obtain p j where pj: "(p, j) \<in> free_blocks L" "order \<le> j"
      using free_run_in_block [OF L o al] by blast
    have "do_buddy_alloc_zone ?z order = (None, ?z)" using none i(1) by simp
    then show False using do_buddy_alloc_zone_None(2) [OF L(1) _ pj(1)] pj(2) by fastforce
  qed
qed

subsection \<open>Freeing\<close>

lemma buddy_free_zone_inv:
  assumes inv: "buddy_inv s U" and x: "(f, k) \<in> U"
    and i: "i < length (buddy_zones s)" "zbegin (buddy_zones s ! i) \<le> f" "f < zend (buddy_zones s ! i)"
  shows "buddy_inv (buddy_free_zone i (f - zbegin (buddy_zones s ! i)) k s) (U - {(f, k)})"
    and "\<exists>z'. zbegin z' = zbegin (buddy_zones s ! i) \<and> zend z' = zend (buddy_zones s ! i) \<and>
      buddy_free_zone i (f - zbegin (buddy_zones s ! i)) k s = s\<lparr>buddy_zones := (buddy_zones s)[i := z']\<rparr>"
proof -
  let ?zs = "buddy_zones s"
  let ?z = "?zs ! i" and ?p = "f - zbegin (?zs ! i)"
  let ?z' = "do_buddy_free_zone ?z ?p k"
  have zi: "zones_inv ?zs U" using inv by (simp add: buddy_inv_def)
  obtain L where L: "zone_inv ?z L (zone_used ?z U) {}" "coalesced ?z L"
    using zones_invD [OF zi i(1)] .
  have mem: "(?p, k) \<in> zone_used ?z U" using x i by (auto simp: zone_used_def zsize_def)
  obtain L' where L': "zone_inv ?z' L' (zone_used ?z U - {(?p, k)}) {}" "coalesced ?z' L'"
    and same: "zbegin ?z' = zbegin ?z" "zend ?z' = zend ?z"
    using do_buddy_free_zone_inv [OF L mem] .
  have "zone_used ?z U - {(?p, k)} = zone_used ?z' (U - {(f, k)})"
    using i(2) same by (auto simp: zone_used_def zsize_def)
  then have "zone_inv ?z' L' (zone_used ?z' (U - {(f, k)})) {}" using L'(1) by simp
  then have "zones_inv (?zs[i := ?z']) (U - {(f, k)})"
    by (rule zones_inv_update [OF zi i(1) _ L'(2) same]) (use i same in auto)
  then show "buddy_inv (buddy_free_zone i ?p k s) (U - {(f, k)})"
    by (simp add: buddy_inv_def buddy_free_zone_eq)
  show "\<exists>z'. zbegin z' = zbegin ?z \<and> zend z' = zend ?z \<and>
      buddy_free_zone i ?p k s = s\<lparr>buddy_zones := ?zs[i := z']\<rparr>"
    using same buddy_free_zone_eq by blast
qed

lemma zones_inv_home:
  assumes "zones_inv zs U" and "(f, k) \<in> U"
  obtains i where "i < length zs" and "zbegin (zs ! i) \<le> f" and "f < zend (zs ! i)"
    and "find_zone_from 0 zs f = Some i" and "f < 2 ^ 52"
proof -
  obtain i where i: "i < length zs" "zbegin (zs ! i) \<le> f" "f < zend (zs ! i)"
    using assms unfolding zones_inv_def by (metis in_set_conv_nth)
  have "find_zone_from 0 zs f = Some i"
    by (rule find_zone_from_iff) (use assms(1) i in \<open>auto simp: zones_inv_def\<close>)
  moreover have "zend (zs ! i) \<le> 2 ^ 52" using assms(1) i(1) by (simp add: zones_inv_def)
  then have "f < 2 ^ 52" using i(3) by linarith
  ultimately show thesis using that i by blast
qed

lemma frame_addr:
  assumes "f < 2 ^ 52"
  shows "unat ((of_nat f :: u64) * PAGE_SIZE div PAGE_SIZE) = f"
    and "unat ((of_nat f :: u64) * PAGE_SIZE) = f * 4096"
proof -
  have f: "f * 4096 < 2 ^ 64" using assms by simp
  have "f < 2 ^ 64" using assms by (rule less_trans) simp
  then have "unat (of_nat f :: u64) = f" by (simp add: unat_of_nat take_bit_nat_eq_self)
  then show u: "unat ((of_nat f :: u64) * PAGE_SIZE) = f * 4096"
    using f by (simp add: unat_mult_lem [THEN iffD1] PAGE_SIZE_def)
  then show "unat ((of_nat f :: u64) * PAGE_SIZE div PAGE_SIZE) = f"
    by (simp add: unat_div PAGE_SIZE_def)
qed

lemma update_same_bounds:
  assumes "zbegin z' = zbegin (zs ! i)"
  shows "map zbegin (zs[i := z']) = map zbegin zs"
proof (cases "i < length zs")
  case True
  then have "map zbegin (zs[i := z']) = (map zbegin zs)[i := map zbegin zs ! i]"
    using assms by (simp add: map_update)
  then show ?thesis by simp
next
  case False
  then show ?thesis by (simp add: list_update_beyond)
qed

lemma buddy_free_spec:
  assumes inv: "buddy_inv s U" and x: "(f, k) \<in> U"
  obtains s' where "buddy_free (of_nat f * PAGE_SIZE) k s = Inr s'" and "buddy_inv s' (U - {(f, k)})"
    and "map zbegin (buddy_zones s') = map zbegin (buddy_zones s)"
    and "s' = s\<lparr>buddy_zones := buddy_zones s'\<rparr>"
proof -
  have zi: "zones_inv (buddy_zones s) U" using inv by (simp add: buddy_inv_def)
  obtain i where i: "i < length (buddy_zones s)" "zbegin (buddy_zones s ! i) \<le> f"
      "f < zend (buddy_zones s ! i)" and find: "find_zone_from 0 (buddy_zones s) f = Some i"
    and f: "f < 2 ^ 52"
    using zones_inv_home [OF zi x] .
  let ?s' = "buddy_free_zone i (f - zbegin (buddy_zones s ! i)) k s"
  have "buddy_free (of_nat f * PAGE_SIZE) k s = Inr ?s'"
    by (simp add: buddy_free_def buddy_find_zone_def frame_addr [OF f] find)
  moreover have "map zbegin (buddy_zones ?s') = map zbegin (buddy_zones s)"
    and "?s' = s\<lparr>buddy_zones := buddy_zones ?s'\<rparr>"
    using buddy_free_zone_inv(2) [OF inv x i] by (auto simp: update_same_bounds)
  ultimately show thesis using that buddy_free_zone_inv(1) [OF inv x i] by blast
qed

subsection \<open>The contract of the page allocator\<close>

text \<open>
  Address 0 is the allocator's failure value, so frame 0 must not be free; the boot code removes the
  first megabyte from the free memory.
\<close>

definition zero_reserved :: "'a buddy_scheme \<Rightarrow> block set \<Rightarrow> bool" where
  "zero_reserved s U \<longleftrightarrow> (0 \<in> zbegin ` set (buddy_zones s) \<longrightarrow> (\<exists>k. (0, k) \<in> U))"

definition buddy_ok :: "'a buddy_scheme \<Rightarrow> block set \<Rightarrow> bool" where
  "buddy_ok s U \<longleftrightarrow> buddy_inv s U \<and> zero_reserved s U"

definition frame :: "u64 \<Rightarrow> nat" where
  "frame phys = unat (phys div PAGE_SIZE)"

lemma zero_reserved_cong:
  assumes "map zbegin (buddy_zones s') = map zbegin (buddy_zones s)"
    and "\<And>k. (0, k) \<in> U \<Longrightarrow> (0, k) \<in> U'"
  shows "zero_reserved s U \<Longrightarrow> zero_reserved s' U'"
  using assms by (auto simp: zero_reserved_def simp flip: set_map)

lemma buddy_alloc_spec:
  assumes ok: "buddy_ok s U" and run: "buddy_alloc order s = (phys, s')"
  shows "phys \<noteq> 0 \<Longrightarrow> buddy_ok s' (insert (frame phys, order) U) \<and> (frame phys, order) \<notin> U \<and>
      phys = of_nat (frame phys) * PAGE_SIZE \<and> 2 ^ order dvd frame phys \<and> frame phys < 2 ^ 52 \<and>
      order \<le> MAX_ORDER \<and> s' = s\<lparr>buddy_zones := buddy_zones s'\<rparr>"
    and "phys = 0 \<Longrightarrow> s' = s"
    and "phys = 0 \<Longrightarrow> order \<le> MAX_ORDER \<Longrightarrow> \<not> free_run s U order f"
proof -
  have inv: "buddy_inv s U" and zero: "zero_reserved s U" using ok by (auto simp: buddy_ok_def)
  obtain r where r: "do_buddy_alloc order s = (r, s')"
    using run by (auto simp: buddy_alloc_def do_buddy_alloc_def split: prod.splits option.splits)
  have "(phys \<noteq> 0 \<longrightarrow> buddy_ok s' (insert (frame phys, order) U) \<and> (frame phys, order) \<notin> U \<and>
      phys = of_nat (frame phys) * PAGE_SIZE \<and> 2 ^ order dvd frame phys \<and> frame phys < 2 ^ 52 \<and>
      order \<le> MAX_ORDER \<and> s' = s\<lparr>buddy_zones := buddy_zones s'\<rparr>) \<and>
    (phys = 0 \<longrightarrow> s' = s \<and> (order \<le> MAX_ORDER \<longrightarrow> \<not> free_run s U order f))"
  proof (cases r)
    case None
    then have "phys = 0"
      using run r by (simp add: buddy_alloc_def do_buddy_alloc_def)
    then show ?thesis using do_buddy_alloc_None [OF inv] r None by auto
  next
    case (Some ip)
    obtain i p where ip: "ip = (i, p)" by (cases ip)
    note sp = do_buddy_alloc_Some [OF inv r [unfolded Some ip]]
    let ?f = "zbegin (buddy_zones s ! i) + p"
    obtain z' where z': "zbegin z' = zbegin (buddy_zones s ! i)" "zend z' = zend (buddy_zones s ! i)"
        "s' = s\<lparr>buddy_zones := (buddy_zones s)[i := z']\<rparr>" using sp(8) by blast
    have phys: "phys = of_nat ?f * PAGE_SIZE"
      using run r sp(3) z' unfolding Some ip by (simp add: buddy_alloc_def do_buddy_alloc_def)
    have fr: "frame phys = ?f" unfolding phys frame_def by (rule frame_addr(1) [OF sp(5)])
    have "?f \<noteq> 0"
    proof
      assume f0: "?f = 0"
      then have "0 \<in> zbegin ` set (buddy_zones s)" using sp(3) by (metis add_is_0 image_eqI nth_mem)
      then obtain k where k: "(0, k) \<in> U" using zero by (auto simp: zero_reserved_def)
      then have "k \<noteq> order" using sp(2) f0 by auto
      then have "pages_of (0, k) \<inter> pages_of (0, order) = {}"
        using buddy_inv_disjoint [OF sp(1)] k f0 by auto
      moreover have "0 \<in> pages_of (0, k) \<inter> pages_of (0, order)" by simp
      ultimately show False by blast
    qed
    then have "unat phys \<noteq> 0" unfolding phys frame_addr(2) [OF sp(5)] by simp
    then have ne: "phys \<noteq> 0" by auto
    have "zero_reserved s' (insert (?f, order) U)"
      by (rule zero_reserved_cong [OF _ _ zero])
        (use update_same_bounds z' in auto)
    then have "buddy_ok s' (insert (frame phys, order) U)" using sp(1) fr by (simp add: buddy_ok_def)
    then show ?thesis using ne sp(2,5-7) phys fr z'(3) by simp
  qed
  then show "phys \<noteq> 0 \<Longrightarrow> buddy_ok s' (insert (frame phys, order) U) \<and> (frame phys, order) \<notin> U \<and>
      phys = of_nat (frame phys) * PAGE_SIZE \<and> 2 ^ order dvd frame phys \<and> frame phys < 2 ^ 52 \<and>
      order \<le> MAX_ORDER \<and> s' = s\<lparr>buddy_zones := buddy_zones s'\<rparr>"
    and "phys = 0 \<Longrightarrow> s' = s"
    and "phys = 0 \<Longrightarrow> order \<le> MAX_ORDER \<Longrightarrow> \<not> free_run s U order f"
    by blast+
qed

text \<open>
  \<open>owned s U\<close>: the blocks in use. A successful allocation hands out a block that was not in
  use, a failed one changes nothing, and a block in use can be given back.
\<close>

locale page_allocator =
  fixes owned :: "'s \<Rightarrow> block set \<Rightarrow> bool"
    and alloc :: "nat \<Rightarrow> 's \<Rightarrow> u64 \<times> 's"
    and free :: "u64 \<Rightarrow> nat \<Rightarrow> 's \<Rightarrow> 's result"
  assumes owned_disjoint:
      "owned s U \<Longrightarrow> x \<in> U \<Longrightarrow> y \<in> U \<Longrightarrow> x \<noteq> y \<Longrightarrow> pages_of x \<inter> pages_of y = {}"
    and alloc_success:
      "owned s U \<Longrightarrow> alloc k s = (phys, s') \<Longrightarrow> phys \<noteq> 0 \<Longrightarrow>
        owned s' (insert (frame phys, k) U) \<and> (frame phys, k) \<notin> U \<and>
        phys = of_nat (frame phys) * PAGE_SIZE \<and> frame phys < 2 ^ 52"
    and alloc_failure: "owned s U \<Longrightarrow> alloc k s = (0, s') \<Longrightarrow> s' = s"
    and free_owned:
      "owned s U \<Longrightarrow> (f, k) \<in> U \<Longrightarrow> f \<noteq> 0 \<Longrightarrow>
        \<exists>s'. free (of_nat f * PAGE_SIZE) k s = Inr s' \<and> owned s' (U - {(f, k)})"
begin

lemma alloc_fresh:
  assumes "owned s U" and "alloc k s = (phys, s')" and "phys \<noteq> 0" and "x \<in> U"
  shows "pages_of (frame phys, k) \<inter> pages_of x = {}"
  using alloc_success [OF assms(1-3)] assms(4) owned_disjoint [of s'] by blast

lemma frame_neq_0: "owned s U \<Longrightarrow> alloc k s = (phys, s') \<Longrightarrow> phys \<noteq> 0 \<Longrightarrow> frame phys \<noteq> 0"
  using alloc_success [of s U k phys s'] by (metis mult_zero_left of_nat_0)

text \<open>What is allocated can be given back, and then the same blocks are in use as before.\<close>

lemma alloc_free:
  assumes "owned s U" and "alloc k s = (phys, s')" and "phys \<noteq> 0"
  shows "\<exists>s''. free phys k s' = Inr s'' \<and> owned s'' U"
proof -
  note a = alloc_success [OF assms]
  have "(frame phys, k) \<in> insert (frame phys, k) U" by blast
  then obtain s'' where "free (of_nat (frame phys) * PAGE_SIZE) k s' = Inr s''"
      "owned s'' (insert (frame phys, k) U - {(frame phys, k)})"
    using free_owned [of s'] a frame_neq_0 [OF assms] by blast
  then show ?thesis using a by auto
qed

text \<open>Two allocations in a row never overlap.\<close>

lemma alloc_twice:
  assumes "owned s U" and "alloc j s = (p, s1)" "p \<noteq> 0" and "alloc k s1 = (q, s2)" "q \<noteq> 0"
  shows "pages_of (frame p, j) \<inter> pages_of (frame q, k) = {}" and "p \<noteq> q"
proof -
  note a = alloc_success [OF assms(1-3)]
  show d: "pages_of (frame p, j) \<inter> pages_of (frame q, k) = {}"
    using alloc_fresh [OF _ assms(4,5), of "insert (frame p, j) U" "(frame p, j)"] a by blast
  show "p \<noteq> q"
  proof
    assume "p = q"
    then have "frame p \<in> pages_of (frame p, j) \<inter> pages_of (frame q, k)" by simp
    then show False using d by blast
  qed
qed

end

lemma buddy_free_ok:
  assumes "buddy_ok s U" and "(f, k) \<in> U" and "f \<noteq> 0"
  shows "\<exists>s'. buddy_free (of_nat f * PAGE_SIZE) k s = Inr s' \<and> buddy_ok s' (U - {(f, k)})"
proof -
  obtain s' where s': "buddy_free (of_nat f * PAGE_SIZE) k s = Inr s'" "buddy_inv s' (U - {(f, k)})"
    and same: "map zbegin (buddy_zones s') = map zbegin (buddy_zones s)"
    using buddy_free_spec [of s U f k] assms by (auto simp: buddy_ok_def)
  have "zero_reserved s' (U - {(f, k)})"
    by (rule zero_reserved_cong [OF same]) (use assms in \<open>auto simp: buddy_ok_def\<close>)
  then show ?thesis using s' by (auto simp: buddy_ok_def)
qed

interpretation pages: page_allocator buddy_ok buddy_alloc buddy_free
proof unfold_locales
  fix s :: "'a buddy_scheme" and U x y
  assume "buddy_ok s U" "x \<in> U" "y \<in> U" "x \<noteq> y"
  then show "pages_of x \<inter> pages_of y = {}"
    using buddy_inv_disjoint [of s U] by (cases x, cases y) (auto simp: buddy_ok_def)
qed (use buddy_alloc_spec in blast, use buddy_alloc_spec in blast, rule buddy_free_ok)

subsection \<open>Descriptors\<close>

text \<open>
  The bounds of the zones never change after setup, so a descriptor stays valid and keeps its frame.
\<close>

definition layout :: "'a buddy_scheme \<Rightarrow> (nat \<times> nat) list" where
  "layout s = map (\<lambda>z. (zbegin z, zend z)) (buddy_zones s)"

definition page_frame :: "'a buddy_scheme \<Rightarrow> page_ptr \<Rightarrow> nat" where
  "page_frame s pg = fst (layout s ! fst pg) + snd pg"

definition valid_page :: "'a buddy_scheme \<Rightarrow> page_ptr \<Rightarrow> bool" where
  "valid_page s pg \<longleftrightarrow>
     fst pg < length (layout s) \<and> snd pg < snd (layout s ! fst pg) - fst (layout s ! fst pg)"

lemma layout_update:
  assumes "zbegin z' = zbegin (buddy_zones s ! i)" and "zend z' = zend (buddy_zones s ! i)"
    and "buddy_zones s' = (buddy_zones s)[i := z']"
  shows "layout s' = layout s"
proof (rule nth_equalityI)
  fix j assume "j < length (layout s')"
  then show "layout s' ! j = layout s ! j"
    by (cases "j = i") (use assms in \<open>auto simp: layout_def\<close>)
qed (use assms in \<open>simp add: layout_def\<close>)

lemma page_frame_cong: "layout s' = layout s \<Longrightarrow> page_frame s' pg = page_frame s pg"
  by (simp add: page_frame_def)

lemma valid_page_cong: "layout s' = layout s \<Longrightarrow> valid_page s' pg = valid_page s pg"
  by (simp add: valid_page_def)

lemma buddy_ok_cong: "buddy_zones s' = buddy_zones s \<Longrightarrow> buddy_ok s' U = buddy_ok s U"
  by (simp add: buddy_ok_def buddy_inv_def zero_reserved_def)

text \<open>The frame of a block in use is not 0 when the allocator has handed it out.\<close>

lemma do_buddy_alloc_ok:
  assumes ok: "buddy_ok s U" and run: "do_buddy_alloc order s = (Some pg, s')"
  defines "f \<equiv> page_frame s pg"
  shows "buddy_ok s' (insert (f, order) U)" and "(f, order) \<notin> U" and "f \<noteq> 0" and "f < 2 ^ 52"
    and "2 ^ order dvd f" and "order \<le> MAX_ORDER" and "valid_page s pg" and "layout s' = layout s"
    and "s' = s\<lparr>buddy_zones := buddy_zones s'\<rparr>" and "page_addr pg s' = Inr (of_nat f * PAGE_SIZE)"
proof -
  obtain i p where pg: "pg = (i, p)" by (cases pg)
  have inv: "buddy_inv s U" and zero: "zero_reserved s U" using ok by (auto simp: buddy_ok_def)
  note sp = do_buddy_alloc_Some [OF inv run [unfolded pg]]
  have f: "f = zbegin (buddy_zones s ! i) + p"
    using sp(3) by (simp add: f_def pg page_frame_def layout_def)
  obtain z' where z': "zbegin z' = zbegin (buddy_zones s ! i)" "zend z' = zend (buddy_zones s ! i)"
    "s' = s\<lparr>buddy_zones := (buddy_zones s)[i := z']\<rparr>" using sp(8) by blast
  show lay: "layout s' = layout s" by (rule layout_update [OF z'(1,2)]) (simp add: z'(3))
  have "zero_reserved s' (insert (f, order) U)"
    by (rule zero_reserved_cong [OF _ _ zero])
      (use update_same_bounds [OF z'(1)] z'(3) in auto)
  then show "buddy_ok s' (insert (f, order) U)" using sp(1) f by (simp add: buddy_ok_def)
  show "(f, order) \<notin> U" using sp(2) f by simp
  show "valid_page s pg" using sp(3,4) by (simp add: pg valid_page_def layout_def zsize_def)
  show "s' = s\<lparr>buddy_zones := buddy_zones s'\<rparr>" using z'(3) by simp
  show "f < 2 ^ 52" "2 ^ order dvd f" "order \<le> MAX_ORDER" using sp(5-7) f by simp_all
  show "f \<noteq> 0"
  proof
    assume f0: "f = 0"
    then have "0 \<in> zbegin ` set (buddy_zones s)" using sp(3) f by (metis add_is_0 image_eqI nth_mem)
    then obtain k where k: "(0, k) \<in> U" using zero by (auto simp: zero_reserved_def)
    then have "k \<noteq> order" using sp(2) f f0 by auto
    then have "pages_of (0, k) \<inter> pages_of (0, order) = {}"
      using buddy_inv_disjoint [OF sp(1)] k f0 f by auto
    moreover have "0 \<in> pages_of (0, k) \<inter> pages_of (0, order)" by simp
    ultimately show False by blast
  qed
  have "p < zsize (buddy_zones s' ! i)" "i < length (buddy_zones s')"
    using sp(3,4) z' by (simp_all add: zsize_def)
  then show "page_addr pg s' = Inr (of_nat f * PAGE_SIZE)"
    using sp(3) z' by (simp add: pg page_addr_def page_zone_def page_zone_from_own f)
qed

lemma do_buddy_free_ok:
  assumes ok: "buddy_ok s U" and pg: "valid_page s pg" and mem: "(page_frame s pg, k) \<in> U"
    and ne: "page_frame s pg \<noteq> 0"
  obtains s' where "do_buddy_free pg k s = Inr s'" and "buddy_ok s' (U - {(page_frame s pg, k)})"
    and "layout s' = layout s" and "s' = s\<lparr>buddy_zones := buddy_zones s'\<rparr>"
proof -
  obtain i p where ip: "pg = (i, p)" by (cases pg)
  let ?z = "buddy_zones s ! i" and ?f = "page_frame s pg"
  have inv: "buddy_inv s U" and zero: "zero_reserved s U" using ok by (auto simp: buddy_ok_def)
  have i: "i < length (buddy_zones s)" and p: "p < zsize ?z" and f: "?f = zbegin ?z + p"
    using pg by (auto simp: ip valid_page_def page_frame_def layout_def zsize_def)
  have bounds: "zbegin ?z \<le> ?f" "?f < zend ?z" using p f by (auto simp: zsize_def)
  note fz = buddy_free_zone_inv [OF inv mem i bounds]
  let ?s' = "buddy_free_zone i p k s"
  have "?f - zbegin ?z = p" using f by simp
  then obtain z' where z': "zbegin z' = zbegin ?z" "zend z' = zend ?z"
      "?s' = s\<lparr>buddy_zones := (buddy_zones s)[i := z']\<rparr>"
    and inv': "buddy_inv ?s' (U - {(?f, k)})"
    using fz by auto
  have "do_buddy_free pg k s = Inr ?s'"
    using i p by (simp add: ip do_buddy_free_def page_zone_def page_zone_from_own)
  moreover have "zero_reserved ?s' (U - {(?f, k)})"
    by (rule zero_reserved_cong [OF _ _ zero])
      (use update_same_bounds [OF z'(1)] z'(3) ne in auto)
  moreover have "layout ?s' = layout s" by (rule layout_update [OF z'(1,2)]) (simp add: z'(3))
  moreover have "?s' = s\<lparr>buddy_zones := buddy_zones ?s'\<rparr>" using z'(3) by simp
  ultimately show thesis using that inv' by (simp add: buddy_ok_def)
qed

end
