(* ===== verification/Buddy_Setup.thy ===== *)
theory Buddy_Setup
  imports Buddy_System
begin

text \<open>
  \<open>buddy_setup\<close>: from the boot allocator's range lists to a buddy allocator whose zones
  cover the whole pages of every known range and whose free pages are exactly the whole pages of
  the free ranges, in blocks as large as possible.
\<close>

subsection \<open>Rounding to pages\<close>

definition first_frame :: "balloc_range \<Rightarrow> nat" where
  "first_frame r = (unat (rbegin r) + 4095) div 4096"

definition end_frame :: "balloc_range \<Rightarrow> nat" where
  "end_frame r = unat (rend r) div 4096"

definition whole_frames :: "balloc_range \<Rightarrow> nat set" where
  "whole_frames r = {first_frame r..<end_frame r}"

lemma page_mask: "PAGE_MASK = mask 12"
  by (simp add: PAGE_MASK_def PAGE_SIZE_def mask_eq_exp_minus_1)

lemma unat_page_floor: "unat (page_floor x) = unat x div 4096 * 4096"
  using unat_clear_low [of 12 x] by (simp add: page_floor_def page_mask and.commute)

lemma unat_page_ceil:
  assumes "unat x \<le> 2 ^ 52"
  shows "unat (page_ceil x) = (unat x + 4095) div 4096 * 4096"
proof -
  have "unat (x + 4095) = unat x + 4095"
    using assms by (simp add: unat_word_ariths)
  moreover have "page_ceil x = page_floor (x + 4095)"
    by (simp add: page_ceil_def page_floor_def PAGE_SIZE_def add.commute [of x])
  ultimately show ?thesis by (simp add: unat_page_floor)
qed

lemma unat_div_page: "unat (x div PAGE_SIZE) = unat x div 4096"
  using unat_div [of x PAGE_SIZE] by (simp add: PAGE_SIZE_def)

definition phys_ok :: "balloc_range \<Rightarrow> bool" where
  "phys_ok r \<longleftrightarrow> rbegin r \<le> rend r \<and> unat (rend r) \<le> 2 ^ 52"

lemma range_frames:
  assumes "phys_ok r"
  shows "unat (page_ceil (rbegin r) div PAGE_SIZE) = first_frame r"
    and "unat (page_floor (rend r) div PAGE_SIZE) = end_frame r"
    and "page_ceil (rbegin r) \<ge> page_floor (rend r) \<longleftrightarrow> \<not> first_frame r < end_frame r"
    and "end_frame r \<le> 2 ^ 52"
proof -
  have b: "unat (rbegin r) \<le> 2 ^ 52"
    using assms by (auto simp: phys_ok_def word_le_nat_alt)
  show "unat (page_ceil (rbegin r) div PAGE_SIZE) = first_frame r"
    by (simp add: unat_div_page unat_page_ceil [OF b] first_frame_def)
  show "unat (page_floor (rend r) div PAGE_SIZE) = end_frame r"
    by (simp add: unat_div_page unat_page_floor end_frame_def)
  show "page_ceil (rbegin r) \<ge> page_floor (rend r) \<longleftrightarrow> \<not> first_frame r < end_frame r"
    by (auto simp: word_le_nat_alt unat_page_ceil [OF b] unat_page_floor first_frame_def end_frame_def)
  show "end_frame r \<le> 2 ^ 52"
    using assms by (simp add: phys_ok_def end_frame_def) (meson div_le_dividend order_trans)
qed

text \<open>Between two ranges of a well-formed list lies at least one byte, so at least one frame boundary.\<close>

lemma gap_frames:
  assumes "rend a < rbegin b"
  shows "end_frame a < first_frame b"
proof -
  have "unat (rend a) < unat (rbegin b)" using assms by (simp add: word_less_nat_alt)
  moreover have "unat (rend a) div 4096 * 4096 \<le> unat (rend a)" by simp
  moreover have "unat (rbegin b) \<le> (unat (rbegin b) + 4095) div 4096 * 4096"
    by linarith
  ultimately have "unat (rend a) div 4096 * 4096 < (unat (rbegin b) + 4095) div 4096 * 4096"
    by linarith
  then show ?thesis by (simp add: end_frame_def first_frame_def)
qed

subsection \<open>Creating the zones\<close>

definition singles :: "nat set \<Rightarrow> block set" where
  "singles N = (\<lambda>f. (f, 0)) ` N"

lemma init_orders_dlists:
  "dlists Head {..<i} h (\<lambda>k. []) \<Longrightarrow> dlists Head {..<i + n} (init_orders i n h) (\<lambda>k. [])"
proof (induction i n h rule: init_orders.induct)
  case (2 i n h)
  have "dlists Head (insert i {..<i}) (list_init (Head i) h) ((\<lambda>k. [])(i := []))"
    by (rule dlists_init [OF "2.prems"]) auto
  moreover have "insert i {..<i} = {..<Suc i}" by auto
  moreover have "(\<lambda>k. [])(i := []) = (\<lambda>k. [] :: bnode list)" by auto
  ultimately have "dlists Head {..<Suc i} (list_init (Head i) h) (\<lambda>k. [])" by (simp only:)
  from "2.IH" [OF this] show ?case by simp
qed simp

lemma fresh_zone_inv:
  fixes rl :: "bnode links"
  assumes "b \<le> e" and "\<And>p. \<not> page_free (rp p)"
  defines "z \<equiv> \<lparr>zlinks = init_orders 0 (MAX_ORDER + 1) rl, zbegin = b, zend = e, zpages = rp\<rparr>"
  shows "zone_inv z (\<lambda>k. []) (singles {..<zsize z}) {}" and "coalesced z (\<lambda>k. [])"
proof -
  have "{..<Suc MAX_ORDER} = orders" by auto
  then have "zlists z (\<lambda>k. [])"
    using init_orders_dlists [of 0 rl "MAX_ORDER + 1"]
    by (simp add: zlists_def z_def dlists_def comp_def)
  moreover have "tiles b n (singles {..<n})" for n
    by (auto simp: tiles_def singles_def aligned_def pages_of_def)
  ultimately show "zone_inv z (\<lambda>k. []) (singles {..<zsize z}) {}"
    using assms(1,2) by (auto simp: zone_inv_def free_blocks_def singles_def z_def)
  show "coalesced z (\<lambda>k. [])" by (simp add: coalesced_def free_blocks_def)
qed

lemma frames_simps [simp]:
  "frames [] = {}" "frames (z # zs) = {zbegin z..<zend z} \<union> frames zs"
  "frames (zs @ ws) = frames zs \<union> frames ws"
  by (auto simp: frames_def)

lemma zone_used_singles:
  assumes "{zbegin z..<zend z} \<subseteq> N"
  shows "zone_used z (singles N) = singles {..<zsize z}"
proof -
  have "zbegin z + p \<in> N" if "p < zsize z" for p
    using assms that by (auto simp: zsize_def)
  then show ?thesis by (auto simp: zone_used_def singles_def)
qed

definition all_used :: "zone list \<Rightarrow> bool" where
  "all_used zs \<longleftrightarrow> zones_inv zs (singles (frames zs))"

lemma all_used_snoc:
  assumes all: "all_used zs" and z: "zone_inv z L (singles {..<zsize z}) {}" "coalesced z L"
    and bound: "zend z \<le> 2 ^ 52" and above: "\<forall>w\<in>set zs. zend w \<le> zbegin z"
  shows "all_used (zs @ [z])"
proof -
  let ?N = "frames (zs @ [z])"
  have used: "zone_used w (singles ?N) = singles {..<zsize w}" if "w \<in> set (zs @ [z])" for w
    by (rule zone_used_singles) (use that in \<open>auto simp: frames_def\<close>)
  have old: "zone_used w (singles (frames zs)) = singles {..<zsize w}" if "w \<in> set zs" for w
    by (rule zone_used_singles) (use that in \<open>auto simp: frames_def\<close>)
  have "sorted_wrt (\<lambda>a b. zend a \<le> zbegin b) (zs @ [z])"
    using all above by (simp add: all_used_def zones_inv_def sorted_wrt_append)
  moreover have "\<exists>L. zone_inv w L (zone_used w (singles ?N)) {} \<and> coalesced w L" "zend w \<le> 2 ^ 52"
    if w: "w \<in> set (zs @ [z])" for w
    unfolding used [OF w] using all z bound w unfolding all_used_def zones_inv_def
    by (auto simp: old)
  moreover have "\<exists>w\<in>set (zs @ [z]). zbegin w \<le> f \<and> f < zend w" if "(f, k) \<in> singles ?N" for f k
    using that by (auto simp: singles_def frames_def)
  ultimately show ?thesis unfolding all_used_def zones_inv_def by blast
qed

lemma balloc_alloc_frame:
  assumes "balloc_alloc sz al s = Inr (phys, s')"
  shows "s' = s\<lparr>free_ranges := free_ranges s'\<rparr>"
  using assms
  by (auto simp: balloc_alloc_def do_balloc_alloc_def Let_def and_then_eq_Inr split: if_splits)

lemma buddy_zone_create_spec:
  fixes s :: "'a buddy_scheme"
  assumes run: "buddy_zone_create rl rp (page_ceil (rbegin r)) (page_floor (rend r)) s = Inr s'"
    and r: "phys_ok r" and clear: "\<And>p. \<not> page_free (rp p)"
    and all: "all_used (buddy_zones s)" and above: "\<forall>w\<in>set (buddy_zones s). zend w \<le> first_frame r"
  shows "all_used (buddy_zones s')" and "frames (buddy_zones s') = frames (buddy_zones s) \<union> whole_frames r"
    and "all_ranges s' = all_ranges s"
    and "\<forall>w\<in>set (buddy_zones s'). w \<in> set (buddy_zones s) \<or> zend w = end_frame r"
proof -
  note rf = range_frames [OF r]
  have "all_used (buddy_zones s') \<and> frames (buddy_zones s') = frames (buddy_zones s) \<union> whole_frames r \<and>
    all_ranges s' = all_ranges s \<and>
    (\<forall>w\<in>set (buddy_zones s'). w \<in> set (buddy_zones s) \<or> zend w = end_frame r)"
  proof (cases "first_frame r < end_frame r")
    case False
    then have "page_ceil (rbegin r) \<ge> page_floor (rend r)" using rf(3) by simp
    then have "s' = s" using run by (simp add: buddy_zone_create_def)
    then show ?thesis using all False by (simp add: whole_frames_def)
  next
    case True
    let ?z = "\<lparr>zlinks = init_orders 0 (MAX_ORDER + 1) rl, zbegin = first_frame r,
               zend = end_frame r, zpages = rp\<rparr>"
    obtain sz phys s1 where a: "balloc_alloc sz PAGE_SIZE s = Inr (phys, s1)"
      and s': "s' = s1\<lparr>buddy_zones := buddy_zones s1 @ [?z]\<rparr>"
      using run True rf by (auto simp: buddy_zone_create_def Let_def and_then_eq_Inr split: if_splits)
    have s1: "buddy_zones s1 = buddy_zones s" "all_ranges s1 = all_ranges s"
      by (subst balloc_alloc_frame [OF a], simp)+
    have "first_frame r \<le> end_frame r" using True by simp
    note z = fresh_zone_inv [OF this clear, of rl]
    have "all_used (buddy_zones s @ [?z])"
      by (rule all_used_snoc [OF all z]) (use rf(4) above in simp_all)
    then show ?thesis by (simp add: s' s1 whole_frames_def)
  qed
  then show "all_used (buddy_zones s')"
    and "frames (buddy_zones s') = frames (buddy_zones s) \<union> whole_frames r"
    and "all_ranges s' = all_ranges s"
    and "\<forall>w\<in>set (buddy_zones s'). w \<in> set (buddy_zones s) \<or> zend w = end_frame r"
    by blast+
qed

lemma create_zones_spec:
  fixes s :: "'a buddy_scheme"
  assumes "create_zones rl rp [j..<length (all_ranges s)] s = Inr s'"
    and "ranges_ok (all_ranges s)" and "\<forall>r\<in>set (all_ranges s). phys_ok r"
    and "\<And>i p. \<not> page_free (rp i p)" and "all_used (buddy_zones s)"
    and "j < length (all_ranges s) \<longrightarrow>
         (\<forall>w\<in>set (buddy_zones s). zend w \<le> first_frame (all_ranges s ! j))"
  shows "all_used (buddy_zones s') \<and> all_ranges s' = all_ranges s \<and>
    frames (buddy_zones s') = frames (buddy_zones s) \<union> (\<Union>i\<in>{j..<length (all_ranges s)}. whole_frames (all_ranges s ! i))"
  using assms
proof (induction "length (all_ranges s) - j" arbitrary: j s)
  case 0
  then show ?case by simp
next
  case (Suc m)
  let ?R = "all_ranges s"
  have j: "j < length ?R" using Suc.hyps(2) by simp
  let ?r = "?R ! j"
  have upt: "[j..<length ?R] = j # [Suc j..<length ?R]" using j by (rule upt_conv_Cons)
  obtain s1 where s1: "buddy_zone_create (rl j) (rp j) (page_ceil (rbegin ?r)) (page_floor (rend ?r)) s = Inr s1"
    and rest: "create_zones rl rp [Suc j..<length ?R] s1 = Inr s'"
    using Suc.prems(1) unfolding upt by (auto simp: balloc_get_range_def and_then_eq_Inr Let_def)
  have r: "phys_ok ?r" using Suc.prems(3) j by simp
  note c = buddy_zone_create_spec [OF s1 r Suc.prems(4,5) Suc.prems(6) [THEN mp, OF j]]
  have ranges: "all_ranges s1 = ?R" by (rule c(3))
  have next_above: "\<forall>w\<in>set (buddy_zones s1). zend w \<le> first_frame (?R ! Suc j)" if "Suc j < length ?R"
  proof
    fix w assume w: "w \<in> set (buddy_zones s1)"
    have "rend ?r < rbegin (?R ! Suc j)"
      using Suc.prems(2) that by (auto simp: ranges_ok_def sorted_wrt_iff_nth_less)
    then have gap: "end_frame ?r < first_frame (?R ! Suc j)" by (rule gap_frames)
    have "w \<in> set (buddy_zones s) \<or> zend w = end_frame ?r" using c(4) w by blast
    moreover have "first_frame ?r \<le> end_frame ?r + 1"
      using r by (auto simp: phys_ok_def first_frame_def end_frame_def word_le_nat_alt)
    moreover have "zend w \<le> first_frame ?r" if "w \<in> set (buddy_zones s)"
      using Suc.prems(6) j that by blast
    ultimately show "zend w \<le> first_frame (?R ! Suc j)" using gap by fastforce
  qed
  have "all_used (buddy_zones s') \<and> all_ranges s' = all_ranges s1 \<and>
    frames (buddy_zones s') = frames (buddy_zones s1) \<union>
      (\<Union>i\<in>{Suc j..<length (all_ranges s1)}. whole_frames (all_ranges s1 ! i))"
    by (rule Suc.hyps(1))
      (use Suc.hyps(2) rest Suc.prems c next_above in \<open>simp_all add: ranges\<close>)
  moreover have "{j..<length ?R} = insert j {Suc j..<length ?R}" using j by auto
  ultimately show ?case using c(2) ranges by auto
qed

subsection \<open>Giving the free ranges to the zones\<close>

text \<open>If all pages from just below frame \<open>fb\<close> on are in use, free blocks end below \<open>fb\<close>.\<close>

lemma greedy_below:
  assumes inv: "zone_inv z L (zone_used z U) {}"
    and used: "\<And>f. zbegin z \<le> f \<Longrightarrow> f < zend z \<Longrightarrow> fb \<le> f + 1 \<Longrightarrow> (f, 0) \<in> U"
  shows "greedy (zbegin z) fb fb e L"
  unfolding greedy_def
proof (intro allI impI disjI1)
  fix r j assume x: "(r, j) \<in> free_blocks L"
  note t = zone_inv_tiles [OF inv]
  have xB: "(r, j) \<in> free_blocks L \<union> zone_used z U \<union> {}" using x by blast
  have bound: "r + 2 ^ j \<le> zsize z" by (rule tiles_bound [OF t xB])
  have pos: "(1 :: nat) \<le> 2 ^ j" by simp
  let ?q = "r + 2 ^ j - 1"
  show "zbegin z + r + 2 ^ j < fb"
  proof (rule ccontr)
    assume "\<not> ?thesis"
    then have "fb \<le> zbegin z + ?q + 1" using pos by linarith
    moreover have q: "?q < zsize z" using bound pos by linarith
    ultimately have y: "(?q, 0) \<in> zone_used z U"
      using used [of "zbegin z + ?q"] by (auto simp: zone_used_def zsize_def)
    have q1: "?q \<in> pages_of (r, j)" unfolding in_pages_of using pos by linarith
    have q2: "?q \<in> pages_of (?q, 0)" by simp
    have "(?q, 0) \<in> free_blocks L \<union> zone_used z U \<union> {}" using y by blast
    then have "(r, j) = (?q, 0)" by (rule tiles_unique [OF t xB _ q1 q2])
    then have "(r, j) \<in> zone_used z U" using y by simp
    then show False using x inv by (auto simp: zone_inv_def)
  qed
qed

lemma frames_update:
  assumes "i < length zs" and "zbegin z' = zbegin (zs ! i)" and "zend z' = zend (zs ! i)"
  shows "frames (zs[i := z']) = frames zs"
proof -
  have "map (\<lambda>z. {zbegin z..<zend z}) (zs[i := z']) = map (\<lambda>z. {zbegin z..<zend z}) zs"
    using assms by (intro nth_equalityI) (auto simp: nth_list_update)
  then have "(\<lambda>z. {zbegin z..<zend z}) ` set (zs[i := z']) = (\<lambda>z. {zbegin z..<zend z}) ` set zs"
    by (metis set_map)
  then show ?thesis by (simp add: frames_def)
qed

lemma buddy_zone_free_spec:
  fixes s :: "'a buddy_scheme"
  assumes inv: "buddy_inv s U" and r: "phys_ok r"
    and used: "\<And>f. f \<in> frames (buddy_zones s) \<Longrightarrow> first_frame r \<le> f + 1 \<Longrightarrow> (f, 0) \<in> U"
  shows "\<exists>res. buddy_zone_free (page_ceil (rbegin r)) (page_floor (rend r)) s = Some res \<and>
    (\<forall>s'. res = Inr s' \<longrightarrow>
      buddy_inv s' (U - singles (whole_frames r)) \<and> whole_frames r \<subseteq> frames (buddy_zones s) \<and>
      frames (buddy_zones s') = frames (buddy_zones s) \<and> s' = s\<lparr>buddy_zones := buddy_zones s'\<rparr>)"
proof -
  note rf = range_frames [OF r]
  let ?b = "first_frame r" and ?e = "end_frame r" and ?zs = "buddy_zones s"
  show ?thesis
  proof (cases "?b < ?e")
    case False
    then have "page_ceil (rbegin r) \<ge> page_floor (rend r)" using rf(3) by simp
    moreover have "whole_frames r = {}" using False by (simp add: whole_frames_def)
    ultimately show ?thesis using inv by (simp add: buddy_zone_free_def singles_def)
  next
    case True
    then have lt: "\<not> page_ceil (rbegin r) \<ge> page_floor (rend r)" using rf(3) by simp
    have run: "buddy_zone_free (page_ceil (rbegin r)) (page_floor (rend r)) s =
      (case find_zone_from 0 ?zs ?b of None \<Rightarrow> Some (Inl Hang)
       | Some i \<Rightarrow> if zend (?zs ! i) < ?e then Some (Inl Hang)
           else Option.bind (zone_free_range ?b ?e (?zs ! i))
                  (\<lambda>z'. Some (Inr (s\<lparr>buddy_zones := ?zs[i := z']\<rparr>))))"
      unfolding buddy_zone_free_def buddy_find_zone_def rf(1,2) Let_def using lt by simp
    show ?thesis
    proof (cases "find_zone_from 0 ?zs ?b")
      case None
      then show ?thesis using run by simp
    next
      case (Some i)
      have i: "i < length ?zs" "zbegin (?zs ! i) \<le> ?b" "?b < zend (?zs ! i)"
        using find_zone_from_Some [OF Some] by simp_all
      let ?z = "?zs ! i"
      show ?thesis
      proof (cases "zend ?z < ?e")
        case True
        then show ?thesis using run Some by simp
      next
        case fits: False
        have zi: "zones_inv ?zs U" using inv by (simp add: buddy_inv_def)
        obtain L where L: "zone_inv ?z L (zone_used ?z U) {}" "coalesced ?z L"
          using zones_invD [OF zi i(1)] .
        have sub: "{zbegin ?z..<zend ?z} \<subseteq> frames ?zs"
          using nth_mem [OF i(1)] by (auto simp: frames_def)
        have gr: "greedy (zbegin ?z) ?b ?b ?e L"
          by (rule greedy_below [OF L(1)]) (use used sub in auto)
        have pages: "\<forall>p. ?b \<le> zbegin ?z + p \<and> zbegin ?z + p < ?e \<longrightarrow> (p, 0) \<in> zone_used ?z U"
        proof (intro allI impI)
          fix p assume p: "?b \<le> zbegin ?z + p \<and> zbegin ?z + p < ?e"
          then have "zbegin ?z + p \<in> frames ?zs" using sub fits by auto
          then have "(zbegin ?z + p, 0) \<in> U" using used p by simp
          then show "(p, 0) \<in> zone_used ?z U" using p fits by (auto simp: zone_used_def zsize_def)
        qed
        let ?C = "{(p, 0 :: nat) | p. ?b \<le> zbegin ?z + p \<and> zbegin ?z + p < ?e}"
        obtain z' L' where z': "zone_free_range ?b ?e ?z = Some z'"
          and inv': "zone_inv z' L' (zone_used ?z U - ?C) {}" "coalesced z' L'"
          and same: "zbegin z' = zbegin ?z" "zend z' = zend ?z"
          using zone_free_range_inv [OF L order_refl less_imp_le [OF True] gr i(2) pages] by blast
        have "zone_used ?z U - ?C = zone_used z' (U - singles (whole_frames r))"
          using same by (auto simp: zone_used_def zsize_def singles_def whole_frames_def)
        then have "zone_inv z' L' (zone_used z' (U - singles (whole_frames r))) {}"
          using inv'(1) by simp
        then have "zones_inv (?zs[i := z']) (U - singles (whole_frames r))"
          by (rule zones_inv_update [OF zi i(1) _ inv'(2) same])
            (use same i(2) fits in \<open>auto simp: singles_def whole_frames_def\<close>)
        moreover have "whole_frames r \<subseteq> frames ?zs"
          using sub i(2) fits by (auto simp: whole_frames_def)
        ultimately show ?thesis
          using run Some fits z' frames_update [OF i(1) same] by (simp add: buddy_inv_def)
      qed
    qed
  qed
qed

lemma free_zones_spec:
  fixes s :: "'a buddy_scheme"
  assumes "ranges_ok (free_ranges s)" and "\<forall>r\<in>set (free_ranges s). phys_ok r" and "buddy_inv s U"
    and "j < length (free_ranges s) \<longrightarrow>
      (\<forall>f\<in>frames (buddy_zones s). first_frame (free_ranges s ! j) \<le> f + 1 \<longrightarrow> (f, 0) \<in> U)"
  shows "\<exists>res. free_zones [j..<length (free_ranges s)] s = Some res \<and>
    (\<forall>s'. res = Inr s' \<longrightarrow>
       buddy_inv s' (U - singles (\<Union>i\<in>{j..<length (free_ranges s)}. whole_frames (free_ranges s ! i))) \<and>
       (\<Union>i\<in>{j..<length (free_ranges s)}. whole_frames (free_ranges s ! i)) \<subseteq> frames (buddy_zones s) \<and>
       frames (buddy_zones s') = frames (buddy_zones s) \<and> s' = s\<lparr>buddy_zones := buddy_zones s'\<rparr>)"
  using assms
proof (induction "length (free_ranges s) - j" arbitrary: j s U)
  case 0
  then show ?case by (simp add: singles_def)
next
  case (Suc m)
  let ?R = "free_ranges s"
  have j: "j < length ?R" using Suc.hyps(2) by simp
  let ?r = "?R ! j"
  have upt: "[j..<length ?R] = j # [Suc j..<length ?R]" using j by (rule upt_conv_Cons)
  have split: "{j..<length ?R} = insert j {Suc j..<length ?R}" using j by auto
  have r: "phys_ok ?r" using Suc.prems(2) j by simp
  obtain res where res: "buddy_zone_free (page_ceil (rbegin ?r)) (page_floor (rend ?r)) s = Some res"
    and ok: "\<And>s'. res = Inr s' \<Longrightarrow>
      buddy_inv s' (U - singles (whole_frames ?r)) \<and> whole_frames ?r \<subseteq> frames (buddy_zones s) \<and>
      frames (buddy_zones s') = frames (buddy_zones s) \<and> s' = s\<lparr>buddy_zones := buddy_zones s'\<rparr>"
    using buddy_zone_free_spec [OF Suc.prems(3) r] Suc.prems(4) j by blast
  show ?case
  proof (cases res)
    case (Inl f)
    then show ?thesis using res unfolding upt by (simp add: balloc_get_free_range_def Let_def)
  next
    case (Inr s1)
    note o = ok [OF Inr]
    have s1: "s1 = s\<lparr>buddy_zones := buddy_zones s1\<rparr>" using o by blast
    have R: "free_ranges s1 = ?R" by (subst s1) simp
    let ?U1 = "U - singles (whole_frames ?r)"
    have above: "Suc j < length ?R \<longrightarrow>
      (\<forall>f\<in>frames (buddy_zones s1). first_frame (?R ! Suc j) \<le> f + 1 \<longrightarrow> (f, 0) \<in> ?U1)"
    proof (intro impI ballI)
      fix f assume n: "Suc j < length ?R" and f: "f \<in> frames (buddy_zones s1)"
        and le: "first_frame (?R ! Suc j) \<le> f + 1"
      have "rend ?r < rbegin (?R ! Suc j)"
        using Suc.prems(1) n by (auto simp: ranges_ok_def sorted_wrt_iff_nth_less)
      then have gap: "end_frame ?r < first_frame (?R ! Suc j)" by (rule gap_frames)
      have "first_frame ?r \<le> end_frame ?r + 1"
        using r by (auto simp: phys_ok_def first_frame_def end_frame_def word_le_nat_alt)
      then have "(f, 0) \<in> U" using Suc.prems(4) j f o gap le by auto
      moreover have "f \<notin> whole_frames ?r" using gap le by (auto simp: whole_frames_def)
      ultimately show "(f, 0) \<in> ?U1" by (auto simp: singles_def)
    qed
    have IH: "\<exists>res. free_zones [Suc j..<length (free_ranges s1)] s1 = Some res \<and>
      (\<forall>s'. res = Inr s' \<longrightarrow>
       buddy_inv s' (?U1 - singles (\<Union>i\<in>{Suc j..<length (free_ranges s1)}. whole_frames (free_ranges s1 ! i))) \<and>
       (\<Union>i\<in>{Suc j..<length (free_ranges s1)}. whole_frames (free_ranges s1 ! i)) \<subseteq> frames (buddy_zones s1) \<and>
       frames (buddy_zones s') = frames (buddy_zones s1) \<and> s' = s1\<lparr>buddy_zones := buddy_zones s'\<rparr>)"
      by (rule Suc.hyps(1)) (use Suc.hyps(2) Suc.prems(1,2) o above in \<open>simp_all add: R\<close>)
    then obtain res' where run: "free_zones [Suc j..<length ?R] s1 = Some res'"
      and post: "\<And>s'. res' = Inr s' \<Longrightarrow>
       buddy_inv s' (?U1 - singles (\<Union>i\<in>{Suc j..<length ?R}. whole_frames (?R ! i))) \<and>
       (\<Union>i\<in>{Suc j..<length ?R}. whole_frames (?R ! i)) \<subseteq> frames (buddy_zones s1) \<and>
       frames (buddy_zones s') = frames (buddy_zones s1) \<and> s' = s1\<lparr>buddy_zones := buddy_zones s'\<rparr>"
      unfolding R by blast
    have "free_zones [j..<length ?R] s = Some res'"
      unfolding upt using res Inr run by (simp add: balloc_get_free_range_def Let_def)
    moreover have "?U1 - singles (\<Union>i\<in>{Suc j..<length ?R}. whole_frames (?R ! i)) =
      U - singles (\<Union>i\<in>{j..<length ?R}. whole_frames (?R ! i))"
      unfolding split by (auto simp: singles_def)
    moreover have "s1\<lparr>buddy_zones := x\<rparr> = s\<lparr>buddy_zones := x\<rparr>" for x
      by (subst s1) simp
    ultimately show ?thesis using post o unfolding split by fastforce
  qed
qed

subsection \<open>The whole of \<open>buddy_setup\<close>\<close>

lemma buddy_setup_spec:
  fixes s :: "'a buddy_scheme"
  assumes all: "ranges_ok (all_ranges s)" "\<forall>r\<in>set (all_ranges s). phys_ok r"
    and clear: "\<And>i p. \<not> page_free (rp i p)"
    and created: "create_zones rl rp [0..<length (all_ranges s)] (s\<lparr>buddy_zones := []\<rparr>) = Inr s1"
    and free: "ranges_ok (free_ranges s1)" "\<forall>r\<in>set (free_ranges s1). phys_ok r"
  defines "managed \<equiv> \<Union> (whole_frames ` set (all_ranges s))"
    and "given \<equiv> \<Union> (whole_frames ` set (free_ranges s1))"
  shows "\<exists>res. buddy_setup rl rp s = Some res \<and>
    (\<forall>s'. res = Inr s' \<longrightarrow> buddy_inv s' (singles (managed - given)) \<and> given \<subseteq> managed \<and>
       frames (buddy_zones s') = managed)"
proof -
  let ?s0 = "s\<lparr>buddy_zones := []\<rparr>"
  have "all_used []" by (simp add: all_used_def zones_inv_def singles_def)
  then have c: "all_used (buddy_zones s1) \<and> all_ranges s1 = all_ranges ?s0 \<and>
    frames (buddy_zones s1) = frames (buddy_zones ?s0) \<union>
      (\<Union>i\<in>{0..<length (all_ranges ?s0)}. whole_frames (all_ranges ?s0 ! i))"
    by (intro create_zones_spec [where rl = rl and rp = rp]) (use all clear created in simp_all)
  have nth_union: "(\<Union>i\<in>{0..<length xs}. f (xs ! i)) = \<Union> (f ` set xs)" for f :: "balloc_range \<Rightarrow> nat set" and xs
    by (fastforce simp: set_conv_nth)
  have fr: "frames (buddy_zones s1) = managed" using c by (simp add: nth_union managed_def)
  have inv: "buddy_inv s1 (singles managed)"
    using c unfolding buddy_inv_def all_used_def fr by blast
  have "\<exists>res. free_zones [0..<length (free_ranges s1)] s1 = Some res \<and>
    (\<forall>s'. res = Inr s' \<longrightarrow>
       buddy_inv s' (singles managed - singles (\<Union>i\<in>{0..<length (free_ranges s1)}. whole_frames (free_ranges s1 ! i))) \<and>
       (\<Union>i\<in>{0..<length (free_ranges s1)}. whole_frames (free_ranges s1 ! i)) \<subseteq> frames (buddy_zones s1) \<and>
       frames (buddy_zones s') = frames (buddy_zones s1) \<and> s' = s1\<lparr>buddy_zones := buddy_zones s'\<rparr>)"
    by (rule free_zones_spec [OF free inv]) (simp add: fr singles_def)
  moreover have "singles managed - singles given = singles (managed - given)"
    by (auto simp: singles_def)
  moreover have "buddy_setup rl rp s = free_zones [0..<length (free_ranges s1)] s1"
    using created by (simp add: buddy_setup_def balloc_n_ranges_def balloc_free_ranges_def Let_def)
  ultimately show ?thesis unfolding nth_union fr given_def [symmetric] by auto
qed

end
