(* ===== verification/Buddy_Properties.thy ===== *)
theory Buddy_Properties
  imports Buddy_Setup
begin

text \<open>
  What the kernel may rely on when it calls the buddy allocator, with a concrete allocator state on
  which each statement is applied: one zone of the four frames 4 to 7, of which 4 and 5 are in
  use and 6 and 7 form a free block of order 1.
\<close>

definition sample_raw :: zone where
  "sample_raw = \<lparr>zlinks = init_orders 0 (MAX_ORDER + 1) \<lparr>nxt = id, prv = id\<rparr>, zbegin = 4, zend = 8,
                 zpages = (\<lambda>p. \<lparr>pg_flags = 0, pg_order = 0\<rparr>)\<rparr>"

definition sample_zone :: zone where
  "sample_zone = upd_links (list_add (Pg 2) (Head 1))
     (upd_page 2 page_set_free (upd_page 2 (\<lambda>pg. page_set_order pg 1) sample_raw))"

definition sample :: buddy where
  "sample = \<lparr>rflags = 0, preempt_count = 0, memory = (\<lambda>a. 0), mmap_begin = 0, mmap_end = 0,
             initrd_begin = 0, initrd_end = 0, free_ranges = [], all_ranges = [],
             buddy_zones = [sample_zone]\<rparr>"

definition sample_used :: "block set" where
  "sample_used = {(4, 0), (5, 0)}"

lemma sample_zone_inv:
  "\<exists>L. zone_inv sample_zone L {(0, 0), (1, 0)} {} \<and> coalesced sample_zone L"
proof -
  have clear: "\<not> page_free \<lparr>pg_flags = 0, pg_order = 0\<rparr>" by (simp add: page_free_def)
  have z0: "zone_inv sample_raw (\<lambda>k. []) (singles {..<4}) {}"
    using fresh_zone_inv(1) [of 4 8 "\<lambda>p. \<lparr>pg_flags = 0, pg_order = 0\<rparr>"] clear
    by (simp add: sample_raw_def zsize_def)
  have img: "(\<lambda>i. (i, 0 :: nat)) ` pages_of (2, 1) = {(2, 0), (3, 0)}"
    by (auto simp: pages_of_def)
  have rest: "singles {..<4} - {(2, 0), (3, 0)} = {(0, 0), (1, 0)}"
    by (auto simp: singles_def)
  have "zone_inv sample_raw (\<lambda>k. []) (singles {..<4} - (\<lambda>i. (i, 0)) ` pages_of (2, 1)) {(2, 1)}"
    by (rule zone_fuse [OF z0])
      (auto simp: img singles_def MAX_ORDER_def sample_raw_def)
  then have z1: "zone_inv sample_raw (\<lambda>k. []) {(0, 0), (1, 0)} {(2, 1)}"
    unfolding img rest .
  have "zone_inv (upd_page 2 page_set_free (upd_page 2 (\<lambda>pg. page_set_order pg 1) sample_raw))
      (\<lambda>k. []) {(0, 0), (1, 0)} {(2, 1)}"
    using zone_inv_upd_page zone_hole_head [OF z1] z1 by metis
  from zone_put(1) [OF this]
  have "zone_inv sample_zone ((\<lambda>k. [])(1 := [2])) {(0, 0), (1, 0)} {}"
    by (simp add: sample_zone_def)
  moreover have "coalesced sample_zone ((\<lambda>k. [])(1 := [2]))"
    by (auto simp: coalesced_def free_blocks_def sample_zone_def sample_raw_def split: if_splits)
  ultimately show ?thesis by blast
qed

lemma sample_bounds [simp]: "zbegin sample_zone = 4" "zend sample_zone = 8" "zsize sample_zone = 4"
  by (simp_all add: sample_zone_def sample_raw_def zsize_def)

lemma sample_ok: "buddy_ok sample sample_used"
proof -
  have "zone_used sample_zone sample_used = {(0, 0), (1, 0)}"
    by (auto simp: zone_used_def sample_used_def)
  then show ?thesis
    using sample_zone_inv
    by (auto simp: buddy_ok_def buddy_inv_def zones_inv_def zero_reserved_def sample_def sample_used_def)
qed

lemma sample_alloc: "fst (buddy_alloc 1 sample) \<noteq> 0"
proof
  assume "fst (buddy_alloc 1 sample) = 0"
  then have "\<not> free_run sample sample_used 1 6"
    using buddy_alloc_spec(3) [OF sample_ok] prod.collapse
    by (metis One_nat_def MAX_ORDER_def numeral_One one_le_numeral)
  moreover have "free_run sample sample_used 1 6"
    by (auto simp: free_run_def sample_def sample_used_def pages_of_def)
  ultimately show False by blast
qed

text \<open>
  C4. Soundness of allocation. If the blocks \<open>U\<close> are in use and \<open>buddy_alloc\<close> returns an
  address, then that address is the first byte of a frame aligned to the block size, the block was
  not in use and overlaps none that is, afterwards exactly \<open>U\<close> and the new block are in use, and
  no other part of the kernel state (the interrupt flag and the preemption counter included) has
  changed.
\<close>

theorem buddy_alloc_sound:
  assumes "buddy_ok s U" and "buddy_alloc order s = (phys, s')" and "phys \<noteq> 0"
  shows "buddy_ok s' (insert (frame phys, order) U) \<and>
    (\<forall>x\<in>U. pages_of (frame phys, order) \<inter> pages_of x = {}) \<and>
    phys = of_nat (frame phys) * PAGE_SIZE \<and> 2 ^ order dvd frame phys \<and>
    order \<le> MAX_ORDER \<and> s' = s\<lparr>buddy_zones := buddy_zones s'\<rparr>"
  using buddy_alloc_spec(1) [OF assms] pages.alloc_fresh [OF assms] by blast

theorem buddy_alloc_sound_witness:
  "\<exists>phys s'. buddy_alloc 1 sample = (phys, s') \<and> phys \<noteq> 0 \<and>
     buddy_ok s' (insert (frame phys, 1) sample_used) \<and> 2 dvd frame phys"
proof -
  obtain phys s' where run: "buddy_alloc 1 sample = (phys, s')" by (cases "buddy_alloc 1 sample")
  then have "phys \<noteq> 0" using sample_alloc by simp
  then show ?thesis
    using buddy_alloc_sound [OF sample_ok run] run by auto
qed

text \<open>
  C5. Completeness of allocation. \<open>buddy_alloc\<close> returns 0 for an order up to the maximum only if
  no zone contains an aligned run of that many pages none of which is in use; and then it has
  changed nothing.
\<close>

theorem buddy_alloc_complete:
  assumes "buddy_ok s U" and "buddy_alloc order s = (0, s')" and "order \<le> MAX_ORDER"
  shows "s' = s \<and> (\<forall>f. \<not> free_run s U order f)"
  using buddy_alloc_spec(2,3) [OF assms(1,2)] assms(3) by blast

theorem buddy_alloc_complete_witness:
  "buddy_alloc 2 sample = (0, sample) \<and> \<not> free_run sample sample_used 2 4"
proof -
  obtain phys s' where run: "buddy_alloc 2 sample = (phys, s')" by (cases "buddy_alloc 2 sample")
  have "phys = 0"
  proof (rule ccontr)
    assume ne: "phys \<noteq> 0"
    note a = buddy_alloc_spec(1) [OF sample_ok run ne]
    then have "zones_inv (buddy_zones s') (insert (frame phys, 2) sample_used)"
      by (simp add: buddy_ok_def buddy_inv_def)
    then obtain z where z: "z \<in> set (buddy_zones s')" "zbegin z \<le> frame phys" "frame phys < zend z"
      unfolding zones_inv_def by blast
    obtain r where r: "do_buddy_alloc 2 sample = (r, s')"
      using run by (auto simp: buddy_alloc_def do_buddy_alloc_def split: prod.splits option.splits)
    have "r \<noteq> None"
      using run r ne by (cases r) (auto simp: buddy_alloc_def do_buddy_alloc_def)
    then obtain i p where run': "do_buddy_alloc 2 sample = (Some (i, p), s')" using r by auto
    have inv: "buddy_inv sample sample_used" using sample_ok by (simp add: buddy_ok_def)
    have zs: "buddy_zones sample = [sample_zone]" by (simp add: sample_def)
    have "i = 0" using do_buddy_alloc_Some(3) [OF inv run'] zs by simp
    then obtain z' where "zbegin z' = 4" "zend z' = 8" "s' = sample\<lparr>buddy_zones := [z']\<rparr>"
      using do_buddy_alloc_Some(8) [OF inv run'] unfolding zs by auto
    then have "zbegin z = 4 \<and> zend z = 8" using z(1) by simp
    moreover have "4 dvd frame phys" using a by simp
    ultimately have "frame phys = 4" using z(2,3) by (auto elim!: dvdE)
    then have "pages_of (4, 2) \<inter> pages_of (4, 0) = {}"
      using pages.alloc_fresh [OF sample_ok run ne, of "(4, 0)"] by (simp add: sample_used_def)
    moreover have "4 \<in> pages_of (4, 2) \<inter> pages_of (4, 0)" by simp
    ultimately show False by blast
  qed
  then show ?thesis
    using buddy_alloc_complete [OF sample_ok, of 2 s'] run by (simp add: MAX_ORDER_def)
qed

text \<open>
  C6. Freeing. Giving back a block that is in use, by its address and order, always succeeds
  and leaves exactly the other blocks in use; the invariant says that the freed pages are on the
  free lists again, united with their free buddies.
\<close>

theorem buddy_free_sound:
  assumes "buddy_ok s U" and "(f, k) \<in> U" and "f \<noteq> 0"
  shows "\<exists>s'. buddy_free (of_nat f * PAGE_SIZE) k s = Inr s' \<and> buddy_ok s' (U - {(f, k)})"
  by (rule buddy_free_ok [OF assms])

theorem buddy_free_sound_witness:
  "\<exists>s'. buddy_free (of_nat 4 * PAGE_SIZE) 0 sample = Inr s' \<and> buddy_ok s' {(5, 0)}"
  using buddy_free_sound [OF sample_ok, of 4 0]
  by (auto simp: sample_used_def insert_Diff_if)

text \<open>
  C7. Allocation and freeing are inverse: a block just allocated can be freed with the same order,
  and then the same blocks are in use as before the allocation.
\<close>

theorem buddy_alloc_free_roundtrip:
  assumes "buddy_ok s U" and "buddy_alloc order s = (phys, s')" and "phys \<noteq> 0"
  shows "\<exists>s''. buddy_free phys order s' = Inr s'' \<and> buddy_ok s'' U"
  by (rule pages.alloc_free [OF assms])

theorem buddy_alloc_free_roundtrip_witness:
  "\<exists>phys s' s''. buddy_alloc 1 sample = (phys, s') \<and> buddy_free phys 1 s' = Inr s'' \<and>
     buddy_ok s'' sample_used"
proof -
  obtain phys s' where run: "buddy_alloc 1 sample = (phys, s')" by (cases "buddy_alloc 1 sample")
  then have "phys \<noteq> 0" using sample_alloc by simp
  then show ?thesis using buddy_alloc_free_roundtrip [OF sample_ok run] run by blast
qed

text \<open>
  Physical addresses and page descriptors correspond: for every descriptor of every zone,
  \<open>page_addr\<close> yields an address from which \<open>addr_page\<close> finds the descriptor again.
\<close>

theorem page_addr_roundtrip:
  assumes "buddy_ok s U" and "i < length (buddy_zones s)" and "p < zsize (buddy_zones s ! i)"
  shows "\<exists>a. page_addr (i, p) s = Inr a \<and> addr_page a s = Inr (i, p)"
proof -
  let ?z = "buddy_zones s ! i"
  have inv: "zones_inv (buddy_zones s) U" using assms(1) by (simp add: buddy_ok_def buddy_inv_def)
  then have "zend ?z \<le> 2 ^ 52" using assms(2) by (simp add: zones_inv_def)
  then have f: "zbegin ?z + p < 2 ^ 52" using assms(3) by (simp add: zsize_def)
  have "find_zone_from 0 (buddy_zones s) (zbegin ?z + p) = Some i"
    by (rule find_zone_from_iff) (use inv assms in \<open>auto simp: zones_inv_def zsize_def\<close>)
  then show ?thesis
    using assms(2,3) frame_addr(1) [OF f]
    by (simp add: page_addr_def addr_page_def page_zone_def page_zone_from_own buddy_find_zone_def
        del: of_nat_add)
qed

theorem page_addr_roundtrip_witness:
  "\<exists>a. page_addr (0, 3) sample = Inr a \<and> addr_page a sample = Inr (0, 3)"
  by (rule page_addr_roundtrip [OF sample_ok]) (simp_all add: sample_def)

definition boot_sample :: buddy where
  "boot_sample = sample\<lparr>all_ranges := [\<lparr>rbegin = 0x4000, rend = 0x8000\<rparr>],
                        free_ranges := [\<lparr>rbegin = 0x6000, rend = 0x8000\<rparr>], buddy_zones := []\<rparr>"

definition raw_page :: "nat \<Rightarrow> nat \<Rightarrow> page" where
  "raw_page i p = \<lparr>pg_flags = 0, pg_order = 0\<rparr>"


lemma boot_sample_remove:
  "balloc_remove_range [\<lparr>rbegin = 0x6000, rend = 0x8000\<rparr>] 0x6000 0x61F8 =
     Inr [\<lparr>rbegin = 0x61F8, rend = 0x8000\<rparr>]"
  by code_simp

lemma boot_sample_top: "\<not> UINTPTR_MAX \<le> 0x6000" "UINTPTR_MAX \<noteq> 0x6000"
  by code_simp+

lemma boot_sample_zones:
  "\<exists>z. create_zones (\<lambda>i. \<lparr>nxt = id, prv = id\<rparr>) raw_page [0..<length (all_ranges boot_sample)]
     (boot_sample\<lparr>buddy_zones := []\<rparr>) =
   Inr (boot_sample\<lparr>free_ranges := [\<lparr>rbegin = 0x61F8, rend = 0x8000\<rparr>], buddy_zones := [z]\<rparr>)"
  by (simp add: boot_sample_def sample_def balloc_get_range_def buddy_zone_create_def Let_def
      page_ceil_def page_floor_def PAGE_SIZE_def PAGE_MASK_def sizeof_zone_def sizeof_page_def
      balloc_alloc_def do_balloc_alloc_def balloc_align_up_def balloc_align_down_def
      boot_sample_remove boot_sample_top boot_sample_top(2) [symmetric])


end
