(* ===== verification/Slab.thy ===== *)
theory Slab
  imports Buddy_System
begin

text \<open>
  The object caches (\<open>src/slab.c\<close>, \<open>inc/slab.h\<close>). A cache keeps three lists of slabs
  (full, partially used, unused). A slab is a buddy block that holds an array of objects and, in
  its last bytes, a \<open>struct slab\<close>; the free objects of a slab are chained through their own
  first word in the byte memory.

  Caches are identified by a number. The slab descriptors live in \<open>slab_meta\<close>, indexed by the
  address of the \<open>struct slab\<close>, and their list nodes in \<open>slab_links\<close>: \<open>LHead c k\<close> is
  the head of list \<open>k\<close> of cache \<open>c\<close>, \<open>Slab a\<close> the node of the slab at address
  \<open>a\<close>, and \<open>Shrink\<close> the local list head of \<open>slab_cache_shrink\<close>. Object counts are
  natural numbers, since a slab has less than \<open>2 ^ 32\<close> objects.
\<close>

datatype slab_list = Full | Partial | Empty

datatype snode = LHead nat slab_list | Slab u64 | Shrink

record slab =
  slab_page :: page_ptr
  slab_first :: u64
  slab_count :: nat

record slab_cache =
  slab_order :: nat
  slab_size :: nat
  obj_size :: u64

record slabs = buddy +
  slab_links :: "snode links"
  slab_meta :: "u64 \<Rightarrow> slab"
  caches :: "nat \<Rightarrow> slab_cache"

definition sizeof_list :: u64 where "sizeof_list = 8"
definition sizeof_slab :: u64 where "sizeof_slab = 40"

definition slab_bytes :: "slab_cache \<Rightarrow> u64" where
  "slab_bytes cache = push_bit (slab_order cache) PAGE_SIZE"

definition slab_get_meta :: "slab_cache \<Rightarrow> u64 \<Rightarrow> u64" where
  "slab_get_meta cache virt = virt + slab_bytes cache - sizeof_slab"

subsection \<open>Slabs\<close>

text \<open>The loop that chains all objects: the memory and the head of the chain.\<close>

fun slab_fill :: "nat \<Rightarrow> u64 \<Rightarrow> u64 \<Rightarrow> u64 \<Rightarrow> mem \<Rightarrow> mem \<times> u64" where
  "slab_fill 0 obj ptr head m = (m, head)"
| "slab_fill (Suc n) obj ptr head m = slab_fill n obj (ptr + obj) ptr (store_u64 m ptr head)"

definition slab_create :: "nat \<Rightarrow> 'a slabs_scheme \<Rightarrow> (u64 \<times> 'a slabs_scheme) result" where
  "slab_create c s =
     (let cache = caches s c
      in case do_buddy_alloc (slab_order cache) s of
           (None, s1) \<Rightarrow> Inr (0, s1)
         | (Some page, s1) \<Rightarrow>
             and_then (page_addr page s1) (\<lambda>phys.
               let ptr = va phys;
                   slab = slab_get_meta cache ptr;
                   (m, head) = slab_fill (slab_size cache) (obj_size cache) ptr 0 (memory s1);
                   meta = \<lparr>slab_page = page, slab_first = head, slab_count = slab_size cache\<rparr>
               in Inr (slab, s1\<lparr>memory := m, slab_meta := (slab_meta s1)(slab := meta)\<rparr>)))"

definition slab_destroy :: "nat \<Rightarrow> u64 \<Rightarrow> 'a slabs_scheme \<Rightarrow> 'a slabs_scheme result" where
  "slab_destroy c slab s = do_buddy_free (slab_page (slab_meta s slab)) (slab_order (caches s c)) s"

definition slab_alloc :: "u64 \<Rightarrow> 'a slabs_scheme \<Rightarrow> u64 \<times> 'a slabs_scheme" where
  "slab_alloc slab s =
     (let meta = slab_meta s slab;
          head = slab_first meta;
          meta1 = meta\<lparr>slab_first := load_u64 (memory s) head\<rparr>;
          meta2 = meta1\<lparr>slab_count := slab_count meta1 - 1\<rparr>
      in (head, s\<lparr>slab_meta := (slab_meta s)(slab := meta2)\<rparr>))"

definition slab_free :: "u64 \<Rightarrow> u64 \<Rightarrow> 'a slabs_scheme \<Rightarrow> 'a slabs_scheme" where
  "slab_free slab ptr s =
     (let meta = slab_meta s slab;
          m = store_u64 (memory s) ptr (slab_first meta);
          meta1 = meta\<lparr>slab_first := ptr\<rparr>;
          meta2 = meta1\<lparr>slab_count := slab_count meta1 + 1\<rparr>
      in s\<lparr>memory := m, slab_meta := (slab_meta s)(slab := meta2)\<rparr>)"

subsection \<open>Setting up a cache\<close>

definition slab_align_down :: "u64 \<Rightarrow> u64 \<Rightarrow> u64" where
  "slab_align_down x align = x - x mod align"

definition slab_align_up :: "u64 \<Rightarrow> u64 \<Rightarrow> u64" where
  "slab_align_up x align = slab_align_down (x + align - 1) align"

text \<open>The loop that looks for an order with room for \<open>MAX_ORDER\<close> objects; it yields the order and the bytes.\<close>

function pick_order :: "u64 \<Rightarrow> nat \<Rightarrow> u64 \<Rightarrow> nat \<times> u64" where
  "pick_order obj k bytes =
     (if k \<le> MAX_ORDER then
        let bytes' = push_bit k PAGE_SIZE - sizeof_slab
        in if unat (bytes' div obj) \<ge> MAX_ORDER then (k, bytes')
           else pick_order obj (k + 1) bytes'
      else (k, bytes))"
  by pat_completeness auto
termination
  by (relation "measure (\<lambda>(obj, k, bytes). MAX_ORDER + 1 - k)") auto

declare pick_order.simps [simp del]

definition do_slab_cache_setup ::
    "nat \<Rightarrow> u64 \<Rightarrow> u64 \<Rightarrow> 'a slabs_scheme \<Rightarrow> 'a slabs_scheme result" where
  "do_slab_cache_setup c sz align s =
     (let sz1 = (if sz < sizeof_list then sizeof_list else sz)
      in if sz1 > push_bit MAX_ORDER PAGE_SIZE then Inl Hang
         else let obj = slab_align_up sz1 align;
                  (order, bytes) = pick_order obj 0 0;
                  n = unat (bytes div obj);
                  s1 = spin_setup () s;
                  h = list_init (LHead c Empty) (list_init (LHead c Partial)
                        (list_init (LHead c Full) (slab_links s1)));
                  cache = \<lparr>slab_order = order, slab_size = n, obj_size = obj\<rparr>
              in Inr (s1\<lparr>slab_links := h, caches := (caches s1)(c := cache)\<rparr>))"

definition slab_cache_setup :: "nat \<Rightarrow> u64 \<Rightarrow> 'a slabs_scheme \<Rightarrow> 'a slabs_scheme result" where
  "slab_cache_setup c sz s = do_slab_cache_setup c sz 8 s"

subsection \<open>Allocating and freeing objects\<close>

definition node_slab :: "snode \<Rightarrow> u64" where
  "node_slab n = (case n of Slab a \<Rightarrow> a | _ \<Rightarrow> 0)"

definition upd_slab_links :: "(snode links \<Rightarrow> snode links) \<Rightarrow> 'a slabs_scheme \<Rightarrow> 'a slabs_scheme" where
  "upd_slab_links f s = s\<lparr>slab_links := f (slab_links s)\<rparr>"

text \<open>The slab to allocate from, already unlinked; address 0 if none can be had.\<close>

definition slab_pick :: "nat \<Rightarrow> 'a slabs_scheme \<Rightarrow> (u64 \<times> 'a slabs_scheme) result" where
  "slab_pick c s =
     (let h = slab_links s
      in if \<not> list_empty (LHead c Partial) h then
           let slab = node_slab (nxt h (LHead c Partial))
           in Inr (slab, upd_slab_links (list_del (Slab slab)) s)
         else if \<not> list_empty (LHead c Empty) h then
           let slab = node_slab (nxt h (LHead c Empty))
           in Inr (slab, upd_slab_links (list_del (Slab slab)) s)
         else slab_create c s)"

definition do_slab_cache_alloc :: "nat \<Rightarrow> 'a slabs_scheme \<Rightarrow> (u64 \<times> 'a slabs_scheme) result" where
  "do_slab_cache_alloc c s =
     and_then (slab_pick c s) (\<lambda>(slab, s1).
       if slab = 0 then Inr (0, s1)
       else let (ptr, s2) = slab_alloc slab s1
            in Inr (ptr, upd_slab_links
                 (list_add (Slab slab)
                    (if slab_count (slab_meta s2 slab) \<noteq> 0 then LHead c Partial else LHead c Full)) s2))"

definition slab_cache_alloc :: "nat \<Rightarrow> 'a slabs_scheme \<Rightarrow> (u64 \<times> 'a slabs_scheme) result" where
  "slab_cache_alloc c s =
     (let (enabled, s1) = spin_lock_int_save () s
      in and_then (do_slab_cache_alloc c s1)
           (\<lambda>(ptr, s2). Inr (ptr, spin_unlock_int_restore () enabled s2)))"

definition do_slab_cache_free :: "nat \<Rightarrow> u64 \<Rightarrow> 'a slabs_scheme \<Rightarrow> 'a slabs_scheme" where
  "do_slab_cache_free c ptr s =
     (let cache = caches s c;
          addr = NOT (slab_bytes cache - 1) AND ptr;
          slab = slab_get_meta cache addr;
          s1 = upd_slab_links (list_del (Slab slab)) s;
          s2 = slab_free slab ptr s1
      in upd_slab_links
           (list_add (Slab slab)
              (if slab_count (slab_meta s2 slab) = slab_size cache then LHead c Empty
               else LHead c Partial)) s2)"

definition slab_cache_free :: "nat \<Rightarrow> u64 \<Rightarrow> 'a slabs_scheme \<Rightarrow> 'a slabs_scheme" where
  "slab_cache_free c ptr s =
     (let (enabled, s1) = spin_lock_int_save () s
      in spin_unlock_int_restore () enabled (do_slab_cache_free c ptr s1))"

subsection \<open>Giving unused slabs back\<close>

partial_function (option) destroy_loop ::
    "nat \<Rightarrow> snode \<Rightarrow> 'a slabs_scheme \<Rightarrow> 'a slabs_scheme result option" where
  "destroy_loop c ptr s =
     (if ptr = Shrink then Some (Inr s)
      else let slab = node_slab ptr; next = nxt (slab_links s) ptr
           in case slab_destroy c slab s of
                Inl f \<Rightarrow> Some (Inl f)
              | Inr s1 \<Rightarrow> destroy_loop c next s1)"

definition slab_cache_shrink :: "nat \<Rightarrow> 'a slabs_scheme \<Rightarrow> 'a slabs_scheme result option" where
  "slab_cache_shrink c s =
     (let (enabled, s1) = spin_lock_int_save () s;
          s2 = upd_slab_links (list_init Shrink) s1;
          s3 = upd_slab_links (list_splice (LHead c Empty) Shrink) s2;
          s4 = spin_unlock_int_restore () enabled s3
      in destroy_loop c (nxt (slab_links s4) Shrink) s4)"

definition slab_cache_release :: "nat \<Rightarrow> 'a slabs_scheme \<Rightarrow> 'a slabs_scheme result option" where
  "slab_cache_release c s =
     (if \<not> list_empty (LHead c Full) (slab_links s) \<or> \<not> list_empty (LHead c Partial) (slab_links s)
      then Some (Inl Hang)
      else slab_cache_shrink c s)"

end
