(* ===== verification/Slab_Inv.thy ===== *)
theory Slab_Inv
  imports Slab
begin

text \<open>
  The invariant of the object caches. \<open>S\<close> is the set of slabs in existence (with their
  caches), \<open>H\<close> the slab an operation has in hand, \<open>L (c, k)\<close> the slabs on list \<open>k\<close>
  of cache \<open>c\<close>, \<open>FL a\<close> the chain of free objects of slab \<open>a\<close> and \<open>V\<close> the
  buddy blocks in use by others. Every operation is a sequence of the steps \<open>slab_take\<close>,
  \<open>slab_made\<close>, \<open>slab_work\<close> and \<open>slab_put\<close>.
\<close>

subsection \<open>Addresses\<close>

lemma span_unat:
  assumes "unat a + n \<le> 2 ^ 64"
  shows "x \<in> span a n \<longleftrightarrow> unat a \<le> unat x \<and> unat x < unat a + n"
proof
  assume "x \<in> span a n"
  then obtain i where i: "i < n" "x = a + of_nat i" by (auto simp: span_iff)
  then have "i < 2 ^ 64" using assms by linarith
  then have "unat (of_nat i :: u64) = i" by (simp add: unat_of_nat take_bit_nat_eq_self)
  then have "unat x = unat a + i" using i assms by (simp add: unat_word_ariths)
  then show "unat a \<le> unat x \<and> unat x < unat a + n" using i by simp
next
  assume x: "unat a \<le> unat x \<and> unat x < unat a + n"
  have "x = a + of_nat (unat x - unat a)"
    using x by (simp add: of_nat_diff)
  then show "x \<in> span a n" using x by (auto simp: span_iff intro!: exI [of _ "unat x - unat a"])
qed

lemma spans_apart:
  assumes "unat a + m \<le> unat b" and "unat b + n \<le> 2 ^ 64"
  shows "span a m \<inter> span b n = {}"
  using assms by (auto simp: span_unat)

abbreviation KB :: nat where "KB \<equiv> 0xffff800000000000"

definition block_base :: "nat \<Rightarrow> u64" where
  "block_base f = va (of_nat f * PAGE_SIZE)"

lemma unat_block_base:
  assumes "f * 4096 < 2 ^ 47"
  shows "unat (block_base f) = f * 4096 + KB"
proof -
  have "f < 2 ^ 52" using assms by simp
  from frame_addr(2) [OF this] show ?thesis
    using assms by (simp add: block_base_def va_def HIGHER_BASE_def unat_word_ariths)
qed

lemma unat_slab_bytes:
  assumes "slab_order cache \<le> MAX_ORDER"
  shows "unat (slab_bytes cache) = 2 ^ (12 + slab_order cache)"
proof -
  have "(2 :: nat) ^ (12 + slab_order cache) \<le> 2 ^ 32"
    by (rule power_increasing) (use assms in \<open>simp_all add: MAX_ORDER_def\<close>)
  then have "(2 :: nat) ^ (12 + slab_order cache) < 2 ^ 64" by simp
  then have "unat (of_nat (2 ^ (12 + slab_order cache)) :: u64) = 2 ^ (12 + slab_order cache)"
    by (rule unat_of_nat_u64)
  moreover have "slab_bytes cache = of_nat (2 ^ (12 + slab_order cache))"
    by (simp add: slab_bytes_def PAGE_SIZE_def push_bit_eq_mult power_add)
  ultimately show ?thesis by simp
qed

subsection \<open>The objects of a slab\<close>

text \<open>A slab's objects; what the configuration of a cache guarantees if slabs can exist at all.\<close>

definition cells :: "slab_cache \<Rightarrow> nat \<Rightarrow> u64 set" where
  "cells cache f = (\<lambda>i. block_base f + of_nat i * obj_size cache) ` {..<slab_size cache}"

definition cache_ok :: "slab_cache \<Rightarrow> bool" where
  "cache_ok cache \<longleftrightarrow> (slab_order cache \<le> MAX_ORDER \<longrightarrow>
     8 \<le> unat (obj_size cache) \<and> 0 < slab_size cache \<and>
     slab_size cache * unat (obj_size cache) + 40 \<le> 2 ^ (12 + slab_order cache))"

definition fits :: "slab_cache \<Rightarrow> nat \<Rightarrow> bool" where
  "fits cache f \<longleftrightarrow> slab_order cache \<le> MAX_ORDER \<and> f * 4096 + 2 ^ (12 + slab_order cache) \<le> 2 ^ 47"

abbreviation block_first :: "nat \<Rightarrow> nat" where "block_first f \<equiv> f * 4096 + KB"
abbreviation block_end :: "slab_cache \<Rightarrow> nat \<Rightarrow> nat" where
  "block_end cache f \<equiv> f * 4096 + KB + 2 ^ (12 + slab_order cache)"

lemma cell_addr:
  assumes ok: "cache_ok cache" and f: "fits cache f" and i: "i < slab_size cache"
  defines "x \<equiv> block_base f + of_nat i * obj_size cache"
  shows "unat x = block_first f + i * unat (obj_size cache)"
    and "unat x + unat (obj_size cache) + 40 \<le> block_end cache f"
proof -
  let ?o = "unat (obj_size cache)" and ?B = "2 ^ (12 + slab_order cache) :: nat"
  have size: "slab_size cache * ?o + 40 \<le> ?B" using ok f by (simp add: cache_ok_def fits_def)
  have io: "i * ?o + ?o \<le> slab_size cache * ?o"
    using mult_le_mono1 [of "Suc i" "slab_size cache" ?o] i by simp
  have end': "f * 4096 + ?B \<le> 2 ^ 47" using f by (simp add: fits_def)
  then have base: "unat (block_base f) = f * 4096 + KB"
    using size by (intro unat_block_base) linarith
  have "(2 :: nat) ^ 47 < 2 ^ 64" by simp
  then have small: "i * ?o < 2 ^ 64" using io size end' by linarith
  have "i < 2 ^ 64"
  proof -
    have "0 < ?o" using ok f by (auto simp: cache_ok_def fits_def)
    then have "i \<le> i * ?o" by simp
    then show ?thesis using small by linarith
  qed
  then have "unat (of_nat i :: u64) = i" by (simp add: unat_of_nat take_bit_nat_eq_self)
  then have "unat (of_nat i * obj_size cache) = i * ?o"
    using small by (simp add: unat_mult_lem [THEN iffD1])
  then show x: "unat x = block_first f + i * ?o"
    using base io size end' unfolding x_def by (simp add: unat_word_ariths)
  show "unat x + ?o + 40 \<le> block_end cache f"
    unfolding x using io size by linarith
qed

lemma cells_bounds:
  assumes "cache_ok cache" and "fits cache f" and "x \<in> cells cache f"
  shows "block_first f \<le> unat x" and "unat x + unat (obj_size cache) + 40 \<le> block_end cache f"
    and "8 \<le> unat (obj_size cache)" and "x \<noteq> 0" and "block_end cache f \<le> 2 ^ 64"
proof -
  obtain i where i: "i < slab_size cache" "x = block_base f + of_nat i * obj_size cache"
    using assms(3) by (auto simp: cells_def)
  note a = cell_addr [OF assms(1,2) i(1)]
  show "block_first f \<le> unat x" using a(1) unfolding i(2) by linarith
  show "unat x + unat (obj_size cache) + 40 \<le> block_end cache f" using a(2) unfolding i(2) .
  show "8 \<le> unat (obj_size cache)" using assms by (simp add: cache_ok_def fits_def)
  have "0 < unat x" using a(1) unfolding i(2) by linarith
  then show "x \<noteq> 0" by auto
  show "block_end cache f \<le> 2 ^ 64" using assms(2) by (simp add: fits_def)
qed

text \<open>Two objects of one slab do not overlap, nor do objects in disjoint blocks.\<close>

lemma cells_disjoint:
  assumes "cache_ok cache" and "fits cache f" and "x \<in> cells cache f" and "y \<in> cells cache f" and "x \<noteq> y"
  shows "unat x + unat (obj_size cache) \<le> unat y \<or> unat y + unat (obj_size cache) \<le> unat x"
proof -
  let ?o = "unat (obj_size cache)"
  obtain i where i: "i < slab_size cache" "x = block_base f + of_nat i * obj_size cache"
    using assms(3) by (auto simp: cells_def)
  obtain j where j: "j < slab_size cache" "y = block_base f + of_nat j * obj_size cache"
    using assms(4) by (auto simp: cells_def)
  have u: "unat x = block_first f + i * ?o" "unat y = block_first f + j * ?o"
    using cell_addr(1) [OF assms(1,2) i(1)] cell_addr(1) [OF assms(1,2) j(1)] i(2) j(2) by simp_all
  have "i \<noteq> j" using assms(5) i j by auto
  then consider "Suc i \<le> j" | "Suc j \<le> i" by linarith
  then show ?thesis
  proof cases
    case 1
    from mult_le_mono1 [OF this, of ?o] show ?thesis using u by simp
  next
    case 2
    from mult_le_mono1 [OF this, of ?o] show ?thesis using u by simp
  qed
qed

lemma cells_inj:
  assumes "cache_ok cache" and "fits cache f"
  shows "inj_on (\<lambda>i. block_base f + of_nat i * obj_size cache) {..<slab_size cache}"
proof (rule inj_onI)
  fix i j
  assume i: "i \<in> {..<slab_size cache}" and j: "j \<in> {..<slab_size cache}"
    and eq: "block_base f + of_nat i * obj_size cache = block_base f + of_nat j * obj_size cache"
  have "block_first f + i * unat (obj_size cache) = block_first f + j * unat (obj_size cache)"
    using cell_addr(1) [OF assms, of i] cell_addr(1) [OF assms, of j] i j unfolding eq
    by (metis lessThan_iff)
  then have "i * unat (obj_size cache) = j * unat (obj_size cache)" by simp
  moreover have "0 < unat (obj_size cache)" using assms by (auto simp: cache_ok_def fits_def)
  ultimately show "i = j" by simp
qed

lemma blocks_apart:
  assumes "pages_of (f, k) \<inter> pages_of (g, j) = {}"
  shows "f * 4096 + 2 ^ (12 + k) \<le> g * 4096 \<or> g * 4096 + 2 ^ (12 + j) \<le> f * 4096"
proof -
  have "f + 2 ^ k \<le> g \<or> g + 2 ^ j \<le> f"
  proof (rule ccontr)
    assume "\<not> ?thesis"
    then have "max f g \<in> pages_of (f, k) \<inter> pages_of (g, j)" by auto
    then show False using assms by blast
  qed
  then have "(f + 2 ^ k) * 4096 \<le> g * 4096 \<or> (g + 2 ^ j) * 4096 \<le> f * 4096"
    by (meson mult_le_mono1)
  moreover have "(2 :: nat) ^ (12 + n) = 2 ^ n * 4096" for n by (simp add: power_add)
  ultimately show ?thesis by (simp add: distrib_right)
qed

subsection \<open>The chain of free objects\<close>

fun chain :: "mem \<Rightarrow> u64 \<Rightarrow> u64 list \<Rightarrow> bool" where
  "chain m a [] \<longleftrightarrow> a = 0"
| "chain m a (x # xs) \<longleftrightarrow> a = x \<and> x \<noteq> 0 \<and> chain m (load_u64 m x) xs"

lemma chain_cong:
  "(\<And>x. x \<in> set xs \<Longrightarrow> load_u64 m' x = load_u64 m x) \<Longrightarrow> chain m' a xs \<longleftrightarrow> chain m a xs"
  by (induction xs arbitrary: a) auto

lemma chain_push:
  assumes "chain m a xs" and "x \<noteq> 0" and "\<And>y. y \<in> set xs \<Longrightarrow> span x 8 \<inter> span y 8 = {}"
  shows "chain (store_u64 m x a) x (x # xs)"
  using assms chain_cong [of xs "store_u64 m x a" m a]
  by (simp add: load_store_u64 load_store_u64_other)

lemma store_u64_other: "y \<notin> span x 8 \<Longrightarrow> store_u64 m x v y = m y"
  by (simp add: store_u64_def store_le_other)

lemma load_u64_cong: "(\<And>y. y \<in> span x 8 \<Longrightarrow> m' y = m y) \<Longrightarrow> load_u64 m' x = load_u64 m x"
  unfolding load_u64_def by (metis load_le_cong)

lemma slab_fill_chain:
  assumes "chain m head hs"
    and "\<And>i. i < n \<Longrightarrow> ptr + of_nat i * obj \<noteq> 0"
    and "\<And>i j. i < n \<Longrightarrow> j < n \<Longrightarrow> i \<noteq> j \<Longrightarrow> span (ptr + of_nat i * obj) 8 \<inter> span (ptr + of_nat j * obj) 8 = {}"
    and "\<And>i y. i < n \<Longrightarrow> y \<in> set hs \<Longrightarrow> span (ptr + of_nat i * obj) 8 \<inter> span y 8 = {}"
    and "slab_fill n obj ptr head m = (m', head')"
  shows "chain m' head' (rev (map (\<lambda>i. ptr + of_nat i * obj) [0..<n]) @ hs)"
    and "\<And>y. (\<And>i. i < n \<Longrightarrow> y \<notin> span (ptr + of_nat i * obj) 8) \<Longrightarrow> m' y = m y"
proof -
  have "chain m' head' (rev (map (\<lambda>i. ptr + of_nat i * obj) [0..<n]) @ hs) \<and>
    (\<forall>y. (\<forall>i<n. y \<notin> span (ptr + of_nat i * obj) 8) \<longrightarrow> m' y = m y)"
    using assms
  proof (induction n arbitrary: ptr head m hs)
    case 0
    then show ?case by simp
  next
    case (Suc n)
    let ?m = "store_u64 m ptr head"
    have shift: "ptr + obj + of_nat i * obj = ptr + of_nat (Suc i) * obj" for i
      by (simp add: algebra_simps)
    have first: "span ptr 8 \<inter> span y 8 = {}" if "y \<in> set hs" for y
      using Suc.prems(4) [of 0 y] that by simp
    have ne: "ptr \<noteq> 0" using Suc.prems(2) [of 0] by simp
    have c: "chain ?m ptr (ptr # hs)" by (rule chain_push [OF Suc.prems(1) ne first])
    have nz: "ptr + obj + of_nat i * obj \<noteq> 0" if "i < n" for i
      using Suc.prems(2) [of "Suc i"] that unfolding shift by simp
    have dj: "span (ptr + obj + of_nat i * obj) 8 \<inter> span (ptr + obj + of_nat j * obj) 8 = {}"
      if "i < n" "j < n" "i \<noteq> j" for i j
      using Suc.prems(3) [of "Suc i" "Suc j"] that unfolding shift by simp
    have dh: "span (ptr + obj + of_nat i * obj) 8 \<inter> span y 8 = {}"
      if i: "i < n" and y: "y \<in> set (ptr # hs)" for i y
    proof -
      consider "y = ptr" | "y \<in> set hs" using y by auto
      then show ?thesis
      proof cases
        case 1
        then show ?thesis using Suc.prems(3) [of "Suc i" 0] i unfolding shift by simp
      next
        case 2
        then show ?thesis using Suc.prems(4) [of "Suc i" y] i unfolding shift by simp
      qed
    qed
    have run: "slab_fill n obj (ptr + obj) ptr ?m = (m', head')" using Suc.prems(5) by simp
    from Suc.IH [OF c nz dj dh run]
    have IH: "chain m' head' (rev (map (\<lambda>i. ptr + of_nat (Suc i) * obj) [0..<n]) @ ptr # hs)"
      and rest: "\<forall>y. (\<forall>i<n. y \<notin> span (ptr + of_nat (Suc i) * obj) 8) \<longrightarrow> m' y = ?m y"
      unfolding shift by blast+
    have upt: "map (\<lambda>i. ptr + of_nat i * obj) [0..<Suc n] =
        ptr # map (\<lambda>i. ptr + of_nat (Suc i) * obj) [0..<n]"
      by (simp only: upt_conv_Cons zero_less_Suc map_Suc_upt [symmetric] list.map map_map comp_def) simp
    have "m' y = m y" if y: "\<forall>i<Suc n. y \<notin> span (ptr + of_nat i * obj) 8" for y
    proof -
      have "y \<notin> span ptr 8" using y by (auto dest: spec [of _ 0])
      moreover have "\<forall>i<n. y \<notin> span (ptr + of_nat (Suc i) * obj) 8" using y by blast
      ultimately show ?thesis using rest by (simp add: store_u64_other)
    qed
    moreover have "chain m' head' (rev (map (\<lambda>i. ptr + of_nat i * obj) [0..<Suc n]) @ hs)"
      unfolding upt using IH by simp
    ultimately show ?case by blast
  qed
  then show "chain m' head' (rev (map (\<lambda>i. ptr + of_nat i * obj) [0..<n]) @ hs)"
    and "\<And>y. (\<And>i. i < n \<Longrightarrow> y \<notin> span (ptr + of_nat i * obj) 8) \<Longrightarrow> m' y = m y"
    by blast+
qed

subsection \<open>The invariant\<close>

definition slab_frame :: "'a slabs_scheme \<Rightarrow> u64 \<Rightarrow> nat" where
  "slab_frame s a = page_frame s (slab_page (slab_meta s a))"

definition slab_cells :: "'a slabs_scheme \<Rightarrow> nat \<Rightarrow> u64 \<Rightarrow> u64 set" where
  "slab_cells s c a = cells (caches s c) (slab_frame s a)"

definition slab_ok :: "'a slabs_scheme \<Rightarrow> nat \<Rightarrow> u64 \<Rightarrow> u64 list \<Rightarrow> bool" where
  "slab_ok s c a fs \<longleftrightarrow>
     valid_page s (slab_page (slab_meta s a)) \<and> slab_frame s a \<noteq> 0 \<and>
     fits (caches s c) (slab_frame s a) \<and> 2 ^ slab_order (caches s c) dvd slab_frame s a \<and>
     a = slab_get_meta (caches s c) (block_base (slab_frame s a)) \<and>
     chain (memory s) (slab_first (slab_meta s a)) fs \<and> distinct fs \<and> set fs \<subseteq> slab_cells s c a \<and>
     slab_count (slab_meta s a) = length fs"

fun kind_ok :: "slab_list \<Rightarrow> nat \<Rightarrow> nat \<Rightarrow> bool" where
  "kind_ok Full n sz \<longleftrightarrow> n = 0"
| "kind_ok Partial n sz \<longleftrightarrow> 0 < n \<and> n < sz"
| "kind_ok Empty n sz \<longleftrightarrow> n = sz"

definition slab_hdr :: "nat \<times> slab_list \<Rightarrow> snode" where
  "slab_hdr k = LHead (fst k) (snd k)"

definition slab_set :: "nat set \<Rightarrow> (nat \<times> slab_list \<Rightarrow> u64 list) \<Rightarrow> (nat \<times> u64) set \<Rightarrow> (nat \<times> u64) set" where
  "slab_set C L H = {(c, a). c \<in> C \<and> (\<exists>k. a \<in> set (L (c, k)))} \<union> H"

definition slab_blocks :: "'a slabs_scheme \<Rightarrow> (nat \<times> u64) set \<Rightarrow> block set" where
  "slab_blocks s S = (\<lambda>(c, a). (slab_frame s a, slab_order (caches s c))) ` S"

definition phys_small :: "'a buddy_scheme \<Rightarrow> bool" where
  "phys_small s \<longleftrightarrow> (\<forall>x\<in>set (layout s). snd x \<le> 2 ^ 35)"

abbreviation slab_keys :: "nat set \<Rightarrow> (nat \<times> slab_list) set" where
  "slab_keys C \<equiv> C \<times> UNIV"

definition slab_lists :: "'a slabs_scheme \<Rightarrow> nat set \<Rightarrow> (nat \<times> slab_list \<Rightarrow> u64 list) \<Rightarrow> bool" where
  "slab_lists s C L \<longleftrightarrow> dlists slab_hdr (slab_keys C) (slab_links s) (map Slab \<circ> L)"

definition slabs_inv ::
    "'a slabs_scheme \<Rightarrow> nat set \<Rightarrow> block set \<Rightarrow> (nat \<times> slab_list \<Rightarrow> u64 list) \<Rightarrow>
     (u64 \<Rightarrow> u64 list) \<Rightarrow> (nat \<times> u64) set \<Rightarrow> bool" where
  "slabs_inv s C V L FL H \<longleftrightarrow>
     slab_lists s C L \<and> phys_small s \<and> (\<forall>c\<in>C. cache_ok (caches s c)) \<and>
     fst ` H \<subseteq> C \<and> (\<forall>c a k. (c, a) \<in> H \<longrightarrow> k \<in> slab_keys C \<longrightarrow> a \<notin> set (L k)) \<and>
     (\<forall>c a. (c, a) \<in> slab_set C L H \<longrightarrow> slab_ok s c a (FL a)) \<and>
     (\<forall>c c' a. (c, a) \<in> slab_set C L H \<longrightarrow> (c', a) \<in> slab_set C L H \<longrightarrow> c = c') \<and>
     (\<forall>c\<in>C. \<forall>k. \<forall>a\<in>set (L (c, k)). kind_ok k (length (FL a)) (slab_size (caches s c))) \<and>
     buddy_ok s (V \<union> slab_blocks s (slab_set C L H)) \<and>
     V \<inter> slab_blocks s (slab_set C L H) = {}"

lemma inj_Slab: "inj Slab"
  by (rule injI) simp

lemma slab_hdr_Slab [simp]: "Slab a \<noteq> slab_hdr k" "slab_hdr k \<noteq> Slab a"
  by (simp_all add: slab_hdr_def)

text \<open>Distinct slabs lie in disjoint blocks.\<close>

lemma slabs_inv_ok:
  "slabs_inv s C V L FL H \<Longrightarrow> (c, a) \<in> slab_set C L H \<Longrightarrow> slab_ok s c a (FL a)"
  by (simp add: slabs_inv_def)

lemma slab_set_cache:
  assumes "slabs_inv s C V L FL H" and "(c, a) \<in> slab_set C L H"
  shows "c \<in> C"
proof -
  have "fst ` H \<subseteq> C" using assms(1) unfolding slabs_inv_def by blast
  then show ?thesis using assms(2) unfolding slab_set_def by force
qed

lemma slabs_apart:
  assumes inv: "slabs_inv s C V L FL H"
    and x: "(c, a) \<in> slab_set C L H" and y: "(d, b) \<in> slab_set C L H" and ne: "a \<noteq> b"
  shows "block_end (caches s c) (slab_frame s a) \<le> block_first (slab_frame s b) \<or>
         block_end (caches s d) (slab_frame s b) \<le> block_first (slab_frame s a)"
proof -
  let ?x = "(slab_frame s a, slab_order (caches s c))" and ?y = "(slab_frame s b, slab_order (caches s d))"
  have U: "?x \<in> V \<union> slab_blocks s (slab_set C L H)" "?y \<in> V \<union> slab_blocks s (slab_set C L H)"
    using x y by (force simp: slab_blocks_def)+
  have a: "a = slab_get_meta (caches s c) (block_base (slab_frame s a))"
    and b: "b = slab_get_meta (caches s d) (block_base (slab_frame s b))"
    using slabs_inv_ok [OF inv x] slabs_inv_ok [OF inv y] by (simp_all add: slab_ok_def)
  have "?x \<noteq> ?y"
  proof
    assume "?x = ?y"
    then have "a = b" using a b by (simp add: slab_get_meta_def slab_bytes_def)
    then show False using ne by simp
  qed
  moreover have "buddy_ok s (V \<union> slab_blocks s (slab_set C L H))" using inv by (simp add: slabs_inv_def)
  ultimately have "pages_of ?x \<inter> pages_of ?y = {}"
    using pages.owned_disjoint U by blast
  from blocks_apart [OF this] show ?thesis by linarith
qed

text \<open>So no word of one slab's objects is a word of another's.\<close>

lemma slab_cells_bounds:
  assumes "slabs_inv s C V L FL H" and "(c, a) \<in> slab_set C L H" and "x \<in> slab_cells s c a"
  shows "block_first (slab_frame s a) \<le> unat x"
    and "unat x + unat (obj_size (caches s c)) + 40 \<le> block_end (caches s c) (slab_frame s a)"
    and "8 \<le> unat (obj_size (caches s c))" and "x \<noteq> 0"
    and "block_end (caches s c) (slab_frame s a) \<le> 2 ^ 64"
proof -
  have "c \<in> C" using slab_set_cache [OF assms(1,2)] .
  then have ok: "cache_ok (caches s c)" using assms(1) by (simp add: slabs_inv_def)
  have "fits (caches s c) (slab_frame s a)"
    using slabs_inv_ok [OF assms(1,2)] by (simp add: slab_ok_def)
  from cells_bounds [OF ok this assms(3) [unfolded slab_cells_def]]
  show "block_first (slab_frame s a) \<le> unat x"
    and "unat x + unat (obj_size (caches s c)) + 40 \<le> block_end (caches s c) (slab_frame s a)"
    and "8 \<le> unat (obj_size (caches s c))" and "x \<noteq> 0"
    and "block_end (caches s c) (slab_frame s a) \<le> 2 ^ 64" .
qed

lemma objects_apart:
  assumes inv: "slabs_inv s C V L FL H"
    and x: "(c, a) \<in> slab_set C L H" "x \<in> slab_cells s c a"
    and y: "(d, b) \<in> slab_set C L H" "y \<in> slab_cells s d b"
    and ne: "x \<noteq> y"
  shows "unat x + unat (obj_size (caches s c)) \<le> unat y \<or> unat y + unat (obj_size (caches s d)) \<le> unat x"
proof (cases "a = b")
  case True
  then have cd: "c = d" using inv x(1) y(1) by (auto simp: slabs_inv_def)
  have "cache_ok (caches s c)" "fits (caches s c) (slab_frame s a)"
    using inv slab_set_cache [OF inv x(1)] slabs_inv_ok [OF inv x(1)]
    by (auto simp: slabs_inv_def slab_ok_def)
  then show ?thesis
    using cells_disjoint [of "caches s c" "slab_frame s a" x y] x y ne True cd
    by (simp add: slab_cells_def)
next
  case False
  from slabs_apart [OF inv x(1) y(1) this] slab_cells_bounds(1,2) [OF inv x]
    slab_cells_bounds(1,2) [OF inv y]
  show ?thesis by linarith
qed

subsection \<open>The steps\<close>

text \<open>A state that differs only in what the invariant does not look at.\<close>

lemma slab_ok_cong:
  assumes "layout s' = layout s" and "slab_meta s' a = slab_meta s a" and "caches s' c = caches s c"
    and "\<And>x. x \<in> set fs \<Longrightarrow> load_u64 (memory s') x = load_u64 (memory s) x"
  shows "slab_ok s' c a fs = slab_ok s c a fs"
proof -
  have "slab_frame s' a = slab_frame s a"
    by (simp add: slab_frame_def assms(2) page_frame_cong [OF assms(1)])
  moreover have "chain (memory s') (slab_first (slab_meta s a)) fs = chain (memory s) (slab_first (slab_meta s a)) fs"
    by (rule chain_cong) (rule assms(4))
  ultimately show ?thesis
    by (simp add: slab_ok_def slab_cells_def assms(2,3) valid_page_cong [OF assms(1)])
qed

lemma slab_lists_upd_links:
  "slab_lists (upd_slab_links f s) C L \<longleftrightarrow> dlists slab_hdr (slab_keys C) (f (slab_links s)) (map Slab \<circ> L)"
  by (simp add: slab_lists_def upd_slab_links_def)

lemma upd_slab_links_simps [simp]:
  "layout (upd_slab_links f s) = layout s" "slab_meta (upd_slab_links f s) = slab_meta s"
  "caches (upd_slab_links f s) = caches s" "memory (upd_slab_links f s) = memory s"
  "buddy_zones (upd_slab_links f s) = buddy_zones s" "slab_links (upd_slab_links f s) = f (slab_links s)"
  "slab_frame (upd_slab_links f s) a = slab_frame s a"
  "buddy_ok (upd_slab_links f s) U = buddy_ok s U" "phys_small (upd_slab_links f s) = phys_small s"
  "slab_blocks (upd_slab_links f s) S = slab_blocks s S"
  by (simp_all add: upd_slab_links_def layout_def slab_frame_def page_frame_def buddy_ok_def
      buddy_inv_def zero_reserved_def phys_small_def slab_blocks_def)

lemma slab_ok_upd_links [simp]: "slab_ok (upd_slab_links f s) c a fs = slab_ok s c a fs"
  by (rule slab_ok_cong) simp_all

lemma slab_lists_keys:
  assumes "slab_lists s C L" and "j \<in> slab_keys C" and "k \<in> slab_keys C" and "a \<in> set (L j)" and "a \<in> set (L k)"
  shows "j = k"
proof (rule ccontr)
  assume ne: "j \<noteq> k"
  have "set (slab_hdr j # (map Slab \<circ> L) j) \<inter> set (slab_hdr k # (map Slab \<circ> L) k) = {}"
    by (rule dlists_disjoint [OF assms(1) [unfolded slab_lists_def] assms(2,3) ne])
  then show False using assms(4,5) by auto
qed

text \<open>Taking a slab off its list.\<close>

lemma slab_take:
  assumes inv: "slabs_inv s C V L FL {}" and c: "c \<in> C" and a: "a \<in> set (L (c, k))"
  defines "L' \<equiv> L((c, k) := remove1 a (L (c, k)))"
  shows "slabs_inv (upd_slab_links (list_del (Slab a)) s) C V L' FL {(c, a)}"
    and "slab_set C L' {(c, a)} = slab_set C L {}"
proof -
  have key: "(c, k) \<in> slab_keys C" using c by simp
  have lists: "slab_lists s C L" using inv by (simp add: slabs_inv_def)
  have dist: "distinct (L (c, k))"
    using dlists_distinct [OF lists [unfolded slab_lists_def] key] by (simp add: distinct_map)
  have "dlists slab_hdr (slab_keys C) (list_del (Slab a) (slab_links s))
      ((map Slab \<circ> L)((c, k) := remove1 (Slab a) ((map Slab \<circ> L) (c, k))))"
    using dl.lists_unlink [OF lists [unfolded slab_lists_def] key, of "Slab a"] a by simp
  then have lists': "slab_lists (upd_slab_links (list_del (Slab a)) s) C L'"
    unfolding slab_lists_upd_links L'_def fun_upd_comp by (simp add: inj_map_remove1 [OF inj_Slab])
  have gone: "a \<notin> set (L' j)" if j: "j \<in> slab_keys C" for j
  proof (cases "j = (c, k)")
    case True
    then show ?thesis using dist by (simp add: L'_def)
  next
    case False
    then have "a \<notin> set (L j)" using slab_lists_keys [OF lists j key _ a] by blast
    then show ?thesis using False by (simp add: L'_def)
  qed
  have sub: "set (L' j) \<subseteq> set (L j)" for j
    using set_remove1_subset [of a "L (c, k)"] by (auto simp: L'_def)
  show same: "slab_set C L' {(c, a)} = slab_set C L {}"
    using c a dist by (auto simp: slab_set_def L'_def)
  have kinds: "kind_ok j (length (FL b)) (slab_size (caches s d))"
    if "d \<in> C" "b \<in> set (L' (d, j))" for d j b
    using inv that sub [of "(d, j)"] unfolding slabs_inv_def by blast
  show "slabs_inv (upd_slab_links (list_del (Slab a)) s) C V L' FL {(c, a)}"
    using inv lists' gone c kinds unfolding slabs_inv_def same by auto
qed

text \<open>Putting the slab in hand on a list it belongs to.\<close>

lemma slab_put:
  assumes inv: "slabs_inv s C V L FL {(c, a)}" and kind: "kind_ok k (length (FL a)) (slab_size (caches s c))"
  defines "L' \<equiv> L((c, k) := a # L (c, k))"
  shows "slabs_inv (upd_slab_links (list_add (Slab a) (LHead c k)) s) C V L' FL {}"
    and "slab_set C L' {} = slab_set C L {(c, a)}"
proof -
  have c: "c \<in> C" using inv by (simp add: slabs_inv_def)
  then have key: "(c, k) \<in> slab_keys C" by simp
  have lists: "slab_lists s C L" using inv by (simp add: slabs_inv_def)
  have fresh: "\<And>j. j \<in> slab_keys C \<Longrightarrow> a \<notin> set (L j)" using inv by (auto simp: slabs_inv_def)
  then have "unlinked slab_hdr (slab_keys C) (map Slab \<circ> L) (Slab a)"
    by (auto simp: unlinked_def)
  from dl.lists_push [OF lists [unfolded slab_lists_def] key this]
  have lists': "slab_lists (upd_slab_links (list_add (Slab a) (LHead c k)) s) C L'"
    unfolding slab_lists_upd_links L'_def fun_upd_comp by (simp add: slab_hdr_def)
  show same: "slab_set C L' {} = slab_set C L {(c, a)}"
    using c by (auto simp: slab_set_def L'_def split: if_splits)
  show "slabs_inv (upd_slab_links (list_add (Slab a) (LHead c k)) s) C V L' FL {}"
    using inv lists' kind unfolding slabs_inv_def same by (auto simp: L'_def)
qed

text \<open>Working on the slab in hand: its chain and counter change, and memory inside its block.\<close>

lemma slab_work:
  assumes inv: "slabs_inv s C V L FL {(c, a)}"
    and s': "layout s' = layout s" "buddy_zones s' = buddy_zones s" "caches s' = caches s"
      "slab_links s' = slab_links s" "\<And>b. b \<noteq> a \<Longrightarrow> slab_meta s' b = slab_meta s b"
      "slab_page (slab_meta s' a) = slab_page (slab_meta s a)"
    and mem: "\<And>x. memory s' x \<noteq> memory s x \<Longrightarrow>
      block_first (slab_frame s a) \<le> unat x \<and> unat x < block_end (caches s c) (slab_frame s a)"
    and fs: "chain (memory s') (slab_first (slab_meta s' a)) fs" "distinct fs" "set fs \<subseteq> slab_cells s c a"
      "slab_count (slab_meta s' a) = length fs"
  shows "slabs_inv s' C V L (FL(a := fs)) {(c, a)}"
proof -
  let ?S = "slab_set C L {(c, a)}"
  have ca: "(c, a) \<in> ?S" by (simp add: slab_set_def)
  have frame: "slab_frame s' b = slab_frame s b" for b
    using s'(5) [of b] s'(6) by (cases "b = a") (simp_all add: slab_frame_def page_frame_cong [OF s'(1)])
  have blocks: "slab_blocks s' T = slab_blocks s T" for T
    by (simp add: slab_blocks_def frame s'(3))
  have ok: "slab_ok s' d b ((FL(a := fs)) b)" if db: "(d, b) \<in> ?S" for d b
  proof (cases "b = a")
    case True
    then have "d = c" using inv db ca by (auto simp: slabs_inv_def)
    then show ?thesis
      using True slabs_inv_ok [OF inv ca] fs frame s'(3,6) valid_page_cong [OF s'(1)]
      by (simp add: slab_ok_def slab_cells_def)
  next
    case False
    have "slab_ok s' d b (FL b) = slab_ok s d b (FL b)"
    proof (rule slab_ok_cong [OF s'(1) s'(5) [OF False]])
      show "caches s' d = caches s d" by (simp add: s'(3))
      fix x assume "x \<in> set (FL b)"
      then have x: "x \<in> slab_cells s d b" using slabs_inv_ok [OF inv db] by (auto simp: slab_ok_def)
      note bd = slab_cells_bounds [OF inv db x]
      show "load_u64 (memory s') x = load_u64 (memory s) x"
      proof (rule load_u64_cong, rule ccontr)
        fix y assume y: "y \<in> span x 8" and ch: "memory s' y \<noteq> memory s y"
        have "unat x + 8 \<le> 2 ^ 64" using bd by linarith
        then have "unat x \<le> unat y" "unat y < unat x + 8" using y by (simp_all add: span_unat)
        then show False using mem [OF ch] slabs_apart [OF inv db ca False] bd by linarith
      qed
    qed
    then show ?thesis using False slabs_inv_ok [OF inv db] by simp
  qed
  have fresh: "\<And>k. k \<in> slab_keys C \<Longrightarrow> a \<notin> set (L k)" using inv by (auto simp: slabs_inv_def)
  have "buddy_ok s' U = buddy_ok s U" for U by (rule buddy_ok_cong [OF s'(2)])
  then show ?thesis
    using inv ok fresh unfolding slabs_inv_def blocks
    by (auto simp: slab_lists_def s'(3,4) phys_small_def s'(1))
qed

subsection \<open>Making a slab\<close>

lemma unat_slab_meta:
  assumes "fits cache f"
  shows "unat (slab_get_meta cache (block_base f)) = block_end cache f - 40"
proof -
  let ?B = "2 ^ (12 + slab_order cache) :: nat"
  have f: "slab_order cache \<le> MAX_ORDER" "f * 4096 + ?B \<le> 2 ^ 47" using assms by (simp_all add: fits_def)
  have B: "(4096 :: nat) \<le> ?B" using power_increasing [of 12 "12 + slab_order cache" "2 :: nat"] by simp
  have base: "unat (block_base f) = f * 4096 + KB" using f B by (intro unat_block_base) linarith
  have "unat (block_base f + slab_bytes cache - sizeof_slab) = f * 4096 + KB + ?B - 40"
  proof -
    have sum: "unat (block_base f + slab_bytes cache) = f * 4096 + KB + ?B \<or> f * 4096 + KB + ?B = 2 ^ 64"
    proof (cases "f * 4096 + KB + ?B = 2 ^ 64")
      case False
      then have "f * 4096 + KB + ?B < 2 ^ 64" using f(2) by simp
      then show ?thesis
        unfolding unat_word_ariths base unat_slab_bytes [OF f(1)] by simp
    qed simp
    then show ?thesis
    proof
      assume "unat (block_base f + slab_bytes cache) = f * 4096 + KB + ?B"
      moreover from this have "sizeof_slab \<le> block_base f + slab_bytes cache"
        using B by (simp add: word_le_nat_alt sizeof_slab_def)
      ultimately show ?thesis by (simp add: unat_sub sizeof_slab_def)
    next
      assume w: "f * 4096 + KB + ?B = 2 ^ 64"
      have "block_base f + slab_bytes cache = 0"
        by (rule word_unat_eq_iff [THEN iffD2])
          (simp add: unat_word_ariths base unat_slab_bytes [OF f(1)] w)
      then show ?thesis using w by (simp add: sizeof_slab_def)
    qed
  qed
  then show ?thesis by (simp add: slab_get_meta_def)
qed

lemma buddy_block_bound:
  assumes ok: "buddy_ok s U" and small: "phys_small s" and x: "(f, k) \<in> U"
  shows "f * 4096 + 2 ^ (12 + k) \<le> 2 ^ 47"
proof -
  have inv: "zones_inv (buddy_zones s) U" using ok by (simp add: buddy_ok_def buddy_inv_def)
  obtain i where i: "i < length (buddy_zones s)" "zbegin (buddy_zones s ! i) \<le> f" "f < zend (buddy_zones s ! i)"
    using zones_inv_home [OF inv x] by blast
  obtain L where L: "zone_inv (buddy_zones s ! i) L (zone_used (buddy_zones s ! i) U) {}"
    using zones_invD [OF inv i(1)] .
  have "zend (buddy_zones s ! i) \<le> 2 ^ 35"
    using small i(1) by (auto simp: phys_small_def layout_def)
  then have "f + 2 ^ k \<le> 2 ^ 35" using zone_used_pages(1) [OF L x i(2,3)] by linarith
  then have "(f + 2 ^ k) * 4096 \<le> 2 ^ 35 * 4096" by (rule mult_le_mono1)
  then show ?thesis by (simp add: power_add distrib_right)
qed

text \<open>A fresh slab: the chain goes through all its objects, and nothing outside the block is written.\<close>

lemma slab_fill_block:
  assumes cok: "cache_ok cache" and fit: "fits cache f"
    and fill: "slab_fill (slab_size cache) (obj_size cache) (block_base f) 0 m0 = (m, head)"
  shows "chain m head (rev (map (\<lambda>i. block_base f + of_nat i * obj_size cache) [0..<slab_size cache]))"
    and "m x \<noteq> m0 x \<Longrightarrow> block_first f \<le> unat x \<and> unat x < block_end cache f"
proof -
  let ?cell = "\<lambda>i. block_base f + of_nat i * obj_size cache"
  have cell: "?cell i \<in> cells cache f" if "i < slab_size cache" for i
    using that by (auto simp: cells_def)
  note cb = cells_bounds [OF cok fit cell]
  have apart: "span (?cell i) 8 \<inter> span (?cell j) 8 = {}"
    if ij: "i < slab_size cache" "j < slab_size cache" "i \<noteq> j" for i j
  proof -
    have "?cell i \<noteq> ?cell j" using inj_onD [OF cells_inj [OF cok fit]] ij by blast
    from cells_disjoint [OF cok fit cell [OF ij(1)] cell [OF ij(2)] this]
    have "unat (?cell i) + 8 \<le> unat (?cell j) \<or> unat (?cell j) + 8 \<le> unat (?cell i)"
      using cb(3) [OF ij(1)] by linarith
    moreover have "unat (?cell i) + 8 \<le> 2 ^ 64" "unat (?cell j) + 8 \<le> 2 ^ 64"
      using cb(2,3,5) [OF ij(1)] cb(2,3,5) [OF ij(2)] by linarith+
    ultimately show ?thesis using spans_apart by (metis Int_commute)
  qed
  have "chain m head (rev (map ?cell [0..<slab_size cache]) @ [])"
    by (rule slab_fill_chain(1) [where hs = "[]", OF _ _ apart _ fill]) (use cb(4) in auto)
  then show "chain m head (rev (map ?cell [0..<slab_size cache]))" by simp
  show "block_first f \<le> unat x \<and> unat x < block_end cache f" if ch: "m x \<noteq> m0 x"
  proof -
    have "m x = m0 x" if out: "\<And>i. i < slab_size cache \<Longrightarrow> x \<notin> span (?cell i) 8"
      by (rule slab_fill_chain(2) [where hs = "[]", OF _ _ apart _ fill out]) (use cb(4) in auto)
    then obtain i where i: "i < slab_size cache" "x \<in> span (?cell i) 8" using ch by blast
    have "unat (?cell i) + 8 \<le> 2 ^ 64" using cb(2,3,5) [OF i(1)] by linarith
    then have "unat (?cell i) \<le> unat x" "unat x < unat (?cell i) + 8" using i(2) by (simp_all add: span_unat)
    then show ?thesis using cb(1,2,3) [OF i(1)] by linarith
  qed
qed

lemma slab_create_spec:
  fixes s :: "'a slabs_scheme"
  assumes inv: "slabs_inv s C V L FL {}" and c: "c \<in> C"
  obtains (none) "slab_create c s = Inr (0, s)" and "fst (do_buddy_alloc (slab_order (caches s c)) s) = None"
  | (made) a s1 fs where "slab_create c s = Inr (a, s1)" and "a \<noteq> 0"
      and "slabs_inv s1 C V L (FL(a := fs)) {(c, a)}" and "set fs = slab_cells s1 c a"
      and "length fs = slab_size (caches s c)" and "caches s1 = caches s"
      and "\<forall>d b. (d, b) \<in> slab_set C L {} \<longrightarrow> b \<noteq> a \<and> slab_frame s1 b = slab_frame s b"
proof -
  let ?cache = "caches s c" and ?S = "slab_set C L {}"
  let ?k = "slab_order ?cache" and ?U = "V \<union> slab_blocks s ?S"
  have ok: "buddy_ok s ?U" and disj: "V \<inter> slab_blocks s ?S = {}" and small: "phys_small s"
    and cok: "cache_ok ?cache"
    using inv c by (simp_all add: slabs_inv_def)
  obtain r s0 where run: "do_buddy_alloc ?k s = (r, s0)" by (cases "do_buddy_alloc ?k s")
  show thesis
  proof (cases r)
    case None
    have "buddy_inv s ?U" using ok by (simp add: buddy_ok_def)
    then have "s0 = s" using do_buddy_alloc_None(1) run None by blast
    then show thesis using none run None by (simp add: slab_create_def)
  next
    case (Some pg)
    let ?f = "page_frame s pg"
    note al = do_buddy_alloc_ok [OF ok run [unfolded Some]]
    have s0: "s0 = s\<lparr>buddy_zones := buddy_zones s0\<rparr>" by (rule al(9))
    have same0: "memory s0 = memory s" "slab_meta s0 = slab_meta s" "caches s0 = caches s"
      "slab_links s0 = slab_links s"
      by (subst s0, simp)+
    have fit: "fits ?cache ?f"
      using buddy_block_bound [OF al(1), of ?f ?k] small al(6,8)
      by (simp add: fits_def phys_small_def)
    let ?a = "slab_get_meta ?cache (block_base ?f)"
    obtain m head where fill: "slab_fill (slab_size ?cache) (obj_size ?cache) (block_base ?f) 0 (memory s) = (m, head)"
      by (cases "slab_fill (slab_size ?cache) (obj_size ?cache) (block_base ?f) 0 (memory s)")
    let ?meta = "\<lparr>slab_page = pg, slab_first = head, slab_count = slab_size ?cache\<rparr>"
    define s1 where "s1 = s0\<lparr>memory := m, slab_meta := (slab_meta s0)(?a := ?meta)\<rparr>"
    have s1: "memory s1 = m" "slab_meta s1 = (slab_meta s)(?a := ?meta)" "caches s1 = caches s"
      "slab_links s1 = slab_links s" "buddy_zones s1 = buddy_zones s0" "layout s1 = layout s"
      using al(8) by (simp_all add: s1_def same0 layout_def)
    have made_run: "slab_create c s = Inr (?a, s1)"
      using run Some al(10) fill same0
      by (simp add: slab_create_def Let_def block_base_def s1_def)
    let ?fs = "rev (map (\<lambda>i. block_base ?f + of_nat i * obj_size ?cache) [0..<slab_size ?cache])"
    note filled = slab_fill_block [OF cok fit fill]
    have chain: "chain m head ?fs" by (rule filled(1))
    have mem: "block_first ?f \<le> unat x \<and> unat x < block_end ?cache ?f" if "m x \<noteq> memory s x" for x
      by (rule filled(2) [OF that])
    have U1: "buddy_ok s0 (insert (?f, ?k) ?U)" by (rule al(1))
    have away: "block_end (caches s d) (slab_frame s b) \<le> block_first ?f \<or>
        block_end ?cache ?f \<le> block_first (slab_frame s b)" if db: "(d, b) \<in> ?S" for d b
    proof -
      have x: "(slab_frame s b, slab_order (caches s d)) \<in> ?U"
        using db by (force simp: slab_blocks_def)
      then have "(slab_frame s b, slab_order (caches s d)) \<noteq> (?f, ?k)" using al(2) by auto
      then have "pages_of (slab_frame s b, slab_order (caches s d)) \<inter> pages_of (?f, ?k) = {}"
        by (intro pages.owned_disjoint [OF U1] insertI1 insertI2 x)
      from blocks_apart [OF this] show ?thesis by linarith
    qed
    have new: "b \<noteq> ?a" if db: "(d, b) \<in> ?S" for d b
    proof
      assume "b = ?a"
      moreover have "b = slab_get_meta (caches s d) (block_base (slab_frame s b))"
        and "fits (caches s d) (slab_frame s b)"
        using slabs_inv_ok [OF inv db] by (simp_all add: slab_ok_def)
      ultimately have eq: "block_end (caches s d) (slab_frame s b) - 40 = block_end ?cache ?f - 40"
        using unat_slab_meta [OF fit] unat_slab_meta by metis
      have "(4096 :: nat) \<le> 2 ^ (12 + n)" for n
        using power_increasing [of 12 "12 + n" "2 :: nat"] by simp
      from eq this [of "slab_order (caches s d)"] this [of ?k] away [OF db] show False by linarith
    qed
    have frame: "slab_frame s1 b = (if b = ?a then ?f else slab_frame s b)" for b
      using page_frame_cong [OF s1(6)] by (simp add: slab_frame_def s1(2))
    note lay = s1(6)
    have set1: "slab_set C L {(c, ?a)} = insert (c, ?a) ?S" by (auto simp: slab_set_def)
    have blocks: "slab_blocks s1 (insert (c, ?a) ?S) = insert (?f, ?k) (slab_blocks s ?S)"
    proof -
      have "slab_blocks s1 ?S = slab_blocks s ?S"
        unfolding slab_blocks_def using new
        by (intro image_cong refl) (auto simp: frame s1(3))
      then show ?thesis by (simp add: slab_blocks_def frame s1(3))
    qed
    have zones1: "buddy_ok s1 W = buddy_ok s0 W" for W by (rule buddy_ok_cong) (rule s1(5))
    have all_cells: "set ?fs = cells ?cache ?f" by (auto simp: cells_def)
    have own: "slab_ok s1 c ?a ?fs"
      using fit al(3,5,7) chain all_cells cells_inj [OF cok fit] valid_page_cong [OF lay]
      by (simp add: slab_ok_def slab_cells_def frame s1 distinct_map atLeast0LessThan)
    have others: "slab_ok s1 d b (FL b)" if db: "(d, b) \<in> ?S" for d b
    proof -
      have "slab_ok s1 d b (FL b) = slab_ok s d b (FL b)"
      proof (rule slab_ok_cong [OF lay])
        show "slab_meta s1 b = slab_meta s b" using new [OF db] s1(2) by simp
        show "caches s1 d = caches s d" by (simp add: s1(3))
        fix x assume "x \<in> set (FL b)"
        then have x: "x \<in> slab_cells s d b" using slabs_inv_ok [OF inv db] by (auto simp: slab_ok_def)
        note bd = slab_cells_bounds [OF inv db x]
        show "load_u64 (memory s1) x = load_u64 (memory s) x"
        proof (rule load_u64_cong, rule ccontr)
          fix y assume y: "y \<in> span x 8" and ch: "memory s1 y \<noteq> memory s y"
          have "unat x + 8 \<le> 2 ^ 64" using bd by linarith
          then have "unat x \<le> unat y" "unat y < unat x + 8" using y by (simp_all add: span_unat)
          moreover have "m y \<noteq> memory s y" using ch s1(1) by simp
          ultimately show False using mem [of y] away [OF db] bd by linarith
        qed
      qed
      then show ?thesis using slabs_inv_ok [OF inv db] by simp
    qed
    have fresh: "?a \<notin> set (L k)" if "k \<in> slab_keys C" for k
      using new that by (cases k) (auto simp: slab_set_def)
    have "slabs_inv s1 C V L (FL(?a := ?fs)) {(c, ?a)}"
      unfolding slabs_inv_def
    proof (intro conjI)
      show "slab_lists s1 C L" using inv by (simp add: slabs_inv_def slab_lists_def s1(4))
      show "phys_small s1" using small lay by (simp add: phys_small_def)
      show "\<forall>c\<in>C. cache_ok (caches s1 c)" using inv by (simp add: slabs_inv_def s1(3))
      show "fst ` {(c, ?a)} \<subseteq> C" using c by simp
      show "\<forall>d b k. (d, b) \<in> {(c, ?a)} \<longrightarrow> k \<in> slab_keys C \<longrightarrow> b \<notin> set (L k)"
        using fresh by blast
      show "\<forall>d b. (d, b) \<in> slab_set C L {(c, ?a)} \<longrightarrow> slab_ok s1 d b ((FL(?a := ?fs)) b)"
        unfolding set1 using own others new by auto
      show "\<forall>d e b. (d, b) \<in> slab_set C L {(c, ?a)} \<longrightarrow> (e, b) \<in> slab_set C L {(c, ?a)} \<longrightarrow> d = e"
        unfolding set1 using inv new unfolding slabs_inv_def by blast
      show "\<forall>d\<in>C. \<forall>k. \<forall>b\<in>set (L (d, k)).
          kind_ok k (length ((FL(?a := ?fs)) b)) (slab_size (caches s1 d))"
        using inv fresh unfolding slabs_inv_def by (auto simp: s1(3))
      have "V \<union> slab_blocks s1 (slab_set C L {(c, ?a)}) = insert (?f, ?k) ?U"
        unfolding set1 blocks by blast
      then show "buddy_ok s1 (V \<union> slab_blocks s1 (slab_set C L {(c, ?a)}))"
        using U1 zones1 by metis
      show "V \<inter> slab_blocks s1 (slab_set C L {(c, ?a)}) = {}"
        unfolding set1 blocks using disj al(2) by blast
    qed
    moreover have "?a \<noteq> 0"
    proof -
      have "(4096 :: nat) \<le> 2 ^ (12 + ?k)"
        using power_increasing [of 12 "12 + ?k" "2 :: nat"] by simp
      then have "0 < unat ?a" using unat_slab_meta [OF fit] by linarith
      then show ?thesis by auto
    qed
    moreover have "set ?fs = slab_cells s1 c ?a"
      unfolding all_cells by (simp add: slab_cells_def frame s1(3))
    ultimately show thesis
      using made [OF made_run] new frame s1(3) by simp
  qed
qed

end
