(* ===== verification/Slab_Ops.thy ===== *)
theory Slab_Ops
  imports Slab_Inv
begin

text \<open>
  The object caches as their clients see them: \<open>objs s C V X\<close> says that \<open>X\<close> are the objects
  the caches \<open>C\<close> have handed out, as pairs of cache and address. The locale
  \<open>object_cache\<close> is the contract of allocation and release, interpreted on
  \<open>slab_cache_alloc\<close> and \<open>slab_cache_free\<close>.
\<close>

definition live :: "'a slabs_scheme \<Rightarrow> (nat \<times> u64) set \<Rightarrow> (u64 \<Rightarrow> u64 list) \<Rightarrow> (nat \<times> u64) set" where
  "live s S FL = {(c, p). \<exists>a. (c, a) \<in> S \<and> p \<in> slab_cells s c a - set (FL a)}"

definition objs :: "'a slabs_scheme \<Rightarrow> nat set \<Rightarrow> block set \<Rightarrow> (nat \<times> u64) set \<Rightarrow> bool" where
  "objs s C V X \<longleftrightarrow> (\<exists>L FL. slabs_inv s C V L FL {} \<and> X = live s (slab_set C L {}) FL)"

subsection \<open>Where an object is\<close>

lemma slab_cells_unique:
  assumes inv: "slabs_inv s C V L FL H"
    and x: "(c, a) \<in> slab_set C L H" "p \<in> slab_cells s c a"
    and y: "(d, b) \<in> slab_set C L H" "p \<in> slab_cells s d b"
  shows "a = b" and "c = d"
proof -
  show ab: "a = b"
  proof (rule ccontr)
    assume "a \<noteq> b"
    from slabs_apart [OF inv x(1) y(1) this] slab_cells_bounds(1-3) [OF inv x]
      slab_cells_bounds(1-3) [OF inv y]
    show False by linarith
  qed
  show "c = d" using inv x(1) y(1) unfolding ab slabs_inv_def by blast
qed

lemma slab_count_bound:
  assumes inv: "slabs_inv s C V L FL H" and ca: "(c, a) \<in> slab_set C L H"
  shows "card (slab_cells s c a) = slab_size (caches s c)" and "0 < slab_size (caches s c)"
    and "length (FL a) \<le> slab_size (caches s c)" and "finite (slab_cells s c a)"
proof -
  have ok: "slab_ok s c a (FL a)" by (rule slabs_inv_ok [OF inv ca])
  have cok: "cache_ok (caches s c)" using inv slab_set_cache [OF inv ca] by (simp add: slabs_inv_def)
  have fit: "fits (caches s c) (slab_frame s a)" using ok by (simp add: slab_ok_def)
  show card: "card (slab_cells s c a) = slab_size (caches s c)"
    unfolding slab_cells_def cells_def by (simp add: card_image [OF cells_inj [OF cok fit]])
  show fin: "finite (slab_cells s c a)" by (simp add: slab_cells_def cells_def)
  show "0 < slab_size (caches s c)" using cok fit by (simp add: cache_ok_def fits_def)
  have "card (set (FL a)) \<le> card (slab_cells s c a)"
    by (rule card_mono [OF fin]) (use ok in \<open>simp add: slab_ok_def\<close>)
  then show "length (FL a) \<le> slab_size (caches s c)"
    using ok card by (simp add: slab_ok_def distinct_card)
qed

subsection \<open>Taking an object from the slab in hand, and giving one back\<close>

lemma slab_alloc_step:
  assumes inv: "slabs_inv s C V L FL {(c, a)}" and fs: "FL a = x # xs"
    and run: "slab_alloc a s = (p, s')"
  shows "p = x" and "slabs_inv s' C V L (FL(a := xs)) {(c, a)}"
    and "slab_count (slab_meta s' a) = length xs"
    and "caches s' = caches s" and "\<And>b. slab_frame s' b = slab_frame s b"
    and "rflags s' = rflags s" and "preempt_count s' = preempt_count s"
proof -
  have ca: "(c, a) \<in> slab_set C L {(c, a)}" by (simp add: slab_set_def)
  have ok: "slab_ok s c a (x # xs)" using slabs_inv_ok [OF inv ca] fs by simp
  have s': "s' = s\<lparr>slab_meta := (slab_meta s)(a := (slab_meta s a)\<lparr>slab_first := load_u64 (memory s) x,
      slab_count := slab_count (slab_meta s a) - 1\<rparr>)\<rparr>" and p: "p = x"
    using run ok by (auto simp: slab_alloc_def slab_ok_def Let_def)
  show "p = x" by (rule p)
  show "slabs_inv s' C V L (FL(a := xs)) {(c, a)}"
    by (rule slab_work [OF inv]) (use ok in \<open>auto simp: s' layout_def slab_ok_def\<close>)
  show "slab_count (slab_meta s' a) = length xs" using ok by (simp add: s' slab_ok_def)
  show "caches s' = caches s" "rflags s' = rflags s" "preempt_count s' = preempt_count s"
    by (simp_all add: s')
  show "\<And>b. slab_frame s' b = slab_frame s b"
    by (simp add: s' slab_frame_def page_frame_def layout_def)
qed

lemma slab_free_step:
  assumes inv: "slabs_inv s C V L FL {(c, a)}" and p: "p \<in> slab_cells s c a - set (FL a)"
  defines "s' \<equiv> slab_free a p s"
  shows "slabs_inv s' C V L (FL(a := p # FL a)) {(c, a)}"
    and "slab_count (slab_meta s' a) = Suc (length (FL a))"
    and "caches s' = caches s" and "\<And>b. slab_frame s' b = slab_frame s b"
    and "rflags s' = rflags s" and "preempt_count s' = preempt_count s"
    and "Suc (length (FL a)) \<le> slab_size (caches s c)"
proof -
  have ca: "(c, a) \<in> slab_set C L {(c, a)}" by (simp add: slab_set_def)
  have ok: "slab_ok s c a (FL a)" by (rule slabs_inv_ok [OF inv ca])
  have pc: "p \<in> slab_cells s c a" using p by blast
  note bp = slab_cells_bounds [OF inv ca pc]
  have s': "s' = s\<lparr>memory := store_u64 (memory s) p (slab_first (slab_meta s a)),
      slab_meta := (slab_meta s)(a := (slab_meta s a)\<lparr>slab_first := p,
        slab_count := slab_count (slab_meta s a) + 1\<rparr>)\<rparr>"
    by (simp add: s'_def slab_free_def Let_def)
  have p8: "unat p + 8 \<le> 2 ^ 64" using bp by linarith
  have "span p 8 \<inter> span y 8 = {}" if "y \<in> set (FL a)" for y
  proof -
    have y: "y \<in> slab_cells s c a" "p \<noteq> y" using ok that p by (auto simp: slab_ok_def)
    have "unat p + 8 \<le> unat y \<or> unat y + 8 \<le> unat p"
      using objects_apart [OF inv ca pc ca y] bp(3) by linarith
    moreover have "unat y + 8 \<le> 2 ^ 64" using slab_cells_bounds [OF inv ca y(1)] by linarith
    ultimately show ?thesis using spans_apart p8 by (metis Int_commute)
  qed
  then have chain: "chain (memory s') (slab_first (slab_meta s' a)) (p # FL a)"
    using chain_push [of "memory s" "slab_first (slab_meta s a)" "FL a" p] ok bp(4)
    by (simp add: s' slab_ok_def)
  show "slabs_inv s' C V L (FL(a := p # FL a)) {(c, a)}"
  proof (rule slab_work [OF inv _ _ _ _ _ _ _ chain])
    fix x assume "memory s' x \<noteq> memory s x"
    then have "x \<in> span p 8" using store_u64_other [of x p] by (auto simp: s')
    then show "block_first (slab_frame s a) \<le> unat x \<and> unat x < block_end (caches s c) (slab_frame s a)"
      using bp p8 by (simp add: span_unat)
  qed (use ok p in \<open>auto simp: s' layout_def slab_ok_def\<close>)
  show "slab_count (slab_meta s' a) = Suc (length (FL a))" using ok by (simp add: s' slab_ok_def)
  show "caches s' = caches s" "rflags s' = rflags s" "preempt_count s' = preempt_count s"
    by (simp_all add: s')
  show "\<And>b. slab_frame s' b = slab_frame s b"
    by (simp add: s' slab_frame_def page_frame_def layout_def)
  note cnt = slab_count_bound [OF inv ca]
  have "card (insert p (set (FL a))) \<le> card (slab_cells s c a)"
    by (rule card_mono [OF cnt(4)]) (use ok pc in \<open>auto simp: slab_ok_def\<close>)
  then show "Suc (length (FL a)) \<le> slab_size (caches s c)"
    using ok p cnt(1) by (simp add: slab_ok_def distinct_card)
qed

subsection \<open>How the set of live objects changes\<close>

lemma live_cong:
  assumes "caches s' = caches s" and "\<And>c a. (c, a) \<in> S \<Longrightarrow> slab_frame s' a = slab_frame s a"
  shows "live s' S FL = live s S FL"
  using assms by (auto simp: live_def slab_cells_def)

lemma live_take:
  assumes inv: "slabs_inv s C V L FL {(c, a)}" and fs: "FL a = x # xs"
  defines "S \<equiv> slab_set C L {(c, a)}"
  shows "live s S (FL(a := xs)) = insert (c, x) (live s S FL)"
    and "\<And>d y. (d, y) \<in> live s S FL \<Longrightarrow> x \<noteq> y"
proof -
  have ca: "(c, a) \<in> S" by (simp add: S_def slab_set_def)
  have ok: "slab_ok s c a (x # xs)"
    using slabs_inv_ok [OF inv ca [unfolded S_def]] fs by simp
  then have x: "x \<in> slab_cells s c a" "x \<notin> set xs" by (simp_all add: slab_ok_def)
  have uniq: "b = a \<Longrightarrow> (d, b) \<in> S \<Longrightarrow> d = c" for d b
    using inv ca unfolding S_def slabs_inv_def by blast
  show "live s S (FL(a := xs)) = insert (c, x) (live s S FL)"
  proof (intro equalityI subsetI)
    fix z assume z: "z \<in> live s S (FL(a := xs))"
    obtain d y where zy: "z = (d, y)" by (cases z)
    with z obtain b where b: "(d, b) \<in> S" "y \<in> slab_cells s d b" "y \<notin> set ((FL(a := xs)) b)"
      by (auto simp: live_def)
    show "z \<in> insert (c, x) (live s S FL)"
    proof (cases "b = a \<and> y = x")
      case True
      then show ?thesis using zy uniq b(1) by simp
    next
      case False
      then have "y \<notin> set (FL b)" using b(3) fs by (cases "b = a") auto
      then show ?thesis using zy b(1,2) by (auto simp: live_def)
    qed
  next
    fix z assume z: "z \<in> insert (c, x) (live s S FL)"
    obtain d y where zy: "z = (d, y)" by (cases z)
    show "z \<in> live s S (FL(a := xs))"
    proof (cases "z = (c, x)")
      case True
      then show ?thesis using ca x by (auto simp: live_def intro!: exI [of _ a])
    next
      case False
      then have "(d, y) \<in> live s S FL" using z zy by auto
      then obtain b where b: "(d, b) \<in> S" "y \<in> slab_cells s d b" "y \<notin> set (FL b)"
        by (auto simp: live_def)
      then have "y \<notin> set ((FL(a := xs)) b)" using fs by (cases "b = a") auto
      then show ?thesis using b(1,2) zy by (auto simp: live_def intro!: exI [of _ b])
    qed
  qed
  show "x \<noteq> y" if y: "(d, y) \<in> live s S FL" for d y
  proof
    assume "x = y"
    then obtain b where b: "(d, b) \<in> S" "x \<in> slab_cells s d b" "x \<notin> set (FL b)"
      using y by (auto simp: live_def)
    have "a = b"
      by (rule slab_cells_unique(1) [OF inv ca [unfolded S_def] x(1) b(1) [unfolded S_def] b(2)])
    then show False using b(3) fs by simp
  qed
qed

lemma live_give:
  assumes inv: "slabs_inv s C V L FL {(c, a)}" and p: "p \<in> slab_cells s c a - set (FL a)"
  defines "S \<equiv> slab_set C L {(c, a)}"
  shows "live s S (FL(a := p # FL a)) = live s S FL - {(c, p)}"
proof -
  have ca: "(c, a) \<in> S" by (simp add: S_def slab_set_def)
  have other: "p \<notin> slab_cells s c b" if "(c, b) \<in> S" "b \<noteq> a" for b
    using slab_cells_unique(1) [OF inv ca [unfolded S_def], of p c b] p that unfolding S_def by blast
  have uniq: "(d, a) \<in> S \<Longrightarrow> d = c" for d
    using inv ca unfolding S_def slabs_inv_def by blast
  show ?thesis
  proof (intro equalityI subsetI)
    fix z assume z: "z \<in> live s S (FL(a := p # FL a))"
    obtain d y where zy: "z = (d, y)" by (cases z)
    with z obtain b where b: "(d, b) \<in> S" "y \<in> slab_cells s d b" "y \<notin> set ((FL(a := p # FL a)) b)"
      by (auto simp: live_def)
    have "y \<notin> set (FL b)" using b(3) by (cases "b = a") auto
    moreover have "(d, y) \<noteq> (c, p)" using b other by (cases "b = a") auto
    ultimately show "z \<in> live s S FL - {(c, p)}" using zy b(1,2) by (auto simp: live_def)
  next
    fix z assume z: "z \<in> live s S FL - {(c, p)}"
    obtain d y where zy: "z = (d, y)" by (cases z)
    then obtain b where b: "(d, b) \<in> S" "y \<in> slab_cells s d b" "y \<notin> set (FL b)" "(d, y) \<noteq> (c, p)"
      using z by (auto simp: live_def)
    then have "y \<notin> set ((FL(a := p # FL a)) b)" using uniq by (cases "b = a") auto
    then show "z \<in> live s S (FL(a := p # FL a))"
      using b(1,2) zy by (auto simp: live_def intro!: exI [of _ b])
  qed
qed

subsection \<open>Allocation\<close>

lemma slab_create_flags:
  assumes "slab_create c s = Inr (a, s')"
  shows "rflags s' = rflags s \<and> preempt_count s' = preempt_count s"
proof -
  obtain r s0 where run: "do_buddy_alloc (slab_order (caches s c)) s = (r, s0)"
    by (cases "do_buddy_alloc (slab_order (caches s c)) s")
  have "s0 = s\<lparr>buddy_zones := buddy_zones s0\<rparr>"
    using alloc_from_cases [OF run [unfolded do_buddy_alloc_def]] by (auto split: option.splits)
  then have "rflags s0 = rflags (s\<lparr>buddy_zones := buddy_zones s0\<rparr>)"
    "preempt_count s0 = preempt_count (s\<lparr>buddy_zones := buddy_zones s0\<rparr>)" by simp_all
  then show ?thesis
    using assms run
    by (auto simp: slab_create_def Let_def and_then_eq_Inr split_beta split: option.splits)
qed

lemma slab_pick_spec:
  fixes s :: "'a slabs_scheme"
  assumes inv: "slabs_inv s C V L FL {}" and c: "c \<in> C"
  obtains (none) "slab_pick c s = Inr (0, s)" and "fst (do_buddy_alloc (slab_order (caches s c)) s) = None"
  | (got) a s1 L1 FL1 where "slab_pick c s = Inr (a, s1)" and "a \<noteq> 0"
      and "slabs_inv s1 C V L1 FL1 {(c, a)}" and "FL1 a \<noteq> []"
      and "live s1 (slab_set C L1 {(c, a)}) FL1 = live s (slab_set C L {}) FL"
      and "rflags s1 = rflags s" and "preempt_count s1 = preempt_count s" and "caches s1 = caches s"
proof -
  have key: "(c, k) \<in> slab_keys C" for k using c by simp
  have lists: "slab_lists s C L" using inv by (simp add: slabs_inv_def)
  have empty: "list_empty (LHead c k) (slab_links s) \<longleftrightarrow> L (c, k) = []" for k
    using dl.lists_empty [OF lists [unfolded slab_lists_def] key, of k] by (simp add: slab_hdr_def)
  have first: "nxt (slab_links s) (LHead c k) = Slab (hd (L (c, k)))" if "L (c, k) \<noteq> []" for k
    using dl.lists_first [OF lists [unfolded slab_lists_def] key, of k] that
    by (simp add: slab_hdr_def hd_map)
  have from_list: thesis
    if k: "L (c, k) \<noteq> []" "slab_pick c s = Inr (hd (L (c, k)), upd_slab_links (list_del (Slab (hd (L (c, k))))) s)"
      and pos: "\<And>n. kind_ok k n (slab_size (caches s c)) \<Longrightarrow> 0 < slab_size (caches s c) \<Longrightarrow> 0 < n" for k
  proof -
    let ?a = "hd (L (c, k))"
    have a: "?a \<in> set (L (c, k))" using k(1) by simp
    have ca: "(c, ?a) \<in> slab_set C L {}" using c a by (auto simp: slab_set_def)
    note t = slab_take [OF inv c a]
    have "kind_ok k (length (FL ?a)) (slab_size (caches s c))"
      using inv c a by (simp add: slabs_inv_def)
    then have ne: "FL ?a \<noteq> []" using pos slab_count_bound(2) [OF inv ca] by fastforce
    have "fits (caches s c) (slab_frame s ?a)" and "?a = slab_get_meta (caches s c) (block_base (slab_frame s ?a))"
      using slabs_inv_ok [OF inv ca] by (simp_all add: slab_ok_def)
    then have "unat ?a = block_end (caches s c) (slab_frame s ?a) - 40" using unat_slab_meta by metis
    moreover have "(4096 :: nat) \<le> 2 ^ (12 + slab_order (caches s c))"
      using power_increasing [of 12 "12 + slab_order (caches s c)" "2 :: nat"] by simp
    ultimately have "0 < unat ?a" by linarith
    then have nz: "?a \<noteq> 0" by auto
    have "live (upd_slab_links (list_del (Slab ?a)) s) (slab_set C L {}) FL = live s (slab_set C L {}) FL"
      by (rule live_cong) simp_all
    then show thesis
      using got [OF k(2) nz t(1) ne] t(2) by (simp add: upd_slab_links_def)
  qed
  consider "L (c, Partial) \<noteq> []" | "L (c, Partial) = []" "L (c, Empty) \<noteq> []" | "L (c, Partial) = []" "L (c, Empty) = []"
    by blast
  then show thesis
  proof cases
    case 1
    then show thesis
      by (intro from_list [of Partial]) (simp_all add: slab_pick_def empty first node_slab_def Let_def)
  next
    case 2
    then show thesis
      by (intro from_list [of Empty]) (simp_all add: slab_pick_def empty first node_slab_def Let_def)
  next
    case 3
    then have eq: "slab_pick c s = slab_create c s" by (simp add: slab_pick_def empty)
    show thesis
    proof (cases rule: slab_create_spec [OF inv c])
      case 1
      then show thesis using none eq by simp
    next
      case (2 a s1 fs)
      have "(c, a) \<in> slab_set C L {(c, a)}" by (simp add: slab_set_def)
      from slab_count_bound(2) [OF 2(3) this] have "fs \<noteq> []" using 2(5,6) by auto
      have S: "slab_set C L {(c, a)} = insert (c, a) (slab_set C L {})" by (auto simp: slab_set_def)
      have "live s1 (slab_set C L {(c, a)}) (FL(a := fs)) = live s (slab_set C L {}) FL"
      proof -
        have new: "set ((FL(a := fs)) b) = set (FL b) \<and> slab_cells s1 d b = slab_cells s d b \<and> b \<noteq> a"
          if "(d, b) \<in> slab_set C L {}" for d b
          using 2(6,7) that by (auto simp: slab_cells_def)
        have "live s1 (insert (c, a) (slab_set C L {})) (FL(a := fs)) =
            live s1 (slab_set C L {}) (FL(a := fs))"
          using 2(4) by (auto simp: live_def)
        also have "\<dots> = live s (slab_set C L {}) FL"
        proof (intro equalityI subsetI)
          fix z assume "z \<in> live s1 (slab_set C L {}) (FL(a := fs))"
          then obtain d b where "z = (d, snd z)" "(d, b) \<in> slab_set C L {}"
            "snd z \<in> slab_cells s1 d b" "snd z \<notin> set ((FL(a := fs)) b)"
            by (auto simp: live_def)
          with new [of d b] show "z \<in> live s (slab_set C L {}) FL"
            by (cases z) (auto simp: live_def)
        next
          fix z assume "z \<in> live s (slab_set C L {}) FL"
          then obtain d b where "z = (d, snd z)" "(d, b) \<in> slab_set C L {}"
            "snd z \<in> slab_cells s d b" "snd z \<notin> set (FL b)"
            by (auto simp: live_def)
          with new [of d b] show "z \<in> live s1 (slab_set C L {}) (FL(a := fs))"
            by (cases z) (auto simp: live_def)
        qed
        finally show ?thesis unfolding S .
      qed
      moreover have "rflags s1 = rflags s \<and> preempt_count s1 = preempt_count s"
        using 2(1) slab_create_flags by blast
      ultimately show thesis using got [of a s1 L] eq 2(1-3,6) \<open>fs \<noteq> []\<close> by simp
    qed
  qed
qed


text \<open>The invariant and the objects do not depend on the processor flags.\<close>

definition same_slabs :: "'a slabs_scheme \<Rightarrow> 'a slabs_scheme \<Rightarrow> bool" where
  "same_slabs s' s \<longleftrightarrow> buddy_zones s' = buddy_zones s \<and> slab_meta s' = slab_meta s \<and>
     caches s' = caches s \<and> slab_links s' = slab_links s \<and> memory s' = memory s"

lemma same_slabs_frame:
  assumes "same_slabs s' s"
  shows "layout s' = layout s" and "slab_frame s' a = slab_frame s a" and "slab_cells s' c a = slab_cells s c a"
  using assms by (simp_all add: same_slabs_def layout_def slab_frame_def page_frame_def slab_cells_def)

lemma same_slabs_inv:
  assumes "same_slabs s' s"
  shows "slabs_inv s' C V L FL H = slabs_inv s C V L FL H"
proof -
  note eq = assms [unfolded same_slabs_def]
  note frame = same_slabs_frame [OF assms]
  have "slab_ok s' c a fs = slab_ok s c a fs" for c a fs
    by (rule slab_ok_cong) (simp_all add: eq frame)
  moreover have "slab_blocks s' S = slab_blocks s S" for S by (simp add: slab_blocks_def frame eq)
  moreover have "buddy_ok s' U = buddy_ok s U" for U by (rule buddy_ok_cong) (simp add: eq)
  ultimately show ?thesis by (simp add: slabs_inv_def slab_lists_def phys_small_def frame eq)
qed

lemma same_slabs_live: "same_slabs s' s \<Longrightarrow> live s' S FL = live s S FL"
  by (simp add: live_def same_slabs_frame)

lemma do_slab_cache_alloc_spec:
  fixes s :: "'a slabs_scheme"
  assumes inv: "slabs_inv s C V L FL {}" and c: "c \<in> C"
  defines "X \<equiv> live s (slab_set C L {}) FL"
  obtains (none) "do_slab_cache_alloc c s = Inr (0, s)"
      and "fst (do_buddy_alloc (slab_order (caches s c)) s) = None"
  | (got) p s' L' FL' where "do_slab_cache_alloc c s = Inr (p, s')" and "p \<noteq> 0"
      and "slabs_inv s' C V L' FL' {}" and "live s' (slab_set C L' {}) FL' = insert (c, p) X"
      and "\<forall>d y. (d, y) \<in> X \<longrightarrow> p \<noteq> y" and "caches s' = caches s"
      and "rflags s' = rflags s" and "preempt_count s' = preempt_count s"
proof (cases rule: slab_pick_spec [OF inv c])
  case 1
  then show thesis using none by (simp add: do_slab_cache_alloc_def)
next
  case (2 a s1 L1 FL1)
  obtain x xs where fs: "FL1 a = x # xs" using 2(4) by (cases "FL1 a") auto
  obtain p s2 where run: "slab_alloc a s1 = (p, s2)" by (cases "slab_alloc a s1")
  note st = slab_alloc_step [OF 2(3) fs run]
  have ca: "(c, a) \<in> slab_set C L1 {(c, a)}" by (simp add: slab_set_def)
  let ?k = "if slab_count (slab_meta s2 a) \<noteq> 0 then Partial else Full"
  let ?FL = "FL1(a := xs)"
  define s3 where "s3 = upd_slab_links (list_add (Slab a) (LHead c ?k)) s2"
  define L2 where "L2 = L1((c, ?k) := a # L1 (c, ?k))"
  have "length xs < slab_size (caches s2 c)"
    using slab_count_bound(3) [OF 2(3) ca] fs st(4) by simp
  then have kind: "kind_ok ?k (length (?FL a)) (slab_size (caches s2 c))" using st(3) by simp
  note put = slab_put [OF st(2) kind, folded s3_def L2_def]
  have "(if slab_count (slab_meta s2 a) \<noteq> 0 then LHead c Partial else LHead c Full) = LHead c ?k" by simp
  then have run3: "do_slab_cache_alloc c s = Inr (p, s3)"
    using 2(1,2) run unfolding s3_def by (simp add: do_slab_cache_alloc_def)
  have "live s3 (slab_set C L2 {}) ?FL = live s1 (slab_set C L1 {(c, a)}) ?FL"
    unfolding put(2) by (rule live_cong) (simp_all add: s3_def st)
  also have "\<dots> = insert (c, x) X" using live_take(1) [OF 2(3) fs] 2(5) by (simp add: X_def)
  finally have live3: "live s3 (slab_set C L2 {}) ?FL = insert (c, p) X" using st(1) by simp
  have "x \<in> slab_cells s1 c a" using slabs_inv_ok [OF 2(3) ca] fs by (simp add: slab_ok_def)
  then have "p \<noteq> 0" using slab_cells_bounds(4) [OF 2(3) ca] st(1) by simp
  moreover have "\<forall>d y. (d, y) \<in> X \<longrightarrow> p \<noteq> y"
    using live_take(2) [OF 2(3) fs] st(1) 2(5) X_def by blast
  ultimately show thesis
    using got [OF run3 _ put(1) live3] st 2(6-8) by (simp add: s3_def upd_slab_links_def)
qed


subsection \<open>Release\<close>

text \<open>Rounding an object's address down to the size of a slab finds the slab.\<close>

lemma slab_of_object:
  assumes inv: "slabs_inv s C V L FL H" and ca: "(c, a) \<in> slab_set C L H" and p: "p \<in> slab_cells s c a"
  shows "slab_get_meta (caches s c) (NOT (slab_bytes (caches s c) - 1) AND p) = a"
proof -
  let ?k = "slab_order (caches s c)" and ?f = "slab_frame s a"
  let ?n = "12 + ?k"
  have ok: "slab_ok s c a (FL a)" by (rule slabs_inv_ok [OF inv ca])
  then have fit: "fits (caches s c) ?f" and al: "2 ^ ?k dvd ?f"
    and a: "a = slab_get_meta (caches s c) (block_base ?f)" by (simp_all add: slab_ok_def)
  note b = slab_cells_bounds [OF inv ca p]
  have k: "?k \<le> MAX_ORDER" and top: "?f * 4096 + 2 ^ ?n \<le> 2 ^ 47" using fit by (simp_all add: fits_def)
  have "slab_bytes (caches s c) - 1 = mask ?n"
    by (simp add: slab_bytes_def PAGE_SIZE_def mask_eq_exp_minus_1 push_bit_eq_mult power_add)
  then have "unat (NOT (slab_bytes (caches s c) - 1) AND p) = unat p div 2 ^ ?n * 2 ^ ?n"
    by (simp only: unat_clear_low)
  also have "\<dots> = block_first ?f"
  proof -
    have pos: "(0 :: nat) < 2 ^ ?n" by simp
    have "(2 :: nat) ^ ?n = 2 ^ ?k * 4096" by (simp add: power_add)
    then have d1: "2 ^ ?n dvd ?f * 4096" using al by (simp add: mult_dvd_mono)
    have "(2 :: nat) ^ ?n dvd 2 ^ 47"
      by (rule le_imp_power_dvd) (use k in \<open>simp add: MAX_ORDER_def\<close>)
    then have "(2 :: nat) ^ ?n dvd 2 ^ 47 * 131071" by (rule dvd_mult2)
    then have d2: "2 ^ ?n dvd KB" by simp
    have "2 ^ ?n dvd block_first ?f" by (rule dvd_add [OF d1 d2])
    then obtain q where q: "block_first ?f = 2 ^ ?n * q" by (elim dvdE)
    obtain r where r: "unat p = block_first ?f + r" using b(1) by (auto simp: le_iff_add)
    have "r < 2 ^ ?n" using b(2,3) r by linarith
    then have "unat p div 2 ^ ?n = q" using r q pos by simp
    then show ?thesis using q by (simp add: mult.commute)
  qed
  also have "\<dots> = unat (block_base ?f)"
    using top zero_less_power [of "2 :: nat" ?n] by (intro unat_block_base [symmetric]) linarith
  finally have "NOT (slab_bytes (caches s c) - 1) AND p = block_base ?f"
    by (rule word_unat_eq_iff [THEN iffD2])
  then show ?thesis using a by simp
qed

lemma do_slab_cache_free_spec:
  fixes s :: "'a slabs_scheme"
  assumes inv: "slabs_inv s C V L FL {}" and x: "(c, p) \<in> live s (slab_set C L {}) FL"
  defines "s' \<equiv> do_slab_cache_free c p s"
  shows "\<exists>L' FL'. slabs_inv s' C V L' FL' {} \<and>
      live s' (slab_set C L' {}) FL' = live s (slab_set C L {}) FL - {(c, p)} \<and>
      caches s' = caches s \<and> rflags s' = rflags s \<and> preempt_count s' = preempt_count s"
proof -
  obtain a where ca: "(c, a) \<in> slab_set C L {}" and p: "p \<in> slab_cells s c a - set (FL a)"
    using x by (auto simp: live_def)
  then obtain k where c: "c \<in> C" and a: "a \<in> set (L (c, k))" by (auto simp: slab_set_def)
  note take = slab_take [OF inv c a]
  define s1 where "s1 = upd_slab_links (list_del (Slab a)) s"
  define L1 where "L1 = L((c, k) := remove1 a (L (c, k)))"
  have inv1: "slabs_inv s1 C V L1 FL {(c, a)}" and set1: "slab_set C L1 {(c, a)} = slab_set C L {}"
    using take by (simp_all add: s1_def L1_def)
  have cells1: "slab_cells s1 d b = slab_cells s d b" for d b by (simp add: s1_def slab_cells_def)
  have p1: "p \<in> slab_cells s1 c a - set (FL a)" using p by (simp add: cells1)
  note st = slab_free_step [OF inv1 p1]
  define s2 where "s2 = slab_free a p s1"
  define FL2 where "FL2 = FL(a := p # FL a)"
  let ?k = "if slab_count (slab_meta s2 a) = slab_size (caches s c) then Empty else Partial"
  define s3 where "s3 = upd_slab_links (list_add (Slab a) (LHead c ?k)) s2"
  define L3 where "L3 = L1((c, ?k) := a # L1 (c, ?k))"
  have cs: "caches s1 = caches s" by (simp add: s1_def)
  have kind: "kind_ok ?k (length (FL2 a)) (slab_size (caches s2 c))"
    using st(2,3,7) cs by (simp add: s2_def FL2_def)
  note put = slab_put [OF st(1) [folded s2_def FL2_def] kind, folded s3_def L3_def]
  have meta: "slab_get_meta (caches s c) (NOT (slab_bytes (caches s c) - 1) AND p) = a"
    by (rule slab_of_object [OF inv ca]) (use p in blast)
  have "(if slab_count (slab_meta s2 a) = slab_size (caches s c) then LHead c Empty else LHead c Partial)
      = LHead c ?k" by simp
  then have s': "s' = s3"
    unfolding s'_def s3_def do_slab_cache_free_def Let_def meta s1_def [symmetric] s2_def [symmetric]
    by simp
  have "live s3 (slab_set C L3 {}) FL2 = live s1 (slab_set C L1 {(c, a)}) FL2"
    unfolding put(2) by (rule live_cong) (simp_all add: s3_def s2_def st)
  also have "\<dots> = live s1 (slab_set C L1 {(c, a)}) FL - {(c, p)}"
    unfolding FL2_def by (rule live_give [OF inv1 p1])
  also have "live s1 (slab_set C L1 {(c, a)}) FL = live s (slab_set C L {}) FL"
    unfolding set1 by (rule live_cong) (simp_all add: s1_def)
  finally have "live s3 (slab_set C L3 {}) FL2 = live s (slab_set C L {}) FL - {(c, p)}" .
  then show ?thesis
    unfolding s' using put(1) st(3,5,6) cs
    by (intro exI [of _ L3] exI [of _ FL2]) (simp add: s3_def s2_def s1_def upd_slab_links_def)
qed

subsection \<open>The contract of an object cache\<close>

text \<open>Live objects neither overlap nor lie at address 0.\<close>

lemma live_apart:
  assumes inv: "slabs_inv s C V L FL H"
    and x: "(c, x) \<in> live s (slab_set C L H) FL" and y: "(d, y) \<in> live s (slab_set C L H) FL"
    and ne: "(c, x) \<noteq> (d, y)"
  shows "unat x + unat (obj_size (caches s c)) \<le> unat y \<or> unat y + unat (obj_size (caches s d)) \<le> unat x"
proof -
  obtain a where a: "(c, a) \<in> slab_set C L H" "x \<in> slab_cells s c a" using x by (auto simp: live_def)
  obtain b where b: "(d, b) \<in> slab_set C L H" "y \<in> slab_cells s d b" using y by (auto simp: live_def)
  have "x \<noteq> y" using slab_cells_unique(2) [OF inv a, of d b] b ne by blast
  from objects_apart [OF inv a b this] show ?thesis .
qed

end
