(* ===== verification/Slab_Cache.thy ===== *)
theory Slab_Cache
  imports Slab_Ops
begin

text \<open>
  What the clients of the object caches rely on, stated over \<open>objs\<close>: the locale
  \<open>object_cache\<close> with its interpretation, what a client may write, how a cache is set up and
  how unused slabs go back to the buddy allocator.
\<close>

subsection \<open>The two calls inside their critical sections\<close>

lemma same_slabs_flags [simp]:
  "same_slabs (s\<lparr>rflags := f, preempt_count := n\<rparr>) s"
  "same_slabs (spin_unlock_int_restore () e s) s"
  by (simp_all add: same_slabs_def spin_unlock_int_restore_eq)

lemma objs_same: "same_slabs s' s \<Longrightarrow> objs s' C V X = objs s C V X"
  by (simp add: objs_def same_slabs_inv same_slabs_live)

lemma objs_unlock [simp]:
  "objs (spin_unlock_int_restore () e s) C V X = objs s C V X"
  "caches (spin_unlock_int_restore () e s) = caches s"
  by (rule objs_same) (simp_all add: spin_unlock_int_restore_eq)

text \<open>Whether the buddy allocator has a block does not depend on the processor flags.\<close>

lemma alloc_from_zones:
  "buddy_zones s = buddy_zones t \<Longrightarrow> fst (alloc_from is k s) = fst (alloc_from is k t)"
proof (induction "is" arbitrary: s t)
  case (Cons i "is")
  have "fst (buddy_alloc_zone i k s) = fst (buddy_alloc_zone i k t) \<and>
      buddy_zones (snd (buddy_alloc_zone i k s)) = buddy_zones (snd (buddy_alloc_zone i k t))"
    using Cons.prems by (simp add: buddy_alloc_zone_eq split_beta)
  then show ?case
    using Cons.IH by (auto simp: split_beta split: option.split)
qed simp

lemma do_buddy_alloc_zones:
  "buddy_zones s = buddy_zones t \<Longrightarrow> fst (do_buddy_alloc k s) = fst (do_buddy_alloc k t)"
  using alloc_from_zones [of s t] by (simp add: do_buddy_alloc_def)

lemma slab_cache_alloc_spec:
  fixes s :: "'a slabs_scheme"
  assumes ok: "objs s C V X" and c: "c \<in> C"
  obtains p s' where "slab_cache_alloc c s = Inr (p, s')"
    and "p = 0 \<Longrightarrow> objs s' C V X"
    and "p = 0 \<Longrightarrow> fst (do_buddy_alloc (slab_order (caches s c)) s) = None" and "p \<noteq> 0 \<Longrightarrow> objs s' C V (insert (c, p) X)"
    and "\<And>d. p \<noteq> 0 \<Longrightarrow> (d, p) \<notin> X"
    and "caches s' = caches s" and "rflags s' = rflags s" and "preempt_count s' = preempt_count s"
proof -
  obtain L FL where inv: "slabs_inv s C V L FL {}" and X: "X = live s (slab_set C L {}) FL"
    using ok by (auto simp: objs_def)
  obtain e s1 where lock: "spin_lock_int_save () s = (e, s1)" by (cases "spin_lock_int_save () s")
  then have same: "same_slabs s1 s" by (simp add: spin_lock_int_save_eq) (metis same_slabs_flags(1))
  have inv1: "slabs_inv s1 C V L FL {}" using inv same_slabs_inv [OF same] by simp
  have X1: "X = live s1 (slab_set C L {}) FL" using X same_slabs_live [OF same] by simp
  have cs: "caches s1 = caches s" using same by (simp add: same_slabs_def)
  show thesis
  proof (cases rule: do_slab_cache_alloc_spec [OF inv1 c])
    case 1
    let ?s' = "spin_unlock_int_restore () e s1"
    have "slab_cache_alloc c s = Inr (0, ?s')" using lock 1 by (simp add: slab_cache_alloc_def)
    moreover have "fst (do_buddy_alloc (slab_order (caches s c)) s) = None"
      using 1(2) cs do_buddy_alloc_zones [of s1 s] same by (simp add: same_slabs_def)
    moreover have "objs ?s' C V X" using inv1 X1 unfolding objs_unlock by (auto simp: objs_def)
    ultimately show thesis using that section_restores [OF lock refl refl] cs by simp
  next
    case (2 p s2 L' FL')
    let ?s' = "spin_unlock_int_restore () e s2"
    have "slab_cache_alloc c s = Inr (p, ?s')" using lock 2(1) by (simp add: slab_cache_alloc_def)
    moreover have "objs ?s' C V (insert (c, p) X)"
      using 2(3,4) X1 unfolding objs_unlock by (auto simp: objs_def)
    moreover have "(d, p) \<notin> X" for d using 2(5) X1 by blast
    moreover have "caches ?s' = caches s" using cs 2(6) by simp
    ultimately show thesis using that section_restores [OF lock 2(7,8)] 2(2) by simp
  qed
qed

lemma slab_cache_alloc_cases:
  fixes s :: "'a slabs_scheme"
  assumes "objs s C V X" and "c \<in> C"
  shows "\<exists>p s'. slab_cache_alloc c s = Inr (p, s') \<and>
      (p = 0 \<longrightarrow> objs s' C V X \<and> fst (do_buddy_alloc (slab_order (caches s c)) s) = None) \<and>
      (p \<noteq> 0 \<longrightarrow> objs s' C V (insert (c, p) X) \<and> (\<forall>d. (d, p) \<notin> X)) \<and>
      caches s' = caches s \<and> rflags s' = rflags s \<and> preempt_count s' = preempt_count s"
  by (rule slab_cache_alloc_spec [OF assms]) simp

lemma slab_cache_free_spec:
  fixes s :: "'a slabs_scheme"
  assumes ok: "objs s C V X" and x: "(c, p) \<in> X"
  shows "objs (slab_cache_free c p s) C V (X - {(c, p)}) \<and>
    caches (slab_cache_free c p s) = caches s \<and> rflags (slab_cache_free c p s) = rflags s \<and>
    preempt_count (slab_cache_free c p s) = preempt_count s"
proof -
  obtain L FL where inv: "slabs_inv s C V L FL {}" and X: "X = live s (slab_set C L {}) FL"
    using ok by (auto simp: objs_def)
  obtain e s1 where lock: "spin_lock_int_save () s = (e, s1)" by (cases "spin_lock_int_save () s")
  then have same: "same_slabs s1 s" by (simp add: spin_lock_int_save_eq) (metis same_slabs_flags(1))
  have inv1: "slabs_inv s1 C V L FL {}" using inv same_slabs_inv [OF same] by simp
  have X1: "X = live s1 (slab_set C L {}) FL" using X same_slabs_live [OF same] by simp
  let ?s2 = "do_slab_cache_free c p s1"
  obtain L' FL' where sp: "slabs_inv ?s2 C V L' FL' {}" "live ?s2 (slab_set C L' {}) FL' = X - {(c, p)}"
      "caches ?s2 = caches s1" "rflags ?s2 = rflags s1" "preempt_count ?s2 = preempt_count s1"
    using do_slab_cache_free_spec [OF inv1, of c p] x X1 by auto
  have run: "slab_cache_free c p s = spin_unlock_int_restore () e ?s2"
    using lock by (simp add: slab_cache_free_def)
  have "objs ?s2 C V (X - {(c, p)})" using sp(1,2) by (auto simp: objs_def)
  moreover have "caches ?s2 = caches s" using same sp(3) by (simp add: same_slabs_def)
  ultimately show ?thesis
    unfolding run using section_restores [OF lock sp(4,5)] by simp
qed

subsection \<open>The interface\<close>

text \<open>
  \<open>used s X\<close>: \<open>X\<close> are the objects handed out; \<open>bytes s c\<close>: how many bytes each
  object of cache \<open>c\<close> has.
\<close>

locale object_cache =
  fixes used :: "'s \<Rightarrow> ('c \<times> u64) set \<Rightarrow> bool"
    and keys :: "'c set"
    and bytes :: "'s \<Rightarrow> 'c \<Rightarrow> nat"
    and alloc :: "'c \<Rightarrow> 's \<Rightarrow> (u64 \<times> 's) result"
    and free :: "'c \<Rightarrow> u64 \<Rightarrow> 's \<Rightarrow> 's"
  assumes used_apart:
      "used s X \<Longrightarrow> (c, x) \<in> X \<Longrightarrow> (d, y) \<in> X \<Longrightarrow> (c, x) \<noteq> (d, y) \<Longrightarrow>
        unat x + bytes s c \<le> unat y \<or> unat y + bytes s d \<le> unat x"
    and alloc_ok:
      "used s X \<Longrightarrow> c \<in> keys \<Longrightarrow> \<exists>p s'. alloc c s = Inr (p, s') \<and> bytes s' = bytes s \<and>
        (p = 0 \<longrightarrow> used s' X) \<and> (p \<noteq> 0 \<longrightarrow> used s' (insert (c, p) X) \<and> (\<forall>d. (d, p) \<notin> X))"
    and free_ok:
      "used s X \<Longrightarrow> (c, p) \<in> X \<Longrightarrow> used (free c p s) (X - {(c, p)}) \<and> bytes (free c p s) = bytes s"
begin

text \<open>A new object overlaps no other; allocating and releasing keeps the objects in use.\<close>

lemma alloc_apart:
  assumes "used s X" and "c \<in> keys" and "alloc c s = Inr (p, s')" and "p \<noteq> 0" and "(d, y) \<in> X"
  shows "unat p + bytes s c \<le> unat y \<or> unat y + bytes s d \<le> unat p"
proof -
  have a: "used s' (insert (c, p) X)" "(c, p) \<notin> X" "bytes s' = bytes s"
    using alloc_ok [OF assms(1,2)] assms(3,4) by auto
  then have "(c, p) \<noteq> (d, y)" using assms(5) by blast
  then show ?thesis using used_apart [OF a(1), of c p d y] assms(5) a(3) by simp
qed

lemma alloc_then_free:
  assumes "used s X" and "c \<in> keys" and "alloc c s = Inr (p, s')" and "p \<noteq> 0"
  shows "used (free c p s') X"
proof -
  have a: "used s' (insert (c, p) X)" "(c, p) \<notin> X"
    using alloc_ok [OF assms(1,2)] assms(3,4) by auto
  from free_ok [OF a(1), of c p] a(2) show ?thesis by simp
qed

text \<open>Releasing any set of objects one by one, in any order.\<close>

lemma free_all:
  assumes "used s X" and "set xs \<subseteq> X" and "distinct xs"
  shows "used (fold (\<lambda>(c, p). free c p) xs s) (X - set xs)"
  using assms
proof (induction xs arbitrary: s X)
  case Nil
  then show ?case by simp
next
  case (Cons x xs)
  obtain c p where x: "x = (c, p)" by (cases x)
  have u: "used (free c p s) (X - {(c, p)})" using free_ok [OF Cons.prems(1), of c p] Cons.prems(2) x by simp
  have "used (fold (\<lambda>(c, p). free c p) xs (free c p s)) (X - {(c, p)} - set xs)"
    by (rule Cons.IH [OF u]) (use Cons.prems x in auto)
  moreover have "X - {(c, p)} - set xs = X - set (x # xs)" using x by auto
  ultimately show ?case using x by simp
qed

end

definition obj_bytes :: "'a slabs_scheme \<Rightarrow> nat \<Rightarrow> nat" where
  "obj_bytes s c = unat (obj_size (caches s c))"

interpretation slab: object_cache "\<lambda>s. objs s C V" C obj_bytes slab_cache_alloc slab_cache_free for C V
proof unfold_locales
  fix s :: "'a slabs_scheme" and X c x d y
  assume "objs s C V X" "(c, x) \<in> X" "(d, y) \<in> X" "(c, x) \<noteq> (d, y)"
  then show "unat x + obj_bytes s c \<le> unat y \<or> unat y + obj_bytes s d \<le> unat x"
    using live_apart [of s C V _ _ "{}" c x d y] by (auto simp: objs_def obj_bytes_def)
next
  fix s :: "'a slabs_scheme" and X c
  assume ok: "objs s C V X" "c \<in> C"
  from slab_cache_alloc_cases [OF ok]
  show "\<exists>p s'. slab_cache_alloc c s = Inr (p, s') \<and> obj_bytes s' = obj_bytes s \<and>
      (p = 0 \<longrightarrow> objs s' C V X) \<and> (p \<noteq> 0 \<longrightarrow> objs s' C V (insert (c, p) X) \<and> (\<forall>d. (d, p) \<notin> X))"
    by (auto simp: obj_bytes_def fun_eq_iff)
next
  fix s :: "'a slabs_scheme" and X c p
  assume "objs s C V X" "(c, p) \<in> X"
  from slab_cache_free_spec [OF this]
  show "objs (slab_cache_free c p s) C V (X - {(c, p)}) \<and> obj_bytes (slab_cache_free c p s) = obj_bytes s"
    by (auto simp: obj_bytes_def fun_eq_iff)
qed

subsection \<open>Clients write their own objects only\<close>

lemma client_write:
  fixes s :: "'a slabs_scheme"
  assumes ok: "objs s C V X" and x: "(c, p) \<in> X"
    and eq: "s' = s\<lparr>memory := m\<rparr>"
    and mem: "\<And>a. m a \<noteq> memory s a \<Longrightarrow> unat p \<le> unat a \<and> unat a < unat p + obj_bytes s c"
  shows "objs s' C V X"
proof -
  obtain L FL where inv: "slabs_inv s C V L FL {}" and X: "X = live s (slab_set C L {}) FL"
    using ok by (auto simp: objs_def)
  obtain a where ca: "(c, a) \<in> slab_set C L {}" and p: "p \<in> slab_cells s c a" "p \<notin> set (FL a)"
    using x X by (auto simp: live_def)
  have lay: "layout s' = layout s" by (simp add: eq layout_def)
  have frame: "slab_frame s' b = slab_frame s b" for b
    by (simp add: eq slab_frame_def page_frame_def layout_def)
  have slabs: "slab_ok s' d b (FL b)" if db: "(d, b) \<in> slab_set C L {}" for d b
  proof -
    have "slab_ok s' d b (FL b) = slab_ok s d b (FL b)"
    proof (rule slab_ok_cong [OF lay])
      fix y assume y: "y \<in> set (FL b)"
      then have yc: "y \<in> slab_cells s d b" using slabs_inv_ok [OF inv db] by (auto simp: slab_ok_def)
      have ne: "p \<noteq> y"
      proof
        assume "p = y"
        then have "a = b" using slab_cells_unique(1) [OF inv ca p(1) db] yc by simp
        then show False using p(2) y \<open>p = y\<close> by simp
      qed
      note apart = objects_apart [OF inv ca p(1) db yc ne]
      note bd = slab_cells_bounds [OF inv db yc]
      show "load_u64 (memory s') y = load_u64 (memory s) y"
      proof (rule load_u64_cong, rule ccontr)
        fix z assume z: "z \<in> span y 8" and ch: "memory s' z \<noteq> memory s z"
        have "unat y + 8 \<le> 2 ^ 64" using bd by linarith
        then have "unat y \<le> unat z" "unat z < unat y + 8" using z by (simp_all add: span_unat)
        moreover have "m z \<noteq> memory s z" using ch by (simp add: eq)
        ultimately show False using mem [of z] apart bd(3) by (simp add: obj_bytes_def)
      qed
    qed (simp_all add: eq)
    then show ?thesis using slabs_inv_ok [OF inv db] by simp
  qed
  have "slab_blocks s' S = slab_blocks s S" for S by (simp add: slab_blocks_def frame) (simp add: eq)
  moreover have "buddy_ok s' U = buddy_ok s U" for U by (rule buddy_ok_cong) (simp add: eq)
  ultimately have "slabs_inv s' C V L FL {}"
    using inv slabs unfolding slabs_inv_def by (simp add: slab_lists_def phys_small_def lay) (simp add: eq)
  moreover have "X = live s' (slab_set C L {}) FL"
    unfolding X by (rule live_cong [symmetric]) (simp_all add: frame, simp add: eq)
  ultimately show ?thesis by (auto simp: objs_def)
qed

subsection \<open>Setting up a cache\<close>

text \<open>The order chosen gives room for at least \<open>MAX_ORDER\<close> objects, or is too large for any block.\<close>

lemma pick_order_spec:
  assumes "pick_order obj k b = (order, bytes)" and "k \<le> MAX_ORDER + 1" and "8 \<le> unat obj"
  shows "k \<le> order \<and> order \<le> MAX_ORDER + 1 \<and> (order \<le> MAX_ORDER \<longrightarrow>
      MAX_ORDER \<le> unat (bytes div obj) \<and> unat bytes + 40 = 2 ^ (12 + order))"
  using assms
proof (induction obj k b rule: pick_order.induct)
  case (1 obj k b)
  show ?case
  proof (cases "k \<le> MAX_ORDER")
    case False
    then show ?thesis using 1(2,3) by (subst (asm) pick_order.simps) auto
  next
    case True
    let ?b = "push_bit k PAGE_SIZE - sizeof_slab"
    have "(2 :: nat) ^ (12 + k) \<le> 2 ^ 32" "(2 :: nat) ^ 12 \<le> 2 ^ (12 + k)"
      by (rule power_increasing; use True in \<open>simp add: MAX_ORDER_def\<close>)+
    then have *: "(2 :: nat) ^ (12 + k) < 2 ^ 64" "40 \<le> (2 :: nat) ^ (12 + k)" by simp_all
    have u: "unat (push_bit k PAGE_SIZE) = 2 ^ (12 + k)"
      using unat_slab_bytes [of "\<lparr>slab_order = k, slab_size = 0, obj_size = 0\<rparr>"] True
      by (simp add: slab_bytes_def)
    then have "sizeof_slab \<le> push_bit k PAGE_SIZE"
      using *(2) by (simp add: word_le_nat_alt sizeof_slab_def)
    then have b: "unat ?b + 40 = 2 ^ (12 + k)"
      using u *(2) by (simp add: unat_sub sizeof_slab_def)
    show ?thesis
    proof (cases "MAX_ORDER \<le> unat (?b div obj)")
      case t: True
      then have "order = k \<and> bytes = ?b"
        using 1(2) True by (subst (asm) pick_order.simps) (auto simp add: Let_def)
      then show ?thesis using t b True by simp
    next
      case f: False
      then have "pick_order obj (k + 1) ?b = (order, bytes)"
        using 1(2) True by (subst (asm) pick_order.simps) (simp add: Let_def)
      from 1(1) [OF True refl f this] 1(4) True show ?thesis by simp
    qed
  qed
qed

lemma slab_align_up_8:
  assumes "unat x \<le> 2 ^ 32"
  shows "unat (slab_align_up x 8) = (unat x + 7) div 8 * 8"
proof -
  have u: "unat (x + 8 - 1) = unat x + 7" using assms by (simp add: unat_word_ariths)
  have "unat (slab_align_up x 8) = unat (x + 8 - 1) - unat (x + 8 - 1) mod 8"
    unfolding slab_align_up_def slab_align_down_def
    by (subst unat_sub) (simp_all add: unat_mod word_le_nat_alt)
  then show ?thesis unfolding u by (simp add: minus_mod_eq_div_mult)
qed

lemma slab_cache_setup_spec:
  fixes s :: "'a slabs_scheme"
  assumes ok: "objs s C V X" and new: "c \<notin> C" and sz: "unat sz \<le> 2 ^ 32"
  obtains s' where "slab_cache_setup c sz s = Inr s'" and "objs s' (insert c C) V X"
    and "obj_bytes s' c = max 8 ((unat sz + 7) div 8 * 8)"
    and "slab_order (caches s' c) \<le> MAX_ORDER \<longrightarrow> MAX_ORDER \<le> slab_size (caches s' c)"
    and "\<And>d. d \<noteq> c \<Longrightarrow> caches s' d = caches s d"
    and "rflags s' = rflags s" and "preempt_count s' = preempt_count s"
proof -
  obtain L FL where inv: "slabs_inv s C V L FL {}" and X: "X = live s (slab_set C L {}) FL"
    using ok by (auto simp: objs_def)
  define sz1 where "sz1 = (if sz < sizeof_list then sizeof_list else sz)"
  have sz1: "unat sz1 = max 8 (unat sz)" by (simp add: sz1_def sizeof_list_def word_less_nat_alt max_def)
  define obj where "obj = slab_align_up sz1 8"
  have obj: "unat obj = max 8 ((unat sz + 7) div 8 * 8)"
    unfolding obj_def using slab_align_up_8 [of sz1] sz sz1 by (auto simp: max_def)
  obtain order bytes where pick: "pick_order obj 0 0 = (order, bytes)" by (cases "pick_order obj 0 0")
  note ps = pick_order_spec [OF pick]
  define cache where "cache = \<lparr>slab_order = order, slab_size = unat (bytes div obj), obj_size = obj\<rparr>"
  define h where "h = list_init (LHead c Empty) (list_init (LHead c Partial)
      (list_init (LHead c Full) (slab_links s)))"
  define s' where "s' = s\<lparr>slab_links := h, caches := (caches s)(c := cache)\<rparr>"
  have "\<not> push_bit MAX_ORDER PAGE_SIZE < sz1"
    using sz1 sz by (simp add: word_less_nat_alt MAX_ORDER_def PAGE_SIZE_def push_bit_eq_mult)
  then have run: "slab_cache_setup c sz s = Inr s'"
    using pick by (simp add: slab_cache_setup_def do_slab_cache_setup_def sz1_def [symmetric]
        obj_def [symmetric] Let_def s'_def h_def cache_def spin_setup_def)
  have cok: "cache_ok cache" and many: "order \<le> MAX_ORDER \<longrightarrow> MAX_ORDER \<le> slab_size cache"
  proof -
    have "unat (bytes div obj) * unat obj \<le> unat bytes" by (simp add: unat_div)
    then show "cache_ok cache" using ps obj by (auto simp: cache_ok_def cache_def MAX_ORDER_def)
    show "order \<le> MAX_ORDER \<longrightarrow> MAX_ORDER \<le> slab_size cache" using ps obj by (simp add: cache_def)
  qed
  define L' where "L' = L((c, Full) := [], (c, Partial) := [], (c, Empty) := [])"
  have lists: "dlists slab_hdr (slab_keys C) (slab_links s) (map Slab \<circ> L)"
    using inv by (simp add: slabs_inv_def slab_lists_def)
  let ?M = "map Slab \<circ> L"
  have no: "slab_hdr (c, k) \<notin> set (slab_hdr j # map Slab xs)" if "j \<noteq> (c, k)" for j k xs
    using that by (cases j) (auto simp: slab_hdr_def)
  have l1: "dlists slab_hdr (insert (c, Full) (slab_keys C))
      (list_init (LHead c Full) (slab_links s)) (?M((c, Full) := []))"
    using dlists_init [OF lists, of "(c, Full)"] no new by (force simp: slab_hdr_def)
  have l2: "dlists slab_hdr (insert (c, Partial) (insert (c, Full) (slab_keys C)))
      (list_init (LHead c Partial) (list_init (LHead c Full) (slab_links s)))
      (?M((c, Full) := [], (c, Partial) := []))"
    using dlists_init [OF l1, of "(c, Partial)"] no new by (force simp: slab_hdr_def)
  have "dlists slab_hdr (insert (c, Empty) (insert (c, Partial) (insert (c, Full) (slab_keys C)))) h
      (?M((c, Full) := [], (c, Partial) := [], (c, Empty) := []))"
    unfolding h_def
    using dlists_init [OF l2, of "(c, Empty)"] no new by (force simp: slab_hdr_def)
  moreover have "insert (c, Empty) (insert (c, Partial) (insert (c, Full) (slab_keys C))) = slab_keys (insert c C)"
    using slab_list.exhaust by auto
  moreover have "?M((c, Full) := [], (c, Partial) := [], (c, Empty) := []) = map Slab \<circ> L'"
    by (auto simp: L'_def)
  ultimately have lists': "slab_lists s' (insert c C) L'" by (simp add: slab_lists_def s'_def)
  have set': "slab_set (insert c C) L' {} = slab_set C L {}"
  proof -
    have "L' (c, k) = []" for k by (cases k) (simp_all add: L'_def)
    moreover have "L' (d, k) = L (d, k)" if "d \<noteq> c" for d k using that by (simp add: L'_def)
    ultimately show ?thesis using new by (auto simp: slab_set_def) (metis empty_iff list.set(1))+
  qed
  have lay: "layout s' = layout s" by (simp add: s'_def layout_def)
  have frame: "slab_frame s' a = slab_frame s a" for a
    by (simp add: s'_def slab_frame_def page_frame_def layout_def)
  have old: "caches s' d = caches s d" if "d \<noteq> c" for d using that by (simp add: s'_def)
  have inC: "d \<noteq> c" if "(d, a) \<in> slab_set C L {}" for d a using that new by (auto simp: slab_set_def)
  have "slab_ok s' d a (FL a)" if da: "(d, a) \<in> slab_set C L {}" for d a
  proof -
    have "slab_ok s' d a (FL a) = slab_ok s d a (FL a)"
      by (rule slab_ok_cong [OF lay _ old [OF inC [OF da]]]) (simp_all add: s'_def)
    then show ?thesis using slabs_inv_ok [OF inv da] by simp
  qed
  moreover have "slab_blocks s' (slab_set C L {}) = slab_blocks s (slab_set C L {})"
    unfolding slab_blocks_def by (rule image_cong [OF refl]) (use old inC frame in auto)
  moreover have "buddy_ok s' U = buddy_ok s U" for U by (rule buddy_ok_cong) (simp add: s'_def)
  moreover have "cache_ok (caches s' d)" if "d \<in> insert c C" for d
  proof (cases "d = c")
    case True
    then show ?thesis using cok by (simp add: s'_def)
  next
    case False
    then show ?thesis using that old inv by (simp add: slabs_inv_def)
  qed
  moreover have "kind_ok k (length (FL a)) (slab_size (caches s' d))"
    if "d \<in> insert c C" "a \<in> set (L' (d, k))" for d k a
  proof -
    have "d \<noteq> c" using that(2) by (cases k) (auto simp: L'_def)
    then show ?thesis using that inv old unfolding slabs_inv_def by (auto simp: L'_def)
  qed
  ultimately have "slabs_inv s' (insert c C) V L' FL {}"
    using inv lists' unfolding slabs_inv_def set' by (simp add: phys_small_def lay)
  moreover have "X = live s' (slab_set (insert c C) L' {}) FL"
    unfolding X set' live_def slab_cells_def using frame old inC by auto
  ultimately have "objs s' (insert c C) V X" unfolding objs_def by blast
  then show thesis
    using that [OF run] old many obj by (simp add: s'_def cache_def obj_bytes_def)
qed

end
