(* ===== verification/Slab_Shrink.thy ===== *)
theory Slab_Shrink
  imports Slab_Cache
begin

text \<open>
  Giving unused slabs back (\<open>slab_cache_shrink\<close>, \<open>slab_cache_release\<close> of
  \<open>src/slab.c\<close>): the unused slabs are moved to a local list inside the critical section and
  destroyed one by one outside of it. The loop ends because it walks a list nobody else links.
\<close>

subsection \<open>Destroying one slab\<close>

lemma slab_destroy_spec:
  fixes s :: "'a slabs_scheme"
  assumes inv: "slabs_inv s C V L FL H" and ca: "(c, a) \<in> H"
  obtains s' where "slab_destroy c a s = Inr s'" and "slabs_inv s' C V L FL (H - {(c, a)})"
    and "s' = s\<lparr>buddy_zones := buddy_zones s'\<rparr>" and "layout s' = layout s"
proof -
  let ?S = "slab_set C L H" and ?x = "(slab_frame s a, slab_order (caches s c))"
  let ?U = "V \<union> slab_blocks s ?S"
  have caS: "(c, a) \<in> ?S" using ca by (simp add: slab_set_def)
  have ok: "slab_ok s c a (FL a)" by (rule slabs_inv_ok [OF inv caS])
  have U: "buddy_ok s ?U" using inv by (simp add: slabs_inv_def)
  have xB: "?x \<in> slab_blocks s ?S" using caS by (force simp: slab_blocks_def)
  have mem: "?x \<in> ?U" using xB by blast
  obtain s' where s': "do_buddy_free (slab_page (slab_meta s a)) (slab_order (caches s c)) s = Inr s'"
      "buddy_ok s' (?U - {?x})" "layout s' = layout s" "s' = s\<lparr>buddy_zones := buddy_zones s'\<rparr>"
    using do_buddy_free_ok [OF U, of "slab_page (slab_meta s a)" "slab_order (caches s c)"] ok mem
    by (auto simp: slab_ok_def slab_frame_def)
  have same: "memory s' = memory s" "slab_meta s' = slab_meta s" "caches s' = caches s"
    "slab_links s' = slab_links s" by (subst s'(4), simp)+
  have frame: "slab_frame s' b = slab_frame s b" for b
    by (simp add: slab_frame_def same page_frame_cong [OF s'(3)])
  have fresh: "b \<notin> set (L (d, k))" if "(d', b) \<in> H" "d \<in> C" for d d' b k
    using inv that by (auto simp: slabs_inv_def)
  have S': "slab_set C L (H - {(c, a)}) = ?S - {(c, a)}"
    using fresh [OF ca] by (auto simp: slab_set_def)
  have other: "(slab_frame s b, slab_order (caches s d)) \<noteq> ?x" if db: "(d, b) \<in> ?S" "(d, b) \<noteq> (c, a)" for d b
  proof
    assume eq: "(slab_frame s b, slab_order (caches s d)) = ?x"
    have "a \<noteq> b" using inv caS db unfolding slabs_inv_def by blast
    from slabs_apart [OF inv caS db(1) this] eq show False by simp
  qed
  have "slab_blocks s (?S - {(c, a)}) = slab_blocks s ?S - {?x}"
    using other by (force simp: slab_blocks_def)
  moreover have "slab_blocks s' T = slab_blocks s T" for T by (simp add: slab_blocks_def frame same)
  ultimately have blocks: "slab_blocks s' (?S - {(c, a)}) = slab_blocks s ?S - {?x}"
    by simp
  have disj: "V \<inter> slab_blocks s ?S = {}" using inv by (simp add: slabs_inv_def)
  then have "V \<union> (slab_blocks s ?S - {?x}) = ?U - {?x}" using xB by blast
  moreover have "slab_ok s' d b (FL b) = slab_ok s d b (FL b)" for d b
    by (rule slab_ok_cong [OF s'(3)]) (simp_all add: same)
  ultimately have "slabs_inv s' C V L FL (H - {(c, a)})"
    using inv s'(2) disj unfolding slabs_inv_def S' blocks
    by (auto simp: slab_lists_def phys_small_def same s'(3))
  then show thesis using that s' by (simp add: slab_destroy_def)
qed

lemma destroy_loop_spec:
  fixes s :: "'a slabs_scheme"
  assumes "slabs_inv s C V L FL (Pair c ` set as)" and "distinct as"
    and "lpath (slab_links s) prev (map Slab as) Shrink"
  obtains s' where "destroy_loop c (nxt (slab_links s) prev) s = Some (Inr s')"
    and "slabs_inv s' C V L FL {}" and "s' = s\<lparr>buddy_zones := buddy_zones s'\<rparr>" and "layout s' = layout s"
proof -
  have "\<exists>s'. destroy_loop c (nxt (slab_links s) prev) s = Some (Inr s') \<and>
      slabs_inv s' C V L FL {} \<and> s' = s\<lparr>buddy_zones := buddy_zones s'\<rparr> \<and> layout s' = layout s"
    using assms
  proof (induction as arbitrary: s prev)
    case Nil
    then show ?case by (auto simp: destroy_loop.simps)
  next
    case (Cons a as)
    obtain s1 where s1: "slab_destroy c a s = Inr s1"
        "slabs_inv s1 C V L FL (Pair c ` set (a # as) - {(c, a)})"
        "s1 = s\<lparr>buddy_zones := buddy_zones s1\<rparr>" "layout s1 = layout s"
      using slab_destroy_spec [OF Cons.prems(1), of c a] by auto
    have rest: "Pair c ` set (a # as) - {(c, a)} = Pair c ` set as" using Cons.prems(2) by auto
    have links: "slab_links s1 = slab_links s" by (subst s1(3), simp)
    have path: "nxt (slab_links s) prev = Slab a" "lpath (slab_links s1) (Slab a) (map Slab as) Shrink"
      using Cons.prems(3) by (simp_all add: links)
    obtain s2 where s2: "destroy_loop c (nxt (slab_links s1) (Slab a)) s1 = Some (Inr s2)"
        "slabs_inv s2 C V L FL {}" "s2 = s1\<lparr>buddy_zones := buddy_zones s2\<rparr>" "layout s2 = layout s1"
      using Cons.IH [OF s1(2) [unfolded rest] _ path(2)] Cons.prems(2) by auto
    have "destroy_loop c (Slab a) s = destroy_loop c (nxt (slab_links s1) (Slab a)) s1"
      by (subst destroy_loop.simps) (simp add: node_slab_def s1(1) links)
    moreover have "s2 = s\<lparr>buddy_zones := buddy_zones s2\<rparr>" by (subst s2(3), subst s1(3), simp)
    ultimately show ?case using s2 s1(4) path(1) by auto
  qed
  then show thesis using that by blast
qed

subsection \<open>Moving the unused slabs to the local list\<close>

lemma dlists_option:
  assumes fam: "dlists hdr I h L" and n: "\<And>k. k \<in> I \<Longrightarrow> n \<notin> set (hdr k # L k)"
  shows "dlists (case_option n hdr) (insert None (Some ` I)) (list_init n h) (case_option [] L)"
proof -
  have "dlists (case_option n hdr) (Some ` I) h (case_option xs L)" for xs
    using fam unfolding dlists_def by auto
  moreover have "case_option n hdr None \<notin> set (case_option n hdr j # case_option [] L j)"
    if "j \<in> Some ` I" for j
    using that n by auto
  ultimately have "dlists (case_option n hdr) (insert None (Some ` I))
      (list_init (case_option n hdr None) h) ((case_option [] L)(None := []))"
    by (rule dlists_init)
  moreover have "(case_option [] L)(None := []) = case_option [] L"
    by (rule ext) (simp split: option.split)
  ultimately show ?thesis by simp
qed

lemma shrink_lists:
  assumes lists: "slab_lists s C L" and c: "c \<in> C"
  defines "h \<equiv> list_splice (LHead c Empty) Shrink (list_init Shrink (slab_links s))"
  shows "dlists slab_hdr (slab_keys C) h (map Slab \<circ> L((c, Empty) := []))"
    and "lpath h Shrink (map Slab (L (c, Empty))) Shrink"
proof -
  let ?M = "map Slab \<circ> L" and ?hdr = "case_option Shrink slab_hdr"
  let ?I = "insert None (Some ` slab_keys C)"
  let ?k = "Some (c, Empty)"
  have "dlists ?hdr ?I (list_init Shrink (slab_links s)) (case_option [] ?M)"
    by (rule dlists_option [OF lists [unfolded slab_lists_def]]) (auto simp: slab_hdr_def)
  from dlists_splice [OF this, of ?k None] c
  have fam: "dlists ?hdr ?I h ((case_option [] ?M)(?k := [], None := ?M (c, Empty)))"
    by (simp add: h_def slab_hdr_def)
  show "dlists slab_hdr (slab_keys C) h (map Slab \<circ> L((c, Empty) := []))"
    unfolding dlists_def
  proof (intro conjI ballI impI)
    fix k assume k: "k \<in> slab_keys C"
    then show "dlist h (slab_hdr k) ((map Slab \<circ> L((c, Empty) := [])) k)"
      using dlists_dlist [OF fam, of "Some k"] by (auto simp: fun_upd_def split: if_splits)
    fix j assume j: "j \<in> slab_keys C" "k \<noteq> j"
    show "set (slab_hdr k # (map Slab \<circ> L((c, Empty) := [])) k) \<inter>
        set (slab_hdr j # (map Slab \<circ> L((c, Empty) := [])) j) = {}"
      using dlists_disjoint [OF fam, of "Some k" "Some j"] k j by (auto simp: fun_upd_def split: if_splits)
  qed
  show "lpath h Shrink (map Slab (L (c, Empty))) Shrink"
    using dlists_dlist [OF fam, of None] by (simp add: dlist_def)
qed

subsection \<open>The operation\<close>

lemma slab_cache_shrink_spec:
  fixes s :: "'a slabs_scheme"
  assumes ok: "objs s C V X" and c: "c \<in> C"
  obtains s' where "slab_cache_shrink c s = Some (Inr s')" and "objs s' C V X"
    and "list_empty (LHead c Empty) (slab_links s')"
    and "caches s' = caches s" and "rflags s' = rflags s" and "preempt_count s' = preempt_count s"
proof -
  obtain L FL where inv: "slabs_inv s C V L FL {}" and X: "X = live s (slab_set C L {}) FL"
    using ok by (auto simp: objs_def)
  obtain e s1 where lock: "spin_lock_int_save () s = (e, s1)" by (cases "spin_lock_int_save () s")
  then have same1: "same_slabs s1 s" by (simp add: spin_lock_int_save_eq) (metis same_slabs_flags(1))
  define h where "h = list_splice (LHead c Empty) Shrink (list_init Shrink (slab_links s))"
  define s3 where "s3 = upd_slab_links (list_splice (LHead c Empty) Shrink) (upd_slab_links (list_init Shrink) s1)"
  define s4 where "s4 = spin_unlock_int_restore () e s3"
  have s3: "rflags s3 = rflags s1" "preempt_count s3 = preempt_count s1"
    by (simp_all add: s3_def upd_slab_links_def)
  note fl = section_restores [OF lock s3, folded s4_def]
  define as where "as = L (c, Empty)"
  define L2 where "L2 = L((c, Empty) := [])"
  have s4: "buddy_zones s4 = buddy_zones s" "slab_meta s4 = slab_meta s" "caches s4 = caches s"
    "memory s4 = memory s" "slab_links s4 = h"
    using same1 by (simp_all add: s4_def s3_def spin_unlock_int_restore_eq same_slabs_def h_def)
  have lay: "layout s4 = layout s" by (simp add: layout_def s4)
  have frame: "slab_frame s4 b = slab_frame s b" for b
    by (simp add: slab_frame_def s4 page_frame_cong [OF lay])
  have lists: "slab_lists s C L" using inv by (simp add: slabs_inv_def)
  note sl = shrink_lists [OF lists c, folded h_def L2_def as_def]
  have key: "(c, Empty) \<in> slab_keys C" using c by simp
  have dist: "distinct as"
    using dlists_distinct [OF lists [unfolded slab_lists_def] key] by (simp add: as_def distinct_map)
  have setL: "slab_set C L2 (Pair c ` set as) = slab_set C L {}"
  proof -
    have "b \<in> set (L2 (d, k)) \<longleftrightarrow> b \<in> set (L (d, k)) \<and> (d, k) \<noteq> (c, Empty)" for b d k
      by (auto simp: L2_def)
    then show ?thesis unfolding slab_set_def as_def using c by blast
  qed
  have inv4: "slabs_inv s4 C V L2 FL (Pair c ` set as)"
    unfolding slabs_inv_def setL
  proof (intro conjI)
    show "slab_lists s4 C L2" using sl(1) by (simp add: slab_lists_def s4 L2_def comp_def)
    show "\<forall>d a k. (d, a) \<in> Pair c ` set as \<longrightarrow> k \<in> slab_keys C \<longrightarrow> a \<notin> set (L2 k)"
      using slab_lists_keys [OF lists _ key] by (auto simp: L2_def as_def split: if_splits)
    have "slab_ok s4 d a (FL a) = slab_ok s d a (FL a)" for d a
      by (rule slab_ok_cong [OF lay]) (simp_all add: s4)
    then show "\<forall>d a. (d, a) \<in> slab_set C L {} \<longrightarrow> slab_ok s4 d a (FL a)"
      using inv by (simp add: slabs_inv_def)
    have "buddy_ok s4 U = buddy_ok s U" for U by (rule buddy_ok_cong) (simp add: s4)
    moreover have "slab_blocks s4 S = slab_blocks s S" for S by (simp add: slab_blocks_def frame s4)
    ultimately show "buddy_ok s4 (V \<union> slab_blocks s4 (slab_set C L {}))"
        "V \<inter> slab_blocks s4 (slab_set C L {}) = {}"
      using inv by (simp_all add: slabs_inv_def)
    show "\<forall>d\<in>C. \<forall>k. \<forall>a\<in>set (L2 (d, k)). kind_ok k (length (FL a)) (slab_size (caches s4 d))"
      using inv by (auto simp: slabs_inv_def s4 L2_def)
  qed (use inv c in \<open>auto simp: slabs_inv_def phys_small_def lay s4\<close>)
  have path: "lpath (slab_links s4) Shrink (map Slab as) Shrink" using sl(2) by (simp add: s4)
  obtain s5 where s5: "destroy_loop c (nxt (slab_links s4) Shrink) s4 = Some (Inr s5)"
      "slabs_inv s5 C V L2 FL {}" "s5 = s4\<lparr>buddy_zones := buddy_zones s5\<rparr>" "layout s5 = layout s4"
    by (rule destroy_loop_spec [OF inv4 dist path])
  have same5: "slab_meta s5 = slab_meta s" "caches s5 = caches s" "slab_links s5 = h"
    "rflags s5 = rflags s" "preempt_count s5 = preempt_count s"
    by (subst s5(3), simp add: s4 fl)+
  have frame5: "slab_frame s5 b = slab_frame s b" for b
    using page_frame_cong [OF s5(4)] page_frame_cong [OF lay] by (simp add: slab_frame_def same5)
  have full: "slab_cells s c a \<subseteq> set (FL a)" if a: "a \<in> set as" for a
  proof -
    have ca: "(c, a) \<in> slab_set C L {}" using c a by (auto simp: slab_set_def as_def)
    have "length (FL a) = slab_size (caches s c)"
      using inv c a unfolding slabs_inv_def as_def by fastforce
    moreover have sub: "distinct (FL a)" "set (FL a) \<subseteq> slab_cells s c a"
      using slabs_inv_ok [OF inv ca] by (simp_all add: slab_ok_def)
    ultimately have "card (set (FL a)) = card (slab_cells s c a)"
      using slab_count_bound(1) [OF inv ca] by (simp add: distinct_card)
    then have "set (FL a) = slab_cells s c a"
      using card_subset_eq [OF slab_count_bound(4) [OF inv ca] sub(2)] by blast
    then show ?thesis by simp
  qed
  have "X = live s5 (slab_set C L2 {}) FL"
  proof -
    have cells: "slab_cells s5 d b = slab_cells s d b" for d b by (simp add: slab_cells_def same5 frame5)
    have "slab_set C L {} = slab_set C L2 {} \<union> Pair c ` set as"
      unfolding setL [symmetric] by (auto simp: slab_set_def)
    then show ?thesis unfolding X using full by (auto simp: live_def cells)
  qed
  then have "objs s5 C V X" using s5(2) by (auto simp: objs_def)
  moreover have "slab_cache_shrink c s = Some (Inr s5)"
    using lock s5(1) by (simp add: slab_cache_shrink_def s4_def s3_def Let_def)
  moreover have "list_empty (LHead c Empty) (slab_links s5)"
    using list_empty_iff [OF dlists_dlist [OF sl(1) key]] by (simp add: same5 slab_hdr_def L2_def)
  ultimately show thesis using that same5 by blast
qed

lemma slab_cache_release_spec:
  fixes s :: "'a slabs_scheme"
  assumes ok: "objs s C V X" and c: "c \<in> C"
  shows "(\<exists>p. (c, p) \<in> X) \<longrightarrow> slab_cache_release c s = Some (Inl Hang)"
    and "(\<forall>p. (c, p) \<notin> X) \<longrightarrow> (\<exists>s'. slab_cache_release c s = Some (Inr s') \<and> objs s' C V X)"
proof -
  obtain L FL where inv: "slabs_inv s C V L FL {}" and X: "X = live s (slab_set C L {}) FL"
    using ok by (auto simp: objs_def)
  have lists: "slab_lists s C L" using inv by (simp add: slabs_inv_def)
  have key: "(c, k) \<in> slab_keys C" for k using c by simp
  have empty: "list_empty (LHead c k) (slab_links s) \<longleftrightarrow> L (c, k) = []" for k
    using dl.lists_empty [OF lists [unfolded slab_lists_def] key, of k] by (simp add: slab_hdr_def)
  have busy: "(\<exists>p. (c, p) \<in> X) \<longleftrightarrow> L (c, Full) \<noteq> [] \<or> L (c, Partial) \<noteq> []"
  proof
    assume "\<exists>p. (c, p) \<in> X"
    then obtain p a where ca: "(c, a) \<in> slab_set C L {}" and p: "p \<in> slab_cells s c a" "p \<notin> set (FL a)"
      by (auto simp: X live_def)
    then obtain k where k: "a \<in> set (L (c, k))" by (auto simp: slab_set_def)
    have "k \<noteq> Empty"
    proof
      assume "k = Empty"
      then have "length (FL a) = slab_size (caches s c)" using inv c k unfolding slabs_inv_def by fastforce
      moreover have "distinct (FL a)" "set (FL a) \<subseteq> slab_cells s c a"
        using slabs_inv_ok [OF inv ca] by (simp_all add: slab_ok_def)
      ultimately show False
        using card_subset_eq [OF slab_count_bound(4) [OF inv ca]] slab_count_bound(1) [OF inv ca] p
        by (metis distinct_card)
    qed
    then show "L (c, Full) \<noteq> [] \<or> L (c, Partial) \<noteq> []" using k by (cases k) auto
  next
    assume "L (c, Full) \<noteq> [] \<or> L (c, Partial) \<noteq> []"
    then obtain k a where k: "k \<noteq> Empty" "a \<in> set (L (c, k))"
      by (metis list.set_intros(1) neq_Nil_conv slab_list.distinct(3,5))
    then have ca: "(c, a) \<in> slab_set C L {}" using c by (auto simp: slab_set_def)
    have "kind_ok k (length (FL a)) (slab_size (caches s c))"
      using inv c k(2) unfolding slabs_inv_def by blast
    then have "length (FL a) < slab_size (caches s c)"
      using k(1) slab_count_bound(2) [OF inv ca] by (cases k) auto
    then have "card (set (FL a)) < card (slab_cells s c a)"
      using slab_count_bound(1) [OF inv ca] card_length [of "FL a"] by linarith
    then have "\<not> slab_cells s c a \<subseteq> set (FL a)" using card_mono [of "set (FL a)" "slab_cells s c a"] by auto
    then show "\<exists>p. (c, p) \<in> X" using ca by (auto simp: X live_def)
  qed
  show "(\<exists>p. (c, p) \<in> X) \<longrightarrow> slab_cache_release c s = Some (Inl Hang)"
    using busy by (auto simp: slab_cache_release_def empty)
  obtain s' where s': "slab_cache_shrink c s = Some (Inr s')" "objs s' C V X"
    by (rule slab_cache_shrink_spec [OF ok c])
  have "slab_cache_release c s = slab_cache_shrink c s" if "\<forall>p. (c, p) \<notin> X"
    using busy that by (simp add: slab_cache_release_def empty)
  then show "(\<forall>p. (c, p) \<notin> X) \<longrightarrow> (\<exists>s'. slab_cache_release c s = Some (Inr s') \<and> objs s' C V X)"
    using s' by simp
qed

end
