(* ===== verification/Slab_Properties.thy ===== *)
theory Slab_Properties
  imports Slab_Shrink Buddy_Properties
begin

text \<open>
  What the kernel may rely on when it calls the object caches, with a concrete state on which each
  statement is applied: the sample allocator of \<open>Buddy_Properties\<close> and one cache of 64-byte
  objects.
\<close>

definition slab_raw_sample :: slabs where
  "slab_raw_sample = \<lparr>rflags = 0x202, preempt_count = 0, memory = (\<lambda>a. 0), mmap_begin = 0, mmap_end = 0,
     initrd_begin = 0, initrd_end = 0, free_ranges = [], all_ranges = [],
     buddy_zones = [sample_zone], slab_links = \<lparr>nxt = id, prv = id\<rparr>,
     slab_meta = (\<lambda>a. \<lparr>slab_page = (0, 0), slab_first = 0, slab_count = 0\<rparr>),
     caches = (\<lambda>c. \<lparr>slab_order = 0, slab_size = 0, obj_size = 0\<rparr>)\<rparr>"

definition slab_sample :: slabs where
  "slab_sample = (case slab_cache_setup 0 64 slab_raw_sample of Inr s \<Rightarrow> s | Inl f \<Rightarrow> slab_raw_sample)"

lemma slab_raw_ok: "objs slab_raw_sample {} sample_used {}"
proof -
  have "buddy_ok slab_raw_sample sample_used = buddy_ok sample sample_used"
    by (simp add: buddy_ok_def buddy_inv_def zero_reserved_def slab_raw_sample_def sample_def)
  then have "slabs_inv slab_raw_sample {} sample_used (\<lambda>_. []) (\<lambda>_. []) {}"
    using sample_ok
    by (simp add: slabs_inv_def slab_lists_def dlists_def phys_small_def layout_def slab_set_def slab_blocks_def)
      (simp add: slab_raw_sample_def)
  then show ?thesis by (auto simp: objs_def live_def slab_set_def)
qed

text \<open>
  C31. Setting up a cache. For every object size up to the largest block, \<open>slab_cache_setup\<close>
  returns, adds an empty cache to those in use, gives its objects the size rounded up to a multiple of
  8 (and at least 8), and picks slabs that hold at least \<open>MAX_ORDER\<close> objects whenever a block
  of the order it picks exists at all.
\<close>

theorem slab_cache_setup_sound:
  assumes "objs s C V X" and "c \<notin> C" and "unat sz \<le> 2 ^ 32"
  shows "\<exists>s'. slab_cache_setup c sz s = Inr s' \<and> objs s' (insert c C) V X \<and>
    obj_bytes s' c = max 8 ((unat sz + 7) div 8 * 8) \<and>
    (slab_order (caches s' c) \<le> MAX_ORDER \<longrightarrow> MAX_ORDER \<le> slab_size (caches s' c))"
  using slab_cache_setup_spec [OF assms] by metis

theorem slab_cache_setup_sound_witness:
  "objs slab_sample {0} sample_used {} \<and> obj_bytes slab_sample 0 = 64 \<and> 20 \<le> slab_size (caches slab_sample 0)"
proof -
  have "unat (64 :: u64) \<le> 2 ^ 32" by simp
  from slab_cache_setup_sound [OF slab_raw_ok _ this, of 0]
  obtain s' where s': "slab_cache_setup 0 64 slab_raw_sample = Inr s'" "objs s' {0} sample_used {}"
      "obj_bytes s' 0 = 64" "slab_order (caches s' 0) \<le> MAX_ORDER \<longrightarrow> MAX_ORDER \<le> slab_size (caches s' 0)"
    by auto
  have "slab_sample = s'" using s'(1) by (simp add: slab_sample_def)
  moreover have "slab_order (caches slab_sample 0) = 0" by code_simp
  ultimately show ?thesis using s' by (simp add: MAX_ORDER_def)
qed

lemma slab_sample_ok: "objs slab_sample {0} sample_used {}"
proof (rule slab_cache_setup_spec [OF slab_raw_ok])
  fix s'
  assume "slab_cache_setup 0 64 slab_raw_sample = Inr s'" and "objs s' {0} sample_used {}"
  then show ?thesis by (simp add: slab_sample_def)
qed simp_all

lemma slab_sample_alloc:
  obtains p s' where "slab_cache_alloc 0 slab_sample = Inr (p, s')" and "p \<noteq> 0"
    and "objs s' {0} sample_used {(0, p)}"
proof -
  have "slab_order (caches slab_sample 0) = 0" by code_simp
  moreover have "fst (do_buddy_alloc 0 slab_sample) = Some (0, 2)" by code_simp
  ultimately have some: "fst (do_buddy_alloc (slab_order (caches slab_sample 0)) slab_sample) \<noteq> None"
    by simp
  obtain p s' where run: "slab_cache_alloc 0 slab_sample = Inr (p, s')"
      "p = 0 \<longrightarrow> fst (do_buddy_alloc (slab_order (caches slab_sample 0)) slab_sample) = None"
      "p \<noteq> 0 \<longrightarrow> objs s' {0} sample_used {(0, p)}"
    using slab_cache_alloc_cases [OF slab_sample_ok, of 0] by auto
  then show thesis using some that by auto
qed

text \<open>
  C32. Allocation. \<open>slab_cache_alloc\<close> always returns. An address it returns is not 0, overlaps
  no object that any cache has handed out, and is afterwards handed out as well; the configuration of
  the caches, the interrupt flag and the preemption counter are what they were.
\<close>

theorem slab_cache_alloc_sound:
  assumes "objs s C V X" and "c \<in> C" and "slab_cache_alloc c s = Inr (p, s')" and "p \<noteq> 0"
  shows "objs s' C V (insert (c, p) X) \<and> caches s' = caches s \<and>
    rflags s' = rflags s \<and> preempt_count s' = preempt_count s \<and>
    (\<forall>(d, y)\<in>X. unat p + obj_bytes s c \<le> unat y \<or> unat y + obj_bytes s d \<le> unat p)"
proof -
  have "\<forall>(d, y)\<in>X. unat p + obj_bytes s c \<le> unat y \<or> unat y + obj_bytes s d \<le> unat p"
    using slab.alloc_apart [OF assms] by blast
  then show ?thesis using slab_cache_alloc_cases [OF assms(1,2)] assms(3,4) by auto
qed

theorem slab_cache_alloc_sound_witness:
  "\<exists>p s'. slab_cache_alloc 0 slab_sample = Inr (p, s') \<and> p \<noteq> 0 \<and> objs s' {0} sample_used {(0, p)}"
proof -
  obtain p s' where run: "slab_cache_alloc 0 slab_sample = Inr (p, s')" "p \<noteq> 0" by (rule slab_sample_alloc)
  from slab_cache_alloc_sound [OF slab_sample_ok _ run] run show ?thesis by auto
qed



text \<open>
  C34. Release. Given back an object that is handed out, \<open>slab_cache_free\<close> finds its slab from
  its address alone, and afterwards exactly the other objects are handed out; the interrupt flag
  and the preemption counter are what they were.
\<close>

theorem slab_cache_free_sound:
  assumes "objs s C V X" and "(c, p) \<in> X"
  shows "objs (slab_cache_free c p s) C V (X - {(c, p)}) \<and>
    rflags (slab_cache_free c p s) = rflags s \<and> preempt_count (slab_cache_free c p s) = preempt_count s"
  using slab_cache_free_spec [OF assms] by blast

theorem slab_cache_free_sound_witness:
  "\<exists>p s'. slab_cache_alloc 0 slab_sample = Inr (p, s') \<and> objs (slab_cache_free 0 p s') {0} sample_used {}"
proof -
  obtain p s' where run: "slab_cache_alloc 0 slab_sample = Inr (p, s')" "objs s' {0} sample_used {(0, p)}"
    by (rule slab_sample_alloc)
  from slab_cache_free_sound [OF run(2), of 0 p] run show ?thesis by auto
qed



text \<open>
  C36. Shrinking ends, leaves every object that is handed out alone, and leaves no unused slab
  behind.
\<close>

theorem slab_cache_shrink_ends:
  assumes "objs s C V X" and "c \<in> C"
  shows "\<exists>s'. slab_cache_shrink c s = Some (Inr s') \<and> objs s' C V X \<and>
    list_empty (LHead c Empty) (slab_links s')"
  using slab_cache_shrink_spec [OF assms] by metis

theorem slab_cache_shrink_ends_witness:
  "\<exists>p s1 s2. slab_cache_alloc 0 slab_sample = Inr (p, s1) \<and>
     slab_cache_shrink 0 (slab_cache_free 0 p s1) = Some (Inr s2) \<and> objs s2 {0} sample_used {}"
proof -
  obtain p s1 where run: "slab_cache_alloc 0 slab_sample = Inr (p, s1)" "objs s1 {0} sample_used {(0, p)}"
    by (rule slab_sample_alloc)
  have "objs (slab_cache_free 0 p s1) {0} sample_used {}"
    using slab_cache_free_spec [OF run(2), of 0 p] by simp
  from slab_cache_shrink_ends [OF this, of 0] run(1) show ?thesis by auto
qed

text \<open>
  \<open>slab_cache_release\<close> stops the machine exactly when an object of the cache is still
  handed out, and otherwise ends with every other object untouched.
\<close>

theorem slab_cache_release_checks:
  assumes "objs s C V X" and "c \<in> C"
  shows "if \<exists>p. (c, p) \<in> X then slab_cache_release c s = Some (Inl Hang)
    else \<exists>s'. slab_cache_release c s = Some (Inr s') \<and> objs s' C V X"
  using slab_cache_release_spec [OF assms] by simp

theorem slab_cache_release_checks_witness:
  "(\<exists>s'. slab_cache_release 0 slab_sample = Some (Inr s')) \<and>
   (\<exists>p s1. slab_cache_alloc 0 slab_sample = Inr (p, s1) \<and> slab_cache_release 0 s1 = Some (Inl Hang))"
proof -
  obtain p s1 where run: "slab_cache_alloc 0 slab_sample = Inr (p, s1)" "objs s1 {0} sample_used {(0, p)}"
    by (rule slab_sample_alloc)
  have "slab_cache_release 0 s1 = Some (Inl Hang)"
    using slab_cache_release_checks [OF run(2), of 0] by simp
  moreover have "\<exists>s'. slab_cache_release 0 slab_sample = Some (Inr s')"
    using slab_cache_release_checks [OF slab_sample_ok, of 0] by auto
  ultimately show ?thesis using run(1) by blast
qed

end
