(* ===== verification/CType.thy ===== *)
theory CType
  imports Memory
begin

text \<open>
  Character classes (\<open>src/ctype.c\<close>): the table of class bits indexed by the character
  seen as an \<open>unsigned char\<close>, and the predicates that mask it. As in C, a predicate's result is
  an \<open>int\<close> used as a truth value.
\<close>

definition CTYPE_SP :: u8 where "CTYPE_SP = 0x01"
definition CTYPE_DI :: u8 where "CTYPE_DI = 0x02"
definition CTYPE_LO :: u8 where "CTYPE_LO = 0x04"
definition CTYPE_UP :: u8 where "CTYPE_UP = 0x08"
definition CTYPE_XD :: u8 where "CTYPE_XD = 0x10"
definition CTYPE_PU :: u8 where "CTYPE_PU = 0x20"
definition CTYPE_XS :: u8 where "CTYPE_XS = 0x40"

definition ctype :: "u8 list" where
  "ctype =
     [0, 0, 0, 0, 0, 0, 0, 0, 0,
      CTYPE_SP, CTYPE_SP, CTYPE_SP, CTYPE_SP, CTYPE_SP,
      0, 0, 0, 0, 0, 0, 0, 0, 0, 0, 0, 0, 0, 0, 0, 0, 0, 0,
      CTYPE_XS OR CTYPE_SP,
      CTYPE_PU, CTYPE_PU, CTYPE_PU, CTYPE_PU, CTYPE_PU, CTYPE_PU, CTYPE_PU, CTYPE_PU,
      CTYPE_PU, CTYPE_PU, CTYPE_PU, CTYPE_PU, CTYPE_PU, CTYPE_PU, CTYPE_PU,
      CTYPE_DI OR CTYPE_XD, CTYPE_DI OR CTYPE_XD, CTYPE_DI OR CTYPE_XD, CTYPE_DI OR CTYPE_XD,
      CTYPE_DI OR CTYPE_XD, CTYPE_DI OR CTYPE_XD, CTYPE_DI OR CTYPE_XD, CTYPE_DI OR CTYPE_XD,
      CTYPE_DI OR CTYPE_XD, CTYPE_DI OR CTYPE_XD,
      CTYPE_PU, CTYPE_PU, CTYPE_PU, CTYPE_PU, CTYPE_PU, CTYPE_PU, CTYPE_PU,
      CTYPE_UP OR CTYPE_XD, CTYPE_UP OR CTYPE_XD, CTYPE_UP OR CTYPE_XD,
      CTYPE_UP OR CTYPE_XD, CTYPE_UP OR CTYPE_XD, CTYPE_UP OR CTYPE_XD,
      CTYPE_UP, CTYPE_UP, CTYPE_UP, CTYPE_UP, CTYPE_UP, CTYPE_UP, CTYPE_UP, CTYPE_UP, CTYPE_UP, CTYPE_UP,
      CTYPE_UP, CTYPE_UP, CTYPE_UP, CTYPE_UP, CTYPE_UP, CTYPE_UP, CTYPE_UP, CTYPE_UP, CTYPE_UP, CTYPE_UP,
      CTYPE_PU, CTYPE_PU, CTYPE_PU, CTYPE_PU, CTYPE_PU, CTYPE_PU,
      CTYPE_LO OR CTYPE_XD, CTYPE_LO OR CTYPE_XD, CTYPE_LO OR CTYPE_XD,
      CTYPE_LO OR CTYPE_XD, CTYPE_LO OR CTYPE_XD, CTYPE_LO OR CTYPE_XD,
      CTYPE_LO, CTYPE_LO, CTYPE_LO, CTYPE_LO, CTYPE_LO, CTYPE_LO, CTYPE_LO, CTYPE_LO, CTYPE_LO, CTYPE_LO,
      CTYPE_LO, CTYPE_LO, CTYPE_LO, CTYPE_LO, CTYPE_LO, CTYPE_LO, CTYPE_LO, CTYPE_LO, CTYPE_LO, CTYPE_LO,
      CTYPE_PU, CTYPE_PU, CTYPE_PU, CTYPE_PU,
      0] @ replicate 128 0"

definition ctype_at :: "s32 \<Rightarrow> u8" where
  "ctype_at c = ctype ! unat (ucast c :: u8)"

definition isprint :: "s32 \<Rightarrow> s32" where
  "isprint c = ucast (ctype_at c AND (CTYPE_LO OR CTYPE_UP OR CTYPE_DI OR CTYPE_PU OR CTYPE_XS))"

definition isalpha :: "s32 \<Rightarrow> s32" where
  "isalpha c = ucast (ctype_at c AND (CTYPE_LO OR CTYPE_UP))"

definition isdigit :: "s32 \<Rightarrow> s32" where
  "isdigit c = ucast (ctype_at c AND CTYPE_DI)"

definition isxdigit :: "s32 \<Rightarrow> s32" where
  "isxdigit c = ucast (ctype_at c AND CTYPE_XD)"

definition isspace :: "s32 \<Rightarrow> s32" where
  "isspace c = ucast (ctype_at c AND CTYPE_SP)"

definition islower :: "s32 \<Rightarrow> s32" where
  "islower c = ucast (ctype_at c AND CTYPE_LO)"

definition isupper :: "s32 \<Rightarrow> s32" where
  "isupper c = ucast (ctype_at c AND CTYPE_UP)"

definition toupper :: "s32 \<Rightarrow> s32" where
  "toupper c = (if islower c \<noteq> 0 then c - 0x20 else c)"

definition tolower :: "s32 \<Rightarrow> s32" where
  "tolower c = (if isupper c \<noteq> 0 then c + 0x20 else c)"

subsection \<open>The classes are the ASCII ranges\<close>

lemma ctype_length: "length ctype = 256"
  by (simp add: ctype_def)

lemma unat_ucast_32: "unat (ucast (x :: u8) :: s32) = unat x"
proof -
  have "unat x < 2 ^ 8" using unsigned_less [of x] by simp
  then have "unat x < 2 ^ 32" by simp
  then show ?thesis by (simp add: unsigned_ucast_eq take_bit_nat_eq_self)
qed

lemma ucast_zero_iff: "(ucast (x :: u8) :: s32) = 0 \<longleftrightarrow> x = 0"
  using unat_ucast_32 [of x] by (metis unsigned_0 word_unat_eq_iff)

text \<open>A statement about the table is checked entry by entry.\<close>

definition class_ok :: "nat \<Rightarrow> bool" where
  "class_ok n \<longleftrightarrow>
     (ctype ! n AND CTYPE_DI \<noteq> 0 \<longleftrightarrow> 48 \<le> n \<and> n \<le> 57) \<and>
     (ctype ! n AND CTYPE_UP \<noteq> 0 \<longleftrightarrow> 65 \<le> n \<and> n \<le> 90) \<and>
     (ctype ! n AND CTYPE_LO \<noteq> 0 \<longleftrightarrow> 97 \<le> n \<and> n \<le> 122) \<and>
     (ctype ! n AND CTYPE_SP \<noteq> 0 \<longleftrightarrow> 9 \<le> n \<and> n \<le> 13 \<or> n = 32) \<and>
     (ctype ! n AND CTYPE_XD \<noteq> 0 \<longleftrightarrow> 48 \<le> n \<and> n \<le> 57 \<or> 65 \<le> n \<and> n \<le> 70 \<or> 97 \<le> n \<and> n \<le> 102) \<and>
     (ctype ! n AND (CTYPE_LO OR CTYPE_UP) \<noteq> 0 \<longleftrightarrow> 65 \<le> n \<and> n \<le> 90 \<or> 97 \<le> n \<and> n \<le> 122) \<and>
     (ctype ! n AND (CTYPE_LO OR CTYPE_UP OR CTYPE_DI OR CTYPE_PU OR CTYPE_XS) \<noteq> 0 \<longleftrightarrow> 32 \<le> n \<and> n \<le> 126)"

lemma class_ok_table: "list_all class_ok [0..<256]"
  by code_simp

lemma class_ok_at: "class_ok (unat (ucast (c :: s32) :: u8))"
proof -
  have "unat (ucast c :: u8) < 2 ^ 8" using unsigned_less [of "ucast c :: u8"] by simp
  then show ?thesis using class_ok_table by (simp add: list_all_iff)
qed

text \<open>
  On every \<open>int\<close> the predicates decide exactly the ASCII ranges of the character's low
  byte: digits, the two alphabets, hexadecimal digits, white space and printable characters.
\<close>

theorem ctype_exact:
  fixes c :: s32
  defines "n \<equiv> unat (ucast c :: u8)"
  shows "(isdigit c \<noteq> 0 \<longleftrightarrow> 48 \<le> n \<and> n \<le> 57) \<and>
    (isupper c \<noteq> 0 \<longleftrightarrow> 65 \<le> n \<and> n \<le> 90) \<and> (islower c \<noteq> 0 \<longleftrightarrow> 97 \<le> n \<and> n \<le> 122) \<and>
    (isalpha c \<noteq> 0 \<longleftrightarrow> 65 \<le> n \<and> n \<le> 90 \<or> 97 \<le> n \<and> n \<le> 122) \<and>
    (isxdigit c \<noteq> 0 \<longleftrightarrow> 48 \<le> n \<and> n \<le> 57 \<or> 65 \<le> n \<and> n \<le> 70 \<or> 97 \<le> n \<and> n \<le> 102) \<and>
    (isspace c \<noteq> 0 \<longleftrightarrow> 9 \<le> n \<and> n \<le> 13 \<or> n = 32) \<and> (isprint c \<noteq> 0 \<longleftrightarrow> 32 \<le> n \<and> n \<le> 126)"
  using class_ok_at [of c]
  by (simp add: class_ok_def n_def ctype_at_def ucast_zero_iff isdigit_def isupper_def islower_def
      isalpha_def isxdigit_def isspace_def isprint_def)

end
