(* ===== verification/Stdlib.thy ===== *)
theory Stdlib
  imports CType
begin

text \<open>
  Conversions between numbers and text (\<open>src/stdlib.c\<close>). The routines work on strings in
  the byte memory. The value of \<open>base\<close> is an \<open>int\<close>; arithmetic with the 64-bit value
  converts it to 64 bits, so a negative base is a huge one. \<open>None\<close> stands for a loop that does
  not end.
\<close>

definition ULONG_MAX :: u64 where "ULONG_MAX = - 1"

abbreviation char_at :: "mem \<Rightarrow> u64 \<Rightarrow> s32" where
  "char_at m p \<equiv> scast (m p)"

subsection \<open>Reading a number\<close>

partial_function (option) skip_space :: "mem \<Rightarrow> u64 \<Rightarrow> u64 option" where
  "skip_space m ptr = (if isspace (char_at m ptr) \<noteq> 0 then skip_space m (ptr + 1) else Some ptr)"

text \<open>The prefix of the digits: the base to use and where the digits start.\<close>

definition strtoul_base :: "mem \<Rightarrow> u64 \<Rightarrow> s32 \<Rightarrow> s32 \<times> u64" where
  "strtoul_base m ptr base =
     (if base = 0 then
        if char_at m ptr = 48 then
          let ptr1 = ptr + 1
          in if tolower (char_at m ptr1) = 120 then (16, ptr1 + 1) else (8, ptr1)
        else (10, ptr)
      else
        let ptr1 = (if base = 8 \<and> char_at m ptr = 48 then ptr + 1 else ptr)
        in if base = 16 \<and> char_at m ptr1 = 48 \<and>
              tolower (if char_at m (ptr1 + 1) = 120 then 1 else 0) \<noteq> 0
           then (base, ptr1 + 2) else (base, ptr1))"

definition digit_value :: "mem \<Rightarrow> u64 \<Rightarrow> s32" where
  "digit_value m ptr =
     (let c = scast (ucast (toupper (char_at m ptr)) :: u8) :: s32
      in if isdigit c \<noteq> 0 then c - 48 else c - 65 + 10)"

partial_function (option) strtoul_digits ::
    "mem \<Rightarrow> u64 \<Rightarrow> s32 \<Rightarrow> u64 \<Rightarrow> bool \<Rightarrow> (u64 \<times> u64 \<times> bool) option" where
  "strtoul_digits m ptr base ret consumed =
     (if m ptr = 0 then Some (ret, ptr, consumed)
      else let digit = scast (digit_value m ptr) :: u64; b = scast base :: u64
           in if ret > (ULONG_MAX - digit) div b then Some (ULONG_MAX, ptr, consumed)
              else strtoul_digits m (ptr + 1) base (ret * b + digit) True)"

text \<open>The number and the value of \<open>*endptr\<close>.\<close>

definition strtoul :: "mem \<Rightarrow> u64 \<Rightarrow> s32 \<Rightarrow> (u64 \<times> u64) option" where
  "strtoul m str base =
     Option.bind (skip_space m str) (\<lambda>ptr.
       let sign = (char_at m ptr = 45 \<or> char_at m ptr = 43);
           negate = (sign \<and> char_at m ptr = 45);
           ptr1 = (if sign then ptr + 1 else ptr);
           (base1, ptr2) = strtoul_base m ptr1 base
       in Option.bind (strtoul_digits m ptr2 base1 0 False) (\<lambda>(ret, ptr3, consumed).
            Some (if negate then - ret else ret, if consumed then ptr3 else str)))"

subsection \<open>Writing a number\<close>

definition digits :: "u8 list" where
  "digits = bytes_of ''0123456789abcdefghijklmnopqrstuvwxyz''"

text \<open>
  The first loop writes the digits, the least significant one first; the result is the memory and
  the address behind the last digit. Division by zero and an index behind the table are faults.
\<close>

partial_function (option) ulltoa_digits ::
    "mem \<Rightarrow> u64 \<Rightarrow> u64 \<Rightarrow> u64 \<Rightarrow> (mem \<times> u64) result option" where
  "ulltoa_digits m ptr value b =
     (if b = 0 then Some (Inl Wild)
      else let r = scast (ucast (value mod b) :: s32) :: u64; value' = value div b
           in if unat r \<ge> length digits then Some (Inl Wild)
              else let m' = m(ptr := digits ! unat r)
                   in if value' \<noteq> 0 then ulltoa_digits m' (ptr + 1) value' b
                      else Some (Inr (m', ptr + 1)))"

function reverse_loop :: "mem \<Rightarrow> u64 \<Rightarrow> u64 \<Rightarrow> mem" where
  "reverse_loop m start ptr =
     (if start < ptr then
        let c = m ptr; m1 = m(ptr := m start); m2 = m1(start := c)
        in reverse_loop m2 (start + 1) (ptr - 1)
      else m)"
  by pat_completeness auto
termination
proof (relation "measure (\<lambda>(m, start, ptr). unat ptr)")
  fix m :: mem and start ptr :: u64 and x xa xb
  assume "start < ptr"
  then have "ptr \<noteq> 0" by auto
  then have "unat (ptr - 1) < unat ptr"
    using unat_minus_one [of ptr] by (simp add: unat_gt_0)
  then show "((xb, start + 1, ptr - 1), m, start, ptr) \<in> measure (\<lambda>(m, start, ptr). unat ptr)" by simp
qed simp

declare reverse_loop.simps [simp del]

definition ulltoa :: "mem \<Rightarrow> u64 \<Rightarrow> u64 \<Rightarrow> s32 \<Rightarrow> (mem \<times> u64) result option" where
  "ulltoa m value str base =
     Option.bind (ulltoa_digits m str value (scast base)) (\<lambda>r.
       Some (and_then r (\<lambda>(m1, ptr).
         let m2 = m1(ptr := 0) in Inr (reverse_loop m2 str (ptr - 1), str))))"

definition lltoa :: "mem \<Rightarrow> u64 \<Rightarrow> u64 \<Rightarrow> s32 \<Rightarrow> (mem \<times> u64) result option" where
  "lltoa m value str base =
     (let (m1, ptr, value1) = (if sint value < 0 then (m(str := 45), str + 1, - value) else (m, str, value))
      in Option.bind (ulltoa m1 value1 ptr base) (\<lambda>r.
           Some (and_then r (\<lambda>(m2, _). Inr (m2, str)))))"

definition ultoa :: "mem \<Rightarrow> u64 \<Rightarrow> u64 \<Rightarrow> s32 \<Rightarrow> (mem \<times> u64) result option" where
  "ultoa m value str base = ulltoa m value str base"

definition ltoa :: "mem \<Rightarrow> u64 \<Rightarrow> u64 \<Rightarrow> s32 \<Rightarrow> (mem \<times> u64) result option" where
  "ltoa m value str base = lltoa m value str base"

definition utoa :: "mem \<Rightarrow> u32 \<Rightarrow> u64 \<Rightarrow> s32 \<Rightarrow> (mem \<times> u64) result option" where
  "utoa m value str base = ulltoa m (ucast value) str base"

definition itoa :: "mem \<Rightarrow> s32 \<Rightarrow> u64 \<Rightarrow> s32 \<Rightarrow> (mem \<times> u64) result option" where
  "itoa m value str base = lltoa m (scast value) str base"

subsection \<open>The digits of a number\<close>

function low_digits :: "nat \<Rightarrow> nat \<Rightarrow> nat list" where
  "low_digits b v = (if b < 2 \<or> v div b = 0 then [v mod b] else v mod b # low_digits b (v div b))"
  by pat_completeness auto
termination
  by (relation "measure snd") (auto intro!: div_less_dividend simp: div_eq_0_iff)

declare low_digits.simps [simp del]

lemma low_digits_less: "2 \<le> b \<Longrightarrow> d \<in> set (low_digits b v) \<Longrightarrow> d < b"
proof (induction b v rule: low_digits.induct)
  case (1 b v)
  have "d = v mod b \<or> (v div b \<noteq> 0 \<and> d \<in> set (low_digits b (v div b)))"
    using 1(3) by (subst (asm) low_digits.simps) (auto split: if_splits)
  then show ?case using 1(1) 1(2) by auto
qed

lemma low_digits_value: "2 \<le> b \<Longrightarrow> foldr (\<lambda>d r. r * b + d) (low_digits b v) 0 = v"
proof (induction b v rule: low_digits.induct)
  case (1 b v)
  show ?case
  proof (cases "v div b = 0")
    case True
    then have "v mod b = v" using div_mult_mod_eq [of v b] by simp
    then show ?thesis using True by (subst low_digits.simps) simp
  next
    case False
    then show ?thesis using 1 by (subst low_digits.simps) simp
  qed
qed

lemma low_digits_length:
  assumes "2 \<le> b" and "v < b ^ k" and "0 < k"
  shows "length (low_digits b v) \<le> k"
  using assms(2,3)
proof (induction k arbitrary: v)
  case 0
  then show ?case by simp
next
  case (Suc k)
  show ?case
  proof (cases "v div b = 0")
    case True
    then show ?thesis by (subst low_digits.simps) simp
  next
    case False
    have "v div b < b ^ k" using Suc.prems(1) assms(1) by (simp add: less_mult_imp_div_less mult.commute)
    moreover have "0 < k"
    proof (rule ccontr)
      assume "\<not> 0 < k"
      then show False using Suc.prems(1) False by simp
    qed
    ultimately show ?thesis using Suc.IH [of "v div b"] False by (subst low_digits.simps) simp
  qed
qed

lemma low_digits_ne [simp]: "low_digits b v \<noteq> []"
  by (subst low_digits.simps) simp

lemma low_digits_last: "2 \<le> b \<Longrightarrow> 0 < v \<Longrightarrow> 0 < last (low_digits b v)"
proof (induction b v rule: low_digits.induct)
  case (1 b v)
  show ?case
  proof (cases "v div b = 0")
    case True
    then have "v mod b = v" using div_mult_mod_eq [of v b] by simp
    then show ?thesis using True 1(3) by (subst low_digits.simps) simp
  next
    case False
    then show ?thesis using 1 by (subst low_digits.simps) simp
  qed
qed

text \<open>The characters of the digits, checked one by one.\<close>

definition digit_ok :: "nat \<Rightarrow> bool" where
  "digit_ok d \<longleftrightarrow>
     (let x = digits ! d; c = scast (ucast (toupper (scast x)) :: u8) :: s32
      in x \<noteq> 0 \<and> isspace (scast x) = 0 \<and> scast x \<noteq> (45 :: s32) \<and> scast x \<noteq> (43 :: s32) \<and>
         (scast x = (48 :: s32) \<longleftrightarrow> d = 0) \<and> (if isdigit c \<noteq> 0 then c - 48 else c - 65 + 10) = of_nat d \<and>
         (scast (of_nat d :: s32) :: u64) = of_nat d)"

lemma digits_ok: "d < 36 \<Longrightarrow> digit_ok d"
proof -
  have "list_all digit_ok [0..<36]" by code_simp
  then show "d < 36 \<Longrightarrow> digit_ok d" by (simp add: list_all_iff)
qed

lemma digit_value_char:
  assumes "d < 36" and "m p = digits ! d"
  shows "digit_value m p = of_nat d" and "m p \<noteq> 0" and "scast (digit_value m p) = (of_nat d :: u64)"
    and "isspace (char_at m p) = 0" and "char_at m p \<noteq> 45" and "char_at m p \<noteq> 43"
    and "char_at m p = 48 \<longleftrightarrow> d = 0"
  using digits_ok [OF assms(1)] assms(2) by (simp_all add: digit_ok_def digit_value_def Let_def)

subsection \<open>What the writing loops compute\<close>

fun store_bytes :: "mem \<Rightarrow> u64 \<Rightarrow> u8 list \<Rightarrow> mem" where
  "store_bytes m a [] = m"
| "store_bytes m a (x # xs) = store_bytes (m(a := x)) (a + 1) xs"

lemma store_bytes_other: "x \<notin> span a (length xs) \<Longrightarrow> store_bytes m a xs x = m x"
  by (induction xs arbitrary: a m) (auto simp: span_Suc)

lemma store_bytes_nth:
  "length xs < 2 ^ 64 \<Longrightarrow> i < length xs \<Longrightarrow> store_bytes m a xs (a + of_nat i) = xs ! i"
proof (induction xs arbitrary: a m i)
  case (Cons x xs)
  show ?case
  proof (cases i)
    case 0
    have "a \<notin> span (a + 1) (length xs)" using Cons.prems(1) by (intro notin_span_Suc) simp
    then show ?thesis using 0 by (simp add: store_bytes_other)
  next
    case (Suc j)
    have "store_bytes (m(a := x)) (a + 1) xs (a + 1 + of_nat j) = xs ! j"
      by (rule Cons.IH) (use Cons.prems Suc in simp_all)
    then show ?thesis using Suc by (simp add: ac_simps)
  qed
qed simp

abbreviation digit_chars :: "nat list \<Rightarrow> u8 list" where
  "digit_chars \<equiv> map (\<lambda>d. digits ! d)"

lemma small_cast:
  fixes w :: u64
  assumes "unat w < 36"
  shows "scast (ucast w :: s32) = w"
proof -
  have "w = of_nat (unat w)" by simp
  moreover have "(scast (ucast (of_nat d :: u64) :: s32) :: u64) = of_nat d" if "d < 36" for d
  proof -
    have "list_all (\<lambda>d. (scast (ucast (of_nat d :: u64) :: s32) :: u64) = of_nat d) [0..<36]" by code_simp
    then show ?thesis using that by (simp add: list_all_iff)
  qed
  ultimately show ?thesis using assms by metis
qed

lemma digits_length: "length digits = 36"
  by (simp add: digits_def bytes_of_def)

lemma ulltoa_digits_eq:
  assumes b: "2 \<le> unat b" "unat b \<le> 36"
  shows "ulltoa_digits m p v b =
    Some (Inr (store_bytes m p (digit_chars (low_digits (unat b) (unat v))),
               p + of_nat (length (low_digits (unat b) (unat v)))))"
proof (induction "unat v" arbitrary: m p v rule: less_induct)
  case less
  have b0: "b \<noteq> 0" using b(1) by auto
  have "unat (v mod b) = unat v mod unat b" "unat (v div b) = unat v div unat b"
    by (simp_all add: unat_mod unat_div)
  moreover have "unat v mod unat b < 36" using b mod_less_divisor [of "unat b" "unat v"] by linarith
  ultimately have r: "scast (ucast (v mod b) :: s32) = v mod b" "unat (v mod b) < 36"
    using small_cast [of "v mod b"] by simp_all
  show ?case
  proof (cases "v div b = 0")
    case True
    then have "unat v div unat b = 0" by (metis unat_div unsigned_0)
    then show ?thesis
      using True r b0 by (subst ulltoa_digits.simps, subst low_digits.simps, subst low_digits.simps)
        (simp add: digits_length unat_mod)
  next
    case False
    then have ne: "unat v div unat b \<noteq> 0" by (metis unat_div unat_eq_zero)
    then have "unat (v div b) < unat v"
      using b by (simp add: unat_div) (metis One_nat_def Suc_1 Suc_le_lessD div_0 div_less_dividend neq0_conv)
    from less [OF this]
    show ?thesis
      using False r b0 b ne
      by (subst ulltoa_digits.simps, subst low_digits.simps, subst (2) low_digits.simps)
        (simp add: digits_length unat_mod unat_div ac_simps)
  qed
qed

lemma unat_add_small: "unat (a :: u64) + n < 2 ^ 64 \<Longrightarrow> unat (a + of_nat n) = unat a + n"
  using unat_of_nat_u64 [of n] by (simp add: unat_word_ariths)

lemma reverse_loop_spec:
  assumes "unat a + n \<le> 2 ^ 64" and "n = 0 \<Longrightarrow> a \<noteq> 0"
  shows "(\<forall>i<n. reverse_loop m a (a + of_nat n - 1) (a + of_nat i) = m (a + of_nat (n - 1 - i))) \<and>
    (\<forall>x. x \<notin> span a n \<longrightarrow> reverse_loop m a (a + of_nat n - 1) x = m x)"
  using assms
proof (induction n arbitrary: a m rule: less_induct)
  case (less n)
  show ?case
  proof (cases "n < 2")
    case True
    then consider "n = 0" | "n = 1" by linarith
    then show ?thesis
    proof cases
      case 1
      then have "\<not> a < a - 1" using less.prems(2) by (metis measure_unat not_less_iff_gr_or_eq word_less_nat_alt)
      then show ?thesis using 1 by (simp add: reverse_loop.simps [of m a "a - 1"])
    next
      case 2
      then show ?thesis by (simp add: reverse_loop.simps [of m a a])
    qed
  next
    case False
    let ?p = "a + of_nat n - 1"
    have "of_nat n = (of_nat (n - 1) :: u64) + 1" using False by (cases n) simp_all
    then have peq: "?p = a + of_nat (n - 1)" by simp
    have p: "unat ?p = unat a + (n - 1)" unfolding peq using less.prems(1) False by (intro unat_add_small) linarith
    then have lt: "a < ?p" using False by (simp add: word_less_nat_alt)
    let ?m = "m(?p := m a, a := m ?p)"
    have run: "reverse_loop m a ?p = reverse_loop ?m (a + 1) (?p - 1)"
      using lt by (subst reverse_loop.simps) (simp add: Let_def)
    have n2: "of_nat n = (of_nat (n - 2) :: u64) + 2" using False by (metis add.commute le_add_diff_inverse not_less of_nat_add of_nat_numeral)
    have last: "?p - 1 = (a + 1) + of_nat (n - 2) - 1" unfolding n2 by simp
    have a1: "unat (a + 1) = unat a + 1" using unat_add_small [of a 1] less.prems(1) False by simp
    have IH: "\<forall>i<n - 2. reverse_loop ?m (a + 1) (?p - 1) (a + 1 + of_nat i) = ?m (a + 1 + of_nat (n - 2 - 1 - i))"
        "\<forall>x. x \<notin> span (a + 1) (n - 2) \<longrightarrow> reverse_loop ?m (a + 1) (?p - 1) x = ?m x"
    proof -
      have 1: "n - 2 < n" using False by simp
      have 2: "unat (a + 1) + (n - 2) \<le> 2 ^ 64" using a1 less.prems(1) False by linarith
      have 3: "a + 1 \<noteq> 0" using a1 by (metis add_is_0 one_neq_zero unsigned_0)
      show "\<forall>i<n - 2. reverse_loop ?m (a + 1) (?p - 1) (a + 1 + of_nat i) = ?m (a + 1 + of_nat (n - 2 - 1 - i))"
        "\<forall>x. x \<notin> span (a + 1) (n - 2) \<longrightarrow> reverse_loop ?m (a + 1) (?p - 1) x = ?m x"
        using less.IH [OF 1 2 3, of ?m] unfolding last by blast+
    qed
    have off: "unat (a + of_nat i) = unat a + i" if "i < n" for i
      using that less.prems(1) by (intro unat_add_small) linarith
    have inj: "a + of_nat i \<noteq> a + of_nat j" if "i < n" "j < n" "i \<noteq> j" for i j
      using off [OF that(1)] off [OF that(2)] that(3) by (metis add_left_cancel)
    have notin: "a + of_nat i \<notin> span (a + 1) (n - 2)" if i: "i = 0 \<or> i = n - 1" for i
    proof
      assume "a + of_nat i \<in> span (a + 1) (n - 2)"
      then obtain j where j: "j < n - 2" and eq: "a + of_nat i = a + 1 + of_nat j"
        unfolding span_iff by blast
      have "a + 1 + of_nat j = a + of_nat (Suc j)" by simp
      then have "a + of_nat i = a + of_nat (Suc j)" unfolding eq .
      moreover have "i < n" "Suc j < n" "i \<noteq> Suc j" using i j False by auto
      ultimately show False using inj by blast
    qed
    have res: "reverse_loop m a ?p (a + of_nat i) = m (a + of_nat (n - 1 - i))" if i: "i < n" for i
    proof -
      consider "i = 0" | "i = n - 1" "i \<noteq> 0" | "0 < i" "i < n - 1" using i by linarith
      then show ?thesis
      proof cases
        case 1
        have c: "reverse_loop ?m (a + 1) (?p - 1) (a + of_nat i) = ?m (a + of_nat i)"
          using IH(2) notin [of i] 1 by blast
        show ?thesis unfolding run c unfolding peq using 1 by simp
      next
        case 2
        then have "a + of_nat i \<noteq> a" using inj [of i 0] i by simp
        moreover have c: "reverse_loop ?m (a + 1) (?p - 1) (a + of_nat i) = ?m (a + of_nat i)"
          using IH(2) notin [of i] 2 by blast
        ultimately show ?thesis unfolding run c unfolding peq using 2 by simp
      next
        case 3
        then obtain j where j: "i = Suc j" "j < n - 2" by (cases i) auto
        have e: "a + of_nat i = a + 1 + of_nat j" using j by simp
        have k: "a + 1 + of_nat (n - 2 - 1 - j) = a + of_nat (n - 1 - i)"
        proof -
          have "n - 1 - i = Suc (n - 2 - 1 - j)" using j by simp
          then show ?thesis by simp
        qed
        have ne: "a + of_nat (n - 1 - i) \<noteq> a" "a + of_nat (n - 1 - i) \<noteq> ?p"
          using inj [of "n - 1 - i" 0] inj [of "n - 1 - i" "n - 1"] 3 unfolding peq by simp_all
        have c: "reverse_loop ?m (a + 1) (?p - 1) (a + 1 + of_nat j) = ?m (a + of_nat (n - 1 - i))"
          using IH(1) j(2) k by metis
        show ?thesis unfolding run e c using ne by simp
      qed
    qed
    have out: "reverse_loop m a ?p x = m x" if x: "x \<notin> span a n" for x
    proof -
      have "x \<noteq> a" "x \<noteq> ?p" "x \<notin> span (a + 1) (n - 2)"
      proof -
        show "x \<noteq> a" using x False by (cases n) (auto simp: span_Suc)
        have "?p \<in> span a n" unfolding peq span_iff using False by (intro exI [of _ "n - 1"]) simp
        then show "x \<noteq> ?p" using x by blast
        show "x \<notin> span (a + 1) (n - 2)"
        proof
          assume "x \<in> span (a + 1) (n - 2)"
          then obtain j where "j < n - 2" "x = a + 1 + of_nat j" unfolding span_iff by blast
          then have "Suc j < n" "x = a + of_nat (Suc j)" by simp_all
          then show False using x unfolding span_iff by blast
        qed
      qed
      then show ?thesis unfolding run using IH(2) by simp
    qed
    show ?thesis using res out by blast
  qed
qed

lemma cstr_nth:
  "length s < 2 ^ 64 \<Longrightarrow> (\<And>i. i < length s \<Longrightarrow> m (p + of_nat i) = s ! i) \<Longrightarrow> 0 \<notin> set s \<Longrightarrow>
   m (p + of_nat (length s)) = 0 \<Longrightarrow> cstr m p s"
proof (induction s arbitrary: p)
  case (Cons c s)
  have "cstr m (p + 1) s"
  proof (rule Cons.IH)
    fix i assume "i < length s"
    then show "m (p + 1 + of_nat i) = s ! i" using Cons.prems(2) [of "Suc i"] by (simp add: ac_simps)
  qed (use Cons.prems in \<open>simp_all add: ac_simps\<close>)
  then show ?case using Cons.prems(2) [of 0] Cons.prems(3) by simp
qed simp

definition number_text :: "nat \<Rightarrow> nat \<Rightarrow> u8 list" where
  "number_text b v = digit_chars (rev (low_digits b v))"

lemma number_text_chars:
  assumes "2 \<le> b" and "b \<le> 36"
  shows "0 \<notin> set (number_text b v)"
proof
  assume "0 \<in> set (number_text b v)"
  then obtain d where d: "d \<in> set (low_digits b v)" "digits ! d = 0" by (auto simp: number_text_def)
  have "d < 36" using low_digits_less [OF assms(1) d(1)] assms(2) by simp
  from digits_ok [OF this] d(2) show False by (simp add: digit_ok_def Let_def)
qed

lemma number_text_length:
  "2 \<le> b \<Longrightarrow> v < b ^ k \<Longrightarrow> 0 < k \<Longrightarrow> length (number_text b v) \<le> k"
  using low_digits_length [of b v k] by (simp add: number_text_def)

lemma number_text_ne [simp]: "number_text b v \<noteq> []"
  by (simp add: number_text_def)

text \<open>\<open>ulltoa\<close> writes the text of the number, a zero byte, and nothing else.\<close>

lemma ulltoa_eq:
  fixes v str :: u64 and m :: mem and base :: s32
  assumes b: "2 \<le> unat (scast base :: u64)" "unat (scast base :: u64) \<le> 36"
  defines "s \<equiv> number_text (unat (scast base :: u64)) (unat v)"
  assumes room: "unat str + length s < 2 ^ 64"
  shows "\<exists>m'. ulltoa m v str base = Some (Inr (m', str)) \<and> cstr m' str s \<and>
    (\<forall>x. x \<notin> span str (Suc (length s)) \<longrightarrow> m' x = m x)"
proof -
  let ?b = "scast base :: u64"
  let ?ds = "low_digits (unat ?b) (unat v)"
  let ?n = "length s"
  let ?m1 = "store_bytes m str (digit_chars ?ds)"
  let ?m2 = "?m1(str + of_nat ?n := 0)"
  let ?m3 = "reverse_loop ?m2 str (str + of_nat ?n - 1)"
  have n: "?n = length ?ds" by (simp add: s_def number_text_def)
  have n64: "?n < 2 ^ 64" using room by linarith
  have run: "ulltoa m v str base = Some (Inr (?m3, str))"
    by (simp add: ulltoa_def ulltoa_digits_eq [OF b] Let_def n)
  have "0 < ?n" using number_text_ne unfolding s_def by blast
  then have rv: "\<forall>i<?n. ?m3 (str + of_nat i) = ?m2 (str + of_nat (?n - 1 - i))"
      "\<forall>x. x \<notin> span str ?n \<longrightarrow> ?m3 x = ?m2 x"
    using reverse_loop_spec [of str ?n ?m2] room by simp_all
  have off: "unat (str + of_nat i) = unat str + i" if "i \<le> ?n" for i
    using that room by (intro unat_add_small) linarith
  have ne: "str + of_nat i \<noteq> str + of_nat ?n" if "i < ?n" for i
    using off [of i] off [of ?n] that by (metis add_left_cancel le_refl less_imp_le nat_neq_iff)
  have chars: "?m3 (str + of_nat i) = s ! i" if i: "i < ?n" for i
  proof -
    have j: "?n - 1 - i < ?n" using i by simp
    have "?m3 (str + of_nat i) = ?m1 (str + of_nat (?n - 1 - i))" using rv(1) i ne [OF j] by simp
    also have "\<dots> = digit_chars ?ds ! (?n - 1 - i)"
      by (rule store_bytes_nth) (use j n n64 in simp_all)
    also have "\<dots> = s ! i" using i n by (simp add: s_def number_text_def rev_map [symmetric] rev_nth)
    finally show ?thesis .
  qed
  have out: "str + of_nat ?n \<notin> span str ?n"
    using ne by (auto simp: span_iff) (metis add_left_cancel)
  have "cstr ?m3 str s"
  proof (rule cstr_nth [OF n64])
    show "\<And>i. i < ?n \<Longrightarrow> ?m3 (str + of_nat i) = s ! i" by (rule chars)
    show "0 \<notin> set s" using number_text_chars [OF b] by (simp add: s_def)
    show "?m3 (str + of_nat ?n) = 0" using rv(2) out by simp
  qed
  moreover have "?m3 x = m x" if x: "x \<notin> span str (Suc ?n)" for x
  proof -
    have x1: "x \<notin> span str ?n" "x \<noteq> str + of_nat ?n" using x by (auto simp: span_iff less_Suc_eq)
    have "?m1 x = m x" by (rule store_bytes_other) (use x1 n in simp)
    then show ?thesis using rv(2) x1 by simp
  qed
  ultimately show ?thesis using run by blast
qed

subsection \<open>Reading back\<close>

lemma strtoul_digits_eq:
  assumes B: "(scast base :: u64) = of_nat B" "2 \<le> B" "B \<le> 36"
    and "cstr m p (digit_chars ds)" and "\<forall>d\<in>set ds. d < B"
    and "foldl (\<lambda>r d. r * B + d) r ds < 2 ^ 64"
  shows "strtoul_digits m p base (of_nat r) c =
    Some (of_nat (foldl (\<lambda>r d. r * B + d) r ds), p + of_nat (length ds), c \<or> ds \<noteq> [])"
  using assms(4-6)
proof (induction ds arbitrary: p r c)
  case Nil
  then show ?case by (simp add: strtoul_digits.simps)
next
  case (Cons d ds)
  have d: "d < B" using Cons.prems(2) by simp
  have d36: "d < 36" using d B(3) by simp
  have mp: "m p = digits ! d" using Cons.prems(1) by simp
  note dv = digit_value_char [of d m p, OF d36 mp]
  have mono: "r \<le> foldl (\<lambda>r d. r * B + d) r xs" for r xs
  proof (induction xs arbitrary: r)
    case (Cons x xs)
    have "r \<le> r * B + x" using B(2) by (metis le_add1 le_trans mult.commute mult_le_mono1 nat_mult_1 one_le_numeral order_trans)
    then show ?case using Cons [of "r * B + x"] by simp
  qed simp
  have bound: "r * B + d < 2 ^ 64" using mono [of "r * B + d" ds] Cons.prems(3) by simp
  have r64: "r < 2 ^ 64"
  proof -
    have "r \<le> r * B" using B(2) by simp
    then show ?thesis using bound by linarith
  qed
  have noover: "\<not> of_nat r > (ULONG_MAX - of_nat d) div (of_nat B :: u64)"
  proof -
    have um: "unat (ULONG_MAX - of_nat d) = 2 ^ 64 - 1 - d"
    proof -
      have "unat (ULONG_MAX :: u64) = 2 ^ 64 - 1" by (simp add: ULONG_MAX_def unsigned_minus_1_eq_mask mask_eq_exp_minus_1)
      moreover have "unat (of_nat d :: u64) = d" using d36 by (intro unat_of_nat_u64) simp
      moreover have "(of_nat d :: u64) \<le> ULONG_MAX" by (simp add: ULONG_MAX_def)
      ultimately show ?thesis by (simp add: unat_sub)
    qed
    have "unat (of_nat B :: u64) = B" using B(3) by (intro unat_of_nat_u64) simp
    then have q: "unat ((ULONG_MAX - of_nat d) div (of_nat B :: u64)) = (2 ^ 64 - 1 - d) div B"
      using um by (simp add: unat_div)
    have "r * B \<le> 2 ^ 64 - 1 - d" using bound by linarith
    then have "r \<le> (2 ^ 64 - 1 - d) div B" using B(2) by (simp add: less_eq_div_iff_mult_less_eq)
    then show ?thesis using q unat_of_nat_u64 [OF r64] by (simp add: word_less_nat_alt)
  qed
  have "strtoul_digits m p base (of_nat r) c = strtoul_digits m (p + 1) base (of_nat (r * B + d)) True"
    using dv(2,3) noover B(1) by (subst strtoul_digits.simps) (simp add: Let_def)
  also have "\<dots> = Some (of_nat (foldl (\<lambda>r d. r * B + d) (r * B + d) ds), p + 1 + of_nat (length ds), True \<or> ds \<noteq> [])"
    by (rule Cons.IH) (use Cons.prems in simp_all)
  finally show ?case by (simp add: ac_simps)
qed

text \<open>
  C40. Numbers survive the round trip through text: for every base from 2 to 36 and every 64-bit
  value, \<open>ulltoa\<close> writes at most 65 bytes, and \<open>strtoul\<close> in the same base reads the value
  back. The end it reports is the terminating zero byte, except for 0 in base 8, where it takes the
  only digit for a prefix and reports that nothing was consumed.
\<close>

theorem ulltoa_strtoul:
  fixes v :: u64
  assumes "2 \<le> B" and "B \<le> 36" and "unat str + 65 \<le> 2 ^ 64"
  shows "\<exists>m' n. ulltoa m v str (of_nat B) = Some (Inr (m', str)) \<and> n \<le> 64 \<and> strlen m' str = Some (of_nat n) \<and>
    strtoul m' str (of_nat B) = Some (v, if B = 8 \<and> v = 0 then str else str + of_nat n) \<and>
    (\<forall>x. x \<notin> span str 65 \<longrightarrow> m' x = m x)"
proof -
  let ?base = "of_nat B :: s32"
  have sc: "(scast ?base :: u64) = of_nat B"
  proof -
    have "list_all (\<lambda>B. (scast (of_nat B :: s32) :: u64) = of_nat B) [0..<37]" by code_simp
    then show ?thesis using assms(2) by (simp add: list_all_iff)
  qed
  have uB: "unat (of_nat B :: u64) = B" using assms(2) by (intro unat_of_nat_u64) simp
  let ?s = "number_text B (unat v)" and ?ds = "rev (low_digits B (unat v))"
  have "(2 :: nat) ^ 64 \<le> B ^ 64" using assms(1) by (rule power_mono) simp
  then have len: "length ?s \<le> 64"
    using number_text_length [OF assms(1), of "unat v" 64] unat_u64_bound [of v] by linarith
  obtain m' where m': "ulltoa m v str ?base = Some (Inr (m', str))" "cstr m' str ?s"
      "\<forall>x. x \<notin> span str (Suc (length ?s)) \<longrightarrow> m' x = m x"
    using ulltoa_eq [where base = ?base and v = v and str = str and m = m] assms len by (auto simp: sc uB)
  obtain d ds where dds: "?ds = d # ds" by (cases ?ds) simp_all
  have small: "\<forall>d\<in>set ?ds. d < B" using low_digits_less [OF assms(1)] by simp
  have cs: "cstr m' str (digit_chars (d # ds))" using m'(2) dds by (simp add: number_text_def)
  have d36: "d < 36" using small dds assms(2) by auto
  have m1: "m' str = digits ! d" using cs by simp
  note dv = digit_value_char [of d m' str, OF d36 m1]
  have val: "foldl (\<lambda>r d. r * B + d) 0 ?ds = unat v"
    using low_digits_value [OF assms(1), of "unat v"] by (simp add: foldl_conv_foldr)
  have skip: "skip_space m' str = Some str" using dv(4) by (subst skip_space.simps) simp
  have zero: "v = 0 \<and> ds = []" if "d = 0"
  proof -
    have "d = last (low_digits B (unat v))" using dds by (metis last_rev list.sel(1) rev_rev_ident)
    then have "\<not> 0 < unat v" using low_digits_last [OF assms(1), of "unat v"] that by auto
    then have "unat v = 0" by simp
    then have "v = 0" by (metis unsigned_0 word_unat_eq_iff)
    then show ?thesis using dds by (subst (asm) low_digits.simps) simp
  qed
  have next0: "m' (str + 1) = 0" if "d = 0" using zero [OF that] cs by simp
  have base0: "?base \<noteq> 0" "?base = 8 \<longleftrightarrow> B = 8"
  proof -
    have "list_all (\<lambda>B. (of_nat B :: s32) = 8 \<longleftrightarrow> B = 8) [0..<37]" by code_simp
    then show "?base = 8 \<longleftrightarrow> B = 8" using assms(2) by (simp add: list_all_iff)
    show "?base \<noteq> 0" using sc uB assms(1) by (metis not_numeral_le_zero scast_0 unsigned_0)
  qed
  have pre: "strtoul_base m' str ?base = (?base, if B = 8 \<and> d = 0 then str + 1 else str)"
  proof (cases "B = 8 \<and> d = 0")
    case True
    then show ?thesis using base0 dv(7) by (simp add: strtoul_base_def)
  next
    case False
    have "tolower 0 = 0" by code_simp
    moreover have "(scast (0 :: u8) :: s32) \<noteq> 120" by simp
    ultimately show ?thesis using False base0 dv(7) next0 by (auto simp: strtoul_base_def Let_def)
  qed
  have res: "strtoul m' str ?base = Some (v, if B = 8 \<and> v = 0 then str else str + of_nat (length ?s))"
  proof (cases "B = 8 \<and> d = 0")
    case True
    then have "v = 0" "m' (str + 1) = 0" using zero next0 by simp_all
    then show ?thesis
      using True pre skip dv(5,6) by (simp add: strtoul_def strtoul_digits.simps)
  next
    case False
    have "\<not> (B = 8 \<and> v = 0)"
    proof
      assume "B = 8 \<and> v = 0"
      then have "?ds = [0]" by (subst low_digits.simps) simp
      then show False using False dds \<open>B = 8 \<and> v = 0\<close> by simp
    qed
    moreover have "strtoul_digits m' str ?base (of_nat 0) False =
        Some (of_nat (foldl (\<lambda>r d. r * B + d) 0 ?ds), str + of_nat (length ?ds), False \<or> ?ds \<noteq> [])"
      by (rule strtoul_digits_eq [OF sc assms(1,2)])
        (use cs small val unat_u64_bound [of v] dds in simp_all)
    ultimately show ?thesis
      unfolding val using False pre skip dv(5,6) by (auto simp: strtoul_def number_text_def)
  qed
  have out: "\<forall>x. x \<notin> span str 65 \<longrightarrow> m' x = m x"
    using m'(3) len by (auto simp: span_iff)
  show ?thesis using m'(1) res out len strlen_cstr [OF m'(2)] by blast
qed

theorem ulltoa_strtoul_witness:
  "\<exists>m' n. ulltoa (\<lambda>_. 0) 48879 100 16 = Some (Inr (m', 100)) \<and> strtoul m' 100 16 = Some (48879, 100 + of_nat n)"
proof -
  have "unat (100 :: u64) + 65 \<le> 2 ^ 64" by simp
  from ulltoa_strtoul [OF _ _ this, of 16 "\<lambda>_. 0" 48879] show ?thesis by auto
qed

end
