(* ===== verification/Vga.thy ===== *)
theory Vga
  imports Memory
begin

text \<open>
  The text console (\<open>src/vga.c\<close>): 25 rows of 80 cells, two bytes each, in the video memory
  at physical address \<open>0xB8000\<close>. The cursor, two static variables of \<open>putchar\<close>, is the
  record \<open>vga\<close>; the cells are in the byte memory.
\<close>

record vga =
  vga_r :: nat
  vga_c :: nat

definition VBUF :: u64 where "VBUF = va 0xB8000"
definition ROWS :: nat where "ROWS = 25"
definition COLS :: nat where "COLS = 80"
definition ATTR :: u8 where "ATTR = 15"

definition vga_at :: "nat \<Rightarrow> nat \<Rightarrow> u64" where
  "vga_at r c = VBUF + of_nat (r * COLS * 2 + c)"

definition vga_set :: "nat \<Rightarrow> nat \<Rightarrow> u8 \<Rightarrow> mem \<Rightarrow> mem" where
  "vga_set r c x m =
     (let m1 = m(vga_at r (2 * c) := x)
      in m1(vga_at r (2 * c + 1) := ATTR))"

definition vga_get :: "nat \<Rightarrow> nat \<Rightarrow> mem \<Rightarrow> u8" where
  "vga_get r c m = m (vga_at r (2 * c))"

definition scroll :: "mem \<Rightarrow> mem" where
  "scroll m =
     (let m1 = fold (\<lambda>r m. fold (\<lambda>c m. vga_set (r - 1) c (vga_get r c m) m) [0..<COLS] m) [1..<ROWS] m
      in fold (\<lambda>c m. vga_set (ROWS - 1) c 32 m) [0..<COLS] m1)"

definition putchar :: "u8 \<Rightarrow> mem \<times> vga \<Rightarrow> mem \<times> vga" where
  "putchar x mv =
     (let (m, v) = mv; r = vga_r v; c = vga_c v;
          (m1, r1, c1) =
            (if x = 10 then (fold (\<lambda>c m. vga_set r c 32 m) [c..<COLS] m, r + 1, 0)
             else let m' = vga_set r c x m
                  in if c + 1 = COLS then (m', r + 1, 0) else (m', r, c + 1))
      in if r1 = ROWS then (scroll m1, \<lparr>vga_r = r1 - 1, vga_c = c1\<rparr>)
         else (m1, \<lparr>vga_r = r1, vga_c = c1\<rparr>))"

definition vga_write :: "u8 list \<Rightarrow> mem \<times> vga \<Rightarrow> mem \<times> vga" where
  "vga_write data mv = fold putchar data mv"

definition vga_clr :: "mem \<Rightarrow> mem" where
  "vga_clr m = fold (\<lambda>r m. fold (\<lambda>c m. vga_set r c 32 m) [0..<COLS] m) [0..<ROWS] m"

subsection \<open>Cells\<close>

definition video :: "u64 set" where
  "video = {a. unat VBUF \<le> unat a \<and> unat a < unat VBUF + ROWS * COLS * 2}"

lemma unat_VBUF: "unat VBUF = 0xffff8000000b8000"
  by (simp add: VBUF_def va_def HIGHER_BASE_def)

lemma unat_vga_at:
  assumes "r < ROWS" and "c < 2 * COLS"
  shows "unat (vga_at r c) = unat VBUF + (r * 160 + c)"
proof -
  have small: "r * 160 + c < 4000" using assms by (simp add: ROWS_def COLS_def)
  then have "unat (of_nat (r * COLS * 2 + c) :: u64) = r * 160 + c"
    by (subst unat_of_nat_u64) (simp_all add: COLS_def)
  then show ?thesis using small by (simp add: vga_at_def unat_word_ariths unat_VBUF)
qed

lemma vga_at_eq:
  assumes "r < ROWS" and "c < 2 * COLS" and "r' < ROWS" and "c' < 2 * COLS"
  shows "vga_at r c = vga_at r' c' \<longleftrightarrow> r = r' \<and> c = c'"
proof
  assume "vga_at r c = vga_at r' c'"
  then have eq: "c + r * 160 = c' + r' * 160"
    using unat_vga_at [OF assms(1,2)] unat_vga_at [OF assms(3,4)] by simp
  have "c < 160" "c' < 160" using assms(2,4) by (simp_all add: COLS_def)
  then have "r = (c + r * 160) div 160" "c = (c + r * 160) mod 160"
    "r' = (c' + r' * 160) div 160" "c' = (c' + r' * 160) mod 160" by simp_all
  then show "r = r' \<and> c = c'" unfolding eq by metis
qed simp

lemma vga_get_set:
  assumes "r < ROWS" and "c < COLS" and "i < ROWS" and "j < COLS"
  shows "vga_get i j (vga_set r c x m) = (if i = r \<and> j = c then x else vga_get i j m)"
proof -
  have b: "2 * j < 2 * COLS" "2 * c < 2 * COLS" "2 * c + 1 < 2 * COLS" using assms by simp_all
  have "2 * j \<noteq> 2 * c + 1" by presburger
  then have "vga_at i (2 * j) \<noteq> vga_at r (2 * c + 1)"
    using vga_at_eq [OF assms(3) b(1) assms(1) b(3)] by simp
  moreover have "vga_at i (2 * j) = vga_at r (2 * c) \<longleftrightarrow> i = r \<and> j = c"
    using vga_at_eq [OF assms(3) b(1) assms(1) b(2)] by simp
  ultimately show ?thesis by (simp add: vga_get_def vga_set_def)
qed

lemma vga_set_other:
  assumes "r < ROWS" and "c < COLS" and "a \<notin> video"
  shows "vga_set r c x m a = m a"
proof -
  have "vga_at r k \<in> video" if "k < 2 * COLS" for k
    using unat_vga_at [OF assms(1) that] assms(1) that by (simp add: video_def ROWS_def COLS_def)
  then have "vga_at r (2 * c) \<in> video" "vga_at r (2 * c + 1) \<in> video" using assms(2) by simp_all
  then show ?thesis using assms(3) by (auto simp: vga_set_def)
qed

subsection \<open>The screen as a grid\<close>

text \<open>Writing a stretch of one row.\<close>

lemma fill_row:
  assumes "r < ROWS" and "set cs \<subseteq> {..<COLS}" and "i < ROWS" and "j < COLS"
  shows "vga_get i j (fold (\<lambda>c m. vga_set r c 32 m) cs m) =
    (if i = r \<and> j \<in> set cs then 32 else vga_get i j m)"
  using assms by (induction cs arbitrary: m) (auto simp: vga_get_set)

lemma fill_row_other:
  "r < ROWS \<Longrightarrow> set cs \<subseteq> {..<COLS} \<Longrightarrow> a \<notin> video \<Longrightarrow>
   fold (\<lambda>c m. vga_set r c 32 m) cs m a = m a"
  by (induction cs arbitrary: m) (auto simp: vga_set_other)

lemma copy_row:
  assumes "r < ROWS" and "s < ROWS" and "r \<noteq> s" and "set cs \<subseteq> {..<COLS}" and "i < ROWS" and "j < COLS"
  shows "vga_get i j (fold (\<lambda>c m. vga_set r c (vga_get s c m) m) cs m) =
    (if i = r \<and> j \<in> set cs then vga_get s j m else vga_get i j m)"
  using assms by (induction cs arbitrary: m) (auto simp: vga_get_set)

lemma copy_row_other:
  "r < ROWS \<Longrightarrow> set cs \<subseteq> {..<COLS} \<Longrightarrow> a \<notin> video \<Longrightarrow>
   fold (\<lambda>c m. vga_set r c (vga_get s c m) m) cs m a = m a"
  by (induction cs arbitrary: m) (auto simp: vga_set_other)

lemma scroll_rows:
  assumes "n \<le> ROWS" and "1 \<le> n" and "i < ROWS" and "j < COLS"
  shows "vga_get i j (fold (\<lambda>r m. fold (\<lambda>c m. vga_set (r - 1) c (vga_get r c m) m) [0..<COLS] m) [1..<n] m) =
    (if i + 1 < n then vga_get (i + 1) j m else vga_get i j m)"
  using assms
proof (induction n)
  case 0
  then show ?case by simp
next
  case (Suc n)
  show ?case
  proof (cases "n = 0")
    case False
    then have "[1..<Suc n] = [1..<n] @ [n]" by simp
    moreover have "vga_get n j (fold (\<lambda>r m. fold (\<lambda>c m. vga_set (r - 1) c (vga_get r c m) m) [0..<COLS] m) [1..<n] m)
        = vga_get n j m"
    proof -
      have "vga_get k j (fold (\<lambda>r m. fold (\<lambda>c m. vga_set (r - 1) c (vga_get r c m) m) [0..<COLS] m) rs m)
          = vga_get k j m" if "set rs \<subseteq> {1..<Suc k}" "k < ROWS" for k rs
        using that(1)
      proof (induction rs arbitrary: m)
        case (Cons a rs)
        have a: "a - 1 < ROWS" "a < ROWS" "a - 1 \<noteq> a" "k \<noteq> a - 1" and cs: "set [0..<COLS] \<subseteq> {..<COLS}"
          using Cons.prems that(2) by auto
        show ?case
          using Cons copy_row [OF a(1-3) cs that(2) Suc.prems(4), of m] a(4) by simp
      qed simp
      from this [of "[1..<n]" n] show ?thesis using Suc.prems(1) by auto
    qed
    moreover have "n - 1 < ROWS" "n < ROWS" "n - 1 \<noteq> n" using Suc.prems(1) False by simp_all
    moreover have "set [0..<COLS] \<subseteq> {..<COLS}" by auto
    ultimately have "vga_get i j (fold (\<lambda>r m. fold (\<lambda>c m. vga_set (r - 1) c (vga_get r c m) m) [0..<COLS] m) [1..<Suc n] m) =
        (if i = n - 1 then vga_get n j m else
         vga_get i j (fold (\<lambda>r m. fold (\<lambda>c m. vga_set (r - 1) c (vga_get r c m) m) [0..<COLS] m) [1..<n] m))"
      using copy_row [of "n - 1" n "[0..<COLS]" i j] Suc.prems(3,4) by simp
    then show ?thesis using Suc False by (auto split: if_splits)
  qed simp
qed

lemma scroll_get:
  assumes "i < ROWS" and "j < COLS"
  shows "vga_get i j (scroll m) = (if i + 1 < ROWS then vga_get (i + 1) j m else 32)"
proof -
  have "ROWS - 1 < ROWS" by (simp add: ROWS_def)
  moreover have "{0..<COLS} \<subseteq> {..<COLS}" by auto
  ultimately show ?thesis
    using assms scroll_rows [of ROWS i j m]
    by (simp add: scroll_def Let_def fill_row) (auto simp: ROWS_def)
qed

lemma scroll_other: "a \<notin> video \<Longrightarrow> scroll m a = m a"
proof -
  assume a: "a \<notin> video"
  have "fold (\<lambda>r m. fold (\<lambda>c m. vga_set (r - 1) c (vga_get r c m) m) [0..<COLS] m) rs m a = m a"
    if "set rs \<subseteq> {..<ROWS}" for rs
    using that
  proof (induction rs arbitrary: m)
    case (Cons r rs)
    have "fold (\<lambda>c m. vga_set (r - 1) c (vga_get r c m) m) [0..<COLS] m a = m a"
      by (rule copy_row_other) (use Cons.prems a in auto)
    then show ?case using Cons by simp
  qed simp
  moreover have "set [1..<ROWS] \<subseteq> {..<ROWS}" "set [0..<COLS] \<subseteq> {..<COLS}" "ROWS - 1 < ROWS"
    by (auto simp: ROWS_def)
  ultimately show ?thesis using a unfolding scroll_def Let_def by (simp add: fill_row_other)
qed

text \<open>The console as a terminal: a grid and a cursor, without memory.\<close>

type_synonym screen = "(nat \<Rightarrow> nat \<Rightarrow> u8) \<times> nat \<times> nat"

definition term_put :: "u8 \<Rightarrow> screen \<Rightarrow> screen" where
  "term_put x t =
     (let (g, r, c) = t;
          g1 = (if x = 10 then (\<lambda>i j. if i = r \<and> c \<le> j then 32 else g i j)
                else (\<lambda>i j. if i = r \<and> j = c then x else g i j));
          (r1, c1) = (if x = 10 \<or> c + 1 = COLS then (r + 1, 0) else (r, c + 1))
      in if r1 = ROWS then (\<lambda>i j. if i + 1 < ROWS then g1 (i + 1) j else 32, r, c1)
         else (g1, r1, c1))"

definition shows_screen :: "mem \<times> vga \<Rightarrow> screen \<Rightarrow> bool" where
  "shows_screen mv t \<longleftrightarrow>
     (let (m, v) = mv; (g, r, c) = t
      in vga_r v = r \<and> vga_c v = c \<and> r < ROWS \<and> c < COLS \<and> (\<forall>i<ROWS. \<forall>j<COLS. vga_get i j m = g i j))"

lemma putchar_shows:
  assumes "shows_screen mv t"
  shows "shows_screen (putchar x mv) (term_put x t)"
proof -
  obtain m v g r c where mv: "mv = (m, v)" "t = (g, r, c)" by (metis prod_cases3 surj_pair)
  have cur: "vga_r v = r" "vga_c v = c" "r < ROWS" "c < COLS"
    and grid: "\<And>i j. i < ROWS \<Longrightarrow> j < COLS \<Longrightarrow> vga_get i j m = g i j"
    using assms by (auto simp: shows_screen_def mv)
  have cs: "set [c..<COLS] \<subseteq> {..<COLS}" by auto
  define m1 where "m1 = (if x = 10 then fold (\<lambda>c m. vga_set r c 32 m) [c..<COLS] m else vga_set r c x m)"
  define g1 where "g1 = (if x = 10 then (\<lambda>i j. if i = r \<and> c \<le> j then 32 else g i j)
      else (\<lambda>i j. if i = r \<and> j = c then x else g i j))"
  have step: "vga_get i j m1 = g1 i j" if "i < ROWS" "j < COLS" for i j
    using fill_row [OF cur(3) cs that] vga_get_set [OF cur(3,4) that] grid that
    by (auto simp: m1_def g1_def)
  show ?thesis
  proof (cases "(x = 10 \<or> c + 1 = COLS) \<and> r + 1 = ROWS")
    case True
    have p: "putchar x mv = (scroll m1, \<lparr>vga_r = r, vga_c = 0\<rparr>)"
      using True cur by (auto simp: putchar_def mv m1_def Let_def)
    have t: "term_put x t = (\<lambda>i j. if i + 1 < ROWS then g1 (i + 1) j else 32, r, 0)"
      using True cur by (auto simp: term_put_def mv g1_def Let_def fun_eq_iff)
    show ?thesis unfolding p t
      using cur(3) scroll_get step by (auto simp: shows_screen_def COLS_def)
  next
    case False
    then have p: "putchar x mv = (m1, \<lparr>vga_r = (if x = 10 \<or> c + 1 = COLS then r + 1 else r),
        vga_c = (if x = 10 \<or> c + 1 = COLS then 0 else c + 1)\<rparr>)"
      using cur by (auto simp: putchar_def mv m1_def Let_def)
    have t: "term_put x t = (g1, if x = 10 \<or> c + 1 = COLS then r + 1 else r, if x = 10 \<or> c + 1 = COLS then 0 else c + 1)"
      using False cur by (auto simp: term_put_def mv g1_def Let_def)
    show ?thesis unfolding p t
      using cur(3,4) False step by (auto simp: shows_screen_def COLS_def)
  qed
qed

lemma putchar_other:
  assumes "vga_r v < ROWS" and "vga_c v < COLS" and "a \<notin> video"
  shows "fst (putchar x (m, v)) a = m a"
proof -
  have "set [vga_c v..<COLS] \<subseteq> {..<COLS}" by auto
  note f = fill_row_other [OF assms(1) this assms(3)] vga_set_other [OF assms]
  show ?thesis using f by (auto simp: putchar_def Let_def scroll_other [OF assms(3)])
qed

lemma vga_write_shows:
  "shows_screen mv t \<Longrightarrow> shows_screen (vga_write data mv) (fold term_put data t)"
  by (induction data arbitrary: mv t) (simp_all add: vga_write_def putchar_shows)

lemma vga_write_other:
  assumes "shows_screen (m, v) t" and "a \<notin> video"
  shows "fst (vga_write data (m, v)) a = m a"
  using assms(1)
proof (induction data arbitrary: m v t)
  case (Cons x data)
  obtain m' v' where p: "putchar x (m, v) = (m', v')" by (cases "putchar x (m, v)")
  have "m' a = m a"
    using putchar_other [of v a x m] p Cons.prems assms(2) by (auto simp: shows_screen_def)
  moreover have "shows_screen (m', v') (term_put x t)" using putchar_shows [OF Cons.prems, of x] p by simp
  ultimately show ?case using Cons.IH p by (simp add: vga_write_def)
qed (simp add: vga_write_def)

text \<open>
  C39. The console behaves like a terminal: writing text to the video memory has the effect of
  putting its characters one by one on a grid of 25 rows and 80 columns that wraps at the right
  margin and scrolls at the bottom; the cursor never leaves the grid and no byte outside the video
  memory changes.
\<close>

theorem vga_write_refines:
  assumes "shows_screen (m, v) t"
  shows "shows_screen (vga_write data (m, v)) (fold term_put data t) \<and>
    (\<forall>a. a \<notin> video \<longrightarrow> fst (vga_write data (m, v)) a = m a)"
  using vga_write_shows [OF assms] vga_write_other [OF assms] by blast

theorem vga_write_refines_witness:
  "let mv = ((\<lambda>a. 0), \<lparr>vga_r = 24, vga_c = 0\<rparr>); t = fold term_put [65, 10] ((\<lambda>i j. 0), 24, 0)
   in shows_screen (vga_write [65, 10] mv) t \<and> fst t 23 0 = 65 \<and> fst t 24 0 = 32"
proof -
  have "shows_screen ((\<lambda>a. 0), \<lparr>vga_r = 24, vga_c = 0\<rparr>) ((\<lambda>i j. 0), 24, 0)"
    by (simp add: shows_screen_def vga_get_def ROWS_def COLS_def)
  from vga_write_refines [OF this, of "[65, 10]"]
  show ?thesis by (simp add: Let_def term_put_def ROWS_def COLS_def)
qed

lemma vga_clr_get:
  assumes "i < ROWS" and "j < COLS"
  shows "vga_get i j (vga_clr m) = 32"
proof -
  have "vga_get i j (fold (\<lambda>r m. fold (\<lambda>c m. vga_set r c 32 m) [0..<COLS] m) rs m) =
      (if i \<in> set rs then 32 else vga_get i j m)" if "set rs \<subseteq> {..<ROWS}" for rs
    using that
  proof (induction rs arbitrary: m)
    case (Cons r rs)
    have "set [0..<COLS] \<subseteq> {..<COLS}" by auto
    from fill_row [OF _ this assms, of r m] show ?case using Cons assms(2) by auto
  qed simp
  moreover have "set [0..<ROWS] \<subseteq> {..<ROWS}" by auto
  ultimately show ?thesis using assms by (simp add: vga_clr_def)
qed

end
