(* ===== verification/Print.thy ===== *)
theory Print
  imports Stdlib Vga
begin

text \<open>
  Formatted output (\<open>src/print.c\<close>). \<open>do_vprintf\<close> decodes the format and hands pieces of
  text to a sink, the source's function pointer \<open>out\<close>; the two sinks are the console and a
  buffer in memory. The state \<open>'c\<close> of a sink has a byte memory in view, from which the format
  and the string arguments are read each time anew. Variadic arguments are a list of 64-bit slots.

  \<open>None\<close> is a loop that does not end (a string without end), \<open>Inl Wild\<close> a read behind the
  last argument, a string longer than an \<open>int\<close>, or a negative length passed to \<open>memcpy\<close>. The
  local buffer of \<open>print_number\<close> is a memory of its own; what \<open>ulltoa\<close> leaves in it up to
  the zero byte does not depend on what was there.
\<close>

type_synonym 'c sink = "s32 \<Rightarrow> u8 list \<Rightarrow> 'c \<Rightarrow> (s32 \<times> 'c) result"

text \<open>The number of bytes written so far and the sink.\<close>

definition print :: "'c sink \<Rightarrow> u8 list \<Rightarrow> s32 \<times> 'c \<Rightarrow> (s32 \<times> s32 \<times> 'c) result" where
  "print out buf ctx =
     (let (written, c) = ctx
      in and_then (out written buf c) (\<lambda>(rc, c1).
           if sint rc < 0 then Inr (rc, written, c1)
           else Inr (0, written + of_nat (length buf), c1)))"

subsection \<open>Formats\<close>

definition FMT_INVALID :: u32 where "FMT_INVALID = 0"
definition FMT_NONE :: u32 where "FMT_NONE = 1"
definition FMT_STR :: u32 where "FMT_STR = 2"
definition FMT_CHAR :: u32 where "FMT_CHAR = 3"
definition FMT_INT :: u32 where "FMT_INT = 4"
definition FMT_PERCENT :: u32 where "FMT_PERCENT = 5"

definition FMT_SSHORT :: u32 where "FMT_SSHORT = 0x100"
definition FMT_SHORT :: u32 where "FMT_SHORT = 0x200"
definition FMT_LONG :: u32 where "FMT_LONG = 0x400"
definition FMT_LLONG :: u32 where "FMT_LLONG = 0x800"
definition FMT_UNSIGNED :: u32 where "FMT_UNSIGNED = 0x1000"
definition FMT_HEX :: u32 where "FMT_HEX = 0x2000"
definition FMT_OCT :: u32 where "FMT_OCT = 0x4000"

lemmas fmt_defs = FMT_INVALID_def FMT_NONE_def FMT_STR_def FMT_CHAR_def FMT_INT_def FMT_PERCENT_def
  FMT_SSHORT_def FMT_SHORT_def FMT_LONG_def FMT_LLONG_def FMT_UNSIGNED_def FMT_HEX_def FMT_OCT_def

partial_function (option) skip_digits :: "mem \<Rightarrow> u64 \<Rightarrow> u64 option" where
  "skip_digits m fmt =
     (if m fmt \<noteq> 0 \<and> isdigit (char_at m fmt) \<noteq> 0 then skip_digits m (fmt + 1) else Some fmt)"

definition decode_length :: "mem \<Rightarrow> u64 \<Rightarrow> u32 \<times> u64" where
  "decode_length m fmt =
     (if m fmt = 108 then
        if m (fmt + 1) = 108 then (FMT_LLONG, fmt + 2) else (FMT_LONG, fmt + 1)
      else if m fmt = 104 then
        if m (fmt + 1) = 104 then (FMT_SSHORT, fmt + 2) else (FMT_SHORT, fmt + 1)
      else (0, fmt))"

text \<open>The final switch, with its fall-throughs written out: the type and the flags.\<close>

definition decode_conversion :: "u8 \<Rightarrow> u32 \<Rightarrow> u32 \<times> u32" where
  "decode_conversion c spec =
     (let spec1 = (if c = 112 then spec OR FMT_LONG else spec);
          spec2 = (if c \<in> {112, 120, 88, 111} then spec1 OR (if c = 111 then FMT_OCT else FMT_HEX) else spec1);
          spec3 = (if c \<in> {112, 120, 88, 111, 117} then spec2 OR FMT_UNSIGNED else spec2)
      in if c \<in> {112, 120, 88, 111, 117, 100, 105} then (FMT_INT, spec3)
         else if c = 115 then (FMT_STR, spec)
         else if c = 99 then (FMT_CHAR, spec)
         else if c = 37 then (FMT_PERCENT, spec)
         else (FMT_INVALID, spec))"

definition decode_spec :: "mem \<Rightarrow> u64 \<Rightarrow> (u32 \<times> u64) option" where
  "decode_spec m fmt =
     (let fmt1 = (if m fmt \<in> {45, 43, 32, 35, 48} then fmt + 1 else fmt)
      in Option.bind (skip_digits m fmt1) (\<lambda>fmt2.
         Option.bind (if m fmt2 = 46 then skip_digits m (fmt2 + 1) else Some fmt2) (\<lambda>fmt3.
           let (spec, fmt4) = decode_length m fmt3; (type, spec1) = decode_conversion (m fmt4) spec
           in Some (type OR spec1, fmt4 + 1))))"

partial_function (option) decode_loop :: "mem \<Rightarrow> u64 \<Rightarrow> u32 \<Rightarrow> (u32 \<times> u64) option" where
  "decode_loop m fmt type =
     (if m fmt = 0 \<or> m fmt = 37 \<and> type \<noteq> FMT_INVALID then Some (type, fmt)
      else if m fmt \<noteq> 37 then decode_loop m (fmt + 1) FMT_NONE
      else decode_spec m (fmt + 1))"

definition decode_format :: "mem \<Rightarrow> u64 \<Rightarrow> (u32 \<times> u64) option" where
  "decode_format m fmt = decode_loop m fmt FMT_INVALID"

subsection \<open>Pieces of text\<close>

definition read_bytes :: "mem \<Rightarrow> u64 \<Rightarrow> nat \<Rightarrow> u8 list" where
  "read_bytes m p n = map (\<lambda>i. m (p + of_nat i)) [0..<n]"

text \<open>The string at \<open>p\<close>, as \<open>print(ctx, p, strlen(p))\<close> sees it.\<close>

definition string_at :: "mem \<Rightarrow> u64 \<Rightarrow> u8 list result option" where
  "string_at m p =
     Option.bind (strlen m p) (\<lambda>n.
       Some (if unat n \<ge> 2 ^ 31 then Inl Wild else Inr (read_bytes m p (unat n))))"

definition va_arg :: "u64 list \<Rightarrow> (u64 \<times> u64 list) result" where
  "va_arg args = (case args of [] \<Rightarrow> Inl Wild | a # as \<Rightarrow> Inr (a, as))"

definition print_number :: "u32 \<Rightarrow> u64 \<Rightarrow> u8 list result option" where
  "print_number type arg =
     (let base = (if type AND FMT_HEX \<noteq> 0 then 16 else if type AND FMT_OCT \<noteq> 0 then 8 else 10) :: s32;
          buf = (\<lambda>a. 0) :: mem;
          written =
            (if type AND FMT_UNSIGNED \<noteq> 0 then
               ulltoa buf (if type AND FMT_LONG \<noteq> 0 \<or> type AND FMT_LLONG \<noteq> 0 then arg
                           else ucast (ucast arg :: u32)) 0 base
             else
               lltoa buf (if type AND FMT_LONG \<noteq> 0 \<or> type AND FMT_LLONG \<noteq> 0 then arg
                          else scast (ucast arg :: s32)) 0 base)
      in Option.bind written (\<lambda>r. case r of
           Inl f \<Rightarrow> Some (Inl f)
         | Inr (buf1, _) \<Rightarrow> string_at buf1 0))"

text \<open>
  One turn of the loop: the piece to print and the arguments left, or the inner \<open>None\<close> for an
  invalid format.
\<close>

definition take_arg ::
    "u64 list \<Rightarrow> (u64 \<Rightarrow> u8 list result option) \<Rightarrow> (u8 list \<times> u64 list) option result option" where
  "take_arg args f =
     (case va_arg args of
        Inl e \<Rightarrow> Some (Inl e)
      | Inr (a, as) \<Rightarrow> Option.bind (f a) (\<lambda>r. Some (and_then r (\<lambda>bs. Inr (Some (bs, as))))))"

definition format_piece ::
    "mem \<Rightarrow> u64 \<Rightarrow> u64 \<Rightarrow> u32 \<Rightarrow> u64 list \<Rightarrow> (u8 list \<times> u64 list) option result option" where
  "format_piece m start fmt type args =
     (let t = type AND 0xff
      in if t = FMT_STR then take_arg args (string_at m)
         else if t = FMT_CHAR then take_arg args (\<lambda>a. Some (Inr [ucast a]))
         else if t = FMT_INT then take_arg args (print_number type)
         else if t = FMT_NONE then
           Some (if unat (fmt - start) \<ge> 2 ^ 31 then Inl Wild
                 else Inr (Some (read_bytes m start (unat (fmt - start)), args)))
         else if t = FMT_PERCENT then Some (Inr (Some ([37], args)))
         else Some (Inr None))"

partial_function (option) vprintf_loop ::
    "('c \<Rightarrow> mem) \<Rightarrow> 'c sink \<Rightarrow> s32 \<Rightarrow> u64 \<Rightarrow> u64 list \<Rightarrow> s32 \<times> 'c \<Rightarrow> (s32 \<times> s32 \<times> 'c) result option" where
  "vprintf_loop view out rc fmt args ctx =
     (if sint rc < 0 \<or> view (snd ctx) fmt = 0 then Some (Inr (rc, ctx))
      else Option.bind (decode_format (view (snd ctx)) fmt) (\<lambda>(type, fmt1).
           Option.bind (format_piece (view (snd ctx)) fmt fmt1 type args) (\<lambda>p.
             case p of
               Inl f \<Rightarrow> Some (Inl f)
             | Inr None \<Rightarrow> vprintf_loop view out (- 1) fmt1 args ctx
             | Inr (Some (bs, args1)) \<Rightarrow>
                 (case print out bs ctx of
                    Inl f \<Rightarrow> Some (Inl f)
                  | Inr (rc1, ctx1) \<Rightarrow> vprintf_loop view out rc1 fmt1 args1 ctx1))))"

definition do_vprintf ::
    "('c \<Rightarrow> mem) \<Rightarrow> 'c sink \<Rightarrow> u64 \<Rightarrow> u64 list \<Rightarrow> 'c \<Rightarrow> (s32 \<times> 'c) result option" where
  "do_vprintf view out fmt args c =
     Option.bind (vprintf_loop view out 0 fmt args (0, c)) (\<lambda>r.
       Some (and_then r (\<lambda>(rc, written, c1). Inr (if sint rc < 0 then rc else written, c1))))"

subsection \<open>The two sinks\<close>

definition vga_out :: "(mem \<times> vga) sink" where
  "vga_out written buf mv = Inr (0, vga_write buf mv)"

definition vprintf :: "u64 \<Rightarrow> u64 list \<Rightarrow> mem \<times> vga \<Rightarrow> (s32 \<times> mem \<times> vga) result option" where
  "vprintf fmt args mv = do_vprintf fst vga_out fmt args mv"

definition str_out :: "u64 \<Rightarrow> s32 \<Rightarrow> mem sink" where
  "str_out dst sz written buf m =
     (if sint written > sint sz then Inr (0, m)
      else let n = of_nat (length buf) :: s32;
               remain = (if sint n < sint (sz - written) then n else sz - written)
           in if sint remain < 0 then Inl Wild
              else Inr (0, store_bytes m (dst + scast written) (take (nat (sint remain)) buf)))"

definition vsnprintf :: "u64 \<Rightarrow> u64 \<Rightarrow> u64 \<Rightarrow> u64 list \<Rightarrow> mem \<Rightarrow> (s32 \<times> mem) result option" where
  "vsnprintf dst bytes fmt args m =
     (let sz = ucast bytes :: s32
      in Option.bind (do_vprintf id (str_out dst sz) fmt args m) (\<lambda>r.
           Some (and_then r (\<lambda>(rc, m1).
             if sint rc \<ge> 0
             then Inr (rc, m1(dst + scast (if sint rc < sint sz then rc else sz - 1) := 0))
             else Inr (rc, m1)))))"

definition printf :: "u64 \<Rightarrow> u64 list \<Rightarrow> mem \<times> vga \<Rightarrow> (s32 \<times> mem \<times> vga) result option" where
  "printf fmt args mv = vprintf fmt args mv"

definition snprintf :: "u64 \<Rightarrow> u64 \<Rightarrow> u64 \<Rightarrow> u64 list \<Rightarrow> mem \<Rightarrow> (s32 \<times> mem) result option" where
  "snprintf dst bytes fmt args m = vsnprintf dst bytes fmt args m"

subsection \<open>What a format means\<close>

text \<open>
  \<open>formats m A fmt args tx\<close>: the format at \<open>fmt\<close> with these arguments stands for the
  text \<open>tx\<close>, and to find that out only memory in \<open>A\<close> is read.
\<close>

inductive formats :: "mem \<Rightarrow> u64 set \<Rightarrow> u64 \<Rightarrow> u64 list \<Rightarrow> u8 list \<Rightarrow> bool" for m A where
  finish: "fmt \<in> A \<Longrightarrow> m fmt = 0 \<Longrightarrow> formats m A fmt args []"
| piece: "fmt \<in> A \<Longrightarrow> m fmt \<noteq> 0 \<Longrightarrow>
    (\<And>m'. (\<forall>a\<in>A. m' a = m a) \<Longrightarrow> decode_format m' fmt = Some (ty, fmt1) \<and>
       format_piece m' fmt fmt1 ty args = Some (Inr (Some (bs, args1)))) \<Longrightarrow>
    formats m A fmt1 args1 tx \<Longrightarrow> formats m A fmt args (bs @ tx)"

lemma formats_cong:
  "formats m A fmt args tx \<Longrightarrow> (\<forall>a\<in>A. m' a = m a) \<Longrightarrow> formats m' A fmt args tx"
proof (induction rule: formats.induct)
  case (piece fmt ty fmt1 args bs args1 tx)
  then show ?case by (intro formats.piece) auto
qed (auto intro: formats.finish)

subsection \<open>The contract of a sink\<close>

text \<open>
  \<open>accepted c tx\<close>: the sink has taken exactly the text \<open>tx\<close>. A sink that takes every
  piece, and leaves the memory in \<open>A\<close> alone, gets the text the format stands for.
\<close>

locale print_sink =
  fixes view :: "'c \<Rightarrow> mem" and out :: "'c sink" and A :: "u64 set"
    and accepted :: "'c \<Rightarrow> u8 list \<Rightarrow> bool"
  assumes out_accepts:
    "accepted c tx \<Longrightarrow> length (tx @ bs) < 2 ^ 31 \<Longrightarrow>
       \<exists>c'. out (of_nat (length tx)) bs c = Inr (0, c') \<and> accepted c' (tx @ bs) \<and>
         (\<forall>a\<in>A. view c' a = view c a)"
begin

lemma vprintf_loop_formats:
  assumes "formats m A fmt args tx" and "\<forall>a\<in>A. view c a = m a"
    and "accepted c pre" and "length (pre @ tx) < 2 ^ 31"
  shows "\<exists>c'. vprintf_loop view out 0 fmt args (of_nat (length pre), c) =
      Some (Inr (0, of_nat (length (pre @ tx)), c')) \<and> accepted c' (pre @ tx) \<and>
      (\<forall>a\<in>A. view c' a = m a)"
  using assms
proof (induction arbitrary: c pre rule: formats.induct)
  case (finish fmt args)
  then show ?case by (subst vprintf_loop.simps) simp
next
  case (piece fmt ty fmt1 args bs args1 tx)
  have "length (pre @ bs) < 2 ^ 31" using piece.prems(3) by simp
  then obtain c1 where c1: "out (of_nat (length pre)) bs c = Inr (0, c1)" "accepted c1 (pre @ bs)"
      "\<forall>a\<in>A. view c1 a = view c a"
    using out_accepts [OF piece.prems(2)] by blast
  obtain c' where c': "vprintf_loop view out 0 fmt1 args1 (of_nat (length (pre @ bs)), c1) =
        Some (Inr (0, of_nat (length ((pre @ bs) @ tx)), c'))"
      "accepted c' ((pre @ bs) @ tx)" "\<forall>a\<in>A. view c' a = m a"
    using piece.IH [of c1 "pre @ bs"] c1 piece.prems by auto
  have "view c fmt \<noteq> 0" using piece.hyps(1,2) piece.prems(1) by simp
  moreover have "decode_format (view c) fmt = Some (ty, fmt1)"
    "format_piece (view c) fmt fmt1 ty args = Some (Inr (Some (bs, args1)))"
    using piece.hyps(3) [of "view c"] piece.prems(1) by simp_all
  moreover have "print out bs (of_nat (length pre), c) = Inr (0, of_nat (length (pre @ bs)), c1)"
    using c1(1) by (simp add: print_def)
  ultimately have "vprintf_loop view out 0 fmt args (of_nat (length pre), c) =
      vprintf_loop view out 0 fmt1 args1 (of_nat (length (pre @ bs)), c1)"
    by (subst vprintf_loop.simps) simp
  then show ?case using c' by simp
qed

lemma do_vprintf_formats:
  assumes "formats (view c) A fmt args tx" and "accepted c []" and "length tx < 2 ^ 31"
  shows "\<exists>c'. do_vprintf view out fmt args c = Some (Inr (of_nat (length tx), c')) \<and>
    accepted c' tx \<and> (\<forall>a\<in>A. view c' a = view c a)"
proof -
  obtain c' where "vprintf_loop view out 0 fmt args (0, c) = Some (Inr (0, of_nat (length tx), c'))"
      "accepted c' tx" "\<forall>a\<in>A. view c' a = view c a"
    using vprintf_loop_formats [OF assms(1) _ assms(2)] assms(3) by auto
  then show ?thesis by (simp add: do_vprintf_def)
qed

end

text \<open>The console takes the text onto the screen.\<close>

definition vga_accepted :: "mem \<Rightarrow> screen \<Rightarrow> mem \<times> vga \<Rightarrow> u8 list \<Rightarrow> bool" where
  "vga_accepted m0 t mv tx \<longleftrightarrow>
     shows_screen mv (fold term_put tx t) \<and> (\<forall>a. a \<notin> video \<longrightarrow> fst mv a = m0 a)"

interpretation vga_sink: print_sink fst vga_out "- video" "vga_accepted m0 t" for m0 t
proof
  fix c :: "mem \<times> vga" and tx bs
  assume acc: "vga_accepted m0 t c tx"
  obtain m v where c: "c = (m, v)" by (cases c)
  have "shows_screen (m, v) (fold term_put tx t)" using acc by (simp add: vga_accepted_def c)
  from vga_write_shows [OF this, of bs] vga_write_other [OF this, of _ bs] acc
  show "\<exists>c'. vga_out (of_nat (length tx)) bs c = Inr (0, c') \<and> vga_accepted m0 t c' (tx @ bs) \<and>
      (\<forall>a\<in>- video. fst c' a = fst c a)"
    by (simp add: vga_out_def c vga_accepted_def)
qed

text \<open>The buffer takes as much of the text as it has room for.\<close>

lemma small_s32:
  assumes "n < 2 ^ 31"
  shows "sint (of_nat n :: s32) = int n" and "(scast (of_nat n :: s32) :: u64) = of_nat n"
proof -
  show s: "sint (of_nat n :: s32) = int n"
    using assms by (simp add: signed_of_nat signed_take_bit_int_eq_self)
  show "(scast (of_nat n :: s32) :: u64) = of_nat n"
    by (simp only: scast_eq s) simp
qed

lemma store_bytes_append:
  "store_bytes m a (xs @ ys) = store_bytes (store_bytes m a xs) (a + of_nat (length xs)) ys"
  by (induction xs arbitrary: m a) (simp_all add: ac_simps)

definition buf_accepted :: "mem \<Rightarrow> u64 \<Rightarrow> nat \<Rightarrow> mem \<Rightarrow> u8 list \<Rightarrow> bool" where
  "buf_accepted m0 dst n m tx \<longleftrightarrow> n < 2 ^ 31 \<and> m = store_bytes m0 dst (take n tx)"

interpretation buf_sink: print_sink id "str_out dst (of_nat n)" "- span dst n" "buf_accepted m0 dst n"
  for dst n m0
proof
  fix m :: mem and tx bs :: "u8 list"
  assume acc: "buf_accepted m0 dst n m tx" and len: "length (tx @ bs) < 2 ^ 31"
  have n: "n < 2 ^ 31" and m: "m = store_bytes m0 dst (take n tx)" using acc by (simp_all add: buf_accepted_def)
  let ?w = "length tx"
  have w: "?w < 2 ^ 31" and b: "length bs < 2 ^ 31" using len by simp_all
  note sn = small_s32 [OF n] and sw = small_s32 [OF w] and sb = small_s32 [OF b]
  let ?m' = "store_bytes m (dst + of_nat ?w) (take (n - ?w) bs)"
  have run: "str_out dst (of_nat n) (of_nat ?w) bs m = Inr (0, if n < ?w then m else ?m')"
  proof (cases "n < ?w")
    case True
    then show ?thesis using sn(1) sw(1) by (simp add: str_out_def)
  next
    case False
    have d: "(of_nat n - of_nat ?w :: s32) = of_nat (n - ?w)" using False by (simp add: of_nat_diff)
    have dn: "n - ?w < 2 ^ 31" using n by simp
    note sd = small_s32 [OF dn]
    let ?k = "if length bs < n - ?w then length bs else n - ?w"
    have k: "?k < 2 ^ 31" using b dn by simp
    have r: "(if sint (of_nat (length bs) :: s32) < sint (of_nat (n - ?w) :: s32) then of_nat (length bs)
        else of_nat (n - ?w) :: s32) = of_nat ?k"
      using sb(1) sd(1) by auto
    have "take ?k bs = take (n - ?w) bs" by simp
    moreover have "nat (sint (of_nat ?k :: s32)) = ?k" "\<not> sint (of_nat ?k :: s32) < 0"
      using small_s32(1) [OF k] by simp_all
    ultimately show ?thesis
      using False sn(1) sw unfolding str_out_def Let_def d r by simp
  qed
  have "buf_accepted m0 dst n (if n < ?w then m else ?m') (tx @ bs)"
    using n m by (auto simp: buf_accepted_def store_bytes_append)
  moreover have "id (if n < ?w then m else ?m') a = id m a" if "a \<in> - span dst n" for a
  proof (cases "n < ?w")
    case False
    have "a \<notin> span (dst + of_nat ?w) (length (take (n - ?w) bs))"
    proof
      assume "a \<in> span (dst + of_nat ?w) (length (take (n - ?w) bs))"
      then obtain i where "i < n - ?w" "a = dst + of_nat ?w + of_nat i" by (auto simp: span_iff)
      then have "?w + i < n" "a = dst + of_nat (?w + i)" by simp_all
      then show False using that unfolding Compl_iff span_iff by blast
    qed
    then show ?thesis using False by (simp add: store_bytes_other)
  qed simp
  ultimately show "\<exists>c'. str_out dst (of_nat n) (of_nat (length tx)) bs m = Inr (0, c') \<and>
      buf_accepted m0 dst n c' (tx @ bs) \<and> (\<forall>a\<in>- span dst n. id c' a = id m a)"
    using run by blast
qed

subsection \<open>Numbers\<close>

lemma read_bytes_Suc: "read_bytes m p (Suc n) = m p # read_bytes m (p + 1) n"
  by (simp only: read_bytes_def upt_conv_Cons zero_less_Suc map_Suc_upt [symmetric] list.map map_map comp_def)
    (simp add: ac_simps)

lemma string_at_cstr:
  assumes "cstr m p s" and "length s < 2 ^ 31"
  shows "string_at m p = Some (Inr s)"
proof -
  have "cstr m p s \<Longrightarrow> read_bytes m p (length s) = s" for p s
    by (induction s arbitrary: p) (simp_all add: read_bytes_Suc, simp add: read_bytes_def)
  moreover have "unat (of_nat (length s) :: u64) = length s"
    using assms(2) by (intro unat_of_nat_u64) simp
  ultimately show ?thesis using assms strlen_cstr [OF assms(1)] by (simp add: string_at_def)
qed

text \<open>An unsigned number is printed as its text in the base the flags select.\<close>

lemma print_number_unsigned:
  fixes ty :: u32 and arg :: u64
  assumes u: "ty AND FMT_UNSIGNED \<noteq> 0"
  defines "b \<equiv> (if ty AND FMT_HEX \<noteq> 0 then 16 else if ty AND FMT_OCT \<noteq> 0 then 8 else 10 :: nat)"
    and "v \<equiv> (if ty AND FMT_LONG \<noteq> 0 \<or> ty AND FMT_LLONG \<noteq> 0 then arg else ucast (ucast arg :: u32) :: u64)"
  shows "print_number ty arg = Some (Inr (number_text b (unat v)))"
proof -
  let ?base = "if ty AND FMT_HEX \<noteq> 0 then 16 else if ty AND FMT_OCT \<noteq> 0 then 8 else 10 :: s32"
  have b: "unat (scast ?base :: u64) = b" "2 \<le> b" "b \<le> 36" by (simp_all add: b_def)
  have "(2 :: nat) ^ 64 \<le> b ^ 64" using b(2) by (rule power_mono) simp
  then have len: "length (number_text b (unat v)) \<le> 64"
    using number_text_length [OF b(2), of "unat v" 64] unat_u64_bound [of v] by linarith
  obtain m' where "ulltoa (\<lambda>a. 0) v 0 ?base = Some (Inr (m', 0))" "cstr m' 0 (number_text b (unat v))"
    using ulltoa_eq [where base = ?base and v = v and str = 0 and m = "\<lambda>a. 0"] b len by auto
  then show ?thesis
    using u string_at_cstr [of m' 0 "number_text b (unat v)"] len
    unfolding print_number_def v_def Let_def by simp
qed

subsection \<open>A sample format\<close>

lemma formats_mono:
  "formats m A fmt args tx \<Longrightarrow> A \<subseteq> B \<Longrightarrow> formats m B fmt args tx"
proof (induction rule: formats.induct)
  case (piece fmt ty fmt1 args bs args1 tx)
  then show ?case by (intro formats.piece [where ty = ty and ?fmt1.0 = fmt1 and ?args1.0 = args1]) blast+
qed (auto intro: formats.finish)

definition format_sample :: mem where
  "format_sample = store_bytes (\<lambda>a. 0) 0x1000 (bytes_of ''A%u'')"

lemma format_sample_formats: "formats format_sample {0x1000, 0x1001, 0x1002, 0x1003} 0x1000 [7] [65, 55]"
proof -
  let ?A = "{0x1000, 0x1001, 0x1002, 0x1003} :: u64 set"
  have m: "format_sample 0x1000 = 65" "format_sample 0x1001 = 37" "format_sample 0x1002 = 117"
    "format_sample 0x1003 = 0"
    by (simp_all add: format_sample_def bytes_of_def)
  have num: "print_number 0x1004 7 = Some (Inr [55])"
    using print_number_unsigned [of "0x1004" 7]
    by (simp add: fmt_defs number_text_def low_digits.simps [of 10 7] digits_def bytes_of_def)
  have dig: "isdigit 117 = 0" by code_simp
  have "formats format_sample ?A 0x1003 [] []" by (rule formats.finish) (simp_all add: m)
  then have p2: "formats format_sample ?A 0x1001 [7] ([55] @ [])"
  proof (rule formats.piece [where ty = "0x1004", rotated 3])
    fix m' :: mem
    assume "\<forall>a\<in>?A. m' a = format_sample a"
    then have m': "m' 0x1001 = 37" "m' 0x1002 = 117" by (simp_all add: m)
    have "decode_format m' 0x1001 = Some (0x1004, 0x1003)"
      by (simp add: decode_format_def decode_loop.simps [of m' "0x1001"] m' decode_spec_def
          skip_digits.simps [of m' "0x1002"] dig decode_length_def decode_conversion_def fmt_defs Let_def)
    then show "decode_format m' 0x1001 = Some (0x1004, 0x1003) \<and>
        format_piece m' 0x1001 0x1003 0x1004 [7] = Some (Inr (Some ([55], [])))"
      by (simp add: format_piece_def fmt_defs take_arg_def va_arg_def num)
  qed (simp_all add: m)
  have "formats format_sample ?A 0x1000 [7] ([65] @ [55] @ [])"
  proof (rule formats.piece [where ty = FMT_NONE, OF _ _ _ p2])
    fix m' :: mem
    assume "\<forall>a\<in>?A. m' a = format_sample a"
    then have m': "m' 0x1000 = 65" "m' 0x1001 = 37" by (simp_all add: m)
    show "decode_format m' 0x1000 = Some (FMT_NONE, 0x1001) \<and>
        format_piece m' 0x1000 0x1001 FMT_NONE [7] = Some (Inr (Some ([65], [7])))"
      by (simp add: decode_format_def decode_loop.simps [of m' "0x1000"] decode_loop.simps [of m' "0x1001"]
          m' format_piece_def read_bytes_def fmt_defs)
  qed (simp_all add: m)
  then show ?thesis by simp
qed

subsection \<open>The two routines\<close>





end
