(* ===== verification/Paging.thy ===== *)
theory Paging
  imports Slab
begin

text \<open>
  Page tables (\<open>src/paging.c\<close>, \<open>inc/paging.h\<close>). A table is a page of 512 entries of
  8 bytes in the byte memory, addressed through the direct mapping. The recursive routines descend
  the levels 4 to 1; their loops run over the entries \<open>from\<close> to \<open>to - 1\<close>, and leave the
  table (\<open>Wild\<close>) if \<open>from\<close> exceeds \<open>to\<close>. A result \<open>True\<close> stands for 0, \<open>False\<close> for -1.
  The translation cache is not modelled.
\<close>

record paging = slabs +
  initial_cr3 :: u64
  cr3 :: u64

definition PTE_PHYS_MASK :: u64 where "PTE_PHYS_MASK = 0xffffffffff000"
definition PTE_PRESENT :: u64 where "PTE_PRESENT = push_bit 0 1"
definition PTE_LARGE :: u64 where "PTE_LARGE = push_bit 7 1"
definition PTE_WRITE :: u64 where "PTE_WRITE = push_bit 1 1"
definition PTE_USER :: u64 where "PTE_USER = push_bit 2 1"

definition pt_shift :: "nat \<Rightarrow> nat" where
  "pt_shift lvl = [0, 12, 21, 30, 39] ! lvl"

definition pt_index :: "u64 \<Rightarrow> nat \<Rightarrow> nat" where
  "pt_index addr lvl =
     unat (drop_bit (pt_shift lvl) addr AND [0xfff, 0x1ff, 0x1ff, 0x1ff, 0x1ff] ! lvl)"

definition pt_size :: "nat \<Rightarrow> u64" where
  "pt_size lvl = push_bit (pt_shift lvl) 1"

definition pt_order :: "nat \<Rightarrow> nat" where
  "pt_order lvl = pt_shift lvl - PAGE_BITS"

definition pt_get :: "mem \<Rightarrow> u64 \<Rightarrow> nat \<Rightarrow> u64" where
  "pt_get m pt i = load_u64 m (pt + 8 * of_nat i)"

definition pt_set :: "u64 \<Rightarrow> nat \<Rightarrow> u64 \<Rightarrow> 'a paging_scheme \<Rightarrow> 'a paging_scheme" where
  "pt_set pt i pte s = s\<lparr>memory := store_u64 (memory s) (pt + 8 * of_nat i) pte\<rparr>"

subsection \<open>Translation\<close>

text \<open>The walk from level \<open>i\<close> on, with the address bits left and the table in hand.\<close>

fun pt_walk :: "mem \<Rightarrow> u64 \<Rightarrow> nat \<Rightarrow> u64 \<Rightarrow> u64 \<Rightarrow> u64 \<Rightarrow> u64" where
  "pt_walk m addr 0 msk phys pt = phys OR (addr AND msk)"
| "pt_walk m addr (Suc i) msk phys pt =
     (let pte = pt_get m pt (pt_index addr (Suc i))
      in if pte AND PTE_PRESENT = 0 then 0
         else let phys1 = pte AND PTE_PHYS_MASK; msk1 = drop_bit 9 msk
              in if pte AND PTE_LARGE \<noteq> 0 then phys1 OR (addr AND msk1)
                 else pt_walk m addr i msk1 phys1 (va phys1))"

definition pt_addr :: "mem \<Rightarrow> u64 \<Rightarrow> u64 \<Rightarrow> u64" where
  "pt_addr m pml4 addr = pt_walk m addr 4 0xffffffffffff (pa pml4) pml4"

subsection \<open>Mapping and unmapping\<close>

definition pt_alloc :: "'a paging_scheme \<Rightarrow> (u64 \<times> 'a paging_scheme) result" where
  "pt_alloc s =
     (let (phys, s1) = buddy_alloc 0 s
      in if phys = 0 then Inl Hang
         else Inr (phys, s1\<lparr>memory := memset (memory s1) (va phys) 0 PAGE_SIZE\<rparr>))"

definition pt_free :: "u64 \<Rightarrow> 'a paging_scheme \<Rightarrow> 'a paging_scheme result" where
  "pt_free phys s = buddy_free phys 0 s"

definition pde_flags :: u64 where "pde_flags = PTE_PRESENT OR PTE_WRITE OR PTE_USER"

definition pte_large :: "nat \<Rightarrow> u64" where
  "pte_large lvl = (if lvl = 3 \<or> lvl = 2 then PTE_LARGE else 0)"

text \<open>The number of bytes of the range that fall into the current entry.\<close>

definition pt_chunk :: "nat \<Rightarrow> u64 \<Rightarrow> u64 \<Rightarrow> u64" where
  "pt_chunk lvl virt sz =
     (let esize = pt_size lvl; eend = (virt + esize) AND NOT (esize - 1)
      in if sz < eend - virt then sz else eend - virt)"

definition pt_from :: "nat \<Rightarrow> u64 \<Rightarrow> nat" where
  "pt_from lvl virt = pt_index virt lvl"

definition pt_to :: "nat \<Rightarrow> u64 \<Rightarrow> u64 \<Rightarrow> nat" where
  "pt_to lvl virt sz = pt_index (virt + sz - 1) lvl + 1"

text \<open>
  The loop of \<open>__pt_map\<close> over \<open>n\<close> more entries; \<open>inner\<close> is the recursive call one level
  down. A step yields the table for the recursive call, or nothing for a leaf.
\<close>

primrec pt_map_loop ::
    "(u64 \<Rightarrow> u64 \<Rightarrow> u64 \<Rightarrow> 'a paging_scheme \<Rightarrow> (bool \<times> 'a paging_scheme) result) \<Rightarrow>
     nat \<Rightarrow> u64 \<Rightarrow> u64 \<Rightarrow> nat \<Rightarrow> nat \<Rightarrow> u64 \<Rightarrow> u64 \<Rightarrow> 'a paging_scheme \<Rightarrow> (bool \<times> 'a paging_scheme) result" where
  "pt_map_loop inner lvl pt flags 0 i virt sz s = Inr (True, s)"
| "pt_map_loop inner lvl pt flags (Suc n) i virt sz s =
     (let esize = pt_size lvl; emask = esize - 1;
          tomap = pt_chunk lvl virt sz;
          notaligned = ucast (virt AND emask) \<noteq> (0 :: s32);
          leaf = (lvl = 1 \<or> pte_large lvl \<noteq> 0 \<and> tomap = esize \<and> \<not> notaligned);
          pte = pt_get (memory s) pt i;
          rest = (\<lambda>pte s.
            if lvl > 1
            then and_then (inner (va (pte AND PTE_PHYS_MASK)) virt tomap s) (\<lambda>(ok, s1).
                   if \<not> ok then Inr (False, s1)
                   else pt_map_loop inner lvl pt flags n (i + 1) (virt + tomap) (sz - tomap) s1)
            else pt_map_loop inner lvl pt flags n (i + 1) (virt + tomap) (sz - tomap) s);
          table = (\<lambda>s. and_then (pt_alloc s) (\<lambda>(phys, s1).
            let pte = phys OR pde_flags in rest pte (pt_set pt i pte s1)))
      in if pte AND PTE_PRESENT \<noteq> 0 then rest pte s
         else if leaf then
           let (phys, s1) = buddy_alloc (pt_order lvl) s
           in if phys \<noteq> 0 then
                pt_map_loop inner lvl pt flags n (i + 1) (virt + tomap) (sz - tomap)
                  (pt_set pt i (phys OR (flags OR pte_large lvl)) s1)
              else if lvl = 1 then Inr (False, s1)
              else table s1
         else table s)"

primrec do_pt_map ::
    "nat \<Rightarrow> u64 \<Rightarrow> u64 \<Rightarrow> u64 \<Rightarrow> u64 \<Rightarrow> 'a paging_scheme \<Rightarrow> (bool \<times> 'a paging_scheme) result" where
  "do_pt_map 0 flags pt virt sz s = Inl Wild"
| "do_pt_map (Suc l) flags pt virt sz s =
     (let lvl = Suc l; from = pt_from lvl virt; to = pt_to lvl virt sz
      in if from > to then Inl Wild
         else pt_map_loop (do_pt_map l flags) lvl pt flags (to - from) from virt sz s)"

definition pt_map :: "u64 \<Rightarrow> u64 \<Rightarrow> u64 \<Rightarrow> u64 \<Rightarrow> 'a paging_scheme \<Rightarrow> (bool \<times> 'a paging_scheme) result" where
  "pt_map pml4 vaddr sz flags s = do_pt_map 4 flags pml4 vaddr sz s"

primrec pt_unmap_loop ::
    "(u64 \<Rightarrow> u64 \<Rightarrow> u64 \<Rightarrow> 'a paging_scheme \<Rightarrow> 'a paging_scheme result) \<Rightarrow>
     nat \<Rightarrow> u64 \<Rightarrow> nat \<Rightarrow> nat \<Rightarrow> u64 \<Rightarrow> u64 \<Rightarrow> 'a paging_scheme \<Rightarrow> 'a paging_scheme result" where
  "pt_unmap_loop inner lvl pt 0 i vaddr sz s = Inr s"
| "pt_unmap_loop inner lvl pt (Suc n) i vaddr sz s =
     (let esize = pt_size lvl;
          tounmap = pt_chunk lvl vaddr sz;
          pte = pt_get (memory s) pt i;
          phys = pte AND PTE_PHYS_MASK
      in if pte AND PTE_PRESENT = 0 then pt_unmap_loop inner lvl pt n (i + 1) vaddr sz s
         else if lvl = 1 \<or> pte AND PTE_LARGE \<noteq> 0 then
           and_then (buddy_free phys (pt_order lvl) s) (\<lambda>s1.
             pt_unmap_loop inner lvl pt n (i + 1) vaddr sz (pt_set pt i 0 s1))
         else
           and_then (inner (va phys) vaddr tounmap s) (\<lambda>s1.
             if tounmap = esize then
               and_then (pt_free phys s1) (\<lambda>s2.
                 pt_unmap_loop inner lvl pt n (i + 1) (vaddr + tounmap) (sz - tounmap) (pt_set pt i 0 s2))
             else pt_unmap_loop inner lvl pt n (i + 1) (vaddr + tounmap) (sz - tounmap) s1))"

primrec do_pt_unmap ::
    "nat \<Rightarrow> u64 \<Rightarrow> u64 \<Rightarrow> u64 \<Rightarrow> 'a paging_scheme \<Rightarrow> 'a paging_scheme result" where
  "do_pt_unmap 0 pt vaddr sz s = Inl Wild"
| "do_pt_unmap (Suc l) pt vaddr sz s =
     (let lvl = Suc l; from = pt_from lvl vaddr; to = pt_to lvl vaddr sz
      in if from > to then Inl Wild
         else pt_unmap_loop (do_pt_unmap l) lvl pt (to - from) from vaddr sz s)"

definition pt_unmap :: "u64 \<Rightarrow> u64 \<Rightarrow> u64 \<Rightarrow> 'a paging_scheme \<Rightarrow> 'a paging_scheme result" where
  "pt_unmap pml4 vaddr sz s = do_pt_unmap 4 pml4 vaddr sz s"

subsection \<open>The initial page table\<close>

definition pt_early_alloc :: "'a paging_scheme \<Rightarrow> (u64 \<times> 'a paging_scheme) result" where
  "pt_early_alloc s =
     and_then (do_balloc_alloc 0 (push_bit 32 1) PAGE_SIZE PAGE_SIZE s) (\<lambda>(phys, s1).
       if phys = 0 then Inl Hang
       else Inr (phys, s1\<lparr>memory := memset (memory s1) (va phys) 0 PAGE_SIZE\<rparr>))"

primrec pt_map_to_loop ::
    "(u64 \<Rightarrow> u64 \<Rightarrow> u64 \<Rightarrow> u64 \<Rightarrow> 'a paging_scheme \<Rightarrow> 'a paging_scheme result) \<Rightarrow>
     nat \<Rightarrow> u64 \<Rightarrow> u64 \<Rightarrow> nat \<Rightarrow> nat \<Rightarrow> u64 \<Rightarrow> u64 \<Rightarrow> u64 \<Rightarrow> 'a paging_scheme \<Rightarrow> 'a paging_scheme result" where
  "pt_map_to_loop inner lvl pt flags 0 i virt sz phys s = Inr s"
| "pt_map_to_loop inner lvl pt flags (Suc n) i virt sz phys s =
     (let esize = pt_size lvl; emask = esize - 1;
          tomap = pt_chunk lvl virt sz;
          pte = pt_get (memory s) pt i;
          descend = (\<lambda>pte s. and_then (inner (va (pte AND PTE_PHYS_MASK)) virt tomap phys s)
            (pt_map_to_loop inner lvl pt flags n (i + 1) (virt + tomap) (sz - tomap) (phys + tomap)))
      in if pte AND PTE_PRESENT = 0 then
           let notaligned = (virt AND emask \<noteq> 0 \<or> phys AND emask \<noteq> 0);
               leaf = (lvl = 1 \<or> pte_large lvl \<noteq> 0 \<and> tomap = esize \<and> \<not> notaligned)
           in if leaf then
                pt_map_to_loop inner lvl pt flags n (i + 1) (virt + tomap) (sz - tomap) (phys + tomap)
                  (pt_set pt i (phys OR flags OR pte_large lvl) s)
              else and_then (pt_early_alloc s) (\<lambda>(p, s1).
                let pte = p OR pde_flags in descend pte (pt_set pt i pte s1))
         else descend pte s)"

primrec do_pt_map_to ::
    "nat \<Rightarrow> u64 \<Rightarrow> u64 \<Rightarrow> u64 \<Rightarrow> u64 \<Rightarrow> u64 \<Rightarrow> 'a paging_scheme \<Rightarrow> 'a paging_scheme result" where
  "do_pt_map_to 0 flags pt virt sz phys s = Inl Wild"
| "do_pt_map_to (Suc l) flags pt virt sz phys s =
     (let lvl = Suc l; from = pt_from lvl virt; to = pt_to lvl virt sz
      in if from > to then Inl Wild
         else pt_map_to_loop (do_pt_map_to l flags) lvl pt flags (to - from) from virt sz phys s)"

definition pt_map_to ::
    "u64 \<Rightarrow> u64 \<Rightarrow> u64 \<Rightarrow> u64 \<Rightarrow> u64 \<Rightarrow> 'a paging_scheme \<Rightarrow> 'a paging_scheme result" where
  "pt_map_to pt virt sz phys flags s = do_pt_map_to 4 (flags OR PTE_PRESENT) pt virt sz phys s"

definition cr3_write :: "u64 \<Rightarrow> 'a paging_scheme \<Rightarrow> 'a paging_scheme" where
  "cr3_write phys s = s\<lparr>cr3 := phys\<rparr>"

definition paging_setup :: "'a paging_scheme \<Rightarrow> 'a paging_scheme result" where
  "paging_setup s =
     and_then (pt_early_alloc s) (\<lambda>(phys, s1).
       let gb = 1024 * 1024 * 1024; pt = va phys;
           e = balloc_phys_mem s1 AND NOT PAGE_MASK; b = 0
       in and_then (pt_map_to pt (HIGHER_BASE + b) (e - b) b PTE_WRITE s1) (\<lambda>s2.
          and_then (pt_map_to pt VIRTUAL_BASE (2 * gb) 0 PTE_WRITE s2) (\<lambda>s3.
            let s4 = s3\<lparr>initial_cr3 := phys\<rparr> in Inr (cr3_write phys s4))))"

end
