(* ===== verification/Mm.thy ===== *)
theory Mm
  imports Paging
begin

text \<open>
  Process address spaces (\<open>src/mm.c\<close>, \<open>inc/mm.h\<close>): the list of mapped regions of a
  \<open>struct mm\<close> and its page table. The objects come from two object caches; their fields are
  kept by object address in \<open>mm_at\<close> and \<open>vma_at\<close>, and their list nodes in
  \<open>mm_links\<close>: \<open>MmHead a\<close> is the list head in the \<open>struct mm\<close> at \<open>a\<close>, \<open>Vma a\<close>
  the node of the \<open>struct vma\<close> at \<open>a\<close>, \<open>Lst\<close> the local list of \<open>munmap\<close>. A node that is cast to a
  \<open>struct vma\<close> and is none is \<open>Wild\<close>. Results \<open>True\<close> stand for 0, \<open>False\<close> for -1.
\<close>

datatype mnode = MmHead u64 | Vma u64 | Lst

record vma =
  vma_begin :: u64
  vma_end :: u64
  vma_perm :: u32

record mm =
  mm_pt :: page_ptr
  mm_cr3 :: u64

record mms = paging +
  mm_links :: "mnode links"
  mm_at :: "u64 \<Rightarrow> mm"
  vma_at :: "u64 \<Rightarrow> vma"

definition VMA_ACCESS_READ :: u32 where "VMA_ACCESS_READ = 0"
definition VMA_ACCESS_WRITE :: u32 where "VMA_ACCESS_WRITE = 1"
definition VMA_ACCESS_EXECUTE :: u32 where "VMA_ACCESS_EXECUTE = 2"
definition VMA_PERM_READ :: u32 where "VMA_PERM_READ = push_bit 0 1"
definition VMA_PERM_WRITE :: u32 where "VMA_PERM_WRITE = push_bit 1 1"
definition VMA_PERM_EXECUTE :: u32 where "VMA_PERM_EXECUTE = push_bit 2 1"

definition USER_MASK :: u64 where "USER_MASK = 0x0000ffffffffffff"

text \<open>The static caches \<open>mm_slab\<close> and \<open>vma_slab\<close>, and the size of their objects.\<close>

definition mm_slab :: nat where "mm_slab = 0"
definition vma_slab :: nat where "vma_slab = 1"
definition sizeof_mm :: u64 where "sizeof_mm = 32"
definition sizeof_vma :: u64 where "sizeof_vma = 40"

definition node_vma :: "mnode \<Rightarrow> u64 result" where
  "node_vma n = (case n of Vma a \<Rightarrow> Inr a | _ \<Rightarrow> Inl Wild)"

definition upd_mm_links :: "(mnode links \<Rightarrow> mnode links) \<Rightarrow> 'a mms_scheme \<Rightarrow> 'a mms_scheme" where
  "upd_mm_links f s = s\<lparr>mm_links := f (mm_links s)\<rparr>"

definition user_end :: u64 where "user_end = HIGHER_BASE AND USER_MASK"

subsection \<open>Creating an address space\<close>

definition mm_create :: "'a mms_scheme \<Rightarrow> (u64 \<times> 'a mms_scheme) result" where
  "mm_create s =
     and_then (slab_cache_alloc mm_slab s) (\<lambda>(mm, s1).
       if mm = 0 then Inr (0, s1)
       else let s2 = upd_mm_links (list_init (MmHead mm)) s1
            in case do_buddy_alloc 0 s2 of
                 (None, s3) \<Rightarrow> Inr (0, slab_cache_free mm_slab mm s3)
               | (Some pt, s3) \<Rightarrow>
                   and_then (page_addr pt s3) (\<lambda>cr3.
                     let s4 = s3\<lparr>mm_at := (mm_at s3)(mm := \<lparr>mm_pt = pt, mm_cr3 = cr3\<rparr>)\<rparr>;
                         offs = of_nat (pt_index HIGHER_BASE 4) * 8;
                         ptr = va cr3;
                         m1 = memset (memory s4) ptr 0 PAGE_SIZE;
                         m2 = memcpy m1 (ptr + offs) (va (initial_cr3 s4 + offs)) (PAGE_SIZE - offs)
                     in Inr (mm, s4\<lparr>memory := m2\<rparr>)))"

subsection \<open>Filling and copying\<close>

text \<open>The bytes left on the page of \<open>ptr\<close>.\<close>

definition page_left :: "u64 \<Rightarrow> u64" where
  "page_left ptr = ((ptr + PAGE_SIZE) AND NOT (PAGE_SIZE - 1)) - ptr"

lemma floor_page_wrap:
  fixes y :: nat
  shows "y div 4096 * 4096 mod 2 ^ 64 = y mod 2 ^ 64 div 4096 * 4096"
proof -
  have n: "(2 :: nat) ^ 64 = 4096 * 2 ^ 52" by simp
  have "y div 4096 * 4096 mod (4096 * 2 ^ 52) = 4096 * (y div 4096 mod 2 ^ 52)"
    by (simp only: mult.commute [of "y div 4096"] mult_mod_right [symmetric])
  moreover have "y mod (4096 * 2 ^ 52) div 4096 = y div 4096 mod 2 ^ 52"
    by (simp only: mod_mult2_eq)
  ultimately show ?thesis unfolding n by simp
qed

lemma unat_page_left: "unat (page_left ptr) = 4096 - unat ptr mod 4096"
proof -
  let ?x = "unat ptr"
  let ?l = "4096 - ?x mod 4096"
  have "PAGE_SIZE - 1 = mask 12" by (simp add: PAGE_SIZE_def mask_eq_exp_minus_1)
  then have f: "unat ((ptr + PAGE_SIZE) AND NOT (PAGE_SIZE - 1)) = unat (ptr + PAGE_SIZE) div 4096 * 4096"
    using unat_clear_low [of 12 "ptr + PAGE_SIZE"] by (simp add: and.commute)
  have "unat (ptr + PAGE_SIZE) = (?x + 4096) mod 2 ^ 64"
    by (simp add: unat_word_ariths PAGE_SIZE_def)
  then have f2: "unat ((ptr + PAGE_SIZE) AND NOT (PAGE_SIZE - 1)) = (?x + 4096) div 4096 * 4096 mod 2 ^ 64"
    using f floor_page_wrap [of "?x + 4096"] by simp
  have "(?x + 4096) div 4096 * 4096 = ?l + ?x"
  proof -
    have "?x div 4096 * 4096 = ?x - ?x mod 4096" by (simp add: minus_mod_eq_div_mult)
    moreover have "?x mod 4096 \<le> ?x" "?x mod 4096 < 4096" by simp_all
    moreover have "(?x + 4096) div 4096 = ?x div 4096 + 1" by simp
    ultimately show ?thesis by (simp only: distrib_right) linarith
  qed
  moreover have "unat (of_nat ?l :: u64) = ?l" by (intro unat_of_nat_u64) simp
  ultimately have "unat (of_nat ?l + ptr) = unat ((ptr + PAGE_SIZE) AND NOT (PAGE_SIZE - 1))"
    unfolding f2 by (simp add: unat_word_ariths)
  then have "of_nat ?l + ptr = (ptr + PAGE_SIZE) AND NOT (PAGE_SIZE - 1)" by (rule word_unat_eq_iff [THEN iffD2])
  then have "page_left ptr = of_nat ?l" unfolding page_left_def by (metis add_diff_cancel_right')
  then show ?thesis using \<open>unat (of_nat ?l :: u64) = ?l\<close> by simp
qed

lemma page_left_neq_0: "page_left ptr \<noteq> 0"
proof
  assume "page_left ptr = 0"
  then have "unat (page_left ptr) = 0" by simp
  then show False using unat_page_left [of ptr] by simp
qed

lemma chunk_less:
  assumes "sz \<noteq> (0 :: u64)" and "n \<noteq> 0" and "n \<le> sz"
  shows "unat (sz - n) < unat sz"
proof -
  have "0 < unat n" using assms(2) by (simp add: unat_gt_0)
  then show ?thesis using assms(3) by (simp add: unat_sub word_le_nat_alt)
qed

function mset_loop :: "u64 \<Rightarrow> u64 \<Rightarrow> s32 \<Rightarrow> u64 \<Rightarrow> mem \<Rightarrow> bool \<times> mem" where
  "mset_loop pt ptr c sz m =
     (if sz = 0 then (True, m)
      else let pg = page_left ptr; toset = (if pg < sz then pg else sz); d = pt_addr m pt ptr
           in if d = 0 then (False, m)
              else mset_loop pt (ptr + toset) c (sz - toset) (memset m (va d) c toset))"
  by pat_completeness auto
termination
  by (relation "measure (\<lambda>(pt, ptr, c, sz, m). unat sz)")
    (auto intro!: chunk_less simp: page_left_neq_0 unat_gt_0)

declare mset_loop.simps [simp del]

definition mset :: "u64 \<Rightarrow> u64 \<Rightarrow> s32 \<Rightarrow> u64 \<Rightarrow> 'a mms_scheme \<Rightarrow> bool \<times> 'a mms_scheme" where
  "mset dst to c sz s =
     (let pt = va (mm_cr3 (mm_at s dst)); (ok, m) = mset_loop pt to c sz (memory s)
      in (ok, s\<lparr>memory := m\<rparr>))"

function mcopy_loop :: "u64 \<Rightarrow> u64 \<Rightarrow> u64 \<Rightarrow> u64 \<Rightarrow> u64 \<Rightarrow> mem \<Rightarrow> bool \<times> mem" where
  "mcopy_loop dst_pt src_pt dst_ptr src_ptr sz m =
     (if sz = 0 then (True, m)
      else let dst_pg = page_left dst_ptr; src_pg = page_left src_ptr;
               pg = (if dst_pg < src_pg then dst_pg else src_pg);
               tocopy = (if pg < sz then pg else sz);
               d = pt_addr m dst_pt dst_ptr; s = pt_addr m src_pt src_ptr
           in if s = 0 \<or> d = 0 then (False, m)
              else mcopy_loop dst_pt src_pt (dst_ptr + tocopy) (src_ptr + tocopy) (sz - tocopy)
                     (memcpy m (va d) (va s) tocopy))"
  by pat_completeness auto
termination
  by (relation "measure (\<lambda>(dst_pt, src_pt, dst_ptr, src_ptr, sz, m). unat sz)")
    (auto intro!: chunk_less simp: page_left_neq_0 unat_gt_0)

declare mcopy_loop.simps [simp del]

definition mcopy :: "u64 \<Rightarrow> u64 \<Rightarrow> u64 \<Rightarrow> u64 \<Rightarrow> u64 \<Rightarrow> 'a mms_scheme \<Rightarrow> bool \<times> 'a mms_scheme" where
  "mcopy dst to src from sz s =
     (let dst_pt = va (mm_cr3 (mm_at s dst)); src_pt = va (mm_cr3 (mm_at s src));
          (ok, m) = mcopy_loop dst_pt src_pt to from sz (memory s)
      in (ok, s\<lparr>memory := m\<rparr>))"

subsection \<open>Unmapping\<close>

text \<open>
  The search of \<open>munmap\<close>: the last region before the range and the first one after it, or nothing
  if a region sticks out of the range.
\<close>

partial_function (option) munmap_scan ::
    "mnode \<Rightarrow> mnode \<Rightarrow> mnode \<Rightarrow> u64 \<Rightarrow> u64 \<Rightarrow> 'a mms_scheme \<Rightarrow> (mnode \<times> mnode) option result option" where
  "munmap_scan head ptr prev from to s =
     (if ptr = head then Some (Inr (Some (prev, head)))
      else case node_vma ptr of
             Inl f \<Rightarrow> Some (Inl f)
           | Inr a \<Rightarrow>
               let v = vma_at s a
               in if vma_end v \<le> from then munmap_scan head (nxt (mm_links s) ptr) ptr from to s
                  else if vma_begin v \<ge> to then Some (Inr (Some (prev, ptr)))
                  else if vma_begin v < from \<or> vma_end v > to then Some (Inr None)
                  else munmap_scan head (nxt (mm_links s) ptr) prev from to s)"

partial_function (option) free_vmas :: "mnode \<Rightarrow> 'a mms_scheme \<Rightarrow> 'a mms_scheme result option" where
  "free_vmas ptr s =
     (if ptr = Lst then Some (Inr s)
      else case node_vma ptr of
             Inl f \<Rightarrow> Some (Inl f)
           | Inr a \<Rightarrow> let next = nxt (mm_links s) ptr in free_vmas next (slab_cache_free vma_slab a s))"

definition list_link :: "'n \<Rightarrow> 'n \<Rightarrow> 'n links \<Rightarrow> 'n links" where
  "list_link p n h = (let h1 = h\<lparr>nxt := (nxt h)(p := n)\<rparr> in h1\<lparr>prv := (prv h1)(n := p)\<rparr>)"

text \<open>The part of the user space between two neighbouring regions.\<close>

definition gap_bounds :: "mnode \<Rightarrow> mnode \<Rightarrow> mnode \<Rightarrow> 'a mms_scheme \<Rightarrow> (u64 \<times> u64) result" where
  "gap_bounds head prev next s =
     and_then (if prev \<noteq> head then and_then (node_vma prev) (\<lambda>a. Inr (vma_end (vma_at s a))) else Inr 0)
       (\<lambda>from. and_then (if next \<noteq> head then and_then (node_vma next) (\<lambda>a. Inr (vma_begin (vma_at s a)))
                          else Inr user_end) (\<lambda>to. Inr (from, to)))"

definition munmap :: "u64 \<Rightarrow> u64 \<Rightarrow> u64 \<Rightarrow> 'a mms_scheme \<Rightarrow> (bool \<times> 'a mms_scheme) result option" where
  "munmap mm from to s =
     (let head = MmHead mm
      in Option.bind (munmap_scan head (nxt (mm_links s) head) head from to s) (\<lambda>r. case r of
           Inl f \<Rightarrow> Some (Inl f)
         | Inr None \<Rightarrow> Some (Inr (False, s))
         | Inr (Some (prev, next)) \<Rightarrow>
             let s1 = upd_mm_links (list_init Lst) s;
                 h = mm_links s1;
                 s2 = (if nxt h prev \<noteq> next
                       then upd_mm_links (\<lambda>h. list_link prev next
                              (do_list_splice (nxt h prev) (prv h next) Lst h)) s1
                       else s1)
             in Option.bind (free_vmas (nxt (mm_links s2) Lst) s2) (\<lambda>r. Some (
                  and_then r (\<lambda>s3.
                  and_then (gap_bounds head prev next s3) (\<lambda>(b, e).
                  and_then (pt_unmap (va (mm_cr3 (mm_at s3 mm))) b (e - b) s3) (\<lambda>s4.
                    Inr (True, s4))))))))"

definition mm_release :: "u64 \<Rightarrow> 'a mms_scheme \<Rightarrow> 'a mms_scheme result option" where
  "mm_release mm s =
     Option.bind (munmap mm 0 user_end s) (\<lambda>r. Some (
       and_then r (\<lambda>(_, s1).
       and_then (do_buddy_free (mm_pt (mm_at s1 mm)) 0 s1) (\<lambda>s2.
         Inr (slab_cache_free mm_slab mm s2)))))"

subsection \<open>Mapping\<close>

definition user_flags :: "u32 \<Rightarrow> u64" where
  "user_flags perm =
     (let flags = PTE_USER OR PTE_PRESENT
      in if perm AND VMA_ACCESS_WRITE \<noteq> 0 then flags OR PTE_WRITE else flags)"

text \<open>The search of \<open>mmap\<close>: the first region behind the range, or nothing if one overlaps it.\<close>

partial_function (option) mmap_scan ::
    "mnode \<Rightarrow> mnode \<Rightarrow> u64 \<Rightarrow> u64 \<Rightarrow> 'a mms_scheme \<Rightarrow> mnode option result option" where
  "mmap_scan head next from to s =
     (if next = head then Some (Inr (Some next))
      else case node_vma next of
             Inl f \<Rightarrow> Some (Inl f)
           | Inr a \<Rightarrow>
               let v = vma_at s a
               in if vma_begin v \<ge> to then Some (Inr (Some next))
                  else if vma_end v > from \<and> vma_begin v < to then Some (Inr None)
                  else mmap_scan head (nxt (mm_links s) next) from to s)"

text \<open>What is unmapped again when \<open>pt_map\<close> fails; both assignments go to \<open>begin\<close>.\<close>

definition mmap_undo :: "u64 \<Rightarrow> mnode \<Rightarrow> 'a mms_scheme \<Rightarrow> 'a mms_scheme result" where
  "mmap_undo mm next s =
     (let head = MmHead mm; prev = prv (mm_links s) next
      in and_then (if prev \<noteq> head then and_then (node_vma prev) (\<lambda>a. Inr (vma_end (vma_at s a))) else Inr 0)
           (\<lambda>begin1. and_then (if next \<noteq> head then and_then (node_vma next) (\<lambda>a. Inr (vma_begin (vma_at s a)))
                               else Inr begin1)
           (\<lambda>begin2. pt_unmap (va (mm_cr3 (mm_at s mm))) begin2 (user_end - begin2) s)))"

definition mmap :: "u64 \<Rightarrow> u64 \<Rightarrow> u64 \<Rightarrow> u32 \<Rightarrow> 'a mms_scheme \<Rightarrow> (bool \<times> 'a mms_scheme) result option" where
  "mmap mm from0 to0 perm s =
     (if to0 > HIGHER_BASE then Some (Inr (False, s))
      else let from = from0 AND USER_MASK; to = to0 AND USER_MASK
           in if from = to then Some (Inr (True, s))
              else if from > to then Some (Inr (False, s))
              else let flags = user_flags perm; head = MmHead mm
                   in Option.bind (mmap_scan head (nxt (mm_links s) head) from to s) (\<lambda>r. case r of
                        Inl f \<Rightarrow> Some (Inl f)
                      | Inr None \<Rightarrow> Some (Inr (False, s))
                      | Inr (Some next) \<Rightarrow> Some (
                          and_then (slab_cache_alloc vma_slab s) (\<lambda>(vma, s1).
                            if vma = 0 then Inr (False, s1)
                            else and_then (pt_map (va (mm_cr3 (mm_at s1 mm))) from (to - from) flags s1)
                              (\<lambda>(ok, s2).
                                if \<not> ok then and_then (mmap_undo mm next s2) (\<lambda>s3. Inr (False, s3))
                                else let s3 = s2\<lparr>vma_at := (vma_at s2)(vma :=
                                       \<lparr>vma_begin = from, vma_end = to, vma_perm = perm\<rparr>)\<rparr>
                                     in Inr (True, upd_mm_links (list_add_before (Vma vma) next) s3))))))"

partial_function (option) mm_copy_loop ::
    "u64 \<Rightarrow> u64 \<Rightarrow> mnode \<Rightarrow> 'a mms_scheme \<Rightarrow> (bool \<times> 'a mms_scheme) result option" where
  "mm_copy_loop dst src ptr s =
     (if ptr = MmHead src then Some (Inr (True, s))
      else case node_vma ptr of
             Inl f \<Rightarrow> Some (Inl f)
           | Inr a \<Rightarrow>
               let v = vma_at s a
               in Option.bind (mmap dst (vma_begin v) (vma_end v) (vma_perm v) s) (\<lambda>r. case r of
                    Inl f \<Rightarrow> Some (Inl f)
                  | Inr (ok, s1) \<Rightarrow>
                      if \<not> ok then
                        Option.bind (munmap dst 0 user_end s1) (\<lambda>r. Some (and_then r (\<lambda>(_, s2). Inr (False, s2))))
                      else let (_, s2) = mcopy dst (vma_begin v) src (vma_begin v) (vma_end v - vma_begin v) s1
                           in mm_copy_loop dst src (nxt (mm_links s2) ptr) s2))"

definition mm_copy :: "u64 \<Rightarrow> u64 \<Rightarrow> 'a mms_scheme \<Rightarrow> (bool \<times> 'a mms_scheme) result option" where
  "mm_copy dst src s = mm_copy_loop dst src (nxt (mm_links s) (MmHead src)) s"

definition mm_setup :: "'a mms_scheme \<Rightarrow> 'a mms_scheme result" where
  "mm_setup s =
     and_then (slab_cache_setup mm_slab sizeof_mm s) (\<lambda>s1. slab_cache_setup vma_slab sizeof_vma s1)"

end
