(* ===== verification/Threads.thy ===== *)
theory Threads
  imports Mm
begin

text \<open>
  Threads and the scheduler (\<open>src/threads.c\<close>, \<open>inc/threads.h\<close>), the condition variables
  (\<open>src/condition.c\<close>) the scheduler itself uses, and the frame layout of \<open>inc/ints.h\<close>.

  A routine that switches to another thread is split where the switch happens: the part before
  \<open>switch_threads\<close> returns \<open>SwitchTo\<close>, and the part after it runs when the thread is
  chosen again. Threads and their lists live in one link heap: \<open>Ready\<close> is the head of the ready
  queue, \<open>Thr t\<close> the node in the \<open>struct thread\<close> at \<open>t\<close>, \<open>CvHead c\<close> the
  head of the waiters of \<open>c\<close>, \<open>CvWait t\<close> the \<open>struct condition_wait\<close> in the stack frame
  of thread \<open>t\<close>, \<open>Notified\<close> the local list of \<open>notify_all\<close>; \<open>MtxHead\<close> and \<open>MtxWait\<close> are the
  same for mutexes. A thread is identified by its address. Addresses the linker chooses are
  arguments.
\<close>

datatype thread_state = THREAD_ACTIVE | THREAD_BLOCKED | THREAD_FINISHED | THREAD_DEAD

datatype condition = ThreadCv u64 | Cv nat

datatype tnode = Ready | Thr u64 | CvHead condition | CvWait u64 | Notified | MtxHead nat | MtxWait u64

record thread =
  stack_phys :: u64
  stack_order :: nat
  thr_state :: thread_state
  thr_regs :: u64
  thr_mm :: u64
  thr_context :: u64
  retval :: s32

record tss =
  tss_rsp0 :: u64
  iomap_base :: u16
  iomap :: "u8 list"

record threads = mms +
  thr_links :: "tnode links"
  thread_at :: "u64 \<Rightarrow> thread"
  cv_wait_thread :: "u64 \<Rightarrow> u64"
  mtx_wait_thread :: "u64 \<Rightarrow> u64"
  mtx_owner :: "nat \<Rightarrow> u64"
  current :: u64
  idle :: u64
  remained_time :: int
  the_tss :: tss
  task_register :: u16

definition TIMESLICE :: int where "TIMESLICE = 5"
definition thread_cache :: nat where "thread_cache = 2"
definition sizeof_thread :: u64 where "sizeof_thread = 96"
definition IOMAP_BITS :: nat where "IOMAP_BITS = 2 ^ 16"
definition IOMAP_WORDS :: nat where "IOMAP_WORDS = IOMAP_BITS div 8"
definition KERNEL_CS :: u64 where "KERNEL_CS = 0x08"
definition TSS_SEL :: u16 where "TSS_SEL = 0x10"

definition upd_thr_links :: "(tnode links \<Rightarrow> tnode links) \<Rightarrow> 'a threads_scheme \<Rightarrow> 'a threads_scheme" where
  "upd_thr_links f s = s\<lparr>thr_links := f (thr_links s)\<rparr>"

definition upd_thread :: "u64 \<Rightarrow> (thread \<Rightarrow> thread) \<Rightarrow> 'a threads_scheme \<Rightarrow> 'a threads_scheme" where
  "upd_thread t f s = s\<lparr>thread_at := (thread_at s)(t := f (thread_at s t))\<rparr>"

definition state_of :: "'a threads_scheme \<Rightarrow> u64 \<Rightarrow> thread_state" where
  "state_of s t = thr_state (thread_at s t)"

definition set_state :: "u64 \<Rightarrow> thread_state \<Rightarrow> 'a threads_scheme \<Rightarrow> 'a threads_scheme" where
  "set_state t x s = upd_thread t (\<lambda>th. th\<lparr>thr_state := x\<rparr>) s"

subsection \<open>Waking and blocking\<close>

definition thread_start :: "u64 \<Rightarrow> 'a threads_scheme \<Rightarrow> 'a threads_scheme" where
  "thread_start t s =
     (let (enabled, s1) = spin_lock_int_save () s;
          s2 = set_state t THREAD_ACTIVE s1;
          s3 = upd_thr_links (list_add_tail (Thr t) Ready) s2
      in spin_unlock_int_restore () enabled s3)"

definition thread_wake :: "u64 \<Rightarrow> 'a threads_scheme \<Rightarrow> 'a threads_scheme" where
  "thread_wake t s = thread_start t s"

definition thread_current :: "'a threads_scheme \<Rightarrow> u64" where
  "thread_current s = current s"

definition thread_block :: "'a threads_scheme \<Rightarrow> 'a threads_scheme" where
  "thread_block s =
     (let me = current s; (enabled, s1) = spin_lock_int_save () s;
          s2 = set_state me THREAD_BLOCKED s1
      in spin_unlock_int_restore () enabled s2)"

subsection \<open>Condition variables\<close>

definition condition_setup :: "condition \<Rightarrow> 'a threads_scheme \<Rightarrow> 'a threads_scheme" where
  "condition_setup cv s =
     (let s1 = spin_setup () s in upd_thr_links (list_init (CvHead cv)) s1)"

definition node_waiter :: "tnode \<Rightarrow> u64 result" where
  "node_waiter n = (case n of CvWait w \<Rightarrow> Inr w | _ \<Rightarrow> Inl Wild)"

definition notify_one :: "condition \<Rightarrow> 'a threads_scheme \<Rightarrow> 'a threads_scheme result" where
  "notify_one cv s =
     (let (enabled, s1) = spin_lock_int_save () s
      in and_then
           (if \<not> list_empty (CvHead cv) (thr_links s1) then
              and_then (node_waiter (nxt (thr_links s1) (CvHead cv))) (\<lambda>w.
                let s2 = upd_thr_links (list_del (CvWait w)) s1
                in Inr (thread_wake (cv_wait_thread s2 w) s2))
            else Inr s1)
           (\<lambda>s3. Inr (spin_unlock_int_restore () enabled s3)))"

partial_function (option) notify_loop :: "tnode \<Rightarrow> 'a threads_scheme \<Rightarrow> 'a threads_scheme result option" where
  "notify_loop ptr s =
     (if ptr = Notified then Some (Inr s)
      else case node_waiter ptr of
             Inl f \<Rightarrow> Some (Inl f)
           | Inr w \<Rightarrow> let next = nxt (thr_links s) ptr in notify_loop next (thread_wake (cv_wait_thread s w) s))"

definition notify_all :: "condition \<Rightarrow> 'a threads_scheme \<Rightarrow> 'a threads_scheme result option" where
  "notify_all cv s =
     (let (enabled, s1) = spin_lock_int_save () s;
          s2 = upd_thr_links (list_init Notified) s1;
          s3 = upd_thr_links (list_splice (CvHead cv) Notified) s2;
          s4 = spin_unlock_int_restore () enabled s3
      in notify_loop (nxt (thr_links s4) Notified) s4)"

subsection \<open>The scheduler\<close>

definition thread_place :: "u64 \<Rightarrow> 'a threads_scheme \<Rightarrow> 'a threads_scheme result" where
  "thread_place me s =
     (let s1 = spin_lock () s; cur = current s1
      in and_then
           (if state_of s1 cur = THREAD_FINISHED
            then notify_one (ThreadCv cur) (set_state cur THREAD_DEAD s1)
            else Inr s1)
           (\<lambda>s2. let s3 = spin_unlock () s2;
                     s4 = s3\<lparr>current := me, remained_time := TIMESLICE\<rparr>;
                     th = thread_at s4 me;
                     s5 = s4\<lparr>the_tss := (the_tss s4)\<lparr>tss_rsp0 :=
                            va (stack_phys th + push_bit (stack_order th) PAGE_SIZE)\<rparr>\<rparr>
                 in Inr (cr3_write (mm_cr3 (mm_at s5 (thr_mm th))) s5)))"

text \<open>What a new thread does first; its function is called afterwards.\<close>

definition thread_entry :: "u64 \<Rightarrow> 'a threads_scheme \<Rightarrow> 'a threads_scheme result" where
  "thread_entry me s = and_then (thread_place me s) (\<lambda>s1. Inr (local_int_enable s1))"

text \<open>\<open>Stay\<close>: the call returned; \<open>SwitchTo next enabled\<close>: it is at \<open>switch_threads(me, next)\<close>.\<close>

datatype outcome = Stay | SwitchTo u64 u64

definition node_thread :: "tnode \<Rightarrow> u64 result" where
  "node_thread n = (case n of Thr t \<Rightarrow> Inr t | _ \<Rightarrow> Inl Wild)"

definition pick_next :: "'a threads_scheme \<Rightarrow> (u64 \<times> 'a threads_scheme) result" where
  "pick_next s =
     (let s1 = spin_lock () s
      in and_then
           (if \<not> list_empty Ready (thr_links s1)
            then and_then (node_thread (nxt (thr_links s1) Ready)) (\<lambda>next.
                   Inr (next, upd_thr_links (list_del (Thr next)) s1))
            else Inr (0, s1))
           (\<lambda>(next, s2). Inr (next, spin_unlock () s2)))"

definition schedule :: "'a threads_scheme \<Rightarrow> (outcome \<times> 'a threads_scheme) result" where
  "schedule s =
     (let me = current s; (enabled, s1) = local_int_save s
      in if preempt_count s1 \<noteq> 0 then Inr (Stay, local_int_restore enabled s1)
         else and_then (pick_next s1) (\<lambda>(next0, s2).
           let next = (if state_of s2 me \<noteq> THREAD_ACTIVE \<and> next0 = 0 then idle s2 else next0)
           in if next = 0 then
                and_then (thread_place me s2) (\<lambda>s3. Inr (Stay, local_int_restore enabled s3))
              else let s3 = spin_lock () s2;
                       s4 = (if state_of s3 me = THREAD_ACTIVE \<and> me \<noteq> idle s3
                             then upd_thr_links (list_add_tail (Thr me) Ready) s3 else s3);
                       s5 = spin_unlock () s4
                   in Inr (SwitchTo next enabled, s5)))"

text \<open>The rest of \<open>schedule\<close>, once \<open>me\<close> has been switched to again.\<close>

definition schedule_resume :: "u64 \<Rightarrow> u64 \<Rightarrow> 'a threads_scheme \<Rightarrow> 'a threads_scheme result" where
  "schedule_resume me enabled s =
     and_then (thread_place me s) (\<lambda>s1. Inr (local_int_restore enabled s1))"

definition scheduler_tick :: "'a threads_scheme \<Rightarrow> (outcome \<times> 'a threads_scheme) result" where
  "scheduler_tick s =
     (let s1 = (if remained_time s \<noteq> 0 then s\<lparr>remained_time := remained_time s - 1\<rparr> else s)
      in if remained_time s1 \<le> 0 then schedule s1 else Inr (Stay, s1))"

text \<open>One turn of the idle thread's loop, up to the switch or the \<open>hlt\<close>.\<close>

definition scheduler_idle_turn :: "'a threads_scheme \<Rightarrow> (outcome \<times> 'a threads_scheme) result" where
  "scheduler_idle_turn s = schedule s"

definition thread_exit :: "s32 \<Rightarrow> 'a threads_scheme \<Rightarrow> (outcome \<times> 'a threads_scheme) result" where
  "thread_exit ret s =
     (let me = current s; (enabled, s1) = spin_lock_int_save () s;
          s2 = upd_thread me (\<lambda>th. th\<lparr>retval := ret\<rparr>) s1;
          s3 = set_state me THREAD_FINISHED s2;
          s4 = spin_unlock_int_restore () enabled s3
      in schedule s4)"

subsection \<open>Creating and destroying threads\<close>

definition frame_bytes :: u64 where "frame_bytes = 176"
definition switch_frame_bytes :: u64 where "switch_frame_bytes = 64"

definition frame_rip :: u64 where "frame_rip = 136"
definition frame_cs :: u64 where "frame_cs = 144"
definition frame_rflags :: u64 where "frame_rflags = 152"
definition frame_rsp :: u64 where "frame_rsp = 160"
definition frame_ss :: u64 where "frame_ss = 168"
definition frame_rsi :: u64 where "frame_rsi = 104"
definition frame_rdi :: u64 where "frame_rdi = 112"

definition sf_rflags :: u64 where "sf_rflags = 0"
definition sf_r15 :: u64 where "sf_r15 = 8"
definition sf_r14 :: u64 where "sf_r14 = 16"
definition sf_r13 :: u64 where "sf_r13 = 24"
definition sf_rip :: u64 where "sf_rip = 56"

text \<open>The initial stack of a thread: the switch frame and, above it, the register frame.\<close>

definition build_frames ::
    "u64 \<Rightarrow> u64 \<Rightarrow> u64 \<Rightarrow> u64 \<Rightarrow> u64 \<Rightarrow> u64 \<Rightarrow> u64 \<Rightarrow> mem \<Rightarrow> mem \<times> u64 \<times> u64" where
  "build_frames entry exit ptr stack_size thread fptr arg m =
     (let regs = ptr + stack_size - frame_bytes;
          frame = regs - switch_frame_bytes;
          m = memset m regs 0 frame_bytes;
          m = memset m frame 0 switch_frame_bytes;
          m = store_u64 m (frame + sf_rip) entry;
          m = store_u64 m (frame + sf_r15) thread;
          m = store_u64 m (frame + sf_r14) fptr;
          m = store_u64 m (frame + sf_r13) arg;
          m = store_u64 m (frame + sf_rflags) 2;
          m = store_u64 m (regs + frame_cs) KERNEL_CS;
          m = store_u64 m (regs + frame_rsp) (ptr + stack_size);
          m = store_u64 m (regs + frame_rip) exit
      in (m, regs, frame))"

definition do_thread_create ::
    "u64 \<Rightarrow> u64 \<Rightarrow> nat \<Rightarrow> u64 \<Rightarrow> u64 \<Rightarrow> 'a threads_scheme \<Rightarrow> (u64 \<times> 'a threads_scheme) result" where
  "do_thread_create entry exit order fptr arg s =
     and_then (slab_cache_alloc thread_cache s) (\<lambda>(thread, s1).
       if thread = 0 then Inr (0, s1)
       else let (phys, s2) = buddy_alloc order (upd_thread thread (\<lambda>th. th\<lparr>stack_order := order\<rparr>) s1);
                s3 = upd_thread thread (\<lambda>th. th\<lparr>stack_phys := phys\<rparr>) s2
            in if phys = 0 then Inr (0, slab_cache_free thread_cache thread s3)
               else and_then (mm_create s3) (\<lambda>(mm, s4).
                 let s5 = upd_thread thread (\<lambda>th. th\<lparr>thr_mm := mm\<rparr>) s4
                 in if mm = 0 then
                      and_then (buddy_free phys order s5) (\<lambda>s6. Inr (0, slab_cache_free thread_cache thread s6))
                    else let (m, regs, frame) = build_frames entry exit (va phys)
                               (push_bit order PAGE_SIZE) thread fptr arg (memory s5);
                             s6 = s5\<lparr>memory := m\<rparr>;
                             s7 = condition_setup (ThreadCv thread) (spin_setup () s6)
                         in Inr (thread, upd_thread thread (\<lambda>th. th\<lparr>thr_context := frame, thr_regs := regs\<rparr>) s7)))"

definition thread_create ::
    "u64 \<Rightarrow> u64 \<Rightarrow> u64 \<Rightarrow> u64 \<Rightarrow> 'a threads_scheme \<Rightarrow> (u64 \<times> 'a threads_scheme) result" where
  "thread_create entry exit fptr arg s = do_thread_create entry exit 3 fptr arg s"

definition thread_destroy :: "u64 \<Rightarrow> 'a threads_scheme \<Rightarrow> 'a threads_scheme result option" where
  "thread_destroy t s =
     (case buddy_free (stack_phys (thread_at s t)) (stack_order (thread_at s t)) s of
        Inl f \<Rightarrow> Some (Inl f)
      | Inr s1 \<Rightarrow> Option.bind (mm_release (thr_mm (thread_at s1 t)) s1) (\<lambda>r.
          Some (and_then r (\<lambda>s2. Inr (slab_cache_free thread_cache t s2)))))"

subsection \<open>The task state segment\<close>

text \<open>The two words of the descriptor.\<close>

definition tss_desc_setup :: "u64 \<Rightarrow> u64 \<Rightarrow> u64 \<times> u64" where
  "tss_desc_setup base limit =
     (let high = drop_bit 32 base;
          low = (limit AND 0xffff) OR push_bit 16 (base AND 0xffffff) OR
            push_bit 40 9 OR push_bit 47 1 OR
            push_bit 32 (limit AND 0xf0000) OR push_bit 32 (base AND 0xff000000)
      in (low, high))"

definition sizeof_tss :: u64 where "sizeof_tss = 104 + 8 * (of_nat IOMAP_WORDS + 1)"
definition offsetof_iomap :: u16 where "offsetof_iomap = 104"

definition tss_setup :: "u64 \<Rightarrow> u64 \<Rightarrow> 'a threads_scheme \<Rightarrow> 'a threads_scheme" where
  "tss_setup gdt tss_addr s =
     (let idx = drop_bit 3 (ucast TSS_SEL);
          s1 = s\<lparr>the_tss := (the_tss s)\<lparr>iomap_base := offsetof_iomap,
                   iomap := replicate (8 * (IOMAP_WORDS + 1)) 0xff\<rparr>\<rparr>;
          (low, high) = tss_desc_setup tss_addr (sizeof_tss - 1);
          m = store_u64 (store_u64 (memory s1) (gdt + 8 * idx) low) (gdt + 8 * idx + 8) high
      in s1\<lparr>memory := m, task_register := TSS_SEL\<rparr>)"

definition scheduler_setup ::
    "u64 \<Rightarrow> u64 \<Rightarrow> u64 \<Rightarrow> u64 \<Rightarrow> u64 \<Rightarrow> 'a threads_scheme \<Rightarrow> 'a threads_scheme result" where
  "scheduler_setup main_thread main_mm stack_top gdt tss_addr s =
     (let s1 = upd_thread main_thread (\<lambda>th. th\<lparr>thr_state := THREAD_ACTIVE,
                 stack_phys := pa stack_top - PAGE_SIZE, stack_order := 0\<rparr>) s;
          s2 = upd_mm_links (list_init (MmHead main_mm)) s1
      in and_then (addr_page (initial_cr3 s2) s2) (\<lambda>pt.
           let s3 = s2\<lparr>mm_at := (mm_at s2)(main_mm := \<lparr>mm_pt = pt, mm_cr3 = initial_cr3 s2\<rparr>)\<rparr>;
               s4 = upd_thread main_thread (\<lambda>th. th\<lparr>thr_mm := main_mm\<rparr>) s3;
               s5 = s4\<lparr>current := main_thread, idle := main_thread\<rparr>;
               s6 = upd_thr_links (list_init Ready) (spin_setup () s5)
           in and_then (slab_cache_setup thread_cache sizeof_thread s6) (\<lambda>s7.
                Inr (tss_setup gdt tss_addr s7))))"

end
