(* ===== verification/Sync.thy ===== *)
theory Sync
  imports Threads
begin

text \<open>
  Blocking synchronisation: \<open>src/mutex.c\<close>, the waiting half of \<open>src/condition.c\<close>, and
  \<open>thread_join\<close> of \<open>src/threads.c\<close>.

  A routine that blocks calls \<open>schedule\<close>, which comes back only when another thread has switched
  to this one again. What the processor does in between is \<open>src/entry.S\<close> and the other threads; it
  is the argument \<open>env\<close>: \<open>env me next s\<close> is the state in which \<open>me\<close> has been switched to again after
  it switched to \<open>next\<close> in state \<open>s\<close>, and nothing if that never happens. The parts before and after
  a switch are operations of their own, so that they can also be used as the steps of an interleaving.

  A thread waits for at most one mutex and one condition at a time, so the \<open>struct mutex_wait\<close> and the
  \<open>struct condition_wait\<close> in its stack frame are named by the thread.
\<close>

type_synonym 's world = "u64 \<Rightarrow> u64 \<Rightarrow> 's \<Rightarrow> 's result option"

text \<open>A call that may have switched away, run to its end.\<close>

definition run_switch ::
    "'a threads_scheme world \<Rightarrow> u64 \<Rightarrow> (outcome \<times> 'a threads_scheme) result \<Rightarrow> 'a threads_scheme result option" where
  "run_switch env me r =
     (case r of
        Inl f \<Rightarrow> Some (Inl f)
      | Inr (Stay, s) \<Rightarrow> Some (Inr s)
      | Inr (SwitchTo next enabled, s) \<Rightarrow>
          Option.bind (env me next s) (\<lambda>r. Some (and_then r (schedule_resume me enabled))))"

definition run_schedule :: "'a threads_scheme world \<Rightarrow> 'a threads_scheme \<Rightarrow> 'a threads_scheme result option" where
  "run_schedule env s = run_switch env (current s) (schedule s)"

subsection \<open>Mutexes\<close>

definition mutex_setup :: "nat \<Rightarrow> 'a threads_scheme \<Rightarrow> 'a threads_scheme" where
  "mutex_setup m s =
     (let s1 = spin_setup () s; s2 = upd_thr_links (list_init (MtxHead m)) s1
      in s2\<lparr>mtx_owner := (mtx_owner s2)(m := 0)\<rparr>)"

text \<open>Up to the decision: whether the mutex was free and is now taken; the spinlock is held if not.\<close>

definition mutex_try :: "nat \<Rightarrow> 'a threads_scheme \<Rightarrow> bool \<times> 'a threads_scheme" where
  "mutex_try m s =
     (let me = thread_current s; s1 = spin_lock () s
      in if mtx_owner s1 m = 0
         then (True, spin_unlock () (s1\<lparr>mtx_owner := (mtx_owner s1)(m := me)\<rparr>))
         else (False, s1))"

text \<open>The body of the waiting loop before and after its call of \<open>schedule\<close>.\<close>

definition mutex_block :: "nat \<Rightarrow> u64 \<Rightarrow> 'a threads_scheme \<Rightarrow> 'a threads_scheme" where
  "mutex_block m me s =
     (let s1 = s\<lparr>mtx_wait_thread := (mtx_wait_thread s)(me := me)\<rparr>;
          s2 = upd_thr_links (list_add_tail (MtxWait me) (MtxHead m)) s1;
          s3 = thread_block s2
      in spin_unlock () s3)"

definition mutex_retry :: "u64 \<Rightarrow> 'a threads_scheme \<Rightarrow> 'a threads_scheme" where
  "mutex_retry me s = (let s1 = spin_lock () s in upd_thr_links (list_del (MtxWait me)) s1)"

partial_function (option) mutex_wait_loop ::
    "'a threads_scheme world \<Rightarrow> nat \<Rightarrow> u64 \<Rightarrow> 'a threads_scheme \<Rightarrow> 'a threads_scheme result option" where
  "mutex_wait_loop env m me s =
     (if mtx_owner s m = me then Some (Inr s)
      else Option.bind (run_schedule env (mutex_block m me s)) (\<lambda>r. case r of
             Inl f \<Rightarrow> Some (Inl f)
           | Inr s1 \<Rightarrow> mutex_wait_loop env m me (mutex_retry me s1)))"

definition mutex_lock :: "'a threads_scheme world \<Rightarrow> nat \<Rightarrow> 'a threads_scheme \<Rightarrow> 'a threads_scheme result option" where
  "mutex_lock env m s =
     (let me = thread_current s
      in case mutex_try m s of
           (True, s1) \<Rightarrow> Some (Inr s1)
         | (False, s1) \<Rightarrow> Option.bind (mutex_wait_loop env m me s1) (\<lambda>r.
             Some (and_then r (\<lambda>s2. Inr (spin_unlock () s2)))))"

definition node_mutex_wait :: "tnode \<Rightarrow> u64 result" where
  "node_mutex_wait n = (case n of MtxWait w \<Rightarrow> Inr w | _ \<Rightarrow> Inl Wild)"

definition mutex_unlock :: "nat \<Rightarrow> 'a threads_scheme \<Rightarrow> 'a threads_scheme result" where
  "mutex_unlock m s =
     (let s1 = spin_lock () s
      in and_then
           (if \<not> list_empty (MtxHead m) (thr_links s1) then
              and_then (node_mutex_wait (nxt (thr_links s1) (MtxHead m))) (\<lambda>w.
                let s2 = s1\<lparr>mtx_owner := (mtx_owner s1)(m := mtx_wait_thread s1 w)\<rparr>
                in Inr (thread_wake (mtx_wait_thread s2 w) s2))
            else Inr (s1\<lparr>mtx_owner := (mtx_owner s1)(m := 0)\<rparr>))
           (\<lambda>s3. Inr (spin_unlock () s3)))"

subsection \<open>Waiting for a condition\<close>

text \<open>The lock a waiter holds, given to \<open>__wait\<close> with its two functions.\<close>

datatype generic_lock = GSpin | GSpinInt | GMutex nat

definition generic_mutex_lock ::
    "'a threads_scheme world \<Rightarrow> nat \<Rightarrow> 'a threads_scheme \<Rightarrow> 'a threads_scheme result option" where
  "generic_mutex_lock env m s = mutex_lock env m s"

definition generic_mutex_unlock :: "nat \<Rightarrow> 'a threads_scheme \<Rightarrow> 'a threads_scheme result" where
  "generic_mutex_unlock m s = mutex_unlock m s"

definition generic_spin_lock :: "'a threads_scheme \<Rightarrow> 'a threads_scheme" where
  "generic_spin_lock s = spin_lock () s"

definition generic_spin_unlock :: "'a threads_scheme \<Rightarrow> 'a threads_scheme" where
  "generic_spin_unlock s = spin_unlock () s"

definition generic_spin_lock_int :: "'a threads_scheme \<Rightarrow> 'a threads_scheme" where
  "generic_spin_lock_int s = (let (enabled, s1) = spin_lock_int_save () s in s1)"

definition generic_spin_unlock_int :: "'a threads_scheme \<Rightarrow> 'a threads_scheme" where
  "generic_spin_unlock_int s = spin_unlock_int_restore () 1 s"

fun generic_unlock :: "generic_lock \<Rightarrow> 'a threads_scheme \<Rightarrow> 'a threads_scheme result" where
  "generic_unlock GSpin s = Inr (generic_spin_unlock s)"
| "generic_unlock GSpinInt s = Inr (generic_spin_unlock_int s)"
| "generic_unlock (GMutex m) s = generic_mutex_unlock m s"

fun generic_acquire ::
    "'a threads_scheme world \<Rightarrow> generic_lock \<Rightarrow> 'a threads_scheme \<Rightarrow> 'a threads_scheme result option" where
  "generic_acquire env GSpin s = Some (Inr (generic_spin_lock s))"
| "generic_acquire env GSpinInt s = Some (Inr (generic_spin_lock_int s))"
| "generic_acquire env (GMutex m) s = generic_mutex_lock env m s"

text \<open>\<open>__wait\<close> up to its call of \<open>schedule\<close>, and all of it.\<close>

definition wait_begin :: "condition \<Rightarrow> generic_lock \<Rightarrow> 'a threads_scheme \<Rightarrow> 'a threads_scheme result" where
  "wait_begin cv lock s =
     (let me = thread_current s; s1 = spin_lock () s;
          s2 = s1\<lparr>cv_wait_thread := (cv_wait_thread s1)(me := me)\<rparr>;
          s3 = upd_thr_links (list_add_tail (CvWait me) (CvHead cv)) s2;
          s4 = thread_block s3
      in and_then (generic_unlock lock s4) (\<lambda>s5. Inr (spin_unlock () s5)))"

definition do_wait ::
    "'a threads_scheme world \<Rightarrow> condition \<Rightarrow> generic_lock \<Rightarrow> 'a threads_scheme \<Rightarrow> 'a threads_scheme result option" where
  "do_wait env cv lock s =
     (case wait_begin cv lock s of
        Inl f \<Rightarrow> Some (Inl f)
      | Inr s1 \<Rightarrow> Option.bind (run_schedule env s1) (\<lambda>r. case r of
          Inl f \<Rightarrow> Some (Inl f)
        | Inr s2 \<Rightarrow> generic_acquire env lock s2))"

definition condition_wait_spin ::
    "'a threads_scheme world \<Rightarrow> condition \<Rightarrow> 'a threads_scheme \<Rightarrow> 'a threads_scheme result option" where
  "condition_wait_spin env cv s = do_wait env cv GSpin s"

definition condition_wait_spin_int ::
    "'a threads_scheme world \<Rightarrow> condition \<Rightarrow> 'a threads_scheme \<Rightarrow> 'a threads_scheme result option" where
  "condition_wait_spin_int env cv s = do_wait env cv GSpinInt s"

definition condition_wait ::
    "'a threads_scheme world \<Rightarrow> condition \<Rightarrow> nat \<Rightarrow> 'a threads_scheme \<Rightarrow> 'a threads_scheme result option" where
  "condition_wait env cv m s = do_wait env cv (GMutex m) s"

subsection \<open>Joining a thread\<close>

partial_function (option) join_loop ::
    "'a threads_scheme world \<Rightarrow> u64 \<Rightarrow> 'a threads_scheme \<Rightarrow> 'a threads_scheme result option" where
  "join_loop env t s =
     (if state_of s t = THREAD_DEAD then Some (Inr s)
      else Option.bind (condition_wait_spin_int env (ThreadCv t) s) (\<lambda>r. case r of
             Inl f \<Rightarrow> Some (Inl f)
           | Inr s1 \<Rightarrow> join_loop env t s1))"

text \<open>The result is what \<open>thread_join\<close> stores through its second argument.\<close>

definition thread_join ::
    "'a threads_scheme world \<Rightarrow> u64 \<Rightarrow> 'a threads_scheme \<Rightarrow> (s32 \<times> 'a threads_scheme) result option" where
  "thread_join env t s =
     (let (enabled, s1) = spin_lock_int_save () s
      in Option.bind (join_loop env t s1) (\<lambda>r. Some (and_then r (\<lambda>s2.
           let s3 = spin_unlock_int_restore () enabled s2
           in Inr (retval (thread_at s3 t), s3)))))"

end
