(* ===== verification/Ramfs.thy ===== *)
theory Ramfs
  imports Sync
begin

text \<open>
  The file system in memory (\<open>src/ramfs.c\<close>, \<open>inc/ramfs.h\<close>): a list of files, each with a list of
  pages in the order of their offsets. Files and page descriptors come from the object caches
  \<open>ramfs_slab\<close> and \<open>page_slab\<close> and are named by their addresses; their list nodes live in \<open>fs_links\<close>:
  \<open>Cache\<close> is the head \<open>ramfs_cache\<close>, \<open>File f\<close> the node and \<open>Data f\<close> the list head in the \<open>struct file\<close>
  at \<open>f\<close>, \<open>RPage p\<close> the node of the \<open>struct ramfs_page\<close> at \<open>p\<close>. The name of a file is in the byte
  memory, at its place in the object. A C \<open>long\<close> is a 64-bit word read as signed.
\<close>

datatype rnode = Cache | File u64 | Data u64 | RPage u64

record ramfs_page =
  rp_offs :: u64
  rp_page :: page_ptr

record ramfs = threads +
  fs_links :: "rnode links"
  file_size :: "u64 \<Rightarrow> u64"
  rp_at :: "u64 \<Rightarrow> ramfs_page"

definition ramfs_slab :: nat where "ramfs_slab = 3"
definition page_slab :: nat where "page_slab = 4"
definition ramfs_mtx :: nat where "ramfs_mtx = 0"
definition RAMFS_MAX_NAME :: nat where "RAMFS_MAX_NAME = 255"
definition sizeof_file :: u64 where "sizeof_file = 16 + 8 + (of_nat RAMFS_MAX_NAME + 1) + 16"
definition sizeof_ramfs_page :: u64 where "sizeof_ramfs_page = 32"

text \<open>The address of \<open>file->name\<close>.\<close>

definition file_name :: "u64 \<Rightarrow> u64" where "file_name f = f + 24"

definition node_file :: "rnode \<Rightarrow> u64 result" where
  "node_file n = (case n of File f \<Rightarrow> Inr f | _ \<Rightarrow> Inl Wild)"

definition node_rp :: "rnode \<Rightarrow> u64 result" where
  "node_rp n = (case n of RPage p \<Rightarrow> Inr p | _ \<Rightarrow> Inl Wild)"

definition upd_fs_links :: "(rnode links \<Rightarrow> rnode links) \<Rightarrow> 'a ramfs_scheme \<Rightarrow> 'a ramfs_scheme" where
  "upd_fs_links f s = s\<lparr>fs_links := f (fs_links s)\<rparr>"

subsection \<open>Opening and creating\<close>

text \<open>The search for a file of the given name; address 0 if there is none.\<close>

partial_function (option) open_scan :: "u64 \<Rightarrow> rnode \<Rightarrow> 'a ramfs_scheme \<Rightarrow> u64 result option" where
  "open_scan name ptr s =
     (if ptr = Cache then Some (Inr 0)
      else case node_file ptr of
             Inl f \<Rightarrow> Some (Inl f)
           | Inr file \<Rightarrow>
               Option.bind (strcmp (memory s) name (file_name file)) (\<lambda>c.
                 if c \<noteq> 0 then open_scan name (nxt (fs_links s) ptr) s else Some (Inr file)))"

text \<open>The file made for a new name; writing into an object that could not be had is \<open>Wild\<close>.\<close>

definition file_new :: "u64 \<Rightarrow> 'a ramfs_scheme \<Rightarrow> (u64 \<times> 'a ramfs_scheme) result option" where
  "file_new name s =
     (case slab_cache_alloc ramfs_slab s of
        Inl f \<Rightarrow> Some (Inl f)
      | Inr (new, s1) \<Rightarrow>
          if new = 0 then Some (Inl Wild)
          else let s2 = s1\<lparr>file_size := (file_size s1)(new := 0)\<rparr>
               in Option.bind (strcpy (memory s2) (file_name new) name) (\<lambda>(_, m).
                    let s3 = s2\<lparr>memory := m\<rparr>;
                        s4 = upd_fs_links (list_add (File new) Cache) s3;
                        s5 = upd_fs_links (list_init (Data new)) s4
                    in Some (Inr (new, s5))))"

text \<open>The result: the value for \<open>*res\<close>, or nothing where the C function returns -1.\<close>

definition do_ramfs_open ::
    "u64 \<Rightarrow> bool \<Rightarrow> 'a ramfs_scheme \<Rightarrow> (u64 option \<times> 'a ramfs_scheme) result option" where
  "do_ramfs_open name create s =
     Option.bind (open_scan name (nxt (fs_links s) Cache) s) (\<lambda>r. case r of
       Inl f \<Rightarrow> Some (Inl f)
     | Inr file \<Rightarrow>
         if file \<noteq> 0 then Some (Inr (Some file, s))
         else if \<not> create then Some (Inr (None, s))
         else Option.bind (file_new name s) (\<lambda>r. Some (
                and_then r (\<lambda>(new, s1). Inr (Some new, s1)))))"

text \<open>The routines below hold \<open>ramfs_mtx\<close> around their work.\<close>

definition with_ramfs_mtx ::
    "'a ramfs_scheme world \<Rightarrow> ('a ramfs_scheme \<Rightarrow> ('r \<times> 'a ramfs_scheme) result option) \<Rightarrow>
     'a ramfs_scheme \<Rightarrow> ('r \<times> 'a ramfs_scheme) result option" where
  "with_ramfs_mtx env body s =
     Option.bind (mutex_lock env ramfs_mtx s) (\<lambda>r. case r of
       Inl f \<Rightarrow> Some (Inl f)
     | Inr s1 \<Rightarrow> Option.bind (body s1) (\<lambda>r. Some (
         and_then r (\<lambda>(x, s2). and_then (mutex_unlock ramfs_mtx s2) (\<lambda>s3. Inr (x, s3))))))"

definition ramfs_create ::
    "'a ramfs_scheme world \<Rightarrow> u64 \<Rightarrow> 'a ramfs_scheme \<Rightarrow> (u64 option \<times> 'a ramfs_scheme) result option" where
  "ramfs_create env name s = with_ramfs_mtx env (do_ramfs_open name True) s"

definition ramfs_open ::
    "'a ramfs_scheme world \<Rightarrow> u64 \<Rightarrow> 'a ramfs_scheme \<Rightarrow> (u64 option \<times> 'a ramfs_scheme) result option" where
  "ramfs_open env name s = with_ramfs_mtx env (do_ramfs_open name False) s"

definition ramfs_close :: "u64 \<Rightarrow> 'a ramfs_scheme \<Rightarrow> 'a ramfs_scheme" where
  "ramfs_close file s = s"

subsection \<open>Reading and writing\<close>

definition smin :: "u64 \<Rightarrow> u64 \<Rightarrow> u64" where "smin a b = (if sint a < sint b then a else b)"
definition smax :: "u64 \<Rightarrow> u64 \<Rightarrow> u64" where "smax a b = (if sint a < sint b then b else a)"

text \<open>Where a page at \<open>rp\<close> meets a transfer: the place in the data, the place in the page, the length.\<close>

definition page_window :: "u64 \<Rightarrow> u64 \<Rightarrow> u64 \<Rightarrow> u64 \<Rightarrow> u64 \<times> u64 \<times> u64" where
  "page_window rp offs from to =
     (let data_offs = smax (rp - from) 0; page_offs = smax (offs - rp) 0;
          to_copy = smin (PAGE_SIZE - page_offs) (to - (from + data_offs))
      in (data_offs, page_offs, to_copy))"

partial_function (option) readat_loop ::
    "u64 \<Rightarrow> rnode \<Rightarrow> u64 \<Rightarrow> u64 \<Rightarrow> u64 \<Rightarrow> u64 \<Rightarrow> 'a ramfs_scheme \<Rightarrow> 'a ramfs_scheme result option" where
  "readat_loop file ptr data offs from to s =
     (if ptr = Data file then Some (Inr s)
      else case node_rp ptr of
             Inl f \<Rightarrow> Some (Inl f)
           | Inr p \<Rightarrow>
               let rp = rp_at s p; next = nxt (fs_links s) ptr
               in if sint (rp_offs rp + PAGE_SIZE) \<le> sint from then readat_loop file next data offs from to s
                  else if sint (rp_offs rp) \<ge> sint to then Some (Inr s)
                  else let (data_offs, page_offs, to_copy) = page_window (rp_offs rp) offs from to
                       in case page_addr (rp_page rp) s of
                            Inl f \<Rightarrow> Some (Inl f)
                          | Inr phys \<Rightarrow>
                              readat_loop file next data offs from to
                                (s\<lparr>memory := memcpy (memory s) (data + data_offs) (va phys + page_offs) to_copy\<rparr>))"

definition do_ramfs_readat ::
    "u64 \<Rightarrow> u64 \<Rightarrow> u64 \<Rightarrow> u64 \<Rightarrow> 'a ramfs_scheme \<Rightarrow> (u64 \<times> 'a ramfs_scheme) result option" where
  "do_ramfs_readat file data sz offs s =
     (if sint offs \<ge> sint (file_size s file) then Some (Inr (0, s))
      else let from = offs; to = offs + sz
           in Option.bind (readat_loop file (nxt (fs_links s) (Data file)) data offs from to s) (\<lambda>r. Some (
                and_then r (\<lambda>s1.
                  Inr (if sint to \<ge> sint (file_size s1 file) then file_size s1 file - offs else sz, s1)))))"

definition ramfs_readat ::
    "'a ramfs_scheme world \<Rightarrow> u64 \<Rightarrow> u64 \<Rightarrow> u64 \<Rightarrow> u64 \<Rightarrow> 'a ramfs_scheme \<Rightarrow> (u64 \<times> 'a ramfs_scheme) result option" where
  "ramfs_readat env file data sz offs s =
     (let s1 = s\<lparr>memory := memset (memory s) data 0 sz\<rparr>
      in with_ramfs_mtx env (do_ramfs_readat file data sz offs) s1)"

text \<open>
  The page for offset \<open>offs\<close>, put into the list before \<open>ptr\<close>; nothing if a page or its
  descriptor cannot be had.
\<close>

definition rp_new :: "rnode \<Rightarrow> u64 \<Rightarrow> 'a ramfs_scheme \<Rightarrow> (u64 option \<times> 'a ramfs_scheme) result" where
  "rp_new ptr offs s =
     and_then (slab_cache_alloc page_slab s) (\<lambda>(new, s1).
       if new = 0 then Inr (None, s1)
       else case do_buddy_alloc 0 s1 of
              (None, s2) \<Rightarrow> Inr (None, slab_cache_free page_slab new s2)
            | (Some pg, s2) \<Rightarrow>
                let s3 = s2\<lparr>rp_at := (rp_at s2)(new :=
                           \<lparr>rp_offs = offs AND NOT (PAGE_SIZE - 1), rp_page = pg\<rparr>)\<rparr>
                in Inr (Some new, upd_fs_links (list_add_before (RPage new) ptr) s3))"

partial_function (option) writeat_loop ::
    "u64 \<Rightarrow> rnode \<Rightarrow> u64 \<Rightarrow> u64 \<Rightarrow> u64 \<Rightarrow> u64 \<Rightarrow> 'a ramfs_scheme \<Rightarrow> (u64 \<times> 'a ramfs_scheme) result option" where
  "writeat_loop file ptr data offs from to s =
     (if offs = to then Some (Inr (offs - from, s))
      else case (if ptr = Data file then Inr (True, True, 0)
                 else and_then (node_rp ptr) (\<lambda>p.
                   Inr (\<not> sint (rp_offs (rp_at s p) + PAGE_SIZE) \<le> sint offs,
                        sint (rp_offs (rp_at s p)) > sint offs, p))) of
             Inl f \<Rightarrow> Some (Inl f)
           | Inr (here, missing, p) \<Rightarrow>
               if \<not> here then writeat_loop file (nxt (fs_links s) ptr) data offs from to s
               else case (if missing then rp_new ptr offs s else Inr (Some p, s)) of
                      Inl f \<Rightarrow> Some (Inl f)
                    | Inr (None, s1) \<Rightarrow> Some (Inr (if offs = from then - 1 else offs - from, s1))
                    | Inr (Some q, s1) \<Rightarrow>
                        let rp = rp_at s1 q;
                            (data_offs, page_offs, to_copy) = page_window (rp_offs rp) offs from to
                        in case page_addr (rp_page rp) s1 of
                             Inl f \<Rightarrow> Some (Inl f)
                           | Inr phys \<Rightarrow>
                               let s2 = s1\<lparr>memory :=
                                     memcpy (memory s1) (va phys + page_offs) (data + data_offs) to_copy\<rparr>
                               in writeat_loop file (nxt (fs_links s2) (RPage q)) data (offs + to_copy) from to s2)"

definition do_ramfs_writeat ::
    "u64 \<Rightarrow> u64 \<Rightarrow> u64 \<Rightarrow> u64 \<Rightarrow> 'a ramfs_scheme \<Rightarrow> (u64 \<times> 'a ramfs_scheme) result option" where
  "do_ramfs_writeat file data sz offs s =
     (let from = offs; to = offs + sz;
          s1 = (if sint to > sint (file_size s file) then s\<lparr>file_size := (file_size s)(file := to)\<rparr> else s)
      in writeat_loop file (nxt (fs_links s1) (Data file)) data offs from to s1)"

definition ramfs_writeat ::
    "'a ramfs_scheme world \<Rightarrow> u64 \<Rightarrow> u64 \<Rightarrow> u64 \<Rightarrow> u64 \<Rightarrow> 'a ramfs_scheme \<Rightarrow> (u64 \<times> 'a ramfs_scheme) result option" where
  "ramfs_writeat env file data sz offs s = with_ramfs_mtx env (do_ramfs_writeat file data sz offs) s"

definition ramfs_setup :: "'a ramfs_scheme \<Rightarrow> 'a ramfs_scheme result" where
  "ramfs_setup s =
     and_then (slab_cache_setup ramfs_slab sizeof_file s) (\<lambda>s1.
     and_then (slab_cache_setup page_slab sizeof_ramfs_page s1) (\<lambda>s2.
       let s3 = mutex_setup ramfs_mtx s2
       in Inr (upd_fs_links (list_init Cache) s3)))"

end
