(* ===== verification/Exec.thy ===== *)
theory Exec
  imports Ramfs
begin

text \<open>
  Loading a program (\<open>src/exec.c\<close>): the checks of the ELF header, the user stack with the arguments,
  the segments of the file, and the replacement of the thread's address space. The structures of the
  file are read in place from the byte memory at their packed offsets.

  The C code takes the addresses of four locals, which therefore lie in the stack frame of
  \<open>exec\<close>; the record \<open>frame_slots\<close> has their addresses. Results \<open>True\<close> stand for 0, \<open>False\<close> for -1.
\<close>

record frame_slots =
  at_hdr :: u64
  at_phdr :: u64
  at_begin :: u64
  at_nullptr :: u64

definition USER_STACK_SIZE :: u64 where "USER_STACK_SIZE = 1024 * 1024"
definition ELF_CLASS :: u64 where "ELF_CLASS = 4"
definition ELF_DATA :: u64 where "ELF_DATA = 5"
definition ELF_CLASS64 :: u8 where "ELF_CLASS64 = 2"
definition ELF_DATA2LSB :: u8 where "ELF_DATA2LSB = 1"
definition ELF_EXEC :: u16 where "ELF_EXEC = 2"
definition PT_LOAD :: u32 where "PT_LOAD = 1"
definition PF_X :: u64 where "PF_X = push_bit 0 1"
definition PF_W :: u64 where "PF_W = push_bit 1 1"
definition USER_CS :: u64 where "USER_CS = 0x20 OR 3"
definition USER_DS :: u64 where "USER_DS = 0x28 OR 3"

record elf_hdr =
  e_type :: u16
  e_entry :: u64
  e_phoff :: u64
  e_phentsize :: u16
  e_phnum :: u16

definition sizeof_elf_hdr :: u64 where "sizeof_elf_hdr = 64"

definition read_elf_hdr :: "mem \<Rightarrow> u64 \<Rightarrow> elf_hdr" where
  "read_elf_hdr m p =
     \<lparr>e_type = load_u16 m (p + 16), e_entry = load_u64 m (p + 24), e_phoff = load_u64 m (p + 32),
      e_phentsize = load_u16 m (p + 54), e_phnum = load_u16 m (p + 56)\<rparr>"

record elf_phdr =
  p_type :: u32
  p_flags :: u32
  p_offset :: u64
  p_vaddr :: u64
  p_filesz :: u64
  p_memsz :: u64

definition sizeof_elf_phdr :: u64 where "sizeof_elf_phdr = 56"

definition read_elf_phdr :: "mem \<Rightarrow> u64 \<Rightarrow> elf_phdr" where
  "read_elf_phdr m p =
     \<lparr>p_type = load_u32 m p, p_flags = load_u32 m (p + 4), p_offset = load_u64 m (p + 8),
      p_vaddr = load_u64 m (p + 16), p_filesz = load_u64 m (p + 32), p_memsz = load_u64 m (p + 40)\<rparr>"

record exec_ctx =
  entry_point :: u64
  stack_pointer :: u64
  ctx_argc :: s32
  ctx_argv :: u64

subsection \<open>The header\<close>

definition elf_magic :: "u8 list" where "elf_magic = 0x7f # bytes_of ''ELF''"

definition check_elf_hdr :: "mem \<Rightarrow> u64 \<Rightarrow> bool" where
  "check_elf_hdr m hdr =
     (if memcmp_lit m hdr elf_magic \<noteq> 0 then False
      else if m (hdr + ELF_CLASS) \<noteq> ELF_CLASS64 then False
      else if m (hdr + ELF_DATA) \<noteq> ELF_DATA2LSB then False
      else if e_type (read_elf_hdr m hdr) \<noteq> ELF_EXEC then False
      else True)"

subsection \<open>The user stack\<close>

definition setup_stack ::
    "u64 \<Rightarrow> u64 \<Rightarrow> exec_ctx \<Rightarrow> 'a mms_scheme \<Rightarrow> ((bool \<times> exec_ctx) \<times> 'a mms_scheme) result option" where
  "setup_stack mm stack_size ctx s =
     (let stack_end = USERSPACE_END; stack_begin = USERSPACE_END - stack_size
      in Option.bind (mmap mm stack_begin stack_end (VMA_PERM_READ OR VMA_PERM_WRITE) s) (\<lambda>r. Some (
           and_then r (\<lambda>(ok, s1).
             if \<not> ok then Inr ((False, ctx), s1)
             else Inr ((True, ctx\<lparr>stack_pointer := stack_end\<rparr>), s1)))))"

text \<open>The bytes of the argument strings from the \<open>i\<close>-th on; \<open>n\<close> are left.\<close>

primrec args_bytes :: "mem \<Rightarrow> u64 \<Rightarrow> nat \<Rightarrow> nat \<Rightarrow> u64 \<Rightarrow> u64 option" where
  "args_bytes m argv 0 i bytes = Some bytes"
| "args_bytes m argv (Suc n) i bytes =
     Option.bind (strlen m (load_u64 m (argv + 8 * of_nat i))) (\<lambda>len.
       args_bytes m argv n (i + 1) (bytes + (len + 1)))"

definition put_u64 :: "u64 \<Rightarrow> u64 \<Rightarrow> 'a machine_scheme \<Rightarrow> 'a machine_scheme" where
  "put_u64 addr v s = s\<lparr>memory := store_u64 (memory s) addr v\<rparr>"

text \<open>The loop that copies the strings and their addresses; it yields the place for the final null pointer.\<close>

primrec args_loop ::
    "frame_slots \<Rightarrow> u64 \<Rightarrow> u64 \<Rightarrow> u64 \<Rightarrow> nat \<Rightarrow> nat \<Rightarrow> u64 \<Rightarrow> u64 \<Rightarrow> 'a mms_scheme \<Rightarrow>
     ((bool \<times> u64) \<times> 'a mms_scheme) option" where
  "args_loop fr mm me argv 0 i data ptrs s = Some ((True, ptrs), s)"
| "args_loop fr mm me argv (Suc n) i data ptrs s =
     (let arg = load_u64 (memory s) (argv + 8 * of_nat i)
      in Option.bind (strlen (memory s) arg) (\<lambda>len.
           let sz = len + 1;
               s1 = put_u64 (at_begin fr) data s;
               (ok, s2) = mcopy mm data me arg sz s1
           in if \<not> ok then Some ((False, ptrs), s2)
              else let (ok, s3) = mcopy mm ptrs me (at_begin fr) 8 s2
                   in if \<not> ok then Some ((False, ptrs), s3)
                      else args_loop fr mm me argv n (i + 1) (data + sz) (ptrs + 8) s3))"

definition copy_args ::
    "frame_slots \<Rightarrow> u64 \<Rightarrow> u64 \<Rightarrow> s32 \<Rightarrow> u64 \<Rightarrow> exec_ctx \<Rightarrow> 'a mms_scheme \<Rightarrow>
     ((bool \<times> exec_ctx) \<times> 'a mms_scheme) option" where
  "copy_args fr mm me argc argv ctx s0 =
     (let s = put_u64 (at_nullptr fr) 0 s0; n = unat argc
      in Option.bind (args_bytes (memory s) argv n 0 0) (\<lambda>total.
           let bytes = (total + 8 - 1) AND NOT (8 - 1);
               data = stack_pointer ctx - bytes;
               ptrs = data - 8 * scast (argc + 1);
               ctx1 = ctx\<lparr>stack_pointer := ptrs, ctx_argc := argc, ctx_argv := ptrs\<rparr>
           in Option.bind (args_loop fr mm me argv n 0 data ptrs s) (\<lambda>((ok, last_ptr), s1).
                if \<not> ok then Some ((False, ctx1), s1)
                else let (ok, s2) = mcopy mm last_ptr me (at_nullptr fr) 8 s1
                     in Some ((ok, ctx1), s2))))"

subsection \<open>The segments\<close>

definition segment_flags :: "u64 \<Rightarrow> u32" where
  "segment_flags flags =
     (let perm = VMA_PERM_READ;
          perm = (if flags AND PF_W \<noteq> 0 then perm OR VMA_PERM_WRITE else perm)
      in if flags AND PF_X \<noteq> 0 then perm OR VMA_PERM_EXECUTE else perm)"

text \<open>The loop that reads the file page by page; \<open>offs\<close> is the same in every turn.\<close>

partial_function (option) segment_loop ::
    "'a ramfs_scheme world \<Rightarrow> u64 \<Rightarrow> u64 \<Rightarrow> u64 \<Rightarrow> u64 \<Rightarrow> u64 \<Rightarrow> u64 \<Rightarrow> u64 \<Rightarrow> 'a ramfs_scheme \<Rightarrow>
     ((bool \<times> u64) \<times> 'a ramfs_scheme) result option" where
  "segment_loop env mm me file buf offs addr sz s =
     (if sz = 0 then Some (Inr ((True, addr), s))
      else let toread = (if sz < PAGE_SIZE then sz else PAGE_SIZE)
           in Option.bind (ramfs_readat env file buf toread offs s) (\<lambda>r. case r of
                Inl f \<Rightarrow> Some (Inl f)
              | Inr (got, s1) \<Rightarrow>
                  if got \<noteq> toread then Some (Inr ((False, addr), s1))
                  else let (ok, s2) = mcopy mm addr me buf toread s1
                       in if \<not> ok then Some (Inr ((False, addr), s2))
                          else segment_loop env mm me file buf offs (addr + toread) (sz - toread) s2))"

definition segment_map ::
    "'a ramfs_scheme world \<Rightarrow> u64 \<Rightarrow> elf_phdr \<Rightarrow> u64 \<Rightarrow> 'a ramfs_scheme \<Rightarrow> (bool \<times> 'a ramfs_scheme) result option" where
  "segment_map env mm hdr file s0 =
     (let perm = segment_flags (ucast (p_flags hdr));
          (phys, s) = buddy_alloc 0 s0;
          msk = NOT (PAGE_SIZE - 1);
          from = p_vaddr hdr AND msk;
          to = (p_vaddr hdr + p_memsz hdr + PAGE_SIZE - 1) AND msk;
          me = thr_mm (thread_at s (thread_current s));
          buf = va phys;
          done = (\<lambda>ok s. and_then (buddy_free phys 0 s) (\<lambda>s1. Inr (ok, s1)))
      in if phys = 0 then Some (done False s)
         else Option.bind (mmap mm from to perm s) (\<lambda>r. case r of
                Inl f \<Rightarrow> Some (Inl f)
              | Inr (ok, s1) \<Rightarrow>
                  if \<not> ok then Some (done False s1)
                  else Option.bind (segment_loop env mm me file buf (p_offset hdr) (p_vaddr hdr) (p_filesz hdr) s1)
                    (\<lambda>r. Some (and_then r (\<lambda>((ok, addr), s2).
                      if \<not> ok then done False s2
                      else let (ok, s3) = mset mm addr 0 (p_memsz hdr - p_filesz hdr) s2
                           in if \<not> ok then done False s3 else done True s3)))))"

text \<open>The loop over the program headers; \<open>n\<close> are left, the \<open>i\<close>-th is next.\<close>

primrec load_loop ::
    "'a ramfs_scheme world \<Rightarrow> frame_slots \<Rightarrow> u64 \<Rightarrow> u64 \<Rightarrow> u64 \<Rightarrow> u64 \<Rightarrow> nat \<Rightarrow> nat \<Rightarrow> 'a ramfs_scheme \<Rightarrow>
     (bool \<times> 'a ramfs_scheme) result option" where
  "load_loop env fr mm file offset entsize 0 i s = Some (Inr (True, s))"
| "load_loop env fr mm file offset entsize (Suc n) i s =
     (let off = offset + of_nat i * entsize
      in Option.bind (ramfs_readat env file (at_phdr fr) sizeof_elf_phdr off s) (\<lambda>r. case r of
           Inl f \<Rightarrow> Some (Inl f)
         | Inr (got, s1) \<Rightarrow>
             let phdr = read_elf_phdr (memory s1) (at_phdr fr)
             in if got \<noteq> sizeof_elf_phdr then Some (Inr (False, s1))
                else if p_type phdr \<noteq> PT_LOAD then load_loop env fr mm file offset entsize n (i + 1) s1
                else Option.bind (segment_map env mm phdr file s1) (\<lambda>r. case r of
                       Inl f \<Rightarrow> Some (Inl f)
                     | Inr (ok, s2) \<Rightarrow>
                         if \<not> ok then Some (Inr (False, s2))
                         else load_loop env fr mm file offset entsize n (i + 1) s2)))"

definition load_binary ::
    "'a ramfs_scheme world \<Rightarrow> frame_slots \<Rightarrow> u64 \<Rightarrow> u64 \<Rightarrow> exec_ctx \<Rightarrow> 'a ramfs_scheme \<Rightarrow>
     ((bool \<times> exec_ctx) \<times> 'a ramfs_scheme) result option" where
  "load_binary env fr mm file ctx s =
     (let hdr = read_elf_hdr (memory s) (at_hdr fr)
      in Option.bind (load_loop env fr mm file (e_phoff hdr) (ucast (e_phentsize hdr)) (unat (e_phnum hdr)) 0 s)
           (\<lambda>r. Some (and_then r (\<lambda>(ok, s1).
             if \<not> ok then Inr ((False, ctx), s1)
             else Inr ((True, ctx\<lparr>entry_point := e_entry (read_elf_hdr (memory s1) (at_hdr fr))\<rparr>), s1)))))"

subsection \<open>Replacing the program\<close>

definition give_up ::
    "u64 \<Rightarrow> u64 \<Rightarrow> 'a ramfs_scheme \<Rightarrow> (bool \<times> 'a ramfs_scheme) result option" where
  "give_up mm file s =
     Option.bind (mm_release mm s) (\<lambda>r. Some (and_then r (\<lambda>s1. Inr (False, ramfs_close file s1))))"

definition set_user_frame :: "u64 \<Rightarrow> exec_ctx \<Rightarrow> mem \<Rightarrow> mem" where
  "set_user_frame regs ctx m =
     (let m = store_u64 m (regs + frame_rip) (entry_point ctx);
          m = store_u64 m (regs + frame_rsp) (stack_pointer ctx);
          m = store_u64 m (regs + frame_rdi) (scast (ctx_argc ctx));
          m = store_u64 m (regs + frame_rsi) (ctx_argv ctx);
          m = store_u64 m (regs + frame_cs) USER_CS;
          m = store_u64 m (regs + frame_ss) USER_DS
      in store_u64 m (regs + frame_rflags) RFLAGS_IF)"

definition exec_switch ::
    "u64 \<Rightarrow> u64 \<Rightarrow> exec_ctx \<Rightarrow> 'a ramfs_scheme \<Rightarrow> (bool \<times> 'a ramfs_scheme) result option" where
  "exec_switch new_mm file ctx s =
     (let me = thread_current s; old_mm = thr_mm (thread_at s me);
          s1 = upd_thread me (\<lambda>th. th\<lparr>thr_mm := new_mm\<rparr>) s;
          s2 = cr3_write (mm_cr3 (mm_at s1 new_mm)) s1
      in Option.bind (mm_release old_mm s2) (\<lambda>r. Some (and_then r (\<lambda>s3.
           let s4 = ramfs_close file s3
           in Inr (True, s4\<lparr>memory := set_user_frame (thr_regs (thread_at s4 me)) ctx (memory s4)\<rparr>)))))"

text \<open>The new address space, built up and filled, or given up.\<close>

definition exec_load ::
    "'a ramfs_scheme world \<Rightarrow> frame_slots \<Rightarrow> s32 \<Rightarrow> u64 \<Rightarrow> u64 \<Rightarrow> u64 \<Rightarrow> exec_ctx \<Rightarrow> 'a ramfs_scheme \<Rightarrow>
     (bool \<times> 'a ramfs_scheme) result option" where
  "exec_load env fr argc argv file new_mm ctx0 s =
     Option.bind (setup_stack new_mm USER_STACK_SIZE ctx0 s) (\<lambda>r. case r of
       Inl f \<Rightarrow> Some (Inl f)
     | Inr ((ok, ctx1), s1) \<Rightarrow>
         if \<not> ok then give_up new_mm file s1
         else Option.bind (copy_args fr new_mm (thr_mm (thread_at s1 (thread_current s1))) argc argv ctx1 s1)
           (\<lambda>((ok, ctx2), s2).
             if \<not> ok then give_up new_mm file s2
             else Option.bind (load_binary env fr new_mm file ctx2 s2) (\<lambda>r. case r of
                    Inl f \<Rightarrow> Some (Inl f)
                  | Inr ((ok, ctx3), s3) \<Rightarrow>
                      if \<not> ok then give_up new_mm file s3 else exec_switch new_mm file ctx3 s3)))"

definition exec ::
    "'a ramfs_scheme world \<Rightarrow> frame_slots \<Rightarrow> exec_ctx \<Rightarrow> s32 \<Rightarrow> u64 \<Rightarrow> 'a ramfs_scheme \<Rightarrow>
     (bool \<times> 'a ramfs_scheme) result option" where
  "exec env fr ctx0 argc argv s =
     (if sint argc \<le> 0 then Some (Inr (False, s))
      else Option.bind (ramfs_open env (load_u64 (memory s) argv) s) (\<lambda>r. case r of
             Inl f \<Rightarrow> Some (Inl f)
           | Inr (None, s1) \<Rightarrow> Some (Inr (False, s1))
           | Inr (Some file, s1) \<Rightarrow>
               Option.bind (ramfs_readat env file (at_hdr fr) sizeof_elf_hdr 0 s1) (\<lambda>r. case r of
                 Inl f \<Rightarrow> Some (Inl f)
               | Inr (got, s2) \<Rightarrow>
                   if got \<noteq> sizeof_elf_hdr then Some (Inr (False, ramfs_close file s2))
                   else if \<not> check_elf_hdr (memory s2) (at_hdr fr) then Some (Inr (False, ramfs_close file s2))
                   else case mm_create s2 of
                          Inl f \<Rightarrow> Some (Inl f)
                        | Inr (new_mm, s3) \<Rightarrow>
                            if new_mm = 0 then Some (Inr (False, ramfs_close file s3))
                            else exec_load env fr argc argv file new_mm ctx0 s3)))"

end
