(* ===== verification/Initramfs.thy ===== *)
theory Initramfs
  imports Ramfs CType
begin

text \<open>
  Unpacking the RAM disk (\<open>src/initramfs.c\<close>): a CPIO archive in the byte memory, whose regular files
  are written into the file system. The header \<open>struct cpio_header\<close> is read in place at its packed
  offsets. \<open>digits_at\<close> is the address the linker gave to the string of digits in \<open>parse_hex\<close>; it only
  matters for a character that is no digit, where the code subtracts it from a null pointer.
\<close>

definition S_IFMT :: u64 where "S_IFMT = 0xF000"
definition S_IFREG :: u64 where "S_IFREG = 0x8000"
definition S_ISREG :: "u64 \<Rightarrow> bool" where "S_ISREG mode \<longleftrightarrow> mode AND S_IFMT = S_IFREG"

definition sizeof_cpio_header :: u64 where "sizeof_cpio_header = 6 + 13 * 8"
definition cpio_mode :: u64 where "cpio_mode = 14"
definition cpio_filesize :: u64 where "cpio_filesize = 54"
definition cpio_namesize :: u64 where "cpio_namesize = 94"

subsection \<open>Numbers\<close>

definition hex_digits :: "u8 list" where "hex_digits = bytes_of ''0123456789abcdef''"

text \<open>\<open>strchr\<close> on the string of digits; the position, if the character occurs.\<close>

definition hex_index :: "s32 \<Rightarrow> nat option" where
  "hex_index c = List.find (\<lambda>i. scast (hex_digits ! i) = c) [0..<length hex_digits]"

definition hex_value :: "u64 \<Rightarrow> u8 \<Rightarrow> u64" where
  "hex_value digits_at c =
     (case hex_index (tolower (scast c)) of Some i \<Rightarrow> of_nat i | None \<Rightarrow> 0 - digits_at)"

primrec hex_loop :: "u64 \<Rightarrow> u8 list \<Rightarrow> u64 \<Rightarrow> u64" where
  "hex_loop digits_at [] ans = ans"
| "hex_loop digits_at (c # cs) ans =
     (if c = 0 then ans else hex_loop digits_at cs (ans * 16 + hex_value digits_at c))"

text \<open>The buffer is the eight characters of the field and a final zero.\<close>

definition parse_hex :: "u64 \<Rightarrow> mem \<Rightarrow> u64 \<Rightarrow> u64" where
  "parse_hex digits_at m data =
     (let buffer = map (\<lambda>i. m (data + of_nat i)) [0..<8] @ [0] in hex_loop digits_at buffer 0)"

subsection \<open>The archive\<close>

definition create_file ::
    "'a ramfs_scheme world \<Rightarrow> u64 \<Rightarrow> u64 \<Rightarrow> u64 \<Rightarrow> 'a ramfs_scheme \<Rightarrow> 'a ramfs_scheme result option" where
  "create_file env name data sz s =
     Option.bind (ramfs_create env name s) (\<lambda>r. case r of
       Inl f \<Rightarrow> Some (Inl f)
     | Inr (None, s1) \<Rightarrow> Some (Inl Hang)
     | Inr (Some file, s1) \<Rightarrow>
         Option.bind (ramfs_writeat env file data sz 0 s1) (\<lambda>r. Some (
           and_then r (\<lambda>(ret, s2). if ret \<noteq> sz then Inl Hang else Inr (ramfs_close file s2)))))"

definition align4 :: "u64 \<Rightarrow> u64" where "align4 pos = (pos + 3) AND NOT 3"

definition trailer :: "u8 list" where "trailer = bytes_of ''TRAILER!!!''"

partial_function (option) cpio_loop ::
    "'a ramfs_scheme world \<Rightarrow> u64 \<Rightarrow> u64 \<Rightarrow> u64 \<Rightarrow> u64 \<Rightarrow> 'a ramfs_scheme \<Rightarrow> 'a ramfs_scheme result option" where
  "cpio_loop env digits_at data sz pos s =
     (if \<not> (pos < sz \<and> sz - pos \<ge> sizeof_cpio_header) then Some (Inr s)
      else let hdr = data + pos;
               mode = parse_hex digits_at (memory s) (hdr + cpio_mode);
               namesize = parse_hex digits_at (memory s) (hdr + cpio_namesize);
               filesize = parse_hex digits_at (memory s) (hdr + cpio_filesize);
               pos1 = pos + sizeof_cpio_header;
               filename = data + pos1;
               pos2 = align4 (pos1 + namesize)
           in if pos2 > sz then Some (Inr s)
              else if strcmp_lit (memory s) filename trailer = 0 then Some (Inr s)
              else let filedata = data + pos2; pos3 = pos2 + filesize
                   in if pos3 > sz then Some (Inr s)
                      else Option.bind
                        (if S_ISREG mode then create_file env filename filedata filesize s else Some (Inr s))
                        (\<lambda>r. case r of
                          Inl f \<Rightarrow> Some (Inl f)
                        | Inr s1 \<Rightarrow> cpio_loop env digits_at data sz (align4 pos3) s1))"

definition parse_cpio ::
    "'a ramfs_scheme world \<Rightarrow> u64 \<Rightarrow> u64 \<Rightarrow> u64 \<Rightarrow> 'a ramfs_scheme \<Rightarrow> 'a ramfs_scheme result option" where
  "parse_cpio env digits_at data sz s = cpio_loop env digits_at data sz 0 s"

definition initramfs_setup ::
    "'a ramfs_scheme world \<Rightarrow> u64 \<Rightarrow> 'a ramfs_scheme \<Rightarrow> 'a ramfs_scheme result option" where
  "initramfs_setup env digits_at s =
     parse_cpio env digits_at (va (initrd_begin s)) (initrd_end s - initrd_begin s) s"

end
