(* ===== verification/Ints.thy ===== *)
theory Ints
  imports Exec Initramfs Print
begin

text \<open>
  Interrupts: the descriptor table and dispatch (\<open>src/ints.c\<close>, \<open>inc/ints.h\<close>), the interrupt
  controllers (\<open>src/apic.c\<close>, \<open>inc/ioport.h\<close>), the timer (\<open>src/time.c\<close>), the system call (\<open>src/syscall.c\<close>)
  and the backtrace (\<open>src/backtrace.c\<close>).

  Devices are not modelled: writes to I/O ports and to the registers of the local APIC are recorded in
  order in \<open>ports\<close> and \<open>mmio\<close>, reads take their value from an argument. The record \<open>image\<close> has what the
  linker and the generated assembly fix: the address of each string literal, the entry points
  \<open>__raw_handler\<close>, and the addresses of static objects and functions. A handler is a function pointer;
  the kernel's own three are named, any other is an address whose effect is an argument.
\<close>

record image =
  lit :: "string \<Rightarrow> u64"
  raw_handler :: "nat \<Rightarrow> u64"
  IDT_at :: u64
  main_thread :: u64
  main_mm :: u64
  bootstrap_stack_top :: u64
  gdt_at :: u64
  tss_at :: u64
  thread_entry_at :: u64
  thread_exit_at :: u64
  init_at :: u64

datatype handler = HandleSpurious | HandleSyscall | TimerHandler | Foreign u64

record idt_desc =
  offs0 :: u16
  idt_sel :: u16
  idt_flags :: u16
  offs1 :: u16
  offs2 :: u32
  idt_reserved :: u32

record int_desc =
  int_handler :: "handler option"
  int_busy :: bool

record kernel = ramfs +
  console :: vga
  int_descs :: "nat \<Rightarrow> int_desc"
  exc_handler :: "nat \<Rightarrow> handler option"
  idt :: "nat \<Rightarrow> idt_desc"
  idtr :: "u16 \<times> u64"
  LOCAL_APIC_BASE :: u64
  mmio :: "(u64 \<times> u32) list"
  ports :: "(u16 \<times> u8) list"

text \<open>\<open>printf\<close> of a literal format on the kernel's console.\<close>

definition kprintf :: "image \<Rightarrow> string \<Rightarrow> u64 list \<Rightarrow> 'a kernel_scheme \<Rightarrow> 'a kernel_scheme result option" where
  "kprintf im fmt args s =
     Option.bind (printf (lit im fmt) args (memory s, console s)) (\<lambda>r. Some (
       and_then r (\<lambda>(rc, m, v). Inr (s\<lparr>memory := m, console := v\<rparr>))))"

definition NL :: char where "NL = CHR 10"

subsection \<open>The interrupt controllers\<close>

definition out8 :: "u16 \<Rightarrow> u8 \<Rightarrow> 'a kernel_scheme \<Rightarrow> 'a kernel_scheme" where
  "out8 port data s = s\<lparr>ports := ports s @ [(port, data)]\<rparr>"

definition i8259_disable :: "'a kernel_scheme \<Rightarrow> 'a kernel_scheme" where
  "i8259_disable s =
     (let MCMD = 0x20; MDATA = 0x21; SCMD = 0xa0; SDATA = 0xa1;
          s = out8 MCMD (push_bit 0 1 OR push_bit 4 1) s;
          s = out8 SCMD (push_bit 0 1 OR push_bit 4 1) s;
          s = out8 MDATA 0x20 s;
          s = out8 SDATA 0x28 s;
          s = out8 MDATA (push_bit 2 1) s;
          s = out8 SDATA 2 s;
          s = out8 MDATA 1 s;
          s = out8 SDATA 1 s;
          s = out8 MDATA 0xff s
      in out8 SDATA 0xff s)"

definition LOCAL_APIC_TPR :: s32 where "LOCAL_APIC_TPR = 0x80"
definition LOCAL_APIC_EOI :: s32 where "LOCAL_APIC_EOI = 0xb0"
definition LOCAL_APIC_DFR :: s32 where "LOCAL_APIC_DFR = 0xd0"
definition LOCAL_APIC_LDR :: s32 where "LOCAL_APIC_LDR = 0xe0"
definition LOCAL_APIC_SPURIOUS :: s32 where "LOCAL_APIC_SPURIOUS = 0xf0"
definition LOCAL_APIC_TIMER_LVT :: s32 where "LOCAL_APIC_TIMER_LVT = 0x320"
definition LOCAL_APIC_TIMER_INIT :: s32 where "LOCAL_APIC_TIMER_INIT = 0x380"
definition LOCAL_APIC_TIMER_DIVIDER :: s32 where "LOCAL_APIC_TIMER_DIVIDER = 0x3e0"

definition local_apic_read :: "(u64 \<Rightarrow> u32) \<Rightarrow> s32 \<Rightarrow> 'a kernel_scheme \<Rightarrow> u32" where
  "local_apic_read device offs s = device (LOCAL_APIC_BASE s + scast offs)"

definition local_apic_write :: "s32 \<Rightarrow> u32 \<Rightarrow> 'a kernel_scheme \<Rightarrow> 'a kernel_scheme" where
  "local_apic_write offs value s = s\<lparr>mmio := mmio s @ [(LOCAL_APIC_BASE s + scast offs, value)]\<rparr>"

text \<open>\<open>rdmsr\<close> yields the low and the high half of a model-specific register.\<close>

definition local_apic_base :: "(u64 \<Rightarrow> u32 \<times> u32) \<Rightarrow> u64" where
  "local_apic_base rdmsr =
     (let APIC_BASE_MSR = 0x1b; (low, high) = rdmsr APIC_BASE_MSR
      in (push_bit 32 (ucast high) OR ucast low) AND NOT (push_bit 12 1 - 1))"

definition INTNO_SYSCALL :: s32 where "INTNO_SYSCALL = 0x80"
definition INTNO_SPURIOUS :: s32 where "INTNO_SPURIOUS = 255"

definition local_apic_setup ::
    "image \<Rightarrow> (u64 \<Rightarrow> u32 \<times> u32) \<Rightarrow> 'a kernel_scheme \<Rightarrow> 'a kernel_scheme result option" where
  "local_apic_setup im rdmsr s =
     (let LDR = push_bit 24 1; DFR = push_bit 28 0xf; TPR = 0;
          SPURIOUS = ucast INTNO_SPURIOUS OR push_bit 8 1;
          s1 = i8259_disable s;
          phys = local_apic_base rdmsr;
          s2 = s1\<lparr>LOCAL_APIC_BASE := va phys\<rparr>
      in Option.bind (kprintf im (''Local APIC base address 0x%llx'' @ [NL]) [phys] s2) (\<lambda>r. Some (
           and_then r (\<lambda>s.
             let s = local_apic_write LOCAL_APIC_TPR TPR s;
                 s = local_apic_write LOCAL_APIC_LDR LDR s;
                 s = local_apic_write LOCAL_APIC_DFR DFR s
             in Inr (local_apic_write LOCAL_APIC_SPURIOUS SPURIOUS s)))))"

subsection \<open>The descriptor table\<close>

definition IDT_SIZE :: nat where "IDT_SIZE = 256"
definition IDT_EXCEPTIONS :: nat where "IDT_EXCEPTIONS = 32"

definition IDT_DPL :: "u32 \<Rightarrow> u32" where "IDT_DPL x = push_bit 13 (x AND 0x3)"
definition IDT_KERNEL :: u32 where "IDT_KERNEL = IDT_DPL 0"
definition IDT_USER :: u32 where "IDT_USER = IDT_DPL 3"
definition IDT_TYPE :: "u32 \<Rightarrow> u32" where "IDT_TYPE x = push_bit 8 (x AND 0xf)"
definition IDT_INT_GATE :: u32 where "IDT_INT_GATE = IDT_TYPE 0xe"
definition IDT_TRP_GATE :: u32 where "IDT_TRP_GATE = IDT_TYPE 0xf"
definition IDT_PRESENT :: u32 where "IDT_PRESENT = push_bit 15 1"
definition IDT_EXCEPTION_FLAGS :: u32 where
  "IDT_EXCEPTION_FLAGS = IDT_KERNEL OR IDT_INT_GATE OR IDT_PRESENT"
definition IDT_INTERRUPT_FLAGS :: u32 where
  "IDT_INTERRUPT_FLAGS = IDT_KERNEL OR IDT_INT_GATE OR IDT_PRESENT"
definition IDT_SPURIOUS_FLAGS :: u32 where
  "IDT_SPURIOUS_FLAGS = IDT_KERNEL OR IDT_INT_GATE OR IDT_PRESENT"
definition IDT_SYSCALL_FLAGS :: u32 where
  "IDT_SYSCALL_FLAGS = IDT_USER OR IDT_TRP_GATE OR IDT_PRESENT"

definition idt_desc_setup :: "u32 \<Rightarrow> u64 \<Rightarrow> u32 \<Rightarrow> idt_desc" where
  "idt_desc_setup sel offs flags =
     \<lparr>offs0 = ucast (offs AND 0xffff), idt_sel = ucast sel, idt_flags = ucast flags,
      offs1 = ucast (drop_bit 16 offs AND 0xffff), offs2 = ucast (drop_bit 32 offs AND 0xffffffff),
      idt_reserved = 0\<rparr>"

definition idt_put :: "nat \<Rightarrow> idt_desc \<Rightarrow> 'a kernel_scheme \<Rightarrow> 'a kernel_scheme" where
  "idt_put i d s = s\<lparr>idt := (idt s)(i := d)\<rparr>"

text \<open>Registration fails to write inside the table for a number that has no descriptor.\<close>

definition register_exception_handler :: "s32 \<Rightarrow> handler \<Rightarrow> 'a kernel_scheme \<Rightarrow> 'a kernel_scheme result" where
  "register_exception_handler intno h s =
     (if sint intno < 0 \<or> sint intno \<ge> int IDT_EXCEPTIONS then Inl Wild
      else Inr (s\<lparr>exc_handler := (exc_handler s)(nat (sint intno) := Some h)\<rparr>))"

definition register_interrupt_handler :: "s32 \<Rightarrow> handler \<Rightarrow> 'a kernel_scheme \<Rightarrow> 'a kernel_scheme result" where
  "register_interrupt_handler intno h s =
     (let i = sint intno - int IDT_EXCEPTIONS
      in if i < 0 \<or> i \<ge> int (IDT_SIZE - IDT_EXCEPTIONS) then Inl Wild
         else Inr (s\<lparr>int_descs := (int_descs s)(nat i := \<lparr>int_handler = Some h, int_busy = True\<rparr>)\<rparr>))"

text \<open>The result is the interrupt number, or -1.\<close>

primrec allocate_loop :: "nat \<Rightarrow> nat \<Rightarrow> 'a kernel_scheme \<Rightarrow> s32 \<times> 'a kernel_scheme" where
  "allocate_loop 0 i s = (- 1, s)"
| "allocate_loop (Suc n) i s =
     (if int_busy (int_descs s i) then allocate_loop n (i + 1) s
      else (of_nat (i + IDT_EXCEPTIONS),
            s\<lparr>int_descs := (int_descs s)(i := (int_descs s i)\<lparr>int_busy := True\<rparr>)\<rparr>))"

definition allocate_interrupt :: "'a kernel_scheme \<Rightarrow> s32 \<times> 'a kernel_scheme" where
  "allocate_interrupt s = allocate_loop (IDT_SIZE - IDT_EXCEPTIONS) 0 s"

definition idt_setup :: "image \<Rightarrow> 'a kernel_scheme \<Rightarrow> 'a kernel_scheme result" where
  "idt_setup im s =
     (let s1 = fold (\<lambda>i. idt_put i (idt_desc_setup (ucast KERNEL_CS) (raw_handler im i) IDT_EXCEPTION_FLAGS))
                 [0..<IDT_EXCEPTIONS] s;
          s2 = fold (\<lambda>i. idt_put i (idt_desc_setup (ucast KERNEL_CS) (raw_handler im i) IDT_INTERRUPT_FLAGS))
                 [IDT_EXCEPTIONS..<IDT_SIZE] s1;
          spurious = unat INTNO_SPURIOUS; syscall = unat INTNO_SYSCALL;
          s3 = idt_put spurious
                 (idt_desc_setup (ucast KERNEL_CS) (raw_handler im spurious) IDT_SPURIOUS_FLAGS) s2
      in and_then (register_interrupt_handler INTNO_SPURIOUS HandleSpurious s3) (\<lambda>s4.
           let s5 = idt_put syscall
                 (idt_desc_setup (ucast KERNEL_CS) (raw_handler im syscall) IDT_SYSCALL_FLAGS) s4
           in and_then (register_interrupt_handler INTNO_SYSCALL HandleSyscall s5) (\<lambda>s6.
                Inr (s6\<lparr>idtr := (of_nat (16 * IDT_SIZE - 1), IDT_at im)\<rparr>))))"

definition ints_setup ::
    "image \<Rightarrow> (u64 \<Rightarrow> u32 \<times> u32) \<Rightarrow> 'a kernel_scheme \<Rightarrow> 'a kernel_scheme result option" where
  "ints_setup im rdmsr s =
     (case idt_setup im s of Inl f \<Rightarrow> Some (Inl f) | Inr s1 \<Rightarrow> local_apic_setup im rdmsr s1)"

subsection \<open>Handlers\<close>

definition handle_spurious :: "'a kernel_scheme \<Rightarrow> 'a kernel_scheme" where
  "handle_spurious s = s"

definition handle_syscall :: "image \<Rightarrow> 'a kernel_scheme \<Rightarrow> 'a kernel_scheme result option" where
  "handle_syscall im s = kprintf im (''syscall!'' @ [NL]) [] s"

definition timer_handler :: "'a kernel_scheme world \<Rightarrow> 'a kernel_scheme \<Rightarrow> 'a kernel_scheme result option" where
  "timer_handler env s = run_switch env (current s) (scheduler_tick s)"

definition call_handler ::
    "image \<Rightarrow> 'a kernel_scheme world \<Rightarrow> (u64 \<Rightarrow> 'a kernel_scheme \<Rightarrow> 'a kernel_scheme result option) \<Rightarrow>
     handler \<Rightarrow> 'a kernel_scheme \<Rightarrow> 'a kernel_scheme result option" where
  "call_handler im env foreign h s =
     (case h of
        HandleSpurious \<Rightarrow> Some (Inr (handle_spurious s))
      | HandleSyscall \<Rightarrow> handle_syscall im s
      | TimerHandler \<Rightarrow> timer_handler env s
      | Foreign a \<Rightarrow> foreign a s)"

subsection \<open>Unhandled exceptions\<close>

text \<open>The loop of \<open>backtrace\<close>, from the frame pointer \<open>rbp\<close> on.\<close>

partial_function (option) backtrace_loop ::
    "image \<Rightarrow> u64 \<Rightarrow> u64 \<Rightarrow> s32 \<Rightarrow> u64 \<Rightarrow> 'a kernel_scheme \<Rightarrow> 'a kernel_scheme result option" where
  "backtrace_loop im lo hi index rbp s =
     (if \<not> (rbp \<ge> lo \<and> rbp + 16 \<le> hi) then Some (Inr s)
      else let prev_rbp = load_u64 (memory s) rbp; prev_rip = load_u64 (memory s) (rbp + 8)
           in if prev_rbp \<le> rbp then Some (Inr s)
              else Option.bind (kprintf im (''%d: RIP 0x%llx'' @ [NL]) [ucast index, prev_rip] s) (\<lambda>r. case r of
                     Inl f \<Rightarrow> Some (Inl f)
                   | Inr s1 \<Rightarrow> backtrace_loop im lo hi (index + 1) prev_rbp s1))"

definition backtrace ::
    "image \<Rightarrow> u64 \<Rightarrow> u64 \<Rightarrow> u64 \<Rightarrow> 'a kernel_scheme \<Rightarrow> 'a kernel_scheme result option" where
  "backtrace im rbp lo hi s = backtrace_loop im lo hi 0 rbp s"

text \<open>The fields of \<open>struct frame\<close> by their number.\<close>

definition frame_field :: "'a machine_scheme \<Rightarrow> u64 \<Rightarrow> nat \<Rightarrow> u64" where
  "frame_field s regs i = load_u64 (memory s) (regs + 8 * of_nat i)"

definition register_format :: string where
  "register_format =
     ''RIP 0x%llx, RSP 0x%llx, RBP 0x%llx,'' @ [NL] @
     ''R8 0x%llx, R9 0x%llx, R10 0x%llx, R11 0x%llx,'' @ [NL] @
     ''R12 0x%llx, R13 0x%llx, R14 0x%llx, R15 0x%llx,'' @ [NL] @
     ''RAX 0x%llx, RBX 0x%llx, RCX 0x%llx, RDX 0x%llx,'' @ [NL] @
     ''RSI 0x%llx, RDI 0x%llx'' @ [NL]"

text \<open>
  The report of an unhandled exception, up to the endless loop. The last list has the registers in the
  order they are printed: rip, rsp, rbp, r8 to r15, rax, rbx, rcx, rdx, rsi, rdi.
\<close>

definition exception_report ::
    "image \<Rightarrow> u64 \<Rightarrow> u64 \<Rightarrow> s32 \<Rightarrow> 'a kernel_scheme \<Rightarrow> 'a kernel_scheme result option" where
  "exception_report im rsp regs exception s =
     (let lo = rsp AND NOT (PAGE_SIZE - 1); hi = lo + PAGE_SIZE;
          andThen = (\<lambda>x k. Option.bind x (\<lambda>r. case r of Inl f \<Rightarrow> Some (Inl f) | Inr s \<Rightarrow> k s))
      in andThen (kprintf im (''Unhandled exception %d at 0x%llx'' @ [NL]) [ucast exception, frame_field s regs 17] s)
        (\<lambda>s. andThen (kprintf im (''Backtrace Begin:'' @ [NL]) [] s)
        (\<lambda>s. andThen (backtrace im (frame_field s regs 0) lo hi s)
        (\<lambda>s. andThen (kprintf im (''Backtrace End.'' @ [NL]) [] s)
        (\<lambda>s. kprintf im register_format
               (map (frame_field s regs) [17, 20, 0, 9, 8, 7, 6, 5, 4, 3, 2, 10, 1, 11, 12, 13, 14]) s)))))"

definition handle_exception ::
    "image \<Rightarrow> 'a kernel_scheme world \<Rightarrow> (u64 \<Rightarrow> 'a kernel_scheme \<Rightarrow> 'a kernel_scheme result option) \<Rightarrow>
     u64 \<Rightarrow> u64 \<Rightarrow> s32 \<Rightarrow> 'a kernel_scheme \<Rightarrow> 'a kernel_scheme result option" where
  "handle_exception im env foreign rsp regs exception s =
     (if sint exception < 0 then Some (Inl Wild)
      else case exc_handler s (nat (sint exception)) of
             Some h \<Rightarrow> call_handler im env foreign h s
           | None \<Rightarrow> Option.bind (exception_report im rsp regs exception s) (\<lambda>r. Some (
               and_then r (\<lambda>s1. Inl Hang))))"

subsection \<open>Dispatch\<close>

definition end_of_interrupt :: "'a kernel_scheme \<Rightarrow> 'a kernel_scheme" where
  "end_of_interrupt s = local_apic_write LOCAL_APIC_EOI 0 s"

definition handle_interrupt ::
    "image \<Rightarrow> 'a kernel_scheme world \<Rightarrow> (u64 \<Rightarrow> 'a kernel_scheme \<Rightarrow> 'a kernel_scheme result option) \<Rightarrow>
     s32 \<Rightarrow> 'a kernel_scheme \<Rightarrow> 'a kernel_scheme result option" where
  "handle_interrupt im env foreign intno s =
     (let s1 = end_of_interrupt s
      in if sint intno \<ge> int (IDT_SIZE - IDT_EXCEPTIONS) then Some (Inl Wild)
         else case int_handler (int_descs s1 (nat (sint intno))) of
                Some h \<Rightarrow> call_handler im env foreign h s1
              | None \<Rightarrow> Some (Inr s1))"

definition isr_handler ::
    "image \<Rightarrow> 'a kernel_scheme world \<Rightarrow> (u64 \<Rightarrow> 'a kernel_scheme \<Rightarrow> 'a kernel_scheme result option) \<Rightarrow>
     u64 \<Rightarrow> u64 \<Rightarrow> 'a kernel_scheme \<Rightarrow> 'a kernel_scheme result option" where
  "isr_handler im env foreign rsp regs s =
     (let irq = ucast (frame_field s regs 15) :: s32
      in if sint irq < int IDT_EXCEPTIONS then handle_exception im env foreign rsp regs irq s
         else handle_interrupt im env foreign (irq - of_nat IDT_EXCEPTIONS) s)"

subsection \<open>The timer\<close>

definition TIMER_PERIODIC :: u32 where "TIMER_PERIODIC = push_bit 17 1"
definition TIMER_DIV128 :: u32 where "TIMER_DIV128 = 10"
definition TIMER_INIT :: u32 where "TIMER_INIT = 262144"

definition local_apic_timer_setup :: "'a kernel_scheme \<Rightarrow> 'a kernel_scheme result" where
  "local_apic_timer_setup s =
     (let (intno, s1) = allocate_interrupt s
      in and_then (register_interrupt_handler intno TimerHandler s1) (\<lambda>s.
           let s = local_apic_write LOCAL_APIC_TIMER_DIVIDER TIMER_DIV128 s;
               s = local_apic_write LOCAL_APIC_TIMER_LVT (TIMER_PERIODIC OR ucast intno) s
           in Inr (local_apic_write LOCAL_APIC_TIMER_INIT TIMER_INIT s)))"

definition time_setup :: "'a kernel_scheme \<Rightarrow> 'a kernel_scheme result" where
  "time_setup s = local_apic_timer_setup s"

end
