(* ===== verification/Kernel.thy ===== *)
theory Kernel
  imports Ints
begin

text \<open>
  The kernel's start (\<open>src/main.c\<close>): the setup routines of all components in their order, and the body
  of the first thread. The kernel is built without \<open>DEBUG\<close>, so \<open>qemu_gdb_hang\<close> does nothing. The record
  \<open>boot_args\<close> has what comes from outside the C code: the bounds of the kernel image, what the
  memory the buddy allocator's descriptors are put in holds before, the model-specific
  registers, and the other threads.
\<close>

record boot_args =
  kernel_begin :: u64
  kernel_end :: u64
  raw_links :: "nat \<Rightarrow> bnode links"
  raw_pages :: "nat \<Rightarrow> nat \<Rightarrow> page"
  msrs :: "u64 \<Rightarrow> u32 \<times> u32"

definition qemu_gdb_hang :: "'a kernel_scheme \<Rightarrow> 'a kernel_scheme" where
  "qemu_gdb_hang s = s"

text \<open>The array \<open>argv\<close> of \<open>init\<close> lies in its stack frame at \<open>argv\<close>.\<close>

definition init_program :: string where "init_program = ''initramfs/test''"

definition init_thread ::
    "image \<Rightarrow> 'a kernel_scheme world \<Rightarrow> frame_slots \<Rightarrow> exec_ctx \<Rightarrow> u64 \<Rightarrow> 'a kernel_scheme \<Rightarrow>
     (s32 \<times> 'a kernel_scheme) result option" where
  "init_thread im env fr ctx0 argv s =
     (let s1 = put_u64 argv (lit im init_program) s
      in Option.bind (exec env fr ctx0 1 argv s1) (\<lambda>r. case r of
           Inl f \<Rightarrow> Some (Inl f)
         | Inr (ok, s2) \<Rightarrow>
             if ok then Some (Inr (0, s2))
             else Option.bind (kprintf im (''exec %s failed'' @ [NL]) [load_u64 (memory s2) argv] s2) (\<lambda>r. Some (
                    and_then r (\<lambda>s3. Inl Hang)))))"

text \<open>One more setup routine, if none before it failed.\<close>

definition stage ::
    "('s \<Rightarrow> 's result option) \<Rightarrow> 's result option \<Rightarrow> 's result option" where
  "stage f x = Option.bind x (\<lambda>r. case r of Inl e \<Rightarrow> Some (Inl e) | Inr s \<Rightarrow> f s)"

definition main_setup ::
    "image \<Rightarrow> 'a kernel_scheme world \<Rightarrow> boot_args \<Rightarrow> u64 \<Rightarrow> 'a kernel_scheme \<Rightarrow> 'a kernel_scheme result option" where
  "main_setup im env b mb_info_phys s =
     (let info = va mb_info_phys;
          s1 = qemu_gdb_hang s;
          s2 = s1\<lparr>memory := vga_clr (memory s1)\<rparr>
      in stage (\<lambda>s. Some (scheduler_setup (main_thread im) (main_mm im) (bootstrap_stack_top im)
                            (gdt_at im) (tss_at im) s))
        (stage (\<lambda>s. Some (time_setup s))
        (stage (initramfs_setup env (lit im ''0123456789abcdef''))
        (stage (\<lambda>s. Some (ramfs_setup s))
        (stage (\<lambda>s. Some (mm_setup s))
        (stage (buddy_setup (raw_links b) (raw_pages b))
        (stage (\<lambda>s. Some (paging_setup s))
        (stage (balloc_setup (kernel_begin b) (kernel_end b))
        (stage (ints_setup im (msrs b))
        (Some (misc_setup info s2)))))))))))"

text \<open>\<open>main\<close> up to its last call, the idle loop.\<close>

definition main ::
    "image \<Rightarrow> 'a kernel_scheme world \<Rightarrow> boot_args \<Rightarrow> u64 \<Rightarrow> 'a kernel_scheme \<Rightarrow> 'a kernel_scheme result option" where
  "main im env b mb_info_phys s =
     stage (\<lambda>s. case thread_create (thread_entry_at im) (thread_exit_at im) (init_at im) 0 s of
                   Inl f \<Rightarrow> Some (Inl f)
                 | Inr (thread, s1) \<Rightarrow>
                     if thread = 0 then
                       Option.bind (kprintf im (''failed to create init thread'' @ [NL]) [] s1) (\<lambda>r. Some (
                         and_then r (\<lambda>s2. Inl Hang)))
                     else Some (Inr (local_int_enable (thread_start thread s1))))
       (main_setup im env b mb_info_phys s)"

end
