(* ===== verification/Sched.thy ===== *)
theory Sched
  imports Sync
begin

text \<open>
  An abstract scheduler and the proof that the routines of \<open>threads.c\<close>, \<open>condition.c\<close> and \<open>mutex.c\<close>
  implement it. The abstract state has the running thread, the state of every thread, the ready
  queue, the waiters of every condition and mutex, and the owner of every mutex; its operations
  work on lists. \<open>sched_rel\<close> relates it to the link heap of the code, for a set of conditions and a set of
  mutexes that have been set up, and a number of preemption locks held. Under \<open>sched_rel\<close> every cast from a list node to the structure
  around it is right, so none of the routines is \<open>Wild\<close>.
\<close>

record sched =
  a_cur :: u64
  a_idle :: u64
  a_ready :: "u64 list"
  a_state :: "u64 \<Rightarrow> thread_state"
  a_wait :: "condition \<Rightarrow> u64 list"
  a_queue :: "nat \<Rightarrow> u64 list"
  a_owner :: "nat \<Rightarrow> u64"

subsection \<open>The abstract operations\<close>

definition a_wake :: "u64 \<Rightarrow> sched \<Rightarrow> sched" where
  "a_wake t a = a\<lparr>a_ready := a_ready a @ [t], a_state := (a_state a)(t := THREAD_ACTIVE)\<rparr>"

definition a_sleep :: "sched \<Rightarrow> sched" where
  "a_sleep a = a\<lparr>a_state := (a_state a)(a_cur a := THREAD_BLOCKED)\<rparr>"

definition a_notify :: "condition \<Rightarrow> sched \<Rightarrow> sched" where
  "a_notify c a =
     (case a_wait a c of [] \<Rightarrow> a | w # ws \<Rightarrow> a_wake w (a\<lparr>a_wait := (a_wait a)(c := ws)\<rparr>))"

definition a_notify_all :: "condition \<Rightarrow> sched \<Rightarrow> sched" where
  "a_notify_all c a = fold a_wake (a_wait a c) (a\<lparr>a_wait := (a_wait a)(c := [])\<rparr>)"

definition a_block :: "nat \<Rightarrow> sched \<Rightarrow> sched" where
  "a_block m a = a_sleep (a\<lparr>a_queue := (a_queue a)(m := a_queue a m @ [a_cur a])\<rparr>)"

definition a_release :: "nat \<Rightarrow> sched \<Rightarrow> sched" where
  "a_release m a =
     (case a_queue a m of
        [] \<Rightarrow> a\<lparr>a_owner := (a_owner a)(m := 0)\<rparr>
      | w # ws \<Rightarrow> a_wake w (a\<lparr>a_owner := (a_owner a)(m := w)\<rparr>))"

definition a_wait_on :: "condition \<Rightarrow> sched \<Rightarrow> sched" where
  "a_wait_on c a = a_sleep (a\<lparr>a_wait := (a_wait a)(c := a_wait a c @ [a_cur a])\<rparr>)"

text \<open>The thread that runs next, the queue it leaves, and the change of the running thread.\<close>

definition a_next :: "sched \<Rightarrow> u64" where
  "a_next a = (case a_ready a of t # _ \<Rightarrow> t | [] \<Rightarrow> if a_state a (a_cur a) = THREAD_ACTIVE then a_cur a else a_idle a)"

definition a_requeue :: "sched \<Rightarrow> sched" where
  "a_requeue a = a\<lparr>a_ready := tl (a_ready a) @
     (if a_ready a \<noteq> [] \<and> a_state a (a_cur a) = THREAD_ACTIVE \<and> a_cur a \<noteq> a_idle a then [a_cur a] else [])\<rparr>"

definition a_place :: "u64 \<Rightarrow> sched \<Rightarrow> sched" where
  "a_place me a =
     (let a1 = (if a_state a (a_cur a) = THREAD_FINISHED
                then a_notify (ThreadCv (a_cur a)) (a\<lparr>a_state := (a_state a)(a_cur a := THREAD_DEAD)\<rparr>)
                else a)
      in a1\<lparr>a_cur := me\<rparr>)"

subsection \<open>The relation\<close>

definition sched_keys :: "condition set \<Rightarrow> nat set \<Rightarrow> tnode set" where
  "sched_keys C M = insert Ready (CvHead ` C \<union> MtxHead ` M)"

fun sched_lists :: "sched \<Rightarrow> tnode \<Rightarrow> tnode list" where
  "sched_lists a Ready = map Thr (a_ready a)"
| "sched_lists a (CvHead c) = map CvWait (a_wait a c)"
| "sched_lists a (MtxHead m) = map MtxWait (a_queue a m)"
| "sched_lists a _ = []"

definition sched_rel :: "condition set \<Rightarrow> nat set \<Rightarrow> int \<Rightarrow> 'a threads_scheme \<Rightarrow> sched \<Rightarrow> bool" where
  "sched_rel C M p s a \<longleftrightarrow>
     dlists id (sched_keys C M) (thr_links s) (sched_lists a) \<and>
     current s = a_cur a \<and> idle s = a_idle a \<and> state_of s = a_state a \<and> mtx_owner s = a_owner a \<and>
     (\<forall>c\<in>C. \<forall>t\<in>set (a_wait a c). cv_wait_thread s t = t) \<and>
     (\<forall>m\<in>M. \<forall>t\<in>set (a_queue a m). mtx_wait_thread s t = t) \<and>
     preempt_count s = p"

lemma sched_lists_upd:
  "sched_lists (a\<lparr>a_ready := ts\<rparr>) = (sched_lists a)(Ready := map Thr ts)"
  "sched_lists (a\<lparr>a_wait := (a_wait a)(c := ts)\<rparr>) = (sched_lists a)(CvHead c := map CvWait ts)"
  "sched_lists (a\<lparr>a_queue := (a_queue a)(m := ts)\<rparr>) = (sched_lists a)(MtxHead m := map MtxWait ts)"
  "sched_lists (a\<lparr>a_state := f\<rparr>) = sched_lists a"
  "sched_lists (a\<lparr>a_owner := g\<rparr>) = sched_lists a"
  "sched_lists (a\<lparr>a_cur := u\<rparr>) = sched_lists a"
proof -
  show "sched_lists (a\<lparr>a_ready := ts\<rparr>) = (sched_lists a)(Ready := map Thr ts)"
    "sched_lists (a\<lparr>a_wait := (a_wait a)(c := ts)\<rparr>) = (sched_lists a)(CvHead c := map CvWait ts)"
    "sched_lists (a\<lparr>a_queue := (a_queue a)(m := ts)\<rparr>) = (sched_lists a)(MtxHead m := map MtxWait ts)"
    "sched_lists (a\<lparr>a_state := f\<rparr>) = sched_lists a"
    "sched_lists (a\<lparr>a_owner := g\<rparr>) = sched_lists a"
    "sched_lists (a\<lparr>a_cur := u\<rparr>) = sched_lists a"
    by (rule ext, rename_tac n, case_tac n; simp)+
qed

lemma sched_keys_simps [simp]:
  "Ready \<in> sched_keys C M"
  "CvHead c \<in> sched_keys C M \<longleftrightarrow> c \<in> C"
  "MtxHead m \<in> sched_keys C M \<longleftrightarrow> m \<in> M"
  "Thr t \<notin> sched_keys C M" "CvWait t \<notin> sched_keys C M" "MtxWait t \<notin> sched_keys C M"
  "Notified \<notin> sched_keys C M"
  by (auto simp: sched_keys_def)

lemma unlinked_nodes:
  "unlinked id (sched_keys C M) (sched_lists a) (Thr t) \<longleftrightarrow> t \<notin> set (a_ready a)"
  "unlinked id (sched_keys C M) (sched_lists a) (CvWait t) \<longleftrightarrow> (\<forall>c\<in>C. t \<notin> set (a_wait a c))"
  "unlinked id (sched_keys C M) (sched_lists a) (MtxWait t) \<longleftrightarrow> (\<forall>m\<in>M. t \<notin> set (a_queue a m))"
  by (auto simp: unlinked_def sched_keys_def ball_Un)

lemma inj_nodes [simp]: "inj Thr" "inj CvWait" "inj MtxWait"
  by (simp_all add: inj_on_def)

subsection \<open>Waking and blocking\<close>

lemma thread_start_eq:
  "thread_start t s =
     s\<lparr>thread_at := (thread_at s)(t := (thread_at s t)\<lparr>thr_state := THREAD_ACTIVE\<rparr>),
       thr_links := list_add_tail (Thr t) Ready (thr_links s)\<rparr>"
  by (cases "bit (rflags s) 9")
    (simp_all add: thread_start_def spin_lock_int_save_eq spin_unlock_int_restore_eq set_state_def
      upd_thread_def upd_thr_links_def if_bit mask_unmask and_not_if_idem)

lemma thread_block_eq:
  "thread_block s =
     s\<lparr>thread_at := (thread_at s)(current s := (thread_at s (current s))\<lparr>thr_state := THREAD_BLOCKED\<rparr>)\<rparr>"
  by (cases "bit (rflags s) 9")
    (simp_all add: thread_block_def spin_lock_int_save_eq spin_unlock_int_restore_eq set_state_def
      upd_thread_def if_bit mask_unmask and_not_if_idem Let_def)

lemma sched_rel_lock: "sched_rel C M p s a \<Longrightarrow> sched_rel C M (p + 1) (spin_lock () s) a"
  by (simp add: sched_rel_def spin_lock_def preempt_disable_eq state_of_def fun_eq_iff)

lemma sched_rel_unlock: "sched_rel C M (p + 1) s a \<Longrightarrow> sched_rel C M p (spin_unlock () s) a"
  by (simp add: sched_rel_def spin_unlock_def preempt_enable_eq state_of_def fun_eq_iff)

lemma sched_rel_wake:
  assumes r: "sched_rel C M p s a" and t: "t \<notin> set (a_ready a)"
  shows "sched_rel C M p (thread_wake t s) (a_wake t a)"
proof -
  have "dlists id (sched_keys C M) (thr_links s) (sched_lists a)" using r by (simp add: sched_rel_def)
  from dlists_add_tail [OF this, of Ready "Thr t"] t
  have "dlists id (sched_keys C M) (list_add_tail (Thr t) Ready (thr_links s))
      (sched_lists (a_wake t a))"
    by (simp add: unlinked_nodes a_wake_def sched_lists_upd)
  then show ?thesis
    using r by (simp add: sched_rel_def thread_wake_def thread_start_eq a_wake_def state_of_def fun_eq_iff)
qed

lemma sched_rel_sleep:
  assumes "sched_rel C M p s a"
  shows "sched_rel C M p (thread_block s) (a_sleep a)"
  using assms
  by (simp add: sched_rel_def thread_block_eq a_sleep_def sched_lists_upd state_of_def fun_eq_iff)

lemma sched_rel_lock_int:
  "spin_lock_int_save () s = (e, s1) \<Longrightarrow> sched_rel C M p s a \<Longrightarrow> sched_rel C M (p + 1) s1 a"
  by (auto simp: spin_lock_int_save_eq sched_rel_def state_of_def fun_eq_iff)

lemma sched_rel_unlock_int:
  "sched_rel C M (p + 1) s a \<Longrightarrow> sched_rel C M p (spin_unlock_int_restore () e s) a"
  by (simp add: spin_unlock_int_restore_eq sched_rel_def state_of_def fun_eq_iff)

lemma sched_rel_links:
  assumes "sched_rel C M p s a" and "dlists id (sched_keys C M) (f (thr_links s)) (sched_lists a')"
    and "a_cur a' = a_cur a" and "a_idle a' = a_idle a" and "a_state a' = a_state a" and "a_owner a' = a_owner a"
    and "\<And>c t. c \<in> C \<Longrightarrow> t \<in> set (a_wait a' c) \<Longrightarrow> cv_wait_thread s t = t"
    and "\<And>m t. m \<in> M \<Longrightarrow> t \<in> set (a_queue a' m) \<Longrightarrow> mtx_wait_thread s t = t"
  shows "sched_rel C M p (upd_thr_links f s) a'"
  using assms by (simp add: sched_rel_def upd_thr_links_def state_of_def fun_eq_iff)

lemma sched_rel_dlists:
  "sched_rel C M p s a \<Longrightarrow> dlists id (sched_keys C M) (thr_links s) (sched_lists a)"
  by (simp add: sched_rel_def)

lemma sched_rel_empty:
  assumes "sched_rel C M p s a" and "k \<in> sched_keys C M"
  shows "list_empty k (thr_links s) \<longleftrightarrow> sched_lists a k = []"
  using dlists_empty [OF sched_rel_dlists [OF assms(1)] assms(2)] by simp

lemma sched_rel_first:
  assumes "sched_rel C M p s a" and "k \<in> sched_keys C M" and "sched_lists a k = n # ns"
  shows "nxt (thr_links s) k = n"
  using dlists_first [OF sched_rel_dlists [OF assms(1)] assms(2)] assms(3) by simp

subsection \<open>Conditions\<close>

lemma sched_rel_notify:
  assumes r: "sched_rel C M p s a" and c: "c \<in> C"
    and apart: "set (a_wait a c) \<inter> set (a_ready a) = {}"
  shows "\<exists>s'. notify_one c s = Inr s' \<and> sched_rel C M p s' (a_notify c a)"
proof -
  obtain e s1 where l: "spin_lock_int_save () s = (e, s1)" by fastforce
  note r1 = sched_rel_lock_int [OF l r]
  show ?thesis
  proof (cases "a_wait a c")
    case Nil
    then have "list_empty (CvHead c) (thr_links s1)" using sched_rel_empty [OF r1] c by simp
    then show ?thesis using r1 Nil by (simp add: notify_one_def l a_notify_def sched_rel_unlock_int)
  next
    case (Cons w ws)
    then have k: "sched_lists a (CvHead c) = CvWait w # map CvWait ws" by simp
    have ne: "\<not> list_empty (CvHead c) (thr_links s1)" using sched_rel_empty [OF r1] c Cons by simp
    have first: "nxt (thr_links s1) (CvHead c) = CvWait w" using sched_rel_first [OF r1 _ k] c by simp
    let ?s2 = "upd_thr_links (list_del (CvWait w)) s1"
    let ?a2 = "a\<lparr>a_wait := (a_wait a)(c := ws)\<rparr>"
    have "dlists id (sched_keys C M) (list_del (CvWait w) (thr_links s1)) (sched_lists ?a2)"
      using dlists_del [OF sched_rel_dlists [OF r1], of "CvHead c" "CvWait w"] c Cons
      by (simp add: sched_lists_upd)
    then have r2: "sched_rel C M (p + 1) ?s2 ?a2"
    proof (rule sched_rel_links [OF r1])
      fix c' t assume "c' \<in> C" and "t \<in> set (a_wait ?a2 c')"
      then show "cv_wait_thread s1 t = t" using r1 Cons by (auto simp: sched_rel_def split: if_splits)
    next
      fix m t assume "m \<in> M" and "t \<in> set (a_queue ?a2 m)"
      then show "mtx_wait_thread s1 t = t" using r1 by (auto simp: sched_rel_def)
    qed simp_all
    have w: "cv_wait_thread ?s2 w = w" using r1 c Cons by (auto simp: sched_rel_def upd_thr_links_def)
    have "w \<notin> set (a_ready ?a2)" using apart Cons by auto
    from sched_rel_wake [OF r2 this] show ?thesis
      using Cons by (simp add: notify_one_def l ne first node_waiter_def w a_notify_def sched_rel_unlock_int)
  qed
qed

text \<open>
  The loop of \<open>notify_all\<close> walks the local list, whose links the calls of \<open>thread_wake\<close> leave alone.
\<close>

lemma notify_loop_rel:
  assumes "sched_rel C M p s a" and "c \<in> C"
    and "dlist (thr_links s) Notified (map CvWait (us @ ws))"
    and "\<And>k. k \<in> sched_keys C M \<Longrightarrow> set (k # sched_lists a k) \<inter> set (Notified # map CvWait (us @ ws)) = {}"
    and "distinct ws" and "set ws \<inter> set (a_ready a) = {}"
    and "\<And>w. w \<in> set ws \<Longrightarrow> cv_wait_thread s w = w"
    and "ptr = hd (map CvWait ws @ [Notified])"
  shows "\<exists>s'. notify_loop ptr s = Some (Inr s') \<and> sched_rel C M p s' (fold a_wake ws a)"
  using assms
proof (induction ws arbitrary: us s a ptr)
  case Nil
  then show ?case by (simp add: notify_loop.simps)
next
  case (Cons w ws)
  let ?s = "thread_wake w s" and ?a = "a_wake w a"
  have w: "w \<notin> set (a_ready a)" using Cons.prems(6) by simp
  have r: "sched_rel C M p ?s ?a" using Cons.prems(1) w by (rule sched_rel_wake)
  let ?h = "thr_links s" and ?n = "map CvWait us" and ?m = "map CvWait ws"
  have d: "dlist ?h Notified (?n @ CvWait w # ?m)" using Cons.prems(3) by simp
  then have "lpath ?h (CvWait w) ?m Notified" by (simp add: dlist_def lpath_append)
  then have nx: "nxt ?h (CvWait w) = hd (?m @ [Notified])" by (rule lpath_first)
  have ready: "dlist ?h Ready (map Thr (a_ready a))"
    using dlists_dlist [OF sched_rel_dlists [OF Cons.prems(1)], of Ready] by simp
  have "prv ?h Ready = last (Ready # map Thr (a_ready a))" using ready by (rule dlist_prev)
  then have prev: "prv ?h Ready \<in> set (Ready # map Thr (a_ready a))"
    by (simp only: last_in_set list.distinct not_False_eq_True)
  have "dlist (thr_links ?s) Notified (map CvWait ((us @ [w]) @ ws)) =
      dlist ?h Notified (map CvWait ((us @ [w]) @ ws))"
    by (rule dlist_cong)
      (use prev in \<open>auto simp: thread_wake_def thread_start_eq list_add_tail_def link_writes\<close>)
  then have d': "dlist (thr_links ?s) Notified (map CvWait ((us @ [w]) @ ws))" using Cons.prems(3) by simp
  have "\<exists>s'. notify_loop (nxt ?h (CvWait w)) ?s = Some (Inr s') \<and> sched_rel C M p s' (fold a_wake ws ?a)"
  proof (rule Cons.IH [OF r Cons.prems(2) d'])
    fix k assume k: "k \<in> sched_keys C M"
    show "set (k # sched_lists ?a k) \<inter> set (Notified # map CvWait ((us @ [w]) @ ws)) = {}"
      using Cons.prems(4) [OF k] by (cases k) (auto simp: a_wake_def)
  next
    show "set ws \<inter> set (a_ready ?a) = {}" using Cons.prems(5,6) by (auto simp: a_wake_def)
  next
    fix v assume "v \<in> set ws"
    then show "cv_wait_thread ?s v = v"
      using Cons.prems(7) [of v] by (simp add: thread_wake_def thread_start_eq)
  qed (use Cons.prems(5) nx in auto)
  moreover have "notify_loop ptr s = notify_loop (nxt ?h (CvWait w)) ?s"
    using Cons.prems(7) [of w] Cons.prems(8) by (simp add: notify_loop.simps [of "CvWait w"] node_waiter_def)
  ultimately show ?case by simp
qed

lemma sched_rel_notify_all:
  assumes r: "sched_rel C M p s a" and c: "c \<in> C"
    and apart: "set (a_wait a c) \<inter> set (a_ready a) = {}"
  shows "\<exists>s'. notify_all c s = Some (Inr s') \<and> sched_rel C M p s' (a_notify_all c a)"
proof -
  obtain e s1 where l: "spin_lock_int_save () s = (e, s1)" by fastforce
  note r1 = sched_rel_lock_int [OF l r]
  let ?K = "insert Notified (sched_keys C M)" and ?ws = "a_wait a c"
  let ?a = "a\<lparr>a_wait := (a_wait a)(c := [])\<rparr>"
  let ?L = "(sched_lists ?a)(Notified := map CvWait ?ws)"
  let ?s2 = "upd_thr_links (list_init Notified) s1"
  let ?s3 = "upd_thr_links (list_splice (CvHead c) Notified) ?s2"
  let ?s4 = "spin_unlock_int_restore () e ?s3"
  have "dlists id ?K (list_init (id Notified) (thr_links s1)) ((sched_lists a)(Notified := []))"
    by (rule dlists_init [OF sched_rel_dlists [OF r1]]) (auto simp: sched_keys_def)
  then have "dlists id ?K (thr_links ?s2) ((sched_lists a)(Notified := []))" by (simp add: upd_thr_links_def)
  from dlists_splice [OF this, of "CvHead c" Notified]
  have f: "dlists id ?K (thr_links ?s3) ?L"
    using c by (simp add: upd_thr_links_def sched_lists_upd fun_upd_twist)
  then have f4: "dlists id ?K (thr_links ?s4) ?L" by (simp add: spin_unlock_int_restore_eq)
  then have sub: "dlists id (sched_keys C M) (thr_links ?s4) ?L" by (auto simp: dlists_def)
  have same: "?L k = sched_lists ?a k" if "k \<in> sched_keys C M" for k using that by auto
  then have keys: "dlists id (sched_keys C M) (thr_links ?s3) (sched_lists ?a)"
    using f by (auto simp: dlists_def)
  have r3: "sched_rel C M (p + 1) ?s3 ?a"
    using r1 keys by (auto simp: sched_rel_def upd_thr_links_def state_of_def fun_eq_iff)
  have r4: "sched_rel C M p ?s4 ?a" using r3 by (rule sched_rel_unlock_int)
  have d: "dlist (thr_links ?s4) Notified (map CvWait ([] @ ?ws))"
    using dlists_dlist [OF f4, of Notified] by simp
  have hd: "nxt (thr_links ?s4) Notified = hd (map CvWait ?ws @ [Notified])"
    using dlist_next [OF d] by simp
  have "\<exists>s'. notify_loop (nxt (thr_links ?s4) Notified) ?s4 = Some (Inr s') \<and>
      sched_rel C M p s' (fold a_wake ?ws ?a)"
  proof (rule notify_loop_rel [OF r4 c d _ _ _ _ hd])
    fix k assume k: "k \<in> sched_keys C M"
    then have "k \<noteq> Notified" by auto
    then show "set (k # sched_lists ?a k) \<inter> set (Notified # map CvWait ([] @ ?ws)) = {}"
      using dlists_disjoint [OF f4, of k Notified] k same [OF k] by simp
  next
    have "distinct (map CvWait ?ws)" using dlists_distinct [OF sched_rel_dlists [OF r], of "CvHead c"] c by simp
    then show "distinct ?ws" by (simp add: distinct_map)
  next
    show "set ?ws \<inter> set (a_ready ?a) = {}" using apart by simp
  next
    fix w assume "w \<in> set ?ws"
    then show "cv_wait_thread ?s4 w = w"
      using r1 c by (auto simp: sched_rel_def upd_thr_links_def spin_unlock_int_restore_eq)
  qed
  then show ?thesis by (simp add: notify_all_def l a_notify_all_def Let_def)
qed

subsection \<open>Mutexes\<close>

lemma sched_rel_try:
  assumes r: "sched_rel C M p s a"
  shows "a_owner a m = 0 \<Longrightarrow> \<exists>s'. mutex_try m s = (True, s') \<and>
      sched_rel C M p s' (a\<lparr>a_owner := (a_owner a)(m := a_cur a)\<rparr>)"
    and "a_owner a m \<noteq> 0 \<Longrightarrow> \<exists>s'. mutex_try m s = (False, s') \<and> sched_rel C M (p + 1) s' a"
proof -
  note r1 = sched_rel_lock [OF r]
  have o: "mtx_owner (spin_lock () s) = a_owner a" "current s = a_cur a"
    using r1 r by (simp_all add: sched_rel_def)
  show "\<exists>s'. mutex_try m s = (False, s') \<and> sched_rel C M (p + 1) s' a" if "a_owner a m \<noteq> 0"
    using r1 o that by (simp add: mutex_try_def thread_current_def Let_def)
  let ?s1 = "(spin_lock () s)\<lparr>mtx_owner := (a_owner a)(m := a_cur a)\<rparr>"
  have "sched_rel C M (p + 1) ?s1 (a\<lparr>a_owner := (a_owner a)(m := a_cur a)\<rparr>)"
    using r1 by (simp add: sched_rel_def sched_lists_upd state_of_def fun_eq_iff)
  then show "\<exists>s'. mutex_try m s = (True, s') \<and>
      sched_rel C M p s' (a\<lparr>a_owner := (a_owner a)(m := a_cur a)\<rparr>)" if "a_owner a m = 0"
    using o that by (simp add: mutex_try_def thread_current_def Let_def sched_rel_unlock)
qed

lemma sched_rel_block:
  assumes r: "sched_rel C M (p + 1) s a" and m: "m \<in> M"
    and free: "\<And>k. k \<in> M \<Longrightarrow> a_cur a \<notin> set (a_queue a k)"
  shows "sched_rel C M p (mutex_block m (a_cur a) s) (a_block m a)"
proof -
  let ?me = "a_cur a"
  let ?s1 = "s\<lparr>mtx_wait_thread := (mtx_wait_thread s)(?me := ?me)\<rparr>"
  let ?a2 = "a\<lparr>a_queue := (a_queue a)(m := a_queue a m @ [?me])\<rparr>"
  have r1: "sched_rel C M (p + 1) ?s1 a" using r free by (simp add: sched_rel_def state_of_def fun_eq_iff)
  have "dlists id (sched_keys C M) (list_add_tail (MtxWait ?me) (MtxHead m) (thr_links ?s1)) (sched_lists ?a2)"
    using dlists_add_tail [OF sched_rel_dlists [OF r1], of "MtxHead m" "MtxWait ?me"] m free
    by (simp add: unlinked_nodes sched_lists_upd)
  then have "sched_rel C M (p + 1) (upd_thr_links (list_add_tail (MtxWait ?me) (MtxHead m)) ?s1) ?a2"
  proof (rule sched_rel_links [OF r1])
    fix k t assume "k \<in> M" and "t \<in> set (a_queue ?a2 k)"
    then show "mtx_wait_thread ?s1 t = t" using r by (auto simp: sched_rel_def split: if_splits)
  qed (use r in \<open>auto simp: sched_rel_def\<close>)
  from sched_rel_sleep [OF this] show ?thesis
    by (simp add: mutex_block_def Let_def sched_rel_unlock a_block_def)
qed

lemma sched_rel_retry:
  assumes r: "sched_rel C M p s a" and m: "m \<in> M" and t: "t \<in> set (a_queue a m)"
  shows "sched_rel C M (p + 1) (mutex_retry t s) (a\<lparr>a_queue := (a_queue a)(m := remove1 t (a_queue a m))\<rparr>)"
proof -
  note r1 = sched_rel_lock [OF r]
  let ?a = "a\<lparr>a_queue := (a_queue a)(m := remove1 t (a_queue a m))\<rparr>"
  have "dlists id (sched_keys C M) (list_del (MtxWait t) (thr_links (spin_lock () s))) (sched_lists ?a)"
    using dlists_del [OF sched_rel_dlists [OF r1], of "MtxHead m" "MtxWait t"] m t
    by (simp add: sched_lists_upd inj_map_remove1)
  then have "sched_rel C M (p + 1) (upd_thr_links (list_del (MtxWait t)) (spin_lock () s)) ?a"
  proof (rule sched_rel_links [OF r1])
    fix k u assume "k \<in> M" and "u \<in> set (a_queue ?a k)"
    then show "mtx_wait_thread (spin_lock () s) u = u"
      using r1 set_remove1_subset [of t "a_queue a m"] by (auto simp: sched_rel_def split: if_splits)
  qed (use r1 in \<open>auto simp: sched_rel_def\<close>)
  then show ?thesis by (simp add: mutex_retry_def Let_def)
qed

lemma sched_rel_release:
  assumes r: "sched_rel C M p s a" and m: "m \<in> M"
    and apart: "set (a_queue a m) \<inter> set (a_ready a) = {}"
  shows "\<exists>s'. mutex_unlock m s = Inr s' \<and> sched_rel C M p s' (a_release m a)"
proof -
  note r1 = sched_rel_lock [OF r]
  let ?s1 = "spin_lock () s"
  have own: "mtx_owner ?s1 = a_owner a" using r1 by (simp add: sched_rel_def)
  have upd: "sched_rel C M (p + 1) (?s1\<lparr>mtx_owner := (a_owner a)(m := w)\<rparr>) (a\<lparr>a_owner := (a_owner a)(m := w)\<rparr>)"
    for w using r1 by (simp add: sched_rel_def sched_lists_upd state_of_def fun_eq_iff)
  show ?thesis
  proof (cases "a_queue a m")
    case Nil
    then have "list_empty (MtxHead m) (thr_links ?s1)" using sched_rel_empty [OF r1] m by simp
    then show ?thesis
      using sched_rel_unlock [OF upd [of 0]] Nil own by (simp add: mutex_unlock_def Let_def a_release_def)
  next
    case (Cons w ws)
    then have k: "sched_lists a (MtxHead m) = MtxWait w # map MtxWait ws" by simp
    have ne: "\<not> list_empty (MtxHead m) (thr_links ?s1)" using sched_rel_empty [OF r1] m Cons by simp
    have first: "nxt (thr_links ?s1) (MtxHead m) = MtxWait w" using sched_rel_first [OF r1 _ k] m by simp
    have w: "mtx_wait_thread ?s1 w = w" using r1 m Cons by (auto simp: sched_rel_def)
    have "w \<notin> set (a_ready (a\<lparr>a_owner := (a_owner a)(m := w)\<rparr>))" using apart Cons by auto
    from sched_rel_unlock [OF sched_rel_wake [OF upd this]] show ?thesis
      using Cons by (simp add: mutex_unlock_def Let_def ne first node_mutex_wait_def w own a_release_def)
  qed
qed

subsection \<open>Waiting\<close>

lemma sched_rel_wait_on:
  assumes r: "sched_rel C M p s a" and c: "c \<in> C"
    and free: "\<And>d. d \<in> C \<Longrightarrow> a_cur a \<notin> set (a_wait a d)"
  shows "sched_rel C M p (thread_block (upd_thr_links (list_add_tail (CvWait (a_cur a)) (CvHead c))
           (s\<lparr>cv_wait_thread := (cv_wait_thread s)(a_cur a := a_cur a)\<rparr>))) (a_wait_on c a)"
proof -
  let ?me = "a_cur a"
  let ?s1 = "s\<lparr>cv_wait_thread := (cv_wait_thread s)(?me := ?me)\<rparr>"
  let ?a2 = "a\<lparr>a_wait := (a_wait a)(c := a_wait a c @ [?me])\<rparr>"
  have r1: "sched_rel C M p ?s1 a" using r free by (simp add: sched_rel_def state_of_def fun_eq_iff)
  have "dlists id (sched_keys C M) (list_add_tail (CvWait ?me) (CvHead c) (thr_links ?s1)) (sched_lists ?a2)"
    using dlists_add_tail [OF sched_rel_dlists [OF r1], of "CvHead c" "CvWait ?me"] c free
    by (simp add: unlinked_nodes sched_lists_upd)
  then have "sched_rel C M p (upd_thr_links (list_add_tail (CvWait ?me) (CvHead c)) ?s1) ?a2"
  proof (rule sched_rel_links [OF r1])
    fix d t assume "d \<in> C" and "t \<in> set (a_wait ?a2 d)"
    then show "cv_wait_thread ?s1 t = t" using r by (auto simp: sched_rel_def split: if_splits)
  qed (use r in \<open>auto simp: sched_rel_def\<close>)
  from sched_rel_sleep [OF this] show ?thesis by (simp add: a_wait_on_def)
qed

lemma sched_rel_wait_mutex:
  assumes r: "sched_rel C M p s a" and c: "c \<in> C" and m: "m \<in> M"
    and free: "\<And>d. d \<in> C \<Longrightarrow> a_cur a \<notin> set (a_wait a d)"
    and apart: "set (a_queue a m) \<inter> set (a_ready a) = {}"
  shows "\<exists>s'. wait_begin c (GMutex m) s = Inr s' \<and> sched_rel C M p s' (a_release m (a_wait_on c a))"
proof -
  have cur: "current s = a_cur a" using r by (simp add: sched_rel_def)
  from sched_rel_wait_on [OF sched_rel_lock [OF r] c free]
  have w: "sched_rel C M (p + 1) (thread_block (upd_thr_links (list_add_tail (CvWait (a_cur a)) (CvHead c))
      ((spin_lock () s)\<lparr>cv_wait_thread := (cv_wait_thread (spin_lock () s))(a_cur a := a_cur a)\<rparr>)))
      (a_wait_on c a)" .
  have "set (a_queue (a_wait_on c a) m) \<inter> set (a_ready (a_wait_on c a)) = {}"
    using apart by (simp add: a_wait_on_def a_sleep_def)
  from sched_rel_release [OF w m this] show ?thesis
    by (auto simp: wait_begin_def thread_current_def cur Let_def generic_mutex_unlock_def
        intro: sched_rel_unlock)
qed

text \<open>With a spinlock held, the lock is the innermost preemption lock.\<close>

lemma sched_rel_wait_spin:
  assumes r: "sched_rel C M (p + 1) s a" and c: "c \<in> C" and l: "l = GSpin \<or> l = GSpinInt"
    and free: "\<And>d. d \<in> C \<Longrightarrow> a_cur a \<notin> set (a_wait a d)"
  shows "\<exists>s'. wait_begin c l s = Inr s' \<and> sched_rel C M p s' (a_wait_on c a)"
proof -
  have cur: "current s = a_cur a" using r by (simp add: sched_rel_def)
  from sched_rel_wait_on [OF sched_rel_lock [OF r] c free]
  have w: "sched_rel C M (p + 1 + 1) (thread_block (upd_thr_links (list_add_tail (CvWait (a_cur a)) (CvHead c))
      ((spin_lock () s)\<lparr>cv_wait_thread := (cv_wait_thread (spin_lock () s))(a_cur a := a_cur a)\<rparr>)))
      (a_wait_on c a)" .
  from l show ?thesis
  proof
    assume "l = GSpin"
    then show ?thesis
      using sched_rel_unlock [OF sched_rel_unlock [OF w]]
      by (simp add: wait_begin_def thread_current_def cur Let_def generic_spin_unlock_def)
  next
    assume "l = GSpinInt"
    then show ?thesis
      using sched_rel_unlock [OF sched_rel_unlock_int [OF w]]
      by (simp add: wait_begin_def thread_current_def cur Let_def generic_spin_unlock_int_def)
  qed
qed

subsection \<open>The scheduler\<close>

lemma sched_rel_state:
  "sched_rel C M p s a \<Longrightarrow>
   sched_rel C M p (set_state t x s) (a\<lparr>a_state := (a_state a)(t := x)\<rparr>)"
  by (simp add: sched_rel_def set_state_def upd_thread_def sched_lists_upd state_of_def fun_eq_iff)

lemma sched_rel_current:
  "sched_rel C M p s a \<Longrightarrow>
   sched_rel C M p (cr3_write z (s\<lparr>current := me, remained_time := n, the_tss := x\<rparr>)) (a\<lparr>a_cur := me\<rparr>)"
  by (simp add: sched_rel_def sched_lists_upd cr3_write_def state_of_def fun_eq_iff)

lemma sched_rel_place:
  assumes r: "sched_rel C M p s a"
    and fin: "a_state a (a_cur a) = THREAD_FINISHED \<Longrightarrow>
      ThreadCv (a_cur a) \<in> C \<and> set (a_wait a (ThreadCv (a_cur a))) \<inter> set (a_ready a) = {}"
  shows "\<exists>s'. thread_place me s = Inr s' \<and> sched_rel C M p s' (a_place me a)"
proof -
  note r1 = sched_rel_lock [OF r]
  let ?s1 = "spin_lock () s"
  have cur: "current ?s1 = a_cur a" and st: "state_of ?s1 = a_state a" using r1 by (simp_all add: sched_rel_def)
  let ?a1 = "if a_state a (a_cur a) = THREAD_FINISHED
      then a_notify (ThreadCv (a_cur a)) (a\<lparr>a_state := (a_state a)(a_cur a := THREAD_DEAD)\<rparr>) else a"
  have "\<exists>s2. (if state_of ?s1 (current ?s1) = THREAD_FINISHED
      then notify_one (ThreadCv (current ?s1)) (set_state (current ?s1) THREAD_DEAD ?s1) else Inr ?s1) = Inr s2 \<and>
      sched_rel C M (p + 1) s2 ?a1"
  proof (cases "a_state a (a_cur a) = THREAD_FINISHED")
    case True
    let ?d = "a\<lparr>a_state := (a_state a)(a_cur a := THREAD_DEAD)\<rparr>"
    have "set (a_wait ?d (ThreadCv (a_cur a))) \<inter> set (a_ready ?d) = {}" using fin [OF True] by simp
    from sched_rel_notify [OF sched_rel_state [OF r1] _ this] fin [OF True] show ?thesis
      using True by (simp add: cur st)
  next
    case False
    then show ?thesis using r1 by (simp add: cur st)
  qed
  then obtain s2 where s2: "(if state_of ?s1 (current ?s1) = THREAD_FINISHED
      then notify_one (ThreadCv (current ?s1)) (set_state (current ?s1) THREAD_DEAD ?s1) else Inr ?s1) = Inr s2"
    and r2: "sched_rel C M (p + 1) s2 ?a1" by blast
  have r3: "sched_rel C M p (spin_unlock () s2) ?a1" using r2 by (rule sched_rel_unlock)
  have "a_place me a = ?a1\<lparr>a_cur := me\<rparr>" by (simp add: a_place_def Let_def)
  then show ?thesis using sched_rel_current [OF r3] by (simp add: thread_place_def Let_def s2)
qed

lemma sched_rel_pick:
  assumes r: "sched_rel C M p s a"
  shows "\<exists>s'. pick_next s = Inr (case a_ready a of [] \<Rightarrow> 0 | t # _ \<Rightarrow> t, s') \<and>
    sched_rel C M p s' (a\<lparr>a_ready := tl (a_ready a)\<rparr>)"
proof -
  note r1 = sched_rel_lock [OF r]
  let ?s1 = "spin_lock () s"
  show ?thesis
  proof (cases "a_ready a")
    case Nil
    then have "list_empty Ready (thr_links ?s1)" using sched_rel_empty [OF r1] by simp
    moreover have eq: "a\<lparr>a_ready := []\<rparr> = a" using Nil by simp
    have "sched_rel C M p (spin_unlock () ?s1) (a\<lparr>a_ready := []\<rparr>)"
      unfolding eq by (rule sched_rel_unlock [OF r1])
    ultimately show ?thesis using Nil by (simp add: pick_next_def Let_def)
  next
    case (Cons t ts)
    then have k: "sched_lists a Ready = Thr t # map Thr ts" by simp
    have ne: "\<not> list_empty Ready (thr_links ?s1)" using sched_rel_empty [OF r1] Cons by simp
    have first: "nxt (thr_links ?s1) Ready = Thr t" using sched_rel_first [OF r1 _ k] by simp
    let ?a = "a\<lparr>a_ready := ts\<rparr>"
    have "dlists id (sched_keys C M) (list_del (Thr t) (thr_links ?s1)) (sched_lists ?a)"
      using dlists_del [OF sched_rel_dlists [OF r1], of Ready "Thr t"] Cons by (simp add: sched_lists_upd)
    then have "sched_rel C M (p + 1) (upd_thr_links (list_del (Thr t)) ?s1) ?a"
      by (rule sched_rel_links [OF r1]) (use r1 in \<open>auto simp: sched_rel_def\<close>)
    from sched_rel_unlock [OF this] show ?thesis
      using Cons by (simp add: pick_next_def Let_def ne first node_thread_def)
  qed
qed

lemma sched_rel_int_save:
  "local_int_save s = (e, s1) \<Longrightarrow> sched_rel C M p s a \<Longrightarrow> sched_rel C M p s1 a"
  by (auto simp: local_int_save_def local_int_disable_def sched_rel_def state_of_def fun_eq_iff Let_def)

lemma sched_rel_int_restore:
  "sched_rel C M p s a \<Longrightarrow> sched_rel C M p (local_int_restore e s) a"
  by (simp add: local_int_restore_def local_int_enable_def sched_rel_def state_of_def fun_eq_iff)

lemma sched_rel_int_enable: "sched_rel C M p s a \<Longrightarrow> sched_rel C M p (local_int_enable s) a"
  by (simp add: local_int_enable_def sched_rel_def state_of_def fun_eq_iff)

text \<open>What the scheduler relies on: proper thread addresses, and a running thread that is not queued.\<close>

definition a_fit :: "condition set \<Rightarrow> sched \<Rightarrow> bool" where
  "a_fit C a \<longleftrightarrow> 0 \<notin> set (a_ready a) \<and> a_idle a \<noteq> 0 \<and> a_cur a \<notin> set (a_ready a) \<and>
     (a_state a (a_cur a) = THREAD_FINISHED \<longrightarrow>
        ThreadCv (a_cur a) \<in> C \<and> set (a_wait a (ThreadCv (a_cur a))) \<inter> insert (a_cur a) (set (a_ready a)) = {})"

lemma schedule_refines:
  assumes r: "sched_rel C M 0 s a" and fit: "a_fit C a"
  shows "\<exists>o' s'. schedule s = Inr (o', s') \<and>
    (if a_ready a = [] \<and> a_state a (a_cur a) = THREAD_ACTIVE
     then o' = Stay \<and> sched_rel C M 0 s' a
     else (\<exists>e. o' = SwitchTo (a_next a) e) \<and> sched_rel C M 0 s' (a_requeue a))"
proof -
  obtain e s1 where e: "local_int_save s = (e, s1)" by fastforce
  note r1 = sched_rel_int_save [OF e r]
  have cur: "current s = a_cur a" "preempt_count s1 = 0" using r r1 by (simp_all add: sched_rel_def)
  let ?n = "case a_ready a of [] \<Rightarrow> 0 | t # _ \<Rightarrow> t" and ?a2 = "a\<lparr>a_ready := tl (a_ready a)\<rparr>"
  obtain s2 where pick: "pick_next s1 = Inr (?n, s2)" and r2: "sched_rel C M 0 s2 ?a2"
    using sched_rel_pick [OF r1] by blast
  have f2: "state_of s2 = a_state a" "idle s2 = a_idle a" using r2 by (simp_all add: sched_rel_def)
  have n0: "?n = 0 \<longleftrightarrow> a_ready a = []" using fit by (auto simp: a_fit_def split: list.splits)
  show ?thesis
  proof (cases "a_ready a = [] \<and> a_state a (a_cur a) = THREAD_ACTIVE")
    case True
    have same: "?a2 = a" using True by simp
    have pl: "a_place (a_cur a) a = a" using True by (simp add: a_place_def)
    obtain s3 where "thread_place (a_cur a) s2 = Inr s3" "sched_rel C M 0 s3 a"
      using sched_rel_place [OF r2 [unfolded same], of "a_cur a"] True pl by auto
    then show ?thesis
      using True by (simp add: schedule_def Let_def e cur pick f2 sched_rel_int_restore)
  next
    case False
    let ?next = "if state_of s2 (a_cur a) \<noteq> THREAD_ACTIVE \<and> ?n = 0 then idle s2 else ?n"
    have nx: "?next = a_next a" "?next \<noteq> 0"
      using False n0 fit by (auto simp: f2 a_next_def a_fit_def split: list.splits)
    note r3 = sched_rel_lock [OF r2]
    let ?s3 = "spin_lock () s2"
    have f3: "state_of ?s3 = a_state a" "idle ?s3 = a_idle a" using r3 by (simp_all add: sched_rel_def)
    let ?s4 = "if state_of ?s3 (a_cur a) = THREAD_ACTIVE \<and> a_cur a \<noteq> idle ?s3
      then upd_thr_links (list_add_tail (Thr (a_cur a)) Ready) ?s3 else ?s3"
    have "sched_rel C M (0 + 1) ?s4 (a_requeue a)"
    proof (cases "a_state a (a_cur a) = THREAD_ACTIVE \<and> a_cur a \<noteq> a_idle a")
      case True
      have rq: "a_requeue a = ?a2\<lparr>a_ready := a_ready ?a2 @ [a_cur a]\<rparr>"
        using True False by (simp add: a_requeue_def)
      have "a_cur a \<notin> set (a_ready ?a2)" using fit by (cases "a_ready a") (auto simp: a_fit_def)
      then have un: "unlinked id (sched_keys C M) (sched_lists ?a2) (Thr (a_cur a))" by (rule unlinked_nodes(1) [THEN iffD2])
      then have "dlists id (sched_keys C M) (list_add_tail (Thr (a_cur a)) Ready (thr_links ?s3)) (sched_lists (a_requeue a))"
        using dlists_add_tail [OF sched_rel_dlists [OF r3], of Ready "Thr (a_cur a)"]
        unfolding rq by (simp add: sched_lists_upd)
      then have "sched_rel C M (0 + 1) (upd_thr_links (list_add_tail (Thr (a_cur a)) Ready) ?s3) (a_requeue a)"
        by (rule sched_rel_links [OF r3]) (use r3 rq in \<open>auto simp: sched_rel_def\<close>)
      then show ?thesis using True by (simp add: f3)
    next
      case no: False
      have "a_requeue a = ?a2" using no by (auto simp: a_requeue_def)
      then show ?thesis using r3 no by (auto simp: f3)
    qed
    then have r4: "sched_rel C M 0 (spin_unlock () ?s4) (a_requeue a)" by (rule sched_rel_unlock)
    have "schedule s = Inr (SwitchTo (a_next a) e, spin_unlock () ?s4)"
      using nx by (simp add: schedule_def Let_def e cur pick split del: if_split)
    then show ?thesis unfolding if_not_P [OF False] using r4 by blast
  qed
qed

text \<open>The whole switch: the next thread goes on, after its own \<open>thread_place\<close>.\<close>

definition a_switch :: "sched \<Rightarrow> sched" where
  "a_switch a = a_place (a_next a) (a_requeue a)"

lemma resume_refines:
  assumes r: "sched_rel C M 0 s (a_requeue a)" and fit: "a_fit C a"
  shows "\<exists>s'. schedule_resume (a_next a) e s = Inr s' \<and> sched_rel C M 0 s' (a_switch a)"
    and "\<exists>s'. thread_entry (a_next a) s = Inr s' \<and> sched_rel C M 0 s' (a_switch a)"
proof -
  have "set (a_ready (a_requeue a)) \<subseteq> insert (a_cur a) (set (a_ready a))"
    by (cases "a_ready a") (auto simp: a_requeue_def)
  moreover have "a_cur (a_requeue a) = a_cur a" "a_state (a_requeue a) = a_state a" "a_wait (a_requeue a) = a_wait a"
    by (simp_all add: a_requeue_def)
  ultimately have "\<exists>s'. thread_place (a_next a) s = Inr s' \<and> sched_rel C M 0 s' (a_switch a)"
    unfolding a_switch_def using sched_rel_place [OF r] fit by (fastforce simp: a_fit_def)
  then show "\<exists>s'. schedule_resume (a_next a) e s = Inr s' \<and> sched_rel C M 0 s' (a_switch a)"
    and "\<exists>s'. thread_entry (a_next a) s = Inr s' \<and> sched_rel C M 0 s' (a_switch a)"
    by (auto simp: schedule_resume_def thread_entry_def intro: sched_rel_int_restore sched_rel_int_enable)
qed

text \<open>The end of a thread: the state in which \<open>thread_exit\<close> calls \<open>schedule\<close>.\<close>

definition a_exit :: "sched \<Rightarrow> sched" where
  "a_exit a = a\<lparr>a_state := (a_state a)(a_cur a := THREAD_FINISHED)\<rparr>"

lemma exit_refines:
  assumes r: "sched_rel C M 0 s a" and fit: "a_fit C (a_exit a)"
  shows "\<exists>e s'. thread_exit ret s = Inr (SwitchTo (a_next (a_exit a)) e, s') \<and>
    sched_rel C M 0 s' (a_requeue (a_exit a))"
proof -
  obtain e s1 where l: "spin_lock_int_save () s = (e, s1)" by fastforce
  note r1 = sched_rel_lock_int [OF l r]
  have cur: "current s = a_cur a" using r by (simp add: sched_rel_def)
  let ?s2 = "upd_thread (a_cur a) (\<lambda>th. th\<lparr>retval := ret\<rparr>) s1"
  have "sched_rel C M (0 + 1) ?s2 a"
    using r1 by (simp add: sched_rel_def upd_thread_def state_of_def fun_eq_iff)
  from sched_rel_unlock_int [OF sched_rel_state [OF this]]
  have "sched_rel C M 0 (spin_unlock_int_restore () e (set_state (a_cur a) THREAD_FINISHED ?s2)) (a_exit a)"
    by (simp add: a_exit_def)
  from schedule_refines [OF this fit] show ?thesis
    by (auto simp: thread_exit_def Let_def l cur a_exit_def)
qed

end
