(* ===== verification/Thread_System.thy ===== *)
theory Thread_System
  imports Sched
begin

text \<open>
  All threads of the kernel together: an interleaving of the routines of \<open>threads.c\<close>, \<open>mutex.c\<close> and
  \<open>condition.c\<close> on one processor. A configuration has the state of the kernel and, for every thread, where
  it stands in its code, the mutexes it has locked, and the interrupt flag saved in its call of
  \<open>schedule\<close>. A step is one part of a routine between two points where the thread can be preempted: the
  code in between runs with preemption disabled. The timer may call \<open>schedule\<close> at every such point.

  A thread is at \<open>Run\<close> between two calls; at \<open>Sleep m\<close> in \<open>mutex_lock\<close> right before and at \<open>Retry m\<close>
  right after its call of \<open>schedule\<close>; at \<open>CvSleep c m\<close> and \<open>Woken c m\<close> at the same places of \<open>__wait\<close>;
  at \<open>Fresh\<close> when it was started and never ran, and at \<open>Gone\<close> after its \<open>thread_exit\<close>.
\<close>

datatype place = Absent | Fresh | Run | Sleep nat | Retry nat | CvSleep condition nat | Woken condition nat | Gone

record system =
  st :: threads
  pc :: "u64 \<Rightarrow> place"
  held :: "u64 \<Rightarrow> nat set"
  saved :: "u64 \<Rightarrow> u64"

text \<open>A call that reached a switch: the next thread goes on where it stood.\<close>

inductive dispatch :: "system \<Rightarrow> place \<Rightarrow> (outcome \<times> threads) result \<Rightarrow> system \<Rightarrow> bool" where
  stay: "dispatch x p (Inr (Stay, s)) (x\<lparr>st := s, pc := (pc x)(current (st x) := p)\<rparr>)"
| switch: "(if pc x n = Fresh then thread_entry n s1 else schedule_resume n (saved x n) s1) = Inr s2 \<Longrightarrow>
    pc1 = (pc x)(current (st x) := p) \<Longrightarrow>
    dispatch x p (Inr (SwitchTo n e, s1))
      (x\<lparr>st := s2, pc := (if pc x n = Fresh then pc1(n := Run) else pc1),
         saved := (saved x)(current (st x) := e)\<rparr>)"

inductive kstep :: "condition set \<Rightarrow> nat set \<Rightarrow> system \<Rightarrow> system \<Rightarrow> bool" for C M x where
  take: "pc x me = Run \<or> pc x me = Woken c m \<Longrightarrow> me = current (st x) \<Longrightarrow> m \<in> M \<Longrightarrow>
    mutex_try m (st x) = (True, s) \<Longrightarrow>
    kstep C M x (x\<lparr>st := s, pc := (pc x)(me := Run), held := (held x)(me := insert m (held x me))\<rparr>)"
| again: "pc x me = Run \<or> pc x me = Woken c m \<Longrightarrow> me = current (st x) \<Longrightarrow> m \<in> M \<Longrightarrow>
    mutex_try m (st x) = (False, s) \<Longrightarrow> mtx_owner s m = me \<Longrightarrow>
    kstep C M x (x\<lparr>st := spin_unlock () s, pc := (pc x)(me := Run)\<rparr>)"
| block: "pc x me = Run \<or> pc x me = Woken c m \<Longrightarrow> me = current (st x) \<Longrightarrow> me \<noteq> idle (st x) \<Longrightarrow> m \<in> M \<Longrightarrow>
    mutex_try m (st x) = (False, s) \<Longrightarrow> mtx_owner s m \<noteq> me \<Longrightarrow>
    kstep C M x (x\<lparr>st := mutex_block m me s, pc := (pc x)(me := Sleep m)\<rparr>)"
| won: "pc x me = Retry m \<Longrightarrow> me = current (st x) \<Longrightarrow> s = mutex_retry me (st x) \<Longrightarrow> mtx_owner s m = me \<Longrightarrow>
    kstep C M x (x\<lparr>st := spin_unlock () s, pc := (pc x)(me := Run), held := (held x)(me := insert m (held x me))\<rparr>)"
| lost: "pc x me = Retry m \<Longrightarrow> me = current (st x) \<Longrightarrow> s = mutex_retry me (st x) \<Longrightarrow> mtx_owner s m \<noteq> me \<Longrightarrow>
    kstep C M x (x\<lparr>st := mutex_block m me s, pc := (pc x)(me := Sleep m)\<rparr>)"
| unlock: "pc x me = Run \<Longrightarrow> me = current (st x) \<Longrightarrow> m \<in> held x me \<Longrightarrow> mutex_unlock m (st x) = Inr s \<Longrightarrow>
    kstep C M x (x\<lparr>st := s, held := (held x)(me := held x me - {m})\<rparr>)"
| wait: "pc x me = Run \<Longrightarrow> me = current (st x) \<Longrightarrow> me \<noteq> idle (st x) \<Longrightarrow> m \<in> held x me \<Longrightarrow> c \<in> C \<Longrightarrow>
    wait_begin c (GMutex m) (st x) = Inr s \<Longrightarrow>
    kstep C M x (x\<lparr>st := s, pc := (pc x)(me := CvSleep c m), held := (held x)(me := held x me - {m})\<rparr>)"
| notify: "pc x me = Run \<Longrightarrow> me = current (st x) \<Longrightarrow> c \<in> C \<Longrightarrow> notify_one c (st x) = Inr s \<Longrightarrow>
    kstep C M x (x\<lparr>st := s\<rparr>)"
| broadcast: "pc x me = Run \<Longrightarrow> me = current (st x) \<Longrightarrow> c \<in> C \<Longrightarrow> notify_all c (st x) = Some (Inr s) \<Longrightarrow>
    kstep C M x (x\<lparr>st := s\<rparr>)"
| start: "pc x (current (st x)) = Run \<Longrightarrow> pc x t = Absent \<Longrightarrow> t \<noteq> 0 \<Longrightarrow> ThreadCv t \<in> C \<Longrightarrow>
    kstep C M x (x\<lparr>st := thread_start t (st x), pc := (pc x)(t := Fresh)\<rparr>)"
| sleep: "pc x me = Sleep m \<Longrightarrow> me = current (st x) \<Longrightarrow> dispatch x (Retry m) (schedule (st x)) y \<Longrightarrow> kstep C M x y"
| cv_sleep: "pc x me = CvSleep c m \<Longrightarrow> me = current (st x) \<Longrightarrow> dispatch x (Woken c m) (schedule (st x)) y \<Longrightarrow> kstep C M x y"
| preempt: "me = current (st x) \<Longrightarrow> dispatch x (pc x me) (schedule (st x)) y \<Longrightarrow> kstep C M x y"
| exit: "pc x me = Run \<Longrightarrow> me = current (st x) \<Longrightarrow> me \<noteq> idle (st x) \<Longrightarrow>
    dispatch x Gone (thread_exit ret (st x)) y \<Longrightarrow> kstep C M x y"

inductive_cases kstepE: "kstep C M x y"
inductive_simps dispatch_simps: "dispatch x p (Inr (Stay, s)) y" "dispatch x p (Inr (SwitchTo n e, s)) y"

subsection \<open>The invariant\<close>

definition place_ok :: "condition set \<Rightarrow> nat set \<Rightarrow> sched \<Rightarrow> (u64 \<Rightarrow> place) \<Rightarrow> u64 \<Rightarrow> bool" where
  "place_ok C M a pl t =
     (case pl t of
        Absent \<Rightarrow> t \<noteq> a_cur a
      | Fresh \<Rightarrow> t \<noteq> a_cur a \<and> a_state a t = THREAD_ACTIVE
      | Run \<Rightarrow> a_state a t = THREAD_ACTIVE
      | Sleep m \<Rightarrow> m \<in> M \<and> a_state a t = (if a_owner a m = t then THREAD_ACTIVE else THREAD_BLOCKED)
      | Retry m \<Rightarrow> m \<in> M \<and> a_state a t = (if a_owner a m = t then THREAD_ACTIVE else THREAD_BLOCKED) \<and>
          (t = a_cur a \<longrightarrow> a_owner a m = t)
      | CvSleep c m \<Rightarrow> c \<in> C \<and> m \<in> M \<and>
          a_state a t = (if t \<in> set (a_wait a c) then THREAD_BLOCKED else THREAD_ACTIVE)
      | Woken c m \<Rightarrow> c \<in> C \<and> m \<in> M \<and>
          a_state a t = (if t \<in> set (a_wait a c) then THREAD_BLOCKED else THREAD_ACTIVE) \<and>
          (t = a_cur a \<longrightarrow> t \<notin> set (a_wait a c))
      | Gone \<Rightarrow> t \<noteq> a_cur a \<and> a_state a t = THREAD_DEAD)"

definition queues_ok :: "condition set \<Rightarrow> nat set \<Rightarrow> sched \<Rightarrow> (u64 \<Rightarrow> place) \<Rightarrow> u64 \<Rightarrow> bool" where
  "queues_ok C M a pl t \<longleftrightarrow>
     (t \<in> set (a_ready a) \<longleftrightarrow>
        t \<noteq> a_cur a \<and> t \<noteq> a_idle a \<and> pl t \<noteq> Absent \<and> pl t \<noteq> Gone \<and> a_state a t = THREAD_ACTIVE) \<and>
     (\<forall>m\<in>M. t \<in> set (a_queue a m) \<longleftrightarrow> pl t = Sleep m \<or> pl t = Retry m) \<and>
     (\<forall>c\<in>C. t \<in> set (a_wait a c) \<longrightarrow> (\<exists>m. pl t = CvSleep c m \<or> pl t = Woken c m)) \<and>
     (pl t \<noteq> Absent \<longrightarrow> t \<noteq> a_idle a \<longrightarrow> ThreadCv t \<in> C)"

definition mutex_ok :: "sched \<Rightarrow> (u64 \<Rightarrow> nat set) \<Rightarrow> nat \<Rightarrow> bool" where
  "mutex_ok a hs m \<longleftrightarrow>
     (\<forall>t. m \<in> hs t \<longrightarrow> a_owner a m = t) \<and>
     (a_owner a m = 0 \<longrightarrow> a_queue a m = []) \<and>
     (a_owner a m \<noteq> 0 \<longrightarrow> m \<in> hs (a_owner a m) \<or> (\<exists>ws. a_queue a m = a_owner a m # ws))"

definition fine :: "condition set \<Rightarrow> nat set \<Rightarrow> sched \<Rightarrow> (u64 \<Rightarrow> place) \<Rightarrow> (u64 \<Rightarrow> nat set) \<Rightarrow> bool" where
  "fine C M a pl hs \<longleftrightarrow>
     (\<forall>t. place_ok C M a pl t) \<and> (\<forall>t. queues_ok C M a pl t) \<and> (\<forall>m\<in>M. mutex_ok a hs m) \<and>
     (\<forall>t. hs t \<subseteq> M) \<and> hs 0 = {} \<and> pl 0 = Absent \<and> a_idle a \<noteq> 0 \<and> pl (a_idle a) = Run"

definition apart :: "condition set \<Rightarrow> nat set \<Rightarrow> sched \<Rightarrow> bool" where
  "apart C M a \<longleftrightarrow> distinct (a_ready a) \<and> (\<forall>c\<in>C. distinct (a_wait a c)) \<and> (\<forall>m\<in>M. distinct (a_queue a m))"

definition sys_ok :: "condition set \<Rightarrow> nat set \<Rightarrow> system \<Rightarrow> bool" where
  "sys_ok C M x \<longleftrightarrow> (\<exists>a. sched_rel C M 0 (st x) a \<and> fine C M a (pc x) (held x))"

lemma sched_rel_apart:
  assumes "sched_rel C M p s a"
  shows "apart C M a"
proof -
  note d = dlists_distinct [OF sched_rel_dlists [OF assms]]
  show ?thesis
    using d [of Ready] d [of "CvHead _"] d [of "MtxHead _"] by (auto simp: apart_def distinct_map)
qed

subsection \<open>The invariant under the abstract operations\<close>

lemma fineD:
  assumes "fine C M a pl hs"
  shows "place_ok C M a pl t" and "queues_ok C M a pl t" and "m \<in> M \<Longrightarrow> mutex_ok a hs m"
    and "hs t \<subseteq> M" and "hs 0 = {}" and "pl 0 = Absent" and "a_idle a \<noteq> 0" and "pl (a_idle a) = Run"
  using assms by (auto simp: fine_def)

lemma mutex_ok_cong:
  assumes "a_owner b k = a_owner a k" and "a_queue b k = a_queue a k" and "\<And>t. k \<in> hs' t \<longleftrightarrow> k \<in> hs t"
  shows "mutex_ok b hs' k = mutex_ok a hs k"
  using assms by (simp add: mutex_ok_def)

text \<open>The running thread is a real one, and active unless it is about to sleep.\<close>

lemma fine_cur:
  assumes "fine C M a pl hs"
  shows "a_cur a \<noteq> 0" and "pl (a_cur a) \<notin> {Absent, Fresh, Gone}" and "a_cur a \<notin> set (a_ready a)"
    and "pl (a_cur a) = Run \<Longrightarrow> a_state a (a_cur a) = THREAD_ACTIVE"
    and "pl (a_cur a) = Woken c m \<Longrightarrow> a_state a (a_cur a) = THREAD_ACTIVE"
    and "0 \<notin> set (a_ready a)" and "a_state a (a_cur a) \<noteq> THREAD_FINISHED"
  using fineD(1,2) [OF assms, of "a_cur a"] fineD(6) [OF assms] fineD(2) [OF assms, of 0]
  by (auto simp: place_ok_def queues_ok_def split: place.splits if_splits)

lemma fine_take:
  assumes f: "fine C M a pl hs" and me: "me = a_cur a" and at: "pl me = Run \<or> pl me = Woken c m" and m: "m \<in> M"
    and free: "a_owner a m = 0"
  shows "fine C M (a\<lparr>a_owner := (a_owner a)(m := me)\<rparr>) (pl(me := Run)) (hs(me := insert m (hs me)))"
proof -
  note d = fineD [OF f] and cur = fine_cur [OF f]
  have none: "pl t \<noteq> Sleep m" "pl t \<noteq> Retry m" for t
    using d(2) [of t] d(3) [OF m] free m by (auto simp: queues_ok_def mutex_ok_def)
  have nobody: "m \<notin> hs t" for t using d(3) [OF m] free d(5) by (auto simp: mutex_ok_def)
  let ?a = "a\<lparr>a_owner := (a_owner a)(m := me)\<rparr>" and ?pl = "pl(me := Run)"
  have "place_ok C M ?a ?pl t" for t
    using d(1) [of t] none [of t] cur at me by (auto simp: place_ok_def split: place.splits if_splits)
  moreover have "queues_ok C M ?a ?pl t" for t
    using d(2) [of t] d(1) [of t] none [of t] cur at me
    by (auto simp: queues_ok_def place_ok_def split: if_splits)
  moreover have "mutex_ok ?a (hs(me := insert m (hs me))) k" if "k \<in> M" for k
    using d(3) [OF that] nobody cur(1) me by (auto simp: mutex_ok_def)
  moreover have "(hs(me := insert m (hs me))) t \<subseteq> M" for t using d(4) [of t] m by auto
  ultimately show ?thesis using d(5-8) cur me at by (auto simp: fine_def)
qed

lemma fine_again:
  assumes f: "fine C M a pl hs" and me: "me = a_cur a" and at: "pl me = Run \<or> pl me = Woken c m"
  shows "fine C M a (pl(me := Run)) hs"
proof -
  note d = fineD [OF f] and cur = fine_cur [OF f]
  have "place_ok C M a (pl(me := Run)) t" for t
    using d(1) [of t] cur at me by (auto simp: place_ok_def split: place.splits if_splits)
  moreover have "queues_ok C M a (pl(me := Run)) t" for t
    using d(2) [of t] d(1) [of t] cur at me by (auto simp: queues_ok_def place_ok_def split: if_splits)
  ultimately show ?thesis using d cur me by (auto simp: fine_def)
qed

lemma fine_block:
  assumes f: "fine C M a pl hs" and me: "me = a_cur a" and at: "pl me = Run \<or> pl me = Woken c m" and m: "m \<in> M"
    and busy: "a_owner a m \<noteq> 0" and other: "a_owner a m \<noteq> me" and id: "me \<noteq> a_idle a"
  shows "fine C M (a_block m a) (pl(me := Sleep m)) hs"
proof -
  note d = fineD [OF f] and cur = fine_cur [OF f]
  let ?a = "a_block m a" and ?pl = "pl(me := Sleep m)"
  have "place_ok C M ?a ?pl t" for t
    using d(1) [of t] cur other m me by (auto simp: place_ok_def a_block_def a_sleep_def split: place.splits if_splits)
  moreover have "queues_ok C M ?a ?pl t" for t
    using d(2) [of t] d(1) [of t] cur at m me id
    by (auto simp: queues_ok_def place_ok_def a_block_def a_sleep_def split: if_splits)
  moreover have "mutex_ok ?a hs k" if "k \<in> M" for k
    using d(3) [OF that] busy by (auto simp: mutex_ok_def a_block_def a_sleep_def)
  ultimately show ?thesis using d cur me id by (auto simp: fine_def a_block_def a_sleep_def)
qed

text \<open>A thread that comes back from waiting for a mutex owns it; it was the first waiter.\<close>

lemma fine_retry:
  assumes f: "fine C M a pl hs" and me: "me = a_cur a" and at: "pl me = Retry m"
  shows "m \<in> M" and "a_owner a m = me" and "me \<in> set (a_queue a m)"
  using fineD(1) [OF f, of me] fineD(2) [OF f, of me] at me by (auto simp: place_ok_def queues_ok_def)

lemma fine_won:
  assumes f: "fine C M a pl hs" and ap: "apart C M a" and me: "me = a_cur a" and at: "pl me = Retry m"
  shows "fine C M (a\<lparr>a_queue := (a_queue a)(m := remove1 me (a_queue a m))\<rparr>) (pl(me := Run))
    (hs(me := insert m (hs me)))"
proof -
  note d = fineD [OF f] and cur = fine_cur [OF f] and r = fine_retry [OF f me at]
  let ?a = "a\<lparr>a_queue := (a_queue a)(m := remove1 me (a_queue a m))\<rparr>" and ?pl = "pl(me := Run)"
  have dist: "distinct (a_queue a m)" using ap r(1) by (simp add: apart_def)
  have "place_ok C M ?a ?pl t" for t
    using d(1) [of t] d(1) [of me] cur at me r by (auto simp: place_ok_def split: place.splits if_splits)
  moreover have "queues_ok C M ?a ?pl t" for t
    using d(2) [of t] d(1) [of t] cur at me dist
    by (auto simp: queues_ok_def place_ok_def split: if_splits)
  moreover have "mutex_ok ?a (hs(me := insert m (hs me))) k" if k: "k \<in> M" for k
  proof (cases "k = m")
    case True
    then show ?thesis using d(3) [OF k] r(2) cur(1) me by (simp add: mutex_ok_def)
  next
    case False
    then show ?thesis using d(3) [OF k] by (subst mutex_ok_cong [of _ k a _ hs]) auto
  qed
  moreover have "(hs(me := insert m (hs me))) t \<subseteq> M" for t using d(4) [of t] r by auto
  ultimately show ?thesis using d(5-8) cur me at by (auto simp: fine_def)
qed

text \<open>Waking a thread that is at a sleeping place and no longer on the list it slept on.\<close>

lemma fine_release:
  assumes f: "fine C M a pl hs" and me: "a_owner a m = me" "me = a_cur a" and at: "pl me \<noteq> Sleep m" "pl me \<noteq> Retry m" and m: "m \<in> M"
  shows "fine C M (a_release m a) pl (hs(me := hs me - {m}))"
proof -
  note d = fineD [OF f] and cur = fine_cur [OF f]
  have only: "m \<in> hs t \<Longrightarrow> t = me" for t using d(3) [OF m] me by (auto simp: mutex_ok_def)
  show ?thesis
  proof (cases "a_queue a m")
    case Nil
    then have a: "a_release m a = a\<lparr>a_owner := (a_owner a)(m := 0)\<rparr>" by (simp add: a_release_def)
    have none: "pl t \<noteq> Sleep m" "pl t \<noteq> Retry m" for t using d(2) [of t] Nil m by (auto simp: queues_ok_def)
    have "place_ok C M (a_release m a) pl t" for t
      using d(1) [of t] none [of t] unfolding a by (auto simp: place_ok_def split: place.splits if_splits)
    moreover have "queues_ok C M (a_release m a) pl t" for t
      using d(2) [of t] unfolding a by (auto simp: queues_ok_def)
    moreover have "mutex_ok (a_release m a) (hs(me := hs me - {m})) k" if "k \<in> M" for k
      using d(3) [OF that] d(5) only Nil unfolding a by (auto simp: mutex_ok_def)
    moreover have "(hs(me := hs me - {m})) t \<subseteq> M" for t using d(4) [of t] by auto
    ultimately show ?thesis using d(5-8) unfolding a by (auto simp: fine_def)
  next
    case (Cons w ws)
    then have a: "a_release m a = a\<lparr>a_owner := (a_owner a)(m := w), a_ready := a_ready a @ [w],
        a_state := (a_state a)(w := THREAD_ACTIVE)\<rparr>"
      by (simp add: a_release_def a_wake_def)
    have w: "pl w = Sleep m \<or> pl w = Retry m" using d(2) [of w] Cons m by (auto simp: queues_ok_def)
    then have wme: "w \<noteq> me" using at by auto
    have bl: "a_state a w = THREAD_BLOCKED" using d(1) [of w] w me wme by (auto simp: place_ok_def)
    have w0: "w \<noteq> 0" "w \<noteq> a_idle a" using d(6,8) w by auto
    have "place_ok C M (a_release m a) pl t" for t
    proof (cases "t = w")
      case True
      then show ?thesis using w wme me m unfolding a by (auto simp: place_ok_def)
    next
      case False
      then show ?thesis using d(1) [of t] me at unfolding a by (cases "pl t") (auto simp: place_ok_def)
    qed
    moreover have "queues_ok C M (a_release m a) pl t" for t
      using d(2) [of t] w wme me bl w0 unfolding a by (auto simp: queues_ok_def)
    moreover have "mutex_ok (a_release m a) (hs(me := hs me - {m})) k" if "k \<in> M" for k
      using d(3) [OF that] only Cons w0 unfolding a by (auto simp: mutex_ok_def)
    moreover have "(hs(me := hs me - {m})) t \<subseteq> M" for t using d(4) [of t] by auto
    ultimately show ?thesis using d(5-8) unfolding a by (auto simp: fine_def)
  qed
qed

lemma fine_wait_on:
  assumes f: "fine C M a pl hs" and me: "me = a_cur a" and at: "pl me = Run" and c: "c \<in> C" and m: "m \<in> M"
    and id: "me \<noteq> a_idle a"
  shows "fine C M (a_wait_on c a) (pl(me := CvSleep c m)) hs"
proof -
  note d = fineD [OF f] and cur = fine_cur [OF f]
  let ?a = "a_wait_on c a" and ?pl = "pl(me := CvSleep c m)"
  have "place_ok C M ?a ?pl t" for t
    using d(1) [of t] cur c m me by (auto simp: place_ok_def a_wait_on_def a_sleep_def split: place.splits if_splits)
  moreover have "queues_ok C M ?a ?pl t" for t
    using d(2) [of t] d(1) [of t] cur at me id c
    by (auto simp: queues_ok_def place_ok_def a_wait_on_def a_sleep_def split: if_splits)
  moreover have "mutex_ok ?a hs k" if "k \<in> M" for k
    using d(3) [OF that] by (auto simp: mutex_ok_def a_wait_on_def a_sleep_def)
  ultimately show ?thesis using d cur me id by (auto simp: fine_def a_wait_on_def a_sleep_def)
qed

text \<open>The first waiter of a condition is woken.\<close>

lemma fine_wake_waiter:
  assumes f: "fine C M a pl hs" and c: "c \<in> C" and w: "w \<in> set (a_wait a c)" and ws: "set ws = set (a_wait a c) - {w}"
    and me: "w \<noteq> a_cur a"
  shows "fine C M (a_wake w (a\<lparr>a_wait := (a_wait a)(c := ws)\<rparr>)) pl hs"
proof -
  note d = fineD [OF f] and cur = fine_cur [OF f]
  let ?a = "a_wake w (a\<lparr>a_wait := (a_wait a)(c := ws)\<rparr>)"
  have at: "\<exists>m. pl w = CvSleep c m \<or> pl w = Woken c m" using d(2) [of w] c w by (auto simp: queues_ok_def)
  have bl: "a_state a w = THREAD_BLOCKED" using d(1) [of w] at w me by (auto simp: place_ok_def)
  have w0: "w \<noteq> 0" "w \<noteq> a_idle a" using d(6,8) at by auto
  have "place_ok C M ?a pl t" for t
  proof (cases "t = w")
    case True
    then show ?thesis using d(1) [of t] at ws me by (elim exE disjE) (simp_all add: place_ok_def a_wake_def)
  next
    case False
    then show ?thesis using d(1) [of t] ws by (cases "pl t") (auto simp: place_ok_def a_wake_def)
  qed
  moreover have "queues_ok C M ?a pl t" for t
    using d(2) [of t] at bl w0 ws me by (auto simp: queues_ok_def a_wake_def)
  moreover have "mutex_ok ?a hs k" if "k \<in> M" for k
    using d(3) [OF that] by (auto simp: mutex_ok_def a_wake_def)
  ultimately show ?thesis using d by (auto simp: fine_def a_wake_def)
qed

lemma fine_notify:
  assumes f: "fine C M a pl hs" and ap: "apart C M a" and c: "c \<in> C" and me: "a_cur a \<notin> set (a_wait a c)"
  shows "fine C M (a_notify c a) pl hs"
proof (cases "a_wait a c")
  case Nil
  then show ?thesis using f by (simp add: a_notify_def)
next
  case (Cons w ws)
  have "distinct (a_wait a c)" using ap c by (simp add: apart_def)
  then have ws: "set ws = set (a_wait a c) - {w}" and w: "w \<in> set (a_wait a c)" and "w \<noteq> a_cur a"
    using Cons me by auto
  from fine_wake_waiter [OF f c w ws this(3)] show ?thesis by (simp add: a_notify_def Cons)
qed

text \<open>Waking all waiters is waking the first one as often as there are waiters.\<close>

lemma a_notify_all_Cons:
  assumes "a_wait a c = w # ws"
  shows "a_notify_all c a = a_notify_all c (a_notify c a)"
  using assms by (cases a) (simp add: a_notify_all_def a_notify_def a_wake_def)

lemma fine_notify_all:
  assumes "fine C M a pl hs" and "apart C M a" and "c \<in> C" and "a_cur a \<notin> set (a_wait a c)"
  shows "fine C M (a_notify_all c a) pl hs"
  using assms
proof (induction "a_wait a c" arbitrary: a)
  case Nil
  then have "a\<lparr>a_wait := (a_wait a)(c := [])\<rparr> = a" by (metis fun_upd_triv sched.surjective sched.update_convs(5))
  then show ?case using Nil by (simp add: a_notify_all_def)
next
  case (Cons w ws)
  let ?b = "a_notify c a"
  have f: "fine C M ?b pl hs" using Cons.prems by (rule fine_notify)
  have b: "?b = a_wake w (a\<lparr>a_wait := (a_wait a)(c := ws)\<rparr>)" using Cons.hyps(2) [symmetric] by (simp add: a_notify_def)
  have "w \<notin> set (a_ready a)"
  proof
    assume r: "w \<in> set (a_ready a)"
    have "w \<in> set (a_wait a c)" using Cons.hyps(2) by (metis list.set_intros(1))
    then show False
      using fineD(1,2) [OF Cons.prems(1), of w] r Cons.prems(3)
      by (auto simp: place_ok_def queues_ok_def split: place.splits if_splits)
  qed
  moreover have "distinct (w # ws)" using Cons.prems(2,3) Cons.hyps(2) by (auto simp: apart_def)
  ultimately have "apart C M ?b" using Cons.prems(2) unfolding b by (auto simp: apart_def a_wake_def)
  moreover have "a_cur ?b \<notin> set (a_wait ?b c)" "a_wait ?b c = ws"
    using Cons.prems(4) unfolding b Cons.hyps(2) [symmetric] by (simp_all add: a_wake_def)
  ultimately have "fine C M (a_notify_all c ?b) pl hs" using Cons.hyps(1) [of ?b] f Cons.prems(3) by simp
  then show ?case using a_notify_all_Cons [of a c w ws] Cons.hyps(2) by simp
qed

lemma fine_start:
  assumes f: "fine C M a pl hs" and t: "pl t = Absent" "t \<noteq> 0" "ThreadCv t \<in> C"
  shows "t \<notin> set (a_ready a)" and "fine C M (a_wake t a) (pl(t := Fresh)) hs"
proof -
  note d = fineD [OF f] and cur = fine_cur [OF f]
  show "t \<notin> set (a_ready a)" using d(2) [of t] t by (simp add: queues_ok_def)
  have ne: "t \<noteq> a_cur a" "t \<noteq> a_idle a" using cur(2) d(8) t by auto
  let ?a = "a_wake t a" and ?pl = "pl(t := Fresh)"
  have "place_ok C M ?a ?pl u" for u
  proof (cases "u = t")
    case True
    then show ?thesis using ne by (simp add: place_ok_def a_wake_def)
  next
    case False
    then show ?thesis using d(1) [of u] by (cases "pl u") (auto simp: place_ok_def a_wake_def)
  qed
  moreover have "queues_ok C M ?a ?pl u" for u
    using d(2) [of u] d(2) [of t] t ne by (auto simp: queues_ok_def a_wake_def)
  moreover have "mutex_ok ?a hs k" if "k \<in> M" for k
    using d(3) [OF that] by (subst mutex_ok_cong [of _ k a _ hs]) (auto simp: a_wake_def)
  ultimately show "fine C M ?a ?pl hs" using d t by (auto simp: fine_def a_wake_def)
qed

text \<open>Who runs next, and what that does to the queue.\<close>

lemma fine_next:
  assumes f: "fine C M a pl hs" and sw: "\<not> (a_ready a = [] \<and> a_state a (a_cur a) = THREAD_ACTIVE)"
  shows "a_next a \<noteq> a_cur a" and "a_state a (a_next a) = THREAD_ACTIVE" and "pl (a_next a) \<notin> {Absent, Gone}"
    and "a_next a \<noteq> 0"
    and "apart C M a \<Longrightarrow> t \<in> set (a_ready (a_requeue a)) \<longleftrightarrow>
      t \<in> set (a_ready a) \<and> t \<noteq> a_next a \<or> t = a_cur a \<and> t \<noteq> a_idle a \<and> a_state a t = THREAD_ACTIVE"
proof -
  note d = fineD [OF f] and cur = fine_cur [OF f]
  have id: "a_state a (a_idle a) = THREAD_ACTIVE" using d(1) [of "a_idle a"] d(8) by (simp add: place_ok_def)
  have "a_next a \<noteq> a_cur a \<and> a_state a (a_next a) = THREAD_ACTIVE \<and> pl (a_next a) \<notin> {Absent, Gone} \<and> a_next a \<noteq> 0 \<and>
    (apart C M a \<longrightarrow> (t \<in> set (a_ready (a_requeue a)) \<longleftrightarrow>
      t \<in> set (a_ready a) \<and> t \<noteq> a_next a \<or> t = a_cur a \<and> t \<noteq> a_idle a \<and> a_state a t = THREAD_ACTIVE))"
  proof (cases "a_ready a")
    case Nil
    then have "a_state a (a_cur a) \<noteq> THREAD_ACTIVE" using sw by simp
    then show ?thesis using Nil id d(7,8) by (auto simp: a_next_def a_requeue_def)
  next
    case (Cons n ns)
    then have "n \<in> set (a_ready a)" by simp
    then have "n \<noteq> a_cur a" "a_state a n = THREAD_ACTIVE" "pl n \<notin> {Absent, Gone}" "n \<noteq> 0"
      using d(2) [of n] d(6) by (auto simp: queues_ok_def)
    moreover have "apart C M a \<Longrightarrow> n \<notin> set ns" using Cons by (simp add: apart_def)
    ultimately show ?thesis using Cons by (auto simp: a_next_def a_requeue_def)
  qed
  then show "a_next a \<noteq> a_cur a" "a_state a (a_next a) = THREAD_ACTIVE" "pl (a_next a) \<notin> {Absent, Gone}" "a_next a \<noteq> 0"
    "apart C M a \<Longrightarrow> t \<in> set (a_ready (a_requeue a)) \<longleftrightarrow>
      t \<in> set (a_ready a) \<and> t \<noteq> a_next a \<or> t = a_cur a \<and> t \<noteq> a_idle a \<and> a_state a t = THREAD_ACTIVE"
    by blast+
qed

lemma a_requeue_simps [simp]:
  "a_cur (a_requeue a) = a_cur a" "a_idle (a_requeue a) = a_idle a" "a_state (a_requeue a) = a_state a"
  "a_wait (a_requeue a) = a_wait a" "a_queue (a_requeue a) = a_queue a" "a_owner (a_requeue a) = a_owner a"
  by (simp_all add: a_requeue_def)

definition run_place :: "(u64 \<Rightarrow> place) \<Rightarrow> u64 \<Rightarrow> u64 \<Rightarrow> place" where
  "run_place pl n = (if pl n = Fresh then pl(n := Run) else pl)"

lemma fine_switch:
  assumes f: "fine C M a pl hs" and ap: "apart C M a"
    and sw: "\<not> (a_ready a = [] \<and> a_state a (a_cur a) = THREAD_ACTIVE)"
  shows "fine C M (a_switch a) (run_place pl (a_next a)) hs"
proof -
  note d = fineD [OF f] and cur = fine_cur [OF f] and n = fine_next [OF f sw]
  let ?n = "a_next a"
  have a: "a_switch a = (a_requeue a)\<lparr>a_cur := ?n\<rparr>" using cur(7) by (simp add: a_switch_def a_place_def)
  let ?pl = "run_place pl ?n"
  have "place_ok C M (a_switch a) ?pl t" for t
    using d(1) [of t] n(1-3) unfolding a
    by (cases "t = ?n"; cases "pl t") (auto simp: place_ok_def run_place_def split: if_splits)
  moreover have "queues_ok C M (a_switch a) ?pl t" for t
    using d(2) [of t] n cur ap unfolding a by (auto simp: queues_ok_def run_place_def)
  moreover have "mutex_ok (a_switch a) hs k" if "k \<in> M" for k
    using d(3) [OF that] unfolding a by (subst mutex_ok_cong [of _ k a _ hs]) auto
  ultimately show ?thesis using d n unfolding a by (auto simp: fine_def run_place_def)
qed

text \<open>Coming out of the call of \<open>schedule\<close> in \<open>mutex_lock\<close> and in \<open>__wait\<close>.\<close>

lemma fine_advance:
  assumes f: "fine C M a pl hs" and act: "t = a_cur a \<Longrightarrow> a_state a t = THREAD_ACTIVE"
    and p: "pl t = Sleep m \<and> p = Retry m \<or> pl t = CvSleep c m \<and> p = Woken c m"
  shows "fine C M a (pl(t := p)) hs"
proof -
  note d = fineD [OF f] and cur = fine_cur [OF f]
  have "place_ok C M a (pl(t := p)) u" for u
  proof (cases "u = t")
    case True
    then show ?thesis using d(1) [of t] p act by (auto simp: place_ok_def split: if_splits)
  next
    case False
    then show ?thesis using d(1) [of u] by (simp add: place_ok_def)
  qed
  moreover have "queues_ok C M a (pl(t := p)) u" for u
    using d(2) [of u] p by (auto simp: queues_ok_def)
  ultimately show ?thesis using d p by (auto simp: fine_def)
qed

text \<open>The end of a thread: it is taken off the processor, and one waiter for it is woken.\<close>

lemma a_exit_simps [simp]:
  "a_cur (a_exit a) = a_cur a" "a_idle (a_exit a) = a_idle a" "a_ready (a_exit a) = a_ready a"
  "a_wait (a_exit a) = a_wait a" "a_queue (a_exit a) = a_queue a" "a_owner (a_exit a) = a_owner a"
  "a_state (a_exit a) = (a_state a)(a_cur a := THREAD_FINISHED)"
  by (simp_all add: a_exit_def)

lemma fine_exit_fit:
  assumes f: "fine C M a pl hs" and me: "pl (a_cur a) = Run" and id: "a_cur a \<noteq> a_idle a"
  shows "a_fit C (a_exit a)"
proof -
  note d = fineD [OF f] and cur = fine_cur [OF f]
  let ?c = "ThreadCv (a_cur a)"
  have c: "?c \<in> C" using d(2) [of "a_cur a"] me id by (simp add: queues_ok_def)
  have "w \<notin> insert (a_cur a) (set (a_ready a))" if "w \<in> set (a_wait a ?c)" for w
    using d(1) [of w] d(2) [of w] that c me by (auto simp: queues_ok_def place_ok_def)
  then show ?thesis using c cur d(7) by (auto simp: a_fit_def)
qed

lemma fine_exit:
  assumes f: "fine C M a pl hs" and ap: "apart C M a" and me: "pl (a_cur a) = Run" and id: "a_cur a \<noteq> a_idle a"
  shows "fine C M (a_switch (a_exit a)) (run_place (pl(a_cur a := Gone)) (a_next (a_exit a))) hs"
proof -
  note d = fineD [OF f] and cur = fine_cur [OF f]
  let ?me = "a_cur a" and ?n = "a_next (a_exit a)" and ?c = "ThreadCv (a_cur a)"
  let ?b = "(a_requeue (a_exit a))\<lparr>a_state := (a_state a)(?me := THREAD_DEAD), a_cur := ?n\<rparr>"
  have ready: "a_ready (a_requeue (a_exit a)) = tl (a_ready a)" by (simp add: a_requeue_def)
  have nn: "?n \<in> set (a_ready a) \<or> ?n = a_idle a" by (cases "a_ready a") (simp_all add: a_next_def)
  have run: "a_state a (a_idle a) = THREAD_ACTIVE" using d(1) [of "a_idle a"] d(8) by (simp add: place_ok_def)
  have n': "?n \<noteq> ?me" "a_state a ?n = THREAD_ACTIVE" "pl ?n \<notin> {Absent, Gone}" "?n \<noteq> 0"
    using nn d(2) [of ?n] run id d(6-8) by (elim disjE; auto simp: queues_ok_def)+
  have tl: "t \<in> set (tl (a_ready a)) \<longleftrightarrow> t \<in> set (a_ready a) \<and> t \<noteq> ?n" for t
  proof (cases "a_ready a")
    case (Cons u us)
    then have "u \<notin> set us" "?n = u" using ap by (auto simp: apart_def a_next_def)
    then show ?thesis using Cons by auto
  next
    case Nil
    then show ?thesis by simp
  qed
  let ?pl = "run_place (pl(?me := Gone)) ?n"
  have "place_ok C M ?b ?pl t" for t
    using d(1) [of t] n' me by (cases "t = ?n"; cases "pl t") (auto simp: place_ok_def run_place_def split: if_splits)
  moreover have "queues_ok C M ?b ?pl t" for t
    using d(2) [of t] n' tl [of t] ready me cur id by (auto simp: queues_ok_def run_place_def)
  moreover have "mutex_ok ?b hs k" if "k \<in> M" for k
    using d(3) [OF that] by (subst mutex_ok_cong [of _ k a _ hs]) auto
  ultimately have fb: "fine C M ?b ?pl hs" using d n' id me by (auto simp: fine_def run_place_def)
  have apb: "apart C M ?b" using ap ready by (auto simp: apart_def distinct_tl)
  have c: "?c \<in> C" using d(2) [of ?me] me id by (simp add: queues_ok_def)
  have "?n \<notin> set (a_wait a ?c)"
    using d(1) [of ?n] d(2) [of ?n] c n' by (auto simp: queues_ok_def place_ok_def)
  then have "a_cur ?b \<notin> set (a_wait ?b ?c)" by simp
  from fine_notify [OF fb apb c this] have "fine C M (a_notify ?c ?b) ?pl hs" .
  moreover have "a_switch (a_exit a) = a_notify ?c ?b"
    by (simp add: a_switch_def a_place_def a_notify_def a_wake_def split: list.splits)
  ultimately show ?thesis by simp
qed

subsection \<open>Every step keeps the invariant\<close>

lemma fine_fit: "fine C M a pl hs \<Longrightarrow> a_fit C a"
  using fine_cur(3,6,7) fineD(7) by (fastforce simp: a_fit_def)

lemma fine_waiters:
  assumes f: "fine C M a pl hs"
  shows "c \<in> C \<Longrightarrow> set (a_wait a c) \<inter> set (a_ready a) = {}"
    and "pl (a_cur a) = Run \<or> pl (a_cur a) = Woken c' m' \<Longrightarrow> c \<in> C \<Longrightarrow> a_cur a \<notin> set (a_wait a c)"
    and "pl (a_cur a) = Run \<or> pl (a_cur a) = Woken c' m' \<Longrightarrow> m \<in> M \<Longrightarrow> a_cur a \<notin> set (a_queue a m)"
    and "m \<in> M \<Longrightarrow> a_owner a m = a_cur a \<Longrightarrow> pl (a_cur a) \<noteq> Sleep m \<Longrightarrow> pl (a_cur a) \<noteq> Retry m \<Longrightarrow>
      set (a_queue a m) \<inter> set (a_ready a) = {}"
proof -
  note d = fineD [OF f]
  show "c \<in> C \<Longrightarrow> set (a_wait a c) \<inter> set (a_ready a) = {}"
  proof (rule ccontr)
    assume c: "c \<in> C" and "set (a_wait a c) \<inter> set (a_ready a) \<noteq> {}"
    then obtain w where w: "w \<in> set (a_wait a c)" "w \<in> set (a_ready a)" by blast
    then show False using d(1) [of w] d(2) [of w] c by (auto simp: queues_ok_def place_ok_def)
  qed
  show "pl (a_cur a) = Run \<or> pl (a_cur a) = Woken c' m' \<Longrightarrow> c \<in> C \<Longrightarrow> a_cur a \<notin> set (a_wait a c)"
    using d(1) [of "a_cur a"] d(2) [of "a_cur a"] by (auto simp: queues_ok_def place_ok_def)
  show "pl (a_cur a) = Run \<or> pl (a_cur a) = Woken c' m' \<Longrightarrow> m \<in> M \<Longrightarrow> a_cur a \<notin> set (a_queue a m)"
    using d(2) [of "a_cur a"] by (auto simp: queues_ok_def)
  show "m \<in> M \<Longrightarrow> a_owner a m = a_cur a \<Longrightarrow> pl (a_cur a) \<noteq> Sleep m \<Longrightarrow> pl (a_cur a) \<noteq> Retry m \<Longrightarrow>
      set (a_queue a m) \<inter> set (a_ready a) = {}"
  proof (rule ccontr)
    assume m: "m \<in> M" "a_owner a m = a_cur a" "pl (a_cur a) \<noteq> Sleep m" "pl (a_cur a) \<noteq> Retry m"
      and "set (a_queue a m) \<inter> set (a_ready a) \<noteq> {}"
    then obtain w where w: "w \<in> set (a_queue a m)" "w \<in> set (a_ready a)" by blast
    then show False using d(1) [of w] d(2) [of w] m by (auto simp: queues_ok_def place_ok_def split: if_splits)
  qed
qed

lemma sys_ok_dispatch:
  assumes r: "sched_rel C M 0 (st x) a" and f: "fine C M a (pc x) (held x)"
    and p: "p = pc x (a_cur a) \<or> pc x (a_cur a) = Sleep m \<and> p = Retry m \<or>
      pc x (a_cur a) = CvSleep c m \<and> p = Woken c m"
    and d: "dispatch x p (schedule (st x)) y"
  shows "sys_ok C M y"
proof -
  note fit = fine_fit [OF f] and ap = sched_rel_apart [OF r]
  have cur: "current (st x) = a_cur a" using r by (simp add: sched_rel_def)
  obtain o' s1 where sch: "schedule (st x) = Inr (o', s1)"
    and res: "if a_ready a = [] \<and> a_state a (a_cur a) = THREAD_ACTIVE then o' = Stay \<and> sched_rel C M 0 s1 a
      else (\<exists>e. o' = SwitchTo (a_next a) e) \<and> sched_rel C M 0 s1 (a_requeue a)"
    using schedule_refines [OF r fit] by blast
  have adv: "fine C M b (pl(a_cur a := p)) hs" if "fine C M b pl hs" "pl (a_cur a) = pc x (a_cur a)"
    "a_cur a = a_cur b \<Longrightarrow> a_state b (a_cur a) = THREAD_ACTIVE" for b pl hs
    using p fine_advance [OF that(1), of "a_cur a" m p c] that by (auto simp: fun_upd_idem)
  show ?thesis
  proof (cases "a_ready a = [] \<and> a_state a (a_cur a) = THREAD_ACTIVE")
    case True
    then have "y = x\<lparr>st := s1, pc := (pc x)(a_cur a := p)\<rparr>" "sched_rel C M 0 s1 a"
      using res d by (simp_all add: sch cur dispatch_simps)
    then show ?thesis using adv [OF f] True by (auto simp: sys_ok_def)
  next
    case False
    let ?n = "a_next a"
    obtain e where o: "o' = SwitchTo ?n e" and r1: "sched_rel C M 0 s1 (a_requeue a)" using res False by auto
    note n = fine_next [OF f False]
    obtain s2 where s2: "(if pc x ?n = Fresh then thread_entry ?n s1 else schedule_resume ?n (saved x ?n) s1) = Inr s2"
      and y: "y = x\<lparr>st := s2,
        pc := (if pc x ?n = Fresh then (pc x)(a_cur a := p, ?n := Run) else (pc x)(a_cur a := p)),
        saved := (saved x)(a_cur a := e)\<rparr>"
      using d by (auto simp: sch o cur dispatch_simps)
    have r2: "sched_rel C M 0 s2 (a_switch a)"
      using resume_refines(1) [OF r1 fit, of "saved x ?n"] resume_refines(2) [OF r1 fit] s2 by (auto split: if_splits)
    have fs: "fine C M (a_switch a) (run_place (pc x) ?n) (held x)" by (rule fine_switch [OF f ap False])
    have "a_cur (a_switch a) = ?n" by (simp add: a_switch_def a_place_def Let_def)
    then have "fine C M (a_switch a) ((run_place (pc x) ?n)(a_cur a := p)) (held x)"
      using adv [OF fs] n(1) by (auto simp: run_place_def)
    moreover have "pc y = (run_place (pc x) ?n)(a_cur a := p)"
      using n(1) by (auto simp: y run_place_def fun_upd_twist)
    ultimately show ?thesis using r2 by (auto simp: sys_ok_def y)
  qed
qed

lemma sys_ok_exit:
  assumes r: "sched_rel C M 0 (st x) a" and f: "fine C M a (pc x) (held x)"
    and me: "pc x (a_cur a) = Run" and id: "a_cur a \<noteq> a_idle a"
    and d: "dispatch x Gone (thread_exit ret (st x)) y"
  shows "sys_ok C M y"
proof -
  note fit = fine_exit_fit [OF f me id] and ap = sched_rel_apart [OF r]
  have cur: "current (st x) = a_cur a" using r by (simp add: sched_rel_def)
  let ?n = "a_next (a_exit a)"
  obtain e s1 where ex: "thread_exit ret (st x) = Inr (SwitchTo ?n e, s1)"
    and r1: "sched_rel C M 0 s1 (a_requeue (a_exit a))"
    using exit_refines [OF r fit] by blast
  obtain s2 where s2: "(if pc x ?n = Fresh then thread_entry ?n s1 else schedule_resume ?n (saved x ?n) s1) = Inr s2"
    and y: "y = x\<lparr>st := s2,
      pc := (if pc x ?n = Fresh then (pc x)(a_cur a := Gone, ?n := Run) else (pc x)(a_cur a := Gone)),
      saved := (saved x)(a_cur a := e)\<rparr>"
    using d by (auto simp: ex cur dispatch_simps)
  have r2: "sched_rel C M 0 s2 (a_switch (a_exit a))"
    using resume_refines(1) [OF r1 fit, of "saved x ?n"] resume_refines(2) [OF r1 fit] s2 by (auto split: if_splits)
  have fe: "fine C M (a_switch (a_exit a)) (run_place ((pc x)(a_cur a := Gone)) ?n) (held x)"
    by (rule fine_exit [OF f ap me id])
  have "?n \<noteq> a_cur a"
    using fine_cur(3) [OF f] id by (cases "a_ready a") (auto simp: a_next_def)
  then have "pc y = run_place ((pc x)(a_cur a := Gone)) ?n" by (auto simp: y run_place_def)
  then show ?thesis using r2 fe by (auto simp: sys_ok_def y)
qed

end
