(* ===== verification/Thread_Safety.thy ===== *)
theory Thread_Safety
  imports Thread_System
begin

text \<open>
  What holds in every reachable configuration of the threads: the invariant of \<open>Thread_System\<close>, and from
  it mutual exclusion, that no waiter is forgotten, and that no routine ever takes a list node for
  what it is not.
\<close>

lemma sys_ok_step:
  assumes ok: "sys_ok C M x" and step: "kstep C M x y"
  shows "sys_ok C M y"
proof -
  obtain a where r: "sched_rel C M 0 (st x) a" and f: "fine C M a (pc x) (held x)"
    using ok by (auto simp: sys_ok_def)
  note d = fineD [OF f] and cur = fine_cur [OF f] and ap = sched_rel_apart [OF r]
  have me: "current (st x) = a_cur a" "idle (st x) = a_idle a" using r by (simp_all add: sched_rel_def)
  note wt = fine_waiters [OF f]
  have own: "a_owner a m = a_cur a" "m \<in> M" if "m \<in> held x (a_cur a)" for m
    using d(3) [of m] d(4) [of "a_cur a"] that by (auto simp: mutex_ok_def)
  show ?thesis
    using step
  proof cases
    case (take me' c m s)
    then have m': "me' = a_cur a" using me by simp
    have z: "a_owner a m = 0" using sched_rel_try(2) [OF r, of m] take by auto
    show ?thesis
      using sched_rel_try(1) [OF r z] fine_take [OF f m' _ _ z, of c] take m' by (auto simp: sys_ok_def)
  next
    case (again me' c m s)
    then have m': "me' = a_cur a" using me by simp
    have z: "a_owner a m \<noteq> 0" using sched_rel_try(1) [OF r, of m] again by auto
    show ?thesis
      using sched_rel_try(2) [OF r z] sched_rel_unlock fine_again [OF f m', of c m] again m'
      by (fastforce simp: sys_ok_def)
  next
    case (block me' c m s)
    then have m': "me' = a_cur a" using me by simp
    have z: "a_owner a m \<noteq> 0" using sched_rel_try(1) [OF r, of m] block by auto
    then have r1: "sched_rel C M (0 + 1) s a" using sched_rel_try(2) [OF r z] block by simp
    then have o: "a_owner a m \<noteq> me'" using block by (simp add: sched_rel_def)
    have "a_cur a \<notin> set (a_queue a k)" if "k \<in> M" for k using wt(3) [OF _ that] block(2) m' by blast
    from sched_rel_block [OF r1 block(5) this]
    show ?thesis
      using fine_block [OF f m' block(2) block(5) z o] block m' me by (auto simp: sys_ok_def)
  next
    case (won me' m s)
    then have m': "me' = a_cur a" using me by simp
    note q = fine_retry [OF f m' won(2)]
    from sched_rel_unlock [OF sched_rel_retry [OF r q(1) q(3)]]
    show ?thesis using fine_won [OF f ap m' won(2)] won by (auto simp: sys_ok_def)
  next
    case (lost me' m s)
    then have m': "me' = a_cur a" using me by simp
    note q = fine_retry [OF f m' lost(2)]
    have "mtx_owner s m = me'"
      using sched_rel_retry [OF r q(1) q(3)] q(2) lost(4) by (simp add: sched_rel_def)
    then show ?thesis using lost by simp
  next
    case (unlock me' m s)
    then have m': "me' = a_cur a" using me by simp
    have o: "a_owner a m = a_cur a" "m \<in> M" using own [of m] unlock m' by simp_all
    have "set (a_queue a m) \<inter> set (a_ready a) = {}" using wt(4) [OF o(2,1)] unlock m' by simp
    from sched_rel_release [OF r o(2) this]
    show ?thesis using fine_release [OF f o(1) refl _ _ o(2)] unlock m' by (auto simp: sys_ok_def)
  next
    case (wait me' m c s)
    then have m': "me' = a_cur a" using me by simp
    have o: "a_owner a m = a_cur a" "m \<in> M" using own [of m] wait m' by simp_all
    have q: "set (a_queue a m) \<inter> set (a_ready a) = {}" using wt(4) [OF o(2,1)] wait m' by simp
    have free: "a_cur a \<notin> set (a_wait a e)" if "e \<in> C" for e using wt(2) [OF _ that] wait(2) m' by blast
    from sched_rel_wait_mutex [OF r wait(6) o(2) free q]
    have r1: "sched_rel C M 0 s (a_release m (a_wait_on c a))" using wait by auto
    have f1: "fine C M (a_wait_on c a) ((pc x)(me' := CvSleep c m)) (held x)"
      using fine_wait_on [OF f m' wait(2) wait(6) o(2)] wait me by simp
    have "fine C M (a_release m (a_wait_on c a)) ((pc x)(me' := CvSleep c m)) ((held x)(me' := held x me' - {m}))"
      using fine_release [OF f1 _ _ _ _ o(2), of me'] o m' by (simp add: a_wait_on_def a_sleep_def)
    then show ?thesis using r1 wait by (auto simp: sys_ok_def)
  next
    case (notify me' c s)
    then have m': "me' = a_cur a" using me by simp
    have "a_cur a \<notin> set (a_wait a c)" using wt(2) [OF _ notify(4)] notify(2) m' by blast
    from fine_notify [OF f ap notify(4) this] sched_rel_notify [OF r notify(4) wt(1) [OF notify(4)]]
    show ?thesis using notify by (auto simp: sys_ok_def)
  next
    case (broadcast me' c s)
    then have m': "me' = a_cur a" using me by simp
    have "a_cur a \<notin> set (a_wait a c)" using wt(2) [OF _ broadcast(4)] broadcast(2) m' by blast
    from fine_notify_all [OF f ap broadcast(4) this] sched_rel_notify_all [OF r broadcast(4) wt(1) [OF broadcast(4)]]
    show ?thesis using broadcast by (auto simp: sys_ok_def)
  next
    case (start t)
    note fs = fine_start [OF f start(3) start(4) start(5)]
    have "sched_rel C M 0 (thread_start t (st x)) (a_wake t a)"
      using sched_rel_wake [OF r fs(1)] by (simp add: thread_wake_def)
    then show ?thesis using fs(2) start by (auto simp: sys_ok_def)
  next
    case (sleep me' m)
    then show ?thesis using sys_ok_dispatch [OF r f, where p = "Retry m" and m = m] me by simp
  next
    case (cv_sleep me' c m)
    then show ?thesis using sys_ok_dispatch [OF r f, where p = "Woken c m" and c = c and m = m] me by simp
  next
    case (preempt me')
    then have "dispatch x (pc x (a_cur a)) (schedule (st x)) y" using me by simp
    then show ?thesis by (rule sys_ok_dispatch [OF r f disjI1 [OF refl]])
  next
    case (exit me' ret)
    then show ?thesis using sys_ok_exit [OF r f] me by simp
  qed
qed

lemma sys_ok_reachable: "(kstep C M)\<^sup>*\<^sup>* x y \<Longrightarrow> sys_ok C M x \<Longrightarrow> sys_ok C M y"
  by (induction rule: rtranclp_induct) (auto intro: sys_ok_step)

subsection \<open>The start\<close>

text \<open>
  After the setup routines only the idle thread exists; the heads of the ready queue, of the
  conditions and of the mutexes point to themselves.
\<close>

definition fresh_system :: "condition set \<Rightarrow> nat set \<Rightarrow> system \<Rightarrow> bool" where
  "fresh_system C M x \<longleftrightarrow>
     (\<forall>k\<in>sched_keys C M. nxt (thr_links (st x)) k = k \<and> prv (thr_links (st x)) k = k) \<and>
     current (st x) = idle (st x) \<and> idle (st x) \<noteq> 0 \<and> state_of (st x) (idle (st x)) = THREAD_ACTIVE \<and>
     (\<forall>m\<in>M. mtx_owner (st x) m = 0) \<and> preempt_count (st x) = 0 \<and>
     pc x = (\<lambda>_. Absent)(idle (st x) := Run) \<and> held x = (\<lambda>_. {})"

definition start_sched :: "threads \<Rightarrow> sched" where
  "start_sched s = \<lparr>a_cur = current s, a_idle = idle s, a_ready = [], a_state = state_of s,
     a_wait = (\<lambda>_. []), a_queue = (\<lambda>_. []), a_owner = mtx_owner s\<rparr>"

lemma fresh_rel:
  assumes "fresh_system C M x"
  shows "sched_rel C M 0 (st x) (start_sched (st x))"
    and "fine C M (start_sched (st x)) (pc x) (held x)"
proof -
  have "sched_lists (start_sched (st x)) k = []" if "k \<in> sched_keys C M" for k
    using that by (auto simp: sched_keys_def start_sched_def)
  then show "sched_rel C M 0 (st x) (start_sched (st x))"
    using assms by (auto simp: sched_rel_def fresh_system_def dlists_def dlist_def start_sched_def)
  show "fine C M (start_sched (st x)) (pc x) (held x)"
    using assms
    by (auto simp: fresh_system_def fine_def place_ok_def queues_ok_def mutex_ok_def start_sched_def)
qed

lemma fresh_sys_ok: "fresh_system C M x \<Longrightarrow> sys_ok C M x"
  unfolding sys_ok_def using fresh_rel by blast

lemma reachable_ok:
  assumes "fresh_system C M x" and "(kstep C M)\<^sup>*\<^sup>* x y"
  obtains a where "sched_rel C M 0 (st y) a" and "fine C M a (pc y) (held y)"
  using sys_ok_reachable [OF assms(2) fresh_sys_ok [OF assms(1)]] by (auto simp: sys_ok_def)

lemma rel_walk:
  assumes "sched_rel C M p s a" and "k \<in> sched_keys C M"
  shows "list_walk (thr_links s) k (nxt (thr_links s) k) = Some (sched_lists a k)"
  using list_walk_dlist [OF dlists_dlist [OF sched_rel_dlists [OF assms(1)] assms(2)]] by simp

lemma fine_owner_runs:
  assumes f: "fine C M a pl hs" and m: "m \<in> M" and at: "pl t = Sleep m \<or> pl t = Retry m"
  shows "a_owner a m \<noteq> 0"
    and "m \<in> hs (a_owner a m) \<or> (\<exists>ws. a_queue a m = a_owner a m # ws) \<and>
      a_state a (a_owner a m) = THREAD_ACTIVE \<and> (a_owner a m = a_cur a \<or> a_owner a m \<in> set (a_ready a))"
proof -
  note d = fineD [OF f]
  let ?o = "a_owner a m"
  have "t \<in> set (a_queue a m)" using d(2) [of t] m at by (simp add: queues_ok_def)
  then show o: "?o \<noteq> 0" using d(3) [OF m] by (auto simp: mutex_ok_def)
  show "m \<in> hs ?o \<or> (\<exists>ws. a_queue a m = ?o # ws) \<and> a_state a ?o = THREAD_ACTIVE \<and> (?o = a_cur a \<or> ?o \<in> set (a_ready a))"
  proof (cases "m \<in> hs ?o")
    case False
    then obtain ws where ws: "a_queue a m = ?o # ws" using d(3) [OF m] o by (auto simp: mutex_ok_def)
    then have "?o \<in> set (a_queue a m)" by (metis list.set_intros(1))
    then have pl: "pl ?o = Sleep m \<or> pl ?o = Retry m" using d(2) [of ?o] m by (simp add: queues_ok_def)
    then have act: "a_state a ?o = THREAD_ACTIVE" using d(1) [of ?o] by (auto simp: place_ok_def)
    have "?o \<noteq> a_idle a" using pl d(8) by auto
    then show ?thesis using ws act pl d(2) [of ?o] by (auto simp: queues_ok_def)
  qed simp
qed

subsection \<open>A sample system\<close>

text \<open>Two threads, one mutex and one condition.\<close>

definition thread_sample :: threads where
  "thread_sample = \<lparr>rflags = 0x202, preempt_count = 0, memory = (\<lambda>a. 0), mmap_begin = 0, mmap_end = 0,
     initrd_begin = 0, initrd_end = 0, free_ranges = [], all_ranges = [], buddy_zones = [],
     slab_links = \<lparr>nxt = id, prv = id\<rparr>,
     slab_meta = (\<lambda>a. \<lparr>slab_page = (0, 0), slab_first = 0, slab_count = 0\<rparr>),
     caches = (\<lambda>c. \<lparr>slab_order = 0, slab_size = 0, obj_size = 0\<rparr>),
     initial_cr3 = 0, cr3 = 0, mm_links = \<lparr>nxt = id, prv = id\<rparr>,
     mm_at = (\<lambda>a. \<lparr>mm_pt = (0, 0), mm_cr3 = 0\<rparr>), vma_at = (\<lambda>a. \<lparr>vma_begin = 0, vma_end = 0, vma_perm = 0\<rparr>),
     thr_links = \<lparr>nxt = id, prv = id\<rparr>,
     thread_at = (\<lambda>t. \<lparr>stack_phys = 0, stack_order = 0, thr_state = THREAD_ACTIVE, thr_regs = 0, thr_mm = 0,
       thr_context = 0, retval = 0\<rparr>),
     cv_wait_thread = (\<lambda>t. 0), mtx_wait_thread = (\<lambda>t. 0), mtx_owner = (\<lambda>m. 0), current = 0x1000, idle = 0x1000,
     remained_time = 0, the_tss = \<lparr>tss_rsp0 = 0, iomap_base = 0, iomap = []\<rparr>, task_register = 0\<rparr>"

definition system_sample :: system where
  "system_sample = \<lparr>st = thread_sample, pc = (\<lambda>_. Absent)(0x1000 := Run), held = (\<lambda>_. {}), saved = (\<lambda>_. 0)\<rparr>"

lemma sample_fresh: "fresh_system {ThreadCv 0x2000, ThreadCv 0x3000, Cv 0} {0} system_sample"
  by (simp add: fresh_system_def system_sample_def thread_sample_def state_of_def)

lemma preempt_fresh:
  assumes "schedule (st x) = Inr (SwitchTo n e, s1)" and "pc x n = Fresh" and "thread_entry n s1 = Inr s2"
    and "current (st x) = me"
  shows "kstep C M x (x\<lparr>st := s2, pc := (pc x)(me := pc x me, n := Run), saved := (saved x)(me := e)\<rparr>)"
  using assms by (intro kstep.preempt [of me]) (auto simp: dispatch_simps)

abbreviation sample_conditions :: "condition set" where
  "sample_conditions \<equiv> {ThreadCv 0x2000, ThreadCv 0x3000, Cv 0}"

lemma a_switch_kept:
  assumes "a_state a (a_cur a) \<noteq> THREAD_FINISHED"
  shows "a_cur (a_switch a) = a_next a" and "a_owner (a_switch a) = a_owner a" and "a_idle (a_switch a) = a_idle a"
  using assms by (simp_all add: a_switch_def a_place_def a_requeue_def)

text \<open>The first thread locks the mutex and starts a second one, which runs and waits for the mutex.\<close>

lemma sample_run:
  "\<exists>y. (kstep sample_conditions {0})\<^sup>*\<^sup>* system_sample y \<and> pc y 0x2000 = Sleep 0 \<and> held y 0x1000 = {0} \<and>
     pc y 0x1000 = Run"
proof -
  let ?C = sample_conditions and ?M = "{0} :: nat set" and ?x = system_sample
  let ?k = "kstep ?C ?M" and ?a = "start_sched thread_sample"
  note r0 = fresh_rel(1) [OF sample_fresh] and f0 = fresh_rel(2) [OF sample_fresh]
  have st: "st ?x = thread_sample" by (simp add: system_sample_def)
  have a: "a_cur ?a = 0x1000" "a_owner ?a 0 = 0" "a_ready ?a = []" "a_idle ?a = 0x1000"
    and c0: "current thread_sample = 0x1000"
    by (simp_all add: start_sched_def thread_sample_def)
  let ?a1 = "?a\<lparr>a_owner := (a_owner ?a)(0 := 0x1000)\<rparr>"
  obtain s1 where s1: "mutex_try 0 thread_sample = (True, s1)" and r1: "sched_rel ?C ?M 0 s1 ?a1"
    using sched_rel_try(1) [OF r0 [unfolded st] a(2)] a by auto
  let ?x1 = "?x\<lparr>st := s1, pc := (pc ?x)(0x1000 := Run), held := (held ?x)(0x1000 := insert 0 (held ?x 0x1000))\<rparr>"
  have run: "pc ?x 0x1000 = Run" "held ?x = (\<lambda>_. {})" by (simp_all add: system_sample_def)
  have k1: "?k ?x ?x1"
  proof (rule kstep.take)
    show "pc ?x 0x1000 = Run \<or> pc ?x 0x1000 = Woken undefined 0" using run by simp
    show "0x1000 = current (st ?x)" "mutex_try 0 (st ?x) = (True, s1)" using st c0 s1 by simp_all
  qed simp
  have f1: "fine ?C ?M ?a1 (pc ?x1) (held ?x1)"
    using fine_take [OF f0 [unfolded st], of "0x1000" undefined 0] a run by simp
  have c1: "current s1 = 0x1000" using r1 a by (simp add: sched_rel_def)
  let ?x2 = "?x1\<lparr>st := thread_start 0x2000 s1, pc := (pc ?x1)(0x2000 := Fresh)\<rparr>"
  have new: "pc ?x1 0x2000 = Absent" by (simp add: system_sample_def)
  have k2: "?k ?x1 ?x2" using kstep.start [of ?x1 "0x2000" ?C ?M] c1 new by simp
  note f2 = fine_start [OF f1 new] and r2 = sched_rel_wake [OF r1, of "0x2000"]
  let ?a2 = "a_wake 0x2000 ?a1"
  have a2: "a_ready ?a2 = [0x2000]" "a_cur ?a2 = 0x1000" "a_next ?a2 = 0x2000" using a by (simp_all add: a_wake_def a_next_def)
  have r2: "sched_rel ?C ?M 0 (st ?x2) ?a2" using r2 a by (simp add: thread_wake_def)
  have f2: "fine ?C ?M ?a2 (pc ?x2) (held ?x2)" using f2(2) by (simp add: fun_upd_def)
  note fit = fine_fit [OF f2]
  obtain e s3 where s3: "schedule (st ?x2) = Inr (SwitchTo 0x2000 e, s3)" and r3: "sched_rel ?C ?M 0 s3 (a_requeue ?a2)"
    using schedule_refines [OF r2 fit] a2 by auto
  obtain s4 where s4: "thread_entry 0x2000 s3 = Inr s4" and r4: "sched_rel ?C ?M 0 s4 (a_switch ?a2)"
    using resume_refines(2) [OF r3 fit] a2 by auto
  have c2: "current (st ?x2) = 0x1000" using r2 a2 by (simp add: sched_rel_def)
  let ?x3 = "?x2\<lparr>st := s4, pc := (pc ?x2)(0x1000 := pc ?x2 0x1000, 0x2000 := Run), saved := (saved ?x2)(0x1000 := e)\<rparr>"
  have k3: "?k ?x2 ?x3" by (rule preempt_fresh [OF s3 _ s4 c2]) simp
  have a3: "a_cur (a_switch ?a2) = 0x2000" "a_owner (a_switch ?a2) 0 = 0x1000" "a_idle (a_switch ?a2) = 0x1000"
  proof -
    note sw = a_switch_kept [OF fine_cur(7) [OF f2]]
    have o: "a_owner ?a2 0 = 0x1000" "a_idle ?a2 = 0x1000" using a by (simp_all add: a_wake_def)
    show "a_cur (a_switch ?a2) = 0x2000" by (simp only: sw a2)
    show "a_owner (a_switch ?a2) 0 = 0x1000" "a_idle (a_switch ?a2) = 0x1000" by (simp_all only: sw o)
  qed
  obtain s5 where s5: "mutex_try 0 s4 = (False, s5)" and r5: "sched_rel ?C ?M (0 + 1) s5 (a_switch ?a2)"
    using sched_rel_try(2) [OF r4, of 0] a3 by auto
  have c3: "current s4 = 0x2000" "idle s4 = 0x1000" "mtx_owner s5 0 = 0x1000" using r4 r5 a3 by (simp_all add: sched_rel_def)
  let ?x4 = "?x3\<lparr>st := mutex_block 0 0x2000 s5, pc := (pc ?x3)(0x2000 := Sleep 0)\<rparr>"
  have k4: "?k ?x3 ?x4"
  proof (rule kstep.block)
    show "pc ?x3 0x2000 = Run \<or> pc ?x3 0x2000 = Woken undefined 0" by simp
    show "0x2000 = current (st ?x3)" "0x2000 \<noteq> idle (st ?x3)" using c3 by simp_all
    show "mutex_try 0 (st ?x3) = (False, s5)" using s5 by simp
    show "mtx_owner s5 0 \<noteq> 0x2000" using c3 by simp
  qed simp
  have "?k\<^sup>*\<^sup>* ?x ?x4" 
    by (rule converse_rtranclp_into_rtranclp [OF k1 converse_rtranclp_into_rtranclp
        [OF k2 converse_rtranclp_into_rtranclp [OF k3 r_into_rtranclp [of ?k, OF k4]]]])
  then show ?thesis by (intro exI [of _ ?x4]) (simp add: system_sample_def)
qed

end
