(* ===== verification/Thread_Properties.thy ===== *)
theory Thread_Properties
  imports Thread_Safety
begin

text \<open>
  The properties of the threads, for every configuration that the interleaving of \<open>Thread_System\<close> can reach
  from the state after the setup routines. \<open>waiting s k\<close> reads a list of the scheduler the way the code does,
  by following the links from its head.
\<close>

definition waiting :: "'a threads_scheme \<Rightarrow> tnode \<Rightarrow> tnode list option" where
  "waiting s k = list_walk (thr_links s) k (nxt (thr_links s) k)"

lemma rel_waiting [simp]:
  assumes "sched_rel C M p s a"
  shows "waiting s Ready = Some (map Thr (a_ready a))"
    and "c \<in> C \<Longrightarrow> waiting s (CvHead c) = Some (map CvWait (a_wait a c))"
    and "m \<in> M \<Longrightarrow> waiting s (MtxHead m) = Some (map MtxWait (a_queue a m))"
  using rel_walk [OF assms, of Ready] rel_walk [OF assms, of "CvHead c"] rel_walk [OF assms, of "MtxHead m"]
  by (simp_all add: waiting_def)

lemma rel_fields:
  assumes "sched_rel C M p s a"
  shows "current s = a_cur a" and "idle s = a_idle a" and "state_of s t = a_state a t" and "mtx_owner s = a_owner a"
  using assms by (simp_all add: sched_rel_def)

text \<open>A reachable configuration in which the second thread has been started and waits to run.\<close>

lemma sample_start:
  "\<exists>y. (kstep sample_conditions {0})\<^sup>*\<^sup>* system_sample y \<and> waiting (st y) Ready = Some [Thr 0x2000] \<and>
     pc y 0x2000 = Fresh \<and> mtx_owner (st y) 0 = 0 \<and> idle (st y) = 0x1000"
proof -
  let ?y = "system_sample\<lparr>st := thread_start 0x2000 thread_sample, pc := (pc system_sample)(0x2000 := Fresh)\<rparr>"
  have c: "current thread_sample = 0x1000" "st system_sample = thread_sample"
    by (simp_all add: thread_sample_def system_sample_def)
  have p: "pc system_sample 0x1000 = Run" "pc system_sample 0x2000 = Absent" by (simp_all add: system_sample_def)
  have k: "kstep sample_conditions {0} system_sample ?y"
    using kstep.start [of system_sample "0x2000" sample_conditions "{0}"] c p by simp
  have r: "sched_rel sample_conditions {0} 0 (thread_start 0x2000 thread_sample)
      (a_wake 0x2000 (start_sched thread_sample))"
    using sched_rel_wake [OF fresh_rel(1) [OF sample_fresh], of "0x2000"] c by (simp add: thread_wake_def start_sched_def)
  have z: "mtx_owner thread_sample 0 = 0" "idle thread_sample = 0x1000" by (simp_all add: thread_sample_def)
  have "waiting (st ?y) Ready = Some [Thr 0x2000]" "mtx_owner (st ?y) 0 = 0" "idle (st ?y) = 0x1000"
    using rel_waiting(1) [OF r] rel_fields [OF r] z by (simp_all add: a_wake_def start_sched_def)
  then show ?thesis using k by (intro exI [of _ ?y]) (auto intro: r_into_rtranclp)
qed

subsection \<open>Steps that are always possible\<close>

text \<open>The timer interrupt of the running thread.\<close>

definition tick :: "system \<Rightarrow> system \<Rightarrow> bool" where
  "tick x y \<longleftrightarrow> dispatch x (pc x (current (st x))) (schedule (st x)) y"

lemma tick_fun: "tick x y \<Longrightarrow> tick x z \<Longrightarrow> y = z"
  unfolding tick_def by (elim dispatch.cases) auto

lemma tick_rotates:
  assumes fresh: "fresh_system C M x" and reach: "(kstep C M)\<^sup>*\<^sup>* x y"
    and wt: "waiting (st y) Ready = Some (Thr t # ns)"
  shows "\<exists>z. tick y z \<and> (kstep C M)\<^sup>*\<^sup>* x z \<and> current (st z) = t \<and> idle (st z) = idle (st y) \<and>
    waiting (st z) Ready = Some (ns @ (if state_of (st y) (current (st y)) = THREAD_ACTIVE \<and>
      current (st y) \<noteq> idle (st y) then [Thr (current (st y))] else [])) \<and>
    mtx_owner (st z) = mtx_owner (st y) \<and> held z = held y \<and>
    pc z = (if pc y t = Fresh then (pc y)(t := Run) else pc y)"
proof -
  obtain a where r: "sched_rel C M 0 (st y) a" and f: "fine C M a (pc y) (held y)"
    using reachable_ok [OF fresh reach] .
  note fit = fine_fit [OF f] and kept = a_switch_kept [OF fine_cur(7) [OF f]] and q = rel_fields [OF r]
  obtain ts where ts: "a_ready a = t # ts" "ns = map Thr ts" using wt rel_waiting(1) [OF r] by auto
  have n: "a_next a = t" using ts by (simp add: a_next_def)
  obtain e s1 where s1: "schedule (st y) = Inr (SwitchTo t e, s1)" and r1: "sched_rel C M 0 s1 (a_requeue a)"
    using schedule_refines [OF r fit] ts n by auto
  have "\<exists>s2. (if pc y t = Fresh then thread_entry t s1 else schedule_resume t (saved y t) s1) = Inr s2 \<and>
      sched_rel C M 0 s2 (a_switch a)"
    using resume_refines [OF r1 fit] n by simp
  then obtain s2 where s2: "(if pc y t = Fresh then thread_entry t s1 else schedule_resume t (saved y t) s1) = Inr s2"
    and r2: "sched_rel C M 0 s2 (a_switch a)" by blast
  let ?z = "y\<lparr>st := s2, pc := (if pc y t = Fresh then (pc y)(t := Run) else pc y),
      saved := (saved y)(current (st y) := e)\<rparr>"
  have tk: "tick y ?z"
    unfolding tick_def s1 using dispatch.switch [OF s2, of "pc y" "pc y (current (st y))" e] by simp
  then have "kstep C M y ?z" using kstep.preempt [OF refl] by (simp add: tick_def)
  then have "(kstep C M)\<^sup>*\<^sup>* x ?z" using reach by (rule rtranclp.rtrancl_into_rtrancl [rotated])
  moreover have "a_ready (a_switch a) = ts @ (if a_state a (a_cur a) = THREAD_ACTIVE \<and> a_cur a \<noteq> a_idle a then [a_cur a] else [])"
    using ts fine_cur(7) [OF f] by (simp add: a_switch_def a_place_def a_requeue_def)
  ultimately show ?thesis
    using tk rel_fields [OF r2] rel_waiting(1) [OF r2] kept n q ts(2) by (intro exI [of _ ?z]) auto
qed

lemma can_take:
  assumes fresh: "fresh_system C M x" and reach: "(kstep C M)\<^sup>*\<^sup>* x y"
    and run: "pc y (current (st y)) = Run" and m: "m \<in> M" and free: "mtx_owner (st y) m = 0"
  shows "\<exists>z. (kstep C M)\<^sup>*\<^sup>* x z \<and> pc z = pc y \<and> current (st z) = current (st y) \<and> idle (st z) = idle (st y) \<and>
    held z = (held y)(current (st y) := insert m (held y (current (st y))))"
proof -
  obtain a where r: "sched_rel C M 0 (st y) a" using reachable_ok [OF fresh reach] .
  note q = rel_fields [OF r]
  obtain s where s: "mutex_try m (st y) = (True, s)"
    and r1: "sched_rel C M 0 s (a\<lparr>a_owner := (a_owner a)(m := a_cur a)\<rparr>)"
    using sched_rel_try(1) [OF r, of m] free q by auto
  let ?me = "current (st y)"
  have "kstep C M y (y\<lparr>st := s, pc := (pc y)(?me := Run), held := (held y)(?me := insert m (held y ?me))\<rparr>)"
    using run m s by (intro kstep.take) auto
  then show ?thesis
    using rtranclp.rtrancl_into_rtrancl [OF reach] rel_fields [OF r1] q run by (fastforce simp: fun_upd_idem)
qed

lemma can_wait:
  assumes fresh: "fresh_system C M x" and reach: "(kstep C M)\<^sup>*\<^sup>* x y"
    and run: "pc y (current (st y)) = Run" and id: "current (st y) \<noteq> idle (st y)"
    and m: "m \<in> held y (current (st y))" and c: "c \<in> C"
  shows "\<exists>z. (kstep C M)\<^sup>*\<^sup>* x z \<and> pc z = (pc y)(current (st y) := CvSleep c m)"
proof -
  obtain a where r: "sched_rel C M 0 (st y) a" and f: "fine C M a (pc y) (held y)"
    using reachable_ok [OF fresh reach] .
  note q = rel_fields [OF r] and w = fine_waiters [OF f] and d = fineD [OF f]
  have me: "pc y (a_cur a) = Run" "m \<in> M" "a_owner a m = a_cur a"
    using run m q d(3) [of m] d(4) [of "a_cur a"] by (auto simp: mutex_ok_def)
  have free: "a_cur a \<notin> set (a_wait a e)" if "e \<in> C" for e using w(2) [OF _ that] me by blast
  have apart: "set (a_queue a m) \<inter> set (a_ready a) = {}" using w(4) [OF me(2,3)] me(1) by simp
  from sched_rel_wait_mutex [OF r c me(2) free apart]
  obtain s where s: "wait_begin c (GMutex m) (st y) = Inr s" by blast
  let ?me = "current (st y)"
  have "kstep C M y (y\<lparr>st := s, pc := (pc y)(?me := CvSleep c m), held := (held y)(?me := held y ?me - {m})\<rparr>)"
    using run id m c s by (intro kstep.wait) auto
  then show ?thesis using rtranclp.rtrancl_into_rtrancl [OF reach] by fastforce
qed

subsection \<open>Mutexes\<close>

text \<open>
  C9. Mutual exclusion: in every interleaving of the threads at most one thread is between a
  successful \<open>mutex_lock\<close> and its \<open>mutex_unlock\<close> of the same mutex, and \<open>mutex->owner\<close> names it.
\<close>

theorem mutual_exclusion:
  assumes "fresh_system C M x" and "(kstep C M)\<^sup>*\<^sup>* x y" and "m \<in> held y t" and "m \<in> held y u"
  shows "t = u \<and> mtx_owner (st y) m = t"
proof -
  obtain a where r: "sched_rel C M 0 (st y) a" and f: "fine C M a (pc y) (held y)"
    using reachable_ok [OF assms(1,2)] .
  have "m \<in> M" using fineD(4) [OF f, of t] assms(3) by auto
  then show ?thesis using fineD(3) [OF f] assms(3,4) rel_fields(4) [OF r] by (auto simp: mutex_ok_def)
qed

theorem mutual_exclusion_witness:
  "\<exists>y. (kstep sample_conditions {0})\<^sup>*\<^sup>* system_sample y \<and> 0 \<in> held y 0x1000 \<and> mtx_owner (st y) 0 = 0x1000"
proof -
  obtain y where y: "(kstep sample_conditions {0})\<^sup>*\<^sup>* system_sample y" "held y 0x1000 = {0}"
    using sample_run by blast
  have "mtx_owner (st y) 0 = 0x1000" using mutual_exclusion [OF sample_fresh y(1), of 0 "0x1000" "0x1000"] y(2) by simp
  then show ?thesis using y by (intro exI [of _ y]) simp
qed

text \<open>
  C10. No waiter of a mutex is forgotten: while a thread sleeps in \<open>mutex_lock\<close>, it stands in the waiting list of the
  mutex, the mutex has an owner, and the owner either has locked it or is the first of the list, awake, and runs or is in
  the ready queue; so the hand-over in \<open>mutex_unlock\<close> never strands the mutex.
\<close>

theorem no_waiter_forgotten:
  assumes "fresh_system C M x" and "(kstep C M)\<^sup>*\<^sup>* x y" and "m \<in> M" and "pc y t = Sleep m \<or> pc y t = Retry m"
  shows "\<exists>ws rs o'. waiting (st y) (MtxHead m) = Some ws \<and> MtxWait t \<in> set ws \<and>
    waiting (st y) Ready = Some rs \<and> o' = mtx_owner (st y) m \<and> o' \<noteq> 0 \<and>
    (m \<in> held y o' \<or> hd ws = MtxWait o' \<and> state_of (st y) o' = THREAD_ACTIVE \<and> (o' = current (st y) \<or> Thr o' \<in> set rs))"
proof -
  obtain a where r: "sched_rel C M 0 (st y) a" and f: "fine C M a (pc y) (held y)"
    using reachable_ok [OF assms(1,2)] .
  note w = rel_waiting [OF r] and q = rel_fields [OF r] and o = fine_owner_runs [OF f assms(3,4)]
  have "t \<in> set (a_queue a m)" using fineD(2) [OF f, of t] assms(3,4) by (simp add: queues_ok_def)
  then show ?thesis
    using w(3) [OF assms(3)] w(1) q o
    by (intro exI [of _ "map MtxWait (a_queue a m)"] exI [of _ "map Thr (a_ready a)"] exI [of _ "a_owner a m"]) auto
qed

theorem no_waiter_forgotten_witness:
  "\<exists>y. (kstep sample_conditions {0})\<^sup>*\<^sup>* system_sample y \<and> pc y 0x2000 = Sleep 0 \<and> mtx_owner (st y) 0 \<noteq> 0"
proof -
  obtain y where y: "(kstep sample_conditions {0})\<^sup>*\<^sup>* system_sample y" "pc y 0x2000 = Sleep 0"
    using sample_run by blast
  have "mtx_owner (st y) 0 \<noteq> 0" using no_waiter_forgotten [OF sample_fresh y(1), of 0 "0x2000"] y(2) by auto
  then show ?thesis using y by (intro exI [of _ y]) simp
qed

subsection \<open>Conditions\<close>


text \<open>A run in which the second thread waits for a condition.\<close>

lemma sample_wait:
  "\<exists>y. (kstep sample_conditions {0})\<^sup>*\<^sup>* system_sample y \<and> pc y 0x2000 = CvSleep (Cv 0) 0"
proof -
  let ?r = "(kstep sample_conditions {0})\<^sup>*\<^sup>* system_sample"
  obtain y where y: "?r y" "waiting (st y) Ready = Some [Thr 0x2000]" "pc y 0x2000 = Fresh"
    and o: "mtx_owner (st y) 0 = 0" and i: "idle (st y) = 0x1000"
    using sample_start by blast
  from tick_rotates [OF sample_fresh y(1,2)]
  obtain z where z: "?r z" "current (st z) = 0x2000" "mtx_owner (st z) 0 = 0" "pc z 0x2000 = Run" "idle (st z) = 0x1000"
    using y(3) o i by auto
  have zc: "pc z (current (st z)) = Run" using z by simp
  obtain w where w: "?r w" "current (st w) = 0x2000" "pc w = pc z" "0 \<in> held w 0x2000" "idle (st w) = 0x1000"
    using can_take [OF sample_fresh z(1) zc _ z(3)] z by auto
  have wc: "pc w (current (st w)) = Run" "current (st w) \<noteq> idle (st w)" "0 \<in> held w (current (st w))" using w z by simp_all
  obtain v where "?r v" "pc v = (pc w)(0x2000 := CvSleep (Cv 0) 0)"
    using can_wait [OF sample_fresh w(1) wc, of "Cv 0"] w(2) by auto
  then show ?thesis by (intro exI [of _ v]) simp
qed


subsection \<open>The scheduler\<close>

text \<open>
  C12. The ready queue is exact: it holds, each once, precisely the threads that were started, are active, have
  not exited, and are neither running nor the idle thread.
\<close>

theorem ready_queue_exact:
  assumes "fresh_system C M x" and "(kstep C M)\<^sup>*\<^sup>* x y"
  shows "\<exists>ts. waiting (st y) Ready = Some (map Thr ts) \<and> distinct ts \<and>
    set ts = {t. pc y t \<noteq> Absent \<and> pc y t \<noteq> Gone \<and> state_of (st y) t = THREAD_ACTIVE \<and>
      t \<noteq> current (st y) \<and> t \<noteq> idle (st y)}"
proof -
  obtain a where r: "sched_rel C M 0 (st y) a" and f: "fine C M a (pc y) (held y)"
    using reachable_ok [OF assms] .
  have "set (a_ready a) = {t. pc y t \<noteq> Absent \<and> pc y t \<noteq> Gone \<and> a_state a t = THREAD_ACTIVE \<and> t \<noteq> a_cur a \<and> t \<noteq> a_idle a}"
    using fineD(2) [OF f] by (auto simp: queues_ok_def)
  then show ?thesis
    using rel_waiting(1) [OF r] rel_fields [OF r] sched_rel_apart [OF r]
    by (intro exI [of _ "a_ready a"]) (auto simp: apart_def)
qed

theorem ready_queue_exact_witness:
  "\<exists>y ts. (kstep sample_conditions {0})\<^sup>*\<^sup>* system_sample y \<and> waiting (st y) Ready = Some (map Thr ts) \<and>
     distinct ts \<and> set ts = {0x2000}"
proof -
  obtain y where y: "(kstep sample_conditions {0})\<^sup>*\<^sup>* system_sample y" "waiting (st y) Ready = Some [Thr 0x2000]"
    using sample_start by blast
  obtain ts where "waiting (st y) Ready = Some (map Thr ts)" "distinct ts"
    using ready_queue_exact [OF sample_fresh y(1)] by blast
  moreover from this y(2) have "ts = [0x2000]" by auto
  ultimately show ?thesis using y by (intro exI [of _ y] exI [of _ ts]) simp
qed

text \<open>
  C13. Round robin: when the timer interrupts a thread while others are ready, \<open>schedule\<close> switches to the first of the
  ready queue, and the interrupted thread, if it is active and not the idle thread, goes to the end of the queue.
\<close>

theorem schedule_round_robin:
  assumes "fresh_system C M x" and "(kstep C M)\<^sup>*\<^sup>* x y" and "waiting (st y) Ready = Some (Thr t # ns)"
  shows "\<exists>z. tick y z \<and> current (st z) = t \<and>
    waiting (st z) Ready = Some (ns @ (if state_of (st y) (current (st y)) = THREAD_ACTIVE \<and>
      current (st y) \<noteq> idle (st y) then [Thr (current (st y))] else []))"
  using tick_rotates [OF assms] by blast

theorem schedule_round_robin_witness:
  "\<exists>y z. (kstep sample_conditions {0})\<^sup>*\<^sup>* system_sample y \<and> tick y z \<and> current (st z) = 0x2000"
proof -
  obtain y where "(kstep sample_conditions {0})\<^sup>*\<^sup>* system_sample y" "waiting (st y) Ready = Some [Thr 0x2000]"
    using sample_start by blast
  then show ?thesis using schedule_round_robin [OF sample_fresh] by blast
qed

text \<open>
  What a round-robin queue gives: every member gets its turn after exactly as many turns as there are members
  before it.
\<close>

locale round_robin =
  fixes ok :: "'s \<Rightarrow> bool" and turn :: "'s \<Rightarrow> 's \<Rightarrow> bool" and queue :: "'s \<Rightarrow> 'n list" and running :: "'s \<Rightarrow> 'n"
  assumes turn_fun: "turn x y \<Longrightarrow> turn x z \<Longrightarrow> y = z"
    and turn_rotates: "ok x \<Longrightarrow> queue x = t # ns \<Longrightarrow>
      \<exists>y ls. turn x y \<and> ok y \<and> running y = t \<and> queue y = ns @ ls"
begin

lemma turns_fun: "(turn ^^ n) x y \<Longrightarrow> (turn ^^ n) x z \<Longrightarrow> y = z"
  by (induction n arbitrary: y z) (auto dest: turn_fun)

lemma turns_reach: "ok x \<Longrightarrow> queue x = us @ t # vs \<Longrightarrow> \<exists>z. (turn ^^ Suc (length us)) x z \<and> running z = t"
proof (induction us arbitrary: x vs)
  case Nil
  then show ?case using turn_rotates [of x t vs] by auto
next
  case (Cons u us)
  obtain y ls where y: "turn x y" "ok y" "queue y = us @ t # (vs @ ls)"
    using turn_rotates [of x u "us @ t # vs"] Cons.prems by auto
  obtain z where z: "(turn ^^ Suc (length us)) y z" "running z = t" using Cons.IH [OF y(2,3)] by blast
  have "(turn ^^ Suc (length (u # us))) x z"
    using relpowp_Suc_I2 [of turn x y "Suc (length us)" z] y(1) z(1) by (simp only: list.size add_0_right add_Suc_right)
  then show ?case using z(2) by blast
qed

lemma fair:
  "ok x \<Longrightarrow> queue x = us @ t # vs \<Longrightarrow> \<exists>z. (\<forall>w. (turn ^^ Suc (length us)) x w \<longleftrightarrow> w = z) \<and> running z = t"
  using turns_reach turns_fun by blast

end

definition reachable :: "condition set \<Rightarrow> nat set \<Rightarrow> system \<Rightarrow> bool" where
  "reachable C M y \<longleftrightarrow> (\<exists>x. fresh_system C M x \<and> (kstep C M)\<^sup>*\<^sup>* x y)"

definition ready_nodes :: "system \<Rightarrow> tnode list" where
  "ready_nodes y = (case waiting (st y) Ready of Some ns \<Rightarrow> ns | None \<Rightarrow> [])"

text \<open>The ready queue of the code is one.\<close>

interpretation rr: round_robin "reachable C M" tick ready_nodes "\<lambda>y. Thr (current (st y))" for C M
proof
  show "y = z" if "tick x y" "tick x z" for x y z using that by (rule tick_fun)
next
  fix y t ns
  assume ok: "reachable C M y" and q: "ready_nodes y = t # ns"
  obtain x where x: "fresh_system C M x" "(kstep C M)\<^sup>*\<^sup>* x y" using ok by (auto simp: reachable_def)
  obtain a where "sched_rel C M 0 (st y) a" using reachable_ok [OF x] .
  from rel_waiting(1) [OF this] q obtain u us where u: "t = Thr u" "ns = map Thr us" "waiting (st y) Ready = Some (Thr u # ns)"
    by (cases "a_ready a") (auto simp: ready_nodes_def)
  from tick_rotates [OF x u(3)]
  show "\<exists>z ls. tick y z \<and> reachable C M z \<and> Thr (current (st z)) = t \<and> ready_nodes z = ns @ ls"
    using x(1) u(1) by (fastforce simp: reachable_def ready_nodes_def)
qed



subsection \<open>No routine takes a list node for what it is not\<close>

lemma can_switch:
  assumes "sched_rel C M 0 s1 (a_requeue a)" and "a_fit C a"
  shows "\<exists>z. dispatch x p (Inr (SwitchTo (a_next a) e, s1)) z"
proof -
  have "\<exists>s2. (if pc x (a_next a) = Fresh then thread_entry (a_next a) s1
      else schedule_resume (a_next a) (saved x (a_next a)) s1) = Inr s2"
    using resume_refines [OF assms] by auto
  then show ?thesis by (auto simp: dispatch_simps)
qed

lemma can_schedule:
  assumes "sched_rel C M 0 (st x) a" and "a_fit C a"
  shows "\<exists>z. dispatch x p (schedule (st x)) z"
proof -
  obtain o' s1 where sch: "schedule (st x) = Inr (o', s1)"
    and res: "if a_ready a = [] \<and> a_state a (a_cur a) = THREAD_ACTIVE then o' = Stay \<and> sched_rel C M 0 s1 a
      else (\<exists>e. o' = SwitchTo (a_next a) e) \<and> sched_rel C M 0 s1 (a_requeue a)"
    using schedule_refines [OF assms] by blast
  show ?thesis
  proof (cases "o' = Stay")
    case True
    then show ?thesis by (auto simp: sch dispatch_simps)
  next
    case False
    then obtain e where "o' = SwitchTo (a_next a) e" "sched_rel C M 0 s1 (a_requeue a)"
      using res by (auto split: if_splits)
    then show ?thesis using can_switch [OF _ assms(2)] by (simp add: sch)
  qed
qed

lemma can_exit:
  assumes "sched_rel C M 0 (st x) a" and "a_fit C (a_exit a)"
  shows "\<exists>z. dispatch x p (thread_exit ret (st x)) z"
  using exit_refines [OF assms, of ret] can_switch [OF _ assms(2)] by fastforce



text \<open>
  C16. A thread that called \<open>thread_exit\<close> is over: it is dead, which is what \<open>thread_join\<close> waits for, it does not run,
  and it stands in no list of the scheduler.
\<close>

theorem exited_thread_is_dead:
  assumes "fresh_system C M x" and "(kstep C M)\<^sup>*\<^sup>* x y" and "pc y t = Gone"
  shows "state_of (st y) t = THREAD_DEAD \<and> t \<noteq> current (st y) \<and>
    (\<exists>rs. waiting (st y) Ready = Some rs \<and> Thr t \<notin> set rs) \<and>
    (\<forall>c. c \<in> C \<longrightarrow> (\<exists>ws. waiting (st y) (CvHead c) = Some ws \<and> CvWait t \<notin> set ws)) \<and>
    (\<forall>m. m \<in> M \<longrightarrow> (\<exists>ws. waiting (st y) (MtxHead m) = Some ws \<and> MtxWait t \<notin> set ws))"
proof -
  obtain a where r: "sched_rel C M 0 (st y) a" and f: "fine C M a (pc y) (held y)"
    using reachable_ok [OF assms(1,2)] .
  note q = rel_fields [OF r] and d = fineD(1,2) [OF f, of t]
  have "a_state a t = THREAD_DEAD" "t \<noteq> a_cur a" using d(1) assms(3) by (simp_all add: place_ok_def)
  moreover have "t \<notin> set (a_ready a)" using d(2) assms(3) by (simp add: queues_ok_def)
  moreover have "t \<notin> set (a_wait a c)" if "c \<in> C" for c using d(2) assms(3) that by (auto simp: queues_ok_def)
  moreover have "t \<notin> set (a_queue a m)" if "m \<in> M" for m using d(2) assms(3) that by (simp add: queues_ok_def)
  ultimately show ?thesis using q rel_waiting [OF r] by auto
qed

lemma dispatch_place: "dispatch x p r y \<Longrightarrow> pc x (current (st x)) \<noteq> Fresh \<Longrightarrow> pc y (current (st x)) = p"
  by (auto elim!: dispatch.cases split: if_splits)

lemma sample_exit:
  "\<exists>y. (kstep sample_conditions {0})\<^sup>*\<^sup>* system_sample y \<and> pc y 0x2000 = Gone"
proof -
  let ?r = "(kstep sample_conditions {0})\<^sup>*\<^sup>* system_sample"
  obtain y where y: "?r y" "waiting (st y) Ready = Some [Thr 0x2000]" "pc y 0x2000 = Fresh" "idle (st y) = 0x1000"
    using sample_start by blast
  from tick_rotates [OF sample_fresh y(1,2)]
  obtain z where z: "?r z" "current (st z) = 0x2000" "pc z 0x2000 = Run" "idle (st z) = 0x1000"
    using y(3,4) by auto
  obtain a where r: "sched_rel sample_conditions {0} 0 (st z) a" and f: "fine sample_conditions {0} a (pc z) (held z)"
    using reachable_ok [OF sample_fresh z(1)] .
  have "pc z (a_cur a) = Run" "a_cur a \<noteq> a_idle a" using rel_fields [OF r] z by simp_all
  from can_exit [OF r fine_exit_fit [OF f this]]
  obtain w where w: "dispatch z Gone (thread_exit 0 (st z)) w" by blast
  have "kstep sample_conditions {0} z w" using kstep.exit [OF _ refl _ w] z by simp
  then have "?r w" by (rule rtranclp.rtrancl_into_rtrancl [OF z(1)])
  moreover have "pc w 0x2000 = Gone" using dispatch_place [OF w] z by simp
  ultimately show ?thesis by (intro exI [of _ w]) simp
qed

theorem exited_thread_is_dead_witness:
  "\<exists>y. (kstep sample_conditions {0})\<^sup>*\<^sup>* system_sample y \<and> pc y 0x2000 = Gone \<and> state_of (st y) 0x2000 = THREAD_DEAD"
proof -
  obtain y where y: "(kstep sample_conditions {0})\<^sup>*\<^sup>* system_sample y" "pc y 0x2000 = Gone" using sample_exit by blast
  from exited_thread_is_dead [OF sample_fresh this] show ?thesis using y by (intro exI [of _ y]) simp
qed

end
