(* ===== verification/Slab_Frame.thy ===== *)
theory Slab_Frame
  imports Slab_Properties
begin

text \<open>
  What the caches own, apart from the page allocator: \<open>slab_store s C B X\<close> says that the slabs of the
  caches \<open>C\<close> are the blocks \<open>B\<close> and have handed out the objects \<open>X\<close>. It depends on memory only
  inside \<open>B\<close>, and the operations of the caches write nowhere else (\<open>others_kept\<close>), so that whoever
  owns other blocks keeps their contents across them.
\<close>

subsection \<open>Blocks in memory\<close>

definition in_block :: "block \<Rightarrow> u64 \<Rightarrow> bool" where
  "in_block b x \<longleftrightarrow> block_first (fst b) \<le> unat x \<and> unat x < block_first (fst b) + 2 ^ (12 + snd b)"

lemma in_block_apart: "pages_of b \<inter> pages_of b' = {} \<Longrightarrow> in_block b x \<Longrightarrow> \<not> in_block b' x"
  using blocks_apart [of "fst b" "snd b" "fst b'" "snd b'"] by (auto simp: in_block_def)

lemma used_apart:
  assumes "buddy_ok s U" and "b \<in> U" and "b' \<in> U" and "b \<noteq> b'" and "in_block b x"
  shows "\<not> in_block b' x"
  by (rule in_block_apart [OF pages.owned_disjoint [OF assms(1-4)] assms(5)])

subsection \<open>The slabs without the allocator\<close>

definition slab_store :: "'a slabs_scheme \<Rightarrow> nat set \<Rightarrow> block set \<Rightarrow> (nat \<times> u64) set \<Rightarrow> bool" where
  "slab_store s C B X \<longleftrightarrow> (\<exists>L FL.
     slab_lists s C L \<and> phys_small s \<and> (\<forall>c\<in>C. cache_ok (caches s c)) \<and>
     (\<forall>c a. (c, a) \<in> slab_set C L {} \<longrightarrow> slab_ok s c a (FL a)) \<and>
     (\<forall>c c' a. (c, a) \<in> slab_set C L {} \<longrightarrow> (c', a) \<in> slab_set C L {} \<longrightarrow> c = c') \<and>
     (\<forall>c\<in>C. \<forall>k. \<forall>a\<in>set (L (c, k)). kind_ok k (length (FL a)) (slab_size (caches s c))) \<and>
     B = slab_blocks s (slab_set C L {}) \<and> X = live s (slab_set C L {}) FL)"

lemma objs_store: "objs s C V X \<longleftrightarrow> (\<exists>B. slab_store s C B X \<and> buddy_ok s (V \<union> B) \<and> V \<inter> B = {})"
  unfolding objs_def slab_store_def slabs_inv_def by (simp only: image_empty) blast

lemma slab_store_cong:
  assumes st: "slab_store s C B X" and eq: "layout s' = layout s" "slab_links s' = slab_links s"
      "slab_meta s' = slab_meta s" "caches s' = caches s"
    and mem: "\<And>b x. b \<in> B \<Longrightarrow> in_block b x \<Longrightarrow> memory s' x = memory s x"
  shows "slab_store s' C B X"
proof -
  obtain L FL where i: "slab_lists s C L" "phys_small s" "\<forall>c\<in>C. cache_ok (caches s c)"
      "\<forall>c a. (c, a) \<in> slab_set C L {} \<longrightarrow> slab_ok s c a (FL a)"
      "\<forall>c c' a. (c, a) \<in> slab_set C L {} \<longrightarrow> (c', a) \<in> slab_set C L {} \<longrightarrow> c = c'"
      "\<forall>c\<in>C. \<forall>k. \<forall>a\<in>set (L (c, k)). kind_ok k (length (FL a)) (slab_size (caches s c))"
      "B = slab_blocks s (slab_set C L {})" "X = live s (slab_set C L {}) FL"
    using st unfolding slab_store_def by blast
  have fr: "slab_frame s' a = slab_frame s a" for a
    by (simp add: slab_frame_def eq(3) page_frame_cong [OF eq(1)])
  have "slab_ok s' c a (FL a)" if ca: "(c, a) \<in> slab_set C L {}" for c a
  proof -
    have ok: "slab_ok s c a (FL a)" using i(4) ca by blast
    have "c \<in> C" using ca by (simp add: slab_set_def)
    then have cok: "cache_ok (caches s c)" using i(3) by blast
    have fit: "fits (caches s c) (slab_frame s a)" using ok by (simp add: slab_ok_def)
    have "slab_ok s' c a (FL a) = slab_ok s c a (FL a)"
    proof (rule slab_ok_cong [OF eq(1)])
      fix x assume "x \<in> set (FL a)"
      then have "x \<in> cells (caches s c) (slab_frame s a)" using ok by (auto simp: slab_ok_def slab_cells_def)
      note b = cells_bounds [OF cok fit this]
      have bl: "(slab_frame s a, slab_order (caches s c)) \<in> B" using ca by (force simp: i(7) slab_blocks_def)
      show "load_u64 (memory s') x = load_u64 (memory s) x"
      proof (rule load_u64_cong)
        fix y assume y: "y \<in> span x 8"
        have "unat x + 8 \<le> 2 ^ 64" using b by linarith
        then have "unat x \<le> unat y" "unat y < unat x + 8" using y by (simp_all add: span_unat)
        then have "in_block (slab_frame s a, slab_order (caches s c)) y"
          using b unfolding in_block_def fst_conv snd_conv by linarith
        then show "memory s' y = memory s y" by (rule mem [OF bl])
      qed
    qed (simp_all add: eq)
    then show ?thesis using ok by simp
  qed
  moreover have "slab_blocks s' S = slab_blocks s S" for S by (simp add: slab_blocks_def fr eq)
  moreover have "live s' S FL = live s S FL" for S by (rule live_cong) (simp_all add: eq fr)
  ultimately show ?thesis
    unfolding slab_store_def using i by (intro exI [of _ L] exI [of _ FL]) (simp add: slab_lists_def phys_small_def eq)
qed

text \<open>The page allocator may move on under the caches, and others may write their own memory.\<close>

lemma objs_other:
  assumes ok: "objs s C V X" and eq: "layout s' = layout s" "slab_links s' = slab_links s"
      "slab_meta s' = slab_meta s" "caches s' = caches s"
    and ok': "\<And>B. buddy_ok s (V \<union> B) \<Longrightarrow> V \<inter> B = {} \<Longrightarrow> buddy_ok s' (V' \<union> B) \<and> V' \<inter> B = {}"
    and mem: "\<And>x. memory s' x \<noteq> memory s x \<Longrightarrow> \<exists>b\<in>V'. in_block b x"
  shows "objs s' C V' X"
proof -
  obtain B where B: "slab_store s C B X" "buddy_ok s (V \<union> B)" "V \<inter> B = {}"
    using ok unfolding objs_store by blast
  note k = ok' [OF B(2,3)]
  have "slab_store s' C B X"
  proof (rule slab_store_cong [OF B(1) eq])
    fix b x assume b: "b \<in> B" "in_block b x"
    show "memory s' x = memory s x"
    proof (rule ccontr)
      assume "memory s' x \<noteq> memory s x"
      then obtain b' where b': "b' \<in> V'" "in_block b' x" using mem by blast
      then have "b' \<noteq> b" using b k by blast
      then show False using used_apart [of s' "V' \<union> B" b' b x] b b' k by blast
    qed
  qed
  then show ?thesis using k unfolding objs_store by blast
qed

subsection \<open>The operations of the caches\<close>

definition others_kept :: "block set \<Rightarrow> 'a slabs_scheme \<Rightarrow> 'a slabs_scheme \<Rightarrow> bool" where
  "others_kept V s s' \<longleftrightarrow> layout s' = layout s \<and> (\<forall>b\<in>V. \<forall>x. in_block b x \<longrightarrow> memory s' x = memory s x)"

lemma others_kept_trans: "others_kept V s s1 \<Longrightarrow> others_kept V s1 s2 \<Longrightarrow> others_kept V s s2"
  by (simp add: others_kept_def)

lemma others_kept_same: "buddy_zones s' = buddy_zones s \<Longrightarrow> memory s' = memory s \<Longrightarrow> others_kept V s s'"
  by (simp add: others_kept_def layout_def)

lemma slab_create_kept:
  assumes inv: "slabs_inv s C V L FL {}" and c: "c \<in> C" and run: "slab_create c s = Inr (a, s')"
  shows "others_kept V s s'"
proof -
  let ?U = "V \<union> slab_blocks s (slab_set C L {})" and ?cache = "caches s c"
  have ok: "buddy_ok s ?U" and small: "phys_small s" and cok: "cache_ok ?cache"
    using inv c by (simp_all add: slabs_inv_def)
  obtain r s0 where al: "do_buddy_alloc (slab_order ?cache) s = (r, s0)" by fastforce
  show ?thesis
  proof (cases r)
    case None
    have "buddy_inv s ?U" using ok by (simp add: buddy_ok_def)
    then have "s0 = s" using do_buddy_alloc_None(1) al None by blast
    then show ?thesis using run al None by (simp add: slab_create_def others_kept_def)
  next
    case (Some pg)
    let ?f = "page_frame s pg"
    note d = do_buddy_alloc_ok [OF ok al [unfolded Some]]
    obtain m head where fill: "slab_fill (slab_size ?cache) (obj_size ?cache) (block_base ?f) 0 (memory s) = (m, head)"
      by fastforce
    have m0: "memory s0 = memory s" by (subst d(9)) simp
    have s': "memory s' = m" "buddy_zones s' = buddy_zones s0"
      using run al Some d(10) fill m0 by (auto simp: slab_create_def Let_def block_base_def)
    have fit: "fits ?cache ?f"
      using buddy_block_bound [OF d(1), of ?f "slab_order ?cache"] small d(6,8) by (simp add: fits_def phys_small_def)
    have "memory s' x = memory s x" if b: "b \<in> V" "in_block b x" for b x
    proof (rule ccontr)
      assume "memory s' x \<noteq> memory s x"
      then have "in_block (?f, slab_order ?cache) x"
        using slab_fill_block(2) [OF cok fit fill, of x] by (simp add: s' in_block_def)
      moreover have "b \<noteq> (?f, slab_order ?cache)" using d(2) b(1) by blast
      ultimately show False using used_apart [OF d(1), of b "(?f, slab_order ?cache)" x] b by blast
    qed
    moreover have "layout s' = layout s" using d(8) s'(2) by (simp add: layout_def)
    ultimately show ?thesis by (simp add: others_kept_def)
  qed
qed

lemma slab_cache_alloc_kept:
  assumes ok: "objs s C V X" and c: "c \<in> C" and run: "slab_cache_alloc c s = Inr (p, s')"
  shows "others_kept V s s'"
proof -
  obtain L FL where inv: "slabs_inv s C V L FL {}" using ok by (auto simp: objs_def)
  obtain e s1 where lock: "spin_lock_int_save () s = (e, s1)" by fastforce
  then have same: "same_slabs s1 s" by (simp add: spin_lock_int_save_eq) (metis same_slabs_flags(1))
  have inv1: "slabs_inv s1 C V L FL {}" using inv same_slabs_inv [OF same] by simp
  have k1: "others_kept V s s1" using same by (simp add: same_slabs_def others_kept_same)
  obtain s2 where al: "do_slab_cache_alloc c s1 = Inr (p, s2)" and s': "s' = spin_unlock_int_restore () e s2"
    using run lock by (auto simp: slab_cache_alloc_def and_then_eq_Inr)
  obtain a s3 where pick: "slab_pick c s1 = Inr (a, s3)" using al by (auto simp: do_slab_cache_alloc_def and_then_eq_Inr)
  have "others_kept V s1 s3"
  proof (cases "slab_pick c s1 = slab_create c s1")
    case True
    show ?thesis by (rule slab_create_kept [OF inv1 c pick [unfolded True]])
  next
    case False
    then show ?thesis using pick
      by (auto simp: slab_pick_def Let_def upd_slab_links_def others_kept_def layout_def split: if_splits)
  qed
  moreover have "others_kept V s3 s2"
    using al pick by (auto simp: do_slab_cache_alloc_def slab_alloc_def Let_def upd_slab_links_def others_kept_def layout_def split: if_splits)
  moreover have "others_kept V s2 s'" unfolding s' by (rule others_kept_same) (simp_all add: spin_unlock_int_restore_eq)
  ultimately show ?thesis using k1 others_kept_trans by metis
qed

lemma slab_cache_free_kept:
  assumes ok: "objs s C V X" and x: "(c, p) \<in> X"
  shows "others_kept V s (slab_cache_free c p s)"
proof -
  obtain L FL where inv: "slabs_inv s C V L FL {}" and X: "X = live s (slab_set C L {}) FL"
    using ok by (auto simp: objs_def)
  obtain a where ca: "(c, a) \<in> slab_set C L {}" and p: "p \<in> slab_cells s c a"
    using x X by (auto simp: live_def)
  let ?b = "(slab_frame s a, slab_order (caches s c))"
  note bd = slab_cells_bounds [OF inv ca p]
  have uok: "buddy_ok s (V \<union> slab_blocks s (slab_set C L {}))" and disj: "V \<inter> slab_blocks s (slab_set C L {}) = {}"
    using inv by (simp_all add: slabs_inv_def)
  have b: "?b \<in> slab_blocks s (slab_set C L {})" using ca by (force simp: slab_blocks_def)
  obtain w where m: "memory (slab_cache_free c p s) = store_u64 (memory s) p w"
    and z: "buddy_zones (slab_cache_free c p s) = buddy_zones s"
    by (simp add: slab_cache_free_def do_slab_cache_free_def slab_free_def Let_def upd_slab_links_def
        spin_lock_int_save_eq spin_unlock_int_restore_eq split_beta)
  have "memory (slab_cache_free c p s) y = memory s y" if v: "v \<in> V" "in_block v y" for v y
  proof (rule ccontr)
    assume "memory (slab_cache_free c p s) y \<noteq> memory s y"
    then have "y \<in> span p 8" using store_u64_other [of y p] by (auto simp: m)
    moreover have "unat p + 8 \<le> 2 ^ 64" using bd by linarith
    ultimately have "unat p \<le> unat y" "unat y < unat p + 8" by (simp_all add: span_unat)
    then have "in_block ?b y" using bd unfolding in_block_def fst_conv snd_conv by linarith
    moreover have "v \<noteq> ?b" using v(1) b disj by blast
    ultimately show False using used_apart [OF uok, of v ?b y] v b by blast
  qed
  then show ?thesis by (simp add: others_kept_def layout_def z)
qed

end
