(* ===== verification/Pt_Tree.thy ===== *)
theory Pt_Tree
  imports Paging Buddy_System "HOL-Library.Multiset"
begin

text \<open>
  A page table in the byte memory, read as a tree: which frames hold tables (\<open>tables\<close>), that no
  table is reached twice (\<open>separate\<close>), and to what an address is translated (\<open>resolve\<close>). The
  lemmas say what an entry that is written contributes to the tree, and that memory outside the
  tables of a tree has no influence on it. Levels are counted as in the code, so the root of a
  process's table is at level 4 and the tables that hold page entries are at level 1.
\<close>

subsection \<open>Addresses\<close>

text \<open>The number of address bits below the entries of a table at level \<open>Suc l\<close>.\<close>

definition low_bits :: "nat \<Rightarrow> nat" where
  "low_bits l = 12 + 9 * l"

lemma level_cases:
  assumes "l \<le> (3 :: nat)"
  obtains "l = 0" | "l = 1" | "l = 2" | "l = 3"
  using assms by linarith

lemma pt_shift_eq: "l \<le> 3 \<Longrightarrow> pt_shift (Suc l) = low_bits l"
  by (erule level_cases) (simp_all add: pt_shift_def low_bits_def)

lemma pt_order_eq: "l \<le> 3 \<Longrightarrow> pt_order (Suc l) = 9 * l"
  by (simp add: pt_order_def pt_shift_eq low_bits_def PAGE_BITS_def)

lemma pt_index_eq:
  assumes "l \<le> 3"
  shows "pt_index x (Suc l) = unat x div 2 ^ low_bits l mod 512"
proof -
  have msk: "[0xfff, 0x1ff, 0x1ff, 0x1ff, 0x1ff] ! Suc l = (mask 9 :: u64)"
    using assms by (elim level_cases) (simp_all add: mask_eq_exp_minus_1)
  have "unat (drop_bit (low_bits l) x AND mask 9) = take_bit 9 (unat (drop_bit (low_bits l) x))"
    by (simp add: unsigned_take_bit_eq flip: take_bit_eq_mask)
  then show ?thesis unfolding pt_index_def msk pt_shift_eq [OF assms]
    by (simp add: take_bit_eq_mod unat_drop_bit_eq flip: drop_bit_eq_div)
qed

lemma pt_index_less: "l \<le> 3 \<Longrightarrow> pt_index x (Suc l) < 512"
  by (simp add: pt_index_eq)

lemma pt_size_eq: "l \<le> 3 \<Longrightarrow> pt_size (Suc l) = 2 ^ low_bits l"
  by (simp add: pt_size_def pt_shift_eq push_bit_eq_mult)

lemma low_bits_le: "l \<le> 3 \<Longrightarrow> low_bits l \<le> 39" and low_bits_ge: "12 \<le> low_bits l"
  by (simp_all add: low_bits_def)

lemma low_bits_Suc: "low_bits (Suc l) = low_bits l + 9"
  by (simp add: low_bits_def)

lemma unat_pt_size: "l \<le> 3 \<Longrightarrow> unat (pt_size (Suc l)) = 2 ^ low_bits l"
  by (erule level_cases) (simp_all add: pt_size_def pt_shift_def low_bits_def push_bit_eq_mult)

text \<open>The end of the entry an address falls into.\<close>

definition entry_end :: "nat \<Rightarrow> nat \<Rightarrow> nat" where
  "entry_end l v = (v div 2 ^ low_bits l + 1) * 2 ^ low_bits l"

lemma entry_end_greater: "v < entry_end l v"
proof -
  have "v = v div 2 ^ low_bits l * 2 ^ low_bits l + v mod 2 ^ low_bits l"
    by (rule div_mult_mod_eq [symmetric])
  moreover have "v mod 2 ^ low_bits l < 2 ^ low_bits l" by simp
  ultimately show ?thesis unfolding entry_end_def by (simp only: distrib_right)
qed

lemma unat_pt_chunk:
  assumes l: "l \<le> 3" and v: "unat v < 2 ^ 48"
  shows "unat (pt_chunk (Suc l) v sz) = min (unat sz) (entry_end l (unat v) - unat v)"
proof -
  let ?k = "low_bits l" and ?e = "pt_size (Suc l)"
  have k: "(2 :: nat) ^ ?k \<le> 2 ^ 39" using low_bits_le [OF l] by (intro power_increasing) auto
  have "?e - 1 = mask ?k" using l by (simp add: pt_size_eq mask_eq_exp_minus_1)
  then have m: "(v + ?e) AND NOT (?e - 1) = NOT (mask ?k) AND (v + ?e)" by (simp add: and.commute)
  have "unat v + unat ?e < 2 ^ 64" using v k by (simp add: unat_pt_size [OF l])
  then have "unat (v + ?e) = unat v + 2 ^ ?k"
    using unat_add_lem [of v ?e] unat_pt_size [OF l] by simp
  then have e: "unat ((v + ?e) AND NOT (?e - 1)) = entry_end l (unat v)"
    unfolding m unat_clear_low by (simp add: entry_end_def div_add_self2 distrib_right)
  have "unat (((v + ?e) AND NOT (?e - 1)) - v) = entry_end l (unat v) - unat v"
    using entry_end_greater [of "unat v" l] unat_sub [of v "(v + ?e) AND NOT (?e - 1)"] e
    by (simp add: word_le_nat_alt)
  then show ?thesis
    unfolding pt_chunk_def Let_def by (simp add: word_less_nat_alt min_def)
qed

text \<open>The addresses below one entry: \<open>region l b\<close> has those with the upper bits \<open>b\<close>.\<close>

definition region :: "nat \<Rightarrow> nat \<Rightarrow> u64 set" where
  "region l b = {x. unat x div 2 ^ low_bits l = b}"

lemma region_Suc:
  assumes "l \<le> 3" and "x \<in> region (Suc l) b"
  shows "x \<in> region l (b * 512 + pt_index x (Suc l))"
proof -
  have "unat x div 2 ^ low_bits (Suc l) = unat x div 2 ^ low_bits l div 512"
    by (simp add: low_bits_Suc power_add div_mult2_eq)
  then have "unat x div 2 ^ low_bits l div 512 = b" using assms(2) by (simp add: region_def)
  then have "unat x div 2 ^ low_bits l = b * 512 + unat x div 2 ^ low_bits l mod 512"
    by (metis div_mult_mod_eq)
  then show ?thesis using assms(1) by (simp add: region_def pt_index_eq)
qed

lemma region_index:
  assumes "l \<le> 3" and "i < 512" and "x \<in> region l (b * 512 + i)"
  shows "pt_index x (Suc l) = i" and "x \<in> region (Suc l) b"
proof -
  have d: "unat x div 2 ^ low_bits l = b * 512 + i" using assms(3) by (simp add: region_def)
  then show "pt_index x (Suc l) = i" using assms(1,2) by (simp add: pt_index_eq)
  have "unat x div 2 ^ low_bits (Suc l) = unat x div 2 ^ low_bits l div 512"
    by (simp add: low_bits_Suc power_add div_mult2_eq)
  then show "x \<in> region (Suc l) b" using d assms(2) by (simp add: region_def)
qed

subsection \<open>Entries\<close>

definition table_addr :: "nat \<Rightarrow> u64" where
  "table_addr f = va (of_nat f * PAGE_SIZE)"

definition page_at :: "nat \<Rightarrow> u64 set" where
  "page_at f = span (table_addr f) 4096"

definition entry :: "mem \<Rightarrow> nat \<Rightarrow> nat \<Rightarrow> u64" where
  "entry m f i = pt_get m (table_addr f) i"

definition present :: "u64 \<Rightarrow> bool" where
  "present e \<longleftrightarrow> e AND PTE_PRESENT \<noteq> 0"

text \<open>An entry of a table at level \<open>Suc l\<close> that ends the walk.\<close>

definition final :: "nat \<Rightarrow> u64 \<Rightarrow> bool" where
  "final l e \<longleftrightarrow> l = 0 \<or> e AND PTE_LARGE \<noteq> 0"

definition target :: "u64 \<Rightarrow> nat" where
  "target e = frame (e AND PTE_PHYS_MASK)"

definition perms :: "u64 \<Rightarrow> u64" where
  "perms e = e AND (PTE_PRESENT OR PTE_WRITE OR PTE_USER)"

lemma phys_mask_eq: "PTE_PHYS_MASK = push_bit 12 (mask 40)"
  by (simp add: PTE_PHYS_MASK_def mask_eq_exp_minus_1 push_bit_eq_mult)

lemma frame_drop_bit: "frame p = unat (drop_bit 12 p)"
  by (simp add: frame_def PAGE_SIZE_def drop_bit_eq_div)

lemma target_less: "target e < 2 ^ 40"
proof -
  have "drop_bit 12 (e AND PTE_PHYS_MASK) = take_bit 40 (drop_bit 12 e)"
    unfolding phys_mask_eq
    by (rule bit_word_eqI)
      (auto simp: bit_simps)
  then have "target e = take_bit 40 (unat (drop_bit 12 e))"
    by (simp add: target_def frame_drop_bit unsigned_take_bit_eq)
  then show ?thesis by (simp add: take_bit_eq_mod)
qed

lemma of_nat_frame: "of_nat n * PAGE_SIZE = push_bit 12 (of_nat n :: u64)"
  by (simp add: PAGE_SIZE_def push_bit_eq_mult)

lemma phys_target: "e AND PTE_PHYS_MASK = of_nat (target e) * PAGE_SIZE"
proof -
  have "of_nat (target e) = drop_bit 12 (e AND PTE_PHYS_MASK)"
    by (simp add: target_def frame_drop_bit)
  moreover have "push_bit 12 (drop_bit 12 (e AND PTE_PHYS_MASK)) = e AND PTE_PHYS_MASK"
    unfolding phys_mask_eq by (rule bit_word_eqI) (auto simp: bit_simps)
  ultimately show ?thesis unfolding of_nat_frame by simp
qed

lemma va_target: "va (e AND PTE_PHYS_MASK) = table_addr (target e)"
  by (simp add: table_addr_def phys_target)

text \<open>An entry made of a frame number and flag bits.\<close>

definition mk_entry :: "nat \<Rightarrow> u64 \<Rightarrow> u64" where
  "mk_entry f flags = of_nat f * PAGE_SIZE OR flags"

lemma mk_entry_simps:
  assumes "f < 2 ^ 40" and "flags AND PTE_PHYS_MASK = 0"
  shows "target (mk_entry f flags) = f" and "present (mk_entry f flags) = present flags"
    and "final l (mk_entry f flags) = final l flags" and "perms (mk_entry f flags) = perms flags"
proof -
  have f: "unat (of_nat f :: u64) = f" using assms(1) by (intro unat_of_nat_u64) simp
  have "take_bit 40 (of_nat f :: u64) = of_nat f"
    using assms(1) by (intro word_unat_eq_iff [THEN iffD2]) (simp add: unsigned_take_bit_eq f take_bit_nat_eq_self)
  then have "mk_entry f flags AND PTE_PHYS_MASK = push_bit 12 (of_nat f)"
    using assms(2) unfolding mk_entry_def of_nat_frame phys_mask_eq
    by (simp add: word_ao_dist push_bit_and [symmetric] take_bit_eq_mask [symmetric])
  then show "target (mk_entry f flags) = f"
    using frame_addr(1) [of f] assms(1) unfolding target_def frame_def of_nat_frame by simp
  have low: "push_bit 12 (of_nat f) AND b = (0 :: u64)" if "b AND NOT (mask 12) = 0" for b :: u64
  proof (rule bit_word_eqI)
    fix n
    have "\<not> (bit b n \<and> 12 \<le> n)" if "n < 64"
    proof
      assume "bit b n \<and> 12 \<le> n"
      then have "bit (b AND NOT (mask 12)) n" using that by (simp add: bit_simps)
      then show False using \<open>b AND NOT (mask 12) = 0\<close> by simp
    qed
    then show "n < LENGTH(64) \<Longrightarrow> bit (push_bit 12 (of_nat f) AND b) n = bit (0 :: u64) n"
      by (auto simp: bit_simps)
  qed
  have 1: "PTE_PRESENT AND NOT (mask 12) = 0" "PTE_LARGE AND NOT (mask 12) = 0"
      "(PTE_PRESENT OR PTE_WRITE OR PTE_USER) AND NOT (mask 12) = 0"
    by (simp_all add: PTE_PRESENT_def PTE_LARGE_def PTE_WRITE_def PTE_USER_def mask_eq_exp_minus_1)
  show "present (mk_entry f flags) = present flags"
    and "final l (mk_entry f flags) = final l flags" and "perms (mk_entry f flags) = perms flags"
    using low [OF 1(1)] low [OF 1(2)] low [OF 1(3)]
    by (simp_all add: present_def final_def perms_def mk_entry_def of_nat_frame word_ao_dist)
qed

subsection \<open>Pages\<close>

lemma table_addr_diff:
  assumes "f < 2 ^ 52" and "g < 2 ^ 52" and "f < g"
  shows "4096 \<le> unat (table_addr g - table_addr f)" and "unat (table_addr g - table_addr f) \<le> 2 ^ 64 - 4096"
proof -
  have "table_addr g - table_addr f = of_nat g * PAGE_SIZE - of_nat f * PAGE_SIZE"
    by (simp add: table_addr_def va_def)
  then have d: "unat (table_addr g - table_addr f) = g * 4096 - f * 4096"
    using assms frame_addr(2) [OF assms(1)] frame_addr(2) [OF assms(2)]
      unat_sub [of "of_nat f * PAGE_SIZE" "of_nat g * PAGE_SIZE"]
    by (simp add: word_le_nat_alt)
  show "4096 \<le> unat (table_addr g - table_addr f)" unfolding d using assms by simp
  show "unat (table_addr g - table_addr f) \<le> 2 ^ 64 - 4096" unfolding d using assms by simp
qed

lemma pages_disjoint:
  assumes "f < 2 ^ 52" and "g < 2 ^ 52" and "f \<noteq> g"
  shows "page_at f \<inter> page_at g = {}"
proof -
  have one: "page_at f \<inter> page_at g = {}" if f: "f < 2 ^ 52" and g: "g < 2 ^ 52" and less: "f < g" for f g
  proof (rule ccontr)
    assume "page_at f \<inter> page_at g \<noteq> {}"
    then obtain i j where ij: "i < 4096" "j < 4096"
      "table_addr f + of_nat i = table_addr g + (of_nat j :: u64)"
      by (auto simp: page_at_def span_iff)
    define d where "d = unat (table_addr g - table_addr f)"
    have dd: "4096 \<le> d" "d \<le> 2 ^ 64 - 4096"
      using table_addr_diff [OF f g less] by (simp_all add: d_def)
    have "of_nat i = table_addr g - table_addr f + (of_nat j :: u64)"
      using ij(3) by (simp add: algebra_simps)
    then have "of_nat i = (of_nat (d + j) :: u64)" by (simp add: d_def)
    then have "unat (of_nat i :: u64) = unat (of_nat (d + j) :: u64)" by simp
    moreover have "unat (of_nat i :: u64) = i" using ij(1) by (intro unat_of_nat_u64) simp
    moreover have "unat (of_nat (d + j) :: u64) = d + j"
      using ij(2) dd(2) by (intro unat_of_nat_u64) simp
    ultimately show False using ij(1) dd(1) by linarith
  qed
  show ?thesis
  proof (cases "f < g")
    case True
    then show ?thesis using one assms by blast
  next
    case False
    then have "g < f" using assms(3) by simp
    then show ?thesis using one [OF assms(2,1)] by blast
  qed
qed

lemma span_within: "x \<in> span (a + of_nat i) n \<Longrightarrow> i + n \<le> k \<Longrightarrow> x \<in> span a k"
  by (auto simp: span_iff) (metis add.assoc nat_add_left_cancel_less of_nat_add order_less_le_trans)

lemma entry_in_page:
  assumes "i < 512"
  shows "span (table_addr f + 8 * of_nat i) 8 \<subseteq> page_at f"
proof
  fix x assume "x \<in> span (table_addr f + 8 * of_nat i) 8"
  then have x: "x \<in> span (table_addr f + of_nat (8 * i)) 8" by simp
  show "x \<in> page_at f" unfolding page_at_def by (rule span_within [OF x]) (use assms in simp)
qed

lemma entries_disjoint:
  assumes "i < 512" and "j < 512" and "i \<noteq> j"
  shows "span (a + 8 * of_nat i) 8 \<inter> span (a + 8 * of_nat j) 8 = {}"
proof (rule ccontr)
  assume "span (a + 8 * of_nat i) 8 \<inter> span (a + 8 * of_nat j) 8 \<noteq> {}"
  then obtain p q where pq: "p < 8" "q < 8"
    "a + 8 * of_nat i + of_nat p = a + 8 * of_nat j + (of_nat q :: u64)"
    by (auto simp: span_iff)
  then have "(of_nat (8 * i + p) :: u64) = of_nat (8 * j + q)" by simp
  then have "unat (of_nat (8 * i + p) :: u64) = unat (of_nat (8 * j + q) :: u64)" by simp
  moreover have "unat (of_nat (8 * i + p) :: u64) = 8 * i + p" "unat (of_nat (8 * j + q) :: u64) = 8 * j + q"
    using assms pq by (intro unat_of_nat_u64; simp)+
  ultimately have "8 * i + p = 8 * j + q" by simp
  then have "(8 * i + p) div 8 = (8 * j + q) div 8" by simp
  then show False using pq assms(3) by simp
qed

text \<open>Memories that agree on the page of a table have the same entries there.\<close>

definition agree :: "mem \<Rightarrow> mem \<Rightarrow> nat set \<Rightarrow> bool" where
  "agree m m' T \<longleftrightarrow> (\<forall>f\<in>T. \<forall>a\<in>page_at f. m' a = m a)"

lemma entry_cong:
  assumes "agree m m' T" and "f \<in> T" and "i < 512"
  shows "entry m' f i = entry m f i"
proof -
  have "load_le m' (table_addr f + 8 * of_nat i) 8 = load_le m (table_addr f + 8 * of_nat i) 8"
    using assms(1,2) entry_in_page [OF assms(3), of f] by (intro load_le_cong) (auto simp: agree_def)
  then show ?thesis by (simp add: entry_def pt_get_def load_u64_def)
qed

lemma entry_store:
  assumes "i < 512" and "j < 512"
  shows "entry (store_u64 m (table_addr f + 8 * of_nat i) e) f j = (if j = i then e else entry m f j)"
proof (cases "j = i")
  case True
  then show ?thesis by (simp add: entry_def pt_get_def load_store_u64)
next
  case False
  then show ?thesis
    using entries_disjoint [OF assms(1,2)]
    by (auto simp: entry_def pt_get_def intro!: load_store_u64_other)
qed

lemma store_entry_other:
  assumes "i < 512" and "x \<notin> page_at f"
  shows "store_u64 m (table_addr f + 8 * of_nat i) e x = m x"
  unfolding store_u64_def using entry_in_page [OF assms(1), of f] assms(2) by (intro store_le_other) blast

lemma zero_page:
  assumes "\<And>a. a \<in> page_at f \<Longrightarrow> m a = 0" and "i < 512"
  shows "entry m f i = 0"
proof -
  have z: "load_le (\<lambda>a. 0) a n = 0" for a n by (induction n arbitrary: a) simp_all
  have "load_le m (table_addr f + 8 * of_nat i) 8 = load_le (\<lambda>a. 0) (table_addr f + 8 * of_nat i) 8"
    using assms(1) entry_in_page [OF assms(2), of f] by (intro load_le_cong) auto
  then show ?thesis by (simp add: entry_def pt_get_def load_u64_def z)
qed

subsection \<open>The tree\<close>

text \<open>The entry \<open>i\<close> of the table in frame \<open>f\<close>, at level \<open>Suc l\<close>, refers to a table at level \<open>l\<close>.\<close>

definition points :: "mem \<Rightarrow> nat \<Rightarrow> nat \<Rightarrow> nat \<Rightarrow> bool" where
  "points m l f i \<longleftrightarrow> i < 512 \<and> present (entry m f i) \<and> \<not> final l (entry m f i)"

definition child :: "mem \<Rightarrow> nat \<Rightarrow> nat \<Rightarrow> nat" where
  "child m f i = target (entry m f i)"

primrec tables :: "mem \<Rightarrow> nat \<Rightarrow> nat \<Rightarrow> nat set" where
  "tables m 0 f = {}"
| "tables m (Suc l) f = insert f (\<Union>i\<in>{i. points m l f i}. tables m l (child m f i))"

primrec separate :: "mem \<Rightarrow> nat \<Rightarrow> nat \<Rightarrow> bool" where
  "separate m 0 f = True"
| "separate m (Suc l) f =
     ((\<forall>i. points m l f i \<longrightarrow> separate m l (child m f i) \<and> f \<notin> tables m l (child m f i)) \<and>
      (\<forall>i j. points m l f i \<longrightarrow> points m l f j \<longrightarrow> i \<noteq> j \<longrightarrow>
        tables m l (child m f i) \<inter> tables m l (child m f j) = {}))"

text \<open>The physical address of \<open>x\<close> and the permissions of the final entry, if there is one.\<close>

primrec resolve :: "mem \<Rightarrow> nat \<Rightarrow> nat \<Rightarrow> u64 \<Rightarrow> (u64 \<times> u64) option" where
  "resolve m 0 f x = None"
| "resolve m (Suc l) f x =
     (let e = entry m f (pt_index x (Suc l))
      in if \<not> present e then None
         else if final l e then Some ((e AND PTE_PHYS_MASK) OR (x AND mask (low_bits l)), perms e)
         else resolve m l (target e) x)"

text \<open>
  The blocks a tree holds, each as often as it is referred to: for an entry of a table at level
  \<open>Suc l\<close> the block of memory it maps, or the page of the table below and what that table holds.
\<close>

primrec held :: "mem \<Rightarrow> nat \<Rightarrow> nat \<Rightarrow> block multiset" where
  "held m 0 f = {#}"
| "held m (Suc l) f =
     (\<Sum>i<512. let e = entry m f i
      in if \<not> present e then {#}
         else if final l e then {#(target e, 9 * l)#}
         else add_mset (target e, 0) (held m l (target e)))"

definition slot :: "mem \<Rightarrow> nat \<Rightarrow> nat \<Rightarrow> nat \<Rightarrow> block multiset" where
  "slot m l f i =
     (let e = entry m f i
      in if \<not> present e then {#}
         else if final l e then {#(target e, 9 * l)#}
         else add_mset (target e, 0) (held m l (target e)))"

lemma held_Suc: "held m (Suc l) f = (\<Sum>i<512. slot m l f i)"
  by (simp add: slot_def)

declare held.simps(2) [simp del]

lemma held_except: "i < 512 \<Longrightarrow> held m (Suc l) f = slot m l f i + (\<Sum>j\<in>{..<512} - {i}. slot m l f j)"
  unfolding held_Suc by (rule sum.remove) simp_all

lemma slot_points: "points m l f i \<Longrightarrow> slot m l f i = add_mset (child m f i, 0) (held m l (child m f i))"
  by (simp add: slot_def points_def child_def Let_def)

lemma resolve_table:
  "points m l f (pt_index x (Suc l)) \<Longrightarrow> resolve m (Suc l) f x = resolve m l (child m f (pt_index x (Suc l))) x"
  by (simp add: points_def child_def Let_def)

lemma tables_root: "l \<noteq> 0 \<Longrightarrow> f \<in> tables m l f"
  by (cases l) simp_all

lemma tables_less: "t \<in> tables m l f \<Longrightarrow> t = f \<or> t < 2 ^ 40"
proof (induction l arbitrary: f)
  case (Suc l)
  then show ?case using target_less unfolding child_def by (auto simp: child_def)
qed simp

lemma agree_mono: "agree m m' T \<Longrightarrow> S \<subseteq> T \<Longrightarrow> agree m m' S"
  by (auto simp: agree_def)

text \<open>Memory outside its tables has no influence on a tree.\<close>

lemma tree_cong:
  assumes "agree m m' (tables m l f)" and "l \<le> 4"
  shows "tables m' l f = tables m l f \<and> separate m' l f = separate m l f \<and> resolve m' l f = resolve m l f \<and>
    held m' l f = held m l f"
  using assms
proof (induction l arbitrary: f)
  case (Suc l)
  have e: "entry m' f i = entry m f i" if "i < 512" for i
    using entry_cong [OF Suc.prems(1) _ that] by simp
  have p: "points m' l f i = points m l f i" for i by (auto simp: points_def e)
  have c: "child m' f i = child m f i" if "points m l f i" for i
    using that by (simp add: child_def e points_def)
  have IH: "tables m' l (child m f i) = tables m l (child m f i) \<and>
      separate m' l (child m f i) = separate m l (child m f i) \<and>
      resolve m' l (child m f i) = resolve m l (child m f i) \<and>
      held m' l (child m f i) = held m l (child m f i)" if i: "points m l f i" for i
    using Suc.prems i by (intro Suc.IH agree_mono [OF Suc.prems(1)]) auto
  have "resolve m' (Suc l) f x = resolve m (Suc l) f x" for x
  proof -
    have i: "pt_index x (Suc l) < 512" using Suc.prems(2) by (intro pt_index_less) simp
    show ?thesis
      using IH [of "pt_index x (Suc l)"] i
      by (auto simp: Let_def e [OF i] points_def child_def)
  qed
  moreover have "tables m' (Suc l) f = tables m (Suc l) f" using IH by (simp add: p c cong: SUP_cong_simp)
  moreover have "separate m' (Suc l) f = separate m (Suc l) f"
    using IH by (simp add: p c cong: conj_cong imp_cong)
  moreover have "slot m' l f i = slot m l f i" if "i < 512" for i
    using IH [of i] e [OF that] that by (auto simp: slot_def Let_def points_def child_def)
  then have "held m' (Suc l) f = held m (Suc l) f" unfolding held_Suc by (intro sum.cong) simp_all
  ultimately show ?case by auto
qed (auto simp: fun_eq_iff)

text \<open>The tables below entry \<open>i\<close>, and all others of the tree.\<close>

definition below :: "mem \<Rightarrow> nat \<Rightarrow> nat \<Rightarrow> nat \<Rightarrow> nat set" where
  "below m l f i = (if points m l f i then tables m l (child m f i) else {})"

definition beside :: "mem \<Rightarrow> nat \<Rightarrow> nat \<Rightarrow> nat \<Rightarrow> nat set" where
  "beside m l f i = insert f (\<Union>j\<in>{j. j \<noteq> i}. below m l f j)"

lemma tables_split: "tables m (Suc l) f = beside m l f i \<union> below m l f i"
  by (auto simp: beside_def below_def split: if_splits)

lemma separate_iff:
  "separate m (Suc l) f \<longleftrightarrow>
     (\<forall>i. points m l f i \<longrightarrow> separate m l (child m f i)) \<and> (\<forall>i. below m l f i \<inter> beside m l f i = {})"
  (is "?L \<longleftrightarrow> ?R1 \<and> ?R2")
proof
  assume L: ?L
  have "below m l f i \<inter> below m l f j = {}" if "i \<noteq> j" for i j
    using L that by (auto simp: below_def split: if_splits)
  moreover have "f \<notin> below m l f i" for i using L by (auto simp: below_def split: if_splits)
  ultimately show "?R1 \<and> ?R2" using L by (auto simp: beside_def)
next
  assume R: "?R1 \<and> ?R2"
  have "tables m l (child m f i) \<inter> tables m l (child m f j) = {}"
    if "points m l f i" "points m l f j" "i \<noteq> j" for i j
  proof -
    have "below m l f j \<subseteq> beside m l f i" using that by (auto simp: beside_def)
    then have "below m l f i \<inter> below m l f j = {}" using R by blast
    then show ?thesis using that by (simp add: below_def)
  qed
  moreover have "f \<notin> tables m l (child m f i)" if "points m l f i" for i
  proof -
    have "f \<in> beside m l f i" by (simp add: beside_def)
    then have "f \<notin> below m l f i" using R by blast
    then show ?thesis using that by (simp add: below_def)
  qed
  ultimately show ?L using R by simp
qed

text \<open>What hangs below entry \<open>j\<close> is the same in two memories, down to the contents of the tables.\<close>

definition branch_kept :: "nat \<Rightarrow> nat \<Rightarrow> mem \<Rightarrow> mem \<Rightarrow> nat \<Rightarrow> bool" where
  "branch_kept l f m m' j \<longleftrightarrow>
     slot m' l f j = slot m l f j \<and> below m' l f j = below m l f j \<and> agree m m' (below m l f j)"

lemma branch_keptD:
  assumes "branch_kept l f m m' j"
  shows "slot m' l f j = slot m l f j" and "below m' l f j = below m l f j" and "agree m m' (below m l f j)"
  using assms unfolding branch_kept_def by blast+

lemma branch_kept_refl: "branch_kept l f m m j"
  by (simp add: branch_kept_def agree_def)

lemma branch_kept_trans: "branch_kept l f m m1 j \<Longrightarrow> branch_kept l f m1 m2 j \<Longrightarrow> branch_kept l f m m2 j"
  by (simp add: branch_kept_def agree_def)

text \<open>A change that leaves all entries but entry \<open>i\<close> of the root and the tables below the others alone.\<close>

lemma tree_update:
  assumes "l \<le> 3" and others: "\<forall>j<512. j \<noteq> i \<longrightarrow> entry m' f j = entry m f j"
    and apart: "agree m m' (beside m l f i - {f})" and root: "\<forall>j. j \<noteq> i \<longrightarrow> f \<notin> below m l f j"
  shows "beside m' l f i = beside m l f i"
    and "pt_index x (Suc l) \<noteq> i \<Longrightarrow> resolve m' (Suc l) f x = resolve m (Suc l) f x"
    and "separate m (Suc l) f \<Longrightarrow> (points m' l f i \<Longrightarrow> separate m' l (child m' f i)) \<Longrightarrow>
      below m' l f i \<inter> beside m l f i = {} \<Longrightarrow> separate m' (Suc l) f"
    and "j < 512 \<Longrightarrow> j \<noteq> i \<Longrightarrow> slot m' l f j = slot m l f j"
    and "j \<noteq> i \<Longrightarrow> below m' l f j = below m l f j"
    and "j < 512 \<Longrightarrow> j \<noteq> i \<Longrightarrow> branch_kept l f m m' j"
proof -
  have other: "entry m' f j = entry m f j" if "j < 512" "j \<noteq> i" for j using others that by blast
  have away: "agree m m' (tables m l (child m f j))" if "points m l f j" "j \<noteq> i" for j
    using that root by (intro agree_mono [OF apart]) (auto simp: beside_def below_def)
  have p: "points m' l f j = points m l f j" if "j \<noteq> i" for j
    using other [of j] that by (auto simp: points_def)
  have c: "child m' f j = child m f j" if "points m l f j" "j \<noteq> i" for j
    using other [of j] that by (simp add: child_def points_def)
  have t: "tables m' l (child m f j) = tables m l (child m f j) \<and>
      separate m' l (child m f j) = separate m l (child m f j) \<and>
      resolve m' l (child m f j) = resolve m l (child m f j) \<and>
      held m' l (child m f j) = held m l (child m f j)" if "points m l f j" "j \<noteq> i" for j
    using tree_cong [OF away [OF that]] assms(1) by simp
  have b: "below m' l f j = below m l f j" if "j \<noteq> i" for j
    using p [OF that] c [OF _ that] t [OF _ that] by (simp add: below_def)
  show "j \<noteq> i \<Longrightarrow> below m' l f j = below m l f j" by (rule b)
  show be: "beside m' l f i = beside m l f i" using b by (simp add: beside_def)
  show "resolve m' (Suc l) f x = resolve m (Suc l) f x" if i: "pt_index x (Suc l) \<noteq> i"
  proof (cases "points m l f (pt_index x (Suc l))")
    case True
    then show ?thesis using p [OF i] c [OF True i] t [OF True i] by (simp only: resolve_table)
  next
    case False
    have "pt_index x (Suc l) < 512" using assms(1) by (rule pt_index_less)
    then show ?thesis using False other [OF _ i] by (auto simp: Let_def points_def)
  qed
  show sl: "slot m' l f j = slot m l f j" if j: "j < 512" "j \<noteq> i" for j
    using other [OF j] t [OF _ j(2)] j by (auto simp: slot_def Let_def points_def child_def)
  show "branch_kept l f m m' j" if j: "j < 512" "j \<noteq> i"
    using sl [OF j] b [OF j(2)] away [OF _ j(2)] by (auto simp: branch_kept_def below_def agree_def)
  assume sep: "separate m (Suc l) f" and own: "points m' l f i \<Longrightarrow> separate m' l (child m' f i)"
    and fresh: "below m' l f i \<inter> beside m l f i = {}"
  have s: "\<And>j. points m l f j \<Longrightarrow> separate m l (child m f j)" and d: "\<And>j. below m l f j \<inter> beside m l f j = {}"
    using sep unfolding separate_iff by blast+
  have "separate m' l (child m' f j)" if j: "points m' l f j" for j
  proof (cases "j = i")
    case False
    then have pj: "points m l f j" using p j by simp
    show ?thesis using s [OF pj] t [OF pj False] c [OF pj False] by simp
  qed (use own j in simp)
  moreover have "below m' l f j \<inter> beside m' l f j = {}" for j
  proof (cases "j = i")
    case True
    then show ?thesis using fresh be by simp
  next
    case False
    have "f \<notin> below m l f j" using d [of j] by (auto simp: beside_def)
    moreover have "below m l f j \<inter> below m l f k = {}" if "k \<noteq> j" for k
      using d [of j] that by (auto simp: beside_def)
    moreover have "below m l f j \<inter> below m' l f i = {}" using fresh False by (auto simp: beside_def)
    ultimately have "below m l f j \<inter> below m' l f k = {}" if "k \<noteq> j" for k
      using that b by (cases "k = i") auto
    then show ?thesis using \<open>f \<notin> below m l f j\<close> b [OF False] by (auto simp: beside_def)
  qed
  ultimately show "separate m' (Suc l) f" unfolding separate_iff by blast
qed

text \<open>The walk of \<open>pt_addr\<close> finds the address that \<open>resolve\<close> gives, and 0 if there is none.\<close>

lemma pt_walk_resolve:
  assumes "l \<le> 4" and "l \<noteq> 0"
  shows "pt_walk m x l (mask (low_bits l)) p (table_addr f) =
    (case resolve m l f x of None \<Rightarrow> 0 | Some (a, _) \<Rightarrow> a)"
  using assms
proof (induction l arbitrary: f p)
  case (Suc l)
  let ?e = "entry m f (pt_index x (Suc l))"
  have low: "drop_bit 9 (mask (low_bits (Suc l))) = (mask (low_bits l) :: u64)"
    using Suc.prems by (intro bit_word_eqI) (auto simp: bit_simps low_bits_def)
  show ?case
  proof (cases l)
    case 0
    then show ?thesis
      using low by (simp add: entry_def Let_def present_def final_def)
  next
    case (Suc k)
    have "pt_walk m x l (mask (low_bits l)) (?e AND PTE_PHYS_MASK) (table_addr (target ?e)) =
        (case resolve m l (target ?e) x of None \<Rightarrow> 0 | Some (a, _) \<Rightarrow> a)"
      using Suc.IH Suc \<open>Suc l \<le> 4\<close> by simp
    then show ?thesis
      using low Suc by (simp add: entry_def Let_def present_def final_def va_target)
  qed
qed simp

lemma pt_addr_resolve:
  "pt_addr m (table_addr f) x = (case resolve m 4 f x of None \<Rightarrow> 0 | Some (a, _) \<Rightarrow> a)"
proof -
  have "(0xffffffffffff :: u64) = mask (low_bits 4)" by (simp add: low_bits_def mask_eq_exp_minus_1)
  then show ?thesis using pt_walk_resolve [of 4] by (simp add: pt_addr_def)
qed

end
