(* ===== verification/Pt_Grow.thy ===== *)
theory Pt_Grow
  imports Pt_Tree
begin

text \<open>
  The steps by which a page table grows. \<open>tree_ok\<close> relates a table to the page allocator: its tables
  are pages in use, each reached once. \<open>grown\<close> says that a step only adds to a tree: new tables in
  fresh pages, translations outside a set of addresses unchanged, memory outside the tables
  untouched. \<open>backed\<close> says that a set of addresses is translated to fresh memory, no byte of it twice.
\<close>

subsection \<open>Allocation of pages\<close>

text \<open>A table entry holds addresses below \<open>2 ^ 52\<close>.\<close>

definition low_zones :: "'a buddy_scheme \<Rightarrow> bool" where
  "low_zones s \<longleftrightarrow> (\<forall>z\<in>set (buddy_zones s). zend z \<le> 2 ^ 40)"

text \<open>The number of pages that are not in use.\<close>

definition avail :: "'a buddy_scheme \<Rightarrow> block set \<Rightarrow> nat" where
  "avail s U = card (frames (buddy_zones s) - \<Union> (pages_of ` U))"

lemma low_zones_cong: "buddy_zones s' = buddy_zones s \<Longrightarrow> low_zones s' = low_zones s"
  by (simp add: low_zones_def)

lemma avail_cong: "buddy_zones s' = buddy_zones s \<Longrightarrow> avail s' U = avail s U"
  by (simp add: avail_def)

lemma avail_insert: "avail s U \<le> avail s (insert (f, k) U) + 2 ^ k"
proof -
  let ?A = "frames (buddy_zones s) - \<Union> (pages_of ` U)"
  have "frames (buddy_zones s) - \<Union> (pages_of ` insert (f, k) U) = ?A - pages_of (f, k)" by auto
  then have "avail s (insert (f, k) U) = card (?A - pages_of (f, k))" by (simp only: avail_def)
  moreover have "card ?A - card (pages_of (f, k)) \<le> card (?A - pages_of (f, k))"
    by (rule diff_card_le_card_Diff) (simp add: pages_of_def)
  moreover have "card (pages_of (f, k)) = 2 ^ k" by (simp add: pages_of_def)
  ultimately show ?thesis unfolding avail_def [of s U] by linarith
qed

lemma buddy_alloc_page:
  fixes s :: "'a buddy_scheme"
  assumes ok: "buddy_ok s U" and low: "low_zones s" and run: "buddy_alloc k s = (phys, s')" and ne: "phys \<noteq> 0"
  shows "buddy_ok s' (insert (frame phys, k) U)" and "low_zones s'" and "frame phys + 2 ^ k \<le> 2 ^ 40"
    and "2 ^ k dvd frame phys" and "phys = of_nat (frame phys) * PAGE_SIZE"
    and "s' = s\<lparr>buddy_zones := buddy_zones s'\<rparr>" and "x \<in> U \<Longrightarrow> pages_of (frame phys, k) \<inter> pages_of x = {}"
    and "avail s U \<le> avail s' (insert (frame phys, k) U) + 2 ^ k" and "2 ^ k \<le> avail s U"
proof -
  let ?f = "frame phys"
  note sp = buddy_alloc_spec(1) [OF ok run ne]
  show "buddy_ok s' (insert (?f, k) U)" using sp by simp
  show "2 ^ k dvd ?f" "phys = of_nat ?f * PAGE_SIZE" "s' = s\<lparr>buddy_zones := buddy_zones s'\<rparr>"
    using sp by blast+
  show "x \<in> U \<Longrightarrow> pages_of (?f, k) \<inter> pages_of x = {}" by (rule pages.alloc_fresh [OF ok run ne])
  have inv: "buddy_inv s U" using ok by (simp add: buddy_ok_def)
  obtain i p where "do_buddy_alloc k s = (Some (i, p), s')"
    using run ne by (auto simp: buddy_alloc_def do_buddy_alloc_def split: prod.splits option.splits)
  from do_buddy_alloc_Some(8) [OF inv this] obtain z' where z': "zbegin z' = zbegin (buddy_zones s ! i)"
      "zend z' = zend (buddy_zones s ! i)" "s' = s\<lparr>buddy_zones := (buddy_zones s)[i := z']\<rparr>" by blast
  have lay: "layout s' = layout s" by (rule layout_update [OF z'(1,2)]) (simp add: z'(3))
  then have ends: "map zend (buddy_zones s') = map zend (buddy_zones s)"
    unfolding layout_def by (metis (no_types, lifting) map_eq_conv map_map comp_apply snd_conv ext)
  have "frames (buddy_zones s) = (\<Union>x\<in>set (layout s). {fst x..<snd x})" for s :: "'a buddy_scheme"
    by (auto simp: frames_def layout_def)
  then have fr: "frames (buddy_zones s') = frames (buddy_zones s)" using lay by simp
  show low': "low_zones s'" using low ends unfolding low_zones_def by (metis (mono_tags, lifting) image_iff list.set_map)
  have zi: "zones_inv (buddy_zones s') (insert (?f, k) U)" using sp by (simp add: buddy_ok_def buddy_inv_def)
  then obtain z where z: "z \<in> set (buddy_zones s')" "zbegin z \<le> ?f" "?f < zend z"
    unfolding zones_inv_def by blast
  then obtain L where "zone_inv z L (zone_used z (insert (?f, k) U)) {}" using zi unfolding zones_inv_def by blast
  then have "?f + 2 ^ k \<le> zend z" using zone_used_pages(1) z by blast
  then have fe: "?f + 2 ^ k \<le> zend z" .
  then show "?f + 2 ^ k \<le> 2 ^ 40" using low' z(1) by (auto simp: low_zones_def)
  have "pages_of (?f, k) \<subseteq> frames (buddy_zones s')" using z fe unfolding frames_def by fastforce
  moreover have "pages_of (?f, k) \<inter> \<Union> (pages_of ` U) = {}" using pages.alloc_fresh [OF ok run ne] by blast
  ultimately have "pages_of (?f, k) \<subseteq> frames (buddy_zones s) - \<Union> (pages_of ` U)" unfolding fr by blast
  then have "card (pages_of (?f, k)) \<le> avail s U"
    unfolding avail_def by (intro card_mono) (simp_all add: frames_def)
  then show "2 ^ k \<le> avail s U" by (simp add: pages_of_def)
  have "avail s' (insert (?f, k) U) = avail s (insert (?f, k) U)" by (simp add: avail_def fr)
  then show "avail s U \<le> avail s' (insert (?f, k) U) + 2 ^ k" using avail_insert [of s U ?f k] by simp
qed

lemma buddy_alloc_fails:
  assumes ok: "buddy_ok s U" and run: "buddy_alloc k s = (0, s')"
  shows "s' = s" and "k = 0 \<Longrightarrow> avail s U = 0"
proof -
  show "s' = s" using buddy_alloc_spec(2) [OF ok run] by simp
  show "avail s U = 0" if "k = 0"
  proof (rule ccontr)
    assume "avail s U \<noteq> 0"
    then have "frames (buddy_zones s) - \<Union> (pages_of ` U) \<noteq> {}" unfolding avail_def by (metis card.empty)
    then obtain f where f: "f \<in> frames (buddy_zones s)" "f \<notin> \<Union> (pages_of ` U)" by blast
    obtain z where "z \<in> set (buddy_zones s)" "zbegin z \<le> f" "f < zend z" using f(1) by (auto simp: frames_def)
    moreover have "pages_of (f, 0) = {f}" by (auto simp: pages_of_def)
    ultimately have "free_run s U 0 f" using f(2) by (auto simp: free_run_def)
    then show False using buddy_alloc_spec(3) [OF ok run, of f] that by simp
  qed
qed


subsection \<open>Growing a tree\<close>

definition tree_ok :: "'a paging_scheme \<Rightarrow> block set \<Rightarrow> nat \<Rightarrow> nat \<Rightarrow> bool" where
  "tree_ok s U l f \<longleftrightarrow> buddy_ok s U \<and> low_zones s \<and> f < 2 ^ 52 \<and> separate (memory s) l f \<and>
     (\<forall>t\<in>tables (memory s) l f. (t, 0) \<in> U)"

text \<open>The step changes nothing but the allocator and the memory.\<close>

definition pt_frame :: "'a paging_scheme \<Rightarrow> 'a paging_scheme \<Rightarrow> bool" where
  "pt_frame s s' \<longleftrightarrow> s' = s\<lparr>buddy_zones := buddy_zones s', memory := memory s'\<rparr>"

lemma pt_frame_refl: "pt_frame s s"
  by (simp add: pt_frame_def)

lemma pt_frame_trans:
  assumes "pt_frame s s1" and "pt_frame s1 s2"
  shows "pt_frame s s2"
proof -
  obtain z m where 1: "s1 = s\<lparr>buddy_zones := z, memory := m\<rparr>" using assms(1) unfolding pt_frame_def by blast
  obtain z' m' where 2: "s2 = s1\<lparr>buddy_zones := z', memory := m'\<rparr>" using assms(2) unfolding pt_frame_def by blast
  show ?thesis unfolding pt_frame_def 2 unfolding 1 by simp
qed

text \<open>The blocks that have come into use are exactly those a tree holds in addition.\<close>

definition gained :: "block set \<Rightarrow> block set \<Rightarrow> block multiset \<Rightarrow> block multiset \<Rightarrow> bool" where
  "gained U U' M M' \<longleftrightarrow> (\<exists>N. finite N \<and> U' = U \<union> N \<and> U \<inter> N = {} \<and> (\<forall>k. (0, k) \<notin> N) \<and> M' = M + mset_set N)"

lemma gained_refl: "gained U U M M"
  unfolding gained_def by (rule exI [of _ "{}"]) simp

lemma gained_trans:
  assumes "gained U U1 M M1" and "gained U1 U2 M1 M2"
  shows "gained U U2 M M2"
proof -
  obtain N1 where n1: "finite N1" "U1 = U \<union> N1" "U \<inter> N1 = {}" "\<forall>k. (0, k) \<notin> N1" "M1 = M + mset_set N1"
    using assms(1) unfolding gained_def by blast
  obtain N2 where n2: "finite N2" "U2 = U1 \<union> N2" "U1 \<inter> N2 = {}" "\<forall>k. (0, k) \<notin> N2" "M2 = M1 + mset_set N2"
    using assms(2) unfolding gained_def by blast
  have "N1 \<inter> N2 = {}" using n1(2) n2(3) by blast
  then have "mset_set (N1 \<union> N2) = mset_set N1 + mset_set N2" using n1(1) n2(1) by (simp add: mset_set_Union)
  then have "M2 = M + mset_set (N1 \<union> N2)" using n1(5) n2(5) by (simp add: add.assoc)
  moreover have "finite (N1 \<union> N2)" "U2 = U \<union> (N1 \<union> N2)" "U \<inter> (N1 \<union> N2) = {}" "\<forall>k. (0, k) \<notin> N1 \<union> N2"
    using n1(1-4) n2(1-4) by auto
  ultimately show ?thesis unfolding gained_def by blast
qed

lemma gained_add:
  assumes "gained U U' M M'"
  shows "gained U U' (K + M) (K + M')"
proof -
  obtain N where n: "finite N" "U' = U \<union> N" "U \<inter> N = {}" "\<forall>k. (0, k) \<notin> N" "M' = M + mset_set N"
    using assms unfolding gained_def by blast
  have "K + M' = K + M + mset_set N" unfolding n(5) by (simp only: add.assoc)
  then show ?thesis unfolding gained_def using n(1-4) by blast
qed

lemma gained_block: "x \<notin> U \<Longrightarrow> fst x \<noteq> 0 \<Longrightarrow> gained U (insert x U) M (add_mset x M)"
  unfolding gained_def by (intro exI [of _ "{x}"]) auto

text \<open>The entries of the root with no address in \<open>R\<close> hold what they held, and lead to the same tables.\<close>

definition slots_kept :: "nat \<Rightarrow> nat \<Rightarrow> nat \<Rightarrow> u64 set \<Rightarrow> mem \<Rightarrow> mem \<Rightarrow> bool" where
  "slots_kept l f b R m m' \<longleftrightarrow>
     (\<forall>j<512. region (l - 1) (b * 512 + j) \<inter> R = {} \<longrightarrow> branch_kept (l - 1) f m m' j)"

lemma slots_kept_refl: "slots_kept l f b R m m"
  by (simp add: slots_kept_def branch_kept_refl)

lemma slots_kept_mono: "slots_kept l f b R m m' \<Longrightarrow> R \<subseteq> R' \<Longrightarrow> slots_kept l f b R' m m'"
  unfolding slots_kept_def by (metis Int_mono order_refl subset_empty)

lemma slots_kept_trans:
  assumes "slots_kept l f b R m m'" and "slots_kept l f b R m' m''"
  shows "slots_kept l f b R m m''"
  using assms branch_kept_trans unfolding slots_kept_def by blast

definition grown ::
    "nat \<Rightarrow> nat \<Rightarrow> nat \<Rightarrow> u64 set \<Rightarrow> 'a paging_scheme \<Rightarrow> block set \<Rightarrow> 'a paging_scheme \<Rightarrow> block set \<Rightarrow> bool" where
  "grown l f b R s U s' U' \<longleftrightarrow> tree_ok s' U' l f \<and> U \<subseteq> U' \<and>
     tables (memory s) l f \<subseteq> tables (memory s') l f \<and>
     (\<forall>t\<in>tables (memory s') l f - tables (memory s) l f. t \<notin> \<Union> (pages_of ` U)) \<and>
     (\<forall>a. a \<notin> \<Union> (page_at ` tables (memory s') l f) \<longrightarrow> memory s' a = memory s a) \<and>
     (\<forall>x\<in>region l b - R. resolve (memory s') l f x = resolve (memory s) l f x) \<and>
     slots_kept l f b R (memory s) (memory s') \<and> gained U U' (held (memory s) l f) (held (memory s') l f) \<and> pt_frame s s'"

text \<open>
  The byte at physical address \<open>p\<close>, at the place of \<open>x\<close> in its page, was allocated since \<open>U\<close> was
  in use and is in none of the frames \<open>T\<close>.
\<close>

definition fresh_byte :: "u64 \<Rightarrow> u64 \<Rightarrow> block set \<Rightarrow> block set \<Rightarrow> nat set \<Rightarrow> bool" where
  "fresh_byte x p U U' T \<longleftrightarrow> p AND mask 12 = x AND mask 12 \<and> frame p \<in> \<Union> (pages_of ` U') \<and>
     frame p \<notin> \<Union> (pages_of ` U) \<and> frame p \<notin> T"

definition backed ::
    "nat \<Rightarrow> nat \<Rightarrow> u64 set \<Rightarrow> u64 \<Rightarrow> block set \<Rightarrow> 'a paging_scheme \<Rightarrow> block set \<Rightarrow> bool" where
  "backed l f R fl U s' U' \<longleftrightarrow>
     (\<forall>x\<in>R. \<exists>p. resolve (memory s') l f x = Some (p, fl) \<and> fresh_byte x p U U' (tables (memory s') l f)) \<and>
     inj_on (resolve (memory s') l f) R"

lemma fresh_byte_mono:
  "fresh_byte x p U U' T \<Longrightarrow> V \<subseteq> U \<Longrightarrow> U' \<subseteq> V' \<Longrightarrow> frame p \<notin> S \<Longrightarrow> fresh_byte x p V V' S"
  unfolding fresh_byte_def by (intro conjI) blast+

lemma grownD:
  assumes "grown l f b R s U s' U'"
  shows "tree_ok s' U' l f" and "U \<subseteq> U'" and "tables (memory s) l f \<subseteq> tables (memory s') l f"
    and "t \<in> tables (memory s') l f \<Longrightarrow> t \<notin> tables (memory s) l f \<Longrightarrow> t \<notin> \<Union> (pages_of ` U)"
    and "a \<notin> \<Union> (page_at ` tables (memory s') l f) \<Longrightarrow> memory s' a = memory s a"
    and "x \<in> region l b \<Longrightarrow> x \<notin> R \<Longrightarrow> resolve (memory s') l f x = resolve (memory s) l f x"
    and "pt_frame s s'"
    and "slots_kept l f b R (memory s) (memory s')"
    and "gained U U' (held (memory s) l f) (held (memory s') l f)"
  using assms unfolding grown_def by blast+

lemma backedD:
  assumes "backed l f R fl U s' U'"
  shows "x \<in> R \<Longrightarrow> \<exists>p. resolve (memory s') l f x = Some (p, fl) \<and>
      fresh_byte x p U U' (tables (memory s') l f)"
    and "inj_on (resolve (memory s') l f) R"
  using assms unfolding backed_def by auto

lemma grown_refl: "tree_ok s U l f \<Longrightarrow> grown l f b R s U s U"
  by (simp add: grown_def pt_frame_refl gained_refl slots_kept_refl)

lemma grown_mono:
  assumes "grown l f b R s U s' U'" and "R \<subseteq> R'"
  shows "grown l f b R' s U s' U'"
proof -
  note d = grownD [OF assms(1)]
  have "slots_kept l f b R' (memory s) (memory s')" by (rule slots_kept_mono [OF d(8) assms(2)])
  moreover have "resolve (memory s') l f x = resolve (memory s) l f x" if "x \<in> region l b - R'" for x
    using that assms(2) by (intro d(6)) blast+
  ultimately show ?thesis using d(1-5,7,9) unfolding grown_def by blast
qed

lemma grown_trans:
  assumes g1: "grown l f b R1 s U s1 U1" and g2: "grown l f b R2 s1 U1 s2 U2"
  shows "grown l f b (R1 \<union> R2) s U s2 U2"
proof -
  note d1 = grownD [OF g1] and d2 = grownD [OF g2]
  have "memory s2 a = memory s a" if "a \<notin> \<Union> (page_at ` tables (memory s2) l f)" for a
  proof -
    have "a \<notin> \<Union> (page_at ` tables (memory s1) l f)" using that d2(3) by blast
    then show ?thesis using that d1(5) d2(5) by simp
  qed
  moreover have "t \<notin> \<Union> (pages_of ` U)" if "t \<in> tables (memory s2) l f - tables (memory s) l f" for t
  proof (cases "t \<in> tables (memory s1) l f")
    case True
    then show ?thesis using that d1(4) by blast
  next
    case False
    then have "t \<notin> \<Union> (pages_of ` U1)" using that d2(4) by blast
    then show ?thesis using d1(2) by blast
  qed
  moreover have "resolve (memory s2) l f x = resolve (memory s) l f x" if "x \<in> region l b - (R1 \<union> R2)" for x
    using that d1(6) d2(6) by simp
  moreover have "pt_frame s s2" using d1(7) d2(7) by (rule pt_frame_trans)
  moreover have "slots_kept l f b (R1 \<union> R2) (memory s) (memory s2)"
    by (rule slots_kept_trans [OF slots_kept_mono [OF d1(8)] slots_kept_mono [OF d2(8)]]) simp_all
  moreover have "gained U U2 (held (memory s) l f) (held (memory s2) l f)"
    using d1(9) d2(9) by (rule gained_trans)
  moreover have "tables (memory s) l f \<subseteq> tables (memory s2) l f" "U \<subseteq> U2"
    using d1(2,3) d2(2,3) by blast+
  ultimately show ?thesis using d2(1) unfolding grown_def by blast
qed

lemma inj_on_Un_apart:
  assumes "inj_on g A" and "inj_on g B" and "\<And>x y. x \<in> A \<Longrightarrow> y \<in> B \<Longrightarrow> g x \<noteq> g y"
  shows "inj_on g (A \<union> B)"
proof (rule inj_onI)
  fix x y assume "x \<in> A \<union> B" "y \<in> A \<union> B" and e: "g x = g y"
  then consider "x \<in> A" "y \<in> A" | "x \<in> B" "y \<in> B" | "x \<in> A" "y \<in> B" | "y \<in> A" "x \<in> B" by blast
  then show "x = y"
  proof cases
    case 1
    then show ?thesis using assms(1) e by (auto dest: inj_onD)
  next
    case 2
    then show ?thesis using assms(2) e by (auto dest: inj_onD)
  next
    case 3
    then show ?thesis using assms(3) e by blast
  next
    case 4
    then show ?thesis using assms(3) [OF 4] e by simp
  qed
qed

lemma backed_trans:
  assumes g: "grown l f b R2 s1 U1 s2 U2" and b1: "backed l f R1 fl U s1 U1" and b2: "backed l f R2 fl U1 s2 U2"
    and sub: "U \<subseteq> U1" and R1: "R1 \<subseteq> region l b" and d: "R1 \<inter> R2 = {}"
  shows "backed l f (R1 \<union> R2) fl U s2 U2"
proof -
  note dg = grownD [OF g]
  let ?r = "resolve (memory s2) l f"
  have same: "?r x = resolve (memory s1) l f x" if "x \<in> R1" for x
    using dg(6) that R1 d by blast
  have p1: "\<exists>p. ?r x = Some (p, fl) \<and> fresh_byte x p U U1 (tables (memory s2) l f)" if x: "x \<in> R1" for x
  proof -
    obtain p where p: "resolve (memory s1) l f x = Some (p, fl)"
      and q: "fresh_byte x p U U1 (tables (memory s1) l f)"
      using backedD(1) [OF b1 x] by blast
    have "frame p \<notin> tables (memory s2) l f" using dg(4) q unfolding fresh_byte_def by blast
    then have "fresh_byte x p U U1 (tables (memory s2) l f)" by (rule fresh_byte_mono [OF q order_refl order_refl])
    then show ?thesis using p same [OF x] by simp
  qed
  note p2 = backedD(1) [OF b2]
  have "inj_on ?r (R1 \<union> R2)"
  proof (rule inj_on_Un_apart)
    have "inj_on (resolve (memory s1) l f) R1" by (rule backedD(2) [OF b1])
    then show "inj_on ?r R1" using same by (simp cong: inj_on_cong)
    show "inj_on ?r R2" by (rule backedD(2) [OF b2])
    show "?r x \<noteq> ?r y" if x: "x \<in> R1" and y: "y \<in> R2" for x y
    proof
      obtain p where p: "?r x = Some (p, fl)" "frame p \<in> \<Union> (pages_of ` U1)"
        using p1 [OF x] unfolding fresh_byte_def by blast
      obtain q where q: "?r y = Some (q, fl)" "frame q \<notin> \<Union> (pages_of ` U1)"
        using p2 [OF y] unfolding fresh_byte_def by blast
      assume "?r x = ?r y"
      then have "p = q" using p(1) q(1) by simp
      then show False using p(2) q(2) by simp
    qed
  qed
  moreover have "\<exists>p. ?r x = Some (p, fl) \<and> fresh_byte x p U U2 (tables (memory s2) l f)"
    if "x \<in> R1 \<union> R2" for x
  proof (cases "x \<in> R1")
    case True
    then obtain p where p: "?r x = Some (p, fl)" and q: "fresh_byte x p U U1 (tables (memory s2) l f)"
      using p1 by blast
    have "fresh_byte x p U U2 (tables (memory s2) l f)"
      by (rule fresh_byte_mono [OF q order_refl dg(2)]) (use q in \<open>simp add: fresh_byte_def\<close>)
    then show ?thesis using p by blast
  next
    case False
    then have "x \<in> R2" using that by blast
    then obtain p where p: "?r x = Some (p, fl)" and q: "fresh_byte x p U1 U2 (tables (memory s2) l f)"
      using p2 by blast
    have "fresh_byte x p U U2 (tables (memory s2) l f)"
      by (rule fresh_byte_mono [OF q sub order_refl]) (use q in \<open>simp add: fresh_byte_def\<close>)
    then show ?thesis using p by blast
  qed
  ultimately show ?thesis unfolding backed_def by blast
qed

subsection \<open>Steps\<close>

lemma tree_okD:
  assumes "tree_ok s U l f"
  shows "buddy_ok s U" and "low_zones s" and "f < 2 ^ 52" and "separate (memory s) l f"
    and "t \<in> tables (memory s) l f \<Longrightarrow> (t, 0) \<in> U" and "t \<in> tables (memory s) l f \<Longrightarrow> t < 2 ^ 52"
proof -
  show "buddy_ok s U" "low_zones s" and f: "f < 2 ^ 52" and "separate (memory s) l f"
    and "t \<in> tables (memory s) l f \<Longrightarrow> (t, 0) \<in> U"
    using assms by (auto simp: tree_ok_def)
  show "t \<in> tables (memory s) l f \<Longrightarrow> t < 2 ^ 52"
    using tables_less [of t "memory s" l f] f by (auto intro: less_le_trans)
qed

lemma used_frame: "(t, 0) \<in> U \<Longrightarrow> t \<in> \<Union> (pages_of ` U)"
  by (auto intro!: bexI [of _ "(t, 0)"])

text \<open>The recursive call works on the table below one entry.\<close>

lemma grown_descend:
  assumes ok: "tree_ok s U (Suc l) f" and l: "l \<le> 3" and p: "points (memory s) l f i"
    and g: "grown l (child (memory s) f i) (b * 512 + i) R s U s' U'"
    and R: "R \<subseteq> region l (b * 512 + i)" "R \<noteq> {}"
  shows "grown (Suc l) f b R s U s' U'"
    and "backed l (child (memory s) f i) R fl U s' U' \<Longrightarrow> backed (Suc l) f R fl U s' U'"
proof -
  let ?m = "memory s" and ?m' = "memory s'" and ?c = "child (memory s) f i"
  note o = tree_okD [OF ok] and dg = grownD [OF g]
  have i: "i < 512" using p by (simp add: points_def)
  have sep: "\<And>j. points ?m l f j \<Longrightarrow> separate ?m l (child ?m f j)" "\<And>j. below ?m l f j \<inter> beside ?m l f j = {}"
    using o(4) unfolding separate_iff by blast+
  have own: "below ?m l f i = tables ?m l ?c" using p by (simp add: below_def)
  have inU: "t \<in> \<Union> (pages_of ` U)" if "t \<in> beside ?m l f i" for t
    using that o(5) tables_split [of ?m l f i] by (intro used_frame) blast
  have apart: "tables ?m' l ?c \<inter> beside ?m l f i = {}"
  proof -
    have "t \<notin> beside ?m l f i" if t: "t \<in> tables ?m' l ?c" for t
    proof (cases "t \<in> tables ?m l ?c")
      case True
      then show ?thesis using sep(2) [of i] unfolding own by blast
    next
      case False
      then show ?thesis using dg(4) [OF t] inU by blast
    qed
    then show ?thesis by blast
  qed
  have agr: "agree ?m ?m' (beside ?m l f i)"
    unfolding agree_def
  proof (intro ballI)
    fix t a assume t: "t \<in> beside ?m l f i" and a: "a \<in> page_at t"
    have "t < 2 ^ 52" using t o(6) tables_split [of ?m l f i] by blast
    moreover have "u < 2 ^ 52" if "u \<in> tables ?m' l ?c" for u using tree_okD(6) [OF dg(1) that] .
    ultimately have "a \<notin> \<Union> (page_at ` tables ?m' l ?c)" using t a apart pages_disjoint by blast
    then show "?m' a = ?m a" by (rule dg(5))
  qed
  have e: "entry ?m' f j = entry ?m f j" if "j < 512" for j
    by (rule entry_cong [OF agr _ that]) (simp add: beside_def)
  have p': "points ?m' l f i" "child ?m' f i = ?c" using p by (simp_all add: points_def child_def e)
  have "f \<notin> below ?m l f j" for j using sep(2) [of j] by (auto simp: beside_def)
  then have root: "\<forall>j. j \<noteq> i \<longrightarrow> f \<notin> below ?m l f j" by blast
  have others: "\<forall>j<512. j \<noteq> i \<longrightarrow> entry ?m' f j = entry ?m f j" using e by blast
  note up = tree_update [OF l others agree_mono [OF agr Diff_subset] root]
  have own': "below ?m' l f i = tables ?m' l ?c" using p' by (simp add: below_def)
  have sep': "separate ?m' (Suc l) f"
    using up(3) [OF o(4)] p' apart own' tree_okD(4) [OF dg(1)] by simp
  have be: "beside ?m' l f i = beside ?m l f i" using up(1) by simp
  have tab: "tables ?m' (Suc l) f = beside ?m l f i \<union> tables ?m' l ?c"
    using tables_split [of ?m' l f i] be own' by simp
  have tab0: "tables ?m (Suc l) f = beside ?m l f i \<union> tables ?m l ?c"
    using tables_split [of ?m l f i] own by simp
  have at: "resolve ?m' (Suc l) f x = resolve ?m' l ?c x" "resolve ?m (Suc l) f x = resolve ?m l ?c x"
    if "pt_index x (Suc l) = i" for x
    using resolve_table [of ?m' l f x] resolve_table [of ?m l f x] p p' that by simp_all
  show "grown (Suc l) f b R s U s' U'"
    unfolding grown_def
  proof (intro conjI ballI allI impI)
    have "(t, 0) \<in> U'" if "t \<in> tables ?m' (Suc l) f" for t
    proof (cases "t \<in> tables ?m' l ?c")
      case True
      then show ?thesis by (rule tree_okD(5) [OF dg(1)])
    next
      case False
      then have "t \<in> tables ?m (Suc l) f" using that tab tab0 by blast
      then show ?thesis using o(5) dg(2) by blast
    qed
    then show "tree_ok s' U' (Suc l) f"
      using sep' o(3) tree_okD(1,2) [OF dg(1)] by (simp add: tree_ok_def del: tables.simps separate.simps)
    show "U \<subseteq> U'" "pt_frame s s'" by (rule dg(2), rule dg(7))
    have "branch_kept l f ?m ?m' j" if "j < 512" "region l (b * 512 + j) \<inter> R = {}" for j
    proof -
      have "j \<noteq> i" using that R by blast
      then show ?thesis using up(6) that by blast
    qed
    then show "slots_kept (Suc l) f b R ?m ?m'" unfolding slots_kept_def diff_Suc_1 by blast
    have "slot ?m l f i = {#(?c, 0)#} + held ?m l ?c" "slot ?m' l f i = {#(?c, 0)#} + held ?m' l ?c"
      using slot_points [OF p] slot_points [OF p'(1)] p'(2) by simp_all
    moreover have "(\<Sum>j\<in>{..<512} - {i}. slot ?m' l f j) = (\<Sum>j\<in>{..<512} - {i}. slot ?m l f j)"
      using up(4) by (intro sum.cong) auto
    ultimately show "gained U U' (held ?m (Suc l) f) (held ?m' (Suc l) f)"
      unfolding held_except [OF i]
      using gained_add [OF dg(9), of "(\<Sum>j\<in>{..<512} - {i}. slot ?m l f j) + {#(?c, 0)#}"] by (simp add: ac_simps)
    show "tables ?m (Suc l) f \<subseteq> tables ?m' (Suc l) f" using dg(3) tab tab0 by blast
    show "t \<notin> \<Union> (pages_of ` U)" if "t \<in> tables ?m' (Suc l) f - tables ?m (Suc l) f" for t
      using that tab tab0 by (intro dg(4)) blast+
    show "?m' a = ?m a" if "a \<notin> \<Union> (page_at ` tables ?m' (Suc l) f)" for a
      using that tab by (intro dg(5)) blast
    fix x assume x: "x \<in> region (Suc l) b - R"
    show "resolve ?m' (Suc l) f x = resolve ?m (Suc l) f x"
    proof (cases "pt_index x (Suc l) = i")
      case True
      then have "x \<in> region l (b * 512 + i)" using region_Suc [OF l, of x b] x by simp
      then show ?thesis unfolding at [OF True] using x by (intro dg(6)) blast+
    qed (rule up(2))
  qed
  assume bk: "backed l ?c R fl U s' U'"
  have idx: "pt_index x (Suc l) = i" if "x \<in> R" for x using R(1) that region_index(1) [OF l i] by blast
  have fr: "resolve ?m' (Suc l) f x = resolve ?m' l ?c x" if "x \<in> R" for x by (rule at(1) [OF idx [OF that]])
  have "inj_on (resolve ?m' (Suc l) f) R"
    using backedD(2) [OF bk] fr by (simp cong: inj_on_cong del: resolve.simps)
  moreover have "\<exists>q. resolve ?m' (Suc l) f x = Some (q, fl) \<and> fresh_byte x q U U' (tables ?m' (Suc l) f)"
    if x: "x \<in> R" for x
  proof -
    obtain q where q: "resolve ?m' l ?c x = Some (q, fl)" and fb: "fresh_byte x q U U' (tables ?m' l ?c)"
      using backedD(1) [OF bk x] by blast
    have "frame q \<notin> tables ?m' (Suc l) f"
      using fb inU unfolding tab fresh_byte_def by blast
    then have "fresh_byte x q U U' (tables ?m' (Suc l) f)" by (rule fresh_byte_mono [OF fb order_refl order_refl])
    then show ?thesis using q fr [OF x] by simp
  qed
  ultimately show "backed (Suc l) f R fl U s' U'" unfolding backed_def by blast
qed

text \<open>A step that fills the empty entry \<open>i\<close> of the root and may write to the new frame \<open>n\<close>.\<close>

lemma grown_set_entry:
  assumes ok: "tree_ok s U (Suc l) f" and l: "l \<le> 3" and i: "i < 512"
    and empty: "\<not> present (entry (memory s) f i)"
    and ok': "buddy_ok s' (insert (n, k) U)" "low_zones s'" and n: "n < 2 ^ 52"
    and fresh: "\<forall>x\<in>U. pages_of (n, k) \<inter> pages_of x = {}" and same: "pt_frame s s'"
    and mem: "memory s' = store_u64 m1 (table_addr f + 8 * of_nat i) e"
    and m1: "\<forall>a. a \<notin> page_at n \<longrightarrow> m1 a = memory s a"
    and room: "region l (b * 512 + i) \<noteq> {}"
    and n0: "n \<noteq> 0" and holds: "slot (memory s') l f i = {#(n, k)#}"
    and new: "m1 = memory s \<and> below (memory s') l f i = {} \<or>
      k = 0 \<and> below (memory s') l f i = {n} \<and> separate (memory s') l (child (memory s') f i)"
  shows "grown (Suc l) f b (region l (b * 512 + i)) s U s' (insert (n, k) U)"
    and "entry (memory s') f i = e"
    and "tables (memory s') (Suc l) f = tables (memory s) (Suc l) f \<union> below (memory s') l f i"
proof -
  let ?m = "memory s" and ?m' = "memory s'" and ?U = "insert (n, k) U"
  note o = tree_okD [OF ok]
  have nn: "n \<in> pages_of (n, k)" by simp
  have nU: "n \<notin> \<Union> (pages_of ` U)" using fresh nn by blast
  then have nt: "n \<notin> tables ?m (Suc l) f" using o(5) used_frame by blast
  then have nf: "n \<noteq> f" by auto
  have out1: "m1 a = ?m a" if "a \<in> page_at t" "t < 2 ^ 52" "t \<noteq> n" for a t
    using m1 pages_disjoint [OF that(2) n that(3)] that(1) by blast
  have out: "?m' a = ?m a" if "a \<in> page_at t" "t < 2 ^ 52" "t \<noteq> n" "t \<noteq> f" for a t
  proof -
    have "a \<notin> page_at f" using pages_disjoint [OF that(2) o(3) that(4)] that(1) by blast
    then show ?thesis using out1 [OF that(1-3)] by (simp add: mem store_entry_other [OF i])
  qed
  have agr1: "agree ?m m1 {f}" using out1 [OF _ o(3)] nf by (auto simp: agree_def)
  have e1: "entry m1 f j = entry ?m f j" if "j < 512" for j by (rule entry_cong [OF agr1 _ that]) simp
  have ent: "entry ?m' f j = (if j = i then e else entry ?m f j)" if "j < 512" for j
    unfolding mem using entry_store [OF i that] e1 [OF that] by simp
  then show "entry ?m' f i = e" using i by simp
  have bi: "below ?m l f i = {}" using empty by (simp add: below_def points_def)
  have tb: "tables ?m (Suc l) f = beside ?m l f i" using tables_split [of ?m l f i] bi by simp
  have others: "\<forall>j<512. j \<noteq> i \<longrightarrow> entry ?m' f j = entry ?m f j" using ent by simp
  have apart: "agree ?m ?m' (beside ?m l f i - {f})"
    unfolding agree_def using out o(6) nt tb by blast
  have sep: "\<And>j. below ?m l f j \<inter> beside ?m l f j = {}"
    using o(4) unfolding separate_iff by blast
  have "f \<notin> below ?m l f j" for j using sep [of j] by (auto simp: beside_def)
  then have root: "\<forall>j. j \<noteq> i \<longrightarrow> f \<notin> below ?m l f j" by blast
  note up = tree_update [OF l others apart root]
  have sep': "separate ?m' (Suc l) f"
  proof (rule up(3) [OF o(4)])
    show "separate ?m' l (child ?m' f i)" if "points ?m' l f i"
    proof (cases "below ?m' l f i = {}")
      case True
      then show ?thesis using that by (cases l) (auto simp: below_def)
    next
      case False
      then show ?thesis using new by blast
    qed
    show "below ?m' l f i \<inter> beside ?m l f i = {}" using new nt tb by auto
  qed
  show tab: "tables ?m' (Suc l) f = tables ?m (Suc l) f \<union> below ?m' l f i"
    using tables_split [of ?m' l f i] up(1) tb by simp
  show "grown (Suc l) f b (region l (b * 512 + i)) s U s' ?U"
    unfolding grown_def
  proof (intro conjI ballI allI impI)
    have "(t, 0) \<in> ?U" if "t \<in> tables ?m' (Suc l) f" for t
      using that new o(5) unfolding tab by auto
    then show "tree_ok s' ?U (Suc l) f"
      using sep' o(3) ok' by (simp add: tree_ok_def del: tables.simps separate.simps)
    show "U \<subseteq> ?U" "pt_frame s s'" by (blast, rule same)
    have "branch_kept l f ?m ?m' j" if "j < 512" "region l (b * 512 + j) \<inter> region l (b * 512 + i) = {}" for j
    proof -
      have "j \<noteq> i" using that(2) room by auto
      then show ?thesis using up(6) that by blast
    qed
    then show "slots_kept (Suc l) f b (region l (b * 512 + i)) ?m ?m'"
      unfolding slots_kept_def diff_Suc_1 by blast
    have "slot ?m l f i = {#}" using empty by (simp add: slot_def)
    moreover have "(\<Sum>j\<in>{..<512} - {i}. slot ?m' l f j) = (\<Sum>j\<in>{..<512} - {i}. slot ?m l f j)"
      using up(4) by (intro sum.cong) auto
    moreover have "(n, k) \<notin> U" using fresh nn by blast
    ultimately show "gained U ?U (held ?m (Suc l) f) (held ?m' (Suc l) f)"
      unfolding held_except [OF i] holds using gained_block [of "(n, k)" U] n0 by simp
    show "tables ?m (Suc l) f \<subseteq> tables ?m' (Suc l) f" using tab by blast
    show "t \<notin> \<Union> (pages_of ` U)" if "t \<in> tables ?m' (Suc l) f - tables ?m (Suc l) f" for t
    proof -
      have "t \<in> below ?m' l f i" using that tab by blast
      then have "t = n" using new by blast
      then show ?thesis using nU by simp
    qed
    show "?m' a = ?m a" if "a \<notin> \<Union> (page_at ` tables ?m' (Suc l) f)" for a
    proof -
      have "a \<notin> page_at f" using that by auto
      then have "?m' a = m1 a" by (simp add: mem store_entry_other [OF i])
      moreover have "m1 a = ?m a"
      proof (cases "m1 = ?m")
        case False
        then have "n \<in> tables ?m' (Suc l) f" using new tab by blast
        then show ?thesis using m1 that by blast
      qed simp
      ultimately show ?thesis by simp
    qed
    fix x assume x: "x \<in> region (Suc l) b - region l (b * 512 + i)"
    then have "pt_index x (Suc l) \<noteq> i" using region_Suc [OF l, of x b] by auto
    then show "resolve ?m' (Suc l) f x = resolve ?m (Suc l) f x" by (rule up(2))
  qed
qed

lemma grown_shrink:
  assumes g: "grown (Suc l) f b (region l (b * 512 + i)) s U s' U'" and l: "l \<le> 3" and i: "i < 512"
    and R: "R \<subseteq> region l (b * 512 + i)" "R \<noteq> {}"
    and same: "\<And>x. x \<in> region l (b * 512 + i) \<Longrightarrow> resolve (memory s') (Suc l) f x = resolve (memory s) (Suc l) f x"
  shows "grown (Suc l) f b R s U s' U'"
proof -
  note d = grownD [OF g]
  have "branch_kept l f (memory s) (memory s') j"
    if j: "j < 512" "region l (b * 512 + j) \<inter> R = {}" for j
  proof -
    have "j \<noteq> i" using that R by blast
    then have "region l (b * 512 + j) \<inter> region l (b * 512 + i) = {}"
      using region_index(1) [OF l j(1)] region_index(1) [OF l i] by blast
    then show ?thesis using d(8) j(1) unfolding slots_kept_def diff_Suc_1 by blast
  qed
  then have "slots_kept (Suc l) f b R (memory s) (memory s')" unfolding slots_kept_def diff_Suc_1 by blast
  moreover have "resolve (memory s') (Suc l) f x = resolve (memory s) (Suc l) f x"
    if "x \<in> region (Suc l) b - R" for x
    using same d(6) that by blast
  ultimately show ?thesis using d(1-5,7,9) unfolding grown_def by blast
qed

text \<open>A fresh, zeroed page becomes the table below entry \<open>i\<close>.\<close>

lemma flag_masks:
  "pde_flags AND PTE_PHYS_MASK = 0" "present pde_flags" "pte_large l AND PTE_PHYS_MASK = 0"
  "pde_flags AND PTE_LARGE = 0" "pte_large l AND PTE_PRESENT = 0" "pte_large l AND (PTE_PRESENT OR PTE_WRITE OR PTE_USER) = 0"
  by (simp_all add: pde_flags_def present_def pte_large_def PTE_PHYS_MASK_def PTE_PRESENT_def
      PTE_WRITE_def PTE_USER_def PTE_LARGE_def)

lemma pt_alloc_page:
  assumes ok: "buddy_ok s U" and low: "low_zones s" and run: "pt_alloc s = Inr (phys, s')"
  defines "n \<equiv> frame phys"
  shows "buddy_ok s' (insert (n, 0) U)" and "low_zones s'" and "n < 2 ^ 40" and "phys = of_nat n * PAGE_SIZE"
    and "x \<in> U \<Longrightarrow> pages_of (n, 0) \<inter> pages_of x = {}" and "pt_frame s s'"
    and "memory s' a = (if a \<in> page_at n then 0 else memory s a)"
    and "avail s U \<le> avail s' (insert (n, 0) U) + 1" and "n \<noteq> 0"
proof -
  obtain s1 where a: "buddy_alloc 0 s = (phys, s1)" "phys \<noteq> 0"
    and s': "s' = s1\<lparr>memory := memset (memory s1) (va phys) 0 PAGE_SIZE\<rparr>"
    using run by (auto simp: pt_alloc_def Let_def split: prod.splits if_splits)
  note p = buddy_alloc_page [OF ok low a]
  have z: "buddy_zones s' = buddy_zones s1" by (simp add: s')
  show "buddy_ok s' (insert (n, 0) U)" "low_zones s'" "avail s U \<le> avail s' (insert (n, 0) U) + 1"
    using p(1,2,8) by (simp_all add: n_def buddy_ok_cong [OF z] low_zones_cong [OF z] avail_cong [OF z])
  show "n < 2 ^ 40" "phys = of_nat n * PAGE_SIZE" using p(3,5) by (simp_all add: n_def)
  show "n \<noteq> 0" unfolding n_def by (rule pages.frame_neq_0 [OF ok a])
  show "x \<in> U \<Longrightarrow> pages_of (n, 0) \<inter> pages_of x = {}" using p(7) by (simp add: n_def)
  have s1: "s1 = s\<lparr>buddy_zones := buddy_zones s1\<rparr>" by (rule p(6))
  then have m: "memory s1 = memory s" by (metis buddy.update_convs(1) machine.select_convs(1) buddy.surjective)
  show "pt_frame s s'" unfolding pt_frame_def s' by (subst s1) simp
  have "va phys = table_addr n" using p(5) by (simp add: table_addr_def n_def)
  then show "memory s' a = (if a \<in> page_at n then 0 else memory s a)"
    by (simp add: s' memset_eq m page_at_def PAGE_SIZE_def)
qed

lemma pt_set_simps [simp]:
  "memory (pt_set pt i e s) = store_u64 (memory s) (pt + 8 * of_nat i) e"
  "buddy_zones (pt_set pt i e s) = buddy_zones s"
  by (simp_all add: pt_set_def)

lemma pt_frame_set: "pt_frame s s1 \<Longrightarrow> pt_frame s (pt_set pt i e s1)"
proof (rule pt_frame_trans)
  show "pt_frame s1 (pt_set pt i e s1)" by (simp add: pt_frame_def pt_set_def)
qed

lemma tree_ok_child:
  assumes "tree_ok s U (Suc l) f" and p: "points (memory s) l f i"
  shows "tree_ok s U l (child (memory s) f i)"
proof -
  note o = tree_okD [OF assms(1)]
  have "target e < 2 ^ 52" for e using target_less [of e] by (rule less_trans) simp
  moreover have "tables (memory s) l (child (memory s) f i) \<subseteq> tables (memory s) (Suc l) f" using p by auto
  moreover have "separate (memory s) l (child (memory s) f i)" using o(4) p by simp
  ultimately show ?thesis using o(1,2,5) unfolding tree_ok_def child_def by blast
qed

lemma grown_attach:
  assumes ok: "tree_ok s U (Suc l) f" and l: "l \<le> 3" "l \<noteq> 0" and i: "i < 512"
    and empty: "\<not> present (entry (memory s) f i)" and run: "pt_alloc s = Inr (phys, s1)"
    and R: "R \<subseteq> region l (b * 512 + i)" "R \<noteq> {}"
  defines "n \<equiv> frame phys" and "s' \<equiv> pt_set (table_addr f) i (phys OR pde_flags) s1"
  shows "grown (Suc l) f b R s U s' (insert (n, 0) U)"
    and "points (memory s') l f i" and "child (memory s') f i = n"
    and "x \<in> region l (b * 512 + i) \<Longrightarrow> resolve (memory s') (Suc l) f x = None"
    and "avail s U \<le> avail s' (insert (n, 0) U) + 1"
proof -
  note o = tree_okD [OF ok]
  note a = pt_alloc_page [OF o(1,2) run, folded n_def]
  let ?m' = "memory s'"
  have z: "buddy_zones s' = buddy_zones s1" by (simp add: s'_def)
  have n52: "n < 2 ^ 52" using a(3) by (rule less_trans) simp
  have e: "phys OR pde_flags = mk_entry n pde_flags" using a(4) by (simp add: mk_entry_def)
  have fin: "\<not> final l pde_flags" using l flag_masks(4) by (simp add: final_def)
  have mem: "?m' = store_u64 (memory s1) (table_addr f + 8 * of_nat i) (mk_entry n pde_flags)"
    by (simp add: s'_def e)
  have m1: "\<forall>a. a \<notin> page_at n \<longrightarrow> memory s1 a = memory s a" using a(7) by simp
  have nU: "n \<notin> \<Union> (pages_of ` U)"
  proof -
    have "n \<in> pages_of (n, 0)" by simp
    then show ?thesis using a(5) by blast
  qed
  then have nf: "n \<noteq> f" using o(5) used_frame [of f U] by (metis insertI1 tables.simps(2))
  have ent: "entry ?m' f i = mk_entry n pde_flags" unfolding mem using entry_store [OF i i] by simp
  note mk = mk_entry_simps [OF a(3) flag_masks(1)]
  show p: "points ?m' l f i" unfolding points_def ent using i mk(2,3) fin flag_masks(2) by simp
  show c: "child ?m' f i = n" unfolding child_def ent by (rule mk(1))
  have zero: "?m' x = 0" if "x \<in> page_at n" for x
  proof -
    have "x \<notin> page_at f" using that pages_disjoint [OF n52 o(3) nf] by blast
    then show ?thesis using that a(7) by (simp add: mem store_entry_other [OF i])
  qed
  have none: "\<not> present (entry ?m' n j)" if "j < 512" for j
    using zero_page [of n ?m' j] zero that by (simp add: present_def)
  obtain k where k: "l = Suc k" using l(2) by (cases l) auto
  have "\<not> points ?m' k n j" for j using none by (auto simp: points_def)
  then have new: "tables ?m' l n = {n}" "separate ?m' l n" by (auto simp: k)
  have r: "resolve ?m' l n x = None" for x
  proof -
    have "pt_index x (Suc k) < 512" using l(1) k by (intro pt_index_less) simp
    then show ?thesis using none by (simp add: k Let_def)
  qed
  have below: "below ?m' l f i = {n}" using p c new by (simp add: below_def)
  note g = grown_set_entry [OF ok l(1) i empty _ _ n52 _ _ mem m1, of 0]
  have g1: "grown (Suc l) f b (region l (b * 512 + i)) s U s' (insert (n, 0) U)"
  proof (rule g(1))
    show "buddy_ok s' (insert (n, 0) U)" "low_zones s'"
      using a(1,2) by (simp_all add: buddy_ok_cong [OF z] low_zones_cong [OF z])
    show "\<forall>x\<in>U. pages_of (n, 0) \<inter> pages_of x = {}" using a(5) by blast
    show "pt_frame s s'" unfolding s'_def by (rule pt_frame_set [OF a(6)])
    show "memory s1 = memory s \<and> below ?m' l f i = {} \<or>
      0 = 0 \<and> below ?m' l f i = {n} \<and> separate ?m' l (child ?m' f i)"
      using below new c by simp
    have "slot ?m' k n j = {#}" if "j < 512" for j using none [OF that] by (simp add: slot_def)
    then have "held ?m' l n = {#}" unfolding k held_Suc by simp
    then show "slot ?m' l f i = {#(n, 0)#}" using slot_points [OF p] c by simp
    show "region l (b * 512 + i) \<noteq> {}" using R by blast
    show "n \<noteq> 0" by (rule a(9))
  qed
  have at: "resolve ?m' (Suc l) f x = None" if x: "x \<in> region l (b * 512 + i)" for x
    using resolve_table [of ?m' l f x] p c r region_index(1) [OF l(1) i x] by simp
  then show "x \<in> region l (b * 512 + i) \<Longrightarrow> resolve ?m' (Suc l) f x = None" .
  have "resolve (memory s) (Suc l) f x = None" if x: "x \<in> region l (b * 512 + i)" for x
    using empty region_index(1) [OF l(1) i x] by (simp add: Let_def)
  then show "grown (Suc l) f b R s U s' (insert (n, 0) U)"
    using at by (intro grown_shrink [OF g1 l(1) i R]) simp
  show "avail s U \<le> avail s' (insert (n, 0) U) + 1" using a(8) by (simp add: avail_cong [OF z])
qed

text \<open>A fresh block becomes the memory behind all addresses of entry \<open>i\<close>.\<close>

lemma block_address:
  fixes x :: u64
  assumes l: "l \<le> 3" and al: "2 ^ (9 * l) dvd n" and n: "n + 2 ^ (9 * l) \<le> 2 ^ 40"
  defines "p \<equiv> (of_nat n * PAGE_SIZE) OR (x AND mask (low_bits l))"
  shows "unat p = n * 4096 + unat x mod 2 ^ low_bits l" and "frame p \<in> pages_of (n, 9 * l)"
    and "p AND mask 12 = x AND mask 12"
proof -
  let ?k = "low_bits l" and ?r = "unat x mod 2 ^ low_bits l"
  have lb: "(2 :: nat) ^ ?k = 4096 * 2 ^ (9 * l)" by (simp add: low_bits_def power_add)
  have n40: "n \<le> 2 ^ 40" using n by simp
  then have n52: "n < 2 ^ 52" by (rule le_less_trans) simp
  have r: "unat (x AND mask ?k) = ?r"
    using unsigned_take_bit_eq [of ?k x, where ?'a = nat] take_bit_eq_mask [of ?k x]
      take_bit_eq_mod [of ?k "unat x"] by argo
  have rk: "?r < 2 ^ ?k" by simp
  have k39: "(2 :: nat) ^ ?k \<le> 2 ^ 39" using low_bits_le [OF l] by (intro power_increasing) auto
  obtain q where q: "n = 2 ^ (9 * l) * q" using al by (elim dvdE)
  have "n * 4096 = q * 2 ^ ?k" by (simp add: q lb)
  then have "of_nat (n * 4096) = (of_nat (q * 2 ^ ?k) :: u64)" by simp
  then have P: "of_nat n * PAGE_SIZE = (push_bit ?k (of_nat q) :: u64)"
    by (simp add: PAGE_SIZE_def push_bit_eq_mult)
  have add: "p = of_nat n * PAGE_SIZE + (x AND mask ?k)"
    unfolding p_def P by (rule disjunctive_add [symmetric]) (auto simp: bit_simps)
  have "?r < 2 ^ 39" using rk k39 by (rule less_le_trans)
  then have "n * 4096 + ?r < 2 ^ 64" using n40 by simp
  then show u: "unat p = n * 4096 + ?r"
    unfolding add using unat_add_lem [of "of_nat n * PAGE_SIZE" "x AND mask ?k"] frame_addr(2) [OF n52] r by simp
  have "?r div 4096 < 2 ^ (9 * l)" using rk unfolding lb by (simp add: less_mult_imp_div_less mult.commute)
  moreover have "frame p = n + ?r div 4096"
  proof -
    have "frame p = unat p div 4096" by (simp add: frame_def unat_div PAGE_SIZE_def)
    then show ?thesis unfolding u by simp
  qed
  ultimately show "frame p \<in> pages_of (n, 9 * l)" by simp
  show "p AND mask 12 = x AND mask 12"
    unfolding p_def P using low_bits_ge [of l] by (intro bit_word_eqI) (auto simp: bit_simps)
qed

lemma grown_leaf:
  assumes ok: "tree_ok s U (Suc l) f" and l: "l \<le> 3" and i: "i < 512"
    and empty: "\<not> present (entry (memory s) f i)" and run: "buddy_alloc (9 * l) s = (phys, s1)" "phys \<noteq> 0"
    and flags: "flags AND PTE_PHYS_MASK = 0" "flags AND PTE_LARGE = 0" "present flags"
    and leaf: "l = 0 \<or> pte_large (Suc l) \<noteq> 0" and room: "region l (b * 512 + i) \<noteq> {}"
  defines "n \<equiv> frame phys" and "s' \<equiv> pt_set (table_addr f) i (phys OR (flags OR pte_large (Suc l))) s1"
    and "U' \<equiv> insert (frame phys, 9 * l) U"
  shows "grown (Suc l) f b (region l (b * 512 + i)) s U s' U'"
    and "backed (Suc l) f (region l (b * 512 + i)) (perms flags) U s' U'"
    and "avail s U \<le> avail s' U' + 2 ^ (9 * l)"
proof -
  note o = tree_okD [OF ok]
  note a = buddy_alloc_page [OF o(1,2) run, folded n_def]
  let ?m' = "memory s'" and ?fl = "flags OR pte_large (Suc l)" and ?R = "region l (b * 512 + i)"
  have z: "buddy_zones s' = buddy_zones s1" by (simp add: s'_def)
  have "n + 1 \<le> n + 2 ^ (9 * l)" by simp
  also have "\<dots> \<le> 2 ^ 40" by (rule a(3))
  finally have n40: "n < 2 ^ 40" by simp
  then have n52: "n < 2 ^ 52" by (rule less_trans) simp
  have fl: "?fl AND PTE_PHYS_MASK = 0" "present ?fl" "perms ?fl = perms flags"
    using flags flag_masks(3,5,6) by (simp_all add: word_ao_dist perms_def present_def)
  have fin: "final l ?fl"
  proof (cases "l = 0")
    case False
    then have "pte_large (Suc l) = PTE_LARGE" using leaf by (auto simp: pte_large_def split: if_splits)
    moreover have "PTE_LARGE AND PTE_LARGE \<noteq> 0" by (simp add: PTE_LARGE_def)
    ultimately show ?thesis using flags(2) by (simp add: final_def word_ao_dist)
  qed (simp add: final_def)
  have "s1 = s\<lparr>buddy_zones := buddy_zones s1\<rparr>" by (rule a(6))
  then have m1: "memory s1 = memory s" by (metis buddy.update_convs(1) machine.select_convs(1) buddy.surjective)
  have mem: "?m' = store_u64 (memory s) (table_addr f + 8 * of_nat i) (mk_entry n ?fl)"
    using a(5) by (simp add: s'_def m1 mk_entry_def)
  note mk = mk_entry_simps [OF n40 fl(1)]
  have ent: "entry ?m' f i = mk_entry n ?fl" unfolding mem using entry_store [OF i i] by simp
  have below: "below ?m' l f i = {}" unfolding below_def points_def ent using mk(3) fin by simp
  note g = grown_set_entry [OF ok l i empty _ _ n52 _ _ mem, of "9 * l"]
  have blocks: "buddy_ok s' U'" "low_zones s'" "\<forall>x\<in>U. pages_of (n, 9 * l) \<inter> pages_of x = {}"
    using a(1,2,7) by (simp_all add: U'_def n_def buddy_ok_cong [OF z] low_zones_cong [OF z])
  have pf: "pt_frame s s'" unfolding s'_def
  proof (rule pt_frame_set)
    show "pt_frame s s1" unfolding pt_frame_def by (subst a(6)) (simp add: m1)
  qed
  have holds: "slot ?m' l f i = {#(n, 9 * l)#}" unfolding slot_def ent using mk(1-3) fin fl(2) by simp
  have n0: "n \<noteq> 0" unfolding n_def by (rule pages.frame_neq_0 [OF o(1) run])
  have gr: "grown (Suc l) f b ?R s U s' U'" and tab: "tables ?m' (Suc l) f = tables (memory s) (Suc l) f"
    using g(1,3) blocks pf below room n0 holds unfolding U'_def n_def by auto
  show "grown (Suc l) f b ?R s U s' U'" by (rule gr)
  show "avail s U \<le> avail s' U' + 2 ^ (9 * l)"
    using a(8) by (simp add: U'_def n_def avail_cong [OF z])
  define byte where "byte x = (of_nat n * PAGE_SIZE) OR (x AND mask (low_bits l))" for x :: u64
  note ad = block_address [OF l a(4,3), folded byte_def]
  have res: "resolve ?m' (Suc l) f x = Some (byte x, perms flags)" if x: "x \<in> ?R" for x
    unfolding resolve.simps region_index(1) [OF l i x] ent Let_def
    using mk fin fl(2,3) phys_target [of "mk_entry n ?fl"] by (simp add: byte_def)
  have "fresh_byte x (byte x) U U' (tables ?m' (Suc l) f)" for x
  proof -
    have U: "frame (byte x) \<notin> \<Union> (pages_of ` U)" using ad(2) [of x] blocks(3) by blast
    then have "frame (byte x) \<notin> tables ?m' (Suc l) f" unfolding tab using o(5) used_frame by blast
    then show ?thesis using U ad(2,3) [of x] by (auto simp: fresh_byte_def U'_def n_def)
  qed
  moreover have "inj_on (resolve ?m' (Suc l) f) ?R"
  proof (rule inj_onI)
    fix x y assume x: "x \<in> ?R" and y: "y \<in> ?R" and "resolve ?m' (Suc l) f x = resolve ?m' (Suc l) f y"
    then have "byte x = byte y" using res by simp
    then have "unat (byte x) = unat (byte y)" by simp
    then have "unat x mod 2 ^ low_bits l = unat y mod 2 ^ low_bits l" unfolding ad(1) by simp
    moreover have "unat x div 2 ^ low_bits l = unat y div 2 ^ low_bits l" using x y by (simp add: region_def)
    ultimately have "unat x = unat y" by (metis div_mult_mod_eq)
    then show "x = y" by (rule word_unat_eq_iff [THEN iffD2])
  qed
  ultimately show "backed (Suc l) f ?R (perms flags) U s' U'"
    unfolding backed_def using res by blast
qed

end
