(* ===== verification/Pt_Map.thy ===== *)
theory Pt_Map
  imports Pt_Grow
begin

text \<open>
  What \<open>pt_map\<close> does to a page table: the pages its range touches, how the loop cuts the range at
  the entries of a table, and the result of the loop, by induction on its length, and of the
  recursive routine, by induction on the level.
\<close>

subsection \<open>The range of a call\<close>

text \<open>The addresses of the pages that \<open>z\<close> bytes from \<open>v\<close> on touch, and the number of these pages.\<close>

definition touched :: "nat \<Rightarrow> nat \<Rightarrow> u64 set" where
  "touched v z = {x. 0 < z \<and> v div 4096 \<le> unat x div 4096 \<and> unat x div 4096 \<le> (v + z - 1) div 4096}"

definition n_pages :: "nat \<Rightarrow> nat \<Rightarrow> nat" where
  "n_pages v z = (if z = 0 then 0 else (v + z - 1) div 4096 - v div 4096 + 1)"

lemma start_touched: "0 < z \<Longrightarrow> v \<in> touched (unat v) z"
  by (auto simp: touched_def intro!: div_le_mono)

text \<open>The part of the range that falls into the entry of its first byte.\<close>

definition piece :: "nat \<Rightarrow> nat \<Rightarrow> nat \<Rightarrow> nat" where
  "piece l v z = min z (entry_end l v - v)"

lemma touched_0 [simp]: "touched v 0 = {}" and n_pages_0 [simp]: "n_pages v 0 = 0"
  by (simp_all add: touched_def n_pages_def)

lemma piece_pos: "0 < z \<Longrightarrow> 0 < piece l v z" and piece_le: "piece l v z \<le> z"
  using entry_end_greater [of v l] by (simp_all add: piece_def)

lemma entry_end_pages: "entry_end l v = (v div 2 ^ low_bits l + 1) * 2 ^ (9 * l) * 4096"
  by (simp add: entry_end_def low_bits_def power_add)

lemma split_touched:
  fixes l v z :: nat
  assumes "0 < z"
  defines "h \<equiv> piece l v z"
  shows "touched v z = touched v h \<union> touched (v + h) (z - h)"
    and "touched v h \<inter> touched (v + h) (z - h) = {}"
    and "n_pages v z = n_pages v h + n_pages (v + h) (z - h)"
proof -
  have "touched v z = touched v h \<union> touched (v + h) (z - h) \<and>
    touched v h \<inter> touched (v + h) (z - h) = {} \<and> n_pages v z = n_pages v h + n_pages (v + h) (z - h)"
  proof (cases "h = z")
    case False
    then have h: "h = entry_end l v - v" "h < z" by (auto simp: h_def piece_def min_def split: if_splits)
    define e where "e = (v div 2 ^ low_bits l + 1) * 2 ^ (9 * l)"
    have vh: "v + h = e * 4096" using h(1) entry_end_greater [of v l] entry_end_pages [of l v] by (simp add: e_def)
    have h0: "0 < h" unfolding h_def using assms(1) by (rule piece_pos)
    have e: "(e * 4096 - 1) div 4096 + 1 = e" "v div 4096 < e" "e \<le> (v + z - 1) div 4096"
      using vh h0 h(2) by linarith+
    have last: "v + h + (z - h) - 1 = v + z - 1" using h(2) by simp
    then have t: "touched (v + h) (z - h) = {x. e \<le> unat x div 4096 \<and> unat x div 4096 \<le> (v + z - 1) div 4096}"
      using h(2) vh by (simp add: touched_def)
    have t1: "touched v h = {x. v div 4096 \<le> unat x div 4096 \<and> unat x div 4096 < e}"
      unfolding touched_def vh using h0 e(1) by auto
    have "n_pages (v + h) (z - h) = (v + h + (z - h) - 1) div 4096 - (v + h) div 4096 + 1"
      unfolding n_pages_def using h(2) by simp
    then have "n_pages (v + h) (z - h) = (v + z - 1) div 4096 - e + 1" unfolding last unfolding vh by simp
    moreover have "n_pages v h = (e * 4096 - 1) div 4096 - v div 4096 + 1"
      unfolding n_pages_def using h0 vh by simp
    then have "n_pages v h = e - v div 4096" using e(1,2) by linarith
    moreover have "touched v z = {x. v div 4096 \<le> unat x div 4096 \<and> unat x div 4096 \<le> (v + z - 1) div 4096}"
      using assms(1) by (simp add: touched_def)
    moreover have "n_pages v z = (v + z - 1) div 4096 - v div 4096 + 1"
      using assms(1) by (simp add: n_pages_def)
    moreover have "{x :: u64. a \<le> unat x div 4096 \<and> unat x div 4096 \<le> c} =
        {x. a \<le> unat x div 4096 \<and> unat x div 4096 < e} \<union> {x. e \<le> unat x div 4096 \<and> unat x div 4096 \<le> c} \<and>
      {x :: u64. a \<le> unat x div 4096 \<and> unat x div 4096 < e} \<inter> {x. e \<le> unat x div 4096 \<and> unat x div 4096 \<le> c} = {}"
      if "a < e" "e \<le> c" for a c using that by auto
    note this [OF e(2,3)]
    ultimately show ?thesis unfolding t t1 using e(2,3) by simp
  qed simp
  then show "touched v z = touched v h \<union> touched (v + h) (z - h)"
    and "touched v h \<inter> touched (v + h) (z - h) = {}"
    and "n_pages v z = n_pages v h + n_pages (v + h) (z - h)" by blast+
qed

lemma piece_region: "touched v (piece l v z) \<subseteq> region l (v div 2 ^ low_bits l)"
proof
  fix x assume "x \<in> touched v (piece l v z)"
  then have h: "0 < piece l v z" "v div 4096 \<le> unat x div 4096"
    "unat x div 4096 \<le> (v + piece l v z - 1) div 4096" by (simp_all add: touched_def)
  have "v + piece l v z - 1 < entry_end l v" using entry_end_greater [of v l] h(1) by (auto simp: piece_def)
  then have "(v + piece l v z - 1) div 4096 < (v div 2 ^ low_bits l + 1) * 2 ^ (9 * l)"
    unfolding entry_end_pages by (rule less_mult_imp_div_less)
  then have "unat x div 4096 < (v div 2 ^ low_bits l + 1) * 2 ^ (9 * l)" using h(3) by linarith
  then have "unat x div 4096 div 2 ^ (9 * l) < v div 2 ^ low_bits l + 1" by (rule less_mult_imp_div_less)
  moreover have d: "n div 4096 div 2 ^ (9 * l) = n div 2 ^ low_bits l" for n :: nat
    by (simp add: low_bits_def power_add div_mult2_eq)
  moreover have "v div 4096 div 2 ^ (9 * l) \<le> unat x div 4096 div 2 ^ (9 * l)" using h(2) by (rule div_le_mono)
  ultimately show "x \<in> region l (v div 2 ^ low_bits l)" by (simp add: region_def)
qed

text \<open>The entries that the loop still has to visit: \<open>n\<close> of them from entry \<open>i\<close> on.\<close>

definition due :: "nat \<Rightarrow> nat \<Rightarrow> nat \<Rightarrow> nat \<Rightarrow> nat \<Rightarrow> nat \<Rightarrow> bool" where
  "due l b v z n i \<longleftrightarrow>
     (if z = 0 then n = 0
      else v div 2 ^ low_bits l = b * 512 + i \<and> (v + z - 1) div 2 ^ low_bits l + 1 = b * 512 + i + n \<and> 0 < n \<and> i + n \<le> 512)"

lemma due_step:
  assumes d: "due l b v z (Suc n) i"
  defines "h \<equiv> piece l v z"
  shows "0 < z" and "i < 512" and "v div 2 ^ low_bits l = b * 512 + i" and "due l b (v + h) (z - h) n (i + 1)"
proof -
  show z: "0 < z" using d by (simp add: due_def split: if_splits)
  show i: "i < 512" and v: "v div 2 ^ low_bits l = b * 512 + i"
    using d by (auto simp: due_def split: if_splits)
  have n: "(v + z - 1) div 2 ^ low_bits l = b * 512 + i + n" "i + Suc n \<le> 512" using d z by (auto simp: due_def split: if_splits)
  show "due l b (v + h) (z - h) n (i + 1)"
  proof (cases "h = z")
    case True
    then have "v + z \<le> entry_end l v" using entry_end_greater [of v l] by (auto simp: h_def piece_def min_def split: if_splits)
    then have "v + z - 1 < (b * 512 + i + 1) * 2 ^ low_bits l" using z v by (simp add: entry_end_def)
    then have "(v + z - 1) div 2 ^ low_bits l < b * 512 + i + 1" by (rule less_mult_imp_div_less)
    then show ?thesis using n True by (simp add: due_def)
  next
    case False
    then have h: "h = entry_end l v - v" "h < z" by (auto simp: h_def piece_def min_def split: if_splits)
    then have vh: "v + h = (b * 512 + i + 1) * 2 ^ low_bits l"
      using entry_end_greater [of v l] v by (simp add: entry_end_def)
    then have d1: "(v + h) div 2 ^ low_bits l = b * 512 + i + 1" by simp
    have "v + h \<le> v + z - 1" using h(2) by simp
    then have "b * 512 + i + 1 \<le> (v + z - 1) div 2 ^ low_bits l" using div_le_mono [of "v + h"] d1 by metis
    then have "0 < n" using n(1) by simp
    moreover have "v + h + (z - h) - 1 = v + z - 1" using h(2) by simp
    ultimately show ?thesis using d1 n h(2) by (simp add: due_def)
  qed
qed

lemma full_entry:
  assumes full: "piece l v z = 2 ^ low_bits l" and al: "v mod 2 ^ low_bits l = 0"
  shows "touched v (piece l v z) = region l (v div 2 ^ low_bits l)" and "n_pages v (piece l v z) = 2 ^ (9 * l)"
proof -
  let ?d = "v div 2 ^ low_bits l"
  have p: "(2 :: nat) ^ low_bits l = 2 ^ (9 * l) * 4096" by (simp add: low_bits_def power_add)
  have v: "v = ?d * 2 ^ (9 * l) * 4096" using al p by (metis add.right_neutral div_mult_mod_eq mult.assoc)
  have pos: "(0 :: nat) < 2 ^ (9 * l)" by simp
  have e: "(v + 2 ^ low_bits l - 1) div 4096 = ?d * 2 ^ (9 * l) + 2 ^ (9 * l) - 1"
    using v pos unfolding p by linarith
  have d: "n div 2 ^ low_bits l = n div 4096 div 2 ^ (9 * l)" for n :: nat
    by (simp add: low_bits_def power_add div_mult2_eq)
  have v4: "v div 4096 = ?d * 2 ^ (9 * l)" using v by (metis nonzero_mult_div_cancel_right numeral_neq_zero)
  show "n_pages v (piece l v z) = 2 ^ (9 * l)" unfolding full n_pages_def e v4 using pos by simp
  show "touched v (piece l v z) = region l ?d"
    unfolding full touched_def region_def e v4
  proof (intro Collect_cong iffI conjI)
    fix x :: u64
    assume "0 < (2 :: nat) ^ low_bits l \<and> ?d * 2 ^ (9 * l) \<le> unat x div 4096 \<and>
        unat x div 4096 \<le> ?d * 2 ^ (9 * l) + 2 ^ (9 * l) - 1"
    then have "?d * 2 ^ (9 * l) \<le> unat x div 4096" "unat x div 4096 \<le> ?d * 2 ^ (9 * l) + 2 ^ (9 * l) - 1" by blast+
    moreover from this(2) have "unat x div 4096 < (?d + 1) * 2 ^ (9 * l)"
      using pos unfolding distrib_right by linarith
    ultimately have "?d * 2 ^ (9 * l) \<le> unat x div 4096" "unat x div 4096 < (?d + 1) * 2 ^ (9 * l)" by blast+
    then show "unat x div 2 ^ low_bits l = ?d"
      unfolding d [of "unat x"] using pos by (metis Suc_eq_plus1 div_nat_eqI mult.commute)
  next
    fix x :: u64
    assume "unat x div 2 ^ low_bits l = ?d"
    then have x: "unat x div 4096 div 2 ^ (9 * l) = ?d" unfolding d [of "unat x"] .
    show "?d * 2 ^ (9 * l) \<le> unat x div 4096" using x by (metis div_mult_mod_eq le_add1)
    have "unat x div 4096 < (?d + 1) * 2 ^ (9 * l)"
      using x pos by (metis Suc_eq_plus1 dividend_less_div_times mult.commute mult_Suc_right)
    then show "unat x div 4096 \<le> ?d * 2 ^ (9 * l) + 2 ^ (9 * l) - 1" by simp
  qed simp
qed

lemma first_page:
  assumes "0 < z"
  shows "touched v (piece 0 v z) = region 0 (v div 2 ^ low_bits 0)" and "n_pages v (piece 0 v z) = 1"
proof -
  have lb: "(2 :: nat) ^ low_bits 0 = 4096" by (simp add: low_bits_def)
  have h: "0 < piece 0 v z" using assms by (rule piece_pos)
  have "v + piece 0 v z \<le> (v div 4096 + 1) * 4096"
    using entry_end_greater [of v 0] by (auto simp: piece_def entry_end_def low_bits_def)
  then have "v + piece 0 v z - 1 < (v div 4096 + 1) * 4096" using h by simp
  then have "(v + piece 0 v z - 1) div 4096 < v div 4096 + 1" by (rule less_mult_imp_div_less)
  moreover have "v div 4096 \<le> (v + piece 0 v z - 1) div 4096" using h by (intro div_le_mono) simp
  ultimately have e: "(v + piece 0 v z - 1) div 4096 = v div 4096" by simp
  show "touched v (piece 0 v z) = region 0 (v div 2 ^ low_bits 0)"
    unfolding touched_def region_def e lb using h by auto
  show "n_pages v (piece 0 v z) = 1" unfolding n_pages_def e using h by simp
qed

subsection \<open>The result of a call\<close>

text \<open>
  A call that has to map the addresses \<open>R\<close> and may take up to \<open>c\<close> pages: it grows the tree on
  \<open>R\<close> only, and it fails, or hangs for lack of a table, only if fewer than \<open>c\<close> pages are free.
\<close>

definition map_post ::
    "nat \<Rightarrow> nat \<Rightarrow> nat \<Rightarrow> u64 set \<Rightarrow> u64 \<Rightarrow> nat \<Rightarrow> 'a paging_scheme \<Rightarrow> block set \<Rightarrow>
     (bool \<times> 'a paging_scheme) result \<Rightarrow> bool" where
  "map_post l f b R fl c s U r \<longleftrightarrow>
     (case r of
        Inl e \<Rightarrow> e = Hang \<and> avail s U < c
      | Inr (ok, s') \<Rightarrow> \<exists>U'. grown l f b R s U s' U' \<and>
          (if ok then backed l f R fl U s' U' \<and> avail s U \<le> avail s' U' + c else avail s U < c))"

lemma map_post_ok:
  "grown l f b R s U s' U' \<Longrightarrow> backed l f R fl U s' U' \<Longrightarrow> avail s U \<le> avail s' U' + c \<Longrightarrow>
    map_post l f b R fl c s U (Inr (True, s'))"
  unfolding map_post_def by auto

lemma map_post_False:
  "grown l f b R s U s' U' \<Longrightarrow> avail s U < c \<Longrightarrow> map_post l f b R fl c s U (Inr (False, s'))"
  unfolding map_post_def by auto

lemma map_post_Hang: "avail s U < c \<Longrightarrow> map_post l f b R fl c s U (Inl Hang)"
  unfolding map_post_def by simp

lemma map_post_cases:
  assumes "map_post l f b R fl c s U r"
  obtains (hang) "r = Inl Hang" and "avail s U < c"
    | (full) s' U' where "r = Inr (False, s')" and "grown l f b R s U s' U'" and "avail s U < c"
    | (ok) s' U' where "r = Inr (True, s')" and "grown l f b R s U s' U'" and "backed l f R fl U s' U'"
        and "avail s U \<le> avail s' U' + c"
proof (cases r)
  case (Inl e)
  then show ?thesis using assms hang unfolding map_post_def by simp
next
  case (Inr q)
  obtain k s' where q: "q = (k, s')" by (cases q)
  then show ?thesis using assms full ok Inr unfolding map_post_def by (cases k) auto
qed

lemma backed_empty: "backed l f {} fl U s U'"
  by (simp add: backed_def)

lemma map_post_step:
  assumes g: "grown l f b R1 s U s1 U1" and bk: "backed l f R1 fl U s1 U1" and c: "avail s U \<le> avail s1 U1 + c1"
    and R: "R1 \<subseteq> region l b" "R1 \<inter> R2 = {}" and p: "map_post l f b R2 fl c2 s1 U1 r"
  shows "map_post l f b (R1 \<union> R2) fl (c1 + c2) s U r"
  using p
proof (cases rule: map_post_cases)
  case hang
  then show ?thesis using c by (simp add: map_post_Hang)
next
  case (full s' U')
  then show ?thesis using map_post_False [OF grown_trans [OF g full(2)]] c by simp
next
  case (ok s' U')
  note bk' = backed_trans [OF ok(2) bk ok(3) grownD(2) [OF g] R]
  show ?thesis using map_post_ok [OF grown_trans [OF g ok(2)] bk'] ok(1,4) c by simp
qed

text \<open>A new table takes a page, but maps nothing yet.\<close>

lemma map_post_attach:
  assumes g: "grown l f b R1 s U s1 U1" and R: "R1 \<subseteq> R" and c: "avail s U \<le> avail s1 U1 + c1"
    and p: "map_post l f b R fl c2 s1 U1 r"
  shows "map_post l f b R fl (c1 + c2) s U r"
  using p
proof (cases rule: map_post_cases)
  case hang
  then show ?thesis using c by (simp add: map_post_Hang)
next
  case (full s' U')
  then have "grown l f b R s U s' U'" using grown_trans [OF g full(2)] R by (simp add: Un_absorb1)
  then show ?thesis using full c by (simp add: map_post_False)
next
  case (ok s' U')
  then have g': "grown l f b R s U s' U'" using grown_trans [OF g ok(2)] R by (simp add: Un_absorb1)
  have "backed l f R fl U s' U'"
    unfolding backed_def
  proof (intro conjI ballI)
    fix x assume "x \<in> R"
    then obtain p where p: "resolve (memory s') l f x = Some (p, fl)" "fresh_byte x p U1 U' (tables (memory s') l f)"
      using backedD(1) [OF ok(3)] by blast
    have "fresh_byte x p U U' (tables (memory s') l f)"
      by (rule fresh_byte_mono [OF p(2) grownD(2) [OF g] order_refl]) (use p(2) in \<open>simp add: fresh_byte_def\<close>)
    then show "\<exists>p. resolve (memory s') l f x = Some (p, fl) \<and> fresh_byte x p U U' (tables (memory s') l f)"
      using p(1) by blast
  qed (rule backedD(2) [OF ok(3)])
  then show ?thesis using map_post_ok [OF g'] ok(1,4) c by simp
qed

text \<open>The recursive call, and what follows it.\<close>

lemma map_post_descend:
  assumes ok: "tree_ok s U (Suc l) f" and l: "l \<le> 3" and p: "points (memory s) l f i"
    and r: "map_post l (child (memory s) f i) (b * 512 + i) R1 fl c1 s U r"
    and R: "R1 \<subseteq> region l (b * 512 + i)" "R1 \<inter> R2 = {}" and ne: "R1 \<noteq> {}"
    and k: "\<And>s1 U1. r = Inr (True, s1) \<Longrightarrow> grown (Suc l) f b R1 s U s1 U1 \<Longrightarrow>
      map_post (Suc l) f b R2 fl c2 s1 U1 (k s1)"
  shows "map_post (Suc l) f b (R1 \<union> R2) fl (c1 + c2) s U
    (and_then r (\<lambda>(ok, s1). if \<not> ok then Inr (False, s1) else k s1))"
  using r
proof (cases rule: map_post_cases)
  case hang
  then show ?thesis by (simp add: map_post_Hang)
next
  case (full s' U')
  have "grown (Suc l) f b (R1 \<union> R2) s U s' U'"
    by (rule grown_mono [OF grown_descend(1) [OF ok l p full(2) R(1) ne]]) simp
  then show ?thesis using full by (simp add: map_post_False)
next
  case (ok s' U')
  have g: "grown (Suc l) f b R1 s U s' U'" by (rule grown_descend(1) [OF assms(1) l p ok(2) R(1) ne])
  have bk: "backed (Suc l) f R1 fl U s' U'" by (rule grown_descend(2) [OF assms(1) l p ok(2) R(1) ne ok(3)])
  have i: "i < 512" using p by (simp add: points_def)
  have "R1 \<subseteq> region (Suc l) b" using R(1) region_index(2) [OF l i] by blast
  then show ?thesis using map_post_step [OF g bk ok(4) _ R(2) k [OF ok(1) g]] ok(1) by simp
qed

definition unmapped :: "mem \<Rightarrow> nat \<Rightarrow> nat \<Rightarrow> u64 set \<Rightarrow> bool" where
  "unmapped m l f R \<longleftrightarrow> (\<forall>x\<in>R. resolve m l f x = None)"

lemma unmapped_child:
  assumes "l \<le> 3" and "i < 512" and "unmapped m (Suc l) f R" and "R \<subseteq> region l (b * 512 + i)" and "R \<noteq> {}"
    and "present (entry m f i)"
  shows "points m l f i" and "unmapped m l (child m f i) R"
proof -
  have idx: "pt_index x (Suc l) = i" if "x \<in> R" for x
    using region_index(1) [OF assms(1,2), of x b] assms(4) that by blast
  obtain x where x: "x \<in> R" using assms(5) by blast
  then have "resolve m (Suc l) f x = None" using assms(3) by (simp add: unmapped_def)
  then have "\<not> final l (entry m f i)" using idx [OF x] assms(6) by (auto simp: Let_def split: if_splits)
  then show p: "points m l f i" using assms(2,6) by (simp add: points_def)
  show "unmapped m l (child m f i) R"
    unfolding unmapped_def
  proof
    fix y assume y: "y \<in> R"
    then have "resolve m (Suc l) f y = None" using assms(3) by (simp add: unmapped_def)
    then show "resolve m l (child m f i) y = None"
      using resolve_table [of m l f y] p idx [OF y] by simp
  qed
qed

lemma unmapped_grown:
  "grown l f b R s U s' U' \<Longrightarrow> unmapped (memory s) l f R2 \<Longrightarrow> R2 \<subseteq> region l b \<Longrightarrow> R \<inter> R2 = {} \<Longrightarrow>
    unmapped (memory s') l f R2"
  unfolding unmapped_def using grownD(6) by fastforce

subsection \<open>The loop\<close>

lemma map_post_more: "map_post l f b R fl c s U r \<Longrightarrow> c \<le> c' \<Longrightarrow> map_post l f b R fl c' s U r"
  by (erule map_post_cases) (auto intro: map_post_Hang map_post_False map_post_ok)

lemma piece_ends:
  assumes "0 < z"
  shows "(v + piece l v z - 1) div 2 ^ low_bits l = v div 2 ^ low_bits l"
proof -
  have h: "0 < piece l v z" using assms by (rule piece_pos)
  have "v + piece l v z - 1 < entry_end l v" using entry_end_greater [of v l] h by (auto simp: piece_def)
  then have "(v + piece l v z - 1) div 2 ^ low_bits l < v div 2 ^ low_bits l + 1"
    unfolding entry_end_def by (rule less_mult_imp_div_less)
  moreover have "v div 2 ^ low_bits l \<le> (v + piece l v z - 1) div 2 ^ low_bits l"
    using h by (intro div_le_mono) simp
  ultimately show ?thesis by simp
qed

lemma touched_region:
  assumes "v div 2 ^ low_bits l = b" and "(v + z - 1) div 2 ^ low_bits l = b"
  shows "touched v z \<subseteq> region l b"
proof
  fix x assume "x \<in> touched v z"
  then have x: "v div 4096 \<le> unat x div 4096" "unat x div 4096 \<le> (v + z - 1) div 4096"
    by (simp_all add: touched_def)
  have d: "n div 2 ^ low_bits l = n div 4096 div 2 ^ (9 * l)" for n :: nat
    by (simp add: low_bits_def power_add div_mult2_eq)
  have "unat x div 2 ^ low_bits l \<le> b" "b \<le> unat x div 2 ^ low_bits l"
    using div_le_mono [OF x(1), of "2 ^ (9 * l)"] div_le_mono [OF x(2), of "2 ^ (9 * l)"] assms
    by (simp_all add: d)
  then show "x \<in> region l b" by (simp add: region_def)
qed

lemma due_region:
  assumes "due l b v z n i"
  shows "touched v z \<subseteq> region (Suc l) b"
proof (cases "z = 0")
  case False
  have d: "n div 2 ^ low_bits (Suc l) = n div 2 ^ low_bits l div 512" for n :: nat
    by (simp add: low_bits_Suc power_add div_mult2_eq)
  have "v div 2 ^ low_bits l = b * 512 + i" "i < 512" "(v + z - 1) div 2 ^ low_bits l = b * 512 + (i + n - 1)" "i + n - 1 < 512"
    using assms False by (auto simp: due_def)
  then show ?thesis by (intro touched_region) (simp_all only: d; simp)+
qed simp

lemma due_start:
  assumes "0 < z" and "v div 2 ^ low_bits (Suc l) = b" and "(v + z - 1) div 2 ^ low_bits (Suc l) = b"
  defines "i \<equiv> v div 2 ^ low_bits l mod 512" and "j \<equiv> (v + z - 1) div 2 ^ low_bits l mod 512"
  shows "i \<le> j" and "due l b v z (j + 1 - i) i"
proof -
  have d: "n div 2 ^ low_bits (Suc l) = n div 2 ^ low_bits l div 512" for n :: nat
    by (simp add: low_bits_Suc power_add div_mult2_eq)
  have i: "v div 2 ^ low_bits l = b * 512 + i" using assms(2) unfolding d i_def by (metis div_mult_mod_eq)
  have j: "(v + z - 1) div 2 ^ low_bits l = b * 512 + j" using assms(3) unfolding d j_def by (metis div_mult_mod_eq)
  have "v div 2 ^ low_bits l \<le> (v + z - 1) div 2 ^ low_bits l" using assms(1) by (intro div_le_mono) simp
  then show ij: "i \<le> j" unfolding i j by simp
  have "j < 512" by (simp add: j_def)
  then show "due l b v z (j + 1 - i) i" using assms(1) ij i j by (simp add: due_def)
qed

text \<open>The test for an unaligned range, taken in 32 bits, is exact for the levels with large entries.\<close>

lemma aligned_test:
  assumes "pte_large (Suc l) \<noteq> 0" and "ucast (v AND (pt_size (Suc l) - 1)) = (0 :: s32)"
  shows "unat v mod 2 ^ low_bits l = 0"
proof -
  have l: "l = 1 \<or> l = 2" using assms(1) by (auto simp: pte_large_def split: if_splits)
  then have k: "low_bits l \<le> 32" and l3: "l \<le> 3" by (auto simp: low_bits_def)
  have m: "v AND (pt_size (Suc l) - 1) = take_bit (low_bits l) v"
    by (simp add: pt_size_eq [OF l3] take_bit_eq_mask mask_eq_exp_minus_1)
  have "take_bit (low_bits l) v = 0"
  proof (rule bit_word_eqI)
    fix n
    have "bit (take_bit (low_bits l) v) n \<Longrightarrow> bit (ucast (take_bit (low_bits l) v) :: s32) n"
      using k by (auto simp: bit_simps)
    then show "bit (take_bit (low_bits l) v) n = bit (0 :: u64) n" using assms(2) m by auto
  qed
  then have "take_bit (low_bits l) (unat v) = 0" by (metis unsigned_0 unsigned_take_bit_eq)
  then show ?thesis by (simp add: take_bit_eq_mod)
qed

text \<open>What the recursive call promises for the table of one entry.\<close>

definition map_inner ::
    "nat \<Rightarrow> u64 \<Rightarrow> (u64 \<Rightarrow> u64 \<Rightarrow> u64 \<Rightarrow> 'a paging_scheme \<Rightarrow> (bool \<times> 'a paging_scheme) result) \<Rightarrow> bool" where
  "map_inner l fl inner \<longleftrightarrow>
     (\<forall>c b v z s U. tree_ok s U l c \<longrightarrow> 0 < unat z \<longrightarrow> unat v + unat z \<le> 2 ^ 48 \<longrightarrow>
        unat v div 2 ^ low_bits l = b \<longrightarrow> (unat v + unat z - 1) div 2 ^ low_bits l = b \<longrightarrow>
        unmapped (memory s) l c (touched (unat v) (unat z)) \<longrightarrow>
        map_post l c b (touched (unat v) (unat z)) fl (l * n_pages (unat v) (unat z)) s U (inner (table_addr c) v z s))"

lemma chunk_arith:
  assumes "l \<le> 3" and "0 < unat z" and "unat v + unat z \<le> 2 ^ 48"
  defines "h \<equiv> piece l (unat v) (unat z)" and "t \<equiv> pt_chunk (Suc l) v z"
  shows "unat t = h" and "unat (v + t) = unat v + h" and "unat (z - t) = unat z - h"
    and "unat v + h + (unat z - h) \<le> 2 ^ 48"
proof -
  have "unat v < 2 ^ 48" using assms(2,3) by simp
  then show t: "unat t = h" unfolding t_def h_def piece_def by (rule unat_pt_chunk [OF assms(1)])
  have h: "h \<le> unat z" unfolding h_def by (rule piece_le)
  then show "unat v + h + (unat z - h) \<le> 2 ^ 48" using assms(3) by simp
  have "t \<le> z" using h t by (simp add: word_le_nat_alt)
  then show "unat (z - t) = unat z - h" using t unat_sub [of t z] by simp
  have "unat v + unat t < 2 ^ 64" using h t assms(3) by simp
  then show "unat (v + t) = unat v + h" using t unat_add_lem [of v t] by simp
qed

lemma map_descend_step:
  assumes ok: "tree_ok s U (Suc l) f" and l: "l \<le> 3" and p: "points (memory s) l f i"
    and inner: "map_inner l fl inner"
    and d: "due l b (unat v) (unat z) (Suc n) i" and small: "unat v + unat z \<le> 2 ^ 48"
    and un: "unmapped (memory s) (Suc l) f (touched (unat v) (unat z))"
  defines "h \<equiv> piece l (unat v) (unat z)" and "t \<equiv> pt_chunk (Suc l) v z"
  assumes k: "\<And>s1 U1. tree_ok s1 U1 (Suc l) f \<Longrightarrow>
      unmapped (memory s1) (Suc l) f (touched (unat v + h) (unat z - h)) \<Longrightarrow>
      map_post (Suc l) f b (touched (unat v + h) (unat z - h)) fl c2 s1 U1 (k s1)"
  shows "map_post (Suc l) f b (touched (unat v) (unat z)) fl (l * n_pages (unat v) h + c2) s U
    (and_then (inner (table_addr (child (memory s) f i)) v t s)
      (\<lambda>(ok, s1). if \<not> ok then Inr (False, s1) else k s1))"
proof -
  let ?c = "child (memory s) f i"
  note ds = due_step [OF d, folded h_def]
  note ca = chunk_arith [OF l ds(1) small, folded h_def t_def]
  note st = split_touched [OF ds(1), of "unat v" l, folded h_def]
  have h: "0 < h" unfolding h_def using ds(1) by (rule piece_pos)
  have sub: "touched (unat v) h \<subseteq> region l (b * 512 + i)"
    unfolding h_def using piece_region [of "unat v" l "unat z"] ds(3) by simp
  have sub2: "touched (unat v + h) (unat z - h) \<subseteq> region (Suc l) b" by (rule due_region [OF ds(4)])
  have un1: "unmapped (memory s) (Suc l) f (touched (unat v) h)"
    and un2: "unmapped (memory s) (Suc l) f (touched (unat v + h) (unat z - h))"
    using un st(1) by (auto simp: unmapped_def)
  have ne: "touched (unat v) h \<noteq> {}" using start_touched [OF h] by blast
  have unc: "unmapped (memory s) l ?c (touched (unat v) h)"
    using unmapped_child(2) [OF l ds(2) un1 sub ne] p by (simp add: points_def)
  have post: "map_post l ?c (b * 512 + i) (touched (unat v) h) fl (l * n_pages (unat v) h) s U
      (inner (table_addr ?c) v t s)"
  proof -
    have "unat v + h \<le> 2 ^ 48" using ca(4) by simp
    moreover have "(unat v + h - 1) div 2 ^ low_bits l = b * 512 + i"
      using piece_ends [OF ds(1), of "unat v" l] ds(3) by (simp add: h_def)
    ultimately show ?thesis
      using inner [unfolded map_inner_def, rule_format, of s U ?c t v "b * 512 + i"]
        tree_ok_child [OF ok p] h ds(3) unc unfolding ca(1) by blast
  qed
  show ?thesis
    unfolding st(1)
  proof (rule map_post_descend [OF ok l p post sub st(2) ne])
    fix s1 U1 assume g: "grown (Suc l) f b (touched (unat v) h) s U s1 U1"
    show "map_post (Suc l) f b (touched (unat v + h) (unat z - h)) fl c2 s1 U1 (k s1)"
      by (rule k [OF grownD(1) [OF g] unmapped_grown [OF g un2 sub2 st(2)]])
  qed
qed

text \<open>The case distinctions of the loop body, with the table or the entry already fetched.\<close>

lemma pt_map_loop_steps:
  fixes s :: "'a paging_scheme" and v z pt flags :: u64 and l n i :: nat and inner
  assumes "l \<le> 3"
  defines "t \<equiv> pt_chunk (Suc l) v z"
    and "go \<equiv> pt_map_loop inner (Suc l) pt flags n (i + 1) (v + pt_chunk (Suc l) v z) (z - pt_chunk (Suc l) v z)"
    and "leaf \<equiv> l = 0 \<or> pte_large (Suc l) \<noteq> 0 \<and> pt_chunk (Suc l) v z = pt_size (Suc l) \<and>
           ucast (v AND (pt_size (Suc l) - 1)) = (0 :: s32)"
    and "e \<equiv> pt_get (memory s) pt i"
  defines "rest \<equiv> \<lambda>e s. and_then (inner (va (e AND PTE_PHYS_MASK)) v t s)
            (\<lambda>(ok, s1). if \<not> ok then Inr (False, s1) else go s1)"
  defines "table \<equiv> \<lambda>s. and_then (pt_alloc s)
            (\<lambda>(phys, s1). rest (phys OR pde_flags) (pt_set pt i (phys OR pde_flags) s1))"
  shows "present e \<Longrightarrow> l \<noteq> 0 \<Longrightarrow> pt_map_loop inner (Suc l) pt flags (Suc n) i v z s = rest e s"
    and "\<not> present e \<Longrightarrow> \<not> leaf \<Longrightarrow> pt_map_loop inner (Suc l) pt flags (Suc n) i v z s = table s"
    and "\<not> present e \<Longrightarrow> leaf \<Longrightarrow> buddy_alloc (9 * l) s = (phys, s1) \<Longrightarrow>
      pt_map_loop inner (Suc l) pt flags (Suc n) i v z s =
        (if phys \<noteq> 0 then go (pt_set pt i (phys OR (flags OR pte_large (Suc l))) s1)
         else if l = 0 then Inr (False, s1) else table s1)"
  unfolding present_def e_def rest_def table_def leaf_def go_def t_def
  by (auto simp: Let_def pt_order_eq [OF assms(1)])

declare pt_map_loop.simps(2) [simp del]

lemma map_table_step:
  assumes ok: "tree_ok s U (Suc l) f" and l: "l \<le> 3" "l \<noteq> 0" and empty: "\<not> present (entry (memory s) f i)"
    and inner: "map_inner l fl inner"
    and d: "due l b (unat v) (unat z) (Suc n) i" and small: "unat v + unat z \<le> 2 ^ 48"
    and un: "unmapped (memory s) (Suc l) f (touched (unat v) (unat z))"
  defines "h \<equiv> piece l (unat v) (unat z)" and "t \<equiv> pt_chunk (Suc l) v z"
  assumes k: "\<And>s1 U1. tree_ok s1 U1 (Suc l) f \<Longrightarrow>
      unmapped (memory s1) (Suc l) f (touched (unat v + h) (unat z - h)) \<Longrightarrow>
      map_post (Suc l) f b (touched (unat v + h) (unat z - h)) fl c2 s1 U1 (k s1)"
  shows "map_post (Suc l) f b (touched (unat v) (unat z)) fl (1 + (l * n_pages (unat v) h + c2)) s U
    (and_then (pt_alloc s) (\<lambda>(phys, s1).
      and_then (inner (va ((phys OR pde_flags) AND PTE_PHYS_MASK)) v t (pt_set (table_addr f) i (phys OR pde_flags) s1))
        (\<lambda>(ok, s1). if \<not> ok then Inr (False, s1) else k s1)))"
proof (cases "pt_alloc s")
  case (Inl e)
  obtain s1 where "buddy_alloc 0 s = (0, s1)" and e: "e = Hang"
    using Inl by (auto simp: pt_alloc_def Let_def split: prod.splits if_splits)
  then have "avail s U = 0" using buddy_alloc_fails(2) [OF tree_okD(1) [OF ok]] by blast
  then show ?thesis using Inl e by (simp add: map_post_Hang)
next
  case (Inr r)
  obtain phys s1 where r: "r = (phys, s1)" by (cases r)
  then have run: "pt_alloc s = Inr (phys, s1)" using Inr by simp
  let ?s = "pt_set (table_addr f) i (phys OR pde_flags) s1" and ?U = "insert (frame phys, 0) U"
  note ds = due_step [OF d, folded h_def]
  note st = split_touched [OF ds(1), of "unat v" l, folded h_def]
  have sub: "touched (unat v) h \<subseteq> region l (b * 512 + i)"
    unfolding h_def using piece_region [of "unat v" l "unat z"] ds(3) by simp
  have ne: "touched (unat v) h \<noteq> {}"
    using start_touched [OF piece_pos [OF ds(1)]] unfolding h_def by blast
  note a = grown_attach [OF ok l ds(2) empty run sub ne]
  have "unmapped (memory ?s) (Suc l) f (touched (unat v) h)" using a(4) sub unfolding unmapped_def by blast
  moreover have "unmapped (memory ?s) (Suc l) f (touched (unat v + h) (unat z - h))"
    using unmapped_grown [OF a(1) _ due_region [OF ds(4)] st(2)] un st(1) by (auto simp: unmapped_def)
  ultimately have un': "unmapped (memory ?s) (Suc l) f (touched (unat v) (unat z))"
    unfolding st(1) by (auto simp: unmapped_def)
  have "entry (memory ?s) f i = phys OR pde_flags"
    using entry_store [OF ds(2) ds(2)] by simp
  then have c: "va ((phys OR pde_flags) AND PTE_PHYS_MASK) = table_addr (child (memory ?s) f i)"
    by (simp add: va_target child_def)
  have "map_post (Suc l) f b (touched (unat v) (unat z)) fl (l * n_pages (unat v) h + c2) ?s ?U
    (and_then (inner (table_addr (child (memory ?s) f i)) v t ?s)
      (\<lambda>(ok, s1). if \<not> ok then Inr (False, s1) else k s1))"
    unfolding h_def t_def
    by (rule map_descend_step [OF grownD(1) [OF a(1)] l(1) a(2) inner d small un' k [unfolded h_def]])
  from map_post_attach [OF a(1) _ a(5) this] st(1) show ?thesis
    using run by (simp add: c)
qed

lemma pt_map_loop_post:
  assumes l: "l \<le> 3" and flags: "flags AND PTE_PHYS_MASK = 0" "flags AND PTE_LARGE = 0" "present flags"
    and inner: "l \<noteq> 0 \<Longrightarrow> map_inner l (perms flags) inner"
  shows "tree_ok s U (Suc l) f \<Longrightarrow> due l b (unat v) (unat z) n i \<Longrightarrow> unat v + unat z \<le> 2 ^ 48 \<Longrightarrow>
    unmapped (memory s) (Suc l) f (touched (unat v) (unat z)) \<Longrightarrow>
    map_post (Suc l) f b (touched (unat v) (unat z)) (perms flags) (Suc l * n_pages (unat v) (unat z)) s U
      (pt_map_loop inner (Suc l) (table_addr f) flags n i v z s)"
proof (induction n arbitrary: i v z s U)
  case 0
  then have "unat z = 0" by (auto simp: due_def split: if_splits)
  have "map_post (Suc l) f b {} (perms flags) 0 s U (Inr (True, s))"
    by (rule map_post_ok [OF grown_refl [OF "0.prems"(1)] backed_empty]) simp
  then show ?case using \<open>unat z = 0\<close> by simp
next
  case (Suc n)
  let ?v = "unat v" and ?z = "unat z" and ?fl = "perms flags"
  define h where "h = piece l ?v ?z"
  define t where "t = pt_chunk (Suc l) v z"
  define go where "go = pt_map_loop inner (Suc l) (table_addr f) flags n (i + 1) (v + t) (z - t)"
  note ok = Suc.prems(1) and d = Suc.prems(2) and small = Suc.prems(3) and un = Suc.prems(4)
  note ds = due_step [OF d, folded h_def]
  note ca = chunk_arith [OF l ds(1) small, folded h_def t_def]
  note st = split_touched [OF ds(1), of ?v l, folded h_def]
  note steps = pt_map_loop_steps [OF l, where v = v and z = z and inner = inner and pt = "table_addr f" and
    flags = flags and n = n and i = i and s = s, folded t_def, folded go_def]
  let ?e = "entry (memory s) f i" and ?P = "n_pages ?v h"
  let ?R2 = "touched (?v + h) (?z - h)" and ?c2 = "Suc l * n_pages (?v + h) (?z - h)"
  have e: "pt_get (memory s) (table_addr f) i = ?e" by (simp add: entry_def)
  have P: "1 \<le> ?P" unfolding h_def using piece_pos [OF ds(1), of l ?v] by (simp add: n_pages_def)
  have cost: "Suc l * n_pages ?v ?z = Suc l * ?P + ?c2" unfolding st(3) by (rule distrib_left)
  have go: "map_post (Suc l) f b ?R2 ?fl ?c2 s1 U1 (go s1)"
    if "tree_ok s1 U1 (Suc l) f" "unmapped (memory s1) (Suc l) f ?R2" for s1 U1
    using Suc.IH [OF that(1), of "v + t" "z - t" "i + 1"] ds(4) ca(2-4) that(2) unfolding go_def by simp
  show ?case
  proof (cases "present ?e")
    case True
    have sub: "touched ?v h \<subseteq> region l (b * 512 + i)"
      unfolding h_def using piece_region [of ?v l ?z] ds(3) by simp
    have "v \<in> touched ?v h" using piece_pos [OF ds(1), of l ?v] by (auto simp: h_def intro!: start_touched)
    then have p: "points (memory s) l f i"
      using unmapped_child(1) [OF l ds(2) _ sub _ True] un st(1) by (auto simp: unmapped_def)
    then have l0: "l \<noteq> 0" by (auto simp: points_def final_def)
    have c: "va (?e AND PTE_PHYS_MASK) = table_addr (child (memory s) f i)" by (simp add: va_target child_def)
    have "map_post (Suc l) f b (touched ?v ?z) ?fl (l * ?P + ?c2) s U
      (and_then (inner (table_addr (child (memory s) f i)) v t s)
        (\<lambda>(ok, s1). if \<not> ok then Inr (False, s1) else go s1))"
      unfolding h_def t_def
      by (rule map_descend_step [OF ok l p inner [OF l0] d small un go [unfolded h_def]])
    then have "map_post (Suc l) f b (touched ?v ?z) ?fl (Suc l * n_pages ?v ?z) s U
      (and_then (inner (table_addr (child (memory s) f i)) v t s)
        (\<lambda>(ok, s1). if \<not> ok then Inr (False, s1) else go s1))"
      unfolding cost by (rule map_post_more) simp
    then show ?thesis using steps(1) True l0 c unfolding e by simp
  next
    case empty: False
    define leaf where "leaf = (l = 0 \<or> pte_large (Suc l) \<noteq> 0 \<and> t = pt_size (Suc l) \<and>
      ucast (v AND (pt_size (Suc l) - 1)) = (0 :: s32))"
    define table where "table = (\<lambda>s. and_then (pt_alloc s) (\<lambda>(phys, s1).
      and_then (inner (va ((phys OR pde_flags) AND PTE_PHYS_MASK)) v t (pt_set (table_addr f) i (phys OR pde_flags) s1))
        (\<lambda>(ok, s1). if \<not> ok then Inr (False, s1) else go s1)))"
    have tab: "map_post (Suc l) f b (touched ?v ?z) ?fl (Suc l * n_pages ?v ?z) s U (table s)" if l0: "l \<noteq> 0"
    proof -
      have "map_post (Suc l) f b (touched ?v ?z) ?fl (1 + (l * ?P + ?c2)) s U (table s)"
        unfolding table_def t_def h_def
        by (rule map_table_step [OF ok l l0 empty inner [OF l0] d small un go [unfolded h_def]])
      then show ?thesis unfolding cost by (rule map_post_more) (use P in simp)
    qed
    show ?thesis
    proof (cases leaf)
      case False
      then have "l \<noteq> 0" by (simp add: leaf_def)
      then show ?thesis using tab steps(2) empty False unfolding e leaf_def table_def by simp
    next
      case True
      obtain phys s1 where run: "buddy_alloc (9 * l) s = (phys, s1)" by (cases "buddy_alloc (9 * l) s")
      note step = steps(3) [folded leaf_def, unfolded e, OF empty True run]
      show ?thesis
      proof (cases "phys = 0")
        case z0: True
        note fails = buddy_alloc_fails [OF tree_okD(1) [OF ok] run [unfolded z0]]
        show ?thesis
        proof (cases "l = 0")
          case True
          then have "avail s U < Suc l * n_pages ?v ?z" using fails(2) P cost by simp
          then show ?thesis
            using step z0 True fails(1) map_post_False [OF grown_refl [OF ok]] by simp
        next
          case False
          then show ?thesis using step z0 fails(1) tab by (simp add: table_def)
        qed
      next
        case ne: False
        have lf: "l = 0 \<or> pte_large (Suc l) \<noteq> 0" using True by (auto simp: leaf_def)
        have full: "touched ?v h = region l (b * 512 + i) \<and> ?P = 2 ^ (9 * l)"
        proof (cases "l = 0")
          case True
          then show ?thesis using first_page [OF ds(1), of ?v] ds(3) by (simp add: h_def)
        next
          case False
          then have al: "?v mod 2 ^ low_bits l = 0" and "t = pt_size (Suc l)"
            using True aligned_test [of l v] by (auto simp: leaf_def)
          then have "piece l ?v ?z = 2 ^ low_bits l" using ca(1) unat_pt_size [OF l] by (simp add: h_def)
          then show ?thesis using full_entry [OF _ al, of ?z] ds(3) by (simp add: h_def)
        qed
        let ?s = "pt_set (table_addr f) i (phys OR (flags OR pte_large (Suc l))) s1"
          and ?U = "insert (frame phys, 9 * l) U"
        have room: "region l (b * 512 + i) \<noteq> {}"
          using full start_touched [OF piece_pos [OF ds(1), of l ?v]] by (auto simp: h_def)
        note lg = grown_leaf [OF ok l ds(2) empty run ne flags lf room, folded conjunct1 [OF full]]
        have R: "touched ?v h \<subseteq> region (Suc l) b" using due_region [OF d] st(1) by blast
        have un2: "unmapped (memory s) (Suc l) f ?R2" using un st(1) by (auto simp: unmapped_def)
        have R2: "?R2 \<subseteq> region (Suc l) b" by (rule due_region [OF ds(4)])
        note rest = go [OF grownD(1) [OF lg(1)] unmapped_grown [OF lg(1) un2 R2 st(2)]]
        have "map_post (Suc l) f b (touched ?v ?z) ?fl (2 ^ (9 * l) + ?c2) s U (go ?s)"
          unfolding st(1) by (rule map_post_step [OF lg(1,2,3) R st(2) rest])
        then have "map_post (Suc l) f b (touched ?v ?z) ?fl (Suc l * n_pages ?v ?z) s U (go ?s)"
          unfolding cost by (rule map_post_more) (use full in simp)
        then show ?thesis using step ne by simp
      qed
    qed
  qed
qed

lemma range_end:
  fixes v z :: u64
  assumes "0 < unat z" and "unat v + unat z \<le> 2 ^ 48"
  shows "unat (v + z - 1) = unat v + unat z - 1"
proof -
  have "unat v + unat z < 2 ^ 64" using assms(2) by simp
  then have vz: "unat (v + z) = unat v + unat z" using unat_add_lem [of v z] by simp
  then have "v + z \<noteq> 0" using assms(1) by (metis add_gr_0 less_numeral_extra(3) unat_eq_zero)
  then show ?thesis using vz unat_minus_one [of "v + z"] by simp
qed

lemma map_innerD:
  assumes "map_inner l fl inner" and "tree_ok s U l c" and "0 < unat z" and "unat v + unat z \<le> 2 ^ 48"
    and "unat v div 2 ^ low_bits l = b" and "(unat v + unat z - 1) div 2 ^ low_bits l = b"
    and "unmapped (memory s) l c (touched (unat v) (unat z))"
  shows "map_post l c b (touched (unat v) (unat z)) fl (l * n_pages (unat v) (unat z)) s U (inner (table_addr c) v z s)"
  using assms unfolding map_inner_def by blast

text \<open>By induction on the level: a table of level \<open>l\<close> with room for at most \<open>l\<close> pages per page mapped.\<close>

lemma do_pt_map_post:
  assumes flags: "flags AND PTE_PHYS_MASK = 0" "flags AND PTE_LARGE = 0" "present flags"
    and "l \<le> 4" and "l \<noteq> 0"
  shows "map_inner l (perms flags) (do_pt_map l flags :: u64 \<Rightarrow> u64 \<Rightarrow> u64 \<Rightarrow> 'a paging_scheme \<Rightarrow> _)"
  using assms(4,5)
proof (induction l)
  case (Suc l)
  then have l: "l \<le> 3" by simp
  have inner: "map_inner l (perms flags) (do_pt_map l flags :: u64 \<Rightarrow> u64 \<Rightarrow> u64 \<Rightarrow> 'a paging_scheme \<Rightarrow> _)" if "l \<noteq> 0" using Suc.IH Suc.prems that by simp
  show ?case
    unfolding map_inner_def
  proof (intro allI impI)
    fix c b :: nat and v z :: u64 and s :: "'a paging_scheme" and U
    assume ok: "tree_ok s U (Suc l) c" and z: "0 < unat z" and small: "unat v + unat z \<le> 2 ^ 48"
      and b: "unat v div 2 ^ low_bits (Suc l) = b" "(unat v + unat z - 1) div 2 ^ low_bits (Suc l) = b"
      and un: "unmapped (memory s) (Suc l) c (touched (unat v) (unat z))"
    have "unat (v + z - 1) = unat v + unat z - 1" by (rule range_end [OF z small])
    then have ix: "pt_from (Suc l) v = unat v div 2 ^ low_bits l mod 512"
      "pt_to (Suc l) v z = (unat v + unat z - 1) div 2 ^ low_bits l mod 512 + 1"
      by (simp_all add: pt_from_def pt_to_def pt_index_eq [OF l])
    note start = due_start [OF z b]
    have "do_pt_map (Suc l) flags (table_addr c) v z s =
      pt_map_loop (do_pt_map l flags) (Suc l) (table_addr c) flags (pt_to (Suc l) v z - pt_from (Suc l) v) (pt_from (Suc l) v) v z s"
      using start(1) by (simp add: ix Let_def)
    moreover have "map_post (Suc l) c b (touched (unat v) (unat z)) (perms flags) (Suc l * n_pages (unat v) (unat z)) s U
        (pt_map_loop (do_pt_map l flags) (Suc l) (table_addr c) flags (pt_to (Suc l) v z - pt_from (Suc l) v) (pt_from (Suc l) v) v z s)"
      unfolding ix by (rule pt_map_loop_post [OF l flags inner ok start(2) small un])
    ultimately show "map_post (Suc l) c b (touched (unat v) (unat z)) (perms flags)
        (Suc l * n_pages (unat v) (unat z)) s U (do_pt_map (Suc l) flags (table_addr c) v z s)" by simp
  qed
qed simp

end
