(* ===== verification/Pt_Unmap.thy ===== *)
theory Pt_Unmap
  imports Pt_Map
begin

text \<open>
  What \<open>pt_unmap\<close> gives back. A tree that holds each of its blocks once (\<open>owns\<close>) is taken apart when
  all entries of a table are visited: every block it holds is freed exactly once, tables after what
  is below them, and the entries are cleared. The loop visits whole entries here: it starts at an
  entry boundary and the range covers all the entries left.
\<close>

subsection \<open>Ownership\<close>

definition owns :: "block set \<Rightarrow> block multiset \<Rightarrow> bool" where
  "owns U M \<longleftrightarrow> (\<forall>x. count M x \<le> (if x \<in> U then 1 else 0)) \<and> (\<forall>k. (0, k) \<notin># M)"

lemma owns_in: "owns U M \<Longrightarrow> x \<in># M \<Longrightarrow> x \<in> U"
  unfolding owns_def by (metis count_greater_zero_iff not_le)

lemma ownsD: "owns U M \<Longrightarrow> count M x \<le> (if x \<in> U then 1 else 0)"
  and owns_nonzero: "owns U M \<Longrightarrow> (0, k) \<notin># M"
  unfolding owns_def by blast+

lemma owns_fst:
  assumes "owns U M" and "x \<in># M"
  shows "fst x \<noteq> 0"
proof
  assume "fst x = 0"
  then have "x = (0, snd x)" by (simp add: prod_eq_iff)
  then show False using owns_nonzero [OF assms(1), of "snd x"] assms(2) by simp
qed

lemma owns_split:
  assumes "owns U (A + B)"
  shows "owns U A" and "owns (U - set_mset A) B"
proof -
  have c: "count A x + count B x \<le> (if x \<in> U then 1 else 0)" for x using ownsD [OF assms, of x] by simp
  have z: "(0, k) \<notin># A + B" for k by (rule owns_nonzero [OF assms])
  have "count A x \<le> (if x \<in> U then 1 else 0)" for x using c [of x] by linarith
  then show "owns U A" using z unfolding owns_def by auto
  have "count B x \<le> (if x \<in> U - set_mset A then 1 else 0)" for x
  proof (cases "x \<in># A")
    case True
    then have "0 < count A x" by simp
    moreover have "count A x + count B x \<le> 1" using c [of x] by (cases "x \<in> U") auto
    ultimately have "count B x = 0" by linarith
    then show ?thesis by simp
  next
    case False
    then show ?thesis using c [of x] by (auto simp: not_in_iff split: if_splits)
  qed
  then show "owns (U - set_mset A) B" using z unfolding owns_def by auto
qed

lemma owns_gained:
  assumes "owns U M" and "gained U U' M M'"
  shows "owns U' M'"
proof -
  obtain N where n: "finite N" "U' = U \<union> N" "U \<inter> N = {}" "\<forall>k. (0, k) \<notin> N" "M' = M + mset_set N"
    using assms(2) unfolding gained_def by blast
  have "count M' x \<le> (if x \<in> U' then 1 else 0)" for x
  proof -
    have "count M x \<le> (if x \<in> U then 1 else 0)" by (rule ownsD [OF assms(1)])
    moreover have "count (mset_set N) x = (if x \<in> N then 1 else 0)" using n(1) by (simp add: count_mset_set')
    moreover have "\<not> (x \<in> U \<and> x \<in> N)" using n(3) by blast
    ultimately show ?thesis unfolding n(2,5) by (auto split: if_splits)
  qed
  moreover have "(0, k) \<notin># M'" for k using owns_nonzero [OF assms(1)] n(1,4,5) by simp
  ultimately show ?thesis unfolding owns_def by blast
qed

lemma buddy_free_page:
  assumes ok: "buddy_ok s U" and x: "(f, k) \<in> U" and f: "f \<noteq> 0"
  obtains s' where "buddy_free (of_nat f * PAGE_SIZE) k s = Inr s'" and "buddy_ok s' (U - {(f, k)})"
    and "s' = s\<lparr>buddy_zones := buddy_zones s'\<rparr>" and "low_zones s' = low_zones s"
proof -
  have inv: "buddy_inv s U" using ok by (simp add: buddy_ok_def)
  obtain s' where s': "buddy_free (of_nat f * PAGE_SIZE) k s = Inr s'" "buddy_ok s' (U - {(f, k)})"
    using buddy_free_ok [OF ok x f] by blast
  obtain i where i: "i < length (buddy_zones s)" "zbegin (buddy_zones s ! i) \<le> f" "f < zend (buddy_zones s ! i)"
    and find: "find_zone_from 0 (buddy_zones s) f = Some i" and f52: "f < 2 ^ 52"
    using zones_inv_home inv x unfolding buddy_inv_def by metis
  have "s' = buddy_free_zone i (f - zbegin (buddy_zones s ! i)) k s"
    using s'(1) by (simp add: buddy_free_def buddy_find_zone_def frame_addr [OF f52] find)
  then obtain z' where z': "zbegin z' = zbegin (buddy_zones s ! i)" "zend z' = zend (buddy_zones s ! i)"
    "s' = s\<lparr>buddy_zones := (buddy_zones s)[i := z']\<rparr>"
    using buddy_free_zone_inv(2) [OF inv x i] by blast
  have "layout s' = layout s" by (rule layout_update [OF z'(1,2)]) (simp add: z'(3))
  then have "zend ` set (buddy_zones s') = zend ` set (buddy_zones s)"
    unfolding layout_def by (metis (no_types, lifting) image_cong image_image list.set_map snd_conv)
  then have "low_zones s' = low_zones s" unfolding low_zones_def by (metis (mono_tags, lifting) image_iff)
  moreover have "s' = s\<lparr>buddy_zones := buddy_zones s'\<rparr>" using z'(3) by simp
  ultimately show thesis using that s' by blast
qed

subsection \<open>The loop\<close>

text \<open>What the recursive call promises for the table of one entry.\<close>

definition unmap_inner ::
    "nat \<Rightarrow> (u64 \<Rightarrow> u64 \<Rightarrow> u64 \<Rightarrow> 'a paging_scheme \<Rightarrow> 'a paging_scheme result) \<Rightarrow> bool" where
  "unmap_inner l inner \<longleftrightarrow>
     (\<forall>c v z s U. buddy_ok s U \<longrightarrow> c < 2 ^ 52 \<longrightarrow> separate (memory s) l c \<longrightarrow> owns U (held (memory s) l c) \<longrightarrow>
        2 ^ low_bits l dvd unat v \<longrightarrow> unat z = 2 ^ low_bits l \<longrightarrow> unat v + unat z \<le> 2 ^ 48 \<longrightarrow>
        (\<exists>s'. inner (table_addr c) v z s = Inr s' \<and> buddy_ok s' (U - set_mset (held (memory s) l c)) \<and>
           (\<forall>a. a \<notin> \<Union> (page_at ` tables (memory s) l c) \<longrightarrow> memory s' a = memory s a) \<and>
           low_zones s' = low_zones s \<and> pt_frame s s'))"

text \<open>The entries \<open>i\<close> to \<open>i + n - 1\<close> of the root have been taken apart.\<close>

definition taken_apart ::
    "nat \<Rightarrow> nat \<Rightarrow> nat \<Rightarrow> nat \<Rightarrow> 'a paging_scheme \<Rightarrow> block set \<Rightarrow> 'a paging_scheme \<Rightarrow> bool" where
  "taken_apart l f i n s U s' \<longleftrightarrow>
     buddy_ok s' (U - set_mset (\<Sum>j\<in>{i..<i + n}. slot (memory s) l f j)) \<and>
     separate (memory s') (Suc l) f \<and> tables (memory s') (Suc l) f \<subseteq> tables (memory s) (Suc l) f \<and>
     (\<forall>j\<in>{i..<i + n}. \<not> present (entry (memory s') f j)) \<and>
     (\<forall>j<512. j \<notin> {i..<i + n} \<longrightarrow> branch_kept l f (memory s) (memory s') j) \<and>
     (\<forall>x. pt_index x (Suc l) \<notin> {i..<i + n} \<longrightarrow> resolve (memory s') (Suc l) f x = resolve (memory s) (Suc l) f x) \<and>
     (\<forall>a. a \<notin> \<Union> (page_at ` tables (memory s) (Suc l) f) \<longrightarrow> memory s' a = memory s a) \<and>
     low_zones s' = low_zones s \<and> pt_frame s s'"

lemma taken_apartD:
  assumes "taken_apart l f i n s U s'"
  shows "buddy_ok s' (U - set_mset (\<Sum>j\<in>{i..<i + n}. slot (memory s) l f j))"
    and "separate (memory s') (Suc l) f" and "tables (memory s') (Suc l) f \<subseteq> tables (memory s) (Suc l) f"
    and "j \<in> {i..<i + n} \<Longrightarrow> \<not> present (entry (memory s') f j)"
    and "j < 512 \<Longrightarrow> j \<notin> {i..<i + n} \<Longrightarrow> branch_kept l f (memory s) (memory s') j"
    and "pt_index x (Suc l) \<notin> {i..<i + n} \<Longrightarrow> resolve (memory s') (Suc l) f x = resolve (memory s) (Suc l) f x"
    and "a \<notin> \<Union> (page_at ` tables (memory s) (Suc l) f) \<Longrightarrow> memory s' a = memory s a"
    and "low_zones s' = low_zones s" and "pt_frame s s'"
  using assms unfolding taken_apart_def by (auto simp only: Ball_def atLeastLessThan_iff)

lemma slot_empty_iff: "slot m l f i = {#} \<longleftrightarrow> \<not> present (entry m f i)"
  by (simp add: slot_def Let_def)

lemma all_tables_less: "f < 2 ^ 52 \<Longrightarrow> t \<in> tables m l f \<Longrightarrow> t < 2 ^ 52"
  using tables_less [of t m l f] by (auto intro: less_le_trans)

text \<open>Clearing entry \<open>i\<close> after writes to the tables below it.\<close>

lemma clear_entry:
  assumes l: "l \<le> 3" and i: "i < 512" and f: "f < 2 ^ 52" and sep: "separate m (Suc l) f"
    and kept: "\<forall>a. a \<notin> \<Union> (page_at ` below m l f i) \<longrightarrow> m1 a = m a"
  defines "m' \<equiv> store_u64 m1 (table_addr f + 8 * of_nat i) 0"
  shows "separate m' (Suc l) f" and "tables m' (Suc l) f \<subseteq> tables m (Suc l) f" and "\<not> present (entry m' f i)"
    and "j < 512 \<Longrightarrow> j \<noteq> i \<Longrightarrow> branch_kept l f m m' j"
    and "pt_index x (Suc l) \<noteq> i \<Longrightarrow> resolve m' (Suc l) f x = resolve m (Suc l) f x"
    and "a \<notin> \<Union> (page_at ` tables m (Suc l) f) \<Longrightarrow> m' a = m a"
proof -
  have m1: "m1 a = m a" if "a \<notin> \<Union> (page_at ` below m l f i)" for a using kept that by blast
  have sp: "\<And>j. below m l f j \<inter> beside m l f j = {}" using sep unfolding separate_iff by blast
  have out1: "m1 a = m a" if t: "t \<in> beside m l f i" and a: "a \<in> page_at t" for a t
  proof (rule m1)
    have ts: "t \<in> tables m (Suc l) f" using t tables_split [of m l f i] by blast
    have "page_at t \<inter> page_at u = {}" if "u \<in> below m l f i" for u
    proof (rule pages_disjoint)
      show "t \<noteq> u" using sp [of i] t that by blast
      show "t < 2 ^ 52" by (rule all_tables_less [OF f ts])
      have "u \<in> tables m (Suc l) f" using that tables_split [of m l f i] by blast
      then show "u < 2 ^ 52" by (rule all_tables_less [OF f])
    qed
    then show "a \<notin> \<Union> (page_at ` below m l f i)" using a by blast
  qed
  have fb: "f \<in> beside m l f i" by (simp add: beside_def)
  have "agree m m1 {f}" using out1 [OF fb] by (simp add: agree_def)
  then have e1: "entry m1 f j = entry m f j" if "j < 512" for j using entry_cong that by blast
  have ent: "entry m' f j = (if j = i then 0 else entry m f j)" if "j < 512" for j
    unfolding m'_def using entry_store [OF i that] e1 [OF that] by simp
  then show np: "\<not> present (entry m' f i)" using i by (simp add: present_def)
  have others: "\<forall>j<512. j \<noteq> i \<longrightarrow> entry m' f j = entry m f j" using ent by simp
  have apart: "agree m m' (beside m l f i - {f})"
    unfolding agree_def
  proof (intro ballI)
    fix t a assume t: "t \<in> beside m l f i - {f}" and a: "a \<in> page_at t"
    have "t \<in> tables m (Suc l) f" using t tables_split [of m l f i] by blast
    then have "t < 2 ^ 52" by (rule all_tables_less [OF f])
    then have "page_at t \<inter> page_at f = {}" by (rule pages_disjoint [OF _ f]) (use t in blast)
    then have "a \<notin> page_at f" using a by blast
    moreover have "m1 a = m a" by (rule out1 [OF _ a]) (use t in blast)
    ultimately show "m' a = m a" by (simp add: m'_def store_entry_other [OF i])
  qed
  have "f \<notin> below m l f j" for j using sp [of j] by (auto simp: beside_def)
  then have root: "\<forall>j. j \<noteq> i \<longrightarrow> f \<notin> below m l f j" by blast
  note up = tree_update [OF l others apart root]
  have b: "below m' l f i = {}" using np by (simp add: below_def points_def)
  show "separate m' (Suc l) f" using up(3) [OF sep] b np by (simp add: points_def)
  show "tables m' (Suc l) f \<subseteq> tables m (Suc l) f"
    using tables_split [of m' l f i] tables_split [of m l f i] b up(1) by auto
  show "j < 512 \<Longrightarrow> j \<noteq> i \<Longrightarrow> branch_kept l f m m' j" by (rule up(6))
  show "pt_index x (Suc l) \<noteq> i \<Longrightarrow> resolve m' (Suc l) f x = resolve m (Suc l) f x" by (rule up(2))
  assume a: "a \<notin> \<Union> (page_at ` tables m (Suc l) f)"
  then have "a \<notin> page_at f" by simp
  then show "m' a = m a" using a m1 tables_split [of m l f i] by (simp add: m'_def store_entry_other [OF i] del: tables.simps)
qed

text \<open>One entry has been taken apart when its blocks are freed and it is cleared.\<close>

lemma taken_apart_one:
  assumes l: "l \<le> 3" and i: "i < 512" and f: "f < 2 ^ 52" and sep: "separate (memory s) (Suc l) f"
    and m1: "\<forall>a. a \<notin> \<Union> (page_at ` below (memory s) l f i) \<longrightarrow> memory s1 a = memory s a"
    and ok: "buddy_ok s1 (U - set_mset (slot (memory s) l f i))" and low: "low_zones s1 = low_zones s" and pf: "pt_frame s s1"
  shows "taken_apart l f i 1 s U (pt_set (table_addr f) i 0 s1)"
proof -
  let ?s = "pt_set (table_addr f) i 0 s1"
  have z: "buddy_zones ?s = buddy_zones s1" by simp
  have mem: "memory ?s = store_u64 (memory s1) (table_addr f + 8 * of_nat i) 0" by simp
  note ce = clear_entry [OF l i f sep m1, folded mem]
  show ?thesis
    unfolding taken_apart_def
  proof (intro conjI ballI allI impI)
    show "buddy_ok ?s (U - set_mset (\<Sum>j\<in>{i..<i + 1}. slot (memory s) l f j))" using ok by (simp add: buddy_ok_cong [OF z])
    show "separate (memory ?s) (Suc l) f" by (rule ce(1))
    show "tables (memory ?s) (Suc l) f \<subseteq> tables (memory s) (Suc l) f" by (rule ce(2))
    show "\<not> present (entry (memory ?s) f j)" if "j \<in> {i..<i + 1}" for j
    proof -
      have "j = i" using that by simp
      then show ?thesis using ce(3) by blast
    qed
    show "branch_kept l f (memory s) (memory ?s) j" if "j < 512" "j \<notin> {i..<i + 1}" for j
      by (rule ce(4) [OF that(1)]) (use that(2) in auto)
    show "resolve (memory ?s) (Suc l) f x = resolve (memory s) (Suc l) f x" if "pt_index x (Suc l) \<notin> {i..<i + 1}" for x
      by (rule ce(5)) (use that in auto)
    show "memory ?s a = memory s a" if "a \<notin> \<Union> (page_at ` tables (memory s) (Suc l) f)" for a by (rule ce(6) [OF that])
    show "low_zones ?s = low_zones s" using low low_zones_cong [OF z] by simp
    show "pt_frame s ?s" by (rule pt_frame_set [OF pf])
  qed
qed

lemma taken_apart_refl:
  "buddy_ok s U \<Longrightarrow> separate (memory s) (Suc l) f \<Longrightarrow> taken_apart l f i 0 s U s"
  unfolding taken_apart_def by (simp add: pt_frame_refl branch_kept_refl del: tables.simps separate.simps)

lemma taken_apart_skip:
  "buddy_ok s U \<Longrightarrow> separate (memory s) (Suc l) f \<Longrightarrow> \<not> present (entry (memory s) f i) \<Longrightarrow> taken_apart l f i 1 s U s"
  using slot_empty_iff [of "memory s" l f i]
  unfolding taken_apart_def by (simp add: pt_frame_refl branch_kept_refl del: tables.simps separate.simps)

lemma taken_apart_Suc:
  assumes i: "i < 512" and t1: "taken_apart l f i 1 s U s1"
    and t2: "taken_apart l f (Suc i) n s1 (U - set_mset (slot (memory s) l f i)) s2" and n: "i + Suc n \<le> 512"
  shows "taken_apart l f i (Suc n) s U s2"
proof -
  note d1 = taken_apartD [OF t1] and d2 = taken_apartD [OF t2]
  let ?m = "memory s" and ?m1 = "memory s1" and ?m2 = "memory s2"
  have rest: "(\<Sum>j\<in>{Suc i..<Suc i + n}. slot ?m1 l f j) = (\<Sum>j\<in>{Suc i..<Suc i + n}. slot ?m l f j)"
    using n by (intro sum.cong branch_keptD(1) [OF d1(5)]) auto
  have all: "(\<Sum>j\<in>{i..<i + Suc n}. slot ?m l f j) = slot ?m l f i + (\<Sum>j\<in>{Suc i..<Suc i + n}. slot ?m l f j)"
    by (subst sum.atLeast_Suc_lessThan) simp_all
  have range: "j \<in> {i..<i + Suc n} \<longleftrightarrow> j \<in> {i..<i + 1} \<or> j \<in> {Suc i..<Suc i + n}" for j by auto
  have "buddy_ok s2 (U - set_mset (\<Sum>j\<in>{i..<i + Suc n}. slot ?m l f j))"
    using d2(1) unfolding rest all by (simp add: Diff_eq Int_assoc)
  moreover have "\<not> present (entry ?m2 f j)" if j: "j \<in> {i..<i + Suc n}" for j
  proof (cases "j = i")
    case True
    have "slot ?m1 l f i = {#}" using d1(4) [of i] slot_empty_iff by simp
    then have "slot ?m2 l f i = {#}" using branch_keptD(1) [OF d2(5) [of i]] i by simp
    then show ?thesis using slot_empty_iff True by blast
  next
    case False
    then show ?thesis using j by (intro d2(4)) auto
  qed
  moreover have "branch_kept l f ?m ?m2 j" if "j < 512" "j \<notin> {i..<i + Suc n}" for j
    by (rule branch_kept_trans [OF d1(5) d2(5)]) (use that in auto)
  moreover have "resolve ?m2 (Suc l) f x = resolve ?m (Suc l) f x" if "pt_index x (Suc l) \<notin> {i..<i + Suc n}" for x
    using that d1(6) [of x] d2(6) [of x] range by (metis (no_types, lifting))
  moreover have "?m2 a = ?m a" if a: "a \<notin> \<Union> (page_at ` tables ?m (Suc l) f)" for a
  proof -
    have "a \<notin> \<Union> (page_at ` tables ?m1 (Suc l) f)" using a d1(3) by blast
    then show ?thesis using d1(7) [OF a] d2(7) by simp
  qed
  moreover have "tables ?m2 (Suc l) f \<subseteq> tables ?m (Suc l) f" using d1(3) d2(3) by blast
  moreover have "low_zones s2 = low_zones s" "pt_frame s s2" using d1(8) d2(8) pt_frame_trans [OF d1(9) d2(9)] by simp_all
  ultimately show ?thesis using d2(2) unfolding taken_apart_def by blast
qed

lemma whole_chunk:
  assumes l: "l \<le> 3" and al: "2 ^ low_bits l dvd unat v" and z: "2 ^ low_bits l \<le> unat z"
    and small: "unat v + unat z \<le> 2 ^ 48"
  defines "t \<equiv> pt_chunk (Suc l) v z"
  shows "unat t = 2 ^ low_bits l" and "t = pt_size (Suc l)" and "unat (v + t) = unat v + 2 ^ low_bits l"
    and "unat (z - t) = unat z - 2 ^ low_bits l"
proof -
  have z0: "0 < unat z" using z by (rule less_le_trans [rotated]) simp
  have "entry_end l (unat v) = unat v + 2 ^ low_bits l"
    using al unfolding entry_end_def by (metis Suc_eq_plus1 add.commute dvd_div_mult_self mult_Suc)
  then have p: "piece l (unat v) (unat z) = 2 ^ low_bits l" using z by (simp add: piece_def)
  note ca = chunk_arith [OF l z0 small, folded t_def, unfolded p]
  show "unat t = 2 ^ low_bits l" "unat (v + t) = unat v + 2 ^ low_bits l" "unat (z - t) = unat z - 2 ^ low_bits l"
    by (rule ca)+
  then show "t = pt_size (Suc l)" using unat_pt_size [OF l] by (intro word_unat_eq_iff [THEN iffD2]) simp
qed

lemma pt_unmap_loop_frees:
  assumes l: "l \<le> 3" and f: "f < 2 ^ 52" and inner: "l \<noteq> 0 \<Longrightarrow> unmap_inner l inner"
  shows "buddy_ok s U \<Longrightarrow> separate (memory s) (Suc l) f \<Longrightarrow>
    owns U (\<Sum>j\<in>{i..<i + n}. slot (memory s) l f j) \<Longrightarrow> i + n \<le> 512 \<Longrightarrow>
    2 ^ low_bits l dvd unat v \<Longrightarrow> n * 2 ^ low_bits l \<le> unat z \<Longrightarrow> unat v + unat z \<le> 2 ^ 48 \<Longrightarrow>
    \<exists>s'. pt_unmap_loop inner (Suc l) (table_addr f) n i v z s = Inr s' \<and> taken_apart l f i n s U s'"
proof (induction n arbitrary: i v z s U)
  case 0
  then show ?case using taken_apart_refl by simp
next
  case (Suc n)
  note ok = Suc.prems(1) and sep = Suc.prems(2) and own = Suc.prems(3) and small = Suc.prems(7)
  let ?m = "memory s" and ?e = "entry (memory s) f i" and ?go = "pt_unmap_loop inner (Suc l) (table_addr f) n (i + 1)"
  have i: "i < 512" using Suc.prems(4) by simp
  have all: "(\<Sum>j\<in>{i..<i + Suc n}. slot ?m l f j) = slot ?m l f i + (\<Sum>j\<in>{Suc i..<Suc i + n}. slot ?m l f j)"
    by (subst sum.atLeast_Suc_lessThan) simp_all
  note ow = owns_split [OF own [unfolded all]]
  have z: "2 ^ low_bits l \<le> unat z" "n * 2 ^ low_bits l \<le> unat z - 2 ^ low_bits l" using Suc.prems(6) by simp_all
  note wc = whole_chunk [OF l Suc.prems(5) z(1) small]
  have e: "pt_get (memory s) (table_addr f) i = ?e" by (simp add: entry_def)
  have rest: "\<exists>s2. ?go v' z' s1 = Inr s2 \<and> taken_apart l f i (Suc n) s U s2"
    if t1: "taken_apart l f i 1 s U s1" and v': "2 ^ low_bits l dvd unat v'" "n * 2 ^ low_bits l \<le> unat z'"
      "unat v' + unat z' \<le> 2 ^ 48" for s1 v' z'
  proof -
    note d1 = taken_apartD [OF t1]
    have same: "(\<Sum>j\<in>{Suc i..<Suc i + n}. slot (memory s1) l f j) = (\<Sum>j\<in>{Suc i..<Suc i + n}. slot ?m l f j)"
      using Suc.prems(4) by (intro sum.cong branch_keptD(1) [OF d1(5)]) auto
    have "buddy_ok s1 (U - set_mset (slot ?m l f i))" using d1(1) by simp
    from Suc.IH [OF this d1(2), of "Suc i" v' z'] ow(2) v' Suc.prems(4) obtain s2
      where s2: "?go v' z' s1 = Inr s2" "taken_apart l f (Suc i) n s1 (U - set_mset (slot ?m l f i)) s2"
      unfolding same by auto
    show ?thesis using s2(1) taken_apart_Suc [OF i t1 s2(2) Suc.prems(4)] by blast
  qed
  consider "\<not> present ?e" | "present ?e" "final l ?e" | "points ?m l f i" using i by (auto simp: points_def)
  then show ?case
  proof cases
    case 1
    then have "pt_unmap_loop inner (Suc l) (table_addr f) (Suc n) i v z s = ?go v z s"
      by (simp add: Let_def e present_def)
    moreover have "n * 2 ^ low_bits l \<le> unat z" using Suc.prems(6) by simp
    ultimately show ?thesis using rest [OF taken_apart_skip [OF ok sep 1] Suc.prems(5) _ small] by simp
  next
    case 2
    let ?x = "(target ?e, 9 * l)"
    have sl: "slot ?m l f i = {#?x#}" using 2 by (simp add: slot_def Let_def)
    then have mem: "?x \<in># slot ?m l f i" by simp
    have x: "?x \<in> U" "target ?e \<noteq> 0" using owns_in [OF ow(1) mem] owns_fst [OF ow(1) mem] by simp_all
    obtain s1 where s1: "buddy_free (of_nat (target ?e) * PAGE_SIZE) (9 * l) s = Inr s1" "buddy_ok s1 (U - {?x})"
      "s1 = s\<lparr>buddy_zones := buddy_zones s1\<rparr>" "low_zones s1 = low_zones s"
      using buddy_free_page [OF ok x] .
    have m1: "memory s1 = ?m" using s1(3) by (metis buddy.update_convs(1) machine.select_convs(1) buddy.surjective)
    let ?s2 = "pt_set (table_addr f) i 0 s1"
    have "pt_frame s s1" unfolding pt_frame_def by (subst s1(3)) (simp add: m1)
    then have "taken_apart l f i 1 s U ?s2"
      by (intro taken_apart_one [OF l i f sep]) (use s1(2,4) sl m1 in simp_all)
    moreover have "pt_unmap_loop inner (Suc l) (table_addr f) (Suc n) i v z s = ?go v z ?s2"
      using 2 s1(1) by (simp add: Let_def e present_def final_def pt_order_eq [OF l] phys_target)
    moreover have "n * 2 ^ low_bits l \<le> unat z" using Suc.prems(6) by simp
    ultimately show ?thesis using rest [OF _ Suc.prems(5) _ small] by simp
  next
    case 3
    let ?c = "child ?m f i" and ?t = "pt_chunk (Suc l) v z"
    have l0: "l \<noteq> 0" using 3 by (auto simp: points_def final_def)
    have sl: "slot ?m l f i = held ?m l ?c + {#(?c, 0)#}" using slot_points [OF 3] by simp
    note oc = owns_split [OF ow(1) [unfolded sl]]
    have b: "below ?m l f i = tables ?m l ?c" using 3 by (simp add: below_def)
    have c52: "?c < 2 ^ 52" using target_less unfolding child_def by (rule less_trans) simp
    have sepc: "separate ?m l ?c" using sep 3 by simp
    have "unat v + unat ?t \<le> 2 ^ 48" using wc(1) z(1) small by simp
    then obtain s1 where s1: "inner (table_addr ?c) v ?t s = Inr s1" "buddy_ok s1 (U - set_mset (held ?m l ?c))"
      "\<forall>a. a \<notin> \<Union> (page_at ` tables ?m l ?c) \<longrightarrow> memory s1 a = ?m a" "low_zones s1 = low_zones s" "pt_frame s s1"
      using inner [OF l0] ok c52 sepc oc(1) Suc.prems(5) wc(1) unfolding unmap_inner_def by blast
    have mem: "(?c, 0) \<in># {#(?c, 0)#}" by simp
    have c: "(?c, 0) \<in> U - set_mset (held ?m l ?c)" "?c \<noteq> 0"
      using owns_in [OF oc(2) mem] owns_fst [OF oc(2) mem] by simp_all
    obtain s2 where s2: "buddy_free (of_nat ?c * PAGE_SIZE) 0 s1 = Inr s2"
      "buddy_ok s2 (U - set_mset (held ?m l ?c) - {(?c, 0)})"
      "s2 = s1\<lparr>buddy_zones := buddy_zones s2\<rparr>" "low_zones s2 = low_zones s1"
      using buddy_free_page [OF s1(2) c] .
    have m2: "memory s2 = memory s1" using s2(3) by (metis buddy.update_convs(1) machine.select_convs(1) buddy.surjective)
    let ?s3 = "pt_set (table_addr f) i 0 s2"
    have out: "\<forall>a. a \<notin> \<Union> (page_at ` below ?m l f i) \<longrightarrow> memory s2 a = ?m a"
      using s1(3) unfolding b m2 .
    have pf: "pt_frame s s2"
    proof (rule pt_frame_trans [OF s1(5)])
      show "pt_frame s1 s2" unfolding pt_frame_def by (subst s2(3)) (simp add: m2)
    qed
    have U: "U - set_mset (held ?m l ?c) - {(?c, 0)} = U - set_mset (slot ?m l f i)" unfolding sl by auto
    have t1: "taken_apart l f i 1 s U ?s3"
      by (rule taken_apart_one [OF l i f sep out _ _ pf]) (use s2(2,4) s1(4) U in simp_all)
    have phys: "?e AND PTE_PHYS_MASK = of_nat ?c * PAGE_SIZE" by (simp add: phys_target child_def)
    have "pt_unmap_loop inner (Suc l) (table_addr f) (Suc n) i v z s = ?go (v + ?t) (z - ?t) ?s3"
      using 3 s1(1) s2(1) wc(2) l0
      by (simp add: Let_def e points_def present_def final_def phys pt_free_def flip: table_addr_def)
    moreover have "2 ^ low_bits l dvd unat (v + ?t)" unfolding wc(3) using Suc.prems(5) by simp
    moreover have "unat (v + ?t) + unat (z - ?t) \<le> 2 ^ 48" unfolding wc(3,4) using small z(1) by simp
    ultimately show ?thesis using rest [OF t1, of "v + ?t" "z - ?t"] z(2) unfolding wc(4) by simp
  qed
qed

subsection \<open>Whole tables\<close>

lemma do_pt_unmap_frees:
  assumes "l \<le> 4" and "l \<noteq> 0"
  shows "unmap_inner l (do_pt_unmap l :: u64 \<Rightarrow> u64 \<Rightarrow> u64 \<Rightarrow> 'a paging_scheme \<Rightarrow> _)"
  using assms
proof (induction l)
  case (Suc l)
  then have l: "l \<le> 3" by simp
  have inner: "unmap_inner l (do_pt_unmap l :: u64 \<Rightarrow> u64 \<Rightarrow> u64 \<Rightarrow> 'a paging_scheme \<Rightarrow> _)" if "l \<noteq> 0"
    using Suc.IH Suc.prems that by simp
  show ?case
    unfolding unmap_inner_def
  proof (intro allI impI)
    fix c :: nat and v z :: u64 and s :: "'a paging_scheme" and U
    assume a: "buddy_ok s U" "c < 2 ^ 52" "separate (memory s) (Suc l) c" "owns U (held (memory s) (Suc l) c)"
      and v: "2 ^ low_bits (Suc l) dvd unat v" and z: "unat z = 2 ^ low_bits (Suc l)" and small: "unat v + unat z \<le> 2 ^ 48"
    let ?k = "low_bits l"
    have zk: "unat z = 512 * 2 ^ ?k" using z by (simp add: low_bits_Suc power_add)
    then have z0: "0 < unat z" by simp
    obtain q where q: "unat v = q * 512 * 2 ^ ?k"
    proof -
      obtain q where "unat v = 2 ^ low_bits (Suc l) * q" using v by (elim dvdE)
      then have "unat v = q * 512 * 2 ^ ?k" by (simp add: low_bits_Suc power_add)
      then show thesis by (rule that)
    qed
    have "unat v + unat z - 1 = (q * 512 + 511) * 2 ^ ?k + (2 ^ ?k - 1)"
      unfolding q zk by (simp add: distrib_right)
    moreover have "((q * 512 + 511) * 2 ^ ?k + (2 ^ ?k - 1)) div 2 ^ ?k = q * 512 + 511 + (2 ^ ?k - 1) div 2 ^ ?k"
      by (rule div_mult_self3) simp
    moreover have "(2 ^ ?k - 1) div 2 ^ ?k = (0 :: nat)" by (rule div_less) simp
    ultimately have "(unat v + unat z - 1) div 2 ^ ?k = q * 512 + 511" by simp
    then have t: "pt_to (Suc l) v z = 512"
      by (simp add: pt_to_def pt_index_eq [OF l] range_end [OF z0 small] mod_mult_self3)
    have fr: "pt_from (Suc l) v = 0" by (simp add: pt_from_def pt_index_eq [OF l] q)
    have run: "do_pt_unmap (Suc l) (table_addr c) v z s =
        pt_unmap_loop (do_pt_unmap l) (Suc l) (table_addr c) 512 0 v z s"
      by (simp add: t fr Let_def)
    have all: "(\<Sum>j\<in>{0..<0 + 512}. slot (memory s) l c j) = held (memory s) (Suc l) c"
      unfolding held_Suc by (simp add: atLeast0LessThan)
    have vk: "2 ^ ?k dvd unat v" unfolding q by simp
    obtain s' where s': "pt_unmap_loop (do_pt_unmap l) (Suc l) (table_addr c) 512 0 v z s = Inr s'"
      and ta: "taken_apart l c 0 512 s U s'"
      using pt_unmap_loop_frees [OF l a(2) inner a(1,3), of 0 512 v z] a(4) vk zk small unfolding all by auto
    note d = taken_apartD [OF ta]
    show "\<exists>s'. do_pt_unmap (Suc l) (table_addr c) v z s = Inr s' \<and>
        buddy_ok s' (U - set_mset (held (memory s) (Suc l) c)) \<and>
        (\<forall>a. a \<notin> \<Union> (page_at ` tables (memory s) (Suc l) c) \<longrightarrow> memory s' a = memory s a) \<and>
        low_zones s' = low_zones s \<and> pt_frame s s'"
      unfolding run s' using d(1,7-9) unfolding all by blast
  qed
qed simp

end
