(* ===== verification/Pt_Properties.thy ===== *)
theory Pt_Properties
  imports Pt_Unmap Mm Buddy_Properties
begin

text \<open>
  What the kernel may rely on when it calls \<open>pt_map\<close>, stated with the translation \<open>pt_addr\<close> that the
  kernel itself uses. The sample is a machine with the frames 8 to 15, of which 8 holds an empty
  page table and 12 to 15 are free.
\<close>

lemma pt_map_post:
  assumes "tree_ok s U 4 f" and "0 < unat sz" and "unat v + unat sz \<le> 2 ^ 48"
    and "unmapped (memory s) 4 f (touched (unat v) (unat sz))"
    and "flags AND PTE_PHYS_MASK = 0" and "flags AND PTE_LARGE = 0" and "present flags"
  shows "map_post 4 f 0 (touched (unat v) (unat sz)) (perms flags) (4 * n_pages (unat v) (unat sz)) s U
    (pt_map (table_addr f) v sz flags s)"
proof -
  have "unat v div 2 ^ low_bits 4 = 0" "(unat v + unat sz - 1) div 2 ^ low_bits 4 = 0"
    using assms(2,3) by (simp_all add: low_bits_def)
  then show ?thesis
    unfolding pt_map_def
    using map_innerD [OF do_pt_map_post [OF assms(5-7), of 4] assms(1-3) _ _ assms(4)] by simp
qed

text \<open>Every address of the user and kernel halves is below the one region of the root.\<close>

lemma top_region: "x \<in> region 4 0 \<longleftrightarrow> unat x < 2 ^ 48"
  by (auto simp: region_def low_bits_def div_eq_0_iff)

lemma touched_below:
  assumes "unat v + unat sz \<le> 2 ^ 48"
  shows "touched (unat v) (unat sz) \<subseteq> region 4 0"
proof
  fix x assume "x \<in> touched (unat v) (unat sz)"
  then have "unat x div 4096 \<le> (unat v + unat sz - 1) div 4096" "0 < unat sz" by (simp_all add: touched_def)
  moreover have "(unat v + unat sz - 1) div 4096 < 2 ^ 36"
    using assms \<open>0 < unat sz\<close> by (intro less_mult_imp_div_less) simp
  ultimately have "unat x div 4096 < 2 ^ 36" by simp
  then show "x \<in> region 4 0" unfolding top_region by simp
qed

subsection \<open>The table of a process\<close>

text \<open>
  The lower half of the root's entries belongs to the process, the upper half to the kernel, which
  shares its tables among all processes. The process must hold each of its blocks once, and no table
  of the kernel.
\<close>

definition user_held :: "mem \<Rightarrow> nat \<Rightarrow> block multiset" where
  "user_held m f = (\<Sum>i\<in>{0..<256}. slot m 3 f i)"

definition kernel_tables :: "mem \<Rightarrow> nat \<Rightarrow> nat set" where
  "kernel_tables m f = insert f (\<Union>i\<in>{256..<512}. below m 3 f i)"

definition user_ok :: "'a paging_scheme \<Rightarrow> block set \<Rightarrow> nat \<Rightarrow> bool" where
  "user_ok s U f \<longleftrightarrow> tree_ok s U 4 f \<and> owns U (user_held (memory s) f) \<and>
     (\<forall>t\<in>kernel_tables (memory s) f. (t, 0) \<notin># user_held (memory s) f)"

lemma user_okD:
  assumes "user_ok s U f"
  shows "tree_ok s U 4 f" and "owns U (user_held (memory s) f)"
    and "t \<in> kernel_tables (memory s) f \<Longrightarrow> (t, 0) \<notin># user_held (memory s) f"
  using assms unfolding user_ok_def by blast+

lemma four: "(4 :: nat) = Suc 3" by simp

lemma tables_4: "tables m 4 f = insert f (\<Union>i\<in>{i. points m 3 f i}. tables m 3 (child m f i))"
  by (simp only: four tables.simps)

lemma unat_user_end: "unat user_end = 2 ^ 47"
  by (simp add: user_end_def HIGHER_BASE_def USER_MASK_def)

lemma held_halves: "held m 4 f = user_held m f + (\<Sum>i\<in>{256..<512}. slot m 3 f i)"
proof -
  have "{..<512 :: nat} = {0..<256} \<union> {256..<512}" by auto
  then show ?thesis unfolding four held_Suc user_held_def by (simp add: sum.union_disjoint)
qed

lemma kernel_in_tables: "kernel_tables m f \<subseteq> tables m 4 f"
  unfolding kernel_tables_def tables_4 by (auto simp: below_def split: if_splits)

text \<open>A change of the user half keeps the process's claims in order.\<close>

lemma user_grown:
  assumes ok: "user_ok s U f" and g: "grown 4 f 0 R s U s' U'" and R: "\<And>x. x \<in> R \<Longrightarrow> unat x < 2 ^ 47"
  shows "user_ok s' U' f" and "gained U U' (user_held (memory s) f) (user_held (memory s') f)"
    and "kernel_tables (memory s') f = kernel_tables (memory s) f"
    and "agree (memory s) (memory s') (kernel_tables (memory s) f - {f})"
proof -
  note o = user_okD [OF ok] and d = grownD [OF g]
  let ?m = "memory s" and ?m' = "memory s'"
  have branch: "branch_kept 3 f ?m ?m' i" if i: "i \<in> {256..<512}" for i
  proof -
    have "region 3 i \<inter> R = {}"
    proof (rule ccontr)
      assume "region 3 i \<inter> R \<noteq> {}"
      then obtain x where "x \<in> region 3 i" and xR: "x \<in> R" by blast
      then have x: "unat x div 2 ^ 39 = i" "unat x < 2 ^ 47" using R [OF xR] by (simp_all add: region_def low_bits_def)
      then have "unat x div 2 ^ 39 < 256" by (intro less_mult_imp_div_less) simp
      then show False using x(1) i by simp
    qed
    then show ?thesis using d(8) i unfolding slots_kept_def by simp
  qed
  note kept = branch_keptD [OF branch]
  show kt: "kernel_tables ?m' f = kernel_tables ?m f" unfolding kernel_tables_def using kept(2) by simp
  show "agree ?m ?m' (kernel_tables ?m f - {f})"
    using kept(3) unfolding kernel_tables_def agree_def by blast
  let ?K = "\<Sum>i\<in>{256..<512}. slot ?m 3 f i"
  have "(\<Sum>i\<in>{256..<512}. slot ?m' 3 f i) = ?K" using kept(1) by (intro sum.cong) auto
  then have h: "held ?m 4 f = user_held ?m f + ?K" "held ?m' 4 f = user_held ?m' f + ?K"
    using held_halves by simp_all
  obtain N where n: "finite N" "U' = U \<union> N" "U \<inter> N = {}" "\<forall>k. (0, k) \<notin> N" "held ?m' 4 f = held ?m 4 f + mset_set N"
    using d(9) unfolding gained_def by blast
  have uh: "user_held ?m' f = user_held ?m f + mset_set N" using n(5) unfolding h by simp
  then show ga: "gained U U' (user_held ?m f) (user_held ?m' f)" unfolding gained_def using n(1-4) by blast
  have "(t, 0) \<notin># user_held ?m' f" if t: "t \<in> kernel_tables ?m' f" for t
  proof -
    have "(t, 0) \<in> U" using tree_okD(5) [OF o(1)] kernel_in_tables t unfolding kt by blast
    then have "(t, 0) \<notin> N" using n(3) by blast
    then show ?thesis using o(3) [of t] t n(1) unfolding uh kt by simp
  qed
  then show "user_ok s' U' f" using d(1) owns_gained [OF o(2) ga] unfolding user_ok_def by blast
qed

lemma touched_user:
  assumes "0 < unat sz" and "unat v + unat sz \<le> unat user_end" and "x \<in> touched (unat v) (unat sz)"
  shows "unat x < 2 ^ 47"
proof -
  have "unat x div 4096 \<le> (unat v + unat sz - 1) div 4096" using assms(3) by (simp add: touched_def)
  moreover have "(unat v + unat sz - 1) div 4096 < 2 ^ 35"
    using assms(1,2) unfolding unat_user_end by (intro less_mult_imp_div_less) simp
  ultimately have "unat x div 4096 < 2 ^ 35" by simp
  then show ?thesis by simp
qed

text \<open>Taking the user half apart.\<close>

lemma pt_unmap_user:
  assumes ok: "user_ok s U f"
  defines "U' \<equiv> U - set_mset (user_held (memory s) f)"
  shows "\<exists>s'. pt_unmap (table_addr f) 0 user_end s = Inr s' \<and> user_ok s' U' f \<and> user_held (memory s') f = {#} \<and>
    (\<forall>x. unat x < 2 ^ 47 \<longrightarrow> resolve (memory s') 4 f x = None) \<and>
    (\<forall>x. 2 ^ 47 \<le> unat x \<longrightarrow> unat x < 2 ^ 48 \<longrightarrow> resolve (memory s') 4 f x = resolve (memory s) 4 f x) \<and>
    (\<forall>a. a \<notin> \<Union> (page_at ` tables (memory s) 4 f) \<longrightarrow> memory s' a = memory s a) \<and>
    agree (memory s) (memory s') (kernel_tables (memory s) f - {f}) \<and> pt_frame s s'"
proof -
  note o = user_okD [OF ok]
  note t = tree_okD [OF o(1)]
  let ?m = "memory s"
  have l: "(3 :: nat) \<le> 3" by simp
  have ix: "pt_from 4 0 = 0" "pt_to 4 0 user_end = 256"
    by (simp_all add: pt_from_def pt_to_def pt_index_def pt_shift_def user_end_def HIGHER_BASE_def USER_MASK_def)
  have run: "pt_unmap (table_addr f) 0 user_end s =
      pt_unmap_loop (do_pt_unmap 3) (Suc 3) (table_addr f) 256 0 0 user_end s"
    unfolding pt_unmap_def four do_pt_unmap.simps Let_def by (simp add: ix flip: four)
  have sep: "separate ?m (Suc 3) f" using t(4) by (simp only: four)
  obtain s' where s': "pt_unmap_loop (do_pt_unmap 3) (Suc 3) (table_addr f) 256 0 0 user_end s = Inr s'"
    and ta: "taken_apart 3 f 0 256 s U s'"
    using pt_unmap_loop_frees [OF l t(3) do_pt_unmap_frees t(1) sep, of 0 256 0 user_end] o(2)
    by (auto simp: user_held_def low_bits_def unat_user_end)
  note d = taken_apartD [OF ta]
  let ?m' = "memory s'"
  have off: "slot ?m' 3 f i = {#}" "below ?m' 3 f i = {}" if "i \<in> {0..<256}" for i
    using d(4) [of i] that slot_empty_iff by (auto simp: below_def points_def)
  have uh: "user_held ?m' f = {#}" unfolding user_held_def using off(1) by simp
  have branch: "branch_kept 3 f ?m ?m' i" if "i \<in> {256..<512}" for i by (rule d(5)) (use that in auto)
  note bk = branch_keptD(2) [OF branch]
  have kt: "kernel_tables ?m' f = kernel_tables ?m f" unfolding kernel_tables_def using bk by simp
  have tb: "tables ?m' 4 f \<subseteq> kernel_tables ?m f"
  proof
    fix u assume "u \<in> tables ?m' 4 f"
    then consider "u = f" | i where "points ?m' 3 f i" "u \<in> tables ?m' 3 (child ?m' f i)"
      unfolding tables_4 by auto
    then show "u \<in> kernel_tables ?m f"
    proof cases
      case (2 i)
      then have i: "i < 512" "u \<in> below ?m' 3 f i" by (auto simp: points_def below_def)
      then have "i \<in> {256..<512}" using off(2) [of i] by (cases "i < 256") auto
      then show ?thesis using i(2) bk unfolding kernel_tables_def by blast
    qed (simp add: kernel_tables_def)
  qed
  have "(u, 0) \<in> U'" if u: "u \<in> tables ?m' 4 f" for u
  proof -
    have k: "u \<in> kernel_tables ?m f" using tb u by blast
    then have "(u, 0) \<in> U" using kernel_in_tables t(5) by blast
    then show ?thesis using o(3) [OF k] unfolding U'_def by blast
  qed
  moreover have "buddy_ok s' U'" using d(1) by (simp add: U'_def user_held_def)
  moreover have "separate ?m' 4 f" using d(2) by (simp only: four)
  ultimately have "tree_ok s' U' 4 f" using t(2,3) d(8) unfolding tree_ok_def by blast
  then have "user_ok s' U' f" unfolding user_ok_def uh by (simp add: owns_def)
  moreover have "resolve ?m' 4 f x = None" if x: "unat x < 2 ^ 47" for x
  proof -
    have "unat x div 2 ^ 39 < 256" using x by (intro less_mult_imp_div_less) simp
    then have "pt_index x (Suc 3) < 256" unfolding pt_index_eq [OF l] by (simp add: low_bits_def)
    then have "\<not> present (entry ?m' f (pt_index x (Suc 3)))" by (intro d(4)) simp
    then show ?thesis unfolding four resolve.simps Let_def by simp
  qed
  moreover have "resolve ?m' 4 f x = resolve ?m 4 f x" if x: "2 ^ 47 \<le> unat x" "unat x < 2 ^ 48" for x
  proof -
    have "256 \<le> unat x div 2 ^ 39" using div_le_mono [OF x(1), of "2 ^ 39"] by simp
    moreover have "unat x div 2 ^ 39 < 512" using x(2) by (intro less_mult_imp_div_less) simp
    ultimately have "pt_index x (Suc 3) \<notin> {0..<0 + 256}" unfolding pt_index_eq [OF l] by (simp add: low_bits_def)
    then show ?thesis unfolding four by (rule d(6))
  qed
  moreover have "\<forall>a. a \<notin> \<Union> (page_at ` tables ?m 4 f) \<longrightarrow> ?m' a = ?m a" using d(7) unfolding four by blast
  moreover have "agree ?m ?m' (kernel_tables ?m f - {f})"
    using branch_keptD(3) [OF branch] unfolding kernel_tables_def agree_def by blast
  ultimately show ?thesis unfolding run s' using uh d(9) by blast
qed

subsection \<open>A sample\<close>

definition table_raw :: zone where
  "table_raw = \<lparr>zlinks = init_orders 0 (MAX_ORDER + 1) \<lparr>nxt = id, prv = id\<rparr>, zbegin = 8, zend = 16,
                zpages = (\<lambda>p. \<lparr>pg_flags = 0, pg_order = 0\<rparr>)\<rparr>"

definition table_zone :: zone where
  "table_zone = upd_links (list_add (Pg 4) (Head 2))
     (upd_page 4 page_set_free (upd_page 4 (\<lambda>pg. page_set_order pg 2) table_raw))"

definition table_sample :: paging where
  "table_sample = \<lparr>rflags = 0, preempt_count = 0, memory = (\<lambda>a. 0), mmap_begin = 0, mmap_end = 0,
             initrd_begin = 0, initrd_end = 0, free_ranges = [], all_ranges = [],
             buddy_zones = [table_zone], slab_links = \<lparr>nxt = id, prv = id\<rparr>,
             slab_meta = (\<lambda>a. \<lparr>slab_page = (0, 0), slab_first = 0, slab_count = 0\<rparr>),
             caches = (\<lambda>c. \<lparr>slab_order = 0, slab_size = 0, obj_size = 0\<rparr>), initial_cr3 = 0, cr3 = 0\<rparr>"

definition table_used :: "block set" where
  "table_used = {(8, 0), (9, 0), (10, 0), (11, 0)}"

lemma table_zone_inv:
  "\<exists>L. zone_inv table_zone L {(0, 0), (1, 0), (2, 0), (3, 0)} {} \<and> coalesced table_zone L"
proof -
  have clear: "\<not> page_free \<lparr>pg_flags = 0, pg_order = 0\<rparr>" by (simp add: page_free_def)
  have z0: "zone_inv table_raw (\<lambda>k. []) (singles {..<8}) {}"
    using fresh_zone_inv(1) [of 8 16 "\<lambda>p. \<lparr>pg_flags = 0, pg_order = 0\<rparr>"] clear
    by (simp add: table_raw_def zsize_def)
  have pg: "pages_of (4, 2) = {4, 5, 6, 7}" by (auto simp: pages_of_def)
  have low: "{..<8} = {0, 1, 2, 3, 4, 5, 6, 7 :: nat}" by auto
  have img: "(\<lambda>i. (i, 0 :: nat)) ` pages_of (4, 2) = {(4, 0), (5, 0), (6, 0), (7, 0)}" unfolding pg by auto
  have rest: "singles {..<8} - {(4, 0), (5, 0), (6, 0), (7, 0)} = {(0, 0), (1, 0), (2, 0), (3, 0)}"
    unfolding low by (auto simp: singles_def)
  have "zone_inv table_raw (\<lambda>k. []) (singles {..<8} - (\<lambda>i. (i, 0)) ` pages_of (4, 2)) {(4, 2)}"
    by (rule zone_fuse [OF z0])
      (auto simp: img low singles_def MAX_ORDER_def table_raw_def)
  then have z1: "zone_inv table_raw (\<lambda>k. []) {(0, 0), (1, 0), (2, 0), (3, 0)} {(4, 2)}"
    unfolding img rest .
  have "zone_inv (upd_page 4 page_set_free (upd_page 4 (\<lambda>pg. page_set_order pg 2) table_raw))
      (\<lambda>k. []) {(0, 0), (1, 0), (2, 0), (3, 0)} {(4, 2)}"
    using zone_inv_upd_page zone_hole_head [OF z1] z1 by metis
  from zone_put(1) [OF this]
  have "zone_inv table_zone ((\<lambda>k. [])(2 := [4])) {(0, 0), (1, 0), (2, 0), (3, 0)} {}"
    by (simp add: table_zone_def)
  moreover have "coalesced table_zone ((\<lambda>k. [])(2 := [4]))"
    by (auto simp: coalesced_def free_blocks_def table_zone_def table_raw_def split: if_splits)
  ultimately show ?thesis by blast
qed

lemma table_bounds [simp]: "zbegin table_zone = 8" "zend table_zone = 16" "zsize table_zone = 8"
  by (simp_all add: table_zone_def table_raw_def zsize_def)

lemma table_zones [simp]: "buddy_zones table_sample = [table_zone]" "memory table_sample = (\<lambda>a. 0)"
  by (simp_all add: table_sample_def)

lemma table_ok: "buddy_ok table_sample table_used" "low_zones table_sample"
proof -
  have "zone_used table_zone table_used = {(0, 0), (1, 0), (2, 0), (3, 0)}"
    by (auto simp: zone_used_def table_used_def)
  then show "buddy_ok table_sample table_used"
    using table_zone_inv
    by (auto simp: buddy_ok_def buddy_inv_def zones_inv_def zero_reserved_def table_used_def)
  show "low_zones table_sample" by (simp add: low_zones_def)
qed

lemma table_avail: "avail table_sample table_used = 4"
proof -
  have f: "{8..<16} = {8, 9, 10, 11, 12, 13, 14, 15 :: nat}" by auto
  have "\<Union> (pages_of ` table_used) = {8, 9, 10, 11}" by (auto simp: table_used_def pages_of_def)
  then have "frames (buddy_zones table_sample) - \<Union> (pages_of ` table_used) = {12, 13, 14, 15}"
    unfolding frames_def by (auto simp: f)
  then show ?thesis by (simp add: avail_def)
qed

lemma table_empty: "entry (\<lambda>a. 0) f i = 0"
proof -
  have "load_le (\<lambda>a. 0) a n = 0" for a n by (induction n arbitrary: a) simp_all
  then show ?thesis by (simp add: entry_def pt_get_def load_u64_def)
qed

lemma table_unmapped: "resolve (\<lambda>a. 0) l f x = None"
  by (cases l) (simp_all add: Let_def table_empty present_def)

lemma table_user_ok: "user_ok table_sample table_used 8"
  and table_none: "user_held (\<lambda>a. 0) 8 = {#}"
  and table_tables: "tables (\<lambda>a. 0) 4 8 = {8}"
proof -
  have p: "\<not> points (\<lambda>a. 0) l f i" for l f i by (simp add: points_def table_empty present_def)
  have s: "slot (\<lambda>a. 0) l f i = {#}" for l f i using slot_empty_iff table_empty by (simp add: present_def)
  show none: "user_held (\<lambda>a. 0) 8 = {#}" by (simp add: user_held_def s)
  show t: "tables (\<lambda>a. 0) 4 8 = {8}" unfolding tables_4 by (auto simp: p)
  have "separate (\<lambda>a. 0) 4 8" unfolding four separate.simps using p by blast
  then have "tree_ok table_sample table_used 4 8"
    using table_ok t by (simp add: tree_ok_def table_used_def)
  then show "user_ok table_sample table_used 8" by (simp add: user_ok_def none owns_def)
qed

subsection \<open>Properties\<close>

definition leaf_flags :: "u64 \<Rightarrow> bool" where
  "leaf_flags flags \<longleftrightarrow> flags AND PTE_PHYS_MASK = 0 \<and> flags AND PTE_LARGE = 0 \<and> present flags"

lemma pt_map_user_post:
  assumes "user_ok s U f" and "0 < unat sz" and "unat v + unat sz \<le> unat user_end"
    and "unmapped (memory s) 4 f (touched (unat v) (unat sz))" and "leaf_flags flags"
  shows "map_post 4 f 0 (touched (unat v) (unat sz)) (perms flags) (4 * n_pages (unat v) (unat sz)) s U
    (pt_map (table_addr f) v sz flags s)"
proof -
  have "unat v + unat sz \<le> 2 ^ 48" using assms(3) by (simp add: unat_user_end)
  then show ?thesis
    using pt_map_post [OF user_okD(1) [OF assms(1)] assms(2) _ assms(4)] assms(5) by (simp add: leaf_flags_def)
qed

text \<open>
  C17. Mapping. Let \<open>f\<close> be the frame of a process's table, none of the pages that the range touches
  be mapped, and \<open>pt_map\<close> return 0. Then every address of these pages is translated, with the
  permissions asked for, to a byte of memory allocated by the call, at the same place in its page
  and in no table; no two addresses share a byte; all other translations are as before; no memory
  outside the tables has been written and the invariant of the table holds again.
\<close>

theorem pt_map_maps:
  assumes "user_ok s U f" and "0 < unat sz" and "unat v + unat sz \<le> unat user_end"
    and "unmapped (memory s) 4 f (touched (unat v) (unat sz))" and "leaf_flags flags"
    and "pt_map (table_addr f) v sz flags s = Inr (True, s')"
  defines "R \<equiv> touched (unat v) (unat sz)" and "m' \<equiv> memory s'"
  shows "\<exists>U'. user_ok s' U' f \<and> U \<subseteq> U' \<and>
    (\<forall>x\<in>R. resolve m' 4 f x = Some (pt_addr m' (table_addr f) x, perms flags) \<and>
       fresh_byte x (pt_addr m' (table_addr f) x) U U' (tables m' 4 f)) \<and>
    inj_on (pt_addr m' (table_addr f)) R \<and>
    (\<forall>x. unat x < 2 ^ 48 \<and> x \<notin> R \<longrightarrow> resolve m' 4 f x = resolve (memory s) 4 f x) \<and>
    (\<forall>a. a \<notin> \<Union> (page_at ` tables m' 4 f) \<longrightarrow> m' a = memory s a) \<and> pt_frame s s'"
proof -
  obtain U' where g: "grown 4 f 0 R s U s' U'" and b: "backed 4 f R (perms flags) U s' U'"
    using pt_map_user_post [OF assms(1-5)] unfolding assms(6) map_post_def R_def by auto
  have low: "unat x < 2 ^ 47" if "x \<in> R" for x using touched_user [OF assms(2,3)] that unfolding R_def by blast
  have at: "resolve m' 4 f x = Some (pt_addr m' (table_addr f) x, perms flags) \<and>
      fresh_byte x (pt_addr m' (table_addr f) x) U U' (tables m' 4 f)" if x: "x \<in> R" for x
  proof -
    obtain p where "resolve m' 4 f x = Some (p, perms flags)" "fresh_byte x p U U' (tables m' 4 f)"
      using backedD(1) [OF b x] unfolding m'_def by blast
    then show ?thesis by (simp add: pt_addr_resolve)
  qed
  have "inj_on (pt_addr m' (table_addr f)) R"
  proof (rule inj_onI)
    fix x y assume "x \<in> R" "y \<in> R" "pt_addr m' (table_addr f) x = pt_addr m' (table_addr f) y"
    then show "x = y" using at backedD(2) [OF b] unfolding inj_on_def m'_def by metis
  qed
  then show ?thesis
    using user_grown(1) [OF assms(1) g low] grownD(2,5,6,7) [OF g] at top_region unfolding m'_def by blast
qed

theorem pt_map_maps_witness:
  "\<exists>s' U'. pt_map (table_addr 8) 0x400000 0x1000 (PTE_PRESENT OR PTE_USER) table_sample = Inr (True, s') \<and>
     user_ok s' U' 8 \<and> fresh_byte 0x400123 (pt_addr (memory s') (table_addr 8) 0x400123) table_used U' (tables (memory s') 4 8)"
proof -
  let ?R = "touched (unat (0x400000 :: u64)) (unat (0x1000 :: u64))"
  have fl: "leaf_flags (PTE_PRESENT OR PTE_USER)"
    by (simp add: leaf_flags_def present_def PTE_PHYS_MASK_def PTE_LARGE_def PTE_PRESENT_def PTE_USER_def)
  have un: "unmapped (memory table_sample) 4 8 ?R" by (simp add: unmapped_def table_unmapped)
  have end': "unat (0x400000 :: u64) + unat (0x1000 :: u64) \<le> unat user_end" by (simp add: unat_user_end)
  have pos: "0 < unat (0x1000 :: u64)" by simp
  have four: "4 * n_pages (unat (0x400000 :: u64)) (unat (0x1000 :: u64)) = 4" by (simp add: n_pages_def)
  obtain s' where s': "pt_map (table_addr 8) 0x400000 0x1000 (PTE_PRESENT OR PTE_USER) table_sample = Inr (True, s')"
    using pt_map_user_post [OF table_user_ok pos end' un fl] unfolding four
    by (elim map_post_cases) (simp_all add: table_avail)
  have "(0x400123 :: u64) \<in> ?R" by (simp add: touched_def)
  then show ?thesis using pt_map_maps [OF table_user_ok pos end' un fl s'] s' by blast
qed

text \<open>
  C18. Mapping succeeds whenever the allocator has four free pages for each page that the range
  touches; large entries are used only where the allocator has a block of that size.
\<close>

theorem pt_map_succeeds:
  assumes "user_ok s U f" and "0 < unat sz" and "unat v + unat sz \<le> unat user_end"
    and "unmapped (memory s) 4 f (touched (unat v) (unat sz))" and "leaf_flags flags"
    and "4 * n_pages (unat v) (unat sz) \<le> avail s U"
  shows "\<exists>s'. pt_map (table_addr f) v sz flags s = Inr (True, s')"
  using pt_map_user_post [OF assms(1-5)] by (rule map_post_cases) (use assms(6) in simp_all)

theorem pt_map_succeeds_witness:
  "\<exists>s'. pt_map (table_addr 8) 0x7000 1 (PTE_PRESENT OR PTE_USER OR PTE_WRITE) table_sample = Inr (True, s')"
proof (rule pt_map_succeeds [OF table_user_ok])
  show "leaf_flags (PTE_PRESENT OR PTE_USER OR PTE_WRITE)"
    by (simp add: leaf_flags_def present_def PTE_PHYS_MASK_def PTE_LARGE_def PTE_PRESENT_def PTE_USER_def PTE_WRITE_def)
  show "4 * n_pages (unat (0x7000 :: u64)) (unat (1 :: u64)) \<le> avail table_sample table_used"
    by (simp add: table_avail n_pages_def)
qed (simp_all add: unmapped_def table_unmapped unat_user_end)

text \<open>
  C19. Failure. Whatever the memory left, \<open>pt_map\<close> ends without a wild access: it hangs for lack of
  a page for a table, or returns; it reports failure only if fewer than four pages were free for
  each page of the range, and then it has left the invariant, all other translations and all memory
  outside the tables as they were.
\<close>

theorem pt_map_fails_cleanly:
  assumes "user_ok s U f" and "0 < unat sz" and "unat v + unat sz \<le> unat user_end"
    and "unmapped (memory s) 4 f (touched (unat v) (unat sz))" and "leaf_flags flags"
    and "pt_map (table_addr f) v sz flags s = r" and "\<forall>s'. r \<noteq> Inr (True, s')"
  shows "avail s U < 4 * n_pages (unat v) (unat sz) \<and>
    (r = Inl Hang \<or> (\<exists>s' U'. r = Inr (False, s') \<and> user_ok s' U' f \<and> U \<subseteq> U' \<and>
       (\<forall>x. unat x < 2 ^ 48 \<and> x \<notin> touched (unat v) (unat sz) \<longrightarrow>
          resolve (memory s') 4 f x = resolve (memory s) 4 f x) \<and>
       (\<forall>a. a \<notin> \<Union> (page_at ` tables (memory s') 4 f) \<longrightarrow> memory s' a = memory s a) \<and> pt_frame s s'))"
  using pt_map_user_post [OF assms(1-5)]
proof (cases rule: map_post_cases)
  case hang
  then show ?thesis using assms(6) by simp
next
  case (full s' U')
  have "user_ok s' U' f" by (rule user_grown(1) [OF assms(1) full(2)]) (rule touched_user [OF assms(2,3)])
  then show ?thesis using full grownD(2,5,6,7) [OF full(2)] top_region assms(6) by blast
next
  case (ok s' U')
  then show ?thesis using assms(6,7) by blast
qed

definition full_sample :: paging where
  "full_sample = table_sample\<lparr>buddy_zones := [table_raw]\<rparr>"

definition full_used :: "block set" where
  "full_used = (\<lambda>f. (f, 0)) ` {8..<16}"

lemma full_user_ok: "user_ok full_sample full_used 8" and full_avail: "avail full_sample full_used = 0"
proof -
  have clear: "\<not> page_free \<lparr>pg_flags = 0, pg_order = 0\<rparr>" by (simp add: page_free_def)
  have z0: "zone_inv table_raw (\<lambda>k. []) (singles {..<8}) {}" and co: "coalesced table_raw (\<lambda>k. [])"
    using fresh_zone_inv [of 8 16 "\<lambda>p. \<lparr>pg_flags = 0, pg_order = 0\<rparr>"] clear
    by (simp_all add: table_raw_def zsize_def)
  have b [simp]: "zbegin table_raw = 8" "zend table_raw = 16" "zsize table_raw = 8"
    by (simp_all add: table_raw_def zsize_def)
  have "zone_used table_raw full_used = singles {..<8}"
    by (auto simp: zone_used_def full_used_def singles_def image_iff)
  then have "buddy_ok full_sample full_used"
    using z0 co by (auto simp: buddy_ok_def buddy_inv_def zones_inv_def zero_reserved_def full_sample_def full_used_def)
  moreover have "low_zones full_sample" by (simp add: low_zones_def full_sample_def)
  moreover have m: "memory full_sample = (\<lambda>a. 0)" by (simp add: full_sample_def)
  ultimately show "user_ok full_sample full_used 8"
    using table_user_ok unfolding user_ok_def tree_ok_def m
    by (simp add: full_used_def table_none table_tables owns_def image_iff)
  have "frames (buddy_zones full_sample) - \<Union> (pages_of ` full_used) = {}"
    by (auto simp: frames_def full_sample_def full_used_def pages_of_def)
  then show "avail full_sample full_used = 0" by (simp only: avail_def card.empty)
qed

theorem pt_map_fails_cleanly_witness:
  "pt_map (table_addr 8) 0x7000 1 (PTE_PRESENT OR PTE_USER) full_sample = Inl Hang \<or>
   (\<exists>s'. pt_map (table_addr 8) 0x7000 1 (PTE_PRESENT OR PTE_USER) full_sample = Inr (False, s'))"
proof -
  have fl: "leaf_flags (PTE_PRESENT OR PTE_USER)"
    by (simp add: leaf_flags_def present_def PTE_PHYS_MASK_def PTE_LARGE_def PTE_PRESENT_def PTE_USER_def)
  have m: "memory full_sample = (\<lambda>a. 0)" by (simp add: full_sample_def)
  have un: "unmapped (memory full_sample) 4 8 (touched (unat (0x7000 :: u64)) (unat (1 :: u64)))"
    unfolding m by (simp add: unmapped_def table_unmapped)
  obtain p s1 where run: "buddy_alloc 0 full_sample = (p, s1)" by (cases "buddy_alloc 0 full_sample")
  note o = tree_okD [OF user_okD(1) [OF full_user_ok]]
  have "p = 0" using buddy_alloc_page(9) [OF o(1,2) run] full_avail by (rule_tac ccontr) simp
  then have pa: "pt_alloc full_sample = Inl Hang" using run by (simp add: pt_alloc_def)
  have ix: "pt_from 4 0x7000 = 0" "pt_to 4 0x7000 1 = 1"
    by (simp_all add: pt_from_def pt_to_def pt_index_def pt_shift_def)
  have "pt_map_loop (do_pt_map 3 (PTE_PRESENT OR PTE_USER)) (Suc 3) (table_addr 8) (PTE_PRESENT OR PTE_USER) (Suc 0) 0
      0x7000 1 full_sample = Inl Hang"
    by (subst pt_map_loop_steps(2))
      (simp_all add: pa m present_def pte_large_def table_empty flip: entry_def)
  then have run: "pt_map (table_addr 8) 0x7000 1 (PTE_PRESENT OR PTE_USER) full_sample = Inl Hang"
    unfolding pt_map_def four do_pt_map.simps Let_def by (simp add: ix flip: four)
  show ?thesis
    using pt_map_fails_cleanly [OF full_user_ok _ _ un fl run] run by (simp add: unat_user_end)
qed

text \<open>
  C20. Unmapping the whole user space, as \<open>mm_release\<close> does, succeeds and gives back every block that
  the user half of the table holds, memory and tables, each exactly once; then no user address is
  translated, and the kernel's translations are as before.
\<close>

theorem pt_unmap_releases:
  assumes "user_ok s U f"
  defines "U' \<equiv> U - set_mset (user_held (memory s) f)"
  shows "\<exists>s'. pt_unmap (table_addr f) 0 user_end s = Inr s' \<and> user_ok s' U' f \<and> user_held (memory s') f = {#} \<and>
    (\<forall>x. unat x < 2 ^ 47 \<longrightarrow> pt_addr (memory s') (table_addr f) x = 0) \<and>
    (\<forall>x. 2 ^ 47 \<le> unat x \<longrightarrow> unat x < 2 ^ 48 \<longrightarrow>
       pt_addr (memory s') (table_addr f) x = pt_addr (memory s) (table_addr f) x) \<and>
    (\<forall>a. a \<notin> \<Union> (page_at ` tables (memory s) 4 f) \<longrightarrow> memory s' a = memory s a) \<and> pt_frame s s'"
proof -
  obtain s' where "pt_unmap (table_addr f) 0 user_end s = Inr s'" "user_ok s' U' f" "user_held (memory s') f = {#}"
    "\<forall>x. unat x < 2 ^ 47 \<longrightarrow> resolve (memory s') 4 f x = None"
    "\<forall>x. 2 ^ 47 \<le> unat x \<longrightarrow> unat x < 2 ^ 48 \<longrightarrow> resolve (memory s') 4 f x = resolve (memory s) 4 f x"
    "\<forall>a. a \<notin> \<Union> (page_at ` tables (memory s) 4 f) \<longrightarrow> memory s' a = memory s a" "pt_frame s s'"
    using pt_unmap_user [OF assms(1)] unfolding U'_def by blast
  then show ?thesis by (simp add: pt_addr_resolve)
qed

theorem pt_unmap_releases_witness:
  "\<exists>s'. pt_unmap (table_addr 8) 0 user_end table_sample = Inr s' \<and> user_ok s' table_used 8"
  using pt_unmap_releases [OF table_user_ok] by (auto simp: table_none)

text \<open>
  Nothing leaks. However a call of \<open>pt_map\<close> ends, short of hanging, taking down the user space
  afterwards succeeds and leaves the same blocks in use as taking it down before the call.
\<close>

theorem pt_map_unmap_roundtrip:
  assumes "user_ok s U f" and "0 < unat sz" and "unat v + unat sz \<le> unat user_end"
    and "unmapped (memory s) 4 f (touched (unat v) (unat sz))" and "leaf_flags flags"
    and "pt_map (table_addr f) v sz flags s = Inr (ok, s1)"
  shows "\<exists>s2. pt_unmap (table_addr f) 0 user_end s1 = Inr s2 \<and>
    user_ok s2 (U - set_mset (user_held (memory s) f)) f"
proof -
  obtain U1 where g: "grown 4 f 0 (touched (unat v) (unat sz)) s U s1 U1"
    using pt_map_user_post [OF assms(1-5)] unfolding assms(6) map_post_def by auto
  note u = user_grown [OF assms(1) g touched_user [OF assms(2,3)]]
  obtain N where n: "finite N" "U1 = U \<union> N" "U \<inter> N = {}"
    "user_held (memory s1) f = user_held (memory s) f + mset_set N"
    using u(2) unfolding gained_def by blast
  have "set_mset (user_held (memory s) f) \<subseteq> U" using owns_in [OF user_okD(2) [OF assms(1)]] by blast
  then have "U1 - set_mset (user_held (memory s1) f) = U - set_mset (user_held (memory s) f)"
    using n by auto
  then show ?thesis using pt_unmap_user [OF u(1)] by auto
qed

theorem pt_map_unmap_roundtrip_witness:
  "\<exists>s1 s2. pt_map (table_addr 8) 0x7000 0x10 (PTE_PRESENT OR PTE_USER) table_sample = Inr (True, s1) \<and>
     pt_unmap (table_addr 8) 0 user_end s1 = Inr s2 \<and> user_ok s2 table_used 8"
proof -
  have fl: "leaf_flags (PTE_PRESENT OR PTE_USER)"
    by (simp add: leaf_flags_def present_def PTE_PHYS_MASK_def PTE_LARGE_def PTE_PRESENT_def PTE_USER_def)
  let ?R = "touched (unat (0x7000 :: u64)) (unat (0x10 :: u64))"
  have un: "unmapped (memory table_sample) 4 8 ?R" by (simp add: unmapped_def table_unmapped)
  have end': "unat (0x7000 :: u64) + unat (0x10 :: u64) \<le> unat user_end" by (simp add: unat_user_end)
  have pos: "0 < unat (0x10 :: u64)" by simp
  have four: "4 * n_pages (unat (0x7000 :: u64)) (unat (0x10 :: u64)) = 4" by (simp add: n_pages_def)
  obtain s1 where s1: "pt_map (table_addr 8) 0x7000 0x10 (PTE_PRESENT OR PTE_USER) table_sample = Inr (True, s1)"
    using pt_map_user_post [OF table_user_ok pos end' un fl] unfolding four
    by (elim map_post_cases) (simp_all add: table_avail)
  then show ?thesis
    using pt_map_unmap_roundtrip [OF table_user_ok pos end' un fl s1] by (auto simp: table_none)
qed

end
