(* ===== verification/Kept.thy ===== *)
theory Kept
  imports Paging Slab_Cache
begin

text \<open>
  What the allocators and the page tables leave alone: the fields that the layers above them have added
  to the state, and the bounds of the zones. The locale \<open>kept\<close> carries any such fact from the calls
  of the page allocator to \<open>pt_map\<close> and \<open>pt_unmap\<close>.
\<close>

subsection \<open>The layers above\<close>


lemma buddy_alloc_zone_more: "buddy_alloc_zone i order s = (p, s') \<Longrightarrow> buddy.more s' = buddy.more s"
  by (auto simp: buddy_alloc_zone_def spin_lock_int_save_eq spin_unlock_int_restore_eq Let_def split: prod.splits)

lemma buddy_free_zone_more: "buddy.more (buddy_free_zone i p order s) = buddy.more s"
  by (auto simp: buddy_free_zone_def spin_lock_int_save_eq spin_unlock_int_restore_eq Let_def split: prod.splits)

lemma alloc_from_more: "alloc_from is order s = (p, s') \<Longrightarrow> buddy.more s' = buddy.more s"
  by (induction "is" order s rule: alloc_from.induct)
    (auto dest: buddy_alloc_zone_more split: prod.splits option.splits)

lemma do_buddy_alloc_more: "do_buddy_alloc order s = (p, s') \<Longrightarrow> buddy.more s' = buddy.more s"
  by (simp add: do_buddy_alloc_def alloc_from_more)

lemma buddy_alloc_more: "buddy_alloc order s = (p, s') \<Longrightarrow> buddy.more s' = buddy.more s"
  by (auto simp: buddy_alloc_def dest: alloc_from_more split: prod.splits option.splits)

lemma buddy_free_more: "buddy_free phys order s = Inr s' \<Longrightarrow> buddy.more s' = buddy.more s"
  by (auto simp: buddy_free_def Let_def buddy_free_zone_more split: option.splits)

lemma upper_of_buddy:
  fixes s s' :: "'a slabs_scheme"
  assumes "buddy.more s' = buddy.more s"
  shows "slabs.more s' = slabs.more s"
  using assms by (cases s; cases s') simp

lemma paging_of_slabs:
  fixes s s' :: "'a paging_scheme"
  assumes "slabs.more s' = slabs.more s"
  shows "paging.more s' = paging.more s"
  using assms by (cases s; cases s') simp

lemma slab_create_more: "slab_create c s = Inr (a, s') \<Longrightarrow> slabs.more s' = slabs.more s"
  using upper_of_buddy [OF do_buddy_alloc_more [OF surjective_pairing], of "slab_order (caches s c)" s]
  by (auto simp: slab_create_def Let_def and_then_eq_Inr case_prod_beta split: option.splits)

lemma slab_pick_more: "slab_pick c s = Inr (a, s') \<Longrightarrow> slabs.more s' = slabs.more s"
  by (auto simp: slab_pick_def Let_def upd_slab_links_def dest: slab_create_more split: if_splits)

lemma do_slab_cache_alloc_more: "do_slab_cache_alloc c s = Inr (p, s') \<Longrightarrow> slabs.more s' = slabs.more s"
  by (auto simp: do_slab_cache_alloc_def and_then_eq_Inr slab_alloc_def Let_def upd_slab_links_def
      dest: slab_pick_more split: if_splits)

lemma slab_cache_alloc_more: "slab_cache_alloc c s = Inr (p, s') \<Longrightarrow> slabs.more s' = slabs.more s"
  by (auto simp: slab_cache_alloc_def and_then_eq_Inr spin_lock_int_save_eq spin_unlock_int_restore_eq
      dest!: do_slab_cache_alloc_more split: prod.splits)

lemma slab_cache_free_more: "slabs.more (slab_cache_free c p s) = slabs.more s"
  by (simp add: slab_cache_free_def do_slab_cache_free_def slab_free_def Let_def upd_slab_links_def
      spin_lock_int_save_eq spin_unlock_int_restore_eq split: prod.splits)

subsection \<open>The bounds of the zones\<close>

lemma split_loop_bounds [simp]:
  "zbegin (split_loop idx order k z) = zbegin z" "zend (split_loop idx order k z) = zend z"
  by (induction idx order k z rule: split_loop.induct) (simp_all add: Let_def upd_page_def upd_links_def)

lemma merge_loop_bounds:
  "merge_loop idx order z = (i, k, z') \<Longrightarrow> zbegin z' = zbegin z \<and> zend z' = zend z"
proof (induction idx order z rule: merge_loop.induct)
  case (1 idx order z)
  show ?case
    using 1(2) 1(1) [OF _ refl _ refl _ refl]
    by (subst (asm) merge_loop.simps) (auto simp: Let_def upd_links_def split: if_splits)
qed

lemma do_buddy_alloc_zone_bounds:
  "do_buddy_alloc_zone z order = (p, z') \<Longrightarrow> zbegin z' = zbegin z \<and> zend z' = zend z"
  by (auto simp: do_buddy_alloc_zone_def Let_def upd_page_def upd_links_def split: if_splits)

lemma do_buddy_free_zone_bounds:
  "zbegin (do_buddy_free_zone z page order) = zbegin z \<and> zend (do_buddy_free_zone z page order) = zend z"
  using merge_loop_bounds [of "zbegin z + page" order z]
  by (auto simp: do_buddy_free_zone_def Let_def upd_page_def upd_links_def split: prod.splits)

lemma buddy_alloc_zone_layout: "buddy_alloc_zone i order s = (p, s') \<Longrightarrow> layout s' = layout s"
  by (rule layout_update [where z' = "snd (do_buddy_alloc_zone (buddy_zones s ! i) order)" and i = i])
    (auto simp: buddy_alloc_zone_eq split_beta do_buddy_alloc_zone_bounds [OF surjective_pairing])

lemma buddy_free_zone_layout: "layout (buddy_free_zone i p order s) = layout s"
  by (rule layout_update [where z' = "do_buddy_free_zone (buddy_zones s ! i) p order" and i = i])
    (simp_all add: buddy_free_zone_eq do_buddy_free_zone_bounds)

lemma alloc_from_layout: "alloc_from is order s = (p, s') \<Longrightarrow> layout s' = layout s"
  by (induction "is" order s rule: alloc_from.induct)
    (auto dest: buddy_alloc_zone_layout split: prod.splits option.splits)

lemma buddy_alloc_layout: "buddy_alloc order s = (p, s') \<Longrightarrow> layout s' = layout s"
  by (auto simp: buddy_alloc_def dest: alloc_from_layout split: prod.splits option.splits)

lemma buddy_free_layout: "buddy_free phys order s = Inr s' \<Longrightarrow> layout s' = layout s"
  by (auto simp: buddy_free_def Let_def buddy_free_zone_layout split: option.splits)

subsection \<open>Facts that page table operations inherit\<close>

locale kept =
  fixes kp :: "'a paging_scheme \<Rightarrow> 'a paging_scheme \<Rightarrow> bool"
  assumes kp_refl: "kp s s" and kp_trans: "kp s t \<Longrightarrow> kp t u \<Longrightarrow> kp s u"
    and kp_alloc: "buddy_alloc order s = (p, s') \<Longrightarrow> kp s s'"
    and kp_free: "buddy_free phys order s = Inr s' \<Longrightarrow> kp s s'"
    and kp_write: "kp s (s\<lparr>memory := m\<rparr>)"
begin

lemma kp_set: "kp s (pt_set pt i pte s)"
  unfolding pt_set_def by (rule kp_write)

lemma kp_pt_alloc: "pt_alloc s = Inr (p, s') \<Longrightarrow> kp s s'"
  by (auto simp: pt_alloc_def Let_def split: prod.splits if_splits intro: kp_trans [OF kp_alloc kp_write])

lemma kp_map_loop:
  assumes inner: "\<And>pt virt sz s ok s'. inner pt virt sz s = Inr (ok, s') \<Longrightarrow> kp s s'"
  shows "pt_map_loop inner lvl pt flags n i virt sz s = Inr (ok, s') \<Longrightarrow> kp s s'"
proof (induction n arbitrary: i virt sz s)
  case (Suc n)
  let ?rest = "\<lambda>pte s. if lvl > 1
      then and_then (inner (va (pte AND PTE_PHYS_MASK)) virt (pt_chunk lvl virt sz) s) (\<lambda>(ok, s1).
        if \<not> ok then Inr (False, s1)
        else pt_map_loop inner lvl pt flags n (i + 1) (virt + pt_chunk lvl virt sz) (sz - pt_chunk lvl virt sz) s1)
      else pt_map_loop inner lvl pt flags n (i + 1) (virt + pt_chunk lvl virt sz) (sz - pt_chunk lvl virt sz) s"
  have rest: "kp s1 s'" if r: "?rest pte s1 = Inr (ok, s')" for pte s1
  proof (cases "lvl > 1")
    case True
    then obtain ok1 s2 where i: "inner (va (pte AND PTE_PHYS_MASK)) virt (pt_chunk lvl virt sz) s1 = Inr (ok1, s2)"
      using r by (auto simp: and_then_eq_Inr)
    then show ?thesis using r True inner [OF i] by (cases ok1) (auto dest: Suc.IH kp_trans)
  next
    case False
    then show ?thesis using that by (auto dest: Suc.IH)
  qed
  have table: "kp s1 s'"
    if r: "and_then (pt_alloc s1) (\<lambda>(phys, s2). let pte = phys OR pde_flags in ?rest pte (pt_set pt i pte s2)) = Inr (ok, s')"
    for s1
  proof -
    obtain phys s2 where "pt_alloc s1 = Inr (phys, s2)" "?rest (phys OR pde_flags) (pt_set pt i (phys OR pde_flags) s2) = Inr (ok, s')"
      using r unfolding and_then_eq_Inr Let_def by auto
    from kp_trans [OF kp_trans [OF kp_pt_alloc [OF this(1)] kp_set] rest [OF this(2)]] show ?thesis .
  qed
  obtain phys s1 where b: "buddy_alloc (pt_order lvl) s = (phys, s1)" by fastforce
  note b' = kp_alloc [OF b]
  have table1: "kp s s'"
    if "and_then (pt_alloc s1) (\<lambda>(phys, s2). let pte = phys OR pde_flags in ?rest pte (pt_set pt i pte s2)) = Inr (ok, s')"
    by (rule kp_trans [OF b' table [OF that]])
  have leaf: "kp s s'" if "pt_map_loop inner lvl pt flags n (i + 1) v z (pt_set pt i w s1) = Inr (ok, s')" for v z w
    by (rule kp_trans [OF kp_trans [OF b' kp_set] Suc.IH [OF that]])
  show ?case
    using Suc.prems rest table table1 leaf b'
    by (simp only: pt_map_loop.simps Let_def b prod.case split: if_splits) auto
qed (simp add: kp_refl)

lemma kp_do_map: "do_pt_map lvl flags pt virt sz s = Inr (ok, s') \<Longrightarrow> kp s s'"
proof (induction lvl arbitrary: pt virt sz s ok s')
  case (Suc l)
  then show ?case
    by (auto simp: Let_def split: if_splits dest!: kp_map_loop [rotated])
qed simp

lemma kp_map: "pt_map pml4 vaddr sz flags s = Inr (ok, s') \<Longrightarrow> kp s s'"
  unfolding pt_map_def by (rule kp_do_map)

lemma kp_unmap_loop:
  assumes inner: "\<And>pt virt sz s s'. inner pt virt sz s = Inr s' \<Longrightarrow> kp s s'"
  shows "pt_unmap_loop inner lvl pt n i vaddr sz s = Inr s' \<Longrightarrow> kp s s'"
proof (induction n arbitrary: i vaddr sz s)
  case (Suc n)
  note step = kp_trans [OF kp_trans [OF kp_free kp_set] Suc.IH]
  show ?case
    using Suc.prems
    by (auto simp: Let_def and_then_eq_Inr pt_free_def split: if_splits
        intro: Suc.IH step kp_trans [OF inner step] kp_trans [OF inner Suc.IH])
qed (simp add: kp_refl)

lemma kp_do_unmap: "do_pt_unmap lvl pt vaddr sz s = Inr s' \<Longrightarrow> kp s s'"
proof (induction lvl arbitrary: pt vaddr sz s s')
  case (Suc l)
  then show ?case
    by (auto simp: Let_def split: if_splits dest!: kp_unmap_loop [rotated])
qed simp

lemma kp_unmap: "pt_unmap pml4 vaddr sz s = Inr s' \<Longrightarrow> kp s s'"
  unfolding pt_unmap_def by (rule kp_do_unmap)

end

interpretation upper: kept "\<lambda>s s'. paging.more s' = paging.more s"
proof unfold_locales
  show "buddy_alloc order s = (p, s') \<Longrightarrow> paging.more s' = paging.more s" for order p and s s' :: "'a paging_scheme"
    by (rule paging_of_slabs [OF upper_of_buddy [OF buddy_alloc_more]])
  show "buddy_free phys order s = Inr s' \<Longrightarrow> paging.more s' = paging.more s" for order phys and s s' :: "'a paging_scheme"
    by (rule paging_of_slabs [OF upper_of_buddy [OF buddy_free_more]])
qed simp_all

interpretation bounds: kept "\<lambda>s s'. layout s' = layout s"
proof unfold_locales
  show "buddy_alloc order s = (p, s') \<Longrightarrow> layout s' = layout s" for order p and s s' :: "'a paging_scheme"
    by (rule buddy_alloc_layout)
  show "buddy_free phys order s = Inr s' \<Longrightarrow> layout s' = layout s" for order phys and s s' :: "'a paging_scheme"
    by (rule buddy_free_layout)
qed (simp_all add: layout_def)

end
