(* ===== verification/Mm_Regions.thy ===== *)
theory Mm_Regions
  imports Mm Kept Slab_Properties
begin

text \<open>
  The regions of an address space. \<open>space s as\<close> is what a region list says: for each
  address the permission of the region that covers it. \<open>mmap\<close> and \<open>munmap\<close> are shown to
  implement the obvious operations on it.
\<close>

subsection \<open>Region lists\<close>

definition regions :: "'a mms_scheme \<Rightarrow> u64 \<Rightarrow> u64 list \<Rightarrow> bool" where
  "regions s mm as \<longleftrightarrow>
     dlist (mm_links s) (MmHead mm) (map Vma as) \<and>
     sorted_wrt (\<lambda>a b. vma_end (vma_at s a) \<le> vma_begin (vma_at s b)) as \<and>
     (\<forall>a\<in>set as. vma_begin (vma_at s a) < vma_end (vma_at s a))"

definition covers :: "vma \<Rightarrow> u64 \<Rightarrow> bool" where
  "covers v x \<longleftrightarrow> vma_begin v \<le> x \<and> x < vma_end v"

definition space :: "'a mms_scheme \<Rightarrow> u64 list \<Rightarrow> u64 \<Rightarrow> u32 option" where
  "space s as x = map_option (\<lambda>a. vma_perm (vma_at s a)) (List.find (\<lambda>a. covers (vma_at s a) x) as)"

text \<open>Whether a region meets the range from \<open>from\<close> to \<open>to\<close>.\<close>

definition meets :: "u64 \<Rightarrow> u64 \<Rightarrow> vma \<Rightarrow> bool" where
  "meets from to v \<longleftrightarrow> from < vma_end v \<and> vma_begin v < to"

lemma space_append: "space s (as @ bs) x = (case space s as x of None \<Rightarrow> space s bs x | Some p \<Rightarrow> Some p)"
  by (induction as) (auto simp: space_def)

lemma space_cong: "(\<And>a. a \<in> set as \<Longrightarrow> vma_at s' a = vma_at s a) \<Longrightarrow> space s' as = space s as"
  by (rule ext, induction as) (auto simp: space_def)

lemma space_none_iff: "space s as x = None \<longleftrightarrow> (\<forall>a\<in>set as. \<not> covers (vma_at s a) x)"
  by (auto simp: space_def find_None_iff)

lemma space_single: "space s [a] x = (if covers (vma_at s a) x then Some (vma_perm (vma_at s a)) else None)"
  by (simp add: space_def)

lemma sorted_regions_cong:
  assumes "\<And>a. a \<in> set as \<Longrightarrow> vma_at s' a = vma_at s a"
  shows "sorted_wrt (\<lambda>a b. vma_end (vma_at s' a) \<le> vma_begin (vma_at s' b)) as \<longleftrightarrow>
    sorted_wrt (\<lambda>a b. vma_end (vma_at s a) \<le> vma_begin (vma_at s b)) as"
  using assms by (induction as) auto

lemma regions_cong:
  assumes "mm_links s' = mm_links s" and "\<And>a. a \<in> set as \<Longrightarrow> vma_at s' a = vma_at s a"
  shows "regions s' mm as \<longleftrightarrow> regions s mm as"
  using assms sorted_regions_cong [of as s' s, OF assms(2)] by (auto simp: regions_def)

subsection \<open>Mapping\<close>

text \<open>The regions in front of the range.\<close>

abbreviation before_range :: "'a mms_scheme \<Rightarrow> u64 \<Rightarrow> u64 list \<Rightarrow> u64 list" where
  "before_range s from as \<equiv> takeWhile (\<lambda>a. vma_end (vma_at s a) \<le> from) as"

abbreviation after_range :: "'a mms_scheme \<Rightarrow> u64 \<Rightarrow> u64 list \<Rightarrow> u64 list" where
  "after_range s from as \<equiv> dropWhile (\<lambda>a. vma_end (vma_at s a) \<le> from) as"

lemma mmap_scan_finds:
  assumes "lpath (mm_links s) p (map Vma as) head" and "\<forall>a\<in>set as. vma_begin (vma_at s a) < vma_end (vma_at s a)"
    and "from < to" and "head = MmHead mm"
  shows "mmap_scan head (nxt (mm_links s) p) from to s = Some (Inr (case after_range s from as of
      [] \<Rightarrow> Some head | a # _ \<Rightarrow> if to \<le> vma_begin (vma_at s a) then Some (Vma a) else None))"
  using assms(1,2)
proof (induction as arbitrary: p)
  case Nil
  then show ?case by (simp add: mmap_scan.simps)
next
  case (Cons a as)
  have p: "nxt (mm_links s) p = Vma a" and path: "lpath (mm_links s) (Vma a) (map Vma as) head"
    using Cons.prems(1) by simp_all
  have ne: "Vma a \<noteq> head" using assms(4) by simp
  have lt: "vma_begin (vma_at s a) < vma_end (vma_at s a)" using Cons.prems(2) by simp
  note step = mmap_scan.simps [of head "Vma a" "from" to s]
  show ?case
  proof (cases "vma_end (vma_at s a) \<le> from")
    case True
    have "vma_begin (vma_at s a) < to" using lt True assms(3) by (metis less_le_trans less_trans)
    then have out: "\<not> to \<le> vma_begin (vma_at s a)" "\<not> from < vma_end (vma_at s a)" using True by (simp_all add: not_le not_less)
    then have "mmap_scan head (Vma a) from to s = mmap_scan head (nxt (mm_links s) (Vma a)) from to s"
      using out ne step by (simp add: node_vma_def Let_def)
    then show ?thesis using Cons.IH [OF path] Cons.prems(2) True p by simp
  next
    case False
    then show ?thesis using ne step p by (auto simp: node_vma_def Let_def)
  qed
qed

lemma scan_meets:
  assumes r: "regions s mm as" and lt: "from < to"
  shows "(\<exists>a\<in>set as. meets from to (vma_at s a)) \<longleftrightarrow>
    (\<exists>a as'. after_range s from as = a # as' \<and> \<not> to \<le> vma_begin (vma_at s a))"
proof (cases "after_range s from as")
  case Nil
  then have "\<forall>a\<in>set as. vma_end (vma_at s a) \<le> from" by (simp add: dropWhile_eq_Nil_conv)
  then have "\<not> (\<exists>a\<in>set as. meets from to (vma_at s a))" by (auto simp: meets_def)
  then show ?thesis unfolding Nil by simp
next
  case (Cons a as')
  define bs where "bs = before_range s from as"
  have as: "as = bs @ a # as'" unfolding bs_def using takeWhile_dropWhile_id [of _ as] Cons by metis
  have bs: "\<forall>b\<in>set bs. vma_end (vma_at s b) \<le> from" unfolding bs_def by (auto dest: set_takeWhileD)
  have parts: "set as = set bs \<union> {a} \<union> set as'" unfolding as by simp
  have a: "\<not> vma_end (vma_at s a) \<le> from" using hd_dropWhile [of "\<lambda>a. vma_end (vma_at s a) \<le> from" as] Cons by simp
  have "sorted_wrt (\<lambda>a b. vma_end (vma_at s a) \<le> vma_begin (vma_at s b)) (bs @ a # as')"
    using r unfolding regions_def as by blast
  then have tl: "\<forall>b\<in>set as'. vma_end (vma_at s a) \<le> vma_begin (vma_at s b)" by (simp add: sorted_wrt_append)
  have ne: "vma_begin (vma_at s a) < vma_end (vma_at s a)"
    using r parts by (simp add: regions_def)
  show ?thesis
  proof (cases "to \<le> vma_begin (vma_at s a)")
    case True
    have "\<not> meets from to (vma_at s b)" if "b \<in> set as" for b
    proof -
      have "b \<in> set bs \<or> b = a \<or> b \<in> set as'" using that unfolding parts by blast
      then consider "b \<in> set bs" | "b = a" | "b \<in> set as'" by (elim disjE)
      then show ?thesis
      proof cases
        case 1
        then have "\<not> from < vma_end (vma_at s b)" using bs by (simp add: not_less)
        then show ?thesis by (simp add: meets_def)
      next
        case 2
        then show ?thesis using True by (simp add: meets_def not_less)
      next
        case 3
        then have "vma_end (vma_at s a) \<le> vma_begin (vma_at s b)" using tl by blast
        then have "\<not> vma_begin (vma_at s b) < to" using True ne by (simp add: not_less)
        then show ?thesis by (simp add: meets_def)
      qed
    qed
    then show ?thesis using True Cons by auto
  next
    case False
    then have "meets from to (vma_at s a)" using a by (simp add: meets_def not_le)
    then have "\<exists>a\<in>set as. meets from to (vma_at s a)" unfolding parts by blast
    then show ?thesis using False Cons by auto
  qed
qed


text \<open>The list after a new region was put in: sorted, and the space with the range filled.\<close>

lemma insert_region:
  assumes r: "regions s mm as" and lt: "from < to" and free: "\<forall>a\<in>set as. \<not> meets from to (vma_at s a)"
    and new: "n \<notin> set as" and f: "mm_links s' = list_add_before (Vma n) nx (mm_links s)"
    and nx: "nx = (case after_range s from as of [] \<Rightarrow> MmHead mm | a # _ \<Rightarrow> Vma a)"
    and v: "vma_at s' = (vma_at s)(n := \<lparr>vma_begin = from, vma_end = to, vma_perm = perm\<rparr>)"
  shows "\<exists>bs. regions s' mm bs \<and> set bs = insert n (set as) \<and>
    space s' bs = (\<lambda>x. if from \<le> x \<and> x < to then Some perm else space s as x)"
proof -
  define bs where "bs = before_range s from as"
  define cs where "cs = after_range s from as"
  have as: "as = bs @ cs" by (simp add: bs_def cs_def)
  have bsle: "\<forall>b\<in>set bs. vma_end (vma_at s b) \<le> from" unfolding bs_def by (auto dest: set_takeWhileD)
  have sorted: "sorted_wrt (\<lambda>a b. vma_end (vma_at s a) \<le> vma_begin (vma_at s b)) (bs @ cs)"
    and ne: "\<forall>a\<in>set (bs @ cs). vma_begin (vma_at s a) < vma_end (vma_at s a)"
    and d: "dlist (mm_links s) (MmHead mm) (map Vma bs @ map Vma cs)"
    using r unfolding regions_def as by simp_all
  have csge: "\<forall>c\<in>set cs. to \<le> vma_begin (vma_at s c)"
  proof (cases cs)
    case (Cons c ds)
    have "\<not> vma_end (vma_at s c) \<le> from"
      using hd_dropWhile [of "\<lambda>a. vma_end (vma_at s a) \<le> from" as] Cons unfolding cs_def by simp
    moreover have "\<not> meets from to (vma_at s c)" using free as Cons by simp
    ultimately have c: "to \<le> vma_begin (vma_at s c)" by (simp add: meets_def not_less)
    have "to \<le> vma_begin (vma_at s e)" if e: "e \<in> set ds" for e
    proof -
      have "vma_end (vma_at s c) \<le> vma_begin (vma_at s e)" using sorted Cons e by (simp add: sorted_wrt_append)
      moreover have "vma_begin (vma_at s c) < vma_end (vma_at s c)" using ne Cons by simp
      ultimately show ?thesis using c by simp
    qed
    then show ?thesis using c Cons by simp
  qed simp
  have nin: "n \<notin> set bs" "n \<notin> set cs" using new as by simp_all
  have same: "vma_at s' a = vma_at s a" if "a \<in> set (bs @ cs)" for a using that nin v by auto
  have nv: "vma_at s' n = \<lparr>vma_begin = from, vma_end = to, vma_perm = perm\<rparr>" by (simp add: v)
  have dl: "dlist (mm_links s') (MmHead mm) (map Vma (bs @ n # cs))"
  proof (cases cs)
    case Nil
    then have "nx = MmHead mm" unfolding nx cs_def [symmetric] by simp
    then show ?thesis using dlist_add_tail [of "mm_links s" "MmHead mm" "map Vma bs" "Vma n"] d Nil nin f
      by (simp add: list_add_before_def inj_image_mem_iff image_iff)
  next
    case (Cons c ds)
    then have "nx = Vma c" unfolding nx cs_def [symmetric] by simp
    then show ?thesis using dlist_add_before [of "mm_links s" "MmHead mm" "map Vma bs" "Vma c" "map Vma ds" "Vma n"] d Cons nin f
      by (auto simp: image_iff)
  qed
  have "sorted_wrt (\<lambda>a b. vma_end (vma_at s' a) \<le> vma_begin (vma_at s' b)) (bs @ n # cs)"
  proof -
    have "\<forall>b\<in>set bs. vma_end (vma_at s' b) \<le> from" "\<forall>c\<in>set cs. to \<le> vma_begin (vma_at s' c)"
      using bsle csge same by simp_all
    moreover have "sorted_wrt (\<lambda>a b. vma_end (vma_at s' a) \<le> vma_begin (vma_at s' b)) (bs @ cs)"
      using sorted sorted_regions_cong [of "bs @ cs" s' s] same by blast
    ultimately show ?thesis using nv by (simp add: sorted_wrt_append)
  qed
  moreover have "\<forall>a\<in>set (bs @ n # cs). vma_begin (vma_at s' a) < vma_end (vma_at s' a)"
    using ne same nv lt by simp
  ultimately have reg: "regions s' mm (bs @ n # cs)" using dl by (simp add: regions_def)
  have out: "\<not> covers (vma_at s a) x" if "a \<in> set (bs @ cs)" and "from \<le> x" "x < to" for a x
    using that bsle csge by (auto simp: covers_def not_less dest: order_trans)
  have "space s' (bs @ n # cs) x = (if from \<le> x \<and> x < to then Some perm else space s as x)" for x
  proof -
    have "space s' bs = space s bs" "space s' cs = space s cs" using same by (intro space_cong; simp)+
    moreover have "space s bs x = None" if "from \<le> x" "x < to"
      using out [OF _ that] by (simp add: space_none_iff)
    moreover have "space s' (n # cs) x = (if from \<le> x \<and> x < to then Some perm else space s' cs x)"
      using space_append [of s' "[n]" cs x] nv by (simp add: space_single covers_def)
    ultimately show ?thesis
      using space_append [of s' bs "n # cs" x] space_append [of s bs cs x] as by (auto split: option.splits)
  qed
  then show ?thesis using reg as by (intro exI [of _ "bs @ n # cs"]) auto
qed

lemma upper_fields:
  fixes s s' :: "'a mms_scheme"
  assumes "paging.more s' = paging.more s"
  shows "mm_links s' = mm_links s" and "vma_at s' = vma_at s" and "mm_at s' = mm_at s"
  using assms by (cases s; cases s'; simp)+

lemma mmap_undo_more:
  fixes s s' :: "'a mms_scheme"
  shows "mmap_undo mm next s = Inr s' \<Longrightarrow> paging.more s' = paging.more s"
  by (auto simp: mmap_undo_def Let_def and_then_eq_Inr dest!: upper.kp_unmap split: if_splits)


lemma space_free:
  assumes "\<forall>a\<in>set as. \<not> meets from to (vma_at s a)" and "from \<le> x" and "x < to"
  shows "space s as x = None"
  unfolding space_none_iff
proof
  fix a assume "a \<in> set as"
  then have "\<not> meets from to (vma_at s a)" using assms(1) by blast
  then show "\<not> covers (vma_at s a) x" using assms(2,3) by (auto simp: meets_def covers_def dest: le_less_trans)
qed

text \<open>What \<open>mmap\<close> does when no region is in the way.\<close>

lemma mmap_body:
  assumes r: "regions s mm as" and bounds: "to0 \<le> HIGHER_BASE" "from < to"
    and ft: "from = from0 AND USER_MASK" "to = to0 AND USER_MASK"
    and free: "\<forall>a\<in>set as. \<not> meets from to (vma_at s a)" and al: "slab_cache_alloc vma_slab s = Inr (v, s1)"
  defines "nx \<equiv> case after_range s from as of [] \<Rightarrow> MmHead mm | a # _ \<Rightarrow> Vma a"
  shows "mmap mm from0 to0 perm s = Some (if v = 0 then Inr (False, s1)
      else and_then (pt_map (va (mm_cr3 (mm_at s1 mm))) from (to - from) (user_flags perm) s1) (\<lambda>(ok, s2).
        if \<not> ok then and_then (mmap_undo mm nx s2) (\<lambda>s3. Inr (False, s3))
        else Inr (True, upd_mm_links (list_add_before (Vma v) nx)
          (s2\<lparr>vma_at := (vma_at s2)(v := \<lparr>vma_begin = from, vma_end = to, vma_perm = perm\<rparr>)\<rparr>))))"
proof -
  let ?head = "MmHead mm"
  have path: "lpath (mm_links s) ?head (map Vma as) ?head" "\<forall>a\<in>set as. vma_begin (vma_at s a) < vma_end (vma_at s a)"
    using r by (simp_all add: regions_def dlist_def)
  have "mmap_scan ?head (nxt (mm_links s) ?head) from to s = Some (Inr (Some nx))"
  proof (cases "after_range s from as")
    case Nil
    show ?thesis unfolding mmap_scan_finds [OF path bounds(2) refl] nx_def Nil by simp
  next
    case (Cons a as')
    then have "to \<le> vma_begin (vma_at s a)" using free scan_meets [OF r bounds(2)] by blast
    then show ?thesis unfolding mmap_scan_finds [OF path bounds(2) refl] nx_def Cons by simp
  qed
  moreover have "\<not> to0 > HIGHER_BASE" "from \<noteq> to" "\<not> from > to" using bounds by auto
  ultimately show ?thesis
    using al by (simp add: mmap_def [of mm from0 to0 perm s, folded ft, unfolded Let_def, folded ft] Let_def)
qed

lemma mmap_meets:
  assumes r: "regions s mm as" and bounds: "to0 \<le> HIGHER_BASE" "from < to"
    and ft: "from = from0 AND USER_MASK" "to = to0 AND USER_MASK"
    and hit: "\<exists>a\<in>set as. meets from to (vma_at s a)"
  shows "mmap mm from0 to0 perm s = Some (Inr (False, s))"
proof -
  let ?head = "MmHead mm"
  have path: "lpath (mm_links s) ?head (map Vma as) ?head" "\<forall>a\<in>set as. vma_begin (vma_at s a) < vma_end (vma_at s a)"
    using r by (simp_all add: regions_def dlist_def)
  obtain a as' where a: "after_range s from as = a # as'" "\<not> to \<le> vma_begin (vma_at s a)"
    using scan_meets [OF r bounds(2)] hit by blast
  then have "mmap_scan ?head (nxt (mm_links s) ?head) from to s = Some (Inr None)"
    using mmap_scan_finds [OF path bounds(2) refl] by simp
  moreover have "\<not> to0 > HIGHER_BASE" "from \<noteq> to" "\<not> from > to" using bounds by auto
  ultimately show ?thesis
    by (simp add: mmap_def [of mm from0 to0 perm s, folded ft, unfolded Let_def, folded ft])
qed

lemma mmap_cases:
  assumes r: "regions s mm as" and o: "objs s C V X" and c: "vma_slab \<in> C"
    and own: "\<forall>a\<in>set as. (vma_slab, a) \<in> X"
    and bounds: "to0 \<le> HIGHER_BASE" "from < to" and ft: "from = from0 AND USER_MASK" "to = to0 AND USER_MASK"
  shows "if \<exists>a\<in>set as. meets from to (vma_at s a) then mmap mm from0 to0 perm s = Some (Inr (False, s))
    else \<exists>r. mmap mm from0 to0 perm s = Some r \<and> (\<forall>ok s'. r = Inr (ok, s') \<longrightarrow>
      (if ok then \<exists>bs. regions s' mm bs \<and> space s' bs = (\<lambda>x. if from \<le> x \<and> x < to then Some perm else space s as x)
       else regions s' mm as \<and> space s' as = space s as))"
proof (cases "\<exists>a\<in>set as. meets from to (vma_at s a)")
  case True
  then show ?thesis using mmap_meets [OF r bounds ft True] by simp
next
  case False
  then have free: "\<forall>a\<in>set as. \<not> meets from to (vma_at s a)" by blast
  let ?nx = "case after_range s from as of [] \<Rightarrow> MmHead mm | a # _ \<Rightarrow> Vma a"
  obtain v s1 where al: "slab_cache_alloc vma_slab s = Inr (v, s1)" and fresh: "v \<noteq> 0 \<longrightarrow> (\<forall>d. (d, v) \<notin> X)"
    using slab_cache_alloc_cases [OF o c] by blast
  have u1: "paging.more s1 = paging.more s" by (rule paging_of_slabs [OF slab_cache_alloc_more [OF al]])
  have keep: "regions t mm as \<and> space t as = space s as" if "paging.more t = paging.more s" for t
    using regions_cong [of t s as mm] space_cong [of as t s] upper_fields [OF that] r by simp
  let ?pm = "pt_map (va (mm_cr3 (mm_at s1 mm))) from (to - from) (user_flags perm) s1"
  note body = mmap_body [OF r bounds ft free al, of perm]
  have new: "\<exists>bs. regions t mm bs \<and> space t bs = (\<lambda>x. if from \<le> x \<and> x < to then Some perm else space s as x)"
    if s2: "?pm = Inr (True, s2)" and "v \<noteq> 0" and t: "t = upd_mm_links (list_add_before (Vma v) ?nx)
        (s2\<lparr>vma_at := (vma_at s2)(v := \<lparr>vma_begin = from, vma_end = to, vma_perm = perm\<rparr>)\<rparr>)" for s2 t
  proof -
    have u2: "paging.more s2 = paging.more s" using upper.kp_map [OF s2] u1 by simp
    have "v \<notin> set as" using fresh own that(2) by blast
    then have "\<exists>bs. regions t mm bs \<and> set bs = insert v (set as) \<and>
        space t bs = (\<lambda>x. if from \<le> x \<and> x < to then Some perm else space s as x)"
      by (intro insert_region [OF r bounds(2) free _ _ refl]) (simp_all add: t upper_fields [OF u2] upd_mm_links_def)
    then show ?thesis by blast
  qed
  have old: "regions t mm as \<and> space t as = space s as"
    if s2: "?pm = Inr (False, s2)" and "mmap_undo mm ?nx s2 = Inr t" for s2 t
    by (rule keep) (use upper.kp_map [OF s2] mmap_undo_more [OF that(2)] u1 in simp)
  show ?thesis unfolding if_not_P [OF False]
  proof (intro exI conjI allI impI, rule body)
    fix ok t
    assume res: "(if v = 0 then Inr (False, s1) else and_then ?pm (\<lambda>(ok, s2).
        if \<not> ok then and_then (mmap_undo mm ?nx s2) (\<lambda>s3. Inr (False, s3))
        else Inr (True, upd_mm_links (list_add_before (Vma v) ?nx)
          (s2\<lparr>vma_at := (vma_at s2)(v := \<lparr>vma_begin = from, vma_end = to, vma_perm = perm\<rparr>)\<rparr>)))) = Inr (ok, t)"
    show "if ok then \<exists>bs. regions t mm bs \<and> space t bs = (\<lambda>x. if from \<le> x \<and> x < to then Some perm else space s as x)
       else regions t mm as \<and> space t as = space s as"
    proof (cases "v = 0")
      case True
      then show ?thesis using res keep [OF u1] by simp
    next
      case v: False
      then obtain b s2 where s2: "?pm = Inr (b, s2)" using res by (auto simp: and_then_eq_Inr)
      show ?thesis
      proof (cases b)
        case True
        then show ?thesis using res v s2 new [OF _ v refl, of s2] by simp
      next
        case False
        then show ?thesis using res v s2 old [of s2 t] by (auto simp: and_then_eq_Inr)
      qed
    qed
  qed
qed

end
