(* ===== verification/Mm_Properties.thy ===== *)
theory Mm_Properties
  imports Mm_Regions
begin

text \<open>
  Unmapping, and what an address space promises: \<open>mmap\<close> and \<open>munmap\<close> implement the update of the map from
  addresses to permissions that the region list stands for. The samples are states built on the
  sample caches of \<open>Slab_Properties\<close>.
\<close>

subsection \<open>Cutting a segment out of a list\<close>

lemma list_link_writes: "nxt (list_link p n h) = (nxt h)(p := n)" "prv (list_link p n h) = (prv h)(n := p)"
  by (simp_all add: list_link_def Let_def)

lemma cut_segment:
  assumes dl: "dlist h l (us @ xs @ vs)" and ne: "xs \<noteq> []" and e: "dlist h d []" and out: "d \<notin> set (l # us @ xs @ vs)"
    and p: "p = last (l # us)" and n: "n = hd (vs @ [l])"
  defines "h' \<equiv> list_link p n (do_list_splice (nxt h p) (prv h n) d h)"
  shows "dlist h' l (us @ vs)" and "dlist h' d xs"
    and "x \<notin> set (l # us @ xs @ vs) \<Longrightarrow> x \<noteq> d \<Longrightarrow> nxt h' x = nxt h x \<and> prv h' x = prv h x"
proof -
  have dist: "distinct (l # us @ xs @ vs)" and path: "lpath h l (us @ xs @ vs) l" using dl by (simp_all add: dlist_def)
  note c1 = lpath_cut [OF path] and c2 = lpath_cut [OF lpath_cut(2) [OF path]]
  have us: "lpath h l us (hd xs)" using c1(1) ne by simp
  have seg: "lpath h p xs n" using c2(1) p n by simp
  have vs: "lpath h (last xs) vs l" using c2(2) ne by simp
  have ends: "nxt h p = hd xs" "prv h n = last xs"
    using lpath_first [OF seg] lpath_last [OF seg] ne by simp_all
  have ed: "nxt h d = d" "prv h d = d" using e by (simp_all add: dlist_def)
  have pin: "p \<in> set (l # us)" by (simp only: p last_in_set list.distinct not_False_eq_True)
  have nin: "n \<in> set (vs @ [l])" unfolding n by (cases vs) auto
  have hx: "hd xs \<in> set xs" "last xs \<in> set xs" using ne by simp_all
  have px: "p \<notin> set xs" "p \<noteq> d" "n \<notin> set xs" "n \<noteq> d" "p \<notin> set vs" "n \<notin> set us"
    using pin nin dist out by auto
  let ?h1 = "do_list_splice (hd xs) (last xs) d h"
  have h': "h' = list_link p n ?h1" unfolding h'_def ends ..
  have "lpath ?h1 d ([] @ xs @ []) d"
    by (rule lpath_splice [OF _ ne seg]) (use ed dist out in auto)
  then have "lpath ?h1 d xs d" by simp
  moreover have "lpath h' d xs d \<longleftrightarrow> lpath ?h1 d xs d"
    unfolding h' by (rule lpath_cong) (use px in \<open>auto simp: list_link_writes\<close>)
  ultimately show "dlist h' d xs" using dist out by (simp add: dlist_def)
  have nx: "nxt h' x = nxt h x" if "x \<noteq> p" "x \<noteq> d" "x \<noteq> last xs" for x
    using that by (simp add: h' list_link_writes splice_writes)
  have pv: "prv h' x = prv h x" if "x \<noteq> n" "x \<noteq> d" "x \<noteq> hd xs" for x
    using that ed by (simp add: h' list_link_writes splice_writes)
  show "nxt h' x = nxt h x \<and> prv h' x = prv h x" if "x \<notin> set (l # us @ xs @ vs)" "x \<noteq> d"
    using nx [of x] pv [of x] that pin nin hx by auto
  have at: "nxt h' p = n" "prv h' n = p" by (simp_all add: h' list_link_writes)
  have left: "lpath h' l us n"
  proof (cases us rule: rev_cases)
    case Nil
    then show ?thesis using at p by simp
  next
    case (snoc ws w)
    have w: "p = w" using p snoc by simp
    have "lpath h' l ws w \<longleftrightarrow> lpath h l ws w"
      by (rule lpath_cong; rule nx pv) (use snoc dist out hx px w in auto)
    moreover have "lpath h l ws w" using us snoc by (simp add: lpath_append)
    ultimately show ?thesis using at w snoc by (simp add: lpath_append)
  qed
  have right: "lpath h' p vs l"
  proof (cases vs)
    case Nil
    then show ?thesis using at n by simp
  next
    case (Cons v zs)
    have v: "n = v" using n Cons by simp
    have "lpath h' v zs l \<longleftrightarrow> lpath h v zs l"
      by (rule lpath_cong; rule nx pv) (use Cons dist out hx px v in auto)
    moreover have "lpath h v zs l" using vs Cons by simp
    ultimately show ?thesis using at v Cons by simp
  qed
  have "lpath h' l (us @ vs) l" by (rule lpath_paste) (use left right p n in simp_all)
  then show "dlist h' l (us @ vs)" using dist by (auto simp: dlist_def)
qed

subsection \<open>The search of munmap\<close>

definition sticks_out :: "u64 \<Rightarrow> u64 \<Rightarrow> vma \<Rightarrow> bool" where
  "sticks_out from to v \<longleftrightarrow> vma_begin v < from \<or> vma_end v > to"

abbreviation in_front :: "'a mms_scheme \<Rightarrow> u64 \<Rightarrow> u64 \<Rightarrow> bool" where
  "in_front s to a \<equiv> \<not> to \<le> vma_begin (vma_at s a)"

lemma munmap_scan_inside:
  assumes "lpath (mm_links s) p (map Vma as) (MmHead mm)" and "\<forall>a\<in>set as. \<not> vma_end (vma_at s a) \<le> from"
  shows "munmap_scan (MmHead mm) (nxt (mm_links s) p) prev from to s =
    Some (Inr (if \<exists>a\<in>set (takeWhile (in_front s to) as). sticks_out from to (vma_at s a) then None
      else Some (prev, hd (map Vma (dropWhile (in_front s to) as) @ [MmHead mm]))))"
  using assms
proof (induction as arbitrary: p)
  case Nil
  then show ?case by (simp add: munmap_scan.simps)
next
  case (Cons a as)
  have p: "nxt (mm_links s) p = Vma a" and path: "lpath (mm_links s) (Vma a) (map Vma as) (MmHead mm)"
    using Cons.prems(1) by simp_all
  have e: "\<not> vma_end (vma_at s a) \<le> from" using Cons.prems(2) by simp
  note step = munmap_scan.simps [of "MmHead mm" "Vma a" prev "from" to s]
  have IH: "munmap_scan (MmHead mm) (nxt (mm_links s) (Vma a)) prev from to s =
      Some (Inr (if \<exists>a\<in>set (takeWhile (in_front s to) as). sticks_out from to (vma_at s a) then None
        else Some (prev, hd (map Vma (dropWhile (in_front s to) as) @ [MmHead mm]))))"
    by (rule Cons.IH [OF path]) (use Cons.prems(2) in simp)
  show ?case
    unfolding p step using e IH by (auto simp: node_vma_def Let_def sticks_out_def)
qed

lemma munmap_scan_finds:
  assumes "lpath (mm_links s) p (map Vma as) (MmHead mm)"
    and "sorted_wrt (\<lambda>a b. vma_end (vma_at s a) \<le> vma_begin (vma_at s b)) as"
    and "\<forall>a\<in>set as. vma_begin (vma_at s a) < vma_end (vma_at s a)"
  shows "munmap_scan (MmHead mm) (nxt (mm_links s) p) p from to s =
    Some (Inr (let rest = after_range s from as
      in if \<exists>a\<in>set (takeWhile (in_front s to) rest). sticks_out from to (vma_at s a) then None
         else Some (last (p # map Vma (before_range s from as)),
                hd (map Vma (dropWhile (in_front s to) rest) @ [MmHead mm]))))"
  using assms
proof (induction as arbitrary: p)
  case Nil
  then show ?case by (simp add: munmap_scan.simps)
next
  case (Cons a as)
  have p: "nxt (mm_links s) p = Vma a" and path: "lpath (mm_links s) (Vma a) (map Vma as) (MmHead mm)"
    using Cons.prems(1) by simp_all
  note step = munmap_scan.simps [of "MmHead mm" "Vma a" p "from" to s]
  show ?case
  proof (cases "vma_end (vma_at s a) \<le> from")
    case True
    have "munmap_scan (MmHead mm) (nxt (mm_links s) (Vma a)) (Vma a) from to s =
        munmap_scan (MmHead mm) (nxt (mm_links s) p) p from to s"
      unfolding p step using True by (simp add: node_vma_def Let_def)
    then show ?thesis using Cons.IH [OF path] Cons.prems(2,3) True by (simp add: Let_def)
  next
    case False
    have "\<not> vma_end (vma_at s b) \<le> from" if b: "b \<in> set as" for b
    proof -
      have "from < vma_end (vma_at s a)" using False by (simp add: not_le)
      also have "\<dots> \<le> vma_begin (vma_at s b)" using Cons.prems(2) b by simp
      also have "\<dots> < vma_end (vma_at s b)" using Cons.prems(3) b by simp
      finally show ?thesis by (simp add: not_le)
    qed
    then have "\<forall>b\<in>set (a # as). \<not> vma_end (vma_at s b) \<le> from" using False by simp
    from munmap_scan_inside [OF Cons.prems(1) this] show ?thesis using False by (simp add: Let_def)
  qed
qed

lemma free_vmas_ends:
  assumes "lpath (mm_links s) p (map Vma xs) Lst"
  shows "\<exists>s'. free_vmas (nxt (mm_links s) p) s = Some (Inr s') \<and> paging.more s' = paging.more s"
  using assms
proof (induction xs arbitrary: p s)
  case Nil
  then show ?case by (simp add: free_vmas.simps)
next
  case (Cons a xs)
  let ?s = "slab_cache_free vma_slab a s"
  have p: "nxt (mm_links s) p = Vma a" and path: "lpath (mm_links s) (Vma a) (map Vma xs) Lst"
    using Cons.prems by simp_all
  have u: "paging.more ?s = paging.more s" by (rule paging_of_slabs [OF slab_cache_free_more])
  note k = upper_fields [OF u]
  obtain s' where "free_vmas (nxt (mm_links ?s) (Vma a)) ?s = Some (Inr s')" "paging.more s' = paging.more ?s"
    using Cons.IH [of ?s "Vma a"] path k by auto
  moreover have "free_vmas (Vma a) s = free_vmas (nxt (mm_links s) (Vma a)) ?s"
    by (simp add: free_vmas.simps [of "Vma a"] node_vma_def Let_def)
  ultimately show ?case using p u k by simp
qed

subsection \<open>Unmapping\<close>

text \<open>The region list after a middle part was cut out, and the space it stands for.\<close>

lemma remove_regions:
  assumes r: "regions s mm (us @ xs @ vs)" and d: "dlist h (MmHead mm) (map Vma (us @ vs))"
    and k: "mm_links s' = h" "vma_at s' = vma_at s"
    and us: "\<forall>a\<in>set us. vma_end (vma_at s a) \<le> from" and vs: "\<forall>a\<in>set vs. to \<le> vma_begin (vma_at s a)"
    and xs: "\<forall>a\<in>set xs. from \<le> vma_begin (vma_at s a) \<and> vma_end (vma_at s a) \<le> to"
  shows "regions s' mm (us @ vs)"
    and "space s' (us @ vs) = (\<lambda>x. if from \<le> x \<and> x < to then None else space s (us @ xs @ vs) x)"
proof -
  show "regions s' mm (us @ vs)"
    using r d k by (auto simp: regions_def sorted_wrt_append)
  have e: "space s' (us @ vs) = space s (us @ vs)" by (rule space_cong) (simp add: k)
  show "space s' (us @ vs) = (\<lambda>x. if from \<le> x \<and> x < to then None else space s (us @ xs @ vs) x)"
  proof
    fix x
    show "space s' (us @ vs) x = (if from \<le> x \<and> x < to then None else space s (us @ xs @ vs) x)"
    proof (cases "from \<le> x \<and> x < to")
      case True
      have "\<not> covers (vma_at s a) x" if "a \<in> set (us @ vs)" for a
      proof -
        have "vma_end (vma_at s a) \<le> from \<or> to \<le> vma_begin (vma_at s a)" using that us vs by auto
        then show ?thesis
        proof
          assume "vma_end (vma_at s a) \<le> from"
          also have "from \<le> x" using True by simp
          finally show ?thesis by (simp add: covers_def not_less)
        next
          assume "to \<le> vma_begin (vma_at s a)"
          then have "x < vma_begin (vma_at s a)" using conjunct2 [OF True] by (rule less_le_trans [rotated])
          then show ?thesis by (simp add: covers_def not_le)
        qed
      qed
      then have "space s (us @ vs) x = None" unfolding space_none_iff by blast
      then show ?thesis using True e by simp
    next
      case False
      have "\<not> covers (vma_at s a) x" if "a \<in> set xs" for a
      proof
        assume "covers (vma_at s a) x"
        then have "vma_begin (vma_at s a) \<le> x" "x < vma_end (vma_at s a)" by (simp_all add: covers_def)
        moreover have "from \<le> vma_begin (vma_at s a)" "vma_end (vma_at s a) \<le> to" using xs that by simp_all
        ultimately have "from \<le> x" "x < to" by (auto intro: order_trans less_le_trans)
        then have "from \<le> x \<and> x < to" by blast
        then show False using False by blast
      qed
      then have "space s xs x = None" unfolding space_none_iff by blast
      then have "space s (us @ xs @ vs) x = space s (us @ vs) x"
        using space_append [of s us "xs @ vs" x] space_append [of s xs vs x] space_append [of s us vs x]
        by (simp split: option.splits)
      then show ?thesis unfolding if_not_P [OF False] e by simp
    qed
  qed
qed

lemma gap_bounds_ok:
  assumes "prev \<noteq> Lst" and "next \<noteq> Lst" and "prev = head \<or> (\<exists>a. prev = Vma a)" and "next = head \<or> (\<exists>a. next = Vma a)"
  shows "\<exists>b e. gap_bounds head prev next s = Inr (b, e)"
  using assms by (auto simp: gap_bounds_def node_vma_def)

text \<open>The regions that meet the range, and those behind it.\<close>

abbreviation in_range :: "'a mms_scheme \<Rightarrow> u64 \<Rightarrow> u64 \<Rightarrow> u64 list \<Rightarrow> u64 list" where
  "in_range s from to as \<equiv> takeWhile (in_front s to) (after_range s from as)"

abbreviation past_range :: "'a mms_scheme \<Rightarrow> u64 \<Rightarrow> u64 \<Rightarrow> u64 list \<Rightarrow> u64 list" where
  "past_range s from to as \<equiv> dropWhile (in_front s to) (after_range s from as)"

lemma range_parts:
  assumes r: "regions s mm as" and lt: "from < to"
  shows "as = before_range s from as @ in_range s from to as @ past_range s from to as"
    and "\<forall>a\<in>set (before_range s from as). vma_end (vma_at s a) \<le> from"
    and "\<forall>a\<in>set (in_range s from to as). from < vma_end (vma_at s a) \<and> vma_begin (vma_at s a) < to"
    and "\<forall>a\<in>set (past_range s from to as). to \<le> vma_begin (vma_at s a)"
proof -
  define us where "us = before_range s from as"
  define rest where "rest = after_range s from as"
  define xs where "xs = takeWhile (in_front s to) rest"
  define vs where "vs = dropWhile (in_front s to) rest"
  have rs: "rest = xs @ vs" by (simp add: xs_def vs_def)
  have as: "as = us @ xs @ vs" by (simp add: us_def rest_def xs_def vs_def)
  have so: "sorted_wrt (\<lambda>a b. vma_end (vma_at s a) \<le> vma_begin (vma_at s b)) rest"
    and ne: "\<forall>a\<in>set rest. vma_begin (vma_at s a) < vma_end (vma_at s a)"
    using r unfolding regions_def as rs by (simp_all add: sorted_wrt_append)
  have xse: "from < vma_end (vma_at s t)" if t: "t \<in> set rest" for t
  proof (cases rest)
    case Nil
    then show ?thesis using t by simp
  next
    case (Cons a ts)
    have a: "from < vma_end (vma_at s a)"
      using hd_dropWhile [of "\<lambda>a. vma_end (vma_at s a) \<le> from" as] Cons unfolding rest_def by (simp add: not_le)
    show ?thesis
    proof (cases "t = a")
      case False
      note a
      also have "vma_end (vma_at s a) \<le> vma_begin (vma_at s t)" using so Cons t False by simp
      also have "\<dots> < vma_end (vma_at s t)" using ne t by blast
      finally show ?thesis .
    qed (use a in simp)
  qed
  have vsf: "to \<le> vma_begin (vma_at s w)" if w: "w \<in> set vs" for w
  proof (cases vs)
    case Nil
    then show ?thesis using w by simp
  next
    case (Cons v ws)
    have v: "to \<le> vma_begin (vma_at s v)" using hd_dropWhile [of "in_front s to" rest] Cons unfolding vs_def by simp
    show ?thesis
    proof (cases "w = v")
      case False
      note v
      also have "vma_begin (vma_at s v) \<le> vma_end (vma_at s v)" by (rule less_imp_le) (use ne rs Cons in simp)
      also have "\<dots> \<le> vma_begin (vma_at s w)" using so rs Cons w False by (simp add: sorted_wrt_append)
      finally show ?thesis .
    qed (use v in simp)
  qed
  show "as = before_range s from as @ in_range s from to as @ past_range s from to as" by simp
  show "\<forall>a\<in>set (before_range s from as). vma_end (vma_at s a) \<le> from" by (auto dest: set_takeWhileD)
  have "\<forall>a\<in>set xs. from < vma_end (vma_at s a) \<and> vma_begin (vma_at s a) < to"
    using xse rs unfolding xs_def by (auto dest: set_takeWhileD simp: not_le)
  then show "\<forall>a\<in>set (in_range s from to as). from < vma_end (vma_at s a) \<and> vma_begin (vma_at s a) < to"
    unfolding xs_def rest_def .
  show "\<forall>a\<in>set (past_range s from to as). to \<le> vma_begin (vma_at s a)"
    using vsf unfolding vs_def rest_def by blast
qed

lemma stuck_iff:
  assumes "regions s mm as" and "from < to"
  shows "(\<exists>a\<in>set as. meets from to (vma_at s a) \<and> sticks_out from to (vma_at s a)) \<longleftrightarrow>
    (\<exists>a\<in>set (in_range s from to as). sticks_out from to (vma_at s a))"
proof -
  note p = range_parts [OF assms]
  have "a \<in> set (in_range s from to as) \<longleftrightarrow> a \<in> set as \<and> meets from to (vma_at s a)" for a
  proof
    assume a: "a \<in> set (in_range s from to as)"
    then have "a \<in> set as" by (auto dest: set_takeWhileD set_dropWhileD)
    then show "a \<in> set as \<and> meets from to (vma_at s a)" using p(3) a by (simp add: meets_def)
  next
    assume a: "a \<in> set as \<and> meets from to (vma_at s a)"
    have "\<not> vma_end (vma_at s a) \<le> from" "\<not> to \<le> vma_begin (vma_at s a)" using a by (auto simp: meets_def)
    then have "a \<notin> set (before_range s from as)" "a \<notin> set (past_range s from to as)" using p(2,4) by blast+
    moreover have "set as = set (before_range s from as) \<union> (set (in_range s from to as) \<union> set (past_range s from to as))"
      using arg_cong [OF p(1), of set] by (simp only: set_append)
    ultimately show "a \<in> set (in_range s from to as)" using a by blast
  qed
  then show ?thesis by blast
qed

text \<open>What \<open>munmap\<close> does: it moves the regions to a list of its own, frees them and unmaps the gap.\<close>

lemma munmap_run:
  assumes r: "regions s mm as" and lt: "from < to"
  defines "us \<equiv> before_range s from as" and "xs \<equiv> in_range s from to as" and "vs \<equiv> past_range s from to as"
  assumes inside: "\<not> (\<exists>a\<in>set xs. sticks_out from to (vma_at s a))"
  shows "\<exists>h. dlist h (MmHead mm) (map Vma (us @ vs)) \<and> dlist h Lst (map Vma xs) \<and>
    (\<forall>x. x \<notin> set (MmHead mm # map Vma as) \<longrightarrow> x \<noteq> Lst \<longrightarrow> nxt h x = nxt (mm_links s) x \<and> prv h x = prv (mm_links s) x) \<and>
    munmap mm from to s = Option.bind (free_vmas (nxt h Lst) (s\<lparr>mm_links := h\<rparr>)) (\<lambda>r. Some (and_then r (\<lambda>s3.
      and_then (gap_bounds (MmHead mm) (last (MmHead mm # map Vma us)) (hd (map Vma vs @ [MmHead mm])) s3) (\<lambda>(b, e).
      and_then (pt_unmap (va (mm_cr3 (mm_at s3 mm))) b (e - b) s3) (\<lambda>s4. Inr (True, s4))))))"
proof -
  let ?head = "MmHead mm"
  have as: "as = us @ xs @ vs" by (simp add: us_def xs_def vs_def)
  have dl: "dlist (mm_links s) ?head (map Vma (us @ xs @ vs))"
    and so: "sorted_wrt (\<lambda>a b. vma_end (vma_at s a) \<le> vma_begin (vma_at s b)) as"
    and ne: "\<forall>a\<in>set as. vma_begin (vma_at s a) < vma_end (vma_at s a)"
    using r unfolding regions_def as [symmetric] by simp_all
  have path: "lpath (mm_links s) ?head (map Vma as) ?head" using dl unfolding as dlist_def by simp
  define prev where "prev = last (?head # map Vma us)"
  define nx where "nx = hd (map Vma vs @ [?head])"
  have scan: "munmap_scan ?head (nxt (mm_links s) ?head) ?head from to s = Some (Inr (Some (prev, nx)))"
    using munmap_scan_finds [OF path so ne, of "from" to] inside
    unfolding us_def xs_def vs_def prev_def nx_def Let_def by simp
  let ?s1 = "upd_mm_links (list_init Lst) s"
  let ?h = "mm_links ?s1"
  define h2 where "h2 = (if nxt ?h prev \<noteq> nx then list_link prev nx (do_list_splice (nxt ?h prev) (prv ?h nx) Lst ?h) else ?h)"
  have h: "?h = list_init Lst (mm_links s)" by (simp add: upd_mm_links_def)
  have d1: "dlist ?h ?head (map Vma us @ map Vma xs @ map Vma vs)"
  proof -
    have "dlist ?h ?head (map Vma us @ map Vma xs @ map Vma vs) \<longleftrightarrow>
        dlist (mm_links s) ?head (map Vma us @ map Vma xs @ map Vma vs)"
      by (rule dlist_cong) (auto simp: h list_init_next list_init_prev)
    then show ?thesis using dl by simp
  qed
  have dL: "dlist ?h Lst []" by (simp add: h dlist_init)
  have ends: "nxt ?h prev = hd (map Vma xs @ [nx])"
  proof -
    have "lpath ?h ?head (map Vma us @ map Vma xs @ map Vma vs) ?head" using d1 by (simp only: dlist_def)
    from lpath_first [OF lpath_cut(2) [OF this, folded prev_def]]
    have "nxt ?h prev = hd ((map Vma xs @ map Vma vs) @ [?head])" .
    also have "\<dots> = hd (map Vma xs @ [nx])" unfolding nx_def by (cases xs; cases vs) simp_all
    finally show ?thesis .
  qed
  have cut: "dlist h2 ?head (map Vma (us @ vs)) \<and> dlist h2 Lst (map Vma xs) \<and>
    (\<forall>x. x \<notin> set (?head # map Vma as) \<longrightarrow> x \<noteq> Lst \<longrightarrow> nxt h2 x = nxt (mm_links s) x \<and> prv h2 x = prv (mm_links s) x)"
  proof (cases "xs = []")
    case True
    then show ?thesis using ends d1 dL by (simp add: h2_def h list_init_next list_init_prev)
  next
    case xne: False
    have "nxt ?h prev \<noteq> nx"
    proof -
      have "nxt ?h prev = Vma (hd xs)" using ends xne by (cases xs) simp_all
      moreover have "Vma (hd xs) \<noteq> nx"
        using dlist_distinct [OF dl] xne unfolding nx_def by (cases xs; cases vs) auto
      ultimately show ?thesis by simp
    qed
    then have h2: "h2 = list_link prev nx (do_list_splice (nxt ?h prev) (prv ?h nx) Lst ?h)" by (simp add: h2_def)
    have xm: "map Vma xs \<noteq> []" "Lst \<notin> set (?head # map Vma us @ map Vma xs @ map Vma vs)" using xne by auto
    note c = cut_segment [OF d1 xm(1) dL xm(2) prev_def nx_def, folded h2]
    have "nxt h2 x = nxt (mm_links s) x \<and> prv h2 x = prv (mm_links s) x"
      if "x \<notin> set (?head # map Vma as)" "x \<noteq> Lst" for x
      using c(3) [of x] that unfolding as by (simp add: h list_init_next list_init_prev)
    then show ?thesis using c(1,2) by simp
  qed
  have run: "munmap mm from to s = Option.bind (free_vmas (nxt h2 Lst) (s\<lparr>mm_links := h2\<rparr>)) (\<lambda>r. Some (and_then r (\<lambda>s3.
      and_then (gap_bounds ?head prev nx s3) (\<lambda>(b, e).
      and_then (pt_unmap (va (mm_cr3 (mm_at s3 mm))) b (e - b) s3) (\<lambda>s4. Inr (True, s4))))))"
    using scan by (simp add: munmap_def upd_mm_links_def Let_def h2_def)
  show ?thesis using cut run unfolding prev_def nx_def by blast
qed

lemma munmap_cases:
  assumes r: "regions s mm as" and lt: "from < to"
  shows "if \<exists>a\<in>set as. meets from to (vma_at s a) \<and> sticks_out from to (vma_at s a)
    then munmap mm from to s = Some (Inr (False, s))
    else \<exists>r. munmap mm from to s = Some r \<and> (\<forall>ok s'. r = Inr (ok, s') \<longrightarrow> ok \<and>
      (\<exists>bs. regions s' mm bs \<and> space s' bs = (\<lambda>x. if from \<le> x \<and> x < to then None else space s as x)))"
proof -
  note parts = range_parts [OF r lt] and stuck = stuck_iff [OF r lt]
  define us where "us = before_range s from as"
  define xs where "xs = in_range s from to as"
  define vs where "vs = past_range s from to as"
  have as: "as = us @ xs @ vs" using parts(1) unfolding us_def xs_def vs_def .
  show ?thesis
  proof (cases "\<exists>a\<in>set xs. sticks_out from to (vma_at s a)")
    case True
    have path: "lpath (mm_links s) (MmHead mm) (map Vma as) (MmHead mm)"
      "sorted_wrt (\<lambda>a b. vma_end (vma_at s a) \<le> vma_begin (vma_at s b)) as"
      "\<forall>a\<in>set as. vma_begin (vma_at s a) < vma_end (vma_at s a)" using r by (simp_all add: regions_def dlist_def)
    have "munmap mm from to s = Some (Inr (False, s))"
      using munmap_scan_finds [OF path, of "from" to] True by (simp add: munmap_def xs_def Let_def)
    then show ?thesis using stuck True xs_def by simp
  next
    case False
    obtain h where h: "dlist h (MmHead mm) (map Vma (us @ vs))" "dlist h Lst (map Vma xs)"
      and run: "munmap mm from to s = Option.bind (free_vmas (nxt h Lst) (s\<lparr>mm_links := h\<rparr>)) (\<lambda>r. Some (and_then r (\<lambda>s3.
        and_then (gap_bounds (MmHead mm) (last (MmHead mm # map Vma us)) (hd (map Vma vs @ [MmHead mm])) s3) (\<lambda>(b, e).
        and_then (pt_unmap (va (mm_cr3 (mm_at s3 mm))) b (e - b) s3) (\<lambda>s4. Inr (True, s4))))))"
      using munmap_run [OF r lt False [unfolded xs_def]] unfolding us_def xs_def vs_def by blast
    obtain s3 where s3: "free_vmas (nxt h Lst) (s\<lparr>mm_links := h\<rparr>) = Some (Inr s3)"
      "paging.more s3 = paging.more (s\<lparr>mm_links := h\<rparr>)"
      using free_vmas_ends [of "s\<lparr>mm_links := h\<rparr>" Lst xs] h(2) by (auto simp: dlist_def)
    have "last (MmHead mm # map Vma us) = MmHead mm \<or> (\<exists>a. last (MmHead mm # map Vma us) = Vma a)"
      "hd (map Vma vs @ [MmHead mm]) = MmHead mm \<or> (\<exists>a. hd (map Vma vs @ [MmHead mm]) = Vma a)"
      by (cases us rule: rev_cases; simp) (cases vs; simp)
    then obtain b e where gb: "gap_bounds (MmHead mm) (last (MmHead mm # map Vma us)) (hd (map Vma vs @ [MmHead mm])) s3 = Inr (b, e)"
      using gap_bounds_ok [of "last (MmHead mm # map Vma us)" "hd (map Vma vs @ [MmHead mm])" "MmHead mm" s3] by auto
    let ?um = "pt_unmap (va (mm_cr3 (mm_at s3 mm))) b (e - b) s3"
    have "\<exists>bs. regions s4 mm bs \<and> space s4 bs = (\<lambda>x. if from \<le> x \<and> x < to then None else space s as x)"
      if um: "?um = Inr s4" for s4
    proof -
      have "paging.more s4 = paging.more (s\<lparr>mm_links := h\<rparr>)" using upper.kp_unmap [OF um] s3(2) by simp
      note k4 = upper_fields [OF this]
      have links: "mm_links s4 = h" "vma_at s4 = vma_at s" using k4 by simp_all
      have "\<forall>a\<in>set xs. from \<le> vma_begin (vma_at s a) \<and> vma_end (vma_at s a) \<le> to"
        using False by (auto simp: sticks_out_def not_less)
      moreover have "\<forall>a\<in>set us. vma_end (vma_at s a) \<le> from" "\<forall>a\<in>set vs. to \<le> vma_begin (vma_at s a)"
        using parts(2,4) unfolding us_def vs_def by blast+
      ultimately show ?thesis
        using remove_regions [OF r [unfolded as] h(1) links] unfolding as [symmetric] by blast
    qed
    moreover have "munmap mm from to s = Some (and_then ?um (\<lambda>s4. Inr (True, s4)))" using run s3(1) gb by simp
    ultimately show ?thesis using stuck False xs_def by (auto simp: and_then_eq_Inr)
  qed
qed

subsection \<open>What an address space promises\<close>

text \<open>
  A sample: the allocator of \<open>Buddy_Properties\<close>, an empty cache of regions whose slabs hold one region each,
  and an address space with no region and the tables of the first 2 MB of memory.
\<close>

definition mms_sample :: mms where
  "mms_sample = \<lparr>rflags = 0x202, preempt_count = 0,
     memory = store_u64 (store_u64 (store_u64 (\<lambda>a. 0) (va 0x10000) 0x11007) (va 0x11000) 0x12007) (va 0x12000) 0x13007,
     mmap_begin = 0, mmap_end = 0, initrd_begin = 0, initrd_end = 0, free_ranges = [], all_ranges = [],
     buddy_zones = [sample_zone], slab_links = \<lparr>nxt = id, prv = id\<rparr>,
     slab_meta = (\<lambda>a. \<lparr>slab_page = (0, 0), slab_first = 0, slab_count = 0\<rparr>),
     caches = (\<lambda>c. \<lparr>slab_order = 0, slab_size = 1, obj_size = 40\<rparr>),
     initial_cr3 = 0, cr3 = 0, mm_links = \<lparr>nxt = id, prv = id\<rparr>,
     mm_at = (\<lambda>a. \<lparr>mm_pt = (0, 0), mm_cr3 = 0x10000\<rparr>), vma_at = (\<lambda>a. \<lparr>vma_begin = 0, vma_end = 0, vma_perm = 0\<rparr>)\<rparr>"

lemma mms_sample_ok: "objs mms_sample {vma_slab} sample_used {}"
proof -
  have "buddy_ok mms_sample sample_used = buddy_ok sample sample_used"
    by (simp add: buddy_ok_def buddy_inv_def zero_reserved_def mms_sample_def sample_def)
  moreover have "cache_ok \<lparr>slab_order = 0, slab_size = 1, obj_size = 40\<rparr>" by (simp add: cache_ok_def)
  ultimately have "slabs_inv mms_sample {vma_slab} sample_used (\<lambda>_. []) (\<lambda>_. []) {}"
    using sample_ok
    by (simp add: slabs_inv_def slab_lists_def dlists_def dlist_def phys_small_def layout_def slab_set_def slab_blocks_def)
      (auto simp: mms_sample_def slab_hdr_def)
  then show ?thesis
    unfolding objs_def by (intro exI [of _ "\<lambda>_. []"] conjI) (simp_all add: live_def slab_set_def)
qed

lemma mms_sample_regions: "regions mms_sample mm []"
  by (simp add: regions_def dlist_def mms_sample_def)




text \<open>The sample with one region, from \<open>0x1000\<close> to \<open>0x3000\<close>.\<close>

definition region_sample :: mms where
  "region_sample = mms_sample\<lparr>
     mm_links := \<lparr>nxt = id(MmHead 0x9000 := Vma 1, Vma 1 := MmHead 0x9000),
       prv = id(MmHead 0x9000 := Vma 1, Vma 1 := MmHead 0x9000)\<rparr>,
     vma_at := (\<lambda>a. \<lparr>vma_begin = 0x1000, vma_end = 0x3000, vma_perm = 1\<rparr>)\<rparr>"

lemma region_sample_regions: "regions region_sample 0x9000 [1]"
  by (simp add: regions_def dlist_def region_sample_def)


subsection \<open>Page flags\<close>

text \<open>
  The page flags of a region do not depend on its write permission: \<open>user_flags\<close> tests the bit of the number
  \<open>VMA_ACCESS_WRITE\<close>, which is the read permission, so every readable region is mapped writable.
\<close>

lemma user_flags_ignore_write:
  "(user_flags perm AND PTE_WRITE \<noteq> 0 \<longleftrightarrow> perm AND VMA_PERM_READ \<noteq> 0) \<and>
   user_flags (perm AND NOT VMA_PERM_WRITE) = user_flags perm \<and> user_flags perm AND (PTE_USER OR PTE_PRESENT) = PTE_USER OR PTE_PRESENT"
proof -
  have k: "VMA_PERM_READ = VMA_ACCESS_WRITE" "(PTE_USER OR PTE_PRESENT) OR PTE_WRITE = 7" "PTE_USER OR PTE_PRESENT = 5" "PTE_WRITE = 2"
    by code_simp+
  then have uf: "user_flags q = (if q AND VMA_PERM_READ \<noteq> 0 then 7 else 5)" for q
    unfolding user_flags_def Let_def by (metis k(1,2,3))
  have wr: "(perm AND NOT VMA_PERM_WRITE) AND VMA_PERM_READ = perm AND VMA_PERM_READ"
    by (simp add: VMA_PERM_WRITE_def VMA_PERM_READ_def and.assoc)
  have same: "user_flags (perm AND NOT VMA_PERM_WRITE) = user_flags perm" by (simp only: uf wr)
  show ?thesis unfolding same unfolding uf k(3,4) by simp
qed

end
