(* ===== verification/Mm_Space.thy ===== *)
theory Mm_Space
  imports Slab_Frame Pt_Properties Mm_Properties
begin

text \<open>
  An address space as a whole: the list of regions, the objects it is made of and the page table.
  \<open>user_in\<close> says that a table and all that its user half holds belong to the blocks \<open>V\<close>, apart from the
  caches; \<open>shown\<close> that the table translates exactly the addresses with a permission; \<open>space_ok\<close> puts
  these together.
\<close>

subsection \<open>Tables among the blocks in use\<close>

lemma objs_low: "objs s C V X \<Longrightarrow> low_zones s"
  by (force simp: objs_def slabs_inv_def phys_small_def low_zones_def layout_def)

lemma objs_bound:
  assumes "objs s C V X" and "(g, k) \<in> V"
  shows "g * 4096 + 2 ^ (12 + k) \<le> 2 ^ 47"
proof -
  obtain B where "slab_store s C B X" "buddy_ok s (V \<union> B)" using assms(1) unfolding objs_store by blast
  moreover have "phys_small s" using assms(1) by (auto simp: objs_def slabs_inv_def)
  ultimately show ?thesis using buddy_block_bound [of s "V \<union> B" g k] assms(2) by blast
qed

lemma page_at_block:
  assumes "t * 4096 + 4096 \<le> 2 ^ 47"
  shows "x \<in> page_at t \<longleftrightarrow> in_block (t, 0) x"
proof -
  have b: "unat (table_addr t) = t * 4096 + KB"
    using unat_block_base [of t] assms by (simp add: table_addr_def block_base_def)
  then show ?thesis using assms span_unat [of "table_addr t" 4096 x] by (simp add: page_at_def in_block_def)
qed

definition user_in :: "mem \<Rightarrow> block set \<Rightarrow> nat \<Rightarrow> bool" where
  "user_in m V f \<longleftrightarrow> f < 2 ^ 52 \<and> f \<noteq> 0 \<and> separate m 4 f \<and> (\<forall>t\<in>tables m 4 f. (t, 0) \<in> V) \<and>
     owns V (user_held m f) \<and> (\<forall>t\<in>kernel_tables m f. (t, 0) \<notin># user_held m f)"

lemma user_inD:
  assumes "user_in m V f"
  shows "f < 2 ^ 52" and "f \<noteq> 0" and "separate m 4 f" and "t \<in> tables m 4 f \<Longrightarrow> (t, 0) \<in> V" and "owns V (user_held m f)"
    and "t \<in> kernel_tables m f \<Longrightarrow> (t, 0) \<notin># user_held m f"
  using assms unfolding user_in_def by blast+

lemma owns_mono:
  assumes "owns V M" and "V \<subseteq> U"
  shows "owns U M"
proof -
  have "count M x \<le> (if x \<in> U then 1 else 0)" for x
    using ownsD [OF assms(1), of x] assms(2) by (auto split: if_splits)
  then show ?thesis using owns_nonzero [OF assms(1)] unfolding owns_def by blast
qed

lemma user_in_ok:
  assumes "user_in (memory s) V f" and "buddy_ok s (V \<union> B)" and "low_zones s"
  shows "user_ok s (V \<union> B) f"
proof -
  note u = user_inD [OF assms(1)]
  have "owns (V \<union> B) (user_held (memory s) f)" using u(5) by (rule owns_mono) blast
  then show ?thesis using u(1-4,6) assms(2,3) unfolding user_ok_def tree_ok_def by blast
qed

text \<open>Memory outside the tables has no influence on what the table holds.\<close>

lemma half_cong:
  assumes "agree m m' (tables m 4 f)"
  shows "user_held m' f = user_held m f \<and> kernel_tables m' f = kernel_tables m f"
proof -
  have t: "tables m 4 f = insert f (\<Union>i\<in>{i. points m 3 f i}. tables m 3 (child m f i))" by (rule tables_4)
  have e: "entry m' f i = entry m f i" if "i < 512" for i
    by (rule entry_cong [OF assms _ that]) (simp add: t)
  have k: "slot m' 3 f i = slot m 3 f i \<and> below m' 3 f i = below m 3 f i" if i: "i < 512" for i
  proof (cases "points m 3 f i")
    case True
    have "agree m m' (tables m 3 (child m f i))" by (rule agree_mono [OF assms]) (use True t in blast)
    from tree_cong [OF this] show ?thesis
      using True e [OF i] by (simp add: slot_def below_def points_def child_def Let_def)
  next
    case False
    then show ?thesis using e [OF i] i by (auto simp: slot_def below_def points_def Let_def)
  qed
  then show ?thesis by (simp add: user_held_def kernel_tables_def)
qed

lemma user_in_cong:
  assumes "agree m m' (tables m 4 f)" and "V \<subseteq> V'" and "user_in m V f"
  shows "user_in m' V' f"
proof -
  note u = user_inD [OF assms(3)]
  have "owns V' (user_held m f)" using u(5) assms(2) by (rule owns_mono)
  then show ?thesis using tree_cong [OF assms(1)] half_cong [OF assms(1)] u assms(2) unfolding user_in_def by auto
qed

lemma kept_agree:
  assumes o: "objs s C V X" and k: "others_kept V s s'" and T: "\<And>t. t \<in> T \<Longrightarrow> (t, 0) \<in> V"
  shows "agree (memory s) (memory s') T"
  unfolding agree_def
proof (intro ballI)
  fix t a assume t: "t \<in> T" and a: "a \<in> page_at t"
  have "t * 4096 + 4096 \<le> 2 ^ 47" using objs_bound [OF o T [OF t]] by simp
  then have "in_block (t, 0) a" using a page_at_block by blast
  then show "memory s' a = memory s a" using k T [OF t] unfolding others_kept_def by blast
qed

text \<open>
  The blocks that belong to the process alone: the root of its table and what the user half holds.
  The tables of the user half are among them.
\<close>

definition mine :: "mem \<Rightarrow> nat \<Rightarrow> block set" where
  "mine m f = insert (f, 0) (set_mset (user_held m f))"

lemma below_held: "t \<in> below m l f i \<Longrightarrow> (t, 0) \<in># slot m l f i"
proof (induction l arbitrary: f i)
  case 0
  then show ?case by (simp add: below_def points_def final_def)
next
  case (Suc l)
  then have p: "points m (Suc l) f i" and t: "t \<in> tables m (Suc l) (child m f i)" by (auto simp: below_def split: if_splits)
  show ?case
  proof (cases "t = child m f i")
    case False
    then obtain j where j: "points m l (child m f i) j" "t \<in> tables m l (child m (child m f i) j)" using t by auto
    then have "(t, 0) \<in># slot m l (child m f i) j" by (intro Suc.IH) (simp add: below_def)
    moreover have "j < 512" using j(1) by (simp add: points_def)
    ultimately have "(t, 0) \<in># held m (Suc l) (child m f i)" unfolding held_Suc by (auto simp: set_mset_sum)
    then show ?thesis using slot_points [OF p] by simp
  qed (simp add: slot_points [OF p])
qed

lemma user_tables_mine: "t \<in> tables m 4 f \<Longrightarrow> t \<notin> kernel_tables m f \<Longrightarrow> (t, 0) \<in> mine m f"
proof -
  assume t: "t \<in> tables m 4 f" and k: "t \<notin> kernel_tables m f"
  then obtain i where i: "points m 3 f i" "t \<in> tables m 3 (child m f i)" unfolding tables_4 kernel_tables_def by auto
  then have b: "t \<in> below m 3 f i" "i < 512" by (simp_all add: below_def points_def)
  then have "i < 256" using k unfolding kernel_tables_def by (cases "i < 256") auto
  moreover have "(t, 0) \<in># slot m 3 f i" by (rule below_held [OF b(1)])
  ultimately show "(t, 0) \<in> mine m f" unfolding mine_def user_held_def by (auto simp: set_mset_sum)
qed

subsection \<open>Page tables beside object caches\<close>

lemma tables_new:
  assumes g: "grown 4 f b R s U s' U'" and ok: "user_in (memory s) V f" and U: "U = V \<union> B" "U' = U \<union> N"
    and t: "t \<in> tables (memory s') 4 f"
  shows "(t, 0) \<in> V \<union> N"
proof (cases "t \<in> tables (memory s) 4 f")
  case True
  then show ?thesis using user_inD(4) [OF ok] by blast
next
  case False
  have "t \<notin> \<Union> (pages_of ` U)" by (rule grownD(4) [OF g t False])
  moreover have "t \<in> pages_of (t, 0)" by simp
  ultimately have "(t, 0) \<notin> U" by blast
  moreover have "(t, 0) \<in> U'" using tree_okD(5) [OF grownD(1) [OF g] t] .
  ultimately show ?thesis using U by blast
qed

lemma pt_frame_fields:
  assumes "pt_frame s s'"
  shows "slab_links s' = slab_links s" and "slab_meta s' = slab_meta s" and "caches s' = caches s"
    and "initial_cr3 s' = initial_cr3 s" and "paging.more s' = paging.more s"
proof -
  obtain z m where "s' = s\<lparr>buddy_zones := z, memory := m\<rparr>" using assms unfolding pt_frame_def by blast
  then show "slab_links s' = slab_links s" "slab_meta s' = slab_meta s" "caches s' = caches s"
    "initial_cr3 s' = initial_cr3 s" "paging.more s' = paging.more s" by simp_all
qed

text \<open>A table that grows leaves the caches alone.\<close>

lemma grown_objs:
  assumes st: "slab_store s C B X" and d: "V \<inter> B = {}" and u: "user_in (memory s) V f"
    and g: "grown 4 f 0 R s (V \<union> B) s' U'" and R: "\<And>x. x \<in> R \<Longrightarrow> unat x < 2 ^ 47"
    and lay: "layout s' = layout s" and n: "U' = V \<union> B \<union> N" "(V \<union> B) \<inter> N = {}"
    and uok: "user_ok s' U' f" and held: "user_held (memory s') f = user_held (memory s) f + mset_set N" "finite N" "\<forall>k. (0, k) \<notin> N"
    and kt: "agree (memory s) (memory s') (kernel_tables (memory s) f - {f})"
  shows "objs s' C (V \<union> N) X" and "user_in (memory s') (V \<union> N) f" and "others_kept (V - mine (memory s) f) s s'"
proof -
  note gd = grownD [OF g] and o = user_okD [OF uok]
  have bok: "buddy_ok s' U'" by (rule tree_okD(1) [OF o(1)])
  have tab: "(t, 0) \<in> V \<union> N" if "t \<in> tables (memory s') 4 f" for t
    by (rule tables_new [OF g u refl n(1) that])
  have ps: "phys_small s'" using st lay by (auto simp: slab_store_def phys_small_def)
  have at: "in_block (t, 0) x" if "t \<in> tables (memory s') 4 f" "x \<in> page_at t" for t x
  proof -
    have "(t, 0) \<in> U'" using tab [OF that(1)] n by blast
    then have "t * 4096 + 4096 \<le> 2 ^ 47" using buddy_block_bound [OF bok ps] by fastforce
    then show ?thesis using that(2) page_at_block by blast
  qed
  have "slab_store s' C B X"
  proof (rule slab_store_cong [OF st lay])
    fix b x assume b: "b \<in> B" "in_block b x"
    have "x \<notin> page_at t" if t: "t \<in> tables (memory s') 4 f" for t
    proof
      assume x: "x \<in> page_at t"
      have tU: "(t, 0) \<in> U'" "b \<in> U'" "(t, 0) \<noteq> b" using tab [OF t] b(1) d n by blast+
      show False using used_apart [OF bok tU at [OF t x]] b(2) by blast
    qed
    then show "memory s' x = memory s x" by (intro gd(5)) blast
  qed (rule pt_frame_fields [OF gd(7)])+
  moreover have "V \<union> N \<union> B = U'" "(V \<union> N) \<inter> B = {}" using n d by blast+
  ultimately show "objs s' C (V \<union> N) X" unfolding objs_store using bok by metis
  have "owns (V \<union> N) (user_held (memory s') f)"
    by (rule owns_gained [OF user_inD(5) [OF u]]) (use held n(2) in \<open>auto simp: gained_def intro!: exI [of _ N]\<close>)
  then show "user_in (memory s') (V \<union> N) f"
    using user_inD(1,2) [OF u] tree_okD(4) [OF o(1)] o(3) tab unfolding user_in_def by blast
  have "memory s' x = memory s x" if b: "b \<in> V" "b \<notin> mine (memory s) f" "in_block b x" for b x
  proof (rule ccontr)
    assume ne: "memory s' x \<noteq> memory s x"
    then obtain t where t: "t \<in> tables (memory s') 4 f" "x \<in> page_at t" using gd(5) by blast
    have "b \<noteq> (t, 0)"
    proof
      assume bt: "b = (t, 0)"
      then have tf: "t \<noteq> f" using b(2) by (auto simp: mine_def)
      have "t \<in> tables (memory s) 4 f"
      proof (rule ccontr)
        assume "t \<notin> tables (memory s) 4 f"
        then have "t \<notin> \<Union> (pages_of ` (V \<union> B))" by (rule gd(4) [OF t(1)])
        moreover have "t \<in> pages_of b" by (simp add: bt)
        ultimately show False using b(1) by blast
      qed
      then have "t \<in> kernel_tables (memory s) f" using user_tables_mine b(2) bt by blast
      then show False using kt ne t(2) tf unfolding agree_def by blast
    qed
    moreover have "b \<in> U'" "(t, 0) \<in> U'" using b(1) tab [OF t(1)] n by blast+
    ultimately show False using used_apart [OF bok _ _ _ at [OF t]] b(3) by blast
  qed
  then show "others_kept (V - mine (memory s) f) s s'" using lay unfolding others_kept_def by blast
qed

lemma pt_map_objs:
  assumes o: "objs s C V X" and u: "user_in (memory s) V f" and sz: "0 < unat sz" "unat v + unat sz \<le> unat user_end"
    and un: "unmapped (memory s) 4 f (touched (unat v) (unat sz))" and fl: "leaf_flags flags"
    and run: "pt_map (table_addr f) v sz flags s = Inr (True, s')"
  defines "R \<equiv> touched (unat v) (unat sz)"
  obtains N where "objs s' C (V \<union> N) X" and "user_in (memory s') (V \<union> N) f"
    and "V \<inter> N = {}" and "finite N" and "user_held (memory s') f = user_held (memory s) f + mset_set N"
    and "\<And>x. x \<in> R \<Longrightarrow> \<exists>p. resolve (memory s') 4 f x = Some (p, perms flags) \<and>
          fresh_byte x p V N (tables (memory s') 4 f)"
    and "inj_on (resolve (memory s') 4 f) R"
    and "\<And>x. unat x < 2 ^ 48 \<Longrightarrow> x \<notin> R \<Longrightarrow> resolve (memory s') 4 f x = resolve (memory s) 4 f x"
    and "\<And>t. t \<in> tables (memory s') 4 f \<Longrightarrow> t \<notin> tables (memory s) 4 f \<Longrightarrow> t \<notin> \<Union> (pages_of ` V)"
    and "others_kept (V - mine (memory s) f) s s'" and "kernel_tables (memory s') f = kernel_tables (memory s) f"
    and "pt_frame s s'"
proof -
  obtain B where B: "slab_store s C B X" "buddy_ok s (V \<union> B)" "V \<inter> B = {}" using o unfolding objs_store by blast
  have uok: "user_ok s (V \<union> B) f" by (rule user_in_ok [OF u B(2) objs_low [OF o]])
  obtain U' where g: "grown 4 f 0 R s (V \<union> B) s' U'" and b: "backed 4 f R (perms flags) (V \<union> B) s' U'"
    using pt_map_user_post [OF uok sz un fl] unfolding run map_post_def R_def by auto
  have low: "unat x < 2 ^ 47" if "x \<in> R" for x using touched_user [OF sz] that unfolding R_def by blast
  note ug = user_grown [OF uok g low]
  obtain N where n: "finite N" "U' = V \<union> B \<union> N" "(V \<union> B) \<inter> N = {}" "\<forall>k. (0, k) \<notin> N"
    "user_held (memory s') f = user_held (memory s) f + mset_set N"
    using ug(2) unfolding gained_def by blast
  have lay: "layout s' = layout s" by (rule bounds.kp_map [OF run])
  note go = grown_objs [OF B(1,3) u g low lay n(2,3) ug(1) n(5,1,4) ug(4)]
  have fresh: "\<exists>p. resolve (memory s') 4 f x = Some (p, perms flags) \<and>
      fresh_byte x p V N (tables (memory s') 4 f)" if x: "x \<in> R" for x
  proof -
    obtain p where p: "resolve (memory s') 4 f x = Some (p, perms flags)"
      and q: "fresh_byte x p (V \<union> B) U' (tables (memory s') 4 f)" using backedD(1) [OF b x] by blast
    have "frame p \<in> \<Union> (pages_of ` N)" using q n(2) unfolding fresh_byte_def by blast
    then have "fresh_byte x p V N (tables (memory s') 4 f)" using q unfolding fresh_byte_def by blast
    then show ?thesis using p by blast
  qed
  have new: "t \<notin> \<Union> (pages_of ` V)" if "t \<in> tables (memory s') 4 f" "t \<notin> tables (memory s) 4 f" for t
    using grownD(4) [OF g that] by blast
  have VN: "V \<inter> N = {}" using n(3) by blast
  show thesis
    by (rule that [OF go(1,2) VN n(1,5) fresh backedD(2) [OF b] _ new go(3) ug(3) grownD(7) [OF g]]) (simp_all add: grownD(6) [OF g] top_region)
qed

subsection \<open>The table shows the regions\<close>

text \<open>
  The user half of the table in frame \<open>f\<close> translates exactly the addresses with a permission, each to
  a byte of its own in memory that the process holds.
\<close>

definition shown_at :: "mem \<Rightarrow> nat \<Rightarrow> u32 option \<Rightarrow> u64 \<Rightarrow> bool" where
  "shown_at m f perm x \<longleftrightarrow> (case perm of
       None \<Rightarrow> resolve m 4 f x = None
     | Some q \<Rightarrow> \<exists>p. resolve m 4 f x = Some (p, perms (user_flags q)) \<and>
         fresh_byte x p {} (set_mset (user_held m f)) (tables m 4 f))"

definition shown :: "mem \<Rightarrow> nat \<Rightarrow> (u64 \<Rightarrow> u32 option) \<Rightarrow> bool" where
  "shown m f sp \<longleftrightarrow> (\<forall>x. unat x < 2 ^ 47 \<longrightarrow> shown_at m f (sp x) x) \<and>
     inj_on (pt_addr m (table_addr f)) {x. unat x < 2 ^ 47 \<and> sp x \<noteq> None}"

lemma shown_atD: "shown m f sp \<Longrightarrow> unat x < 2 ^ 47 \<Longrightarrow> shown_at m f (sp x) x"
  unfolding shown_def by (elim conjE allE impE)

lemma shown_none: "shown m f sp \<Longrightarrow> unat x < 2 ^ 47 \<Longrightarrow> sp x = None \<Longrightarrow> resolve m 4 f x = None"
  using shown_atD [of m f sp x] by (simp add: shown_at_def)

lemma shown_some:
  assumes "shown m f sp" and "unat x < 2 ^ 47" and "sp x = Some q"
  shows "resolve m 4 f x = Some (pt_addr m (table_addr f) x, perms (user_flags q))"
    and "fresh_byte x (pt_addr m (table_addr f) x) {} (set_mset (user_held m f)) (tables m 4 f)"
proof -
  obtain p where p: "resolve m 4 f x = Some (p, perms (user_flags q))"
    "fresh_byte x p {} (set_mset (user_held m f)) (tables m 4 f)"
    using shown_atD [OF assms(1,2)] unfolding shown_at_def assms(3) option.case by (elim exE conjE)
  have "pt_addr m (table_addr f) x = p" using p(1) by (simp add: pt_addr_resolve)
  then show "resolve m 4 f x = Some (pt_addr m (table_addr f) x, perms (user_flags q))"
    "fresh_byte x (pt_addr m (table_addr f) x) {} (set_mset (user_held m f)) (tables m 4 f)" using p by simp_all
qed

lemma shown_cong:
  assumes "agree m m' (tables m 4 f)" and "shown m f sp"
  shows "shown m' f sp"
proof -
  have r: "resolve m' 4 f = resolve m 4 f" "tables m' 4 f = tables m 4 f" using tree_cong [OF assms(1)] by simp_all
  then have "pt_addr m' (table_addr f) = pt_addr m (table_addr f)" by (simp add: fun_eq_iff pt_addr_resolve)
  moreover have "shown_at m' f q x = shown_at m f q x" for q x
    unfolding shown_at_def r half_cong [OF assms(1), THEN conjunct1] by (rule refl)
  ultimately show ?thesis using assms(2) unfolding shown_def by simp
qed

lemma leaf_user_flags: "leaf_flags (user_flags q)"
  by (simp add: leaf_flags_def user_flags_def Let_def present_def PTE_PHYS_MASK_def PTE_LARGE_def PTE_PRESENT_def
      PTE_USER_def PTE_WRITE_def)

text \<open>A new region is shown after \<open>pt_map\<close>.\<close>

lemma shown_map:
  assumes sh: "shown m f sp" and held: "user_held m' f = user_held m f + mset_set N" "finite N"
    and V: "set_mset (user_held m f) \<subseteq> V"
    and new: "\<And>x. x \<in> R \<Longrightarrow> \<exists>p. resolve m' 4 f x = Some (p, perms (user_flags q)) \<and> fresh_byte x p V N (tables m' 4 f)"
    and inj: "inj_on (resolve m' 4 f) R"
    and old: "\<And>x. unat x < 2 ^ 47 \<Longrightarrow> x \<notin> R \<Longrightarrow> resolve m' 4 f x = resolve m 4 f x"
    and tab: "\<And>t. t \<in> tables m' 4 f \<Longrightarrow> t \<notin> tables m 4 f \<Longrightarrow> t \<notin> \<Union> (pages_of ` V)"
  shows "shown m' f (\<lambda>x. if x \<in> R then Some q else sp x)"
proof -
  let ?a = "pt_addr m (table_addr f)" and ?a' = "pt_addr m' (table_addr f)"
  let ?H = "set_mset (user_held m f)" and ?H' = "set_mset (user_held m' f)"
  have H: "?H' = ?H \<union> N" using held by simp
  have keep: "?a' x = ?a x" "resolve m' 4 f x = resolve m 4 f x" if "unat x < 2 ^ 47" "x \<notin> R" for x
    using old [OF that] by (simp_all add: pt_addr_resolve)
  have here: "resolve m' 4 f x = Some (?a' x, perms (user_flags q))" "fresh_byte x (?a' x) V N (tables m' 4 f)"
    if x: "x \<in> R" for x
  proof -
    obtain p where p: "resolve m' 4 f x = Some (p, perms (user_flags q))" "fresh_byte x p V N (tables m' 4 f)"
      using new [OF x] by blast
    then have "?a' x = p" by (simp add: pt_addr_resolve)
    then show "resolve m' 4 f x = Some (?a' x, perms (user_flags q))" "fresh_byte x (?a' x) V N (tables m' 4 f)"
      using p by (simp_all only:)
  qed
  have there: "fresh_byte x (?a x) {} ?H' (tables m' 4 f)" if x: "unat x < 2 ^ 47" "sp x = Some r" for x r
  proof -
    note b = shown_some(2) [OF sh x]
    have "frame (?a x) \<in> \<Union> (pages_of ` V)" using b V unfolding fresh_byte_def by blast
    then have "frame (?a x) \<notin> tables m' 4 f" using tab b unfolding fresh_byte_def by blast
    then show ?thesis using b H unfolding fresh_byte_def by blast
  qed
  have one: "shown_at m' f (if x \<in> R then Some q else sp x) x" if x: "unat x < 2 ^ 47" for x
  proof (cases "x \<in> R")
    case True
    have "fresh_byte x (?a' x) {} ?H' (tables m' 4 f)"
      using here(2) [OF True] H unfolding fresh_byte_def by blast
    then show ?thesis using True here(1) [OF True] by (simp add: shown_at_def)
  next
    case False
    show ?thesis
    proof (cases "sp x")
      case None
      then show ?thesis using False keep(2) [OF x False] shown_none [OF sh x None] by (simp add: shown_at_def)
    next
      case (Some r)
      then show ?thesis using False keep(2) [OF x False] shown_some(1) [OF sh x Some] there [OF x Some]
        by (simp add: shown_at_def)
    qed
  qed
  have "inj_on ?a' (R \<union> {x. unat x < 2 ^ 47 \<and> sp x \<noteq> None \<and> x \<notin> R})"
  proof (rule inj_on_Un_apart)
    show "inj_on ?a' R"
    proof (rule inj_onI)
      fix x y assume xy: "x \<in> R" "y \<in> R" "?a' x = ?a' y"
      then have "resolve m' 4 f x = resolve m' 4 f y" using here(1) by simp
      then show "x = y" using inj xy by (auto dest: inj_onD)
    qed
    have "inj_on ?a {x. unat x < 2 ^ 47 \<and> sp x \<noteq> None \<and> x \<notin> R}"
      by (rule inj_on_subset [of ?a "{x. unat x < 2 ^ 47 \<and> sp x \<noteq> None}"]) (use sh in \<open>auto simp: shown_def\<close>)
    then show "inj_on ?a' {x. unat x < 2 ^ 47 \<and> sp x \<noteq> None \<and> x \<notin> R}"
      by (rule inj_on_cong [THEN iffD1, rotated]) (simp add: keep(1))
    fix x y assume x: "x \<in> R" and y: "y \<in> {x. unat x < 2 ^ 47 \<and> sp x \<noteq> None \<and> x \<notin> R}"
    obtain r where r: "sp y = Some r" using y by auto
    have "frame (?a y) \<in> \<Union> (pages_of ` V)" using shown_some(2) [OF sh _ r] y V unfolding fresh_byte_def by blast
    moreover have "frame (?a' x) \<notin> \<Union> (pages_of ` V)" using here(2) [OF x] unfolding fresh_byte_def by blast
    ultimately show "?a' x \<noteq> ?a' y" using keep(1) [of y] y by auto
  qed
  moreover have "{x. unat x < 2 ^ 47 \<and> (if x \<in> R then Some q else sp x) \<noteq> None} \<subseteq>
      R \<union> {x. unat x < 2 ^ 47 \<and> sp x \<noteq> None \<and> x \<notin> R}" by auto
  ultimately have "inj_on ?a' {x. unat x < 2 ^ 47 \<and> (if x \<in> R then Some q else sp x) \<noteq> None}"
    by (rule inj_on_subset)
  then show ?thesis using one unfolding shown_def by blast
qed

subsection \<open>The invariant of an address space\<close>

definition paged :: "'a mms_scheme \<Rightarrow> u64 list \<Rightarrow> bool" where
  "paged s as \<longleftrightarrow> (\<forall>a\<in>set as. 4096 dvd unat (vma_begin (vma_at s a)) \<and> 4096 dvd unat (vma_end (vma_at s a)) \<and>
     vma_end (vma_at s a) \<le> user_end)"

text \<open>The frame of the process's page table.\<close>

definition mm_frame :: "'a mms_scheme \<Rightarrow> u64 \<Rightarrow> nat" where
  "mm_frame s mm = frame (mm_cr3 (mm_at s mm))"

definition space_ok ::
    "'a mms_scheme \<Rightarrow> nat set \<Rightarrow> block set \<Rightarrow> (nat \<times> u64) set \<Rightarrow> u64 \<Rightarrow> u64 list \<Rightarrow> bool" where
  "space_ok s C V X mm as \<longleftrightarrow> objs s C V X \<and> regions s mm as \<and> paged s as \<and>
     (mm_slab, mm) \<in> X \<and> (\<forall>a\<in>set as. (vma_slab, a) \<in> X) \<and>
     mm_cr3 (mm_at s mm) = of_nat (mm_frame s mm) * PAGE_SIZE \<and>
     valid_page s (mm_pt (mm_at s mm)) \<and> page_frame s (mm_pt (mm_at s mm)) = mm_frame s mm \<and>
     user_in (memory s) V (mm_frame s mm) \<and> shown (memory s) (mm_frame s mm) (space s as)"

lemma space_okD:
  assumes "space_ok s C V X mm as"
  shows "objs s C V X" and "regions s mm as" and "paged s as" and "(mm_slab, mm) \<in> X" and "\<forall>a\<in>set as. (vma_slab, a) \<in> X"
    and "va (mm_cr3 (mm_at s mm)) = table_addr (mm_frame s mm)" and "valid_page s (mm_pt (mm_at s mm))"
    and "page_frame s (mm_pt (mm_at s mm)) = mm_frame s mm" and "user_in (memory s) V (mm_frame s mm)"
    and "shown (memory s) (mm_frame s mm) (space s as)" and "mm_cr3 (mm_at s mm) = of_nat (mm_frame s mm) * PAGE_SIZE"
  using assms unfolding space_ok_def table_addr_def by auto

lemma touched_pages:
  assumes "4096 dvd unat b" and "4096 dvd unat e" and "b < e"
  shows "x \<in> touched (unat b) (unat (e - b)) \<longleftrightarrow> b \<le> x \<and> x < e"
proof -
  have sz: "unat (e - b) = unat e - unat b" "unat b < unat e"
    using assms(3) by (simp_all add: unat_sub word_less_nat_alt word_le_nat_alt)
  obtain k j where k: "unat b = 4096 * k" and j: "unat e = 4096 * j" using assms(1,2) by (elim dvdE)
  have "(unat b + unat (e - b) - 1) div 4096 = j - 1"
  proof -
    have "unat b + unat (e - b) - 1 = (j - 1) * 4096 + 4095" using sz j by simp
    then show ?thesis by simp
  qed
  moreover have "unat b div 4096 = k" using k by simp
  moreover have "0 < j" using sz j by simp
  ultimately show ?thesis
    using sz k j unfolding touched_def word_le_nat_alt word_less_nat_alt by (auto simp: div_le_mono)
qed

subsection \<open>Mapping a region\<close>

text \<open>The part of the state that changes when an object is taken from a cache.\<close>

lemma initial_of_slabs:
  fixes s s' :: "'a paging_scheme"
  assumes "slabs.more s' = slabs.more s"
  shows "initial_cr3 s' = initial_cr3 s"
  using assms by (cases s; cases s') simp

lemma space_ok_kept:
  assumes sp: "space_ok s C V X mm as" and o: "objs s' C V X'" and X: "X \<subseteq> X'"
    and k: "others_kept V s s'" and u: "paging.more s' = paging.more s"
  shows "space_ok s' C V X' mm as"
proof -
  note d = space_okD [OF sp]
  note f = upper_fields [OF u]
  have mf: "mm_frame s' mm = mm_frame s mm" by (simp add: mm_frame_def f)
  have ag: "agree (memory s) (memory s') (tables (memory s) 4 (mm_frame s mm))"
    by (rule kept_agree [OF d(1) k user_inD(4) [OF d(9)]])
  have lay: "layout s' = layout s" using k by (simp add: others_kept_def)
  have "regions s' mm as" using regions_cong [of s' s as mm] d(2) f by simp
  moreover have "space s' as = space s as" by (rule space_cong) (simp add: f)
  ultimately show ?thesis
    using o d X user_in_cong [OF ag order_refl d(9)] shown_cong [OF ag d(10)]
    unfolding space_ok_def mf by (auto simp: f paged_def valid_page_cong [OF lay] page_frame_cong [OF lay])
qed

lemma mmap_space_ok:
  assumes sp: "space_ok s C V X mm as" and c: "vma_slab \<in> C" and to0: "to0 \<le> HIGHER_BASE"
    and al: "4096 dvd unat from" "4096 dvd unat to" and lt: "from < to" and top: "to \<le> user_end"
    and ft: "from = from0 AND USER_MASK" "to = to0 AND USER_MASK"
    and run: "mmap mm from0 to0 perm s = Some (Inr (True, s'))"
  obtains N v bs where "space_ok s' C (V \<union> N) (insert (vma_slab, v) X) mm bs" and "(vma_slab, v) \<notin> X"
    and "set bs = insert v (set as)" and "V \<inter> N = {}" and "mm_frame s' mm = mm_frame s mm"
    and "space s' bs = (\<lambda>x. if from \<le> x \<and> x < to then Some perm else space s as x)"
    and "user_held (memory s') (mm_frame s mm) = user_held (memory s) (mm_frame s mm) + mset_set N" and "finite N"
    and "others_kept (V - mine (memory s) (mm_frame s mm)) s s'"
    and "kernel_tables (memory s') (mm_frame s mm) = kernel_tables (memory s) (mm_frame s mm)"
    and "initial_cr3 s' = initial_cr3 s" and "mm_at s' = mm_at s" and "\<And>a. a \<noteq> v \<Longrightarrow> vma_at s' a = vma_at s a"
    and "mm_links s' = list_add_before (Vma v) (case after_range s from as of [] \<Rightarrow> MmHead mm | a # _ \<Rightarrow> Vma a) (mm_links s)"
    and "\<And>x. 2 ^ 47 \<le> unat x \<Longrightarrow> unat x < 2 ^ 48 \<Longrightarrow>
      resolve (memory s') 4 (mm_frame s mm) x = resolve (memory s) 4 (mm_frame s mm) x"
proof -
  note d = space_okD [OF sp]
  have free: "\<forall>a\<in>set as. \<not> meets from to (vma_at s a)"
    using mmap_meets [OF d(2) to0 lt ft, of perm] run by auto
  obtain v s1 where alloc: "slab_cache_alloc vma_slab s = Inr (v, s1)"
    and o1: "v \<noteq> 0 \<Longrightarrow> objs s1 C V (insert (vma_slab, v) X)" and fresh: "v \<noteq> 0 \<Longrightarrow> (vma_slab, v) \<notin> X"
    using slab_cache_alloc_cases [OF d(1) c] by blast
  let ?nx = "case after_range s from as of [] \<Rightarrow> MmHead mm | a # _ \<Rightarrow> Vma a"
  have v0: "v \<noteq> 0" using run mmap_body [OF d(2) to0 lt ft free alloc, of perm] by auto
  note kp = slab_cache_alloc_kept [OF d(1) c alloc]
  have u1: "paging.more s1 = paging.more s" by (rule paging_of_slabs [OF slab_cache_alloc_more [OF alloc]])
  note sp1 = space_ok_kept [OF sp o1 [OF v0] subset_insertI kp u1]
  note d1 = space_okD [OF sp1]
  let ?f = "mm_frame s mm" and ?pm = "pt_map (table_addr (mm_frame s1 mm)) from (to - from) (user_flags perm) s1"
  have f1: "mm_frame s1 mm = ?f" by (simp add: mm_frame_def upper_fields [OF u1])
  obtain s2 where s2: "?pm = Inr (True, s2)" and s': "s' = upd_mm_links (list_add_before (Vma v) ?nx)
      (s2\<lparr>vma_at := (vma_at s2)(v := \<lparr>vma_begin = from, vma_end = to, vma_perm = perm\<rparr>)\<rparr>)"
    using run v0 unfolding mmap_body [OF d(2) to0 lt ft free alloc, of perm] d1(6)
    by (auto simp: and_then_eq_Inr split: if_splits)
  have u2: "paging.more s2 = paging.more s" using upper.kp_map [OF s2] u1 by simp
  note k2 = upper_fields [OF u2] and k1 = upper_fields [OF u1]
  let ?R = "touched (unat from) (unat (to - from))"
  have R: "x \<in> ?R \<longleftrightarrow> from \<le> x \<and> x < to" for x by (rule touched_pages [OF al lt])
  have ends: "0 < unat (to - from)" "unat from + unat (to - from) \<le> unat user_end"
    using lt top by (simp_all add: unat_sub word_less_nat_alt word_le_nat_alt)
  have low: "unat x < 2 ^ 47" if "x \<in> ?R" for x
    using that R top unat_user_end by (simp add: word_less_nat_alt word_le_nat_alt)
  have un: "unmapped (memory s1) 4 ?f ?R"
    unfolding unmapped_def
  proof
    fix x assume x: "x \<in> ?R"
    then have "space s as x = None" using space_free [OF free] R by blast
    moreover have "space s1 as = space s as" by (rule space_cong) (simp add: k1)
    ultimately show "resolve (memory s1) 4 ?f x = None" using shown_none [OF d1(10) low [OF x]] by (simp add: f1)
  qed
  obtain N where n: "objs s2 C (V \<union> N) (insert (vma_slab, v) X)" "user_in (memory s2) (V \<union> N) ?f"
    "V \<inter> N = {}" "finite N" "user_held (memory s2) ?f = user_held (memory s1) ?f + mset_set N"
    "\<And>x. x \<in> ?R \<Longrightarrow> \<exists>p. resolve (memory s2) 4 ?f x = Some (p, perms (user_flags perm)) \<and>
        fresh_byte x p V N (tables (memory s2) 4 ?f)"
    "inj_on (resolve (memory s2) 4 ?f) ?R"
    "\<And>x. unat x < 2 ^ 48 \<Longrightarrow> x \<notin> ?R \<Longrightarrow> resolve (memory s2) 4 ?f x = resolve (memory s1) 4 ?f x"
    "\<And>t. t \<in> tables (memory s2) 4 ?f \<Longrightarrow> t \<notin> tables (memory s1) 4 ?f \<Longrightarrow> t \<notin> \<Union> (pages_of ` V)"
    "others_kept (V - mine (memory s1) ?f) s1 s2" "kernel_tables (memory s2) ?f = kernel_tables (memory s1) ?f"
    "pt_frame s1 s2"
    by (rule pt_map_objs [OF d1(1) d1(9) [unfolded f1] ends un leaf_user_flags s2 [unfolded f1]]) blast
  have V: "set_mset (user_held (memory s1) ?f) \<subseteq> V"
    using owns_in [OF user_inD(5) [OF d1(9)]] by (auto simp: f1)
  have old: "resolve (memory s2) 4 ?f x = resolve (memory s1) 4 ?f x" if "unat x < 2 ^ 47" "x \<notin> ?R" for x
    by (rule n(8)) (use that in simp_all)
  have sh: "shown (memory s2) ?f (\<lambda>x. if x \<in> ?R then Some perm else space s1 as x)"
    by (rule shown_map [OF d1(10) [unfolded f1] n(5,4) V n(6,7) old n(9)])
  have "v \<notin> set as" using fresh [OF v0] d(5) by blast
  then have "\<exists>bs. regions s' mm bs \<and> set bs = insert v (set as) \<and>
      space s' bs = (\<lambda>x. if from \<le> x \<and> x < to then Some perm else space s as x)"
    by (intro insert_region [OF d(2) lt free _ _ refl]) (simp_all add: s' k2 upd_mm_links_def)
  then obtain bs where bs: "regions s' mm bs" "set bs = insert v (set as)"
    "space s' bs = (\<lambda>x. if from \<le> x \<and> x < to then Some perm else space s as x)" by blast
  have m': "memory s' = memory s2" "mm_at s' = mm_at s" "vma_at s' = (vma_at s)(v := \<lparr>vma_begin = from, vma_end = to, vma_perm = perm\<rparr>)"
    by (simp_all add: s' upd_mm_links_def k2)
  have f': "mm_frame s' mm = ?f" by (simp add: mm_frame_def m')
  have lay: "layout s' = layout s"
    using bounds.kp_map [OF s2] kp by (simp add: s' upd_mm_links_def layout_def others_kept_def)
  have o': "objs s' C (V \<union> N) (insert (vma_slab, v) X)"
    using n(1) objs_same [of s' s2] by (simp add: same_slabs_def s' upd_mm_links_def)
  have pg: "paged s' bs" using d(3) al top bs(2) by (auto simp: paged_def m')
  have "(\<lambda>x. if x \<in> ?R then Some perm else space s1 as x) = space s' bs"
    unfolding bs(3) using R space_cong [of as s1 s] k1 by (auto simp: fun_eq_iff)
  then have sh': "shown (memory s') ?f (space s' bs)" using sh m'(1) by simp
  have own: "(mm_slab, mm) \<in> insert (vma_slab, v) X" "\<forall>a\<in>set bs. (vma_slab, a) \<in> insert (vma_slab, v) X"
    using d(4,5) bs(2) by auto
  have ui: "user_in (memory s') (V \<union> N) ?f" using n(2) m'(1) by simp
  have root: "mm_cr3 (mm_at s' mm) = of_nat ?f * PAGE_SIZE" "valid_page s' (mm_pt (mm_at s' mm))"
    "page_frame s' (mm_pt (mm_at s' mm)) = ?f"
    using d(7,8,11) by (simp_all add: m' valid_page_cong [OF lay] page_frame_cong [OF lay])
  have sp': "space_ok s' C (V \<union> N) (insert (vma_slab, v) X) mm bs"
    unfolding space_ok_def f' using o' bs(1) pg own root ui sh' by blast
  have hf: "user_held (memory s1) ?f = user_held (memory s) ?f" "kernel_tables (memory s1) ?f = kernel_tables (memory s) ?f"
    using half_cong [OF kept_agree [OF d(1) kp user_inD(4) [OF d(9)]]] by simp_all
  have held: "user_held (memory s') ?f = user_held (memory s) ?f + mset_set N"
    "kernel_tables (memory s') ?f = kernel_tables (memory s) ?f" using n(5,11) m'(1) hf by simp_all
  have "others_kept (V - mine (memory s) ?f) s s1" using kp by (auto simp: others_kept_def)
  moreover have "others_kept (V - mine (memory s) ?f) s1 s2" using n(10) hf(1) by (simp add: mine_def)
  moreover have "others_kept (V - mine (memory s) ?f) s2 s'" by (rule others_kept_same) (simp_all add: s' upd_mm_links_def)
  ultimately have ok: "others_kept (V - mine (memory s) ?f) s s'" using others_kept_trans by metis
  have lk: "mm_links s' = list_add_before (Vma v) ?nx (mm_links s)" by (simp add: s' upd_mm_links_def k2)
  have cr: "initial_cr3 s' = initial_cr3 s"
    using initial_of_slabs [OF slab_cache_alloc_more [OF alloc]] pt_frame_fields(4) [OF n(12)] by (simp add: s' upd_mm_links_def)
  have up: "resolve (memory s') 4 ?f x = resolve (memory s) 4 ?f x" if x: "2 ^ 47 \<le> unat x" "unat x < 2 ^ 48" for x
  proof -
    have "x \<notin> ?R" using low x by force
    then have "resolve (memory s2) 4 ?f x = resolve (memory s1) 4 ?f x" by (rule n(8) [OF x(2)])
    then show ?thesis
      using tree_cong [OF kept_agree [OF d(1) kp user_inD(4) [OF d(9)]] order_refl] m'(1) by simp
  qed
  show thesis
    by (rule that [OF sp' fresh [OF v0] bs(2) n(3) f' bs(3) held(1) n(4) ok held(2) cr m'(2) _ lk up]) (simp_all add: m'(3))
qed

end
