(* ===== verification/Mm_Life.thy ===== *)
theory Mm_Life
  imports Mm_Space
begin

text \<open>
  The life of an address space. \<open>mm_create\<close> makes one with no region, whose table shares the kernel's
  tables; \<open>mm_release\<close> gives back all that it is made of, whatever was mapped in between.
\<close>

subsection \<open>Release\<close>

lemma free_vmas_objs:
  assumes "lpath (mm_links s) p (map Vma xs) Lst" and "objs s C V X" and "distinct xs" and "\<forall>a\<in>set xs. (vma_slab, a) \<in> X"
  shows "\<exists>s'. free_vmas (nxt (mm_links s) p) s = Some (Inr s') \<and> slabs.more s' = slabs.more s \<and>
    objs s' C V (X - {vma_slab} \<times> set xs) \<and> others_kept V s s'"
  using assms
proof (induction xs arbitrary: p s X)
  case Nil
  then show ?case by (simp add: free_vmas.simps others_kept_def)
next
  case (Cons a xs)
  let ?s = "slab_cache_free vma_slab a s"
  have p: "nxt (mm_links s) p = Vma a" and path: "lpath (mm_links s) (Vma a) (map Vma xs) Lst"
    using Cons.prems(1) by simp_all
  have ax: "(vma_slab, a) \<in> X" using Cons.prems(4) by simp
  have m: "slabs.more ?s = slabs.more s" by (rule slab_cache_free_more)
  note k = upper_fields [OF paging_of_slabs [OF m]]
  have o: "objs ?s C V (X - {(vma_slab, a)})" using slab_cache_free_spec [OF Cons.prems(2) ax] by blast
  have "\<exists>s'. free_vmas (nxt (mm_links ?s) (Vma a)) ?s = Some (Inr s') \<and> slabs.more s' = slabs.more ?s \<and>
      objs s' C V (X - {(vma_slab, a)} - {vma_slab} \<times> set xs) \<and> others_kept V ?s s'"
    by (rule Cons.IH [OF _ o]) (use path k Cons.prems(3,4) in auto)
  then obtain s' where s': "free_vmas (nxt (mm_links ?s) (Vma a)) ?s = Some (Inr s')" "slabs.more s' = slabs.more ?s"
      "objs s' C V (X - {(vma_slab, a)} - {vma_slab} \<times> set xs)" "others_kept V ?s s'" by blast
  have "free_vmas (Vma a) s = free_vmas (nxt (mm_links s) (Vma a)) ?s"
    by (simp add: free_vmas.simps [of "Vma a"] node_vma_def Let_def)
  moreover have "X - {(vma_slab, a)} - {vma_slab} \<times> set xs = X - {vma_slab} \<times> set (a # xs)" by auto
  moreover have "others_kept V s s'" by (rule others_kept_trans [OF slab_cache_free_kept [OF Cons.prems(2) ax] s'(4)])
  ultimately show ?case using s' p m k by simp
qed

text \<open>All regions of an address space lie in the user space.\<close>

lemma whole_parts:
  assumes r: "regions s mm as" and p: "paged s as"
  shows "before_range s 0 as = []" and "in_range s 0 user_end as = as" and "past_range s 0 user_end as = []"
    and "\<not> (\<exists>a\<in>set as. sticks_out 0 user_end (vma_at s a))"
proof -
  have ne: "\<not> vma_end (vma_at s a) \<le> 0" "in_front s user_end a" "\<not> sticks_out 0 user_end (vma_at s a)" if "a \<in> set as" for a
  proof -
    have lt: "vma_begin (vma_at s a) < vma_end (vma_at s a)" and le: "vma_end (vma_at s a) \<le> user_end"
      using r p that by (auto simp: regions_def paged_def)
    show "\<not> vma_end (vma_at s a) \<le> 0" using lt by (simp add: word_less_nat_alt word_le_nat_alt)
    show "in_front s user_end a" using less_le_trans [OF lt le] by (simp add: not_le)
    show "\<not> sticks_out 0 user_end (vma_at s a)" using le by (simp add: sticks_out_def not_less)
  qed
  have a: "after_range s 0 as = as" by (cases as) (use ne(1) in auto)
  show "before_range s 0 as = []" by (cases as) (use ne(1) in auto)
  show "in_range s 0 user_end as = as" unfolding a takeWhile_eq_all_conv using ne(2) by blast
  show "past_range s 0 user_end as = []" unfolding a dropWhile_eq_Nil_conv using ne(2) by blast
  show "\<not> (\<exists>a\<in>set as. sticks_out 0 user_end (vma_at s a))" using ne(3) by blast
qed

text \<open>Taking down the user half of a table beside the caches.\<close>

lemma pt_unmap_objs:
  assumes o: "objs s C V X" and u: "user_in (memory s) V f"
  defines "H \<equiv> set_mset (user_held (memory s) f)"
  obtains s' where "pt_unmap (table_addr f) 0 user_end s = Inr s'" and "objs s' C (V - H) X"
    and "others_kept (V - mine (memory s) f) s s'" and "(f, 0) \<in> V - H" and "pt_frame s s'"
proof -
  note ud = user_inD [OF u]
  obtain B where B: "slab_store s C B X" "buddy_ok s (V \<union> B)" "V \<inter> B = {}" using o unfolding objs_store by blast
  have uok: "user_ok s (V \<union> B) f" by (rule user_in_ok [OF u B(2) objs_low [OF o]])
  obtain s' where run: "pt_unmap (table_addr f) 0 user_end s = Inr s'" and ok': "user_ok s' (V \<union> B - H) f"
    and mem: "\<And>a. a \<notin> \<Union> (page_at ` tables (memory s) 4 f) \<Longrightarrow> memory s' a = memory s a"
    and kt: "agree (memory s) (memory s') (kernel_tables (memory s) f - {f})" and pf: "pt_frame s s'"
    using pt_unmap_user [OF uok] unfolding H_def by blast
  have lay: "layout s' = layout s" by (rule bounds.kp_unmap [OF run])
  have HV: "H \<subseteq> V" using owns_in [OF ud(5)] unfolding H_def by blast
  have ps: "phys_small s" using B(1) by (auto simp: slab_store_def)
  have at: "in_block (t, 0) x" if "t \<in> tables (memory s) 4 f" "x \<in> page_at t" for t x
  proof -
    have "(t, 0) \<in> V \<union> B" using ud(4) [OF that(1)] by blast
    then have "t * 4096 + 4096 \<le> 2 ^ 47" using buddy_block_bound [OF B(2) ps] by fastforce
    then show ?thesis using that(2) page_at_block by blast
  qed
  have "slab_store s' C B X"
  proof (rule slab_store_cong [OF B(1) lay])
    fix b x assume b: "b \<in> B" "in_block b x"
    have "x \<notin> page_at t" if t: "t \<in> tables (memory s) 4 f" for t
    proof
      assume x: "x \<in> page_at t"
      have "(t, 0) \<in> V \<union> B" "b \<in> V \<union> B" "(t, 0) \<noteq> b" using ud(4) [OF t] b(1) B(3) by blast+
      then show False using used_apart [OF B(2) _ _ _ at [OF t x]] b(2) by blast
    qed
    then show "memory s' x = memory s x" by (intro mem) blast
  qed (rule pt_frame_fields [OF pf])+
  moreover have "V - H \<union> B = V \<union> B - H" "(V - H) \<inter> B = {}" using HV B(3) by blast+
  moreover have "buddy_ok s' (V \<union> B - H)" using user_okD(1) [OF ok'] by (rule tree_okD(1))
  ultimately have o': "objs s' C (V - H) X" unfolding objs_store by metis
  have "memory s' x = memory s x" if b: "b \<in> V" "b \<notin> mine (memory s) f" "in_block b x" for b x
  proof (rule ccontr)
    assume ne: "memory s' x \<noteq> memory s x"
    then obtain t where t: "t \<in> tables (memory s) 4 f" "x \<in> page_at t" using mem by blast
    have "b \<noteq> (t, 0)"
    proof
      assume bt: "b = (t, 0)"
      then have tf: "t \<noteq> f" using b(2) by (auto simp: mine_def)
      have "t \<in> kernel_tables (memory s) f" using user_tables_mine t(1) b(2) bt by blast
      then show False using kt ne t(2) tf unfolding agree_def by blast
    qed
    moreover have "b \<in> V \<union> B" "(t, 0) \<in> V \<union> B" using b(1) ud(4) [OF t(1)] by blast+
    ultimately show False using used_apart [OF B(2) _ _ _ at [OF t]] b(3) by blast
  qed
  then have "others_kept (V - mine (memory s) f) s s'" using lay unfolding others_kept_def by blast
  moreover have "(f, 0) \<in> V - H"
  proof -
    have "f \<in> kernel_tables (memory s) f" by (simp add: kernel_tables_def)
    then show ?thesis using ud(6) ud(4) [OF tables_root] unfolding H_def by simp
  qed
  ultimately show thesis using that run o' pf by blast
qed

text \<open>A page of the client goes back to the page allocator.\<close>

lemma do_buddy_free_objs:
  assumes o: "objs s C V X" and pg: "valid_page s pg" "page_frame s pg = f" and f: "(f, 0) \<in> V" "f \<noteq> 0"
  obtains s' where "do_buddy_free pg 0 s = Inr s'" and "objs s' C (V - {(f, 0)}) X" and "others_kept V s s'"
    and "s' = s\<lparr>buddy_zones := buddy_zones s'\<rparr>"
proof -
  obtain B where B: "slab_store s C B X" "buddy_ok s (V \<union> B)" "V \<inter> B = {}" using o unfolding objs_store by blast
  obtain s' where s': "do_buddy_free pg 0 s = Inr s'" "buddy_ok s' (V \<union> B - {(f, 0)})" "layout s' = layout s"
    "s' = s\<lparr>buddy_zones := buddy_zones s'\<rparr>"
    using do_buddy_free_ok [OF B(2) pg(1)] pg(2) f by blast
  have e: "slab_links s' = slab_links s" "slab_meta s' = slab_meta s" "caches s' = caches s" "memory s' = memory s"
    by (subst s'(4), simp)+
  have "slab_store s' C B X" by (rule slab_store_cong [OF B(1) s'(3) e(1-3)]) (simp add: e(4))
  moreover have "V - {(f, 0)} \<union> B = V \<union> B - {(f, 0)}" "(V - {(f, 0)}) \<inter> B = {}" using B(3) f(1) by blast+
  ultimately have "objs s' C (V - {(f, 0)}) X" unfolding objs_store using s'(2) by metis
  moreover have "others_kept V s s'" by (simp add: others_kept_def s'(3) e(4))
  ultimately show thesis using that s'(1,4) by blast
qed

lemma mm_release_gives_back:
  fixes s :: "'a mms_scheme"
  assumes sp: "space_ok s C V X mm as"
  defines "f \<equiv> mm_frame s mm"
  obtains s' where "mm_release mm s = Some (Inr s')"
    and "objs s' C (V - mine (memory s) f) (X - {(mm_slab, mm)} - {vma_slab} \<times> set as)"
    and "others_kept (V - mine (memory s) f) s s'"
    and "mm_at s' = mm_at s" and "vma_at s' = vma_at s" and "initial_cr3 s' = initial_cr3 s"
    and "\<And>x. x \<notin> set (MmHead mm # map Vma as) \<Longrightarrow> x \<noteq> Lst \<Longrightarrow>
      nxt (mm_links s') x = nxt (mm_links s) x \<and> prv (mm_links s') x = prv (mm_links s) x"
proof -
  note d = space_okD [OF sp, folded f_def]
  note w = whole_parts [OF d(2,3)]
  let ?V = "V - mine (memory s) f" and ?X = "X - {vma_slab} \<times> set as"
  have lt: "(0 :: u64) < user_end" using unat_user_end by (simp add: word_less_nat_alt)
  obtain h where h: "dlist h Lst (map Vma as)"
    "\<forall>x. x \<notin> set (MmHead mm # map Vma as) \<longrightarrow> x \<noteq> Lst \<longrightarrow> nxt h x = nxt (mm_links s) x \<and> prv h x = prv (mm_links s) x"
    and run: "munmap mm 0 user_end s = Option.bind (free_vmas (nxt h Lst) (s\<lparr>mm_links := h\<rparr>)) (\<lambda>r. Some (and_then r (\<lambda>s3.
      and_then (gap_bounds (MmHead mm) (MmHead mm) (MmHead mm) s3) (\<lambda>(b, e).
      and_then (pt_unmap (va (mm_cr3 (mm_at s3 mm))) b (e - b) s3) (\<lambda>s4. Inr (True, s4))))))"
    using munmap_run [OF d(2) lt, unfolded w(1-3), OF w(4), unfolded list.map(1) append_Nil list.sel(1) last_ConsL [OF refl]]
    by blast
  let ?sh = "s\<lparr>mm_links := h\<rparr>"
  have oh: "objs ?sh C V X" using d(1) objs_same [of ?sh s] by (simp add: same_slabs_def)
  have dist: "distinct as" using dlist_distinct [OF h(1)] by (simp add: distinct_map)
  obtain s3 where s3: "free_vmas (nxt h Lst) ?sh = Some (Inr s3)" "slabs.more s3 = slabs.more ?sh"
    "objs s3 C V ?X" "others_kept V ?sh s3"
    using free_vmas_objs [of ?sh Lst as C V X] oh dist d(5) h(1) by (auto simp: dlist_def)
  have k3: "others_kept V s s3" using s3(4) by (simp add: others_kept_def layout_def)
  have u3: "mm_at s3 = mm_at s" "vma_at s3 = vma_at s" "mm_links s3 = h" "initial_cr3 s3 = initial_cr3 s"
    using upper_fields [OF paging_of_slabs [OF s3(2)]] initial_of_slabs [OF s3(2)] by simp_all
  have ag: "agree (memory s) (memory s3) (tables (memory s) 4 f)" by (rule kept_agree [OF d(1) k3 user_inD(4) [OF d(9)]])
  have hf: "user_held (memory s3) f = user_held (memory s) f" using half_cong [OF ag] by simp
  obtain s4 where s4: "pt_unmap (table_addr f) 0 user_end s3 = Inr s4" "objs s4 C (V - set_mset (user_held (memory s) f)) ?X"
    "others_kept ?V s3 s4" "(f, 0) \<in> V - set_mset (user_held (memory s) f)" "pt_frame s3 s4"
    using pt_unmap_objs [OF s3(3) user_in_cong [OF ag order_refl d(9)]] unfolding hf mine_def by metis
  have u4: "mm_at s4 = mm_at s" "vma_at s4 = vma_at s" "mm_links s4 = h" "initial_cr3 s4 = initial_cr3 s"
    using upper_fields [OF pt_frame_fields(5) [OF s4(5)]] pt_frame_fields(4) [OF s4(5)] u3 by simp_all
  have um: "munmap mm 0 user_end s = Some (Inr (True, s4))"
    using run s3(1) s4(1) d(6) u3(1) by (simp add: gap_bounds_def)
  have l4: "layout s4 = layout s" using k3 s4(3) by (simp add: others_kept_def)
  have pg: "valid_page s4 (mm_pt (mm_at s4 mm))" "page_frame s4 (mm_pt (mm_at s4 mm)) = f"
    using d(7,8) by (simp_all add: u4 valid_page_cong [OF l4] page_frame_cong [OF l4])
  have Vm: "V - set_mset (user_held (memory s) f) - {(f, 0)} = ?V" by (auto simp: mine_def)
  obtain s5 where s5: "do_buddy_free (mm_pt (mm_at s4 mm)) 0 s4 = Inr s5" "objs s5 C ?V ?X"
    "others_kept (V - set_mset (user_held (memory s) f)) s4 s5" "s5 = s4\<lparr>buddy_zones := buddy_zones s5\<rparr>"
    using do_buddy_free_objs [OF s4(2) pg s4(4) user_inD(2) [OF d(9)]] unfolding Vm by metis
  have u5: "mm_at s5 = mm_at s" "vma_at s5 = vma_at s" "mm_links s5 = h" "initial_cr3 s5 = initial_cr3 s"
    using u4 by (subst s5(4), simp)+
  have mmx: "(mm_slab, mm) \<in> ?X" using d(4) by (simp add: mm_slab_def vma_slab_def)
  let ?s6 = "slab_cache_free mm_slab mm s5"
  have "mm_release mm s = Some (Inr ?s6)" using um s5(1) by (simp add: mm_release_def)
  moreover have "objs ?s6 C ?V (X - {(mm_slab, mm)} - {vma_slab} \<times> set as)"
  proof -
    have "?X - {(mm_slab, mm)} = X - {(mm_slab, mm)} - {vma_slab} \<times> set as" by blast
    then show ?thesis using slab_cache_free_spec [OF s5(2) mmx] by metis
  qed
  moreover have "others_kept ?V s ?s6"
  proof -
    have "others_kept ?V s s3" using k3 unfolding others_kept_def by blast
    moreover have "others_kept ?V s4 s5" using s5(3) unfolding others_kept_def mine_def by blast
    ultimately show ?thesis using s4(3) slab_cache_free_kept [OF s5(2) mmx] others_kept_trans by metis
  qed
  moreover have "mm_at ?s6 = mm_at s" "vma_at ?s6 = vma_at s" "mm_links ?s6 = h" "initial_cr3 ?s6 = initial_cr3 s"
    using upper_fields [OF paging_of_slabs [OF slab_cache_free_more]] initial_of_slabs [OF slab_cache_free_more] u5 by metis+
  ultimately show thesis using that h(2) by blast
qed

end
