(* ===== verification/Mm_Create.thy ===== *)
theory Mm_Create
  imports Mm_Life
begin

text \<open>
  \<open>mm_create\<close>: the fresh table has an empty user half and a copy of the upper half of the kernel's own
  table, whose tables it shares.
\<close>

subsection \<open>Copying the upper half of a table\<close>

text \<open>The upper half of the table in frame \<open>g\<close> is sound, and its tables are blocks of \<open>V\<close>.\<close>

definition kernel_ok :: "mem \<Rightarrow> block set \<Rightarrow> nat \<Rightarrow> bool" where
  "kernel_ok m V g \<longleftrightarrow> g < 2 ^ 52 \<and> separate m 4 g \<and> (\<forall>t\<in>kernel_tables m g. (t, 0) \<in> V)"

text \<open>The table in frame \<open>f\<close> is empty below and equal to the one in frame \<open>g\<close> above.\<close>

definition half_copy :: "mem \<Rightarrow> mem \<Rightarrow> nat \<Rightarrow> nat \<Rightarrow> bool" where
  "half_copy m m' g f \<longleftrightarrow> (\<forall>i<512. entry m' f i = (if i < 256 then 0 else entry m g i)) \<and>
     (\<forall>a. a \<notin> page_at f \<longrightarrow> m' a = m a)"

lemma half_copyD:
  assumes "half_copy m m' g f"
  shows "i < 256 \<Longrightarrow> entry m' f i = 0" and "i \<in> {256..<512} \<Longrightarrow> entry m' f i = entry m g i"
    and "a \<notin> page_at f \<Longrightarrow> m' a = m a"
  using assms unfolding half_copy_def by auto

lemma load_le_shift:
  "(\<And>k. k < n \<Longrightarrow> m' (a + of_nat k) = m (b + of_nat k)) \<Longrightarrow> load_le m' a n = load_le m b n"
proof (induction n arbitrary: a b)
  case (Suc n)
  have "load_le m' (a + 1) n = load_le m (b + 1) n"
  proof (rule Suc.IH)
    fix k assume "k < n"
    then show "m' (a + 1 + of_nat k) = m (b + 1 + of_nat k)" using Suc.prems [of "Suc k"] by (simp add: ac_simps)
  qed
  moreover have "m' a = m b" using Suc.prems [of 0] by simp
  ultimately show ?case by simp
qed simp

lemma half_copy_made:
  fixes m :: mem
  assumes f: "f < 2 ^ 52" and g: "g < 2 ^ 52" and ne: "f \<noteq> g"
  defines "m1 \<equiv> memset m (table_addr f) 0 PAGE_SIZE"
  shows "half_copy m (memcpy m1 (table_addr f + 2048) (table_addr g + 2048) 2048) g f"
proof -
  let ?m' = "memcpy m1 (table_addr f + 2048) (table_addr g + 2048) 2048"
  let ?F = "span (table_addr f + 2048) 2048" and ?G = "span (table_addr g + 2048) 2048"
  have sub: "span (table_addr t + 2048) 2048 \<subseteq> page_at t" for t
    using span_within [of _ "table_addr t" 2048 2048 4096] by (auto simp: page_at_def)
  have dis: "page_at f \<inter> page_at g = {}" by (rule pages_disjoint [OF f g ne])
  have m': "?m' x = (if x \<in> ?F then m1 (table_addr g + 2048 + (x - (table_addr f + 2048))) else m1 x)" for x
  proof -
    have "?F \<inter> ?G = {}" using sub dis by blast
    then show ?thesis using memcpy_eq [of "table_addr f + 2048" 2048 "table_addr g + 2048" m1 x] by simp
  qed
  have m1: "m1 x = (if x \<in> page_at f then 0 else m x)" for x
    by (simp add: m1_def memset_eq page_at_def PAGE_SIZE_def)
  have out: "?m' a = m a" if "a \<notin> page_at f" for a using that sub [of f] m' m1 by auto
  have low: "entry ?m' f i = 0" if i: "i < 256" for i
  proof -
    have "?m' x = 0" if x: "x \<in> span (table_addr f + 8 * of_nat i) 8" for x
    proof -
      have "x \<in> page_at f" using entry_in_page [of i f] x i by auto
      moreover have "x \<notin> ?F"
      proof
        assume "x \<in> ?F"
        then obtain j where j: "j < 2048" "x = table_addr f + 2048 + of_nat j" by (auto simp: span_iff)
        obtain k where k: "k < 8" "x = table_addr f + 8 * of_nat i + of_nat k" using x by (auto simp: span_iff)
        have "(of_nat (8 * i + k) :: u64) = of_nat (2048 + j)" using j(2) k(2) by (simp add: add.assoc)
        then have "unat (of_nat (8 * i + k) :: u64) = unat (of_nat (2048 + j) :: u64)" by simp
        moreover have "unat (of_nat (8 * i + k) :: u64) = 8 * i + k" "unat (of_nat (2048 + j) :: u64) = 2048 + j"
          using i j k by (intro unat_of_nat_u64; simp)+
        ultimately show False using i k by simp
      qed
      ultimately show ?thesis using m' m1 by simp
    qed
    then have "load_le ?m' (table_addr f + 8 * of_nat i) 8 = load_le (\<lambda>a. 0) (table_addr f + 8 * of_nat i) 8"
      by (intro load_le_cong) simp
    moreover have "load_le (\<lambda>a. 0) a n = 0" for a n by (induction n arbitrary: a) simp_all
    ultimately show ?thesis by (simp add: entry_def pt_get_def load_u64_def)
  qed
  have high: "entry ?m' f i = entry m g i" if i: "256 \<le> i" "i < 512" for i
  proof -
    have "load_le ?m' (table_addr f + 8 * of_nat i) 8 = load_le m (table_addr g + 8 * of_nat i) 8"
    proof (rule load_le_shift)
      fix k :: nat assume k: "k < 8"
      let ?j = "8 * i + k - 2048"
      have o: "(8 * of_nat i + of_nat k :: u64) = 2048 + of_nat ?j" "?j < 2048"
      proof -
        have "8 * i + k = 2048 + ?j" using i by simp
        then have "(of_nat (8 * i + k) :: u64) = of_nat (2048 + ?j)" by (simp only:)
        then show "(8 * of_nat i + of_nat k :: u64) = 2048 + of_nat ?j" by simp
        show "?j < 2048" using i k by simp
      qed
      let ?x = "table_addr f + 8 * of_nat i + of_nat k"
      have x: "?x = table_addr f + 2048 + of_nat ?j" using o(1) by (simp add: add.assoc)
      have "y - (table_addr f + 2048) = of_nat j" if "y = table_addr f + 2048 + of_nat j" for y j using that by simp
      note this [OF x]
      moreover have "?x \<in> ?F" unfolding span_iff using x o(2) by auto
      ultimately have "?m' ?x = m1 (table_addr g + 2048 + of_nat ?j)" using m' [of ?x] by presburger
      also have "table_addr g + 2048 + of_nat ?j = table_addr g + 8 * of_nat i + (of_nat k :: u64)"
        using o(1) by (simp add: add.assoc)
      also have "m1 \<dots> = m \<dots>"
      proof -
        have "table_addr g + 8 * of_nat i + of_nat k \<in> span (table_addr g + 8 * of_nat i) 8"
          using k by (auto simp: span_iff)
        then have "table_addr g + 8 * of_nat i + of_nat k \<in> page_at g" using entry_in_page [OF i(2), of g] by blast
        then show ?thesis using dis m1 by auto
      qed
      finally show "?m' ?x = m (table_addr g + 8 * of_nat i + of_nat k)" .
    qed
    then show ?thesis by (simp add: entry_def pt_get_def load_u64_def)
  qed
  show ?thesis unfolding half_copy_def using low high out by auto
qed

text \<open>What such a copy is as a tree.\<close>

lemma half_copy_tree:
  assumes hc: "half_copy m m' g f" and f: "f < 2 ^ 52" and k: "kernel_ok m V g" and new: "(f, 0) \<notin> V"
  shows "i < 256 \<Longrightarrow> below m' 3 f i = {} \<and> slot m' 3 f i = {#}"
    and "i \<in> {256..<512} \<Longrightarrow> below m' 3 f i = below m 3 g i \<and> agree m m' (below m 3 g i)"
    and "separate m' 4 f" and "kernel_tables m' f = insert f (kernel_tables m g - {g})"
    and "user_held m' f = {#}" and "tables m' 4 f = kernel_tables m' f"
    and "unat x < 2 ^ 47 \<Longrightarrow> resolve m' 4 f x = None"
    and "2 ^ 47 \<le> unat x \<Longrightarrow> unat x < 2 ^ 48 \<Longrightarrow> resolve m' 4 f x = resolve m 4 g x"
proof -
  note h = half_copyD [OF hc]
  have g: "g < 2 ^ 52" and sg: "separate m (Suc 3) g" and kV: "\<And>t. t \<in> kernel_tables m g \<Longrightarrow> (t, 0) \<in> V"
    using k unfolding kernel_ok_def four by blast+
  have fk: "f \<notin> kernel_tables m g" using kV new by blast
  have bk: "below m 3 g i \<subseteq> kernel_tables m g" if "i \<in> {256..<512}" for i using that by (auto simp: kernel_tables_def)
  have small: "t < 2 ^ 52" if "t \<in> below m 3 g i" for t i
    using tables_less [of t m 3 "child m g i"] target_less [of "entry m g i"] that
    by (auto simp: below_def child_def split: if_splits)
  have ag: "agree m m' (below m 3 g i)" if i: "i \<in> {256..<512}" for i
    unfolding agree_def
  proof (intro ballI)
    fix t a assume t: "t \<in> below m 3 g i" and a: "a \<in> page_at t"
    have "t \<noteq> f" using bk [OF i] t fk by blast
    then have "a \<notin> page_at f" using pages_disjoint [OF small [OF t] f] a by blast
    then show "m' a = m a" by (rule h(3))
  qed
  have p: "points m' 3 f i \<longleftrightarrow> points m 3 g i" "child m' f i = child m g i" if "i \<in> {256..<512}" for i
    using h(2) [OF that] that by (simp_all add: points_def child_def)
  have t: "tables m' 3 (child m g i) = tables m 3 (child m g i) \<and> separate m' 3 (child m g i) = separate m 3 (child m g i) \<and>
      resolve m' 3 (child m g i) = resolve m 3 (child m g i)" if "i \<in> {256..<512}" "points m 3 g i" for i
  proof -
    have "agree m m' (tables m 3 (child m g i))" using ag [OF that(1)] that(2) by (simp add: below_def)
    from tree_cong [OF this] show ?thesis by simp
  qed
  have lo: "below m' 3 f i = {} \<and> slot m' 3 f i = {#}" if "i < 256" for i
    using h(1) [OF that] by (simp add: below_def points_def slot_def present_def)
  then show "i < 256 \<Longrightarrow> below m' 3 f i = {} \<and> slot m' 3 f i = {#}" .
  have hi: "below m' 3 f i = below m 3 g i" if "i \<in> {256..<512}" for i
    using p [OF that] t [OF that] by (simp add: below_def)
  then show "i \<in> {256..<512} \<Longrightarrow> below m' 3 f i = below m 3 g i \<and> agree m m' (below m 3 g i)" using ag by blast
  have far: "below m' 3 f i = {}" if "\<not> i < 512" for i using that by (simp add: below_def points_def)
  have range: "i < 256 \<or> i \<in> {256..<512} \<or> \<not> i < 512" for i :: nat by auto
  have sb: "below m 3 g i \<inter> below m 3 g j = {}" "g \<notin> below m 3 g i" if "i \<noteq> j" for i j
    using sg that unfolding separate_iff beside_def by blast+
  have "points m' 3 f i \<longrightarrow> separate m' 3 (child m' f i)" for i
  proof
    assume pi: "points m' 3 f i"
    have "i < 512" "\<not> i < 256" using pi h(1) [of i] by (auto simp: points_def present_def)
    then have i: "i \<in> {256..<512}" by simp
    have "points m 3 g i" using p(1) [OF i] pi by simp
    moreover have "separate m 3 (child m g i)" using sg calculation unfolding separate_iff by blast
    ultimately show "separate m' 3 (child m' f i)" using t [OF i] p(2) [OF i] by simp
  qed
  moreover have "below m' 3 f i \<inter> beside m' 3 f i = {}" for i
  proof (cases "i \<in> {256..<512}")
    case True
    have "below m' 3 f i \<inter> below m' 3 f j = {}" if "j \<noteq> i" for j
      using range [of j] lo [of j] far [of j] hi [of j] hi [OF True] sb(1) [of i j] that by auto
    moreover have "f \<notin> below m' 3 f i" using hi [OF True] bk [OF True] fk by blast
    ultimately show ?thesis unfolding beside_def by blast
  next
    case False
    then show ?thesis using range [of i] lo far by auto
  qed
  ultimately show "separate m' 4 f" unfolding four separate_iff by blast
  have gk: "g \<notin> below m 3 g i" for i using sb(2) [of i "Suc i"] by simp
  show kt: "kernel_tables m' f = insert f (kernel_tables m g - {g})"
    using hi gk unfolding kernel_tables_def by auto
  show "user_held m' f = {#}" using lo by (simp add: user_held_def)
  have "tables m' 4 f = insert f (\<Union>i. below m' 3 f i)" by (auto simp: tables_4 below_def split: if_splits)
  also have "\<dots> = kernel_tables m' f"
  proof -
    have "below m' 3 f i \<subseteq> (\<Union>i\<in>{256..<512}. below m' 3 f i)" for i using range [of i] lo far by blast
    then show ?thesis unfolding kernel_tables_def by blast
  qed
  finally show "tables m' 4 f = kernel_tables m' f" .
  have l: "(3 :: nat) \<le> 3" by simp
  show "resolve m' 4 f x = None" if "unat x < 2 ^ 47"
  proof -
    have "unat x div 2 ^ 39 < 256" using that by (intro less_mult_imp_div_less) simp
    then have "pt_index x (Suc 3) < 256" unfolding pt_index_eq [OF l] by (simp add: low_bits_def)
    then have "entry m' f (pt_index x (Suc 3)) = 0" by (rule h(1))
    then show ?thesis unfolding four resolve.simps Let_def by (simp add: present_def)
  qed
  show "resolve m' 4 f x = resolve m 4 g x" if x: "2 ^ 47 \<le> unat x" "unat x < 2 ^ 48"
  proof -
    have "256 \<le> unat x div 2 ^ 39" using div_le_mono [OF x(1), of "2 ^ 39"] by simp
    moreover have "unat x div 2 ^ 39 < 512" using x(2) by (intro less_mult_imp_div_less) simp
    ultimately have i: "pt_index x (Suc 3) \<in> {256..<512}" unfolding pt_index_eq [OF l] by (simp add: low_bits_def)
    show ?thesis
    proof (cases "points m 3 g (pt_index x (Suc 3))")
      case True
      then have "points m' 3 f (pt_index x (Suc 3))" using p(1) [OF i] by simp
      then show ?thesis unfolding four using resolve_table [of m' 3 f x] resolve_table [OF True] p(2) [OF i] t [OF i True]
        by (simp only:)
    next
      case False
      then show ?thesis unfolding four resolve.simps Let_def using h(2) [OF i] i by (auto simp: points_def)
    qed
  qed
qed

subsection \<open>The call\<close>

lemma do_buddy_alloc_objs:
  assumes o: "objs s C V X" and run: "do_buddy_alloc 0 s = (Some pg, s')"
  defines "f \<equiv> page_frame s pg"
  shows "objs s' C (insert (f, 0) V) X" and "(f, 0) \<notin> V" and "f \<noteq> 0" and "f < 2 ^ 52" and "layout s' = layout s"
    and "valid_page s pg" and "s' = s\<lparr>buddy_zones := buddy_zones s'\<rparr>" and "page_addr pg s' = Inr (of_nat f * PAGE_SIZE)"
proof -
  obtain B where B: "slab_store s C B X" "buddy_ok s (V \<union> B)" "V \<inter> B = {}" using o unfolding objs_store by blast
  note d = do_buddy_alloc_ok [OF B(2) run, folded f_def]
  show "(f, 0) \<notin> V" using d(2) by blast
  show "f \<noteq> 0" "f < 2 ^ 52" "layout s' = layout s" "valid_page s pg" "s' = s\<lparr>buddy_zones := buddy_zones s'\<rparr>"
    "page_addr pg s' = Inr (of_nat f * PAGE_SIZE)" by (rule d)+
  have e: "slab_links s' = slab_links s" "slab_meta s' = slab_meta s" "caches s' = caches s" "memory s' = memory s"
    by (subst d(9), simp)+
  have "slab_store s' C B X" by (rule slab_store_cong [OF B(1) d(8) e(1-3)]) (simp add: e(4))
  moreover have "insert (f, 0) V \<union> B = insert (f, 0) (V \<union> B)" "insert (f, 0) V \<inter> B = {}" using B(3) d(2) by blast+
  ultimately show "objs s' C (insert (f, 0) V) X" unfolding objs_store using d(1) by metis
qed

lemma kernel_ok_cong:
  assumes ag: "agree m m' (tables m 4 g)" and "kernel_ok m V g" and "V \<subseteq> V'"
  shows "kernel_ok m' V' g"
  using assms(2,3) tree_cong [OF ag] half_cong [OF ag] unfolding kernel_ok_def by auto

lemma mm_create_makes:
  fixes s s' :: "'a mms_scheme"
  assumes o: "objs s C V X" and c: "mm_slab \<in> C" and k: "kernel_ok (memory s) V g"
    and tV: "\<forall>t\<in>tables (memory s) 4 g. (t, 0) \<in> V" and cr: "initial_cr3 s = of_nat g * PAGE_SIZE"
    and run: "mm_create s = Inr (mm, s')" and ne: "mm \<noteq> 0"
  obtains f where "space_ok s' C (insert (f, 0) V) (insert (mm_slab, mm) X) mm []" and "(mm_slab, mm) \<notin> X"
    and "(f, 0) \<notin> V" and "mm_frame s' mm = f" and "others_kept V s s'" and "user_held (memory s') f = {#}"
    and "kernel_tables (memory s') f = insert f (kernel_tables (memory s) g - {g})"
    and "\<And>x. 2 ^ 47 \<le> unat x \<Longrightarrow> unat x < 2 ^ 48 \<Longrightarrow> resolve (memory s') 4 f x = resolve (memory s) 4 g x"
    and "\<And>a. a \<noteq> mm \<Longrightarrow> mm_at s' a = mm_at s a" and "vma_at s' = vma_at s"
    and "mm_links s' = list_init (MmHead mm) (mm_links s)" and "initial_cr3 s' = initial_cr3 s"
proof -
  obtain p s1 where al: "slab_cache_alloc mm_slab s = Inr (p, s1)"
    and ok1: "p \<noteq> 0 \<Longrightarrow> objs s1 C V (insert (mm_slab, p) X)" and fresh: "p \<noteq> 0 \<Longrightarrow> (mm_slab, p) \<notin> X"
    using slab_cache_alloc_cases [OF o c] by blast
  have p0: "p \<noteq> 0" using run ne by (auto simp: mm_create_def al)
  let ?s2 = "upd_mm_links (list_init (MmHead p)) s1"
  obtain r s3 where ba: "do_buddy_alloc 0 ?s2 = (r, s3)" by fastforce
  have r: "r \<noteq> None"
  proof
    assume "r = None"
    then have "mm = 0" using run p0 by (simp add: mm_create_def al ba)
    then show False using ne by simp
  qed
  then obtain pg where pg: "r = Some pg" by blast
  have o2: "objs ?s2 C V (insert (mm_slab, p) X)"
    using ok1 [OF p0] objs_same [of ?s2 s1] by (simp add: same_slabs_def upd_mm_links_def)
  define f where "f = page_frame ?s2 pg"
  note b = do_buddy_alloc_objs [OF o2 ba [unfolded pg], folded f_def]
  note k1 = slab_cache_alloc_kept [OF o c al]
  have u1: "mm_links s1 = mm_links s" "vma_at s1 = vma_at s" "mm_at s1 = mm_at s" "initial_cr3 s1 = initial_cr3 s"
    using upper_fields [OF paging_of_slabs [OF slab_cache_alloc_more [OF al]]]
      initial_of_slabs [OF slab_cache_alloc_more [OF al]] by simp_all
  have u3: "mm_links s3 = list_init (MmHead p) (mm_links s)" "vma_at s3 = vma_at s" "mm_at s3 = mm_at s"
    "initial_cr3 s3 = initial_cr3 s" "memory s3 = memory s1"
    by (subst b(7), simp add: upd_mm_links_def u1)+
  let ?mm' = "\<lparr>mm_pt = pg, mm_cr3 = of_nat f * PAGE_SIZE\<rparr>"
  let ?m' = "memcpy (memset (memory s1) (table_addr f) 0 PAGE_SIZE) (table_addr f + 2048) (table_addr g + 2048) 2048"
  have e: "of_nat (pt_index HIGHER_BASE 4) * 8 = (2048 :: u64)" "PAGE_SIZE - 2048 = (2048 :: u64)"
    "va (of_nat g * PAGE_SIZE + 2048) = va (of_nat g * PAGE_SIZE) + 2048"
    by (simp_all add: pt_index_def pt_shift_def HIGHER_BASE_def PAGE_SIZE_def va_def)
  have fin: "mm = p" "s' = s3\<lparr>mm_at := (mm_at s)(p := ?mm'), memory := ?m'\<rparr>"
    using run p0 by (auto simp: mm_create_def al ba pg b(8) Let_def u3 cr table_addr_def e)
  have g: "g < 2 ^ 52" using k by (simp add: kernel_ok_def)
  have gV: "(g, 0) \<in> V" using tV tables_root [of 4 g] by simp
  have fg: "f \<noteq> g" using b(2) gV by blast
  have ag1: "agree (memory s) (memory s1) (tables (memory s) 4 g)" by (rule kept_agree [OF o k1]) (use tV in blast)
  have k1': "kernel_ok (memory s1) V g" by (rule kernel_ok_cong [OF ag1 k order_refl])
  have hc: "half_copy (memory s1) ?m' g f" by (rule half_copy_made [OF b(4) g fg])
  note t = half_copy_tree [OF hc b(4) k1' b(2)]
  have m': "memory s' = ?m'" and z': "buddy_zones s' = buddy_zones s3" by (simp_all add: fin)
  have lay: "layout s' = layout ?s2" using b(5) z' by (simp add: layout_def)
  have fp: "f * 4096 + 4096 \<le> 2 ^ 47" using objs_bound [OF b(1), of f 0] by simp
  have frame': "frame (of_nat f * PAGE_SIZE) = f" using frame_addr(1) [OF b(4)] by (simp add: frame_def)
  have o': "objs s' C (insert (f, 0) V) (insert (mm_slab, mm) X)"
    unfolding fin(1)
  proof (rule objs_other [OF b(1)])
    show "buddy_ok s' (insert (f, 0) V \<union> B) \<and> insert (f, 0) V \<inter> B = {}"
      if "buddy_ok s3 (insert (f, 0) V \<union> B)" "insert (f, 0) V \<inter> B = {}" for B
      using that buddy_ok_cong [OF z'] by simp
    fix x assume "memory s' x \<noteq> memory s3 x"
    then have "x \<in> page_at f" using half_copyD(3) [OF hc, of x] by (auto simp: m' u3(5))
    then have "in_block (f, 0) x" using page_at_block [OF fp] by blast
    then show "\<exists>b\<in>insert (f, 0) V. in_block b x" by blast
  qed (simp_all add: fin layout_def)
  have kt: "kernel_tables (memory s1) g = kernel_tables (memory s) g" using half_cong [OF ag1] by simp
  have tk: "(t, 0) \<in> insert (f, 0) V" if "t \<in> kernel_tables (memory s') f" for t
    using that k unfolding m' t(4) kt kernel_ok_def by blast
  have ui: "user_in (memory s') (insert (f, 0) V) f"
    using b(3,4) t(3,5,6) tk unfolding user_in_def m' by (simp add: owns_def)
  have at: "mm_at s' mm = ?mm'" by (simp add: fin)
  have mf: "mm_frame s' mm = f" by (simp add: mm_frame_def at frame')
  have no: "space s' [] x = None" for x by (simp add: space_def)
  have sh: "shown (memory s') f (space s' [])"
    unfolding shown_def shown_at_def using t(7) by (simp add: no m')
  have re: "regions s' mm []" by (simp add: regions_def fin u3 dlist_init)
  have pv: "valid_page s' pg" "page_frame s' pg = f"
    using b(6) lay by (simp_all add: valid_page_cong [OF lay] page_frame_cong [OF lay] f_def)
  have "space_ok s' C (insert (f, 0) V) (insert (mm_slab, mm) X) mm []"
    unfolding space_ok_def mf at using o' re ui sh pv by (simp add: paged_def)
  moreover have "others_kept V s s'"
  proof -
    have "memory s' x = memory s1 x" if v: "v \<in> V" "in_block v x" for v x
    proof (rule ccontr)
      assume "memory s' x \<noteq> memory s1 x"
      then have "x \<in> page_at f" using half_copyD(3) [OF hc, of x] by (auto simp: m')
      then have "in_block (f, 0) x" using page_at_block [OF fp] by blast
      moreover obtain B where "buddy_ok s3 (insert (f, 0) V \<union> B)" using b(1) unfolding objs_store by blast
      moreover have "v \<noteq> (f, 0)" using v(1) b(2) by blast
      ultimately show False using used_apart [of s3 "insert (f, 0) V \<union> B" v "(f, 0)" x] v by blast
    qed
    then have "others_kept V s1 s'" using lay by (simp add: others_kept_def layout_def upd_mm_links_def)
    then show ?thesis by (rule others_kept_trans [OF k1])
  qed
  moreover have "resolve (memory s') 4 f x = resolve (memory s) 4 g x" if "2 ^ 47 \<le> unat x" "unat x < 2 ^ 48" for x
    using t(8) [OF that] tree_cong [OF ag1] by (simp add: m')
  moreover have "kernel_tables (memory s') f = insert f (kernel_tables (memory s) g - {g})" using t(4) kt by (simp add: m')
  ultimately show thesis
    using that [of f] fresh [OF p0] b(2) mf t(5) fin u3 m' by simp
qed

lemma mm_create_returns:
  fixes s :: "'a mms_scheme"
  assumes o: "objs s C V X" and c: "mm_slab \<in> C"
  shows "\<exists>mm s'. mm_create s = Inr (mm, s')"
proof -
  obtain p s1 where al: "slab_cache_alloc mm_slab s = Inr (p, s1)" and o1: "p \<noteq> 0 \<Longrightarrow> objs s1 C V (insert (mm_slab, p) X)"
    using slab_cache_alloc_cases [OF o c] by blast
  show ?thesis
  proof (cases "p = 0")
    case False
    let ?s2 = "upd_mm_links (list_init (MmHead p)) s1"
    obtain r s3 where ba: "do_buddy_alloc 0 ?s2 = (r, s3)" by fastforce
    have o2: "objs ?s2 C V (insert (mm_slab, p) X)"
      using o1 [OF False] objs_same [of ?s2 s1] by (simp add: same_slabs_def upd_mm_links_def)
    show ?thesis
    proof (cases r)
      case None
      then show ?thesis using False by (simp add: mm_create_def al ba)
    next
      case (Some pg)
      show ?thesis using False do_buddy_alloc_objs(8) [OF o2 ba [unfolded Some]] by (simp add: mm_create_def al ba Some Let_def)
    qed
  qed (simp add: mm_create_def al)
qed

text \<open>A call that finds no object or no page leaves everything as it was, but for free memory.\<close>

lemma mm_create_fails:
  fixes s s' :: "'a mms_scheme"
  assumes o: "objs s C V X" and c: "mm_slab \<in> C" and run: "mm_create s = Inr (0, s')"
  shows "objs s' C V X" and "others_kept V s s'" and "mm_at s' = mm_at s" and "vma_at s' = vma_at s"
    and "initial_cr3 s' = initial_cr3 s"
    and "(\<And>p. x = MmHead p \<Longrightarrow> (mm_slab, p) \<in> X) \<Longrightarrow>
      nxt (mm_links s') x = nxt (mm_links s) x \<and> prv (mm_links s') x = prv (mm_links s) x"
proof -
  obtain p s1 where al: "slab_cache_alloc mm_slab s = Inr (p, s1)" and o0: "p = 0 \<Longrightarrow> objs s1 C V X"
    and o1: "p \<noteq> 0 \<Longrightarrow> objs s1 C V (insert (mm_slab, p) X)" and fresh: "p \<noteq> 0 \<Longrightarrow> (mm_slab, p) \<notin> X"
    using slab_cache_alloc_cases [OF o c] by blast
  note k1 = slab_cache_alloc_kept [OF o c al]
  note u1 = upper_fields [OF paging_of_slabs [OF slab_cache_alloc_more [OF al]]]
    initial_of_slabs [OF slab_cache_alloc_more [OF al]]
  have "objs s' C V X \<and> others_kept V s s' \<and> mm_at s' = mm_at s \<and> vma_at s' = vma_at s \<and> initial_cr3 s' = initial_cr3 s \<and>
    ((\<forall>p. x = MmHead p \<longrightarrow> (mm_slab, p) \<in> X) \<longrightarrow>
      nxt (mm_links s') x = nxt (mm_links s) x \<and> prv (mm_links s') x = prv (mm_links s) x)"
  proof (cases "p = 0")
    case True
    then have "s' = s1" using run by (simp add: mm_create_def al)
    then show ?thesis using o0 [OF True] k1 u1 by simp
  next
    case False
    let ?s2 = "upd_mm_links (list_init (MmHead p)) s1"
    obtain r s3 where ba: "do_buddy_alloc 0 ?s2 = (r, s3)" by fastforce
    have o2: "objs ?s2 C V (insert (mm_slab, p) X)"
      using o1 [OF False] objs_same [of ?s2 s1] by (simp add: same_slabs_def upd_mm_links_def)
    have r: "r = None"
    proof (rule ccontr)
      assume "r \<noteq> None"
      then obtain pg where pg: "r = Some pg" by blast
      note b = do_buddy_alloc_objs [OF o2 ba [unfolded pg]]
      show False using run False by (simp add: mm_create_def al ba pg b(8) Let_def)
    qed
    obtain B where "buddy_ok ?s2 (V \<union> B)" using o2 unfolding objs_store by blast
    then have s3: "s3 = ?s2" using do_buddy_alloc_None(1) ba r by (auto simp: buddy_ok_def)
    let ?s4 = "slab_cache_free mm_slab p ?s2"
    have s': "s' = ?s4" using run False by (simp add: mm_create_def al ba r s3)
    have px: "(mm_slab, p) \<in> insert (mm_slab, p) X" by simp
    have "insert (mm_slab, p) X - {(mm_slab, p)} = X" using fresh [OF False] by blast
    then have "objs ?s4 C V X" using slab_cache_free_spec [OF o2 px] by metis
    moreover have "others_kept V s ?s2" using k1 by (simp add: others_kept_def upd_mm_links_def layout_def)
    then have "others_kept V s ?s4" using slab_cache_free_kept [OF o2 px] by (rule others_kept_trans)
    moreover note u4 = upper_fields [OF paging_of_slabs [OF slab_cache_free_more], of mm_slab p ?s2]
      initial_of_slabs [OF slab_cache_free_more, of mm_slab p ?s2]
    moreover have "x \<noteq> MmHead p" if "\<forall>p. x = MmHead p \<longrightarrow> (mm_slab, p) \<in> X" using that fresh [OF False] by blast
    ultimately show ?thesis
      unfolding s' using u1 by (simp add: upd_mm_links_def list_init_next list_init_prev)
  qed
  then show "objs s' C V X" "others_kept V s s'" "mm_at s' = mm_at s" "vma_at s' = vma_at s" "initial_cr3 s' = initial_cr3 s"
    "(\<And>p. x = MmHead p \<Longrightarrow> (mm_slab, p) \<in> X) \<Longrightarrow>
      nxt (mm_links s') x = nxt (mm_links s) x \<and> prv (mm_links s') x = prv (mm_links s) x" by blast+
qed

end
