(* ===== verification/Mm_Bytes.thy ===== *)
theory Mm_Bytes
  imports Mm_Create
begin

text \<open>
  The bytes of a process: what it reads at a user address, and what \<open>mset\<close> and \<open>mcopy\<close> do to them. Both
  work page by page through the translation \<open>pt_addr\<close>.
\<close>

subsection \<open>Bytes of a process\<close>

text \<open>What a process reads at a user address.\<close>

definition user_byte :: "'a mms_scheme \<Rightarrow> u64 \<Rightarrow> u64 \<Rightarrow> u8 option" where
  "user_byte s mm x = map_option (\<lambda>(p, _). memory s (va p)) (resolve (memory s) 4 (mm_frame s mm) x)"

lemma byte_in_block:
  assumes "frame p \<in> pages_of b" and "fst b * 4096 + 2 ^ (12 + snd b) \<le> 2 ^ 47"
  shows "in_block b (va p)"
proof -
  have f: "frame p = unat p div 4096" unfolding frame_drop_bit unat_drop_bit_eq by (simp add: drop_bit_nat_def)
  have "fst b \<le> unat p div 4096" "unat p div 4096 < fst b + 2 ^ snd b" using assms(1) f by (simp_all add: pages_of_def)
  moreover have "unat p = unat p div 4096 * 4096 + unat p mod 4096" by simp
  moreover have "unat p mod 4096 < 4096" by simp
  moreover have "(2 :: nat) ^ (12 + snd b) = 4096 * 2 ^ snd b" by (simp add: power_add)
  ultimately have p: "fst b * 4096 \<le> unat p" "unat p < fst b * 4096 + 2 ^ (12 + snd b)" by linarith+
  then have "unat p < 2 ^ 47" using assms(2) by linarith
  then have "unat (va p) = unat p + KB" by (simp add: va_def HIGHER_BASE_def unat_word_ariths)
  then show ?thesis using p by (simp add: in_block_def)
qed

text \<open>A translated user address lies in a block of the process, outside all tables.\<close>

lemma user_byte_block:
  assumes sp: "space_ok s C V X mm as" and x: "unat x < 2 ^ 47" and r: "resolve (memory s) 4 (mm_frame s mm) x = Some (p, fl)"
  obtains b where "b \<in># user_held (memory s) (mm_frame s mm)" and "frame p \<in> pages_of b" and "in_block b (va p)"
    and "frame p \<notin> tables (memory s) 4 (mm_frame s mm)"
proof -
  note d = space_okD [OF sp]
  let ?f = "mm_frame s mm"
  have "space s as x \<noteq> None" using shown_none [OF d(10) x] r by auto
  then obtain q where q: "space s as x = Some q" by blast
  have "pt_addr (memory s) (table_addr ?f) x = p" using r by (simp add: pt_addr_resolve)
  then have "fresh_byte x p {} (set_mset (user_held (memory s) ?f)) (tables (memory s) 4 ?f)"
    using shown_some(2) [OF d(10) x q] by simp
  then obtain b where b: "b \<in># user_held (memory s) ?f" "frame p \<in> pages_of b" "frame p \<notin> tables (memory s) 4 ?f"
    unfolding fresh_byte_def by blast
  have "b \<in> V" using owns_in [OF user_inD(5) [OF d(9)] b(1)] .
  then have "fst b * 4096 + 2 ^ (12 + snd b) \<le> 2 ^ 47" using objs_bound [OF d(1), of "fst b" "snd b"] by simp
  then show thesis using that b byte_in_block by blast
qed


subsection \<open>Translations within a page\<close>

lemma pt_index_page:
  assumes "unat x div 4096 = unat y div 4096" and "l \<le> 3"
  shows "pt_index x (Suc l) = pt_index y (Suc l)"
proof -
  have "unat z div 2 ^ low_bits l = unat z div 4096 div 2 ^ (9 * l)" for z :: u64
    by (simp add: low_bits_def power_add div_mult2_eq)
  then show ?thesis using assms by (simp add: pt_index_eq)
qed

lemma resolve_page:
  assumes "unat x div 4096 = unat y div 4096" and "l \<le> 4" and "resolve m l f x = Some (p, fl)"
  shows "\<exists>q. resolve m l f y = Some (q, fl) \<and> drop_bit 12 q = drop_bit 12 p \<and> p AND mask 12 = x AND mask 12 \<and>
    q AND mask 12 = y AND mask 12"
  using assms(2,3)
proof (induction l arbitrary: f)
  case (Suc l)
  let ?e = "entry m f (pt_index x (Suc l))"
  have l: "l \<le> 3" using Suc.prems(1) by simp
  note i = pt_index_page [OF assms(1) l]
  have pr: "present ?e" using Suc.prems(2) by (auto simp: Let_def split: if_splits)
  show ?case
  proof (cases "final l ?e")
    case True
    have p: "p = (?e AND PTE_PHYS_MASK) OR (x AND mask (low_bits l))" "fl = perms ?e"
      using Suc.prems(2) pr True by (auto simp: Let_def)
    let ?q = "(?e AND PTE_PHYS_MASK) OR (y AND mask (low_bits l))"
    have "drop_bit 12 x = drop_bit 12 y"
      by (rule word_unat_eq_iff [THEN iffD2]) (use assms(1) in \<open>simp add: unat_drop_bit_eq drop_bit_nat_def\<close>)
    then have b: "bit x (12 + n) = bit y (12 + n)" for n by (metis bit_drop_bit_eq comp_apply)
    have "drop_bit 12 ?q = drop_bit 12 p"
      unfolding p by (rule bit_word_eqI) (simp add: bit_simps b)
    moreover have "z AND mask 12 = w AND mask 12" if "z = (?e AND PTE_PHYS_MASK) OR (w AND mask (low_bits l))" for z w
      unfolding that phys_mask_eq by (rule bit_word_eqI) (auto simp: bit_simps low_bits_def)
    moreover have "resolve m (Suc l) f y = Some (?q, fl)" using pr True p(2) by (simp add: Let_def flip: i)
    ultimately show ?thesis using p(1) by blast
  next
    case False
    have "resolve m l (target ?e) x = Some (p, fl)" using Suc.prems(2) pr False by (simp add: Let_def)
    from Suc.IH [OF _ this] show ?thesis using pr False l by (simp add: Let_def flip: i)
  qed
qed simp

lemma unat_page_parts: "unat z = unat (drop_bit 12 z) * 4096 + unat (z AND mask 12)" for z :: u64
proof -
  have "unat (z AND mask 12) = unat z mod 4096"
    by (simp add: take_bit_eq_mask [symmetric] unsigned_take_bit_eq take_bit_nat_def)
  moreover have "unat (drop_bit 12 z) = unat z div 4096" unfolding unat_drop_bit_eq by (simp add: drop_bit_nat_def)
  ultimately show ?thesis by simp
qed

lemma within_page:
  assumes "k < 4096 - unat x mod 4096"
  shows "unat (x + of_nat k :: u64) = unat x + k" and "(unat x + k) div 4096 = unat x div 4096"
    and "(unat x + k) mod 4096 = unat x mod 4096 + k"
proof -
  have r: "unat x mod 4096 + k < 4096" using assms by linarith
  have e: "unat x + k = unat x div 4096 * 4096 + (unat x mod 4096 + k)" by simp
  have "(unat x + k) div 4096 = unat x div 4096 + (unat x mod 4096 + k) div 4096"
    by (subst e) (rule div_mult_self3, simp)
  then show "(unat x + k) div 4096 = unat x div 4096" using r by simp
  have "(unat x + k) mod 4096 = (unat x mod 4096 + k) mod 4096" by (simp add: mod_simps)
  then show "(unat x + k) mod 4096 = unat x mod 4096 + k" using r by simp
  have "unat x div 4096 < 2 ^ 52" using unat_u64_bound [of x] by (intro less_mult_imp_div_less) simp
  then have "unat x div 4096 * 4096 + 4096 \<le> 2 ^ 64" by simp
  then have "unat x + k < 2 ^ 64" using e r by linarith
  then show "unat (x + of_nat k :: u64) = unat x + k" by (simp add: unat_word_ariths unat_of_nat)
qed

lemma resolve_offset:
  assumes r: "resolve m 4 f x = Some (p, fl)" and k: "k < 4096 - unat x mod 4096"
  shows "resolve m 4 f (x + of_nat k) = Some (p + of_nat k, fl)"
proof -
  note w = within_page [OF k]
  obtain q where q: "resolve m 4 f (x + of_nat k) = Some (q, fl)" "drop_bit 12 q = drop_bit 12 p"
    "p AND mask 12 = x AND mask 12" "q AND mask 12 = (x + of_nat k) AND mask 12"
    using resolve_page [OF _ _ r, of "x + of_nat k"] w by auto
  have low: "unat (z AND mask 12) = unat z mod 4096" for z :: u64
    by (simp add: take_bit_eq_mask [symmetric] unsigned_take_bit_eq take_bit_nat_def)
  have "unat q = unat p + k" using unat_page_parts [of q] unat_page_parts [of p] q(2-4) low [of x] low [of "x + of_nat k"] w by simp
  moreover from this have "unat (p + of_nat k) = unat p + k"
    using unat_u64_bound [of q] by (simp add: unat_word_ariths unat_of_nat)
  ultimately have "q = p + of_nat k" by (simp add: word_unat_eq_iff)
  then show ?thesis using q(1) by simp
qed

text \<open>
  Where the bytes of a table's user half lie: never at address 0, and in none of the tables \<open>T\<close>.
\<close>

definition image_ok :: "mem \<Rightarrow> nat \<Rightarrow> nat set \<Rightarrow> bool" where
  "image_ok m f T \<longleftrightarrow> (\<forall>x p fl. unat x < 2 ^ 47 \<longrightarrow> resolve m 4 f x = Some (p, fl) \<longrightarrow> p \<noteq> 0 \<and> (\<forall>t\<in>T. va p \<notin> page_at t))"

abbreviation byte_at :: "mem \<Rightarrow> nat \<Rightarrow> u64 \<Rightarrow> u64" where
  "byte_at m f x \<equiv> va (pt_addr m (table_addr f) x)"

text \<open>One step of the loops: the bytes of a piece that stays on its page.\<close>

lemma piece_addr:
  assumes im: "image_ok m f T" and x: "unat x + n \<le> 2 ^ 47" and n: "n \<le> 4096 - unat x mod 4096" and d: "pt_addr m (table_addr f) x \<noteq> 0"
    and k: "k < n"
  shows "pt_addr m (table_addr f) (x + of_nat k) = pt_addr m (table_addr f) x + of_nat k"
    and "resolve m 4 f (x + of_nat k) \<noteq> None" and "\<And>t. t \<in> T \<Longrightarrow> byte_at m f (x + of_nat k) \<notin> page_at t"
proof -
  obtain p fl where p: "resolve m 4 f x = Some (p, fl)" using d by (auto simp: pt_addr_resolve split: option.splits)
  have kp: "k < 4096 - unat x mod 4096" using k n by simp
  note r = resolve_offset [OF p kp]
  show "pt_addr m (table_addr f) (x + of_nat k) = pt_addr m (table_addr f) x + of_nat k" "resolve m 4 f (x + of_nat k) \<noteq> None"
    using p r by (simp_all add: pt_addr_resolve)
  have "unat (x + of_nat k) < 2 ^ 47" using within_page(1) [OF kp] x k by simp
  then show "byte_at m f (x + of_nat k) \<notin> page_at t" if "t \<in> T" for t
    using im r that unfolding image_ok_def by (auto simp: pt_addr_resolve)
qed

lemma image_split: "g ` {..<a + b :: nat} = g ` {..<a} \<union> (\<lambda>k. g (a + k)) ` {..<b}"
proof -
  have "{..<a + b} = {..<a} \<union> (\<lambda>k. a + k) ` {..<b}"
  proof (intro set_eqI iffI)
    fix x assume "x \<in> {..<a + b}"
    then show "x \<in> {..<a} \<union> (\<lambda>k. a + k) ` {..<b}"
      by (cases "x < a") (auto intro!: image_eqI [of x "\<lambda>k. a + k" "x - a"])
  qed auto
  then show ?thesis by (simp add: image_Un image_image)
qed

lemma agree_refl: "agree m m T"
  by (simp add: agree_def)

subsection \<open>Filling\<close>

text \<open>
  \<open>mset_loop\<close> fills the bytes of the range, in order, up to the first address that is not translated.
\<close>

lemma mset_loop_fills:
  assumes "image_ok m0 f T" and "tables m0 4 f \<subseteq> T" and "agree m0 m T" and "unat ptr + unat sz \<le> 2 ^ 47"
  shows "\<exists>n\<le>unat sz. mset_loop (table_addr f) ptr c sz m =
      (n = unat sz, \<lambda>y. if y \<in> (\<lambda>k. byte_at m0 f (ptr + of_nat k)) ` {..<n} then ucast c else m y) \<and>
    (\<forall>k<n. resolve m0 4 f (ptr + of_nat k) \<noteq> None) \<and> (n < unat sz \<longrightarrow> resolve m0 4 f (ptr + of_nat n) = None)"
  using assms(3,4)
proof (induction "table_addr f" ptr c sz m rule: mset_loop.induct)
  case (1 ptr c sz m)
  note im = assms(1)
  let ?A = "\<lambda>x. pt_addr m0 (table_addr f) x"
  have "agree m0 m (tables m0 4 f)" by (rule agree_mono [OF 1(2) assms(2)])
  then have same: "pt_addr m (table_addr f) = ?A" using tree_cong by (simp add: fun_eq_iff pt_addr_resolve)
  let ?d = "?A ptr" and ?t = "if page_left ptr < sz then page_left ptr else sz"
  note step = mset_loop.simps [of "table_addr f" ptr c sz m]
  show ?case
  proof (cases "sz = 0")
    case True
    then have "mset_loop (table_addr f) ptr c sz m = (True, m)" using step by simp
    then show ?thesis using True by simp
  next
    case sz: False
    then have pos: "0 < unat sz" by (simp add: unat_gt_0)
    show ?thesis
    proof (cases "?d = 0")
      case True
      have "unat ptr < 2 ^ 47" using 1(3) pos by linarith
      then have "resolve m0 4 f ptr = None"
        using True im unfolding image_ok_def by (auto simp: pt_addr_resolve split: option.splits)
      then show ?thesis using True sz pos by (intro exI [of _ 0]) (simp add: step same Let_def)
    next
      case d: False
      have t: "?t \<le> sz" "?t \<le> page_left ptr" by (simp_all add: not_less less_imp_le)
      then have tp: "unat ?t \<le> 4096 - unat ptr mod 4096"
        unfolding word_le_nat_alt [of ?t "page_left ptr"] unat_page_left by blast
      have tz: "unat ?t \<le> unat sz" using t(1) by (simp add: word_le_nat_alt)
      have bound: "unat ptr + unat ?t \<le> 2 ^ 47" using tz 1(3) by linarith
      note pc = piece_addr [OF im bound tp d]
      define m1 where "m1 = memset m (va (pt_addr m (table_addr f) ptr)) c ?t"
      have d': "pt_addr m (table_addr f) ptr \<noteq> 0" using d same by simp
      have m1: "m1 y = (if y \<in> (\<lambda>k. byte_at m0 f (ptr + of_nat k)) ` {..<unat ?t} then ucast c else m y)" for y
      proof -
        have "span (va ?d) (unat ?t) = (\<lambda>k. byte_at m0 f (ptr + of_nat k)) ` {..<unat ?t}"
          using pc(1) by (auto simp: span_iff va_def image_iff add.assoc add.commute add.left_commute)
        then show ?thesis by (simp add: m1_def same memset_eq)
      qed
      have ag: "agree m0 m1 T"
        unfolding agree_def
      proof (intro ballI)
        fix s a assume s: "s \<in> T" "a \<in> page_at s"
        then have "a \<notin> (\<lambda>k. byte_at m0 f (ptr + of_nat k)) ` {..<unat ?t}" using pc(3) [OF _ s(1)] by blast
        then show "m1 a = m0 a" using m1 1(2) s unfolding agree_def by auto
      qed
      have nx: "unat (ptr + ?t) = unat ptr + unat ?t" "unat (sz - ?t) = unat sz - unat ?t"
        using bound tz t(1) by (simp_all add: unat_word_ariths unat_sub)
      have b: "unat (ptr + ?t) + unat (sz - ?t) \<le> 2 ^ 47" unfolding nx using tz 1(3) by linarith
      have "\<exists>n\<le>unat (sz - ?t). mset_loop (table_addr f) (ptr + ?t) c (sz - ?t) m1 =
          (n = unat (sz - ?t), \<lambda>y. if y \<in> (\<lambda>k. byte_at m0 f (ptr + ?t + of_nat k)) ` {..<n} then ucast c else m1 y) \<and>
          (\<forall>k<n. resolve m0 4 f (ptr + ?t + of_nat k) \<noteq> None) \<and>
          (n < unat (sz - ?t) \<longrightarrow> resolve m0 4 f (ptr + ?t + of_nat n) = None)"
        by (rule 1(1) [OF sz refl refl refl d' ag [unfolded m1_def] b, folded m1_def])
      then obtain n where n: "n \<le> unat sz - unat ?t" "mset_loop (table_addr f) (ptr + ?t) c (sz - ?t) m1 =
          (n = unat sz - unat ?t, \<lambda>y. if y \<in> (\<lambda>k. byte_at m0 f (ptr + ?t + of_nat k)) ` {..<n} then ucast c else m1 y)"
          "\<forall>k<n. resolve m0 4 f (ptr + ?t + of_nat k) \<noteq> None"
          "n < unat sz - unat ?t \<longrightarrow> resolve m0 4 f (ptr + ?t + of_nat n) = None"
        unfolding nx by blast
      have off: "ptr + ?t + of_nat k = ptr + of_nat (unat ?t + k)" for k by (simp add: add.assoc)
      let ?n = "unat ?t + n"
      have "mset_loop (table_addr f) ptr c sz m = mset_loop (table_addr f) (ptr + ?t) c (sz - ?t) m1"
        using sz d by (simp add: step same Let_def m1_def)
      also have "\<dots> = (?n = unat sz, \<lambda>y. if y \<in> (\<lambda>k. byte_at m0 f (ptr + of_nat k)) ` {..<?n} then ucast c else m y)"
        unfolding n(2) image_split off using tz by (auto simp: fun_eq_iff m1)
      finally have run: "mset_loop (table_addr f) ptr c sz m =
        (?n = unat sz, \<lambda>y. if y \<in> (\<lambda>k. byte_at m0 f (ptr + of_nat k)) ` {..<?n} then ucast c else m y)" .
      have "resolve m0 4 f (ptr + of_nat k) \<noteq> None" if "k < ?n" for k
      proof (cases "k < unat ?t")
        case False
        then have "k = unat ?t + (k - unat ?t)" "k - unat ?t < n" using that by simp_all
        then show ?thesis using n(3) off [of "k - unat ?t"] by metis
      qed (rule pc(2))
      then show ?thesis using run n(1,4) tz unfolding off by (intro exI [of _ ?n]) auto
    qed
  qed
qed

subsection \<open>Copying\<close>

text \<open>The two ranges lie in different bytes of memory, and no two bytes of the first one are the same.\<close>

definition no_overlap :: "mem \<Rightarrow> nat \<Rightarrow> nat \<Rightarrow> u64 \<Rightarrow> u64 \<Rightarrow> nat \<Rightarrow> bool" where
  "no_overlap m f g dst src n \<longleftrightarrow>
     (\<forall>i<n. resolve m 4 f (dst + of_nat i) \<noteq> None \<longrightarrow>
       (\<forall>j<n. byte_at m f (dst + of_nat i) \<noteq> byte_at m g (src + of_nat j)) \<and>
       (\<forall>j<n. resolve m 4 f (dst + of_nat j) \<noteq> None \<longrightarrow> i \<noteq> j \<longrightarrow>
          byte_at m f (dst + of_nat i) \<noteq> byte_at m f (dst + of_nat j)))"

lemma no_overlap_tail:
  assumes "no_overlap m f g dst src n" and "t \<le> n"
  shows "no_overlap m f g (dst + of_nat t) (src + of_nat t) (n - t)"
proof -
  have shift: "z + of_nat t + of_nat k = z + of_nat (t + k)" for z :: u64 and k by (simp add: add.assoc)
  show ?thesis
    unfolding no_overlap_def shift
  proof (intro allI impI conjI)
    fix i j assume i: "i < n - t" "resolve m 4 f (dst + of_nat (t + i)) \<noteq> None" and j: "j < n - t"
    have lt: "t + i < n" "t + j < n" using i j by simp_all
    show "byte_at m f (dst + of_nat (t + i)) \<noteq> byte_at m g (src + of_nat (t + j))"
      using assms(1) lt i(2) unfolding no_overlap_def by blast
    assume "resolve m 4 f (dst + of_nat (t + j)) \<noteq> None" "i \<noteq> j"
    moreover have "t + i \<noteq> t + j" using \<open>i \<noteq> j\<close> by simp
    ultimately show "byte_at m f (dst + of_nat (t + i)) \<noteq> byte_at m f (dst + of_nat (t + j))"
      using assms(1) lt i(2) unfolding no_overlap_def by blast
  qed
qed

text \<open>
  \<open>mcopy_loop\<close> writes the bytes of the destination up to the first address that is not translated on
  either side, and nothing else; if the ranges do not overlap they are those of the source.
\<close>

lemma mcopy_loop_copies:
  assumes "image_ok m0 f T" and "tables m0 4 f \<subseteq> T" and "tables m0 4 g \<subseteq> T" and "agree m0 m T" and "unat dst + unat sz \<le> 2 ^ 47"
  shows "\<exists>n\<le>unat sz. \<exists>m'. mcopy_loop (table_addr f) (table_addr g) dst src sz m = (n = unat sz, m') \<and>
    (\<forall>y. y \<notin> (\<lambda>k. byte_at m0 f (dst + of_nat k)) ` {..<n} \<longrightarrow> m' y = m y) \<and>
    (\<forall>k<n. resolve m0 4 f (dst + of_nat k) \<noteq> None \<and> resolve m0 4 g (src + of_nat k) \<noteq> None) \<and>
    (n < unat sz \<longrightarrow> pt_addr m0 (table_addr f) (dst + of_nat n) = 0 \<or> pt_addr m0 (table_addr g) (src + of_nat n) = 0) \<and>
    (no_overlap m0 f g dst src (unat sz) \<longrightarrow>
      (\<forall>k<n. m' (byte_at m0 f (dst + of_nat k)) = m (byte_at m0 g (src + of_nat k))))"
  using assms(4,5)
proof (induction "table_addr f" "table_addr g" dst src sz m rule: mcopy_loop.induct)
  case (1 dst src sz m)
  note im = assms(1)
  let ?A = "\<lambda>x. pt_addr m0 (table_addr f) x" and ?B = "\<lambda>x. pt_addr m0 (table_addr g) x"
  have same: "pt_addr m (table_addr f) = ?A" "pt_addr m (table_addr g) = ?B"
    using tree_cong [OF agree_mono [OF 1(2) assms(2)]] tree_cong [OF agree_mono [OF 1(2) assms(3)]]
    by (simp_all add: fun_eq_iff pt_addr_resolve)
  define t where "t = (if (if page_left dst < page_left src then page_left dst else page_left src) < sz
    then (if page_left dst < page_left src then page_left dst else page_left src) else sz)"
  note step = mcopy_loop.simps [of "table_addr f" "table_addr g" dst src sz m]
  show ?case
  proof (cases "sz = 0")
    case True
    then have "mcopy_loop (table_addr f) (table_addr g) dst src sz m = (True, m)" using step by simp
    then show ?thesis using True by simp
  next
    case sz: False
    then have pos: "0 < unat sz" by (simp add: unat_gt_0)
    show ?thesis
    proof (cases "?B src = 0 \<or> ?A dst = 0")
      case True
      then have "mcopy_loop (table_addr f) (table_addr g) dst src sz m = (False, m)" using step sz by (simp add: same Let_def)
      then show ?thesis using True pos by (intro exI [of _ 0]) auto
    next
      case False
      then have d: "?A dst \<noteq> 0" and b: "?B src \<noteq> 0" by simp_all
      have t: "t \<le> sz" "t \<le> page_left dst" "t \<le> page_left src" by (auto simp: t_def not_less)
      then have tp: "unat t \<le> 4096 - unat dst mod 4096" "unat t \<le> 4096 - unat src mod 4096" "unat t \<le> unat sz"
        unfolding word_le_nat_alt unat_page_left by blast+
      have bound: "unat dst + unat t \<le> 2 ^ 47" using tp 1(3) by linarith
      note pc = piece_addr [OF im bound tp(1) d]
      obtain p fl where p: "resolve m0 4 g src = Some (p, fl)" using b by (auto simp: pt_addr_resolve split: option.splits)
      have pb: "?B (src + of_nat k) = ?B src + of_nat k" "resolve m0 4 g (src + of_nat k) \<noteq> None" if "k < unat t" for k
        using resolve_offset [OF p, of k] p that tp(2) by (simp_all add: pt_addr_resolve)
      define m1 where "m1 = memcpy m (va (?A dst)) (va (?B src)) t"
      have off: "va (?A dst) + of_nat k = byte_at m0 f (dst + of_nat k)" "va (?B src) + of_nat k = byte_at m0 g (src + of_nat k)"
        if "k < unat t" for k using pc(1) [OF that] pb(1) [OF that] by (simp_all add: va_def)
      have m1: "m1 y = m y" if "y \<notin> (\<lambda>k. byte_at m0 f (dst + of_nat k)) ` {..<unat t}" for y
        unfolding m1_def memcpy_def by (rule memcpy_loop_other) (use that off(1) in \<open>auto simp: span_iff\<close>)
      have ag: "agree m0 m1 T"
        unfolding agree_def
      proof (intro ballI)
        fix u a assume u: "u \<in> T" "a \<in> page_at u"
        then have "a \<notin> (\<lambda>k. byte_at m0 f (dst + of_nat k)) ` {..<unat t}" using pc(3) [OF _ u(1)] by blast
        then show "m1 a = m0 a" using m1 1(2) u unfolding agree_def by auto
      qed
      have nx: "unat (dst + t) = unat dst + unat t" "unat (sz - t) = unat sz - unat t"
        using bound tp t(1) by (simp_all add: unat_word_ariths unat_sub)
      have bd: "unat (dst + t) + unat (sz - t) \<le> 2 ^ 47" unfolding nx using tp 1(3) by linarith
      have run: "mcopy_loop (table_addr f) (table_addr g) dst src sz m =
          mcopy_loop (table_addr f) (table_addr g) (dst + t) (src + t) (sz - t) m1"
        using step sz d b by (simp add: same Let_def m1_def t_def)
      have shift: "dst + t + of_nat k = dst + of_nat (unat t + k)" "src + t + of_nat k = src + of_nat (unat t + k)" for k
        by (simp_all add: add.assoc)
      have cond: "\<not> (pt_addr m (table_addr g) src = 0 \<or> pt_addr m (table_addr f) dst = 0)" using d b same by simp
      note IH = 1(1) [OF sz refl refl refl refl refl refl cond, folded t_def, unfolded same, folded m1_def, OF ag bd, unfolded shift nx]
      obtain n m' where n: "n \<le> unat sz - unat t" "mcopy_loop (table_addr f) (table_addr g) (dst + t) (src + t) (sz - t) m1 = (n = unat sz - unat t, m')"
        "\<And>y. y \<notin> (\<lambda>k. byte_at m0 f (dst + of_nat (unat t + k))) ` {..<n} \<Longrightarrow> m' y = m1 y"
        "\<And>k. k < n \<Longrightarrow> resolve m0 4 f (dst + of_nat (unat t + k)) \<noteq> None \<and> resolve m0 4 g (src + of_nat (unat t + k)) \<noteq> None"
        "n < unat sz - unat t \<Longrightarrow> ?A (dst + of_nat (unat t + n)) = 0 \<or> ?B (src + of_nat (unat t + n)) = 0"
        "no_overlap m0 f g (dst + t) (src + t) (unat sz - unat t) \<Longrightarrow>
          (\<forall>k<n. m' (byte_at m0 f (dst + of_nat (unat t + k))) = m1 (byte_at m0 g (src + of_nat (unat t + k))))"
        using IH by blast
      let ?n = "unat t + n"
      have "(?n = unat sz) = (n = unat sz - unat t)" using tp by auto
      then have res: "mcopy_loop (table_addr f) (table_addr g) dst src sz m = (?n = unat sz, m')" using run n(2) by simp
      have out: "m' y = m y" if "y \<notin> (\<lambda>k. byte_at m0 f (dst + of_nat k)) ` {..<?n}" for y
        using n(3) [of y] m1 [of y] that unfolding image_split by simp
      have mapped: "resolve m0 4 f (dst + of_nat k) \<noteq> None" "resolve m0 4 g (src + of_nat k) \<noteq> None" if "k < ?n" for k
      proof -
        have "resolve m0 4 f (dst + of_nat k) \<noteq> None \<and> resolve m0 4 g (src + of_nat k) \<noteq> None"
        proof (cases "k < unat t")
          case False
          then have "k = unat t + (k - unat t)" "k - unat t < n" using that by simp_all
          then show ?thesis using n(4) [of "k - unat t"] by simp
        qed (use pc(2) pb(2) in blast)
        then show "resolve m0 4 f (dst + of_nat k) \<noteq> None" "resolve m0 4 g (src + of_nat k) \<noteq> None" by simp_all
      qed
      have copied: "m' (byte_at m0 f (dst + of_nat k)) = m (byte_at m0 g (src + of_nat k))"
        if no: "no_overlap m0 f g dst src (unat sz)" and k: "k < ?n" for k
      proof -
        have ks: "k < unat sz" using k n(1) tp(3) by linarith
        have apart: "byte_at m0 g (src + of_nat k) \<noteq> byte_at m0 f (dst + of_nat i)" if i: "i < ?n" for i
        proof -
          have "i < unat sz" using i n(1) tp(3) by linarith
          then have "byte_at m0 f (dst + of_nat i) \<noteq> byte_at m0 g (src + of_nat k)"
            using no mapped(1) [OF i] ks unfolding no_overlap_def by blast
          then show ?thesis by (rule not_sym)
        qed
        show ?thesis
        proof (cases "k < unat t")
          case True
          have "m1 (va (?A dst) + of_nat k) = m (va (?B src) + of_nat k)"
            unfolding m1_def memcpy_def
          proof (rule memcpy_loop_copies [OF unat_u64_bound _ True])
            fix i j :: nat assume i: "i < unat t" "j < i"
            have j: "j < unat t" using i by simp
            have "i < unat sz" "j < unat sz" using i j tp(3) by simp_all
            then have "byte_at m0 f (dst + of_nat j) \<noteq> byte_at m0 g (src + of_nat i)"
              using no pc(2) [OF j] unfolding no_overlap_def by blast
            then show "va (?A dst) + of_nat j \<noteq> va (?B src) + of_nat i" unfolding off(1) [OF j] off(2) [OF i(1)] .
          qed
          then have "m1 (byte_at m0 f (dst + of_nat k)) = m (byte_at m0 g (src + of_nat k))" by (simp only: off [OF True])
          moreover have "m' (byte_at m0 f (dst + of_nat k)) = m1 (byte_at m0 f (dst + of_nat k))"
          proof (rule n(3), rule notI, elim imageE)
            fix i assume i: "byte_at m0 f (dst + of_nat k) = byte_at m0 f (dst + of_nat (unat t + i))" "i \<in> {..<n}"
            have "resolve m0 4 f (dst + of_nat (unat t + i)) \<noteq> None" using n(4) i(2) by simp
            moreover have "unat t + i < unat sz" "k \<noteq> unat t + i" using i(2) n(1) tp(3) True by auto
            ultimately show False using no ks i(1) pc(2) [OF True] unfolding no_overlap_def by blast
          qed
          ultimately show ?thesis by simp
        next
          case False
          then have k': "k = unat t + (k - unat t)" "k - unat t < n" using k by simp_all
          have "no_overlap m0 f g (dst + t) (src + t) (unat sz - unat t)" using no_overlap_tail [OF no tp(3)] by simp
          then have "m' (byte_at m0 f (dst + of_nat k)) = m1 (byte_at m0 g (src + of_nat k))" using n(6) k' by metis
          moreover have "m1 (byte_at m0 g (src + of_nat k)) = m (byte_at m0 g (src + of_nat k))"
            by (rule m1) (use apart in auto)
          ultimately show ?thesis by simp
        qed
      qed
      have "?n \<le> unat sz" using n(1) tp(3) by linarith
      moreover have "?A (dst + of_nat ?n) = 0 \<or> ?B (src + of_nat ?n) = 0" if "?n < unat sz"
        using n(5) that by simp
      ultimately show ?thesis using res out mapped copied by blast
    qed
  qed
qed

subsection \<open>Writes of a process to its own memory\<close>

lemma space_image:
  assumes sp: "space_ok s C V X mm as"
    and T: "\<And>t. t \<in> T \<Longrightarrow> t \<in> tables (memory s) 4 (mm_frame s mm) \<or> (t, 0) \<in> V - mine (memory s) (mm_frame s mm)"
  shows "image_ok (memory s) (mm_frame s mm) T"
  unfolding image_ok_def
proof (intro allI impI conjI ballI)
  note d = space_okD [OF sp]
  let ?m = "memory s" and ?f = "mm_frame s mm"
  fix x p fl assume x: "unat x < 2 ^ 47" and r: "resolve ?m 4 ?f x = Some (p, fl)"
  obtain b where b: "b \<in># user_held ?m ?f" "frame p \<in> pages_of b" "in_block b (va p)" "frame p \<notin> tables ?m 4 ?f"
    by (rule user_byte_block [OF sp x r])
  have "fst b \<noteq> 0" using owns_nonzero [OF user_inD(5) [OF d(9)], of "snd b"] b(1) by (metis prod.collapse)
  then show "p \<noteq> 0" using b(2) by (auto simp: frame_def pages_of_def)
  fix t assume t: "t \<in> T"
  have tV: "(t, 0) \<in> V" using T [OF t] user_inD(4) [OF d(9)] by blast
  have "b \<noteq> (t, 0)"
  proof
    assume "b = (t, 0)"
    then have "t = frame p" "(t, 0) \<in> mine ?m ?f" using b by (auto simp: pages_of_def mine_def)
    then show False using T [OF t] b(4) by blast
  qed
  moreover obtain B where "buddy_ok s (V \<union> B)" using d(1) unfolding objs_store by blast
  moreover have "b \<in> V" using owns_in [OF user_inD(5) [OF d(9)] b(1)] .
  ultimately have "\<not> in_block (t, 0) (va p)" using used_apart [of s "V \<union> B" b "(t, 0)"] b(3) tV by blast
  moreover have "t * 4096 + 4096 \<le> 2 ^ 47" using objs_bound [OF d(1) tV] by simp
  ultimately show "va p \<notin> page_at t" using page_at_block by blast
qed

definition own_write :: "'a mms_scheme \<Rightarrow> u64 \<Rightarrow> mem \<Rightarrow> bool" where
  "own_write s mm m \<longleftrightarrow> (\<forall>y. m y \<noteq> memory s y \<longrightarrow>
     (\<exists>x. unat x < 2 ^ 47 \<and> resolve (memory s) 4 (mm_frame s mm) x \<noteq> None \<and> y = byte_at (memory s) (mm_frame s mm) x))"

lemma own_writeD:
  assumes "own_write s mm m" and "m y \<noteq> memory s y"
  obtains x p fl where "unat x < 2 ^ 47" and "resolve (memory s) 4 (mm_frame s mm) x = Some (p, fl)" and "y = va p"
proof -
  obtain x where x: "unat x < 2 ^ 47" "resolve (memory s) 4 (mm_frame s mm) x \<noteq> None" "y = byte_at (memory s) (mm_frame s mm) x"
    using assms unfolding own_write_def by blast
  then show thesis using that by (auto simp: pt_addr_resolve)
qed

lemma own_write_ok:
  assumes sp: "space_ok s C V X mm as" and w: "own_write s mm m"
  shows "space_ok (s\<lparr>memory := m\<rparr>) C V X mm as" and "others_kept (V - mine (memory s) (mm_frame s mm)) s (s\<lparr>memory := m\<rparr>)"
    and "agree (memory s) m (tables (memory s) 4 (mm_frame s mm))" and "objs (s\<lparr>memory := m\<rparr>) C V X"
proof -
  note d = space_okD [OF sp]
  let ?f = "mm_frame s mm" and ?s = "s\<lparr>memory := m\<rparr>"
  have block: "\<exists>b\<in>#user_held (memory s) ?f. in_block b y" if "m y \<noteq> memory s y" for y
    using own_writeD [OF w that] user_byte_block [OF sp] by metis
  have "owns V (user_held (memory s) ?f)" by (rule user_inD(5) [OF d(9)])
  note HV = owns_in [OF this]
  have im: "image_ok (memory s) ?f (tables (memory s) 4 ?f)" by (rule space_image [OF sp]) simp
  show ag: "agree (memory s) m (tables (memory s) 4 ?f)"
    unfolding agree_def
  proof (intro ballI)
    fix t a assume t: "t \<in> tables (memory s) 4 ?f" "a \<in> page_at t"
    show "m a = memory s a"
    proof (rule ccontr)
      assume "m a \<noteq> memory s a"
      then obtain x p fl where "unat x < 2 ^ 47" "resolve (memory s) 4 ?f x = Some (p, fl)" "a = va p"
        by (rule own_writeD [OF w])
      then show False using im t unfolding image_ok_def by blast
    qed
  qed
  have "\<exists>b\<in>V. in_block b y" if "m y \<noteq> memory s y" for y using block [OF that] HV by blast
  then show o: "objs ?s C V X"
    by (intro objs_other [OF d(1)]) (use buddy_ok_cong [of ?s s] in \<open>auto simp: layout_def\<close>)
  have mf: "mm_frame ?s mm = ?f" by (simp add: mm_frame_def)
  have "space ?s as = space s as" "regions ?s mm as = regions s mm as"
    by (rule space_cong, simp) (rule regions_cong, simp_all)
  then show "space_ok ?s C V X mm as"
    unfolding space_ok_def mf
    using o d user_in_cong [OF ag order_refl d(9)] shown_cong [OF ag d(10)]
    by (simp add: paged_def valid_page_cong [of ?s s] page_frame_cong [of ?s s] layout_def)
  have "memory ?s y = memory s y" if b: "b \<in> V - mine (memory s) ?f" "in_block b y" for b y
  proof (rule ccontr)
    assume "memory ?s y \<noteq> memory s y"
    then have "m y \<noteq> memory s y" by simp
    then obtain b' where b': "b' \<in># user_held (memory s) ?f" "in_block b' y" using block by blast
    obtain B where "buddy_ok s (V \<union> B)" using d(1) unfolding objs_store by blast
    moreover have "b' \<in> V" "b' \<noteq> b" using HV [OF b'(1)] b(1) b'(1) by (auto simp: mine_def)
    ultimately show False using used_apart [of s "V \<union> B" b' b y] b b'(2) by blast
  qed
  then show "others_kept (V - mine (memory s) ?f) s ?s" by (simp add: others_kept_def layout_def)
qed

text \<open>What the process reads afterwards.\<close>

lemma user_byte_at:
  "user_byte s mm x = (if resolve (memory s) 4 (mm_frame s mm) x = None then None
    else Some (memory s (byte_at (memory s) (mm_frame s mm) x)))"
  by (auto simp: user_byte_def pt_addr_resolve split: option.splits)

lemma own_write_bytes:
  assumes sp: "space_ok s C V X mm as" and w: "own_write s mm m"
  shows "user_byte (s\<lparr>memory := m\<rparr>) mm x = (if resolve (memory s) 4 (mm_frame s mm) x = None then None
    else Some (m (byte_at (memory s) (mm_frame s mm) x)))"
proof -
  have "resolve m 4 (mm_frame s mm) = resolve (memory s) 4 (mm_frame s mm)"
    using tree_cong [OF own_write_ok(3) [OF sp w]] by simp
  moreover have "mm_frame (s\<lparr>memory := m\<rparr>) mm = mm_frame s mm" by (simp add: mm_frame_def)
  ultimately show ?thesis by (auto simp: user_byte_def pt_addr_resolve split: option.splits)
qed

lemma space_mapped:
  assumes "space_ok s C V X mm as" and "unat x < 2 ^ 47"
  shows "resolve (memory s) 4 (mm_frame s mm) x = None \<longleftrightarrow> space s as x = None"
  using shown_none [OF space_okD(10) [OF assms(1)] assms(2)] shown_some(1) [OF space_okD(10) [OF assms(1)] assms(2)]
  by (cases "space s as x") auto

lemma space_bytes_inj:
  assumes sp: "space_ok s C V X mm as" and x: "unat x < 2 ^ 47" "resolve (memory s) 4 (mm_frame s mm) x \<noteq> None"
    and y: "unat y < 2 ^ 47" "resolve (memory s) 4 (mm_frame s mm) y \<noteq> None"
    and e: "byte_at (memory s) (mm_frame s mm) x = byte_at (memory s) (mm_frame s mm) y"
  shows "x = y"
proof -
  have "inj_on (pt_addr (memory s) (table_addr (mm_frame s mm))) {x. unat x < 2 ^ 47 \<and> space s as x \<noteq> None}"
    using space_okD(10) [OF sp] by (simp add: shown_def)
  then show ?thesis using x y e space_mapped [OF sp] by (auto dest: inj_onD)
qed

subsection \<open>What mset and mcopy do\<close>

text \<open>The user address \<open>x\<close> is one of the \<open>n\<close> that begin at \<open>to\<close>.\<close>

abbreviation span_of :: "u64 \<Rightarrow> nat \<Rightarrow> u64 \<Rightarrow> bool" where
  "span_of to n x \<equiv> unat to \<le> unat x \<and> unat x < unat to + n"

lemma span_of_iff:
  assumes "unat to + n \<le> 2 ^ 47"
  shows "span_of to n x \<longleftrightarrow> (\<exists>k<n. x = to + of_nat k)" and "k < n \<Longrightarrow> unat (to + of_nat k) = unat to + k"
proof -
  show at: "unat (to + of_nat k) = unat to + k" if "k < n" for k
    using that assms by (simp add: unat_word_ariths unat_of_nat)
  have "x = to + of_nat (unat x - unat to)" if "unat to \<le> unat x"
    using that by (simp add: of_nat_diff)
  moreover have "unat x - unat to < n" if "span_of to n x" using that by linarith
  ultimately show "span_of to n x \<longleftrightarrow> (\<exists>k<n. x = to + of_nat k)" using at by auto
qed

lemma mset_fills_spec:
  assumes sp: "space_ok s C V X mm as" and b: "unat to + unat sz \<le> 2 ^ 47"
  obtains n m where "n \<le> unat sz" and "mset mm to c sz s = (n = unat sz, s\<lparr>memory := m\<rparr>)" and "own_write s mm m"
    and "\<And>x. unat x < 2 ^ 47 \<Longrightarrow> user_byte (s\<lparr>memory := m\<rparr>) mm x = (if span_of to n x then Some (ucast c) else user_byte s mm x)"
    and "\<And>k. k < n \<Longrightarrow> space s as (to + of_nat k) \<noteq> None" and "n < unat sz \<Longrightarrow> space s as (to + of_nat n) = None"
proof -
  let ?m = "memory s" and ?f = "mm_frame s mm"
  have im: "image_ok ?m ?f (tables ?m 4 ?f)" by (rule space_image [OF sp]) simp
  obtain n where n: "n \<le> unat sz" "mset_loop (table_addr ?f) to c sz ?m =
      (n = unat sz, \<lambda>y. if y \<in> (\<lambda>k. byte_at ?m ?f (to + of_nat k)) ` {..<n} then ucast c else ?m y)"
      "\<forall>k<n. resolve ?m 4 ?f (to + of_nat k) \<noteq> None" "n < unat sz \<longrightarrow> resolve ?m 4 ?f (to + of_nat n) = None"
    using mset_loop_fills [OF im order_refl agree_refl b] by blast
  define m where "m = (\<lambda>y. if y \<in> (\<lambda>k. byte_at ?m ?f (to + of_nat k)) ` {..<n} then ucast c else ?m y)"
  have bn: "unat to + n \<le> 2 ^ 47" using n(1) b by linarith
  note at = span_of_iff [OF bn]
  have run: "mset mm to c sz s = (n = unat sz, s\<lparr>memory := m\<rparr>)"
    using n(2) space_okD(6) [OF sp] by (simp add: mset_def m_def)
  have low: "unat (to + of_nat k) < 2 ^ 47" if "k < n" for k using at(2) [OF that] that bn by linarith
  have ow: "own_write s mm m"
    unfolding own_write_def
  proof (intro allI impI)
    fix y assume "m y \<noteq> ?m y"
    then obtain k where k: "k < n" "y = byte_at ?m ?f (to + of_nat k)" unfolding m_def by (auto split: if_splits)
    then show "\<exists>x. unat x < 2 ^ 47 \<and> resolve ?m 4 ?f x \<noteq> None \<and> y = byte_at ?m ?f x"
      using low [OF k(1)] n(3) by blast
  qed
  have "user_byte (s\<lparr>memory := m\<rparr>) mm x = (if span_of to n x then Some (ucast c) else user_byte s mm x)"
    if x: "unat x < 2 ^ 47" for x
  proof (cases "resolve ?m 4 ?f x = None")
    case True
    then have "\<not> span_of to n x" using at(1) [of x] n(3) by auto
    then show ?thesis unfolding if_not_P [OF \<open>\<not> span_of to n x\<close>] by (subst own_write_bytes [OF sp ow]) (simp add: user_byte_at True)
  next
    case False
    have "byte_at ?m ?f x \<in> (\<lambda>k. byte_at ?m ?f (to + of_nat k)) ` {..<n} \<longleftrightarrow> span_of to n x"
      unfolding at(1) using space_bytes_inj [OF sp x False low] n(3) by (auto simp del: va_inj)
    then have "m (byte_at ?m ?f x) = (if span_of to n x then ucast c else ?m (byte_at ?m ?f x))" by (simp add: m_def)
    then show ?thesis by (subst own_write_bytes [OF sp ow]) (simp add: user_byte_at False)
  qed
  moreover have "space s as (to + of_nat k) \<noteq> None" if "k < n" for k
    using n(3) that space_mapped [OF sp low [OF that]] by blast
  moreover have "space s as (to + of_nat n) = None" if "n < unat sz"
  proof -
    have "unat (to + of_nat n) < 2 ^ 47" using span_of_iff(2) [OF b that] that b by linarith
    then show ?thesis using n(4) that space_mapped [OF sp] by blast
  qed
  ultimately show thesis using that [OF n(1) run ow] by blast
qed

text \<open>
  \<open>mcopy\<close> between address spaces, or from the kernel's memory. The tables of the source must not be
  among the destination's own bytes; if its bytes are not either, they arrive as they were.
\<close>

lemma mcopy_copies_spec:
  assumes sp: "space_ok s C V X dst as" and g: "va (mm_cr3 (mm_at s src)) = table_addr g"
    and T: "\<And>t. t \<in> tables (memory s) 4 g \<Longrightarrow>
      t \<in> tables (memory s) 4 (mm_frame s dst) \<or> (t, 0) \<in> V - mine (memory s) (mm_frame s dst)"
    and b: "unat to + unat sz \<le> 2 ^ 47"
  obtains n m where "n \<le> unat sz" and "mcopy dst to src from sz s = (n = unat sz, s\<lparr>memory := m\<rparr>)" and "own_write s dst m"
    and "n < unat sz \<Longrightarrow> space s as (to + of_nat n) = None \<or> pt_addr (memory s) (table_addr g) (from + of_nat n) = 0"
    and "\<And>k. k < n \<Longrightarrow> space s as (to + of_nat k) \<noteq> None \<and> resolve (memory s) 4 g (from + of_nat k) \<noteq> None"
    and "\<And>x. unat x < 2 ^ 47 \<Longrightarrow> \<not> span_of to n x \<Longrightarrow> user_byte (s\<lparr>memory := m\<rparr>) dst x = user_byte s dst x"
    and "\<And>k. (\<And>j v. j < unat sz \<Longrightarrow> v \<in># user_held (memory s) (mm_frame s dst) \<Longrightarrow>
           \<not> in_block v (byte_at (memory s) g (from + of_nat j))) \<Longrightarrow> k < n \<Longrightarrow>
         user_byte (s\<lparr>memory := m\<rparr>) dst (to + of_nat k) = Some (memory s (byte_at (memory s) g (from + of_nat k)))"
proof -
  let ?m = "memory s" and ?f = "mm_frame s dst"
  let ?T = "tables ?m 4 ?f \<union> tables ?m 4 g"
  have im: "image_ok ?m ?f ?T" by (rule space_image [OF sp]) (use T in auto)
  obtain n m where n: "n \<le> unat sz" "mcopy_loop (table_addr ?f) (table_addr g) to from sz ?m = (n = unat sz, m)"
      and same: "\<And>y. y \<notin> (\<lambda>k. byte_at ?m ?f (to + of_nat k)) ` {..<n} \<Longrightarrow> m y = ?m y"
      and mapped: "\<And>k. k < n \<Longrightarrow> resolve ?m 4 ?f (to + of_nat k) \<noteq> None"
      and source: "\<And>k. k < n \<Longrightarrow> resolve ?m 4 g (from + of_nat k) \<noteq> None"
      and stop: "n < unat sz \<Longrightarrow> pt_addr ?m (table_addr ?f) (to + of_nat n) = 0 \<or> pt_addr ?m (table_addr g) (from + of_nat n) = 0"
      and copied: "no_overlap ?m ?f g to from (unat sz) \<Longrightarrow>
        (\<forall>k<n. m (byte_at ?m ?f (to + of_nat k)) = ?m (byte_at ?m g (from + of_nat k)))"
    using mcopy_loop_copies [OF im Un_upper1 Un_upper2 agree_refl b, of "from"] by blast
  have bn: "unat to + n \<le> 2 ^ 47" using n(1) b by linarith
  note at = span_of_iff [OF bn]
  have run: "mcopy dst to src from sz s = (n = unat sz, s\<lparr>memory := m\<rparr>)"
    using n(2) space_okD(6) [OF sp] g by (simp add: mcopy_def)
  have lowz: "unat (to + of_nat k) < 2 ^ 47" if "k < unat sz" for k using span_of_iff(2) [OF b that] that b by linarith
  then have low: "unat (to + of_nat k) < 2 ^ 47" if "k < n" for k using that n(1) by simp
  have ow: "own_write s dst m"
    unfolding own_write_def
  proof (intro allI impI)
    fix y assume "m y \<noteq> ?m y"
    then obtain k where "k < n" "y = byte_at ?m ?f (to + of_nat k)" using same by blast
    then show "\<exists>x. unat x < 2 ^ 47 \<and> resolve ?m 4 ?f x \<noteq> None \<and> y = byte_at ?m ?f x" using low mapped by blast
  qed
  have "space s as (to + of_nat n) = None \<or> pt_addr ?m (table_addr g) (from + of_nat n) = 0" if nz: "n < unat sz"
  proof -
    have "resolve ?m 4 ?f (to + of_nat n) = None" if "pt_addr ?m (table_addr ?f) (to + of_nat n) = 0"
      using im lowz [OF nz] that unfolding image_ok_def by (auto simp: pt_addr_resolve split: option.splits)
    then show ?thesis using stop [OF nz] space_mapped [OF sp lowz [OF nz]] by blast
  qed
  moreover have "user_byte (s\<lparr>memory := m\<rparr>) dst x = user_byte s dst x" if x: "unat x < 2 ^ 47" and out: "\<not> span_of to n x" for x
  proof (cases "resolve ?m 4 ?f x = None")
    case True
    then show ?thesis by (subst own_write_bytes [OF sp ow]) (simp add: user_byte_at True)
  next
    case False
    have "m (byte_at ?m ?f x) = ?m (byte_at ?m ?f x)"
      by (rule same) (use out at(1) space_bytes_inj [OF sp x False low] mapped in \<open>auto simp del: va_inj\<close>)
    then show ?thesis by (subst own_write_bytes [OF sp ow]) (simp add: user_byte_at False)
  qed
  moreover have "user_byte (s\<lparr>memory := m\<rparr>) dst (to + of_nat k) = Some (?m (byte_at ?m g (from + of_nat k)))"
    if far: "\<And>j v. j < unat sz \<Longrightarrow> v \<in># user_held ?m ?f \<Longrightarrow> \<not> in_block v (byte_at ?m g (from + of_nat j))" and k: "k < n" for k
  proof -
    have "no_overlap ?m ?f g to from (unat sz)"
      unfolding no_overlap_def
    proof (intro allI impI conjI)
      fix i j assume i: "i < unat sz" "resolve ?m 4 ?f (to + of_nat i) \<noteq> None" and j: "j < unat sz"
      obtain p fl where p: "resolve ?m 4 ?f (to + of_nat i) = Some (p, fl)" using i(2) by auto
      obtain v where v: "v \<in># user_held ?m ?f" "in_block v (va p)" using user_byte_block [OF sp lowz [OF i(1)] p] by blast
      have "byte_at ?m ?f (to + of_nat i) = va p" using p by (simp add: pt_addr_resolve)
      then show "byte_at ?m ?f (to + of_nat i) \<noteq> byte_at ?m g (from + of_nat j)" using far [OF j v(1)] v(2) by metis
      assume rj: "resolve ?m 4 ?f (to + of_nat j) \<noteq> None" and ij: "i \<noteq> j"
      have "to + of_nat i \<noteq> to + of_nat j" using span_of_iff(2) [OF b i(1)] span_of_iff(2) [OF b j] ij by (metis add_left_cancel)
      then show "byte_at ?m ?f (to + of_nat i) \<noteq> byte_at ?m ?f (to + of_nat j)"
        using space_bytes_inj [OF sp lowz [OF i(1)] i(2) lowz [OF j] rj] by blast
    qed
    then have "m (byte_at ?m ?f (to + of_nat k)) = ?m (byte_at ?m g (from + of_nat k))" using copied k by blast
    then show ?thesis using mapped [OF k] by (subst own_write_bytes [OF sp ow]) simp
  qed
  moreover have "space s as (to + of_nat k) \<noteq> None \<and> resolve ?m 4 g (from + of_nat k) \<noteq> None" if "k < n" for k
    using mapped [OF that] source [OF that] space_mapped [OF sp low [OF that]] by simp
  ultimately show thesis using that [OF n(1) run ow] by blast
qed

end
