(* ===== verification/Mm_World.thy ===== *)
theory Mm_World
  imports Mm_Bytes
begin

text \<open>
  Several address spaces beside each other. \<open>world\<close> says that each of them is in order, that the blocks of
  each (\<open>mine\<close>) and its regions belong to no other, and that all share the tables of the kernel's root.
  What one of them does leaves the others as they are, byte by byte.
\<close>

subsection \<open>What an address space depends on\<close>

abbreviation tabs :: "mem \<Rightarrow> nat \<Rightarrow> block set" where
  "tabs m g \<equiv> (\<lambda>t. (t, 0)) ` tables m 4 g"

text \<open>The table in frame \<open>f\<close> has its upper half from the one in frame \<open>g\<close>.\<close>

definition linked :: "mem \<Rightarrow> nat \<Rightarrow> nat \<Rightarrow> bool" where
  "linked m g f \<longleftrightarrow> kernel_tables m f = insert f (kernel_tables m g - {g}) \<and>
     (\<forall>x. 2 ^ 47 \<le> unat x \<longrightarrow> unat x < 2 ^ 48 \<longrightarrow> resolve m 4 f x = resolve m 4 g x)"

lemma tabs_split: "linked m g f \<Longrightarrow> tabs m f \<subseteq> mine m f \<union> tabs m g"
proof
  fix b assume l: "linked m g f" and "b \<in> tabs m f"
  then obtain t where t: "b = (t, 0)" "t \<in> tables m 4 f" by blast
  show "b \<in> mine m f \<union> tabs m g"
  proof (cases "t \<in> kernel_tables m f")
    case True
    then have "t = f \<or> t \<in> kernel_tables m g" using l by (auto simp: linked_def)
    then show ?thesis using t(1) kernel_in_tables [of m g] by (auto simp: mine_def)
  next
    case False
    then show ?thesis using user_tables_mine [OF t(2)] t(1) by simp
  qed
qed

lemma mine_in:
  assumes "user_in m V f"
  shows "mine m f \<subseteq> V"
proof -
  have "(f, 0) \<in> V" using user_inD(4) [OF assms tables_root] by simp
  moreover have "set_mset (user_held m f) \<subseteq> V" using owns_in [OF user_inD(5) [OF assms]] by blast
  ultimately show ?thesis by (simp add: mine_def)
qed

text \<open>What the calls for one address space leave of another.\<close>

definition spared :: "'a mms_scheme \<Rightarrow> 'a mms_scheme \<Rightarrow> (nat \<times> u64) set \<Rightarrow> u64 \<Rightarrow> u64 list \<Rightarrow> bool" where
  "spared s s' X mm as \<longleftrightarrow> (mm_slab, mm) \<in> X \<and> (\<forall>a\<in>set as. (vma_slab, a) \<in> X) \<and> mm_at s' mm = mm_at s mm \<and>
     (\<forall>a\<in>set as. vma_at s' a = vma_at s a) \<and>
     (\<forall>x\<in>set (MmHead mm # map Vma as). nxt (mm_links s') x = nxt (mm_links s) x \<and> prv (mm_links s') x = prv (mm_links s) x)"

lemma sparedD:
  assumes "spared s s' X mm as"
  shows "(mm_slab, mm) \<in> X" and "\<forall>a\<in>set as. (vma_slab, a) \<in> X" and "mm_at s' mm = mm_at s mm"
    and "\<forall>a\<in>set as. vma_at s' a = vma_at s a" and "mm_frame s' mm = mm_frame s mm"
    and "regions s' mm as = regions s mm as" and "space s' as = space s as"
proof -
  show "(mm_slab, mm) \<in> X" "\<forall>a\<in>set as. (vma_slab, a) \<in> X" "mm_at s' mm = mm_at s mm" "\<forall>a\<in>set as. vma_at s' a = vma_at s a"
    using assms unfolding spared_def by blast+
  then show "mm_frame s' mm = mm_frame s mm" by (simp add: mm_frame_def)
  have v: "vma_at s' a = vma_at s a" if "a \<in> set as" for a using that assms unfolding spared_def by blast
  have "dlist (mm_links s') (MmHead mm) (map Vma as) = dlist (mm_links s) (MmHead mm) (map Vma as)"
    by (rule dlist_cong) (use assms in \<open>unfold spared_def, blast\<close>)
  then show "regions s' mm as = regions s mm as"
    using sorted_regions_cong [of as s' s, OF v] v by (auto simp: regions_def)
  show "space s' as = space s as" by (rule space_cong) (rule v)
qed

lemma spared_space_ok:
  assumes sp: "space_ok s C V X mm as" and o: "objs s' C V' X'" and k: "others_kept W s s'"
    and W: "mine (memory s) (mm_frame s mm) \<union> tabs (memory s) (mm_frame s mm) \<subseteq> W \<inter> V'" and sd: "spared s s' X' mm as"
  shows "space_ok s' C V' X' mm as" and "agree (memory s) (memory s') (tables (memory s) 4 (mm_frame s mm))"
proof -
  note d = space_okD [OF sp] and e = sparedD [OF sd]
  let ?f = "mm_frame s mm"
  show ag: "agree (memory s) (memory s') (tables (memory s) 4 ?f)"
    unfolding agree_def
  proof (intro ballI)
    fix t a assume t: "t \<in> tables (memory s) 4 ?f" and a: "a \<in> page_at t"
    have "t * 4096 + 4096 \<le> 2 ^ 47" using objs_bound [OF d(1) user_inD(4) [OF d(9) t]] by simp
    then have "in_block (t, 0) a" using a page_at_block by blast
    moreover have "(t, 0) \<in> W" using W t by blast
    ultimately show "memory s' a = memory s a" using k unfolding others_kept_def by blast
  qed
  note u = user_inD [OF d(9)] and h = half_cong [OF ag]
  have "owns V' (user_held (memory s) ?f)"
  proof -
    have "count (user_held (memory s) ?f) x \<le> (if x \<in> V' then 1 else 0)" for x
    proof (cases "x \<in># user_held (memory s) ?f")
      case True
      then have "x \<in> V'" using W by (auto simp: mine_def)
      then show ?thesis using ownsD [OF u(5), of x] by (simp split: if_splits)
    qed (simp add: not_in_iff)
    then show ?thesis using owns_nonzero [OF u(5)] unfolding owns_def by blast
  qed
  moreover have "(t, 0) \<in> V'" if "t \<in> tables (memory s) 4 ?f" for t using that W by blast
  ultimately have "user_in (memory s') V' ?f"
    using tree_cong [OF ag] h u unfolding user_in_def by auto
  moreover have lay: "layout s' = layout s" using k by (simp add: others_kept_def)
  ultimately show "space_ok s' C V' X' mm as"
    using o d e(4) shown_cong [OF ag d(10)]
    unfolding space_ok_def e(3,5-7)
    by (auto simp: e(1,2) paged_def valid_page_cong [OF lay] page_frame_cong [OF lay])
qed

lemma spared_bytes:
  assumes sp: "space_ok s C V X mm as" and k: "others_kept W s s'" and sd: "spared s s' X' mm as" and x: "unat x < 2 ^ 47"
    and ag: "agree (memory s) (memory s') (tables (memory s) 4 (mm_frame s mm))" and W: "mine (memory s) (mm_frame s mm) \<subseteq> W"
  shows "user_byte s' mm x = user_byte s mm x"
proof -
  let ?f = "mm_frame s mm"
  have r: "resolve (memory s') 4 ?f = resolve (memory s) 4 ?f" using tree_cong [OF ag] by simp
  show ?thesis
  proof (cases "resolve (memory s) 4 ?f x")
    case None
    then show ?thesis by (simp add: user_byte_def sparedD(5) [OF sd] r)
  next
    case (Some a)
    obtain p fl where a: "a = (p, fl)" by fastforce
    obtain b where "b \<in># user_held (memory s) ?f" "in_block b (va p)"
      using user_byte_block [OF sp x Some [unfolded a]] by blast
    moreover from this have "b \<in> W" using W by (auto simp: mine_def)
    ultimately have "memory s' (va p) = memory s (va p)" using k unfolding others_kept_def by blast
    then show ?thesis using Some a by (simp add: user_byte_def sparedD(5) [OF sd] r)
  qed
qed

subsection \<open>All address spaces\<close>

text \<open>
  The kernel's root in frame \<open>g\<close>; \<open>P\<close> gives the region list of each process. The kernel's tables belong to none.
\<close>

definition kernel_root :: "'a mms_scheme \<Rightarrow> block set \<Rightarrow> nat \<Rightarrow> bool" where
  "kernel_root s V g \<longleftrightarrow> initial_cr3 s = of_nat g * PAGE_SIZE \<and> kernel_ok (memory s) V g \<and> tabs (memory s) g \<subseteq> V"

definition member :: "'a mms_scheme \<Rightarrow> nat set \<Rightarrow> block set \<Rightarrow> (nat \<times> u64) set \<Rightarrow> nat \<Rightarrow> u64 \<Rightarrow> u64 list \<Rightarrow> bool" where
  "member s C V X g mm as \<longleftrightarrow> space_ok s C V X mm as \<and> linked (memory s) g (mm_frame s mm) \<and>
     mine (memory s) (mm_frame s mm) \<inter> tabs (memory s) g = {}"

definition apart :: "'a mms_scheme \<Rightarrow> u64 \<Rightarrow> u64 list \<Rightarrow> u64 \<Rightarrow> u64 list \<Rightarrow> bool" where
  "apart s mm as mm' bs \<longleftrightarrow> set as \<inter> set bs = {} \<and>
     mine (memory s) (mm_frame s mm) \<inter> mine (memory s) (mm_frame s mm') = {}"

definition world ::
    "'a mms_scheme \<Rightarrow> nat set \<Rightarrow> block set \<Rightarrow> (nat \<times> u64) set \<Rightarrow> nat \<Rightarrow> (u64 \<rightharpoonup> u64 list) \<Rightarrow> bool" where
  "world s C V X g P \<longleftrightarrow> objs s C V X \<and> mm_slab \<in> C \<and> vma_slab \<in> C \<and> kernel_root s V g \<and>
     (\<forall>mm as. P mm = Some as \<longrightarrow> member s C V X g mm as) \<and>
     (\<forall>mm as mm' bs. P mm = Some as \<longrightarrow> P mm' = Some bs \<longrightarrow> mm \<noteq> mm' \<longrightarrow> apart s mm as mm' bs)"

lemma worldD:
  assumes "world s C V X g P"
  shows "objs s C V X" and "mm_slab \<in> C" and "vma_slab \<in> C" and "kernel_root s V g"
    and "P mm = Some as \<Longrightarrow> member s C V X g mm as"
    and "P mm = Some as \<Longrightarrow> P mm' = Some bs \<Longrightarrow> mm \<noteq> mm' \<Longrightarrow> apart s mm as mm' bs"
  using assms unfolding world_def by blast+

lemma memberD:
  assumes "member s C V X g mm as"
  shows "space_ok s C V X mm as" and "linked (memory s) g (mm_frame s mm)"
    and "mine (memory s) (mm_frame s mm) \<inter> tabs (memory s) g = {}"
  using assms unfolding member_def by blast+

lemma world_add:
  assumes w: "world s C V X g P" and m: "member s C V X g mm as" and "P mm = None"
    and a: "\<And>mm' bs. P mm' = Some bs \<Longrightarrow> apart s mm as mm' bs"
  shows "world s C V X g (P(mm \<mapsto> as))"
proof -
  have "apart s m1 bs m2 cs"
    if "(P(mm \<mapsto> as)) m1 = Some bs" "(P(mm \<mapsto> as)) m2 = Some cs" "m1 \<noteq> m2" for m1 bs m2 cs
  proof -
    have sym: "apart s mm as mm' bs \<Longrightarrow> apart s mm' bs mm as" for mm' bs by (auto simp: apart_def)
    show ?thesis using that a worldD(6) [OF w] sym by (cases "m1 = mm"; cases "m2 = mm") auto
  qed
  moreover have "member s C V X g m1 bs" if "(P(mm \<mapsto> as)) m1 = Some bs" for m1 bs
    using that m worldD(5) [OF w] by (cases "m1 = mm") auto
  ultimately show ?thesis using worldD(1-4) [OF w] unfolding world_def by blast
qed

lemma world_put:
  assumes "world s C V X g (P(mm := None))" and "member s C V X g mm as"
    and "\<And>mm' bs. (P(mm := None)) mm' = Some bs \<Longrightarrow> apart s mm as mm' bs"
  shows "world s C V X g (P(mm \<mapsto> as))"
  using world_add [OF assms(1,2) _ assms(3)] by (simp only: fun_upd_same fun_upd_upd)

text \<open>
  What a call keeps when it changes only the blocks \<open>M\<close> of one process: the kernel's root, and every process it
  spares.
\<close>

lemma world_rest:
  assumes w: "world s C V X g P" and o: "objs s' C V' X'" and k: "others_kept (V - M) s s'" and cr: "initial_cr3 s' = initial_cr3 s"
    and V': "V - M \<subseteq> V'" and gM: "tabs (memory s) g \<inter> M = {}" and P': "P' \<subseteq>\<^sub>m P"
    and rest: "\<forall>mm as. P' mm = Some as \<longrightarrow> mine (memory s) (mm_frame s mm) \<inter> M = {} \<and> spared s s' X' mm as"
  shows "world s' C V' X' g P'" and "agree (memory s) (memory s') (tables (memory s) 4 g)"
    and "P' mm = Some as \<Longrightarrow> mm_frame s' mm = mm_frame s mm \<and> mine (memory s') (mm_frame s mm) = mine (memory s) (mm_frame s mm)"
    and "P' mm = Some as \<Longrightarrow> unat x < 2 ^ 47 \<Longrightarrow> user_byte s' mm x = user_byte s mm x"
proof -
  note d = worldD [OF w]
  have free: "mine (memory s) (mm_frame s mm) \<inter> M = {}" and sd: "spared s s' X' mm as" if "P' mm = Some as" for mm as
    using rest that by blast+
  have kr: "initial_cr3 s = of_nat g * PAGE_SIZE" "kernel_ok (memory s) V g" "tabs (memory s) g \<subseteq> V"
    using d(4) by (simp_all add: kernel_root_def)
  have gW: "tabs (memory s) g \<subseteq> (V - M) \<inter> V'" using kr(3) gM V' by blast
  show ag: "agree (memory s) (memory s') (tables (memory s) 4 g)"
    unfolding agree_def
  proof (intro ballI)
    fix t a assume t: "t \<in> tables (memory s) 4 g" and a: "a \<in> page_at t"
    have "(t, 0) \<in> V - M" using gW t by blast
    moreover from this have "t * 4096 + 4096 \<le> 2 ^ 47" using objs_bound [OF d(1), of t 0] by simp
    then have "in_block (t, 0) a" using a page_at_block by blast
    ultimately show "memory s' a = memory s a" using k unfolding others_kept_def by blast
  qed
  note tg = tree_cong [OF ag order_refl] and hg = half_cong [OF ag]
  have root: "kernel_root s' V' g"
    using kr(1,2) cr gW tg hg kernel_in_tables [of "memory s" g] unfolding kernel_root_def kernel_ok_def by auto
  have one: "member s' C V' X' g mm as \<and> mm_frame s' mm = mm_frame s mm \<and>
      mine (memory s') (mm_frame s mm) = mine (memory s) (mm_frame s mm) \<and>
      (\<forall>x. unat x < 2 ^ 47 \<longrightarrow> user_byte s' mm x = user_byte s mm x)" if p: "P' mm = Some as" for mm as
  proof -
    let ?f = "mm_frame s mm"
    have "P mm = Some as" using P' p by (auto simp: map_le_def dom_def)
    then have m: "member s C V X g mm as" by (rule d(5))
    note md = memberD [OF m]
    have mV: "mine (memory s) ?f \<subseteq> V" by (rule mine_in [OF space_okD(9) [OF md(1)]])
    have W: "mine (memory s) ?f \<union> tabs (memory s) ?f \<subseteq> (V - M) \<inter> V'"
      using tabs_split [OF md(2)] gW mV free [OF p] V' by blast
    note sp = spared_space_ok [OF md(1) o k W sd [OF p]]
    have f: "mm_frame s' mm = ?f" by (rule sparedD(5) [OF sd [OF p]])
    note tf = tree_cong [OF sp(2) order_refl] and hf = half_cong [OF sp(2)]
    have mine: "mine (memory s') ?f = mine (memory s) ?f" using hf by (simp add: mine_def)
    have "linked (memory s') g ?f" using md(2) tf tg hf hg by (simp add: linked_def)
    moreover have "mine (memory s') ?f \<inter> tabs (memory s') g = {}" using md(3) mine tg by simp
    ultimately have "member s' C V' X' g mm as" using sp(1) f by (simp add: member_def)
    moreover have "user_byte s' mm x = user_byte s mm x" if "unat x < 2 ^ 47" for x
      by (rule spared_bytes [OF md(1) k sd [OF p] that sp(2)]) (use W in blast)
    ultimately show ?thesis using f mine by blast
  qed
  show "P' mm = Some as \<Longrightarrow> mm_frame s' mm = mm_frame s mm \<and> mine (memory s') (mm_frame s mm) = mine (memory s) (mm_frame s mm)"
    "P' mm = Some as \<Longrightarrow> unat x < 2 ^ 47 \<Longrightarrow> user_byte s' mm x = user_byte s mm x" using one by blast+
  have "apart s' mm as mm' bs" if "P' mm = Some as" "P' mm' = Some bs" "mm \<noteq> mm'" for mm as mm' bs
  proof -
    have "P mm = Some as" "P mm' = Some bs" using P' that by (auto simp: map_le_def dom_def)
    then have "apart s mm as mm' bs" using d(6) that(3) by blast
    then show ?thesis using one [OF that(1)] one [OF that(2)] by (simp add: apart_def)
  qed
  then show "world s' C V' X' g P'" using o d(2,3) root one unfolding world_def by blast
qed

subsection \<open>Steps\<close>

text \<open>The others, when a list gets a new node or an empty list is made.\<close>

lemma add_before_other:
  assumes dl: "dlist h l xs" and p: "p \<in> set (l # xs)" and x: "x \<notin> set (l # xs)" "x \<noteq> n"
  shows "nxt (list_add_before n p h) x = nxt h x \<and> prv (list_add_before n p h) x = prv h x"
proof -
  have path: "lpath h l xs l" using dl by (simp add: dlist_def)
  have "prv h p \<in> set (l # xs)"
  proof (cases "p = l")
    case True
    then have "prv h p = last (l # xs)" using lpath_last [OF path] by simp
    then show ?thesis by (simp only: last_in_set list.distinct not_False_eq_True)
  next
    case False
    then obtain us vs where xs: "xs = us @ p # vs" using p by (auto dest: split_list)
    have "lpath h l us p" using path unfolding xs by (simp add: lpath_append)
    then have "prv h p = last (l # us)" by (rule lpath_last)
    moreover have "last (l # us) \<in> set (l # us)" by (rule last_in_set) simp
    ultimately show ?thesis unfolding xs by auto
  qed
  then show ?thesis
    using p x by (auto simp: list_add_before_def list_add_tail_def list_insert_next list_insert_prev)
qed

lemma world_create:
  fixes s s' :: "'a mms_scheme"
  assumes w: "world s C V X g P" and run: "mm_create s = Inr (mm, s')" and ne: "mm \<noteq> 0"
  shows "P mm = None"
    and "\<exists>V' X'. world s' C V' X' g (P(mm \<mapsto> [])) \<and> V' - mine (memory s') (mm_frame s' mm) = V \<and> X' - {(mm_slab, mm)} = X"
    and "mm' \<in> dom P \<Longrightarrow> unat x < 2 ^ 47 \<Longrightarrow> user_byte s' mm' x = user_byte s mm' x"
    and "mm' \<in> dom P \<Longrightarrow> mine (memory s') (mm_frame s' mm') = mine (memory s) (mm_frame s mm')"
proof -
  note d = worldD [OF w]
  have k: "kernel_ok (memory s) V g" "tabs (memory s) g \<subseteq> V" "initial_cr3 s = of_nat g * PAGE_SIZE"
    using d(4) by (simp_all add: kernel_root_def)
  have tV: "\<forall>t\<in>tables (memory s) 4 g. (t, 0) \<in> V" using k(2) by blast
  obtain f where c: "space_ok s' C (insert (f, 0) V) (insert (mm_slab, mm) X) mm []" "(mm_slab, mm) \<notin> X" "(f, 0) \<notin> V"
      "mm_frame s' mm = f" "others_kept V s s'" "user_held (memory s') f = {#}"
      "kernel_tables (memory s') f = insert f (kernel_tables (memory s) g - {g})"
      "\<And>x. 2 ^ 47 \<le> unat x \<Longrightarrow> unat x < 2 ^ 48 \<Longrightarrow> resolve (memory s') 4 f x = resolve (memory s) 4 g x"
      "\<And>a. a \<noteq> mm \<Longrightarrow> mm_at s' a = mm_at s a" "vma_at s' = vma_at s"
      "mm_links s' = list_init (MmHead mm) (mm_links s)" "initial_cr3 s' = initial_cr3 s"
    using mm_create_makes [OF d(1,2) k(1) tV k(3) run ne] by metis
  have own: "(mm_slab, m') \<in> X" "\<forall>a\<in>set bs. (vma_slab, a) \<in> X" "mine (memory s) (mm_frame s m') \<subseteq> V" if "P m' = Some bs" for m' bs
    using space_okD [OF memberD(1) [OF d(5) [OF that]]] mine_in by blast+
  show pn: "P mm = None" using own(1) c(2) by (cases "P mm") auto
  have sd: "spared s s' (insert (mm_slab, mm) X) m' bs" if p: "P m' = Some bs" for m' bs
  proof -
    have "m' \<noteq> mm" using own(1) [OF p] c(2) by blast
    then show ?thesis unfolding spared_def using own [OF p] c(9-11) by (auto simp: list_init_next list_init_prev)
  qed
  have V0: "others_kept (V - {}) s s'" "V - {} \<subseteq> insert (f, 0) V" using c(5) by auto
  have nul: "tabs (memory s) g \<inter> {} = {}" by simp
  have rest: "\<forall>m' bs. P m' = Some bs \<longrightarrow> mine (memory s) (mm_frame s m') \<inter> {} = {} \<and> spared s s' (insert (mm_slab, mm) X) m' bs"
    using sd by blast
  note r = world_rest [OF w space_okD(1) [OF c(1)] V0(1) c(12) V0(2) nul map_le_refl rest]
  note tg = tree_cong [OF r(2) order_refl] and hg = half_cong [OF r(2)]
  have mn: "mine (memory s') f = {(f, 0)}" using c(6) by (simp add: mine_def)
  have "linked (memory s') g f" using c(7,8) tg hg by (simp add: linked_def)
  moreover have "mine (memory s') f \<inter> tabs (memory s') g = {}" using mn tg k(2) c(3) by auto
  ultimately have "member s' C (insert (f, 0) V) (insert (mm_slab, mm) X) g mm []"
    using c(1,4) by (simp add: member_def)
  moreover have "apart s' mm [] m' bs" if p: "P m' = Some bs" for m' bs
    using r(3) [OF p] own(3) [OF p] mn c(3,4) by (auto simp: apart_def)
  ultimately have "world s' C (insert (f, 0) V) (insert (mm_slab, mm) X) g (P(mm \<mapsto> []))"
    using world_add [OF r(1) _ pn] by blast
  moreover have "insert (f, 0) V - mine (memory s') (mm_frame s' mm) = V" unfolding c(4) mn using c(3) by blast
  moreover have "insert (mm_slab, mm) X - {(mm_slab, mm)} = X" using c(2) by blast
  ultimately show "\<exists>V' X'. world s' C V' X' g (P(mm \<mapsto> [])) \<and> V' - mine (memory s') (mm_frame s' mm) = V \<and> X' - {(mm_slab, mm)} = X"
    by blast
  show "mine (memory s') (mm_frame s' mm') = mine (memory s) (mm_frame s mm')" if "mm' \<in> dom P" using r(3) that by auto
  show "user_byte s' mm' x = user_byte s mm' x" if "mm' \<in> dom P" "unat x < 2 ^ 47"
    using r(4) that by blast
qed

lemma world_create_fails:
  fixes s s' :: "'a mms_scheme"
  assumes w: "world s C V X g P" and run: "mm_create s = Inr (0, s')"
  shows "world s' C V X g P" and "mm' \<in> dom P \<Longrightarrow> unat x < 2 ^ 47 \<Longrightarrow> user_byte s' mm' x = user_byte s mm' x"
    and "mm' \<in> dom P \<Longrightarrow> mine (memory s') (mm_frame s' mm') = mine (memory s) (mm_frame s mm')"
proof -
  note d = worldD [OF w]
  note c = mm_create_fails [OF d(1,2) run]
  have sd: "spared s s' X m' bs" if p: "P m' = Some bs" for m' bs
  proof -
    note o = space_okD [OF memberD(1) [OF d(5) [OF p]]]
    show ?thesis unfolding spared_def using o(4,5) c(3,4) c(6) by auto
  qed
  have nul: "others_kept (V - {}) s s'" "V - {} \<subseteq> V" "tabs (memory s) g \<inter> {} = {}"
    "\<forall>m' bs. P m' = Some bs \<longrightarrow> mine (memory s) (mm_frame s m') \<inter> {} = {} \<and> spared s s' X m' bs" using c(2) sd by simp_all
  note r = world_rest [OF w c(1) nul(1) c(5) nul(2,3) map_le_refl nul(4)]
  show "world s' C V X g P" by (rule r(1))
  show "user_byte s' mm' x = user_byte s mm' x" if "mm' \<in> dom P" "unat x < 2 ^ 47" using r(4) that by blast
  show "mine (memory s') (mm_frame s' mm') = mine (memory s) (mm_frame s mm')" if "mm' \<in> dom P" using r(3) that by auto
qed

text \<open>What one process does to its own blocks concerns no other.\<close>

lemma world_others:
  assumes w: "world s C V X g P" and p: "P mm = Some as"
  shows "mine (memory s) (mm_frame s mm) \<subseteq> V" and "tabs (memory s) g \<inter> mine (memory s) (mm_frame s mm) = {}"
    and "P(mm := None) \<subseteq>\<^sub>m P" and "(P(mm := None)) mm' = Some bs \<Longrightarrow> P mm' = Some bs \<and> mm' \<noteq> mm \<and> apart s mm as mm' bs"
    and "P mm' = Some bs \<Longrightarrow> (mm_slab, mm') \<in> X \<and> (\<forall>a\<in>set bs. (vma_slab, a) \<in> X) \<and> mine (memory s) (mm_frame s mm') \<subseteq> V"
proof -
  note d = worldD [OF w] and m = memberD [OF worldD(5) [OF w p]]
  show "mine (memory s) (mm_frame s mm) \<subseteq> V" by (rule mine_in [OF space_okD(9) [OF m(1)]])
  show "tabs (memory s) g \<inter> mine (memory s) (mm_frame s mm) = {}" using m(3) by blast
  show "P(mm := None) \<subseteq>\<^sub>m P" by (simp add: map_le_def)
  show "(P(mm := None)) mm' = Some bs \<Longrightarrow> P mm' = Some bs \<and> mm' \<noteq> mm \<and> apart s mm as mm' bs"
    using d(6) [OF p, of mm' bs] by (auto split: if_splits)
  show "(mm_slab, mm') \<in> X \<and> (\<forall>a\<in>set bs. (vma_slab, a) \<in> X) \<and> mine (memory s) (mm_frame s mm') \<subseteq> V" if "P mm' = Some bs"
    using space_okD(4,5,9) [OF memberD(1) [OF d(5) [OF that]]] mine_in by blast
qed

lemma disjoint_grown: "A = M \<union> N \<Longrightarrow> T \<subseteq> V \<Longrightarrow> V \<inter> N = {} \<Longrightarrow> T \<inter> M = {} \<Longrightarrow> A \<inter> T = {}"
  by blast

lemma mmap_bounds:
  assumes run: "mmap mm from0 to0 perm s = Some (Inr (True, s'))"
  shows "to0 \<le> HIGHER_BASE" and "from0 AND USER_MASK \<le> to0 AND USER_MASK"
    and "from0 AND USER_MASK = to0 AND USER_MASK \<Longrightarrow> s' = s"
proof -
  show hb: "to0 \<le> HIGHER_BASE"
  proof (rule ccontr)
    assume "\<not> to0 \<le> HIGHER_BASE"
    then have "mmap mm from0 to0 perm s = Some (Inr (False, s))" by (simp add: mmap_def not_le)
    then show False using run by simp
  qed
  show "from0 AND USER_MASK \<le> to0 AND USER_MASK"
  proof (rule ccontr)
    assume "\<not> from0 AND USER_MASK \<le> to0 AND USER_MASK"
    then have "mmap mm from0 to0 perm s = Some (Inr (False, s))" using hb by (auto simp: mmap_def Let_def not_le)
    then show False using run by simp
  qed
  show "s' = s" if "from0 AND USER_MASK = to0 AND USER_MASK"
  proof -
    have "mmap mm from0 to0 perm s = Some (Inr (True, s))" using hb that by (auto simp: mmap_def Let_def)
    then show ?thesis using run by simp
  qed
qed

lemma world_mmap:
  fixes s s' :: "'a mms_scheme"
  assumes w: "world s C V X g P" and p: "P mm = Some as"
    and al: "4096 dvd unat (from0 AND USER_MASK)" "4096 dvd unat (to0 AND USER_MASK)" and top: "to0 AND USER_MASK \<le> user_end"
    and run: "mmap mm from0 to0 perm s = Some (Inr (True, s'))"
  defines "from \<equiv> from0 AND USER_MASK" and "to \<equiv> to0 AND USER_MASK"
  shows "\<exists>V' X' bs. world s' C V' X' g (P(mm \<mapsto> bs)) \<and> space s' bs = (\<lambda>x. if from \<le> x \<and> x < to then Some perm else space s as x) \<and>
      V' - mine (memory s') (mm_frame s' mm) = V - mine (memory s) (mm_frame s mm) \<and> X' - {vma_slab} \<times> set bs = X - {vma_slab} \<times> set as"
    and "mm' \<in> dom P \<Longrightarrow> mm' \<noteq> mm \<Longrightarrow> unat x < 2 ^ 47 \<Longrightarrow> user_byte s' mm' x = user_byte s mm' x"
    and "mm' \<in> dom P \<Longrightarrow> mm' \<noteq> mm \<Longrightarrow> mine (memory s') (mm_frame s' mm') = mine (memory s) (mm_frame s mm')"
proof -
  note d = worldD [OF w] and m = memberD [OF worldD(5) [OF w p]]
  note hb = mmap_bounds [OF run, folded from_def to_def]
  have "(\<exists>V' X' bs. world s' C V' X' g (P(mm \<mapsto> bs)) \<and> space s' bs = (\<lambda>x. if from \<le> x \<and> x < to then Some perm else space s as x) \<and>
      V' - mine (memory s') (mm_frame s' mm) = V - mine (memory s) (mm_frame s mm) \<and> X' - {vma_slab} \<times> set bs = X - {vma_slab} \<times> set as) \<and>
    (mm' \<in> dom P \<longrightarrow> mm' \<noteq> mm \<longrightarrow> unat x < 2 ^ 47 \<longrightarrow> user_byte s' mm' x = user_byte s mm' x) \<and>
    (mm' \<in> dom P \<longrightarrow> mm' \<noteq> mm \<longrightarrow> mine (memory s') (mm_frame s' mm') = mine (memory s) (mm_frame s mm'))"
  proof (cases "from = to")
    case True
    then have "s' = s" by (rule hb(3))
    moreover have "P(mm \<mapsto> as) = P" using p by auto
    moreover have "space s as = (\<lambda>x. if from \<le> x \<and> x < to then Some perm else space s as x)"
      using True by (auto simp: fun_eq_iff)
    ultimately show ?thesis using w by (intro conjI exI [of _ V] exI [of _ X] exI [of _ as]) simp_all
  next
    case False
    then have lt: "from < to" using hb(2) by simp
    have ft: "from = from0 AND USER_MASK" "to = to0 AND USER_MASK" by (simp_all add: from_def to_def)
    let ?f = "mm_frame s mm" and ?M = "mine (memory s) (mm_frame s mm)"
    obtain N v bs where c: "space_ok s' C (V \<union> N) (insert (vma_slab, v) X) mm bs" "(vma_slab, v) \<notin> X"
        "set bs = insert v (set as)" "V \<inter> N = {}" "mm_frame s' mm = ?f"
        "space s' bs = (\<lambda>x. if from \<le> x \<and> x < to then Some perm else space s as x)"
        "user_held (memory s') ?f = user_held (memory s) ?f + mset_set N" "finite N" "others_kept (V - ?M) s s'"
        "kernel_tables (memory s') ?f = kernel_tables (memory s) ?f" "initial_cr3 s' = initial_cr3 s" "mm_at s' = mm_at s"
        "\<And>a. a \<noteq> v \<Longrightarrow> vma_at s' a = vma_at s a"
        "mm_links s' = list_add_before (Vma v) (case after_range s from as of [] \<Rightarrow> MmHead mm | a # _ \<Rightarrow> Vma a) (mm_links s)"
        "\<And>x. 2 ^ 47 \<le> unat x \<Longrightarrow> unat x < 2 ^ 48 \<Longrightarrow> resolve (memory s') 4 ?f x = resolve (memory s) 4 ?f x"
      by (rule mmap_space_ok [OF m(1) d(3) hb(1) al [folded from_def to_def] lt top [folded to_def] ft run]) blast
    note o = world_others [OF w p]
    have sd: "spared s s' (insert (vma_slab, v) X) m' cs" if q: "(P(mm := None)) m' = Some cs" for m' cs
    proof -
      have ap: "P m' = Some cs" "m' \<noteq> mm" "set as \<inter> set cs = {}" using o(4) [OF q] by (simp_all add: apart_def)
      have vc: "v \<notin> set cs" using o(5) [OF ap(1)] c(2) by blast
      have dl: "dlist (mm_links s) (MmHead mm) (map Vma as)" using space_okD(2) [OF m(1)] by (simp add: regions_def)
      have nx: "(case after_range s from as of [] \<Rightarrow> MmHead mm | a # _ \<Rightarrow> Vma a) \<in> set (MmHead mm # map Vma as)"
      proof -
        define ys where "ys = after_range s from as"
        have "set ys \<subseteq> set as" unfolding ys_def by (auto dest: set_dropWhileD)
        then show ?thesis unfolding ys_def [symmetric] by (cases ys) auto
      qed
      have "nxt (mm_links s') x = nxt (mm_links s) x \<and> prv (mm_links s') x = prv (mm_links s) x"
        if x: "x \<in> set (MmHead m' # map Vma cs)" for x
        unfolding c(14) by (rule add_before_other [OF dl nx]) (use x ap vc in auto)
      moreover have "vma_at s' a = vma_at s a" if "a \<in> set cs" for a by (rule c(13)) (use that vc in blast)
      ultimately show ?thesis unfolding spared_def using o(5) [OF ap(1)] c(12) by simp
    qed
    have rest: "\<forall>m' cs. (P(mm := None)) m' = Some cs \<longrightarrow> mine (memory s) (mm_frame s m') \<inter> ?M = {} \<and> spared s s' (insert (vma_slab, v) X) m' cs"
    proof (intro allI impI conjI)
      fix m' cs assume q: "(P(mm := None)) m' = Some cs"
      show "mine (memory s) (mm_frame s m') \<inter> ?M = {}" using o(4) [OF q] unfolding apart_def by blast
      show "spared s s' (insert (vma_slab, v) X) m' cs" by (rule sd [OF q])
    qed
    have sub: "V - ?M \<subseteq> V \<union> N" by blast
    note r = world_rest [OF w space_okD(1) [OF c(1)] c(9,11) sub o(2,3) rest]
    note tg = tree_cong [OF r(2) order_refl] and hg = half_cong [OF r(2)]
    have mn: "mine (memory s') ?f = ?M \<union> N" using c(7,8) by (auto simp: mine_def)
    have "linked (memory s') g ?f" using m(2) c(10,15) tg hg by (simp add: linked_def)
    moreover have "mine (memory s') ?f \<inter> tabs (memory s') g = {}"
    proof -
      have "tabs (memory s') g = tabs (memory s) g" using tg by simp
      moreover have "tabs (memory s) g \<subseteq> V" using worldD(4) [OF w] by (simp add: kernel_root_def)
      ultimately show ?thesis using disjoint_grown [OF mn _ c(4) o(2)] by simp
    qed
    ultimately have "member s' C (V \<union> N) (insert (vma_slab, v) X) g mm bs" using c(1,5) by (simp add: member_def)
    moreover have "apart s' mm bs m' cs" if q: "(P(mm := None)) m' = Some cs" for m' cs
    proof -
      have ap: "P m' = Some cs" "set as \<inter> set cs = {}" "?M \<inter> mine (memory s) (mm_frame s m') = {}"
        using o(4) [OF q] by (simp_all add: apart_def)
      have "v \<notin> set cs" using o(5) [OF ap(1)] c(2) by blast
      have "mine (memory s') (mm_frame s' m') = mine (memory s) (mm_frame s m')" using r(3) [OF q] by simp
      moreover have "mine (memory s) (mm_frame s m') \<subseteq> V" using o(5) [OF ap(1)] by blast
      ultimately have "mine (memory s') ?f \<inter> mine (memory s') (mm_frame s' m') = {}"
        using disjoint_grown [OF mn _ c(4)] ap(3) by (simp add: Int_commute)
      then show ?thesis using ap(2) \<open>v \<notin> set cs\<close> unfolding apart_def c(3,5) by simp
    qed
    ultimately have "world s' C (V \<union> N) (insert (vma_slab, v) X) g (P(mm \<mapsto> bs))" by (rule world_put [OF r(1)])
    moreover have "user_byte s' mm' x = user_byte s mm' x" if "mm' \<in> dom P" "mm' \<noteq> mm" "unat x < 2 ^ 47"
      using r(4) [of mm' _ x] that by auto
    moreover have "mine (memory s') (mm_frame s' mm') = mine (memory s) (mm_frame s mm')" if "mm' \<in> dom P" "mm' \<noteq> mm"
      using r(3) [of mm'] that by auto
    moreover have "V \<union> N - mine (memory s') (mm_frame s' mm) = V - ?M" unfolding c(5) mn using c(4) by blast
    moreover have "insert (vma_slab, v) X - {vma_slab} \<times> set bs = X - {vma_slab} \<times> set as" using c(2,3) by auto
    ultimately show ?thesis using c(6) by blast
  qed
  then show "\<exists>V' X' bs. world s' C V' X' g (P(mm \<mapsto> bs)) \<and> space s' bs = (\<lambda>x. if from \<le> x \<and> x < to then Some perm else space s as x) \<and>
      V' - mine (memory s') (mm_frame s' mm) = V - mine (memory s) (mm_frame s mm) \<and> X' - {vma_slab} \<times> set bs = X - {vma_slab} \<times> set as"
    "mm' \<in> dom P \<Longrightarrow> mm' \<noteq> mm \<Longrightarrow> unat x < 2 ^ 47 \<Longrightarrow> user_byte s' mm' x = user_byte s mm' x"
    "mm' \<in> dom P \<Longrightarrow> mm' \<noteq> mm \<Longrightarrow> mine (memory s') (mm_frame s' mm') = mine (memory s) (mm_frame s mm')" by blast+
qed

lemma world_release:
  fixes s :: "'a mms_scheme"
  assumes w: "world s C V X g P" and p: "P mm = Some as"
  obtains s' where "mm_release mm s = Some (Inr s')"
    and "world s' C (V - mine (memory s) (mm_frame s mm)) (X - {(mm_slab, mm)} - {vma_slab} \<times> set as) g (P(mm := None))"
    and "\<And>mm' x. mm' \<in> dom P \<Longrightarrow> mm' \<noteq> mm \<Longrightarrow> unat x < 2 ^ 47 \<Longrightarrow> user_byte s' mm' x = user_byte s mm' x"
    and "\<And>mm'. mm' \<in> dom P \<Longrightarrow> mm' \<noteq> mm \<Longrightarrow> mine (memory s') (mm_frame s' mm') = mine (memory s) (mm_frame s mm')"
proof -
  note d = worldD [OF w] and m = memberD [OF worldD(5) [OF w p]] and o = world_others [OF w p]
  let ?M = "mine (memory s) (mm_frame s mm)" and ?X = "X - {(mm_slab, mm)} - {vma_slab} \<times> set as"
  obtain s' where c: "mm_release mm s = Some (Inr s')" "objs s' C (V - ?M) ?X" "others_kept (V - ?M) s s'"
      "mm_at s' = mm_at s" "vma_at s' = vma_at s" "initial_cr3 s' = initial_cr3 s"
      "\<And>x. x \<notin> set (MmHead mm # map Vma as) \<Longrightarrow> x \<noteq> Lst \<Longrightarrow>
        nxt (mm_links s') x = nxt (mm_links s) x \<and> prv (mm_links s') x = prv (mm_links s) x"
    by (rule mm_release_gives_back [OF m(1)]) blast
  have rest: "\<forall>m' cs. (P(mm := None)) m' = Some cs \<longrightarrow> mine (memory s) (mm_frame s m') \<inter> ?M = {} \<and> spared s s' ?X m' cs"
  proof (intro allI impI conjI)
    fix m' cs assume q: "(P(mm := None)) m' = Some cs"
    show "mine (memory s) (mm_frame s m') \<inter> ?M = {}" using o(4) [OF q] unfolding apart_def by blast
    have ap: "P m' = Some cs" "m' \<noteq> mm" "set as \<inter> set cs = {}" using o(4) [OF q] by (simp_all add: apart_def)
    note x = o(5) [OF ap(1)]
    have "(mm_slab, m') \<in> ?X" using x ap(2) by (simp add: mm_slab_def vma_slab_def)
    moreover have "(vma_slab, a) \<in> ?X" if "a \<in> set cs" for a using x that ap(3) by (auto simp: mm_slab_def vma_slab_def)
    moreover have "nxt (mm_links s') y = nxt (mm_links s) y \<and> prv (mm_links s') y = prv (mm_links s) y"
      if "y \<in> set (MmHead m' # map Vma cs)" for y by (rule c(7)) (use that ap in auto)
    ultimately show "spared s s' ?X m' cs" unfolding spared_def by (simp add: c(4,5))
  qed
  note r = world_rest [OF w c(2,3,6) order_refl o(2,3) rest]
  have "user_byte s' mm' x = user_byte s mm' x" if "mm' \<in> dom P" "mm' \<noteq> mm" "unat x < 2 ^ 47" for mm' x
    using r(4) [of mm' _ x] that by auto
  moreover have "mine (memory s') (mm_frame s' mm') = mine (memory s) (mm_frame s mm')" if "mm' \<in> dom P" "mm' \<noteq> mm" for mm'
    using r(3) [of mm'] that by auto
  ultimately show thesis using that [OF c(1) r(1)] by blast
qed

text \<open>A process, or the kernel for it, writes to its own memory.\<close>

lemma world_write:
  fixes s :: "'a mms_scheme"
  assumes w: "world s C V X g P" and p: "P mm = Some as" and ow: "own_write s mm m"
  defines "s' \<equiv> s\<lparr>memory := m\<rparr>"
  shows "world s' C V X g P" and "mm' \<in> dom P \<Longrightarrow> mm' \<noteq> mm \<Longrightarrow> unat x < 2 ^ 47 \<Longrightarrow> user_byte s' mm' x = user_byte s mm' x"
    and "mm' \<in> dom P \<Longrightarrow> mine (memory s') (mm_frame s' mm') = mine (memory s) (mm_frame s mm')"
proof -
  note d = worldD [OF w] and m = memberD [OF worldD(5) [OF w p]] and o = world_others [OF w p]
  let ?f = "mm_frame s mm"
  let ?M = "mine (memory s) ?f"
  note k = own_write_ok [OF m(1) ow, folded s'_def]
  have cr: "initial_cr3 s' = initial_cr3 s" by (simp add: s'_def)
  have rest: "\<forall>m' cs. (P(mm := None)) m' = Some cs \<longrightarrow> mine (memory s) (mm_frame s m') \<inter> ?M = {} \<and> spared s s' X m' cs"
  proof (intro allI impI conjI)
    fix m' cs assume q: "(P(mm := None)) m' = Some cs"
    show "mine (memory s) (mm_frame s m') \<inter> ?M = {}" using o(4) [OF q] unfolding apart_def by blast
    have "P m' = Some cs" using o(4) [OF q] by blast
    from o(5) [OF this] show "spared s s' X m' cs" unfolding spared_def by (simp add: s'_def)
  qed
  note r = world_rest [OF w k(4,2) cr Diff_subset o(2,3) rest]
  have f: "mm_frame s' mm = ?f" "memory s' = m" by (simp_all add: s'_def mm_frame_def)
  note tg = tree_cong [OF r(2) order_refl] and hg = half_cong [OF r(2)]
  note tf = tree_cong [OF k(3) order_refl] and hf = half_cong [OF k(3)]
  have mn: "mine (memory s') ?f = ?M" using hf f by (simp add: mine_def)
  have "linked (memory s') g ?f" using m(2) tg hg tf hf f by (simp add: linked_def)
  moreover have "?M \<inter> tabs (memory s') g = {}" using m(3) tg by simp
  ultimately have "member s' C V X g mm as" using k(1) f(1) mn by (simp add: member_def)
  moreover have "apart s' mm as m' cs" if q: "(P(mm := None)) m' = Some cs" for m' cs
    using o(4) [OF q] r(3) [OF q] f(1) mn by (simp add: apart_def)
  ultimately have "world s' C V X g (P(mm \<mapsto> as))" by (rule world_put [OF r(1)])
  moreover have "P(mm \<mapsto> as) = P" using p by auto
  ultimately show "world s' C V X g P" by simp
  show "mine (memory s') (mm_frame s' mm') = mine (memory s) (mm_frame s mm')" if "mm' \<in> dom P"
    using r(3) [of mm'] that f(1) mn by (cases "mm' = mm") auto
  show "user_byte s' mm' x = user_byte s mm' x" if "mm' \<in> dom P" "mm' \<noteq> mm" "unat x < 2 ^ 47"
    using r(4) [of mm' _ x] that by auto
qed

text \<open>The tables of a process or of the kernel are no part of another's own memory.\<close>

lemma world_tables:
  assumes w: "world s C V X g P" and p: "P mm = Some as" and q: "P mm' = Some bs"
    and t: "t \<in> tables (memory s) 4 (mm_frame s mm')"
  shows "t \<in> tables (memory s) 4 (mm_frame s mm) \<or> (t, 0) \<in> V - mine (memory s) (mm_frame s mm)"
proof (cases "mm' = mm")
  case False
  note d = worldD [OF w] and m = memberD [OF worldD(5) [OF w q]] and o = world_others [OF w p]
  have "(t, 0) \<in> V" by (rule user_inD(4) [OF space_okD(9) [OF m(1)] t])
  moreover have "(t, 0) \<in> mine (memory s) (mm_frame s mm') \<union> tabs (memory s) g" using tabs_split [OF m(2)] t by blast
  moreover have "mine (memory s) (mm_frame s mm') \<inter> mine (memory s) (mm_frame s mm) = {}"
    using d(6) [OF q p False] by (simp add: apart_def)
  ultimately show ?thesis using o(2) by blast
qed (use t in simp)

end
