(* ===== verification/Mm_Isolation.thy ===== *)
theory Mm_Isolation
  imports Mm_World
begin

text \<open>
  The kernel at work on several address spaces: a step is one call of \<open>mm_create\<close>, \<open>mmap\<close>, \<open>mset\<close>, \<open>mcopy\<close>
  or \<open>mm_release\<close>, or a store of a process to its memory. Whatever the order of the steps, the processes stay
  isolated from each other and from the page tables, and a process that ends leaves no trace.
\<close>

subsection \<open>Steps of the address spaces\<close>

text \<open>
  The state with the set of live address spaces; the first argument is the one the step is for. A call of \<open>mmap\<close>
  is for whole pages of the user space and succeeds; one that is refused changes nothing, and the code does not
  survive a failure for lack of memory (\<open>mmap_undo\<close>).
\<close>

inductive space_step :: "u64 \<Rightarrow> 'a mms_scheme \<times> u64 set \<Rightarrow> 'a mms_scheme \<times> u64 set \<Rightarrow> bool" where
  create: "mm_create s = Inr (mm, s') \<Longrightarrow> space_step mm (s, L) (s', if mm = 0 then L else insert mm L)"
| map: "mm \<in> L \<Longrightarrow> 4096 dvd unat (from AND USER_MASK) \<Longrightarrow> 4096 dvd unat (to AND USER_MASK) \<Longrightarrow> to AND USER_MASK \<le> user_end \<Longrightarrow>
    mmap mm from to perm s = Some (Inr (True, s')) \<Longrightarrow> space_step mm (s, L) (s', L)"
| release: "mm \<in> L \<Longrightarrow> mm_release mm s = Some (Inr s') \<Longrightarrow> space_step mm (s, L) (s', L - {mm})"
| fill: "mm \<in> L \<Longrightarrow> unat to + unat sz \<le> 2 ^ 47 \<Longrightarrow> mset mm to c sz s = (ok, s') \<Longrightarrow> space_step mm (s, L) (s', L)"
| copy: "mm \<in> L \<Longrightarrow> src \<in> L \<Longrightarrow> unat to + unat sz \<le> 2 ^ 47 \<Longrightarrow> mcopy mm to src from sz s = (ok, s') \<Longrightarrow> space_step mm (s, L) (s', L)"
| store: "mm \<in> L \<Longrightarrow> unat x < 2 ^ 47 \<Longrightarrow> resolve (memory s) 4 (mm_frame s mm) x = Some (p, fl) \<Longrightarrow>
    space_step mm (s, L) (s\<lparr>memory := (memory s)(va p := b)\<rparr>, L)"

definition spaces_ok :: "'a mms_scheme \<Rightarrow> nat set \<Rightarrow> nat \<Rightarrow> u64 set \<Rightarrow> bool" where
  "spaces_ok s C g L \<longleftrightarrow> (\<exists>V X P. world s C V X g P \<and> dom P = L)"

text \<open>The three kinds of writes are writes of a process to its own memory.\<close>

lemma fill_writes:
  assumes w: "world s C V X g P" and p: "P mm = Some as" and "unat to + unat sz \<le> 2 ^ 47" and "mset mm to c sz s = (ok, s')"
  shows "\<exists>m. own_write s mm m \<and> s' = s\<lparr>memory := m\<rparr>"
  using mset_fills_spec [OF memberD(1) [OF worldD(5) [OF w p]] assms(3), of c] assms(4) by (metis prod.inject)

lemma copy_writes:
  assumes w: "world s C V X g P" and p: "P mm = Some as" and q: "P src = Some bs" and b: "unat to + unat sz \<le> 2 ^ 47"
    and run: "mcopy mm to src from sz s = (ok, s')"
  shows "\<exists>m. own_write s mm m \<and> s' = s\<lparr>memory := m\<rparr>"
proof -
  note sp = memberD(1) [OF worldD(5) [OF w p]] and sq = memberD(1) [OF worldD(5) [OF w q]]
  show ?thesis
    by (rule mcopy_copies_spec [OF sp space_okD(6) [OF sq] world_tables [OF w p q] b, of "from"]) (use run in auto)
qed

lemma store_writes:
  assumes "unat x < 2 ^ 47" and "resolve (memory s) 4 (mm_frame s mm) x = Some (p, fl)"
  shows "own_write s mm ((memory s)(va p := b))"
proof -
  have "byte_at (memory s) (mm_frame s mm) x = va p" using assms(2) by (simp add: pt_addr_resolve)
  then show ?thesis using assms unfolding own_write_def by (metis fun_upd_other option.distinct(1))
qed

text \<open>The blocks and objects that belong to none of the processes.\<close>

definition spare_blocks :: "'a mms_scheme \<Rightarrow> block set \<Rightarrow> (u64 \<rightharpoonup> u64 list) \<Rightarrow> block set" where
  "spare_blocks s V P = V - (\<Union>mm\<in>dom P. mine (memory s) (mm_frame s mm))"

definition spare_objs :: "(nat \<times> u64) set \<Rightarrow> (u64 \<rightharpoonup> u64 list) \<Rightarrow> (nat \<times> u64) set" where
  "spare_objs X P = X - (\<Union>mm\<in>dom P. insert (mm_slab, mm) ({vma_slab} \<times> set (the (P mm))))"

lemma spare_put:
  assumes "\<forall>mm'\<in>dom P. mm' \<noteq> mm \<longrightarrow> mine (memory s') (mm_frame s' mm') = mine (memory s) (mm_frame s mm')"
  shows "spare_blocks s' V (P(mm \<mapsto> as)) = V - mine (memory s') (mm_frame s' mm) - (\<Union>mm'\<in>dom P - {mm}. mine (memory s) (mm_frame s mm'))"
    and "spare_blocks s' V (P(mm := None)) = V - (\<Union>mm'\<in>dom P - {mm}. mine (memory s) (mm_frame s mm'))"
    and "spare_objs X (P(mm \<mapsto> as)) = X - {vma_slab} \<times> set as - {(mm_slab, mm)} -
      (\<Union>mm'\<in>dom P - {mm}. insert (mm_slab, mm') ({vma_slab} \<times> set (the (P mm'))))"
    and "spare_objs X (P(mm := None)) = X - (\<Union>mm'\<in>dom P - {mm}. insert (mm_slab, mm') ({vma_slab} \<times> set (the (P mm'))))"
proof -
  have d: "dom (P(mm \<mapsto> as)) = insert mm (dom P - {mm})" "dom (P(mm := None)) = dom P - {mm}" by auto
  have "(\<Union>mm'\<in>dom P - {mm}. mine (memory s') (mm_frame s' mm')) = (\<Union>mm'\<in>dom P - {mm}. mine (memory s) (mm_frame s mm'))"
    using assms by (intro SUP_cong) auto
  then show "spare_blocks s' V (P(mm \<mapsto> as)) = V - mine (memory s') (mm_frame s' mm) - (\<Union>mm'\<in>dom P - {mm}. mine (memory s) (mm_frame s mm'))"
    "spare_blocks s' V (P(mm := None)) = V - (\<Union>mm'\<in>dom P - {mm}. mine (memory s) (mm_frame s mm'))"
    unfolding spare_blocks_def d by auto
  let ?O = "\<lambda>Q. \<Union>mm'\<in>dom P - {mm}. insert (mm_slab, mm') ({vma_slab} \<times> set (the (Q mm')))"
  have "?O (P(mm \<mapsto> as)) = ?O P" "?O (P(mm := None)) = ?O P" by (intro SUP_cong refl, simp)+
  note O = this
  show "spare_objs X (P(mm \<mapsto> as)) = X - {vma_slab} \<times> set as - {(mm_slab, mm)} - ?O P"
    unfolding spare_objs_def d UN_insert O fun_upd_same option.sel by blast
  show "spare_objs X (P(mm := None)) = X - ?O P" unfolding spare_objs_def d O ..
qed

lemma spare_now:
  assumes "P mm = Some as"
  shows "spare_blocks s V P = V - mine (memory s) (mm_frame s mm) - (\<Union>mm'\<in>dom P - {mm}. mine (memory s) (mm_frame s mm'))"
    and "spare_objs X P = X - {vma_slab} \<times> set as - {(mm_slab, mm)} -
      (\<Union>mm'\<in>dom P - {mm}. insert (mm_slab, mm') ({vma_slab} \<times> set (the (P mm'))))"
proof -
  have "P(mm \<mapsto> as) = P" using assms by auto
  then show "spare_blocks s V P = V - mine (memory s) (mm_frame s mm) - (\<Union>mm'\<in>dom P - {mm}. mine (memory s) (mm_frame s mm'))"
    "spare_objs X P = X - {vma_slab} \<times> set as - {(mm_slab, mm)} -
      (\<Union>mm'\<in>dom P - {mm}. insert (mm_slab, mm') ({vma_slab} \<times> set (the (P mm'))))"
    using spare_put(1) [where P = P and mm = mm and s' = s and s = s and as = as and V = V]
      spare_put(3) [where P = P and mm = mm and s' = s and s = s and as = as and X = X] by simp_all
qed

lemma spare_same:
  assumes "\<And>mm'. mm' \<in> dom P \<Longrightarrow> mine (memory s') (mm_frame s' mm') = mine (memory s) (mm_frame s mm')"
  shows "spare_blocks s' V P = spare_blocks s V P"
  using assms by (simp add: spare_blocks_def)

text \<open>
  A step keeps the invariant, the blocks and objects that belong to no process, and what the other processes read.
\<close>

definition step_post :: "u64 \<Rightarrow> 'a mms_scheme \<Rightarrow> nat set \<Rightarrow> block set \<Rightarrow> (nat \<times> u64) set \<Rightarrow> nat \<Rightarrow> (u64 \<rightharpoonup> u64 list) \<Rightarrow>
    'a mms_scheme \<times> u64 set \<Rightarrow> bool" where
  "step_post mm s C V X g P c' \<longleftrightarrow>
     (\<exists>V' X' P'. world (fst c') C V' X' g P' \<and> dom P' = snd c' \<and>
        spare_blocks (fst c') V' P' = spare_blocks s V P \<and> spare_objs X' P' = spare_objs X P) \<and>
     (\<forall>mm'\<in>dom P. mm' \<noteq> mm \<longrightarrow> mm' \<in> snd c' \<and> (\<forall>x. unat x < 2 ^ 47 \<longrightarrow> user_byte (fst c') mm' x = user_byte s mm' x))"

lemma step_postI:
  assumes "world s' C V' X' g P'" and "dom P' = L" and "spare_blocks s' V' P' = spare_blocks s V P" and "spare_objs X' P' = spare_objs X P"
    and "\<And>mm' x. mm' \<in> dom P \<Longrightarrow> mm' \<noteq> mm \<Longrightarrow> unat x < 2 ^ 47 \<Longrightarrow> user_byte s' mm' x = user_byte s mm' x"
    and "dom P - {mm} \<subseteq> L"
  shows "step_post mm s C V X g P (s', L)"
  using assms unfolding step_post_def fst_conv snd_conv by blast

lemma write_step:
  assumes "world s C V X g P" and "P mm = Some as" and "own_write s mm m"
  shows "step_post mm s C V X g P (s\<lparr>memory := m\<rparr>, dom P)"
proof -
  note k = world_write [OF assms]
  show ?thesis by (rule step_postI [OF k(1) refl spare_same [OF k(3)] refl k(2)]) auto
qed

lemma create_step:
  assumes w: "world s C V X g P" and run: "mm_create s = Inr (mm, s')"
  shows "step_post mm s C V X g P (s', if mm = 0 then dom P else insert mm (dom P))"
proof (cases "mm = 0")
  case True
  note k = world_create_fails [OF w run [unfolded True]]
  show ?thesis unfolding if_P [OF True] by (rule step_postI [OF k(1) refl spare_same [OF k(3)] refl k(2)]) auto
next
  case False
  note k = world_create [OF w run False]
  obtain V' X' where v: "world s' C V' X' g (P(mm \<mapsto> []))" "V' - mine (memory s') (mm_frame s' mm) = V" "X' - {(mm_slab, mm)} = X"
    using k(2) by blast
  have nd: "dom P - {mm} = dom P" using k(1) by auto
  have "\<forall>mm'\<in>dom P. mm' \<noteq> mm \<longrightarrow> mine (memory s') (mm_frame s' mm') = mine (memory s) (mm_frame s mm')" using k(4) by blast
  note p = spare_put [OF this, unfolded nd]
  have "spare_blocks s' V' (P(mm \<mapsto> [])) = spare_blocks s V P" unfolding p(1) v(2) spare_blocks_def [of s V P] ..
  moreover have "spare_objs X' (P(mm \<mapsto> [])) = spare_objs X P" unfolding p(3) list.set(1) Sigma_empty2 Diff_empty v(3) spare_objs_def [of X P] ..
  ultimately show ?thesis unfolding if_not_P [OF False] by (intro step_postI [OF v(1)] k(3)) auto
qed

lemma map_step:
  assumes w: "world s C V X g P" and p: "P mm = Some as"
    and al: "4096 dvd unat (from AND USER_MASK)" "4096 dvd unat (to AND USER_MASK)" "to AND USER_MASK \<le> user_end"
    and run: "mmap mm from to perm s = Some (Inr (True, s'))"
  shows "step_post mm s C V X g P (s', dom P)"
proof -
  note k = world_mmap [OF w p al run]
  obtain V' X' bs where v: "world s' C V' X' g (P(mm \<mapsto> bs))" "V' - mine (memory s') (mm_frame s' mm) = V - mine (memory s) (mm_frame s mm)"
    "X' - {vma_slab} \<times> set bs = X - {vma_slab} \<times> set as" using k(1) by blast
  have "\<forall>mm'\<in>dom P. mm' \<noteq> mm \<longrightarrow> mine (memory s') (mm_frame s' mm') = mine (memory s) (mm_frame s mm')" using k(3) by blast
  note after = spare_put [OF this]
  have "spare_blocks s' V' (P(mm \<mapsto> bs)) = spare_blocks s V P" unfolding after(1) spare_now [where P = P and mm = mm and as = as, OF p] v(2) ..
  moreover have "spare_objs X' (P(mm \<mapsto> bs)) = spare_objs X P" unfolding after(3) spare_now [where P = P and mm = mm and as = as, OF p] v(3) ..
  ultimately show ?thesis by (intro step_postI [OF v(1)] k(2)) (use p in auto)
qed

lemma release_step:
  assumes w: "world s C V X g P" and p: "P mm = Some as" and run: "mm_release mm s = Some (Inr s')"
  shows "step_post mm s C V X g P (s', dom P - {mm})"
proof -
  show ?thesis
  proof (rule world_release [OF w p])
    fix t assume t: "mm_release mm s = Some (Inr t)"
      "world t C (V - mine (memory s) (mm_frame s mm)) (X - {(mm_slab, mm)} - {vma_slab} \<times> set as) g (P(mm := None))"
      "\<And>mm' x. mm' \<in> dom P \<Longrightarrow> mm' \<noteq> mm \<Longrightarrow> unat x < 2 ^ 47 \<Longrightarrow> user_byte t mm' x = user_byte s mm' x"
      "\<And>mm'. mm' \<in> dom P \<Longrightarrow> mm' \<noteq> mm \<Longrightarrow> mine (memory t) (mm_frame t mm') = mine (memory s) (mm_frame s mm')"
    have s': "s' = t" using run t(1) by simp
    have "\<forall>mm'\<in>dom P. mm' \<noteq> mm \<longrightarrow> mine (memory t) (mm_frame t mm') = mine (memory s) (mm_frame s mm')" using t(4) by blast
    note after = spare_put [OF this]
    have "X - {(mm_slab, mm)} - {vma_slab} \<times> set as = X - {vma_slab} \<times> set as - {(mm_slab, mm)}" by blast
    then show ?thesis
      unfolding s' by (intro step_postI [OF t(2)] t(3)) (simp_all add: after spare_now [where P = P and mm = mm and as = as, OF p])
  qed
qed

lemma space_step_ok:
  assumes "space_step mm c c'" and "world (fst c) C V X g P" and "dom P = snd c"
  shows "step_post mm (fst c) C V X g P c'"
  using assms
proof (cases rule: space_step.cases)
  case (create s s' L)
  have w: "world s C V X g P" and L: "dom P = L" using assms(2,3) create by simp_all
  show ?thesis unfolding create(1,2) fst_conv by (rule create_step [OF w create(3), unfolded L])
next
  case (map L "from" to perm s s')
  then show ?thesis using map_step [of s C V X g P mm _ "from" to perm s'] assms(2,3) by auto
next
  case (release L s s')
  then show ?thesis using release_step [of s C V X g P mm _ s'] assms(2,3) by auto
next
  case (fill L to sz c s ok s')
  then obtain as where "world s C V X g P" "P mm = Some as" "dom P = L" using assms(2,3) by auto
  then show ?thesis using fill fill_writes [of s C V X g P mm as to sz c ok s'] write_step [of s C V X g P mm as] by auto
next
  case (copy L src to sz "from" s ok s')
  then obtain as bs where "world s C V X g P" "P mm = Some as" "P src = Some bs" "dom P = L" using assms(2,3) by auto
  then show ?thesis
    using copy copy_writes [of s C V X g P mm as src bs to sz "from" ok s'] write_step [of s C V X g P mm as] by auto
next
  case (store L x s p fl b)
  then obtain as where "world s C V X g P" "P mm = Some as" "dom P = L" using assms(2,3) by auto
  then show ?thesis using store write_step [OF _ _ store_writes [OF store(4,5)]] by auto
qed

end
