(* ===== verification/Space_Sample.thy ===== *)
theory Space_Sample
  imports Mm_Isolation
begin

text \<open>
  A machine to apply the properties to: the frames 8 to 23, the lower eight in use, of which frame 8 holds the
  kernel's empty table, the upper eight one free block; empty caches whose slabs hold one object each.
\<close>

subsection \<open>The machine\<close>

definition zone_raw_sample :: zone where
  "zone_raw_sample = \<lparr>zlinks = init_orders 0 (MAX_ORDER + 1) \<lparr>nxt = id, prv = id\<rparr>, zbegin = 8, zend = 24,
                zpages = (\<lambda>p. \<lparr>pg_flags = 0, pg_order = 0\<rparr>)\<rparr>"

definition zone_sample :: zone where
  "zone_sample = upd_links (list_add (Pg 8) (Head 3))
     (upd_page 8 page_set_free (upd_page 8 (\<lambda>pg. page_set_order pg 3) zone_raw_sample))"

definition space_sample :: mms where
  "space_sample = \<lparr>rflags = 0x202, preempt_count = 0, memory = (\<lambda>a. 0), mmap_begin = 0, mmap_end = 0,
     initrd_begin = 0, initrd_end = 0, free_ranges = [], all_ranges = [],
     buddy_zones = [zone_sample], slab_links = \<lparr>nxt = id, prv = id\<rparr>,
     slab_meta = (\<lambda>a. \<lparr>slab_page = (0, 0), slab_first = 0, slab_count = 0\<rparr>),
     caches = (\<lambda>c. \<lparr>slab_order = 0, slab_size = 1, obj_size = 40\<rparr>),
     initial_cr3 = 0x8000, cr3 = 0x8000, mm_links = \<lparr>nxt = id, prv = id\<rparr>,
     mm_at = (\<lambda>a. \<lparr>mm_pt = (0, 0), mm_cr3 = 0\<rparr>), vma_at = (\<lambda>a. \<lparr>vma_begin = 0, vma_end = 0, vma_perm = 0\<rparr>)\<rparr>"

definition used_sample :: "block set" where
  "used_sample = (\<lambda>f. (f, 0)) ` {8..<16}"

lemma zone_sample_inv: "\<exists>L. zone_inv zone_sample L (singles {..<8}) {} \<and> coalesced zone_sample L"
proof -
  have clear: "\<not> page_free \<lparr>pg_flags = 0, pg_order = 0\<rparr>" by (simp add: page_free_def)
  have z0: "zone_inv zone_raw_sample (\<lambda>k. []) (singles {..<16}) {}"
    using fresh_zone_inv(1) [of 8 24 "\<lambda>p. \<lparr>pg_flags = 0, pg_order = 0\<rparr>"] clear
    by (simp add: zone_raw_sample_def zsize_def)
  have pg: "pages_of (8, 3) = {8..<16}" by (auto simp: pages_of_def)
  have rest: "singles {..<16} - (\<lambda>i. (i, 0 :: nat)) ` {8..<16} = singles {..<8}" by (auto simp: singles_def image_iff)
  have "zone_inv zone_raw_sample (\<lambda>k. []) (singles {..<16} - (\<lambda>i. (i, 0)) ` pages_of (8, 3)) {(8, 3)}"
    by (rule zone_fuse [OF z0]) (auto simp: pg singles_def MAX_ORDER_def zone_raw_sample_def)
  then have z1: "zone_inv zone_raw_sample (\<lambda>k. []) (singles {..<8}) {(8, 3)}" unfolding pg rest .
  have "zone_inv (upd_page 8 page_set_free (upd_page 8 (\<lambda>pg. page_set_order pg 3) zone_raw_sample))
      (\<lambda>k. []) (singles {..<8}) {(8, 3)}"
    using zone_inv_upd_page zone_hole_head [OF z1] z1 by metis
  from zone_put(1) [OF this]
  have "zone_inv zone_sample ((\<lambda>k. [])(3 := [8])) (singles {..<8}) {}" by (simp add: zone_sample_def)
  moreover have "coalesced zone_sample ((\<lambda>k. [])(3 := [8]))"
    by (auto simp: coalesced_def free_blocks_def zone_sample_def zone_raw_sample_def split: if_splits)
  ultimately show ?thesis by blast
qed

lemma zone_sample_bounds [simp]: "zbegin zone_sample = 8" "zend zone_sample = 24" "zsize zone_sample = 16"
  by (simp_all add: zone_sample_def zone_raw_sample_def zsize_def)

lemma space_sample_fields [simp]: "buddy_zones space_sample = [zone_sample]" "memory space_sample = (\<lambda>a. 0)"
  by (simp_all add: space_sample_def)

lemma space_sample_objs: "objs space_sample {mm_slab, vma_slab} used_sample {}"
proof -
  have "zone_used zone_sample used_sample = singles {..<8}"
    by (auto simp: zone_used_def used_sample_def singles_def image_iff)
  then have "buddy_ok space_sample used_sample"
    using zone_sample_inv
    by (auto simp: buddy_ok_def buddy_inv_def zones_inv_def zero_reserved_def used_sample_def)
  moreover have "cache_ok \<lparr>slab_order = 0, slab_size = 1, obj_size = 40\<rparr>" by (simp add: cache_ok_def)
  ultimately have "slabs_inv space_sample {mm_slab, vma_slab} used_sample (\<lambda>_. []) (\<lambda>_. []) {}"
    by (simp add: slabs_inv_def slab_lists_def dlists_def dlist_def phys_small_def layout_def slab_set_def slab_blocks_def)
      (auto simp: space_sample_def slab_hdr_def)
  then show ?thesis
    unfolding objs_def by (intro exI [of _ "\<lambda>_. []"] conjI) (simp_all add: live_def slab_set_def)
qed

lemma space_sample_root: "kernel_root space_sample used_sample 8"
proof -
  have p: "\<not> points (\<lambda>a. 0) l f i" for l f i by (simp add: points_def table_empty present_def)
  have "separate (\<lambda>a. 0) 4 8" unfolding four separate.simps using p by blast
  moreover have "kernel_tables (\<lambda>a. 0) 8 = {8}" by (auto simp: kernel_tables_def below_def p)
  moreover have "initial_cr3 space_sample = of_nat 8 * PAGE_SIZE" by (simp add: space_sample_def PAGE_SIZE_def)
  ultimately show ?thesis by (simp add: kernel_root_def kernel_ok_def table_tables used_sample_def)
qed

lemma world_none:
  assumes "objs s C V X" and "mm_slab \<in> C" and "vma_slab \<in> C" and "kernel_root s V g"
  shows "world s C V X g Map.empty"
  using assms by (simp add: world_def)

lemma space_sample_world: "world space_sample {mm_slab, vma_slab} used_sample {} 8 Map.empty"
  by (rule world_none [OF space_sample_objs _ _ space_sample_root]) simp_all

lemma space_sample_ok: "spaces_ok space_sample {mm_slab, vma_slab} 8 {}"
  unfolding spaces_ok_def using space_sample_world dom_empty by blast

subsection \<open>Calls that succeed there\<close>

lemma one_zone_alloc:
  assumes "buddy_zones s = [z]" and "do_buddy_alloc k s = (r, s')"
  shows "buddy_zones s' = [snd (do_buddy_alloc_zone z k)]" and "r = None \<longleftrightarrow> fst (do_buddy_alloc_zone z k) = None"
  using assms by (auto simp: do_buddy_alloc_def buddy_alloc_zone_def spin_lock_int_save_eq spin_unlock_int_restore_eq
      Let_def split: prod.splits option.splits)

text \<open>The first object of a cache is the only one of its slab.\<close>

lemma first_object:
  fixes s :: "'a mms_scheme"
  assumes o: "objs s C V X" and c: "c \<in> C" and z: "buddy_zones s = [z]" "fst (do_buddy_alloc_zone z 0) \<noteq> None"
    and e: "nxt (slab_links s) (LHead c Partial) = LHead c Partial" "nxt (slab_links s) (LHead c Empty) = LHead c Empty"
    and k: "slab_order (caches s c) = 0" "slab_size (caches s c) = 1"
  obtains p s' where "slab_cache_alloc c s = Inr (p, s')" and "p \<noteq> 0" and "buddy_zones s' = [snd (do_buddy_alloc_zone z 0)]"
    and "caches s' = caches s" and "\<And>d j. j \<noteq> Full \<Longrightarrow> nxt (slab_links s') (LHead d j) = nxt (slab_links s) (LHead d j)"
proof -
  obtain p s' where a: "slab_cache_alloc c s = Inr (p, s')" "p = 0 \<longrightarrow> fst (do_buddy_alloc (slab_order (caches s c)) s) = None"
    "caches s' = caches s" using slab_cache_alloc_cases [OF o c] by blast
  obtain r t where r: "do_buddy_alloc 0 s = (r, t)" by fastforce
  note oz = one_zone_alloc [OF z(1) r]
  have p: "p \<noteq> 0" using a(2) k(1) r oz(2) z(2) by auto
  obtain b s1 where lock: "spin_lock_int_save () s = (b, s1)" by fastforce
  obtain r1 t1 where r1: "do_buddy_alloc 0 s1 = (r1, t1)" by fastforce
  have s1: "buddy_zones s1 = [z]" "slab_links s1 = slab_links s" "caches s1 = caches s"
    using lock z(1) by (auto simp: spin_lock_int_save_eq)
  note oz1 = one_zone_alloc [OF s1(1) r1]
  have more: "slab_links t1 = slab_links s" "caches t1 = caches s"
    using upper_of_buddy [OF do_buddy_alloc_more [OF r1]] do_buddy_alloc_more [OF r1] s1 by (cases t1; cases s1; simp)+
  obtain pg where pg: "r1 = Some pg" using oz1(2) z(2) by auto
  have pick: "slab_pick c s1 = slab_create c s1" using e s1(2) by (simp add: slab_pick_def list_empty_def)
  obtain s2 where al: "do_slab_cache_alloc c s1 = Inr (p, s2)" and s': "s' = spin_unlock_int_restore () b s2"
    using a(1) lock by (auto simp: slab_cache_alloc_def and_then_eq_Inr)
  obtain slab s3 where cr: "slab_create c s1 = Inr (slab, s3)"
    using al pick by (auto simp: do_slab_cache_alloc_def and_then_eq_Inr)
  have s3: "buddy_zones s3 = buddy_zones t1" "slab_links s3 = slab_links t1" "slab_count (slab_meta s3 slab) = 1"
    using cr r1 pg s1(3) k by (auto simp: slab_create_def Let_def and_then_eq_Inr)
  have "slab \<noteq> 0" using al pick cr p by (auto simp: do_slab_cache_alloc_def)
  then have s2: "buddy_zones s2 = buddy_zones s3" "slab_links s2 = list_add (Slab slab) (LHead c Full) (slab_links s3)"
    using al pick cr s3(3) by (auto simp: do_slab_cache_alloc_def slab_alloc_def Let_def upd_slab_links_def)
  have "buddy_zones s' = [snd (do_buddy_alloc_zone z 0)]" using s' s2(1) s3(1) oz1(1) by (simp add: spin_unlock_int_restore_eq)
  moreover have "nxt (slab_links s') (LHead d j) = nxt (slab_links s) (LHead d j)" if "j \<noteq> Full" for d j
    using that s' s2(2) s3(2) more(1) by (simp add: spin_unlock_int_restore_eq list_add_def list_insert_next)
  ultimately show thesis using that [OF a(1) p _ a(3)] by blast
qed

abbreviation rest_zone :: "zone \<Rightarrow> zone" where
  "rest_zone z \<equiv> snd (do_buddy_alloc_zone z 0)"

text \<open>The caches are as at the start, but for full slabs.\<close>

definition fresh_sample :: "'a mms_scheme \<Rightarrow> zone \<Rightarrow> bool" where
  "fresh_sample s z \<longleftrightarrow> buddy_zones s = [z] \<and> (\<forall>c. slab_order (caches s c) = 0 \<and> slab_size (caches s c) = 1) \<and>
     (\<forall>d j. j \<noteq> Full \<longrightarrow> nxt (slab_links s) (LHead d j) = LHead d j)"

lemma fresh_sampleD:
  assumes "fresh_sample s z"
  shows "buddy_zones s = [z]" and "slab_order (caches s c) = 0" and "slab_size (caches s c) = 1"
    and "nxt (slab_links s) (LHead c Partial) = LHead c Partial" and "nxt (slab_links s) (LHead c Empty) = LHead c Empty"
  using assms by (auto simp: fresh_sample_def)

lemma fresh_object:
  fixes s :: "'a mms_scheme"
  assumes o: "objs s C V X" and c: "c \<in> C" and f: "fresh_sample s z" and "fst (do_buddy_alloc_zone z 0) \<noteq> None"
  obtains p s' where "slab_cache_alloc c s = Inr (p, s')" and "p \<noteq> 0" and "fresh_sample s' (rest_zone z)"
proof -
  note d = fresh_sampleD [OF f]
  show thesis
    by (rule first_object [OF o c d(1) assms(4) d(4,5,2,3)]) (rule that; use f in \<open>auto simp: fresh_sample_def\<close>)
qed

lemma create_sample:
  fixes s :: "'a mms_scheme"
  assumes o: "objs s C V X" and c: "mm_slab \<in> C" and f: "fresh_sample s z"
    and n: "fst (do_buddy_alloc_zone z 0) \<noteq> None" "fst (do_buddy_alloc_zone (rest_zone z) 0) \<noteq> None"
  obtains mm s' where "mm_create s = Inr (mm, s')" and "mm \<noteq> 0" and "fresh_sample s' (rest_zone (rest_zone z))"
proof -
  obtain p s1 where a: "slab_cache_alloc mm_slab s = Inr (p, s1)" "p \<noteq> 0" "fresh_sample s1 (rest_zone z)"
    by (rule fresh_object [OF o c f n(1)])
  have o1: "objs s1 C V (insert (mm_slab, p) X)" using slab_cache_alloc_cases [OF o c] a(1,2) by auto
  let ?s2 = "upd_mm_links (list_init (MmHead p)) s1"
  have o2: "objs ?s2 C V (insert (mm_slab, p) X)" using o1 objs_same [of ?s2 s1] by (simp add: same_slabs_def upd_mm_links_def)
  obtain r s3 where r: "do_buddy_alloc 0 ?s2 = (r, s3)" by fastforce
  have "buddy_zones ?s2 = [rest_zone z]" using a(3) by (simp add: fresh_sample_def upd_mm_links_def)
  note oz = one_zone_alloc [OF this r]
  obtain pg where pg: "r = Some pg" using oz(2) n(2) by auto
  note b = do_buddy_alloc_objs [OF o2 r [unfolded pg]]
  have s3: "caches s3 = caches s1" "slab_links s3 = slab_links s1" by (subst b(7), simp add: upd_mm_links_def)+
  obtain s' where s': "mm_create s = Inr (p, s')" "buddy_zones s' = buddy_zones s3" "caches s' = caches s3" "slab_links s' = slab_links s3"
    using a(1,2) r pg b(8) by (simp add: mm_create_def Let_def)
  then show thesis using that [OF s'(1) a(2)] a(3) oz(1) s3 by (simp add: fresh_sample_def)
qed

lemma avail_order:
  fixes s :: "'a buddy_scheme"
  assumes ok: "buddy_ok s U" and low: "low_zones s" and z: "buddy_zones s = [z]" and n: "fst (do_buddy_alloc_zone z k) \<noteq> None"
  shows "2 ^ k \<le> avail s U"
proof -
  obtain r s' where r: "do_buddy_alloc k s = (r, s')" by fastforce
  obtain pg where pg: "r = Some pg" using one_zone_alloc(2) [OF z r] n by auto
  note b = do_buddy_alloc_ok [OF ok r [unfolded pg]]
  obtain i p where ip: "pg = (i, p)" by fastforce
  have "zbegin (buddy_zones s' ! i) = zbegin (buddy_zones s ! i)"
    using do_buddy_alloc_Some(3,8) [of s U k i p s'] ok r pg ip by (auto simp: buddy_ok_def nth_list_update split: if_splits)
  then have run: "buddy_alloc k s = (of_nat (page_frame s pg) * PAGE_SIZE, s')"
    using r pg ip do_buddy_alloc_Some(3) [of s U k i p s'] ok
    by (auto simp: buddy_alloc_def do_buddy_alloc_def page_frame_def layout_def buddy_ok_def)
  have "of_nat (page_frame s pg) * PAGE_SIZE \<noteq> (0 :: u64)" using frame_addr(2) [OF b(4)] b(3) by (metis mult_is_0 unat_0 zero_neq_numeral)
  from buddy_alloc_page(9) [OF ok low run this] show ?thesis .
qed

text \<open>Mapping one page into an empty address space, with five free pages left.\<close>

lemma map_sample:
  assumes w: "world s C V X g P" and p: "P mm = Some []" and f: "fresh_sample s z"
    and n: "fst (do_buddy_alloc_zone z 0) \<noteq> None" "fst (do_buddy_alloc_zone (rest_zone z) 2) \<noteq> None"
  obtains s' where "mmap mm 0x1000 0x2000 3 s = Some (Inr (True, s'))"
proof -
  note d = worldD [OF w] and sp = memberD(1) [OF worldD(5) [OF w p]]
  obtain v s1 where a: "slab_cache_alloc vma_slab s = Inr (v, s1)" "v \<noteq> 0" "fresh_sample s1 (rest_zone z)"
    by (rule fresh_object [OF d(1,3) f n(1)])
  have o1: "objs s1 C V (insert (vma_slab, v) X)" using slab_cache_alloc_cases [OF d(1,3)] a(1,2) by auto
  have u1: "paging.more s1 = paging.more s" by (rule paging_of_slabs [OF slab_cache_alloc_more [OF a(1)]])
  note sp1 = space_ok_kept [OF sp o1 subset_insertI slab_cache_alloc_kept [OF d(1,3) a(1)] u1]
  note d1 = space_okD [OF sp1]
  let ?f = "mm_frame s1 mm"
  have eq: "(0x1000 :: u64) = 0x1000 AND USER_MASK" "(0x2000 :: u64) = 0x2000 AND USER_MASK" "(0x2000 :: u64) \<le> HIGHER_BASE"
    by code_simp+
  have none: "space s1 [] x = None" for x by (simp add: space_def)
  have un: "unmapped (memory s1) 4 ?f (touched (unat (0x1000 :: u64)) (unat (0x1000 :: u64)))"
    unfolding unmapped_def
  proof
    fix x :: u64 assume "x \<in> touched (unat (0x1000 :: u64)) (unat (0x1000 :: u64))"
    then have "unat x div 4096 = 1" by (simp add: touched_def)
    then have "unat x < 2 ^ 47" by (simp add: div_nat_eqI)
    then show "resolve (memory s1) 4 ?f x = None" using shown_none [OF d1(10) _ none] by blast
  qed
  obtain B where B: "buddy_ok s1 (V \<union> B)" using d1(1) unfolding objs_store by blast
  have uok: "user_ok s1 (V \<union> B) ?f" by (rule user_in_ok [OF d1(9) B objs_low [OF d1(1)]])
  have "4 \<le> avail s1 (V \<union> B)"
    using avail_order [OF B objs_low [OF d1(1)] fresh_sampleD(1) [OF a(3)] n(2)] by simp
  then have av: "4 * n_pages (unat (0x1000 :: u64)) (unat (0x1000 :: u64)) \<le> avail s1 (V \<union> B)" by (simp add: n_pages_def)
  have ends: "0 < unat (0x1000 :: u64)" "unat (0x1000 :: u64) + unat (0x1000 :: u64) \<le> unat user_end" by (simp_all add: unat_user_end)
  obtain s2 where s2: "pt_map (table_addr ?f) 0x1000 0x1000 (user_flags 3) s1 = Inr (True, s2)"
    by (rule map_post_cases [OF pt_map_user_post [OF uok ends un leaf_user_flags [of 3]]]) (use av in auto)
  have lt: "(0x1000 :: u64) < 0x2000" by simp
  show thesis
    by (rule that) (use mmap_body [OF space_okD(2) [OF sp] eq(3) lt eq(1,2) _ a(1), of 3] a(2) s2 d1(6) in simp)
qed

subsection \<open>Runs of the machine\<close>

lemma zones_sample:
  "fst (do_buddy_alloc_zone zone_sample 0) \<noteq> None"
  "fst (do_buddy_alloc_zone (rest_zone zone_sample) 0) \<noteq> None"
  "fst (do_buddy_alloc_zone (rest_zone (rest_zone zone_sample)) 0) \<noteq> None"
  "fst (do_buddy_alloc_zone (rest_zone (rest_zone (rest_zone zone_sample))) 0) \<noteq> None"
  "fst (do_buddy_alloc_zone (rest_zone (rest_zone (rest_zone zone_sample))) 2) \<noteq> None"
  by code_simp+

lemma start_sample: "fresh_sample space_sample zone_sample"
  by (simp add: fresh_sample_def space_sample_def)

text \<open>One process with a page at \<open>0x1000\<close>.\<close>

lemma mapped_sample:
  obtains mm s1 s2 where "mm_create space_sample = Inr (mm, s1)" and "mm \<noteq> 0"
    and "mmap mm 0x1000 0x2000 3 s1 = Some (Inr (True, s2))"
    and "space_step mm (space_sample, {}) (s1, {mm})" and "space_step mm (s1, {mm}) (s2, {mm})"
    and "spaces_ok s2 {mm_slab, vma_slab} 8 {mm}"
    and "\<And>as x. regions s2 mm as \<Longrightarrow> space s2 as x = (if 0x1000 \<le> x \<and> x < 0x2000 then Some 3 else None)"
proof -
  let ?C = "{mm_slab, vma_slab}"
  obtain mm s1 where c: "mm_create space_sample = Inr (mm, s1)" "mm \<noteq> 0" "fresh_sample s1 (rest_zone (rest_zone zone_sample))"
    by (rule create_sample [OF space_sample_objs _ start_sample zones_sample(1,2)]) simp_all
  obtain V X where w: "world s1 ?C V X 8 [mm \<mapsto> []]" using world_create(2) [OF space_sample_world c(1,2)] by blast
  have p: "[mm \<mapsto> []] mm = Some ([] :: u64 list)" by simp
  obtain s2 where m: "mmap mm 0x1000 0x2000 3 s1 = Some (Inr (True, s2))"
    by (rule map_sample [OF w p c(3) zones_sample(3,5)])
  have eq: "(0x1000 :: u64) AND USER_MASK = 0x1000" "(0x2000 :: u64) AND USER_MASK = 0x2000" "(0x2000 :: u64) \<le> user_end" by code_simp+
  have al: "4096 dvd unat ((0x1000 :: u64) AND USER_MASK)" "4096 dvd unat ((0x2000 :: u64) AND USER_MASK)"
    "(0x2000 :: u64) AND USER_MASK \<le> user_end" unfolding eq(1,2) using eq(3) by simp_all
  have none: "space s1 [] x = None" for x by (simp add: space_def)
  obtain V' X' bs where v: "world s2 ?C V' X' 8 ([mm \<mapsto> []](mm \<mapsto> bs))"
    "space s2 bs = (\<lambda>x. if 0x1000 \<le> x \<and> x < 0x2000 then Some 3 else space s1 [] x)"
    using world_mmap(1) [OF w p al m] unfolding eq by blast
  have s1: "space_step mm (space_sample, {}) (s1, {mm})" using space_step.create [OF c(1), of "{}"] c(2) by simp
  have s2: "space_step mm (s1, {mm}) (s2, {mm})" by (rule space_step.map [OF _ al m]) simp
  have "spaces_ok s2 ?C 8 {mm}" unfolding spaces_ok_def using v(1)
    by (intro exI conjI) (assumption, auto simp: dom_def)
  moreover have "space s2 as x = (if 0x1000 \<le> x \<and> x < 0x2000 then Some 3 else None)" if "regions s2 mm as" for as x
  proof -
    have "regions s2 mm bs" by (rule space_okD(2) [OF memberD(1) [OF worldD(5) [OF v(1)]]]) simp
    then have b: "dlist (mm_links s2) (MmHead mm) (map Vma bs)" by (simp add: regions_def)
    have "dlist (mm_links s2) (MmHead mm) (map Vma as)" using that by (simp add: regions_def)
    then have "map Vma as = map Vma bs" by (rule dlist_unique [OF _ b])
    then have "as = bs" by (simp add: inj_map_eq_map inj_def)
    then show ?thesis using v(2) none by simp
  qed
  ultimately show thesis using that [OF c(1,2) m s1 s2] by blast
qed

text \<open>Two processes.\<close>

lemma two_sample:
  obtains a s1 b s2 where "mm_create space_sample = Inr (a, s1)" and "mm_create s1 = Inr (b, s2)" and "a \<noteq> b"
    and "spaces_ok s2 {mm_slab, vma_slab} 8 {a, b}" and "\<And>x. unat x < 2 ^ 47 \<Longrightarrow> user_byte s2 b x = None"
proof -
  let ?C = "{mm_slab, vma_slab}"
  obtain a s1 where c: "mm_create space_sample = Inr (a, s1)" "a \<noteq> 0" "fresh_sample s1 (rest_zone (rest_zone zone_sample))"
    by (rule create_sample [OF space_sample_objs _ start_sample zones_sample(1,2)]) simp_all
  obtain V X where w: "world s1 ?C V X 8 [a \<mapsto> []]" using world_create(2) [OF space_sample_world c(1,2)] by blast
  obtain b s2 where d: "mm_create s1 = Inr (b, s2)" "b \<noteq> 0"
    by (rule create_sample [OF worldD(1,2) [OF w] c(3) zones_sample(3,4)])
  have "[a \<mapsto> []] b = (None :: u64 list option)" by (rule world_create(1) [OF w d])
  then have ne: "a \<noteq> b" by auto
  obtain V' X' where v: "world s2 ?C V' X' 8 ([a \<mapsto> []](b \<mapsto> []))" using world_create(2) [OF w d] by blast
  have "dom ([a \<mapsto> []](b \<mapsto> [] :: u64 list)) = {a, b}" by (auto simp: dom_def)
  then have "spaces_ok s2 ?C 8 {a, b}" unfolding spaces_ok_def using v by blast
  moreover have "user_byte s2 b x = None" if x: "unat x < 2 ^ 47" for x
  proof -
    have sp: "space_ok s2 ?C V' X' b []" by (rule memberD(1) [OF worldD(5) [OF v]]) simp
    show ?thesis using space_mapped [OF sp x] by (simp add: user_byte_at space_def)
  qed
  ultimately show thesis using that [OF c(1) d(1) ne] by blast
qed

end
