(* ===== verification/Space_Properties.thy ===== *)
theory Space_Properties
  imports Space_Sample
begin

text \<open>
  What holds in every state that the address spaces can get into: the table of a process shows exactly its
  regions, processes share no memory, and none can reach a page table. Each statement is applied to the machine of
  \<open>Space_Sample\<close>.
\<close>

subsection \<open>Isolation\<close>

text \<open>
  Each user address is translated iff it is in a region, with the page flags of the region; addresses of the
  upper half are translated as in the kernel's table \<open>g\<close>. The memory behind a user address is in no page table; two addresses of a
  process never mean the same byte, two processes never the same page.
\<close>

definition isolated :: "'a mms_scheme \<Rightarrow> nat \<Rightarrow> u64 set \<Rightarrow> bool" where
  "isolated s g L \<longleftrightarrow>
     (\<forall>mm\<in>L. \<exists>as. regions s mm as \<and>
        (\<forall>x. unat x < 2 ^ 47 \<longrightarrow> map_option snd (resolve (memory s) 4 (mm_frame s mm) x) =
           map_option (\<lambda>q. perms (user_flags q)) (space s as x)) \<and>
        (\<forall>x. 2 ^ 47 \<le> unat x \<longrightarrow> unat x < 2 ^ 48 \<longrightarrow>
           resolve (memory s) 4 (mm_frame s mm) x = resolve (memory s) 4 g x)) \<and>
     (\<forall>mm\<in>L. \<forall>mm'\<in>L. \<forall>x p fl. unat x < 2 ^ 47 \<longrightarrow> resolve (memory s) 4 (mm_frame s mm) x = Some (p, fl) \<longrightarrow>
        frame p \<notin> tables (memory s) 4 (mm_frame s mm') \<and> frame p \<notin> tables (memory s) 4 g \<and>
        (\<forall>y q fl'. unat y < 2 ^ 47 \<longrightarrow> resolve (memory s) 4 (mm_frame s mm') y = Some (q, fl') \<longrightarrow>
           (if mm = mm' then p = q \<longrightarrow> x = y else frame p \<noteq> frame q)))"

lemma member_shows:
  assumes m: "member s C V X g mm as" and x: "unat x < 2 ^ 47"
  shows "map_option snd (resolve (memory s) 4 (mm_frame s mm) x) = map_option (\<lambda>q. perms (user_flags q)) (space s as x)"
  using shown_none [OF space_okD(10) [OF memberD(1) [OF m]] x] shown_some(1) [OF space_okD(10) [OF memberD(1) [OF m]] x]
  by (cases "space s as x") auto

lemma used_pages:
  assumes "objs s C V X" and "b \<in> V" and "b' \<in> V" and "b \<noteq> b'" and "f \<in> pages_of b"
  shows "f \<notin> pages_of b'"
proof -
  obtain B where "buddy_ok s (V \<union> B)" using assms(1) unfolding objs_store by blast
  then show ?thesis using pages.owned_disjoint [of s "V \<union> B" b b'] assms(2-5) by blast
qed

lemma world_isolated:
  fixes s :: "'a mms_scheme"
  assumes w: "world s C V X g P"
  shows "isolated s g (dom P)"
proof -
  note d = worldD [OF w]
  let ?m = "memory s" and ?f = "mm_frame s"
  have one: "\<exists>as. regions s mm as \<and>
        (\<forall>x. unat x < 2 ^ 47 \<longrightarrow> map_option snd (resolve ?m 4 (?f mm) x) = map_option (\<lambda>q. perms (user_flags q)) (space s as x)) \<and>
        (\<forall>x. 2 ^ 47 \<le> unat x \<longrightarrow> unat x < 2 ^ 48 \<longrightarrow> resolve ?m 4 (?f mm) x = resolve ?m 4 g x)" if dm: "mm \<in> dom P" for mm
  proof -
    obtain as where p: "P mm = Some as" using dm by blast
    note m = d(5) [OF p]
    show ?thesis using space_okD(2) [OF memberD(1) [OF m]] member_shows [OF m] memberD(2) [OF m] unfolding linked_def by blast
  qed
  have two: "frame p \<notin> tables ?m 4 (?f mm') \<and> frame p \<notin> tables ?m 4 g \<and>
      (\<forall>y q fl'. unat y < 2 ^ 47 \<longrightarrow> resolve ?m 4 (?f mm') y = Some (q, fl') \<longrightarrow>
         (if mm = mm' then p = q \<longrightarrow> x = y else frame p \<noteq> frame q))"
    if mm: "mm \<in> dom P" "mm' \<in> dom P" and x: "unat x < 2 ^ 47" "resolve ?m 4 (?f mm) x = Some (p, fl)" for mm mm' x p fl
  proof -
    obtain as bs where p: "P mm = Some as" and p': "P mm' = Some bs" using mm by blast
    note sp = memberD(1) [OF d(5) [OF p]] and sp' = memberD(1) [OF d(5) [OF p']]
    obtain b where b: "b \<in># user_held ?m (?f mm)" "frame p \<in> pages_of b" "frame p \<notin> tables ?m 4 (?f mm)"
      using user_byte_block [OF sp x] by blast
    have bm: "b \<in> mine ?m (?f mm)" using b(1) by (simp add: mine_def)
    note o = world_others [OF w p]
    have bV: "b \<in> V" using o(1) bm by blast
    have far: "frame p \<noteq> t" if "(t, 0) \<in> V - mine ?m (?f mm)" for t
      using used_pages [OF d(1) bV _ _ b(2), of "(t, 0)"] that bm by (auto simp: pages_of_def)
    have "frame p \<notin> tables ?m 4 (?f mm')" using world_tables [OF w p p'] far b(3) by blast
    moreover have "frame p \<notin> tables ?m 4 g"
    proof
      assume "frame p \<in> tables ?m 4 g"
      then have "(frame p, 0) \<in> V - mine ?m (?f mm)" using o(2) d(4) unfolding kernel_root_def by blast
      then show False using far by blast
    qed
    moreover have "if mm = mm' then p = q \<longrightarrow> x = y else frame p \<noteq> frame q"
      if y: "unat y < 2 ^ 47" "resolve ?m 4 (?f mm') y = Some (q, fl')" for y q fl'
    proof (cases "mm = mm'")
      case True
      have "x = y" if "p = q"
        by (rule space_bytes_inj [OF sp x(1) _ y(1)]) (use x y that True in \<open>simp_all add: pt_addr_resolve\<close>)
      then show ?thesis using True by simp
    next
      case False
      obtain b' where b': "b' \<in># user_held ?m (?f mm')" "frame q \<in> pages_of b'" using user_byte_block [OF sp' y] by blast
      have "b' \<in> mine ?m (?f mm')" using b'(1) by (simp add: mine_def)
      moreover from this have "b' \<in> V" using o(5) [OF p'] by blast
      moreover have "mine ?m (?f mm) \<inter> mine ?m (?f mm') = {}" using d(6) [OF p p' False] by (simp add: apart_def)
      ultimately have "frame p \<notin> pages_of b'" using used_pages [OF d(1) bV _ _ b(2), of b'] bm by blast
      then show ?thesis using False b'(2) by auto
    qed
    ultimately show ?thesis by blast
  qed
  show ?thesis unfolding isolated_def using one two by blast
qed

text \<open>Runs of steps.\<close>

lemma steps_world:
  assumes "(\<lambda>c c'. \<exists>mm. space_step mm c c')\<^sup>*\<^sup>* c c'" and "world (fst c) C V X g P" and "dom P = snd c"
  shows "\<exists>V' X' P'. world (fst c') C V' X' g P' \<and> dom P' = snd c' \<and>
    spare_blocks (fst c') V' P' = spare_blocks (fst c) V P \<and> spare_objs X' P' = spare_objs X P"
  using assms
proof (induction rule: rtranclp_induct)
  case (step c1 c2)
  then obtain V1 X1 P1 where i: "world (fst c1) C V1 X1 g P1" "dom P1 = snd c1"
    "spare_blocks (fst c1) V1 P1 = spare_blocks (fst c) V P" "spare_objs X1 P1 = spare_objs X P" by blast
  obtain mm where "space_step mm c1 c2" using step.hyps(2) by blast
  from space_step_ok [OF this i(1,2)] show ?case unfolding step_post_def i(3,4) by blast
qed blast

lemmas steps_world_pair = steps_world [of "(s, L)" "(s', L')" for s L s' L', unfolded fst_conv snd_conv]

lemma others_world:
  assumes "(\<lambda>c c'. \<exists>m'. m' \<noteq> mm \<and> space_step m' c c')\<^sup>*\<^sup>* c c'" and "world (fst c) C V X g P" and "dom P = snd c" and "mm \<in> snd c"
  shows "\<exists>V' X' P'. world (fst c') C V' X' g P' \<and> dom P' = snd c' \<and> mm \<in> snd c' \<and>
    (\<forall>x. unat x < 2 ^ 47 \<longrightarrow> user_byte (fst c') mm x = user_byte (fst c) mm x)"
  using assms
proof (induction rule: rtranclp_induct)
  case (step c1 c2)
  then obtain V1 X1 P1 where i: "world (fst c1) C V1 X1 g P1" "dom P1 = snd c1" "mm \<in> snd c1"
    "\<forall>x. unat x < 2 ^ 47 \<longrightarrow> user_byte (fst c1) mm x = user_byte (fst c) mm x" by blast
  obtain m' where m': "m' \<noteq> mm" "space_step m' c1 c2" using step.hyps(2) by blast
  have "mm \<in> snd c2 \<and> (\<forall>x. unat x < 2 ^ 47 \<longrightarrow> user_byte (fst c2) mm x = user_byte (fst c1) mm x)"
    using space_step_ok [OF m'(2) i(1,2)] i(2,3) not_sym [OF m'(1)] unfolding step_post_def by blast
  then show ?case using space_step_ok [OF m'(2) i(1,2)] i(4) unfolding step_post_def by auto
qed blast

lemmas others_world_pair = others_world [of _ "(s, L)" "(s', L')" for s L s' L', unfolded fst_conv snd_conv]

lemma mapped_byte:
  assumes "space_ok s C V X mm as" and "unat x < 2 ^ 47"
  shows "user_byte s mm x = None \<longleftrightarrow> space s as x = None"
  using space_mapped [OF assms] by (simp add: user_byte_at)

lemma no_byte:
  assumes sp: "space_ok s C V X mm as" and x: "unat x < 2 ^ 47" and z: "pt_addr (memory s) (table_addr (mm_frame s mm)) x = 0"
  shows "user_byte s mm x = None"
proof -
  have "image_ok (memory s) (mm_frame s mm) {}" by (rule space_image [OF sp]) simp
  then show ?thesis using x z unfolding image_ok_def user_byte_def by (auto simp: pt_addr_resolve split: option.splits)
qed

lemma range_low: "unat a + unat sz \<le> 2 ^ 47 \<Longrightarrow> k < unat sz \<Longrightarrow> unat (a + of_nat k) < 2 ^ 47"
  for a sz :: u64
  using span_of_iff(2) [of a "unat sz" k] by linarith

text \<open>The bytes of one process are in no block of another.\<close>

lemma world_far:
  assumes w: "world s C V X g P" and p: "P dst = Some as" and q: "P src = Some bs" and ne: "dst \<noteq> src"
    and v: "v \<in># user_held (memory s) (mm_frame s dst)"
    and x: "unat x < 2 ^ 47"
  shows "\<not> in_block v (byte_at (memory s) (mm_frame s src) x)"
proof (cases "resolve (memory s) 4 (mm_frame s src) x")
  case None
  have "fst v \<noteq> 0"
    using owns_nonzero [OF user_inD(5) [OF space_okD(9) [OF memberD(1) [OF worldD(5) [OF w p]]]], of "snd v"] v by (metis prod.collapse)
  then show ?thesis using None by (simp add: pt_addr_resolve in_block_def va_def HIGHER_BASE_def)
next
  case (Some r')
  note o = world_others [OF w p]
  obtain a fl where r: "resolve (memory s) 4 (mm_frame s src) x = Some (a, fl)" using Some by (cases r') auto
  obtain b where b: "b \<in># user_held (memory s) (mm_frame s src)" "in_block b (va a)"
    using user_byte_block [OF memberD(1) [OF worldD(5) [OF w q]] x r] by blast
  have mine: "v \<in> mine (memory s) (mm_frame s dst)" "b \<in> mine (memory s) (mm_frame s src)" using v b(1) by (simp_all add: mine_def)
  then have V: "v \<in> V" "b \<in> V" using o(1) o(5) [OF q] by blast+
  have "b \<noteq> v" using worldD(6) [OF w p q ne] mine unfolding apart_def by blast
  then have "pages_of b \<inter> pages_of v = {}" using used_pages [OF worldD(1) [OF w] V(2,1)] by blast
  from in_block_apart [OF this b(2)] show ?thesis using r by (simp add: pt_addr_resolve)
qed

subsection \<open>Properties\<close>

text \<open>
  C1. Isolation. Whatever address spaces are created, mapped, filled, copied, written and released, in any order:
  the table of each translates exactly the addresses of its regions, no user address of any process reaches a page table or the memory of
  another process, and all share the kernel's half of the address space.
\<close>

theorem spaces_isolated:
  assumes "spaces_ok s C g L" and "(\<lambda>c c'. \<exists>mm. space_step mm c c')\<^sup>*\<^sup>* (s, L) (s', L')"
  shows "isolated s' g L'"
proof -
  obtain V X P where w: "world s C V X g P" "dom P = L" using assms(1) unfolding spaces_ok_def by blast
  obtain V' X' P' where "world s' C V' X' g P'" "dom P' = L'" using steps_world_pair [OF assms(2) w] by blast
  then show ?thesis using world_isolated by blast
qed

theorem spaces_isolated_witness:
  "\<exists>mm (s' :: mms). isolated s' 8 {mm} \<and> (\<exists>as. regions s' mm as \<and> space s' as 0x1234 = Some 3 \<and> space s' as 0x2000 = None)"
proof (rule mapped_sample)
  fix mm and s1 s2 :: mms
  assume run: "space_step mm (space_sample, {}) (s1, {mm})" "space_step mm (s1, {mm}) (s2, {mm})"
    and sp: "\<And>as x. regions s2 mm as \<Longrightarrow> space s2 as x = (if 0x1000 \<le> x \<and> x < 0x2000 then Some 3 else None)"
  have "(\<lambda>c c'. \<exists>mm. space_step mm c c')\<^sup>*\<^sup>* (space_sample, {}) (s2, {mm})"
    using run by (intro converse_rtranclp_into_rtranclp [OF _ r_into_rtranclp]) blast+
  from spaces_isolated [OF space_sample_ok this] have i: "isolated s2 8 {mm}" .
  then obtain as where as: "regions s2 mm as" unfolding isolated_def by blast
  have "space s2 as 0x1234 = Some 3" "space s2 as 0x2000 = None" using sp [OF as] by simp_all
  then show ?thesis using i as by blast
qed

text \<open>
  C2. Non-interference. While other processes are created, work and end, what a process reads in its user space does not change.
\<close>

theorem others_undisturbed:
  assumes "spaces_ok s C g L" and "mm \<in> L" and "(\<lambda>c c'. \<exists>m'. m' \<noteq> mm \<and> space_step m' c c')\<^sup>*\<^sup>* (s, L) (s', L')"
    and "unat x < 2 ^ 47"
  shows "mm \<in> L' \<and> user_byte s' mm x = user_byte s mm x"
proof -
  obtain V X P where w: "world s C V X g P" "dom P = L" using assms(1) unfolding spaces_ok_def by blast
  show ?thesis using others_world_pair [OF assms(3) w assms(2)] assms(4) by blast
qed

theorem others_undisturbed_witness:
  "\<exists>mm (s2 :: mms) m' s3. mm_create s2 = Inr (m', s3) \<and> user_byte s2 mm 0x1234 \<noteq> None \<and> user_byte s3 mm 0x1234 = user_byte s2 mm 0x1234"
proof (rule mapped_sample)
  fix mm and s1 s2 :: mms
  assume ne: "mm \<noteq> 0" and ok: "spaces_ok s2 {mm_slab, vma_slab} 8 {mm}"
    and sp: "\<And>as x. regions s2 mm as \<Longrightarrow> space s2 as x = (if 0x1000 \<le> x \<and> x < 0x2000 then Some 3 else None)"
  obtain V X P where w: "world s2 {mm_slab, vma_slab} V X 8 P" "dom P = {mm}" using ok unfolding spaces_ok_def by blast
  then obtain as where p: "P mm = Some as" by blast
  note m = memberD(1) [OF worldD(5) [OF w(1) p]]
  have "user_byte s2 mm 0x1234 \<noteq> None"
    using space_mapped [OF m, of "0x1234"] sp [OF space_okD(2) [OF m]] by (simp add: user_byte_at)
  moreover obtain m' s3 where c: "mm_create s2 = Inr (m', s3)" using mm_create_returns [OF worldD(1,2) [OF w(1)]] by blast
  moreover have "user_byte s3 mm 0x1234 = user_byte s2 mm 0x1234"
  proof -
    have "m' \<noteq> mm" using world_create(1) [OF w(1) c] p ne by (cases "m' = 0") auto
    then have run: "(\<lambda>c c'. \<exists>m'. m' \<noteq> mm \<and> space_step m' c c')\<^sup>*\<^sup>* (s2, {mm}) (s3, if m' = 0 then {mm} else insert m' {mm})"
      using space_step.create [OF c, of "{mm}"] by (intro r_into_rtranclp exI conjI)
    show ?thesis using others_undisturbed [OF ok _ run, of "0x1234"] by simp
  qed
  ultimately show ?thesis by blast
qed



text \<open>
  C23. \<open>mset\<close> fills mapped memory with the byte up to the first address that is not mapped, tells
  whether it filled all of the range, and leaves every other byte of the process as it was.
\<close>

theorem mset_fills:
  assumes "spaces_ok s C g L" and "mm \<in> L" and "unat to + unat sz \<le> 2 ^ 47"
  shows "\<exists>n\<le>unat sz. fst (mset mm to c sz s) = (n = unat sz) \<and>
    (\<forall>k<n. user_byte s mm (to + of_nat k) \<noteq> None) \<and> (n < unat sz \<longrightarrow> user_byte s mm (to + of_nat n) = None) \<and>
    (\<forall>x. unat x < 2 ^ 47 \<longrightarrow> user_byte (snd (mset mm to c sz s)) mm x =
       (if unat to \<le> unat x \<and> unat x < unat to + n then Some (ucast c) else user_byte s mm x))"
proof -
  obtain V X P where w: "world s C V X g P" "dom P = L" using assms(1) unfolding spaces_ok_def by blast
  then obtain as where p: "P mm = Some as" using assms(2) by blast
  note sp = memberD(1) [OF worldD(5) [OF w(1) p]]
  obtain n m where n: "n \<le> unat sz" "mset mm to c sz s = (n = unat sz, s\<lparr>memory := m\<rparr>)"
    and rest: "\<And>x. unat x < 2 ^ 47 \<Longrightarrow> user_byte (s\<lparr>memory := m\<rparr>) mm x = (if span_of to n x then Some (ucast c) else user_byte s mm x)"
    and mapped: "\<And>k. k < n \<Longrightarrow> space s as (to + of_nat k) \<noteq> None" "n < unat sz \<Longrightarrow> space s as (to + of_nat n) = None"
    by (rule mset_fills_spec [OF sp assms(3), where c = c]) (rule that; blast)
  note low = range_low [OF assms(3)]
  have "user_byte s mm (to + of_nat k) \<noteq> None" if "k < n" for k
    using mapped(1) [OF that] mapped_byte [OF sp low] that n(1) by simp
  moreover have "user_byte s mm (to + of_nat n) = None" if "n < unat sz"
    using mapped(2) [OF that] mapped_byte [OF sp low [OF that]] by simp
  moreover have "fst (mset mm to c sz s) = (n = unat sz)" and s': "snd (mset mm to c sz s) = s\<lparr>memory := m\<rparr>"
    using n(2) by simp_all
  ultimately show ?thesis unfolding s' using n(1) rest by blast
qed

theorem mset_fills_witness:
  "\<exists>mm (s :: mms). fst (mset mm 0x1ff0 0xab 0x20 s) = False \<and>
     user_byte (snd (mset mm 0x1ff0 0xab 0x20 s)) mm 0x1fff = Some 0xab"
proof (rule mapped_sample)
  fix mm and s1 s2 :: mms
  assume ok: "spaces_ok s2 {mm_slab, vma_slab} 8 {mm}"
    and sp: "\<And>as x. regions s2 mm as \<Longrightarrow> space s2 as x = (if 0x1000 \<le> x \<and> x < 0x2000 then Some 3 else None)"
  obtain V X P where w: "world s2 {mm_slab, vma_slab} V X 8 P" "dom P = {mm}" using ok unfolding spaces_ok_def by blast
  then obtain as where p: "P mm = Some as" by blast
  note m = memberD(1) [OF worldD(5) [OF w(1) p]]
  have b: "user_byte s2 mm x = None \<longleftrightarrow> \<not> (0x1000 \<le> x \<and> x < 0x2000)" if "unat x < 2 ^ 47" for x
    using mapped_byte [OF m that] sp [OF space_okD(2) [OF m]] by simp
  obtain n where n: "n \<le> 0x20" "fst (mset mm 0x1ff0 0xab 0x20 s2) = (n = 0x20)" "\<forall>k<n. user_byte s2 mm (0x1ff0 + of_nat k) \<noteq> None"
    "n < 0x20 \<longrightarrow> user_byte s2 mm (0x1ff0 + of_nat n) = None"
    "user_byte (snd (mset mm 0x1ff0 0xab 0x20 s2)) mm 0x1fff = (if 0x1fff < 0x1ff0 + n then Some 0xab else user_byte s2 mm 0x1fff)"
    using mset_fills [OF ok, of mm "0x1ff0" "0x20" "0xab"] by auto
  have "\<not> 0x10 < n"
  proof
    assume "0x10 < n"
    then have "user_byte s2 mm (0x1ff0 + of_nat 0x10) \<noteq> None" using n(3) by blast
    then show False using b [of "0x2000"] by simp
  qed
  moreover have "\<not> n < 0x10"
  proof
    assume l: "n < 0x10"
    then have at: "unat (0x1ff0 + of_nat n :: u64) = 0x1ff0 + n" by (simp add: unat_word_ariths unat_of_nat)
    have "user_byte s2 mm (0x1ff0 + of_nat n) = None" using n(4) l by simp
    then show False using b [of "0x1ff0 + of_nat n"] at l by (simp add: word_le_nat_alt word_less_nat_alt)
  qed
  ultimately have "n = 0x10" by simp
  then show ?thesis using n(2,5) by auto
qed

text \<open>
  C24. \<open>mcopy\<close> copies from one process to another byte by byte up to the first address that is not mapped in either,
  tells whether it copied all of the range, and leaves every other byte of the target as it was.
\<close>

theorem mcopy_copies:
  assumes "spaces_ok s C g L" and "dst \<in> L" and "src \<in> L" and "dst \<noteq> src"
    and "unat to + unat sz \<le> 2 ^ 47" and "unat from + unat sz \<le> 2 ^ 47"
  shows "\<exists>n\<le>unat sz. fst (mcopy dst to src from sz s) = (n = unat sz) \<and>
    (n < unat sz \<longrightarrow> user_byte s dst (to + of_nat n) = None \<or> user_byte s src (from + of_nat n) = None) \<and>
    (\<forall>k<n. user_byte s dst (to + of_nat k) \<noteq> None \<and> user_byte s src (from + of_nat k) \<noteq> None \<and>
       user_byte (snd (mcopy dst to src from sz s)) dst (to + of_nat k) = user_byte s src (from + of_nat k)) \<and>
    (\<forall>x. unat x < 2 ^ 47 \<longrightarrow> \<not> (unat to \<le> unat x \<and> unat x < unat to + n) \<longrightarrow>
       user_byte (snd (mcopy dst to src from sz s)) dst x = user_byte s dst x)"
proof -
  obtain V X P where w: "world s C V X g P" "dom P = L" using assms(1) unfolding spaces_ok_def by blast
  then obtain as bs where p: "P dst = Some as" and q: "P src = Some bs" using assms(2,3) by blast
  note d = memberD(1) [OF worldD(5) [OF w(1) p]] and e = memberD(1) [OF worldD(5) [OF w(1) q]]
  let ?m = "memory s" and ?f = "mm_frame s src"
  note lowt = range_low [OF assms(5)] and lowf = range_low [OF assms(6)]
  have far: "\<And>j v. j < unat sz \<Longrightarrow> v \<in># user_held ?m (mm_frame s dst) \<Longrightarrow> \<not> in_block v (byte_at ?m ?f (from + of_nat j))"
    by (rule world_far [OF w(1) p q assms(4) _ lowf])
  show ?thesis
  proof (rule mcopy_copies_spec [OF d space_okD(6) [OF e] _ assms(5), of "from"])
    show "t \<in> tables ?m 4 (mm_frame s dst) \<or> (t, 0) \<in> V - mine ?m (mm_frame s dst)" if "t \<in> tables ?m 4 ?f" for t
      by (rule world_tables [OF w(1) p q that])
    fix n m
    assume n: "n \<le> unat sz" "mcopy dst to src from sz s = (n = unat sz, s\<lparr>memory := m\<rparr>)"
      and stop: "n < unat sz \<Longrightarrow> space s as (to + of_nat n) = None \<or> pt_addr ?m (table_addr ?f) (from + of_nat n) = 0"
      and mapped: "\<And>k. k < n \<Longrightarrow> space s as (to + of_nat k) \<noteq> None \<and> resolve ?m 4 ?f (from + of_nat k) \<noteq> None"
      and rest: "\<And>x. unat x < 2 ^ 47 \<Longrightarrow> \<not> span_of to n x \<Longrightarrow> user_byte (s\<lparr>memory := m\<rparr>) dst x = user_byte s dst x"
      and copied: "\<And>k. (\<And>j v. j < unat sz \<Longrightarrow> v \<in># user_held ?m (mm_frame s dst) \<Longrightarrow>
           \<not> in_block v (byte_at ?m ?f (from + of_nat j))) \<Longrightarrow> k < n \<Longrightarrow>
         user_byte (s\<lparr>memory := m\<rparr>) dst (to + of_nat k) = Some (?m (byte_at ?m ?f (from + of_nat k)))"
    have src: "user_byte s src (from + of_nat k) = Some (?m (byte_at ?m ?f (from + of_nat k)))" if "k < n" for k
      using mapped [OF that] by (simp add: user_byte_at)
    have "user_byte s dst (to + of_nat k) \<noteq> None \<and> user_byte s src (from + of_nat k) \<noteq> None \<and>
        user_byte (s\<lparr>memory := m\<rparr>) dst (to + of_nat k) = user_byte s src (from + of_nat k)" if k: "k < n" for k
    proof -
      have "k < unat sz" using k n(1) by simp
      then have "user_byte s dst (to + of_nat k) \<noteq> None" using mapped [OF k] mapped_byte [OF d lowt] by simp
      moreover have "user_byte (s\<lparr>memory := m\<rparr>) dst (to + of_nat k) = user_byte s src (from + of_nat k)"
        unfolding src [OF k] by (rule copied [OF far k])
      ultimately show ?thesis using src [OF k] by simp
    qed
    moreover have "user_byte s dst (to + of_nat n) = None \<or> user_byte s src (from + of_nat n) = None" if l: "n < unat sz"
      using stop [OF l] mapped_byte [OF d lowt [OF l]] no_byte [OF e lowf [OF l]] by (elim disjE) simp_all
    moreover have "fst (mcopy dst to src from sz s) = (n = unat sz)" and s': "snd (mcopy dst to src from sz s) = s\<lparr>memory := m\<rparr>"
      using n(2) by simp_all
    ultimately show ?thesis unfolding s' using n(1) rest by blast
  qed
qed

theorem mcopy_copies_witness:
  "\<exists>a b (s :: mms). a \<noteq> b \<and> fst (mcopy a 0x1000 b 0x3000 0x10 s) = False \<and>
     user_byte (snd (mcopy a 0x1000 b 0x3000 0x10 s)) a 0x1000 = user_byte s a 0x1000"
proof (rule two_sample)
  fix a b and s1 s2 :: mms
  assume ne: "a \<noteq> b" and ok: "spaces_ok s2 {mm_slab, vma_slab} 8 {a, b}"
    and none: "\<And>x. unat x < 2 ^ 47 \<Longrightarrow> user_byte s2 b x = None"
  let ?c = "mcopy a 0x1000 b 0x3000 0x10 s2"
  obtain n where n: "n \<le> 0x10" "fst ?c = (n = 0x10)" "\<forall>k<n. user_byte s2 b (0x3000 + of_nat k) \<noteq> None"
    "\<forall>x. unat x < 2 ^ 47 \<longrightarrow> \<not> (0x1000 \<le> unat x \<and> unat x < 0x1000 + n) \<longrightarrow> user_byte (snd ?c) a x = user_byte s2 a x"
    using mcopy_copies [OF ok _ _ ne, of "0x1000" "0x10" "0x3000"] by auto
  have "n = 0"
  proof (rule ccontr)
    assume "n \<noteq> 0"
    then have "user_byte s2 b (0x3000 + of_nat 0) \<noteq> None" using n(3) by blast
    then show False using none [of "0x3000"] by simp
  qed
  then have "fst ?c = False" "user_byte (snd ?c) a 0x1000 = user_byte s2 a 0x1000" using n(2,4) by simp_all
  then show ?thesis using ne by blast
qed

end
