(* ===== verification/File_Read.thy ===== *)
theory File_Read
  imports Ramfs
begin

text \<open>
  Looking up a file by its name and reading from it, against the obvious specification: a file is a
  finite map from offsets to bytes, given by its pages; a read puts the bytes that exist in their place and
  leaves the rest of the buffer alone.
\<close>

subsection \<open>Signed arithmetic of small numbers\<close>

lemma sint_small:
  fixes a :: u64
  assumes "unat a < 2 ^ 63"
  shows "sint a = int (unat a)"
proof -
  have "sint (of_nat (unat a) :: u64) = int (unat a)"
  proof -
    have "signed_take_bit 63 (int n) = int n" if "n < 2 ^ 63" for n
      using that by (simp add: signed_take_bit_int_eq_self)
    from this [OF assms] show ?thesis by (simp only: signed_of_nat) simp
  qed
  then show ?thesis by simp
qed

lemma sint_diff_small:
  fixes a b :: u64
  assumes "unat a < 2 ^ 62" and "unat b < 2 ^ 62"
  shows "sint (a - b) = int (unat a) - int (unat b)"
proof -
  have "a - b = word_of_int (int (unat a) - int (unat b))" by simp
  moreover have "sint (word_of_int (int (unat a) - int (unat b)) :: u64) = int (unat a) - int (unat b)"
  proof -
    have "signed_take_bit 63 (int m - int n) = int m - int n" if "m < 2 ^ 62" "n < 2 ^ 62" for m n
      using that by (simp add: signed_take_bit_int_eq_self)
    from this [OF assms] show ?thesis by (simp only: sint_sbintrunc') simp
  qed
  ultimately show ?thesis by simp
qed

lemma unat_monus:
  fixes a b :: u64
  assumes "unat a < 2 ^ 62" and "unat b < 2 ^ 62"
  shows "smax (a - b) 0 = of_nat (unat a - unat b)"
proof (cases "unat a \<le> unat b")
  case True
  then have "\<not> sint (a - b) > 0" unfolding sint_diff_small [OF assms] by linarith
  moreover have "a - b = 0" if "\<not> sint (a - b) < 0"
  proof -
    have "unat a = unat b" using that True unfolding sint_diff_small [OF assms] by linarith
    then have "a = b" by (simp only: word_unat_eq_iff)
    then show ?thesis by simp
  qed
  ultimately show ?thesis using True by (auto simp: smax_def)
next
  case False
  then have "\<not> sint (a - b) < 0" unfolding sint_diff_small [OF assms] by linarith
  moreover have "a - b = of_nat (unat a - unat b)" using False by (simp add: of_nat_diff)
  ultimately show ?thesis by (simp add: smax_def)
qed

lemma unat_of_nat_small: "n < 2 ^ 62 \<Longrightarrow> unat (of_nat n :: u64) = n"
  by (intro unat_of_nat_u64) simp

text \<open>The window of a page at \<open>rp\<close> in a transfer of the bytes \<open>from\<close> to \<open>to - 1\<close>, in natural numbers.\<close>

lemma page_window_eq:
  fixes rp x y :: u64
  defines "R \<equiv> unat rp" and "F \<equiv> unat x" and "T \<equiv> unat y"
  assumes b: "R < 2 ^ 61" "T < 2 ^ 61" and meet: "F < R + 4096" "R < T" "F \<le> T"
  shows "page_window rp x x y = (of_nat (R - F), of_nat (F - R), of_nat (min (R + 4096) T - max F R))"
proof -
  have F: "F < 2 ^ 61" using b meet by simp
  have d: "smax (rp - x) 0 = of_nat (R - F)" "smax (x - rp) 0 = of_nat (F - R)"
    unfolding R_def F_def by (rule unat_monus; use b F in \<open>simp add: R_def F_def\<close>)+
  have p: "PAGE_SIZE - of_nat (F - R) = (of_nat (4096 - (F - R)) :: u64)"
    using meet by (simp add: PAGE_SIZE_def of_nat_diff)
  have "x + of_nat (R - F) = of_nat (max F R)"
  proof -
    have "x = of_nat F" by (simp add: F_def)
    then show ?thesis by (simp add: max_def flip: of_nat_add)
  qed
  moreover have "y = of_nat T" by (simp add: T_def)
  ultimately have t: "y - (x + of_nat (R - F)) = of_nat (T - max F R)"
    using meet by (simp add: of_nat_diff)
  have s: "sint (of_nat (4096 - (F - R)) :: u64) = int (4096 - (F - R))" "sint (of_nat (T - max F R) :: u64) = int (T - max F R)"
    using b F by (subst sint_small; simp add: unat_of_nat_small)+
  have "smin (of_nat (4096 - (F - R))) (of_nat (T - max F R)) = (of_nat (min (R + 4096) T - max F R) :: u64)"
  proof (cases "4096 - (F - R) < T - max F R")
    case True
    then have "min (R + 4096) T - max F R = 4096 - (F - R)" using meet by (auto simp: min_def max_def)
    then show ?thesis using True by (simp add: smin_def s)
  next
    case False
    then have "min (R + 4096) T - max F R = T - max F R" using meet by (auto simp: min_def max_def split: if_splits)
    then show ?thesis using False by (simp add: smin_def s)
  qed
  then show ?thesis by (simp add: page_window_def d p t Let_def)
qed


lemma span_shift:
  assumes "i < 2 ^ 62" and "k + n < 2 ^ 62"
  shows "data + of_nat i \<in> span (data + of_nat k) n \<longleftrightarrow> k \<le> i \<and> i < k + n"
proof
  assume "data + of_nat i \<in> span (data + of_nat k) n"
  then obtain j where j: "j < n" "(of_nat i :: u64) = of_nat (k + j)" by (auto simp: span_iff add.assoc)
  then have "unat (of_nat i :: u64) = unat (of_nat (k + j) :: u64)" by (simp only:)
  then have "i = k + j" using assms j(1) by (simp only: unat_of_nat_small)
  then show "k \<le> i \<and> i < k + n" using j(1) by simp
next
  assume "k \<le> i \<and> i < k + n"
  then have "data + of_nat i = data + of_nat k + of_nat (i - k)" "i - k < n" by (simp add: of_nat_diff, linarith)
  then show "data + of_nat i \<in> span (data + of_nat k) n" unfolding span_iff by blast
qed

lemma span_part: "k + n \<le> l \<Longrightarrow> span (data + of_nat k) n \<subseteq> span data l"
proof
  fix x assume l: "k + n \<le> l" and "x \<in> span (data + of_nat k) n"
  then obtain j where "j < n" "x = data + of_nat (k + j)" by (auto simp: span_iff add.assoc)
  then show "x \<in> span data l" using l unfolding span_iff by (intro exI [of _ "k + j"]) simp
qed

subsection \<open>The contents of a file\<close>

abbreviation rp_start :: "'a ramfs_scheme \<Rightarrow> u64 \<Rightarrow> nat" where
  "rp_start s p \<equiv> unat (rp_offs (rp_at s p))"

definition rp_base :: "'a ramfs_scheme \<Rightarrow> u64 \<Rightarrow> u64" where
  "rp_base s p = (case page_addr (rp_page (rp_at s p)) s of Inr phys \<Rightarrow> va phys | Inl _ \<Rightarrow> 0)"

definition file_pages :: "'a ramfs_scheme \<Rightarrow> u64 \<Rightarrow> u64 list \<Rightarrow> bool" where
  "file_pages s f ps \<longleftrightarrow>
     dlist (fs_links s) (Data f) (map RPage ps) \<and>
     sorted_wrt (\<lambda>p q. rp_start s p + 4096 \<le> rp_start s q) ps \<and>
     (\<forall>p\<in>set ps. rp_start s p + 4096 < 2 ^ 61 \<and> (\<exists>phys. page_addr (rp_page (rp_at s p)) s = Inr phys))"

definition file_byte :: "'a ramfs_scheme \<Rightarrow> u64 list \<Rightarrow> nat \<Rightarrow> u8 option" where
  "file_byte s ps x =
     map_option (\<lambda>p. memory s (rp_base s p + of_nat (x - rp_start s p)))
       (List.find (\<lambda>p. rp_start s p \<le> x \<and> x < rp_start s p + 4096) ps)"

lemma file_byte_Cons:
  "file_byte s (p # ps) x =
     (if rp_start s p \<le> x \<and> x < rp_start s p + 4096 then Some (memory s (rp_base s p + of_nat (x - rp_start s p)))
      else file_byte s ps x)"
  by (simp add: file_byte_def)

lemma file_byte_none: "\<forall>p\<in>set ps. x < rp_start s p \<Longrightarrow> file_byte s ps x = None"
  by (induction ps) (auto simp: file_byte_def)

lemma page_addr_memory [simp]: "page_addr pg (s\<lparr>memory := m\<rparr>) = page_addr pg s"
  by (auto simp: page_addr_def page_zone_def split: option.split)

subsection \<open>The loop of a read\<close>

lemma readat_loop_copies:
  fixes s :: "'a ramfs_scheme"
  assumes "lpath (fs_links s) prev (map RPage ps) (Data f)"
    and "sorted_wrt (\<lambda>p q. rp_start s p + 4096 \<le> rp_start s q) ps"
    and "\<forall>p\<in>set ps. rp_start s p + 4096 < 2 ^ 61 \<and> (\<exists>phys. page_addr (rp_page (rp_at s p)) s = Inr phys)"
    and "\<forall>p\<in>set ps. span data (T - F) \<inter> span (rp_base s p) 4096 = {} \<and> (\<forall>x\<in>span (rp_base s p) 4096. m x = memory s x)"
    and "F = unat from" and "T = unat to" and "F \<le> T" and "T < 2 ^ 61"
  shows "\<exists>m'. readat_loop f (nxt (fs_links s) prev) data from from to (s\<lparr>memory := m\<rparr>) = Some (Inr (s\<lparr>memory := m'\<rparr>)) \<and>
    (\<forall>i<T - F. m' (data + of_nat i) = (case file_byte s ps (F + i) of Some b \<Rightarrow> b | None \<Rightarrow> m (data + of_nat i))) \<and>
    (\<forall>x. x \<notin> span data (T - F) \<longrightarrow> m' x = m x)"
  using assms(1-4)
proof (induction ps arbitrary: prev m)
  case Nil
  then show ?case by (intro exI [of _ m]) (simp add: readat_loop.simps file_byte_def)
next
  case (Cons p ps)
  let ?R = "rp_start s p" and ?rp = "rp_at s p" and ?base = "rp_base s p"
  have nx: "nxt (fs_links s) prev = RPage p" and path: "lpath (fs_links s) (RPage p) (map RPage ps) (Data f)"
    using Cons.prems(1) by simp_all
  obtain phys where phys: "page_addr (rp_page ?rp) s = Inr phys" "?R + 4096 < 2 ^ 61" using Cons.prems(3) by auto
  have base: "?base = va phys" by (simp add: rp_base_def phys)
  have srt: "sorted_wrt (\<lambda>p q. rp_start s p + 4096 \<le> rp_start s q) ps"
    and later: "\<forall>q\<in>set ps. ?R + 4096 \<le> rp_start s q" using Cons.prems(2) by simp_all
  have rest: "\<forall>p\<in>set ps. rp_start s p + 4096 < 2 ^ 61 \<and> (\<exists>phys. page_addr (rp_page (rp_at s p)) s = Inr phys)"
    using Cons.prems(3) by simp
  have end64: "unat (rp_offs ?rp + PAGE_SIZE) = ?R + 4096"
    using phys(2) by (simp add: unat_word_ariths PAGE_SIZE_def)
  have si: "sint (rp_offs ?rp + PAGE_SIZE) = int (?R + 4096)" "sint (rp_offs ?rp) = int ?R"
      "sint from = int F" "sint to = int T"
    using end64 phys(2) assms(5-8) by (subst sint_small; simp)+
  then have cmp: "sint (rp_offs ?rp + PAGE_SIZE) \<le> sint from \<longleftrightarrow> ?R + 4096 \<le> F"
      "sint (rp_offs ?rp) \<ge> sint to \<longleftrightarrow> T \<le> ?R"
    by linarith+
  note step = readat_loop.simps [of f "RPage p" data "from" "from" to "s\<lparr>memory := m\<rparr>"]
  consider (skip) "?R + 4096 \<le> F" | (stop) "T \<le> ?R" | (copy) "F < ?R + 4096" "?R < T" by linarith
  then show ?case
  proof cases
    case skip
    have go: "readat_loop f (RPage p) data from from to (s\<lparr>memory := m\<rparr>) =
        readat_loop f (nxt (fs_links s) (RPage p)) data from from to (s\<lparr>memory := m\<rparr>)"
      using step skip cmp by (simp add: node_rp_def Let_def)
    have "file_byte s (p # ps) (F + i) = file_byte s ps (F + i)" for i
      using skip by (simp add: file_byte_Cons)
    then show ?thesis using Cons.IH [OF path srt rest, of m] Cons.prems(4) unfolding nx go by simp
  next
    case stop
    have "readat_loop f (RPage p) data from from to (s\<lparr>memory := m\<rparr>) = Some (Inr (s\<lparr>memory := m\<rparr>))"
      using step stop cmp assms(7) by (simp add: node_rp_def Let_def)
    moreover have "file_byte s (p # ps) (F + i) = None" if "i < T - F" for i
      by (rule file_byte_none) (use stop later that in fastforce)
    ultimately show ?thesis unfolding nx by (intro exI [of _ m]) simp
  next
    case copy
    let ?k = "?R - F" and ?len = "min (?R + 4096) T - max F ?R"
    let ?m = "memcpy m (data + of_nat ?k) (?base + of_nat (F - ?R)) (of_nat ?len)"
    have R61: "?R < 2 ^ 61" using phys(2) by simp
    have win: "page_window (rp_offs ?rp) from from to = (of_nat ?k, of_nat (F - ?R), of_nat ?len)"
      using page_window_eq [of "rp_offs ?rp" to "from"] R61 assms(5-8) copy by simp
    have small: "?len < 2 ^ 62" "?k + ?len < 2 ^ 62" "T - F < 2 ^ 62" "?k + ?len \<le> T - F" "F - ?R + ?len \<le> 4096"
      using assms(7,8) phys(2) copy by (auto simp: min_def max_def)
    have ul: "unat (of_nat ?len :: u64) = ?len" by (rule unat_of_nat_small [OF small(1)])
    have go: "readat_loop f (RPage p) data from from to (s\<lparr>memory := m\<rparr>) =
        readat_loop f (nxt (fs_links s) (RPage p)) data from from to (s\<lparr>memory := ?m\<rparr>)"
      using step copy cmp win phys(1) by (simp add: node_rp_def Let_def base)
    have inside: "span (data + of_nat ?k) ?len \<subseteq> span data (T - F)" "span (?base + of_nat (F - ?R)) ?len \<subseteq> span ?base 4096"
      using small span_part by blast+
    have disj: "span (data + of_nat ?k) (unat (of_nat ?len :: u64)) \<inter> span (?base + of_nat (F - ?R)) (unat (of_nat ?len :: u64)) = {}"
      unfolding ul using inside Cons.prems(4) by (auto simp: disjoint_iff)
    have m': "?m x = (if x \<in> span (data + of_nat ?k) ?len then m (?base + of_nat (F - ?R) + (x - (data + of_nat ?k))) else m x)" for x
      using memcpy_eq [OF disj, of m x] unfolding ul .
    have frame: "\<forall>q\<in>set ps. span data (T - F) \<inter> span (rp_base s q) 4096 = {} \<and> (\<forall>x\<in>span (rp_base s q) 4096. ?m x = memory s x)"
    proof
      fix q assume "q \<in> set ps"
      then have q: "span data (T - F) \<inter> span (rp_base s q) 4096 = {}" "\<forall>x\<in>span (rp_base s q) 4096. m x = memory s x"
        using Cons.prems(4) by simp_all
      have "?m x = memory s x" if "x \<in> span (rp_base s q) 4096" for x
        using q that inside(1) by (auto simp: m')
      then show "span data (T - F) \<inter> span (rp_base s q) 4096 = {} \<and> (\<forall>x\<in>span (rp_base s q) 4096. ?m x = memory s x)"
        using q(1) by blast
    qed
    obtain m2 where m2: "readat_loop f (nxt (fs_links s) (RPage p)) data from from to (s\<lparr>memory := ?m\<rparr>) = Some (Inr (s\<lparr>memory := m2\<rparr>))"
      and b2: "\<forall>i<T - F. m2 (data + of_nat i) = (case file_byte s ps (F + i) of Some b \<Rightarrow> b | None \<Rightarrow> ?m (data + of_nat i))"
      and o2: "\<forall>x. x \<notin> span data (T - F) \<longrightarrow> m2 x = ?m x"
      using Cons.IH [OF path srt rest frame] by blast
    have "m2 (data + of_nat i) = (case file_byte s (p # ps) (F + i) of Some b \<Rightarrow> b | None \<Rightarrow> m (data + of_nat i))"
      if i: "i < T - F" for i
    proof -
      have at: "data + of_nat i \<in> span (data + of_nat ?k) ?len \<longleftrightarrow> ?k \<le> i \<and> i < ?k + ?len"
        by (rule span_shift) (use i small in linarith)+
      have cover: "?k \<le> i \<and> i < ?k + ?len \<longleftrightarrow> ?R \<le> F + i \<and> F + i < ?R + 4096"
        using i copy assms(7) by (auto simp: min_def max_def)
      show ?thesis
      proof (cases "?R \<le> F + i \<and> F + i < ?R + 4096")
        case True
        then have inn: "data + of_nat i \<in> span (data + of_nat ?k) ?len" and ki: "?k \<le> i" using at cover by blast+
        have none: "file_byte s ps (F + i) = None" by (rule file_byte_none) (use True later in fastforce)
        have addr: "?base + of_nat (F - ?R) + (data + of_nat i - (data + of_nat ?k)) = ?base + of_nat (F + i - ?R)"
        proof -
          have "of_nat i = of_nat ?k + (of_nat (i - ?k) :: u64)" unfolding of_nat_add [symmetric] using ki by simp
          then have "data + of_nat i - (data + of_nat ?k) = (of_nat (i - ?k) :: u64)" by simp
          moreover have "F + i - ?R = (F - ?R) + (i - ?k)" using True ki by linarith
          ultimately show ?thesis by (simp only: of_nat_add add.assoc)
        qed
        have "F + i - ?R < 4096" using True by linarith
        then have "?base + of_nat (F + i - ?R) \<in> span ?base 4096" unfolding span_iff by blast
        then have "m (?base + of_nat (F + i - ?R)) = memory s (?base + of_nat (F + i - ?R))" using Cons.prems(4) by simp
        then have val: "?m (data + of_nat i) = memory s (?base + of_nat (F + i - ?R))"
          unfolding m' if_P [OF inn] addr .
        have "m2 (data + of_nat i) = ?m (data + of_nat i)" using b2 i none by simp
        also note val
        finally show ?thesis unfolding file_byte_Cons if_P [OF True] by simp
      next
        case False
        then have "data + of_nat i \<notin> span (data + of_nat ?k) ?len" using at cover by blast
        then have "?m (data + of_nat i) = m (data + of_nat i)" unfolding m' by simp
        then show ?thesis using b2 i unfolding file_byte_Cons if_not_P [OF False] by (simp split: option.split)
      qed
    qed
    moreover have "m2 x = m x" if "x \<notin> span data (T - F)" for x
      using o2 that inside(1) by (auto simp: m')
    ultimately show ?thesis unfolding nx go using m2 by blast
  qed
qed


subsection \<open>What the file system promises\<close>

text \<open>
  A sample: one file at \<open>0x20000\<close> of 5000 bytes, named \<open>ab\<close>, with one page for the offsets from 4096 on, which is frame 4
  and holds the byte 7 everywhere.
\<close>

definition file_sample :: ramfs where
  "file_sample = \<lparr>rflags = 0x202, preempt_count = 0,
     memory = (\<lambda>a. 7)(0x20018 := 97, 0x20019 := 98, 0x2001a := 0), mmap_begin = 0, mmap_end = 0,
     initrd_begin = 0, initrd_end = 0, free_ranges = [], all_ranges = [],
     buddy_zones = [\<lparr>zlinks = \<lparr>nxt = id, prv = id\<rparr>, zbegin = 4, zend = 8, zpages = (\<lambda>p. \<lparr>pg_flags = 0, pg_order = 0\<rparr>)\<rparr>],
     slab_links = \<lparr>nxt = id, prv = id\<rparr>,
     slab_meta = (\<lambda>a. \<lparr>slab_page = (0, 0), slab_first = 0, slab_count = 0\<rparr>),
     caches = (\<lambda>c. \<lparr>slab_order = 0, slab_size = 0, obj_size = 0\<rparr>),
     initial_cr3 = 0, cr3 = 0, mm_links = \<lparr>nxt = id, prv = id\<rparr>,
     mm_at = (\<lambda>a. \<lparr>mm_pt = (0, 0), mm_cr3 = 0\<rparr>), vma_at = (\<lambda>a. \<lparr>vma_begin = 0, vma_end = 0, vma_perm = 0\<rparr>),
     thr_links = \<lparr>nxt = id, prv = id\<rparr>,
     thread_at = (\<lambda>t. \<lparr>stack_phys = 0, stack_order = 0, thr_state = THREAD_ACTIVE, thr_regs = 0, thr_mm = 0,
       thr_context = 0, retval = 0\<rparr>),
     cv_wait_thread = (\<lambda>t. 0), mtx_wait_thread = (\<lambda>t. 0), mtx_owner = (\<lambda>m. 0), current = 0x1000, idle = 0x1000,
     remained_time = 0, the_tss = \<lparr>tss_rsp0 = 0, iomap_base = 0, iomap = []\<rparr>, task_register = 0,
     fs_links = \<lparr>nxt = id(Data 0x20000 := RPage 0x30000, RPage 0x30000 := Data 0x20000,
         Cache := File 0x20000, File 0x20000 := Cache),
       prv = id(Data 0x20000 := RPage 0x30000, RPage 0x30000 := Data 0x20000,
         Cache := File 0x20000, File 0x20000 := Cache)\<rparr>,
     file_size = (\<lambda>f. 5000), rp_at = (\<lambda>p. \<lparr>rp_offs = 4096, rp_page = (0, 0)\<rparr>)\<rparr>"

lemma file_sample_pages: "file_pages file_sample 0x20000 [0x30000]" "rp_base file_sample p = va 0x4000"
  by (simp_all add: file_pages_def dlist_def file_sample_def page_addr_def page_zone_def zsize_def rp_base_def PAGE_SIZE_def)

text \<open>
  C25. Reading is exact: a read of \<open>sz\<close> bytes at \<open>offs\<close> returns the number of bytes up to the end of the file, puts every
  byte that a page of the file holds at its place in the buffer, leaves the rest of the buffer (the
  holes of the file) alone and writes nothing else; behind the end of the file it does nothing. Pages
  that straddle either end of the range are cut correctly.
\<close>

theorem ramfs_read_exact:
  assumes "file_pages s f ps" and "unat offs + unat sz < 2 ^ 61" and "unat (file_size s f) < 2 ^ 61"
    and "\<forall>p\<in>set ps. span data (unat sz) \<inter> span (rp_base s p) 4096 = {}"
  shows "if unat (file_size s f) \<le> unat offs then do_ramfs_readat f data sz offs s = Some (Inr (0, s))
    else \<exists>m'. do_ramfs_readat f data sz offs s =
        Some (Inr (of_nat (min (unat sz) (unat (file_size s f) - unat offs)), s\<lparr>memory := m'\<rparr>)) \<and>
      (\<forall>i<unat sz. m' (data + of_nat i) =
        (case file_byte s ps (unat offs + i) of Some b \<Rightarrow> b | None \<Rightarrow> memory s (data + of_nat i))) \<and>
      (\<forall>x. x \<notin> span data (unat sz) \<longrightarrow> m' x = memory s x)"
proof -
  let ?F = "unat offs" and ?n = "unat sz" and ?S = "unat (file_size s f)"
  have T: "unat (offs + sz) = ?F + ?n" using assms(2) by (simp add: unat_word_ariths)
  have si: "sint offs = int ?F" "sint (file_size s f) = int ?S" "sint (offs + sz) = int (?F + ?n)"
    using assms(2,3) T by (subst sint_small; simp)+
  then have cmp: "sint offs \<ge> sint (file_size s f) \<longleftrightarrow> ?S \<le> ?F"
      "sint (offs + sz) \<ge> sint (file_size s f) \<longleftrightarrow> ?S \<le> ?F + ?n"
    by linarith+
  have pages: "lpath (fs_links s) (Data f) (map RPage ps) (Data f)"
      "sorted_wrt (\<lambda>p q. rp_start s p + 4096 \<le> rp_start s q) ps"
      "\<forall>p\<in>set ps. rp_start s p + 4096 < 2 ^ 61 \<and> (\<exists>phys. page_addr (rp_page (rp_at s p)) s = Inr phys)"
    using assms(1) by (simp_all add: file_pages_def dlist_def)
  have sep: "\<forall>p\<in>set ps. span data (?F + ?n - ?F) \<inter> span (rp_base s p) 4096 = {} \<and>
      (\<forall>x\<in>span (rp_base s p) 4096. memory s x = memory s x)" using assms(4) by simp
  show ?thesis
  proof (cases "?S \<le> ?F")
    case True
    then show ?thesis using cmp(1) by (simp add: do_ramfs_readat_def)
  next
    case False
    obtain m' where m': "readat_loop f (nxt (fs_links s) (Data f)) data offs offs (offs + sz) (s\<lparr>memory := memory s\<rparr>) =
          Some (Inr (s\<lparr>memory := m'\<rparr>))"
      and b: "\<forall>i<?F + ?n - ?F. m' (data + of_nat i) =
        (case file_byte s ps (?F + i) of Some b \<Rightarrow> b | None \<Rightarrow> memory s (data + of_nat i))"
      and o: "\<forall>x. x \<notin> span data (?F + ?n - ?F) \<longrightarrow> m' x = memory s x"
      using readat_loop_copies [OF pages sep refl T [symmetric] _ assms(2)] by auto
    have diff: "file_size s f - offs = of_nat (?S - ?F)" using False by (simp add: of_nat_diff)
    have ret: "(if sint (offs + sz) \<ge> sint (file_size s f) then file_size s f - offs else sz) = of_nat (min ?n (?S - ?F))"
      
    proof -
      have "min ?n (?S - ?F) = (if ?S \<le> ?F + ?n then ?S - ?F else ?n)" using False by auto
      then show ?thesis unfolding cmp diff by (cases "?S \<le> ?F + ?n") simp_all
    qed
    have "do_ramfs_readat f data sz offs s = Some (Inr (of_nat (min ?n (?S - ?F)), s\<lparr>memory := m'\<rparr>))"
      using False m' cmp(1) by (simp add: do_ramfs_readat_def Let_def ret [symmetric])
    then show ?thesis using False b o by auto
  qed
qed

theorem ramfs_read_exact_witness:
  "\<exists>m'. do_ramfs_readat 0x20000 0x40000 100 4950 file_sample = Some (Inr (50, file_sample\<lparr>memory := m'\<rparr>)) \<and>
     m' 0x40000 = 7 \<and> m' 0x3ffff = memory file_sample 0x3ffff"
proof -
  have u: "unat (4950 :: u64) = 4950" "unat (100 :: u64) = 100" "unat (file_size file_sample 0x20000) = 5000"
    by (simp_all add: file_sample_def)
  have away: "span 0x40000 (unat (100 :: u64)) \<inter> span (va 0x4000) 4096 = {}"
  proof -
    have "x \<notin> span 0x40000 100" if x: "x \<in> span (va 0x4000) 4096" for x
    proof -
      obtain i where i: "i < 4096" "x = va 0x4000 + of_nat i" using x by (auto simp: span_iff)
      have "unat (of_nat i :: u64) = i" by (rule unat_of_nat_small) (use i(1) in simp)
      then have "unat (x - 0x40000) \<ge> 100" using i by (simp add: va_def HIGHER_BASE_def unat_word_ariths)
      then show ?thesis by (simp add: span_iff_unat)
    qed
    then show ?thesis unfolding u(2) by blast
  qed
  obtain m' where m': "do_ramfs_readat 0x20000 0x40000 100 4950 file_sample = Some (Inr (50, file_sample\<lparr>memory := m'\<rparr>))"
    and b: "\<forall>i<100. m' (0x40000 + of_nat i) = (case file_byte file_sample [0x30000] (4950 + i) of Some b \<Rightarrow> b
      | None \<Rightarrow> memory file_sample (0x40000 + of_nat i))"
    and o: "\<forall>x. x \<notin> span 0x40000 100 \<longrightarrow> m' x = memory file_sample x"
    using ramfs_read_exact [OF file_sample_pages(1), of 4950 100 "0x40000"] away
    unfolding u file_sample_pages(2) by auto
  have "m' (0x40000 + of_nat 0) = 7"
    using b [rule_format, of 0] by (simp add: file_byte_def file_sample_pages(2)) (simp add: file_sample_def va_def HIGHER_BASE_def)
  moreover have "0x3ffff \<notin> span 0x40000 100"
    by (simp add: span_iff_unat unsigned_minus_1_eq_mask mask_eq_exp_minus_1)
  ultimately show ?thesis using m' o by auto
qed

subsection \<open>Looking a file up\<close>

lemma open_scan_finds:
  assumes "lpath (fs_links s) prev (map File fs) Cache" and "cstr (memory s) name n" and "0 \<notin> set fs"
    and "\<forall>f\<in>set fs. cstr (memory s) (file_name f) (nm f)"
  shows "open_scan name (nxt (fs_links s) prev) s =
    Some (Inr (case List.find (\<lambda>f. nm f = n) fs of Some f \<Rightarrow> f | None \<Rightarrow> 0))"
  using assms(1,3,4)
proof (induction fs arbitrary: prev)
  case Nil
  then show ?case by (simp add: open_scan.simps)
next
  case (Cons f fs)
  have nx: "nxt (fs_links s) prev = File f" and path: "lpath (fs_links s) (File f) (map File fs) Cache"
    using Cons.prems(1) by simp_all
  have c: "cstr (memory s) (file_name f) (nm f)" using Cons.prems(3) by simp
  have cmp: "strcmp (memory s) name (file_name f) = Some (str_order n (nm f))" by (rule strcmp_cstr [OF assms(2) c])
  show ?case
    unfolding nx using Cons.IH [OF path] Cons.prems(2,3)
    by (simp add: open_scan.simps [of name "File f"] node_file_def cmp str_order_0_iff eq_commute [of n])
qed

text \<open>
  Opening finds the right file: if the directory has the files \<open>fs\<close> with the names \<open>nm\<close>, opening a name
  yields the first file of that name and changes nothing, whether or not it may be created; without such a file, opening without
  creation reports that there is none, and with creation makes a new file.
\<close>

theorem ramfs_open_finds:
  assumes "dlist (fs_links s) Cache (map File fs)" and "0 \<notin> set fs" and "cstr (memory s) name n"
    and "\<forall>f\<in>set fs. cstr (memory s) (file_name f) (nm f)"
  shows "do_ramfs_open name create s =
    (case List.find (\<lambda>f. nm f = n) fs of
       Some f \<Rightarrow> Some (Inr (Some f, s))
     | None \<Rightarrow> if create then map_option (\<lambda>r. and_then r (\<lambda>(f, s'). Inr (Some f, s'))) (file_new name s)
              else Some (Inr (None, s)))"
proof -
  have path: "lpath (fs_links s) Cache (map File fs) Cache" using assms(1) by (simp add: dlist_def)
  have "f \<noteq> 0" if "List.find (\<lambda>f. nm f = n) fs = Some f" for f
  proof -
    have "f \<in> set fs" using that by (auto simp: find_Some_iff)
    then show ?thesis using assms(2) by blast
  qed
  then show ?thesis
    using open_scan_finds [OF path assms(3,2,4)]
    by (auto simp: do_ramfs_open_def split: option.split) (cases "file_new name s"; simp)+
qed

theorem ramfs_open_finds_witness:
  "do_ramfs_open 0x20018 True file_sample = Some (Inr (Some 0x20000, file_sample)) \<and>
   do_ramfs_open 0x20019 False file_sample = Some (Inr (None, file_sample))"
proof -
  have d: "dlist (fs_links file_sample) Cache (map File [0x20000])" by (simp add: dlist_def file_sample_def)
  have c: "cstr (memory file_sample) 0x20018 [97, 98]" "cstr (memory file_sample) 0x20019 [98]"
    by (simp_all add: file_sample_def)
  have nm: "\<forall>f\<in>set [0x20000]. cstr (memory file_sample) (file_name f) [97, 98]" using c(1) by (simp add: file_name_def)
  show ?thesis
    using ramfs_open_finds [OF d _ c(1), of "\<lambda>f. [97, 98]" True] ramfs_open_finds [OF d _ c(2), of "\<lambda>f. [97, 98]" False] nm by simp
qed

end
