(* ===== verification/Initramfs_Properties.thy ===== *)
theory Initramfs_Properties
  imports Initramfs Stdlib
begin

text \<open>
  The number fields of the archive: \<open>parse_hex\<close> of \<open>initramfs.c\<close> against \<open>strtoul\<close> of \<open>stdlib.c\<close>.
\<close>

subsection \<open>Numbers of the archive\<close>

text \<open>Both ways to read a hexadecimal digit, checked for every byte.\<close>

definition hex_ok :: "nat \<Rightarrow> bool" where
  "hex_ok n =
     (let c = of_nat n :: u8; x = scast c :: s32; y = scast (ucast (toupper x) :: u8) :: s32
      in isxdigit x = 0 \<or>
         (case hex_index (tolower x) of
            None \<Rightarrow> False
          | Some d \<Rightarrow> d < 16 \<and> c \<noteq> 0 \<and> isspace x = 0 \<and> x \<noteq> 45 \<and> x \<noteq> 43 \<and> x \<noteq> 120 \<and>
              scast (if isdigit y \<noteq> 0 then y - 48 else y - 65 + 10 :: s32) = (of_nat d :: u64)))"

lemma hex_ok_byte: "hex_ok (unat (c :: u8))"
proof -
  have "list_all hex_ok [0..<256]" by code_simp
  moreover have "unat c < 256" using unsigned_less [of c] by simp
  ultimately show ?thesis by (simp add: list_all_iff)
qed

lemma hex_char:
  fixes c :: u8
  assumes "isxdigit (scast c) \<noteq> 0"
  obtains d where "d < 16" and "hex_value digits_at c = of_nat d" and "c \<noteq> 0" and "isspace (scast c) = 0"
    and "(scast c :: s32) \<notin> {45, 43, 120}"
    and "\<And>m p. m p = c \<Longrightarrow> scast (digit_value m p) = (of_nat d :: u64)"
  using hex_ok_byte [of c] assms
  by (auto simp: hex_ok_def hex_value_def digit_value_def Let_def split: option.splits)

lemma hex_char_plain:
  fixes c :: u8
  assumes "isxdigit (scast c) \<noteq> 0"
  shows "isspace (scast c) = 0" and "(scast c :: s32) \<notin> {45, 43, 120}"
  by (rule hex_char [OF assms]; blast)+

lemma strtoul_hex_digits:
  assumes "cstr m p cs" and "list_all (\<lambda>c. isxdigit (scast c) \<noteq> 0) cs" and "unat r < 16 ^ k" and "k + length cs \<le> 16"
  shows "strtoul_digits m p 16 r b = Some (hex_loop digits_at cs r, p + of_nat (length cs), b \<or> cs \<noteq> [])"
  using assms
proof (induction cs arbitrary: p r b k)
  case Nil
  then show ?case by (simp add: strtoul_digits.simps)
next
  case (Cons c cs)
  obtain d where d: "d < 16" "hex_value digits_at c = of_nat d" "c \<noteq> 0"
      "\<And>m p. m p = c \<Longrightarrow> scast (digit_value m p) = (of_nat d :: u64)"
    using Cons.prems(2) hex_char [of c digits_at thesis] by auto
  have mp: "m p = c" using Cons.prems(1) by simp
  have ud: "unat (of_nat d :: u64) = d" using d(1) by (intro unat_of_nat_u64) simp
  have k: "k \<le> 15" using Cons.prems(4) by simp
  then have "(16 :: nat) ^ k \<le> 16 ^ 15" by (intro power_increasing) simp_all
  then have r: "unat r < 16 ^ 15" using Cons.prems(3) by linarith
  have sum: "unat (r * 16 + of_nat d) = unat r * 16 + d"
    using r d(1) ud by (simp add: unat_word_ariths)
  have "unat (ULONG_MAX - of_nat d) = 2 ^ 64 - 1 - d"
  proof -
    have "unat (ULONG_MAX :: u64) = 2 ^ 64 - 1" by (simp add: ULONG_MAX_def unsigned_minus_1_eq_mask mask_eq_exp_minus_1)
    moreover have "(of_nat d :: u64) \<le> ULONG_MAX" by (simp add: ULONG_MAX_def)
    ultimately show ?thesis using ud by (simp add: unat_sub)
  qed
  then have noover: "\<not> r > (ULONG_MAX - of_nat d) div (16 :: u64)"
    using r d(1) by (simp add: word_less_nat_alt unat_div)
  have "unat (r * 16 + of_nat d) < 16 ^ Suc k" using sum d(1) Cons.prems(3) by simp
  from Cons.IH [OF _ _ this, of "p + 1" True]
  have "strtoul_digits m (p + 1) 16 (r * 16 + of_nat d) True =
      Some (hex_loop digits_at cs (r * 16 + of_nat d), p + 1 + of_nat (length cs), True)"
    using Cons.prems by simp
  then show ?case
    using d mp noover by (subst strtoul_digits.simps) (simp add: Let_def ac_simps)
qed

text \<open>
  C26. \<open>parse_hex\<close> agrees with the general routine: on a field of eight hexadecimal digits, in upper or lower case, it
  yields what \<open>strtoul\<close> in base 16 reads from a string of the same characters, which it consumes to the end.
\<close>

theorem parse_hex_strtoul:
  assumes "length cs = 8" and "list_all (\<lambda>c. isxdigit (scast c) \<noteq> 0) cs"
    and "map (\<lambda>i. m (field + of_nat i)) [0..<8] = cs" and "cstr m' str cs"
  shows "strtoul m' str 16 = Some (parse_hex digits_at m field, str + 8)"
proof -
  have run: "strtoul_digits m' str 16 0 False = Some (hex_loop digits_at cs 0, str + 8, True)"
    using strtoul_hex_digits [of m' str cs 0 0 False digits_at] assms(1,2,4) by force
  have app: "hex_loop digits_at (xs @ [0]) r = hex_loop digits_at xs r" for xs r
    by (induction xs arbitrary: r) simp_all
  have val: "parse_hex digits_at m field = hex_loop digits_at cs 0"
    unfolding parse_hex_def Let_def assms(3) by (rule app)
  obtain c1 c2 rest where cs: "cs = c1 # c2 # rest"
    using assms(1) by (cases cs; cases "tl cs") auto
  have at: "m' str = c1" "m' (str + 1) = c2" using assms(4) cs by simp_all
  have "isxdigit (char_at m' str) \<noteq> 0" "isxdigit (char_at m' (str + 1)) \<noteq> 0" using assms(2) cs at by simp_all
  note plain = hex_char_plain [OF this(1)] hex_char_plain [OF this(2)]
  have "tolower 0 = 0" by code_simp
  then show ?thesis
    using plain run val by (simp add: strtoul_def skip_space.simps [of m' str] strtoul_base_def Let_def)
qed

theorem parse_hex_strtoul_witness:
  "\<exists>v. strtoul (store_bytes (\<lambda>_. 0) 0x10 (bytes_of ''000081A4'')) 0x10 16 = Some (v, 0x18) \<and>
     v = parse_hex 0 (store_bytes (\<lambda>_. 0) 0x10 (bytes_of ''000081A4'')) 0x10"
proof -
  let ?m = "store_bytes (\<lambda>_. 0) 0x10 (bytes_of ''000081A4'')" and ?cs = "bytes_of ''000081A4''"
  have h: "length ?cs = 8" "list_all (\<lambda>c. isxdigit (scast c) \<noteq> 0) ?cs" by code_simp+
  have f: "map (\<lambda>i. ?m (0x10 + of_nat i)) [0..<8] = ?cs" "cstr ?m 0x10 ?cs" by code_simp+
  show ?thesis using parse_hex_strtoul [OF h f, of 0] by simp
qed

end
