(* ===== verification/Ints_Properties.thy ===== *)
theory Ints_Properties
  imports Ints
begin

text \<open>
  What the descriptor table holds after \<open>idt_setup\<close>, read the way the processor reads it.
\<close>

subsection \<open>A gate as the processor sees it\<close>

definition gate_target :: "idt_desc \<Rightarrow> u64" where
  "gate_target d = push_bit 32 (ucast (offs2 d)) OR push_bit 16 (ucast (offs1 d)) OR ucast (offs0 d)"

definition gate_present :: "idt_desc \<Rightarrow> bool" where "gate_present d \<longleftrightarrow> bit (idt_flags d) 15"

definition gate_level :: "idt_desc \<Rightarrow> u16" where "gate_level d = drop_bit 13 (idt_flags d) AND 3"

lemma gate_target_setup: "gate_target (idt_desc_setup sel offs flags) = offs"
proof (rule bit_word_eqI)
  fix n assume n: "n < LENGTH(64)"
  have m: "(0xffff :: u64) = mask 16" "(0xffffffff :: u64) = mask 32" by (simp_all add: mask_eq_exp_minus_1)
  note b = gate_target_def idt_desc_setup_def m bit_or_iff bit_and_iff bit_push_bit_iff bit_drop_bit_eq bit_unsigned_iff bit_mask_iff
  consider "n < 16" | "16 \<le> n" "n < 32" | "32 \<le> n" by linarith
  then show "bit (gate_target (idt_desc_setup sel offs flags)) n \<longleftrightarrow> bit offs n"
  proof cases
    case 1
    then show ?thesis by (simp add: b)
  next
    case 2
    then have "n - 16 < 16" "n - 16 < 64" by linarith+
    then show ?thesis using 2 by (simp add: b)
  next
    case 3
    then have "\<not> n - 16 < 16" "n - 32 < 32" "n - 32 < 64" using n by simp_all
    then show ?thesis using 3 n by (simp add: b)
  qed
qed

lemma idt_fold: "fold (\<lambda>i. idt_put i (g i)) xs s = s\<lparr>idt := override_on (idt s) g (set xs)\<rparr>"
proof (induction xs arbitrary: s)
  case Nil
  then show ?case by simp
next
  case (Cons x xs)
  have "override_on ((idt s)(x := g x)) g (set xs) = override_on (idt s) g (set (x # xs))"
    by (auto simp: override_on_def)
  then have "(idt_put x (g x) s)\<lparr>idt := override_on (idt (idt_put x (g x) s)) g (set xs)\<rparr> =
      s\<lparr>idt := override_on (idt s) g (set (x # xs))\<rparr>"
    by (simp only: idt_put_def kernel.simps) simp
  then show ?case using Cons [of "idt_put x (g x) s"] by (simp only: fold_Cons comp_apply)
qed

text \<open>
  C27. The descriptor table leaves no way around the kernel: \<open>idt_setup\<close> succeeds and loads a table of exactly 256
  gates, each present, with the kernel's code segment and with the entry point of its own number, read back from
  the three scattered parts of the address; only the gate of the system call may be used by user code.
  The two handlers of the kernel are registered under their numbers.
\<close>

theorem idt_setup_gates:
  "\<exists>s'. idt_setup im s = Inr s' \<and> idtr s' = (16 * 256 - 1, IDT_at im) \<and>
    (\<forall>i<256. gate_target (idt s' i) = raw_handler im i \<and> gate_present (idt s' i) \<and> idt_sel (idt s' i) = 8 \<and>
      gate_level (idt s' i) = (if i = 0x80 then 3 else 0)) \<and>
    int_descs s' = (int_descs s)(255 - 32 := \<lparr>int_handler = Some HandleSpurious, int_busy = True\<rparr>,
      0x80 - 32 := \<lparr>int_handler = Some HandleSyscall, int_busy = True\<rparr>)"
proof -
  let ?gate = "\<lambda>i flags. idt_desc_setup (ucast KERNEL_CS) (raw_handler im i) flags"
  let ?f = "\<lambda>i. if i = 0x80 then IDT_SYSCALL_FLAGS else if i = 255 then IDT_SPURIOUS_FLAGS
    else if i < 32 then IDT_EXCEPTION_FLAGS else IDT_INTERRUPT_FLAGS"
  have flags: "gate_present (?gate i (?f i)) \<and> gate_level (?gate i (?f i)) = (if i = 0x80 then 3 else 0)" for i
  proof -
    have "list_all (\<lambda>(x, l). bit (ucast x :: u16) 15 \<and> drop_bit 13 (ucast x :: u16) AND 3 = l)
        [(IDT_SYSCALL_FLAGS, 3), (IDT_SPURIOUS_FLAGS, 0), (IDT_EXCEPTION_FLAGS, 0), (IDT_INTERRUPT_FLAGS, 0)]"
      by code_simp
    then show ?thesis by (simp add: gate_present_def gate_level_def idt_desc_setup_def)
  qed
  have sel: "idt_sel (?gate i x) = 8" for i x by (simp add: idt_desc_setup_def KERNEL_CS_def)
  have n: "sint INTNO_SPURIOUS = 255" "sint INTNO_SYSCALL = 128" "unat INTNO_SPURIOUS = 255" "unat INTNO_SYSCALL = 128"
    by code_simp+
  have reg: "register_interrupt_handler INTNO_SPURIOUS h t =
        Inr (t\<lparr>int_descs := (int_descs t)(255 - 32 := \<lparr>int_handler = Some h, int_busy = True\<rparr>)\<rparr>)"
      "register_interrupt_handler INTNO_SYSCALL h t =
        Inr (t\<lparr>int_descs := (int_descs t)(0x80 - 32 := \<lparr>int_handler = Some h, int_busy = True\<rparr>)\<rparr>)" for h and t :: "'a kernel_scheme"
    by (simp_all add: register_interrupt_handler_def n IDT_SIZE_def IDT_EXCEPTIONS_def)
  obtain s' where s': "idt_setup im s = Inr s'" "idtr s' = (of_nat (16 * IDT_SIZE - 1), IDT_at im)"
      "int_descs s' = (int_descs s)(255 - 32 := \<lparr>int_handler = Some HandleSpurious, int_busy = True\<rparr>,
        0x80 - 32 := \<lparr>int_handler = Some HandleSyscall, int_busy = True\<rparr>)"
      and idt: "idt s' = (override_on (override_on (idt s) (\<lambda>i. ?gate i IDT_EXCEPTION_FLAGS) (set [0..<IDT_EXCEPTIONS]))
          (\<lambda>i. ?gate i IDT_INTERRUPT_FLAGS) (set [IDT_EXCEPTIONS..<IDT_SIZE]))
        (255 := ?gate 255 IDT_SPURIOUS_FLAGS, 0x80 := ?gate 0x80 IDT_SYSCALL_FLAGS)"
    by (simp add: idt_setup_def Let_def idt_fold reg n idt_put_def)
  have at: "idt s' i = ?gate i (?f i)" if "i < 256" for i
  proof -
    have "set [IDT_EXCEPTIONS..<IDT_SIZE] = {32..<256}" "set [0..<IDT_EXCEPTIONS] = {0..<32}"
      by (simp_all only: set_upt IDT_SIZE_def IDT_EXCEPTIONS_def)
    then show ?thesis using that by (simp only: idt override_on_def fun_upd_apply) auto
  qed
  have "gate_target (idt s' i) = raw_handler im i \<and> gate_present (idt s' i) \<and> idt_sel (idt s' i) = 8 \<and>
      gate_level (idt s' i) = (if i = 0x80 then 3 else 0)" if "i < 256" for i
    unfolding at [OF that] using flags [of i] sel by (simp only: gate_target_setup simp_thms)
  then show ?thesis using s' by (intro exI [of _ s']) (simp add: IDT_SIZE_def)
qed

theorem idt_setup_gates_witness:
  "\<forall>im. \<forall>s :: kernel. \<exists>s'. idt_setup im s = Inr s' \<and> gate_level (idt s' 0x80) = 3 \<and> gate_level (idt s' 14) = 0"
proof (intro allI)
  fix im :: image and s :: kernel
  from idt_setup_gates [of im s]
  obtain s' where s': "idt_setup im s = Inr s'"
    and g: "\<forall>i<256. gate_level (idt s' i) = (if i = 0x80 then 3 else 0)" by blast
  show "\<exists>s'. idt_setup im s = Inr s' \<and> gate_level (idt s' 0x80) = 3 \<and> gate_level (idt s' 14) = 0"
    using s' g [rule_format, of "0x80"] g [rule_format, of 14] by simp
qed

end
