(* ===== verification/Spec2Isabelle.thy ===== *)
theory Spec2Isabelle
  imports Buddy_Properties Slab_Properties CType Stdlib Vga Print Kernel Thread_Properties Space_Properties
    Pt_Properties File_Read Initramfs_Properties Ints_Properties
begin

text \<open>
  A verification library for the kernel of the course on operating systems, as it stands at the end of
  the course in \<open>src/week5/syscall\<close>: a small 64-bit kernel with its own allocators, threads, address
  spaces, file system and program loader. Paths below are relative to that directory.

  \<^bold>\<open>The program.\<close> \<open>main\<close> reads the memory map the boot loader left (\<open>misc.c\<close>), gives it to the boot
  allocator (\<open>balloc.c\<close>), builds the final page table with it (\<open>paging.c\<close>), hands the memory that is left to
  the buddy allocator (\<open>buddy.c\<close>), on which the object caches (\<open>slab.c\<close>) stand. The caches serve address
  spaces (\<open>mm.c\<close>), threads (\<open>threads.c\<close>) and files (\<open>ramfs.c\<close>). Threads synchronise with the spinlocks
  of \<open>lock.c\<close>, the conditions of \<open>condition.c\<close> and the mutexes of \<open>mutex.c\<close>, and are preempted by the timer
  (\<open>time.c\<close>, \<open>apic.c\<close>, \<open>ints.c\<close>). The first thread unpacks the RAM disk (\<open>initramfs.c\<close>) and starts a
  program (\<open>exec.c\<close>). Intrusive lists (\<open>list.c\<close>), byte and string routines (\<open>string.c\<close>, \<open>ctype.c\<close>,
  \<open>stdlib.c\<close>) and the console (\<open>vga.c\<close>, \<open>print.c\<close>) are used by all.

  \<^bold>\<open>The state.\<close> One record grows along the calls: \<open>machine\<close> (interrupt flag, preemption counter, byte memory),
  boot information and boot allocator, \<open>buddy\<close>, \<open>slabs\<close>, \<open>paging\<close>, \<open>mms\<close>, \<open>threads\<close>, \<open>ramfs\<close>, \<open>kernel\<close>; an
  operation of a layer works on every extension of its record. Bytes, strings, page tables,
  free objects and the video buffer live in the byte memory. Structures of which addresses are taken only as a whole
  are kept by address in a field of the record, and the list nodes inside them in link heaps with a
  datatype of nodes; a cast from a node to the structure around it is a case analysis that yields \<open>Wild\<close> for
  a node of another kind. A routine yields a \<open>result\<close>: \<open>Inl Hang\<close> is the source's endless loop after a message, \<open>Inl Wild\<close> an
  access that C leaves undefined. A loop that may not end is a \<open>partial_function\<close>, whose value \<open>None\<close> says
  that it never returns.

  \<^bold>\<open>Theories.\<close>
  \<^item> \<open>Prelude\<close>: integer types, results, shared lemmas. \<open>CList\<close>: \<open>list.c\<close>, with \<open>dlist\<close> and families \<open>dlists\<close>
    of disjoint lists. \<open>Cpu\<close>: interrupt flag, preemption counter, \<open>lock.c\<close>. \<open>Memory\<close>: \<open>string.c\<close> on bytes.
    \<open>Misc\<close>: \<open>misc.c\<close>. \<open>CType\<close>, \<open>Stdlib\<close>: \<open>ctype.c\<close>, \<open>stdlib.c\<close>. \<open>Vga\<close>, \<open>Print\<close>: \<open>vga.c\<close>, \<open>print.c\<close>.
  \<^item> \<open>Balloc\<close>: \<open>balloc.c\<close>; the sorted range list stands for a set of addresses.
  \<^item> \<open>Tiling\<close>, \<open>Buddy\<close>, \<open>Buddy_Zone\<close>, \<open>Buddy_Alloc\<close>, \<open>Buddy_System\<close>, \<open>Buddy_Setup\<close>, \<open>Buddy_Properties\<close>: \<open>buddy.c\<close>;
    blocks in use and free blocks tile each zone, free blocks are coalesced.
  \<^item> \<open>Slab\<close> and \<open>Slab_Inv\<close>, \<open>Slab_Ops\<close>, \<open>Slab_Cache\<close>, \<open>Slab_Shrink\<close>, \<open>Slab_Properties\<close>: \<open>slab.c\<close>; \<open>objs s C V X\<close> says that the
    caches \<open>C\<close> have handed out exactly the objects \<open>X\<close>.
  \<^item> \<open>Paging\<close>: \<open>paging.c\<close>. \<open>Pt_Tree\<close> reads the page tables as a tree: the translation \<open>resolve\<close>, the tables and the
    blocks it holds, and that none of them changes with memory outside the tables. \<open>Pt_Grow\<close> (a tree that grows),
    \<open>Pt_Map\<close> (\<open>pt_map\<close>), \<open>Pt_Unmap\<close> (\<open>pt_unmap\<close>) carry \<open>Pt_Properties\<close>.
  \<^item> \<open>Mm\<close>: \<open>mm.c\<close>; \<open>Mm_Regions\<close> and \<open>Mm_Properties\<close> relate the list of regions to the map from
    addresses to permissions that it stands for.
  \<^item> \<open>Kept\<close>, \<open>Slab_Frame\<close>: what the allocators leave alone. On them \<open>Mm_Space\<close> (\<open>space_ok\<close>: a table shows exactly its regions), \<open>Mm_Life\<close>
    and \<open>Mm_Create\<close> follow an address space from \<open>mm_create\<close> to \<open>mm_release\<close>, down to the blocks and objects it holds; \<open>Mm_Bytes\<close>
    has the bytes it sees, \<open>mset\<close> and \<open>mcopy\<close>. \<open>Mm_World\<close> puts any number of them beside the kernel's table (\<open>world\<close>), \<open>Mm_Isolation\<close> has the
    calls as steps (\<open>space_step\<close>), \<open>Space_Sample\<close> a machine that runs them, \<open>Space_Properties\<close> what holds in every state they reach.
  \<^item> \<open>Threads\<close>, \<open>Sync\<close>: \<open>threads.c\<close>, \<open>condition.c\<close>, \<open>mutex.c\<close>. \<open>Sched\<close> is an abstract scheduler on lists of
    threads which every routine refines; \<open>Thread_System\<close> interleaves the routines of all threads
    as a step relation \<open>kstep\<close>; \<open>Thread_Safety\<close> has its invariant and \<open>Thread_Properties\<close> what follows.
  \<^item> \<open>Ramfs\<close>: \<open>ramfs.c\<close>, with \<open>File_Read\<close> for look-up and reading. \<open>Initramfs\<close>, \<open>Initramfs_Properties\<close>: \<open>initramfs.c\<close>.
    \<open>Exec\<close>: \<open>exec.c\<close>.
  \<^item> \<open>Ints\<close>, \<open>Ints_Properties\<close>: \<open>ints.c\<close>, \<open>apic.c\<close>, \<open>time.c\<close>, \<open>syscall.c\<close>, \<open>backtrace.c\<close>. \<open>Kernel\<close>: \<open>main.c\<close>.

  \<^bold>\<open>Interfaces.\<close> The locales \<open>list_store\<close> (disjoint lists), \<open>balanced_lock\<close> (spinlocks), \<open>page_allocator\<close> (buddy
  allocator), \<open>object_cache\<close> (slab caches), \<open>print_sink\<close> (output of the formatter, interpreted for the
  console and for a buffer), \<open>round_robin\<close> (the scheduler's queue) and \<open>kept\<close> (what no allocator call changes) state what the
  clients rely on; each is interpreted on the model of the code.

  \<^bold>\<open>What is shown.\<close> Allocators: no block or object is handed out twice, failure only without memory, release
  returns exactly what was given, the page and object accounts stay exact, loops end. Threads, for every reachable interleaving: mutual
  exclusion, no forgotten waiter, no lost wake-up, an exact ready queue, round-robin order and fairness of
  preemption, no wrong cast. Page tables: \<open>pt_map\<close> gives every
  page of its range fresh memory with the permissions asked for, leaves every other translation alone, succeeds with four free pages for
  each page and otherwise fails cleanly; taking down the user space gives back each block once. Address spaces: \<open>mmap\<close> and \<open>munmap\<close> update the map of permissions as they should and
  keep the list sorted and disjoint. Over any sequence of creating, mapping, filling, copying, storing and releasing, the processes are
  isolated from each other and from all page tables, none notices the others, and those that end leave no trace in the allocators;
  \<open>mset\<close> and \<open>mcopy\<close> write exactly the bytes they should. Files: reads and look-ups are exact. Library: text and number routines against
  their specifications and against each other. Descriptor table: every gate leads to its own
  entry and only the system call is open to user code.

  \<^bold>\<open>Bounds.\<close> No fuel is used. Sizes are assumed below the bounds each theorem states, such as physical memory
  below \<open>2 ^ 47\<close> for the caches and file offsets below \<open>2 ^ 61\<close> for reads, which keep the code's signed
  arithmetic from wrapping, or \<open>low_zones\<close>, frames below \<open>2 ^ 40\<close>, which is what a page table entry can address.

  \<^bold>\<open>Parameters.\<close> What the processor does between leaving a thread and coming back to it is the argument
  \<open>env\<close> of the blocking routines; reads of device registers and of model-specific registers, the addresses
  fixed by the linker (record \<open>image\<close>) and handlers registered by others are arguments as well.

  \<^bold>\<open>Not modelled.\<close> The assembly (\<open>bootstrap.S\<close>, \<open>entry.S\<close>), the translation cache, the messages the allocators print, and the
  directories of earlier weeks, which hold the same kernel before the later parts were added. No theorem says yet
  what a write to a file leaves, or what the loader puts where: these
  operations are modelled, and the theorems about memory and reading apply to what they call.
  The steps of address spaces do not include an \<open>mmap\<close> that fails for lack of memory, since its failure path tears down
  later regions (below), nor \<open>munmap\<close> of a part.
  Unmapping is characterised for the whole user space, as \<open>mm_release\<close> asks for it: over a part of it \<open>__pt_unmap\<close> loses
  its place at absent entries (below).

  \<^bold>\<open>Found.\<close> \<open>user_flags\<close> maps every readable region writable (\<open>Mm_Properties.user_flags_ignore_write\<close>); the failure path
  of \<open>mmap\<close> assigns the wrong bound; its check of the range accepts addresses that are then masked into the kernel's half; \<open>__pt_unmap\<close> does not advance over absent entries; \<open>segment_map\<close> never
  advances the file offset; \<open>strtoul\<close> misplaces a parenthesis; page descriptors are not initialised by
  \<open>buddy_zone_create\<close>.
\<close>

end
